(* ===== verification/Prelude.thy ===== *)
theory Prelude
  imports Main "HOL-Library.AList" "HOL-Library.Product_Lexorder"
begin

text \<open>
  What the component theories share: tables of keyed records with the four
  SurrealQL access forms the storage layer uses (read one record, upsert one
  record, \<open>UPDATE \<dots> WHERE\<close>, \<open>DELETE \<dots> WHERE\<close>), lemmas on them, the Rust
  string helpers several modules use, and the locale of a step system with an
  invariant.

  A table is an association list from record id to row. The position of a row
  stands for the order in which the engine scans it, which no theorem relies on.
  Instants are nanoseconds since the epoch, as \<open>int\<close>.
\<close>

named_theorems tbl "reading a table after it was written"
named_theorems frame "components an operation leaves alone"

type_synonym 'r tbl = "(string \<times> 'r) list"
type_synonym instant = int

section \<open>Tables\<close>

abbreviation row :: "'r tbl \<Rightarrow> string \<Rightarrow> 'r option" where
  "row t k \<equiv> map_of t k"

text \<open>\<open>UPSERT $k SET \<dots>\<close> with a complete new row.\<close>

definition put :: "string \<Rightarrow> 'r \<Rightarrow> 'r tbl \<Rightarrow> 'r tbl" where
  "put k r t = AList.update k r t"

text \<open>\<open>UPDATE table SET \<dots> WHERE \<dots>\<close>; a single record is the filter on its id.\<close>

definition update_where :: "(string \<Rightarrow> 'r \<Rightarrow> bool) \<Rightarrow> ('r \<Rightarrow> 'r) \<Rightarrow> 'r tbl \<Rightarrow> 'r tbl" where
  "update_where P f t = map (\<lambda>(k, r). (k, if P k r then f r else r)) t"

abbreviation update_one :: "string \<Rightarrow> ('r \<Rightarrow> 'r) \<Rightarrow> 'r tbl \<Rightarrow> 'r tbl" where
  "update_one i \<equiv> update_where (\<lambda>k _. k = i)"

definition delete_where :: "(string \<Rightarrow> 'r \<Rightarrow> bool) \<Rightarrow> 'r tbl \<Rightarrow> 'r tbl" where
  "delete_where P t = filter (\<lambda>(k, r). \<not> P k r) t"

text \<open>\<open>SELECT VALUE record::id(id) FROM table WHERE \<dots>\<close>\<close>

definition ids_where :: "(string \<Rightarrow> 'r \<Rightarrow> bool) \<Rightarrow> 'r tbl \<Rightarrow> string list" where
  "ids_where P t = map fst (filter (\<lambda>(k, r). P k r) t)"

text \<open>Record ids are unique: the engine's key-value store guarantees it.\<close>

definition keyed :: "('k \<times> 'r) list \<Rightarrow> bool" where
  "keyed t \<longleftrightarrow> distinct (map fst t)"

lemma row_put [simp, tbl]: "row (put k r t) i = (if i = k then Some r else row t i)"
  by (simp add: put_def update_conv')

lemma row_update_where [simp, tbl]:
  "row (update_where P f t) k = map_option (\<lambda>r. if P k r then f r else r) (row t k)"
  by (induction t) (auto simp: update_where_def)

lemma keys_update_where [simp]: "map fst (update_where P f t) = map fst t"
  by (induction t) (auto simp: update_where_def)

lemma keyed_update_where [simp, intro]: "keyed t \<Longrightarrow> keyed (update_where P f t)"
  by (simp add: keyed_def)

lemma keyed_put [simp, intro]: "keyed t \<Longrightarrow> keyed (put k r t)"
  by (simp add: keyed_def put_def distinct_update)

lemma keyed_delete_where [simp, intro]: "keyed t \<Longrightarrow> keyed (delete_where P t)"
  by (induction t) (auto simp: keyed_def delete_where_def)

lemma keyed_Nil [simp, intro]: "keyed []"
  by (simp add: keyed_def)

lemma row_delete_where [tbl]:
  assumes "keyed t"
  shows "row (delete_where P t) k = (case row t k of None \<Rightarrow> None
     | Some r \<Rightarrow> if P k r then None else Some r)"
  using assms
proof (induction t)
  case Nil
  then show ?case by (simp add: delete_where_def)
next
  case (Cons x t)
  then have "row t (fst x) = None"
    by (auto simp: keyed_def map_of_eq_None_iff)
  with Cons show ?case
    by (cases x) (auto simp: delete_where_def keyed_def split: option.splits)
qed

lemma row_delete_where_SomeD:
  "keyed t \<Longrightarrow> row (delete_where P t) k = Some r \<Longrightarrow> row t k = Some r \<and> \<not> P k r"
  by (auto simp: row_delete_where split: option.splits if_splits)

lemma keyed_row_iff: "keyed t \<Longrightarrow> row t k = Some r \<longleftrightarrow> (k, r) \<in> set t"
  by (simp add: keyed_def)

lemma ids_where_iff:
  "keyed t \<Longrightarrow> k \<in> set (ids_where P t) \<longleftrightarrow> (\<exists>r. row t k = Some r \<and> P k r)"
  by (force simp: ids_where_def keyed_row_iff)

lemma distinct_ids_where: "keyed t \<Longrightarrow> distinct (ids_where P t)"
  by (induction t) (auto simp: ids_where_def keyed_def)

lemma update_where_none:
  "(\<And>k r. (k, r) \<in> set t \<Longrightarrow> \<not> P k r) \<Longrightarrow> update_where P f t = t"
  by (induction t) (auto simp: update_where_def)

lemma set_update_where:
  "set (update_where P f t) = (\<lambda>(k, r). (k, if P k r then f r else r)) ` set t"
  by (simp add: update_where_def)

lemma keyed_memD: "keyed t \<Longrightarrow> (k, r) \<in> set t \<Longrightarrow> row t k = Some r"
  by (simp add: keyed_def)

lemma put_new: "row t k = None \<Longrightarrow> put k r t = t @ [(k, r)]"
  by (induction t) (auto simp: put_def split: if_splits)

section \<open>Rust string helpers\<close>

text \<open>A Rust \<open>str\<close> is its UTF-8 byte sequence; \<open>len\<close> counts bytes.\<close>

fun starts_with :: "string \<Rightarrow> string \<Rightarrow> bool" where
  "starts_with [] _ = True"
| "starts_with (_ # _) [] = False"
| "starts_with (p # ps) (c # cs) = (p = c \<and> starts_with ps cs)"

fun contains :: "string \<Rightarrow> string \<Rightarrow> bool" where
  "contains needle [] = (needle = [])"
| "contains needle (c # cs) = (starts_with needle (c # cs) \<or> contains needle cs)"

lemma starts_with_append [simp]: "starts_with p (p @ s)"
  by (induction p) auto

lemma contains_append: "contains p (u @ p @ s)"
proof (induction u)
  case Nil
  show ?case by (cases "p @ s") (auto, metis starts_with_append)
qed auto

text \<open>Decimal rendering of an unsigned integer (\<open>to_string\<close>, \<open>format!("{n}")\<close>).\<close>

definition digit :: "nat \<Rightarrow> char" where
  "digit d = char_of (48 + d :: nat)"

fun nat_str :: "nat \<Rightarrow> string" where
  "nat_str n = (if n < 10 then [digit n] else nat_str (n div 10) @ [digit (n mod 10)])"

declare nat_str.simps [simp del]

definition is_digit :: "char \<Rightarrow> bool" where
  "is_digit c \<longleftrightarrow> 48 \<le> (of_char c :: nat) \<and> (of_char c :: nat) \<le> 57"

definition digit_val :: "char \<Rightarrow> nat" where
  "digit_val c = of_char c - 48"

lemma digit_is_digit: "d < 10 \<Longrightarrow> is_digit (digit d)"
  by (simp add: is_digit_def digit_def)

lemma digit_val_digit: "d < 10 \<Longrightarrow> digit_val (digit d) = d"
  by (simp add: digit_val_def digit_def)

lemma nat_str_ne: "nat_str n \<noteq> []"
  by (subst nat_str.simps) auto

lemma nat_str_digits: "c \<in> set (nat_str n) \<Longrightarrow> is_digit c"
proof (induction n rule: nat_str.induct)
  case (1 n)
  then show ?case
    by (subst (asm) (2) nat_str.simps) (auto simp: digit_is_digit split: if_splits)
qed

definition digits_value :: "string \<Rightarrow> nat" where
  "digits_value s = foldl (\<lambda>acc c. 10 * acc + digit_val c) 0 s"

lemma digits_value_nat_str: "digits_value (nat_str n) = n"
proof (induction n rule: nat_str.induct)
  case (1 n)
  show ?case
  proof (cases "n < 10")
    case True
    then show ?thesis by (subst nat_str.simps) (simp add: digits_value_def digit_val_digit)
  next
    case False
    with 1 show ?thesis
      by (subst nat_str.simps) (simp add: digits_value_def digit_val_digit)
  qed
qed

lemma nat_str_inject [simp]: "nat_str m = nat_str n \<longleftrightarrow> m = n"
  by (metis digits_value_nat_str)

lemma split_at_first:
  assumes "a @ c # x = b @ c # y" and "c \<notin> set a" and "c \<notin> set b"
  shows "a = b \<and> x = y"
  using assms
proof (induction a arbitrary: b)
  case Nil
  then show ?case by (cases b) auto
next
  case (Cons u a)
  then show ?case by (cases b) auto
qed

section \<open>Step systems\<close>

text \<open>
  A component whose operations are transactions: a set of start states, one
  step per committed operation, and an invariant that starts true and is kept.
  The locale proves once that the invariant holds in every reachable state and
  that a relation every step respects holds along every run.
\<close>

inductive run_of :: "('s \<Rightarrow> 's \<Rightarrow> bool) \<Rightarrow> 's \<Rightarrow> 's \<Rightarrow> bool" for step where
  run_refl [intro]: "run_of step s s"
| run_step [intro]: "run_of step s t \<Longrightarrow> step t u \<Longrightarrow> run_of step s u"

inductive_cases run_ofE: "run_of step s u"

lemma run_trans: "run_of step t u \<Longrightarrow> run_of step s t \<Longrightarrow> run_of step s u"
  by (induction rule: run_of.induct) auto

locale step_system =
  fixes start :: "'s \<Rightarrow> bool"
    and step :: "'s \<Rightarrow> 's \<Rightarrow> bool"
    and inv :: "'s \<Rightarrow> bool"
  assumes inv_start: "start s \<Longrightarrow> inv s"
    and inv_step: "inv s \<Longrightarrow> step s t \<Longrightarrow> inv t"
begin

lemma inv_run: "run_of step s t \<Longrightarrow> inv s \<Longrightarrow> inv t"
  by (induction rule: run_of.induct) (auto intro: inv_step)

lemma inv_reachable: "start s \<Longrightarrow> run_of step s t \<Longrightarrow> inv t"
  by (blast intro: inv_run inv_start)

lemma run_relation:
  assumes refl: "\<And>s. R s s"
    and trans: "\<And>s t u. R s t \<Longrightarrow> R t u \<Longrightarrow> R s u"
    and step: "\<And>s t. inv s \<Longrightarrow> step s t \<Longrightarrow> R s t"
    and run: "run_of step s t" and "inv s"
  shows "R s t"
  using run \<open>inv s\<close>
proof (induction rule: run_of.induct)
  case (run_refl s)
  show ?case by (rule refl)
next
  case (run_step s t u)
  then show ?case by (blast intro: trans step inv_run)
qed

end

text \<open>Every step of a run can be taken from a state in which the invariant holds.\<close>

lemma run_of_mono:
  assumes "\<And>s t. step s t \<Longrightarrow> step' s t" and "run_of step s t"
  shows "run_of step' s t"
  using assms(2) by (induction rule: run_of.induct) (auto intro: assms(1))

context step_system begin

text \<open>What every step keeps of a record while it exists is kept along a run in which it exists.\<close>

lemma kept_along:
  assumes step: "\<And>s t x y. inv s \<Longrightarrow> step s t \<Longrightarrow> f s = Some x \<Longrightarrow> f t = Some y \<Longrightarrow> R x y"
    and refl: "\<And>x. R x x" and trans: "\<And>x y z. R x y \<Longrightarrow> R y z \<Longrightarrow> R x z"
    and run: "run_of (\<lambda>s t. step s t \<and> f t \<noteq> None) s u" and "inv s" and "f s = Some x"
  shows "\<exists>y. f u = Some y \<and> R x y"
  using run assms(5,6)
proof (induction rule: run_of.induct)
  case (run_refl s)
  then show ?case by (auto intro: refl)
next
  case (run_step s t u)
  then obtain y where y: "f t = Some y" "R x y" by blast
  have "run_of step s t" using run_step.hyps(1) by (rule run_of_mono[rotated]) simp
  with run_step.prems have "inv t" by (blast intro: inv_run)
  with run_step.hyps(2) y show ?case by (metis step trans option.exhaust)
qed

lemma run_inv_steps: "run_of step s t \<Longrightarrow> inv s \<Longrightarrow> run_of (\<lambda>s t. inv s \<and> step s t) s t"
proof (induction rule: run_of.induct)
  case (run_step s t u)
  then show ?case by (metis (no_types, lifting) inv_run run_of.run_step)
qed auto

end

section \<open>Fencing by epochs\<close>

text \<open>
  A record that workers take over from each other: whoever takes it raises its epoch. The
  locale states what one step may do to the record while it exists, and proves what a worker
  may conclude from an epoch it holds after any number of steps of others.
\<close>

locale epoch_fence =
  fixes step :: "'s \<Rightarrow> 's \<Rightarrow> bool"
    and rec :: "'s \<Rightarrow> 'r option"
    and epoch :: "'r \<Rightarrow> int"
    and live :: "'r \<Rightarrow> bool"
    and holder :: "'r \<Rightarrow> 'h"
  assumes fence_step: "step s t \<Longrightarrow> rec s = Some r \<Longrightarrow> rec t = Some r' \<Longrightarrow>
    epoch r \<le> epoch r' \<and> (live r' \<longrightarrow> epoch r < epoch r' \<or>
      live r \<and> holder r' = holder r \<and> epoch r' = epoch r)"
begin

definition held :: "'s \<Rightarrow> 'h \<Rightarrow> int \<Rightarrow> bool" where
  "held s h e \<longleftrightarrow> (\<exists>r. rec s = Some r \<and> live r \<and> holder r = h \<and> epoch r = e)"

lemma fence_run:
  assumes "run_of (\<lambda>s t. step s t \<and> rec t \<noteq> None) s t" and "rec s = Some r"
  shows "\<exists>r'. rec t = Some r' \<and> epoch r \<le> epoch r' \<and> (live r' \<longrightarrow> epoch r < epoch r' \<or>
      live r \<and> holder r' = holder r \<and> epoch r' = epoch r)"
  using assms
proof (induction rule: run_of.induct)
  case (run_step s t u)
  then obtain r1 where r1: "rec t = Some r1" "epoch r \<le> epoch r1"
    "live r1 \<longrightarrow> epoch r < epoch r1 \<or> live r \<and> holder r1 = holder r \<and> epoch r1 = epoch r" by blast
  from run_step.hyps obtain r2 where r2: "rec u = Some r2" by auto
  with fence_step[OF _ r1(1) r2] run_step.hyps have
    "epoch r1 \<le> epoch r2" "live r2 \<longrightarrow> epoch r1 < epoch r2 \<or>
      live r1 \<and> holder r2 = holder r1 \<and> epoch r2 = epoch r1" by auto
  with r1 r2 show ?case by auto
qed auto

lemma lost_forever:
  assumes "run_of (\<lambda>s t. step s t \<and> rec t \<noteq> None) s t" and "rec s = Some r"
    and "e \<le> epoch r" and "\<not> held s h e"
  shows "\<not> held t h e"
  using fence_run[OF assms(1,2)] assms(2-4) by (auto simp: held_def)

lemma one_holder:
  assumes "run_of (\<lambda>s t. step s t \<and> rec t \<noteq> None) s t" and "held s h e" and "held t h' e"
  shows "h' = h"
proof -
  from assms(2) obtain r where r: "rec s = Some r" "holder r = h" "epoch r = e"
    by (auto simp: held_def)
  with fence_run[OF assms(1) r(1)] assms(3) show ?thesis by (auto simp: held_def)
qed

end

end
