(* ===== verification/Codec.thy ===== *)
theory Codec
  imports Prelude
begin

text \<open>
  Compound record keys (\<open>storage/codec.rs\<close>): every component is written with its
  byte length, so no separator inside a component can make two keys collide.
  \<open>decode\<close> computes \<open>colon + 1 + len\<close> on \<open>usize\<close> from a length it has just
  parsed; the model has the overflow: a panic where the build checks overflow
  (\<open>debug_assertions\<close>), a wrap-around where it does not (release). \<open>usize\<close> is 64
  bits wide.
\<close>

datatype 'a outcome = Panicked | Returned 'a

definition usize_limit :: nat where
  "usize_limit = 2 ^ 64"

fun encode_from :: "nat \<Rightarrow> string list \<Rightarrow> string" where
  "encode_from i [] = []"
| "encode_from i (part # parts) =
     (if i > 0 then ''|'' else []) @ nat_str (length part) @ '':'' @ part
       @ encode_from (Suc i) parts"

definition encode :: "string list \<Rightarrow> string" where
  "encode parts = encode_from 0 parts"

text \<open>\<open>str::find\<close> of an ASCII character: the byte index of its first occurrence.\<close>

fun find_char :: "char \<Rightarrow> string \<Rightarrow> nat option" where
  "find_char c [] = None"
| "find_char c (x # xs) = (if x = c then Some 0 else map_option Suc (find_char c xs))"

text \<open>\<open>str::parse::<usize>\<close>: an optional \<open>+\<close>, then digits, within the type.\<close>

definition parse_usize :: "string \<Rightarrow> nat option" where
  "parse_usize s =
     (let ds = (case s of c # cs \<Rightarrow> if c = CHR ''+'' then cs else s | [] \<Rightarrow> s)
      in if ds \<noteq> [] \<and> list_all is_digit ds \<and> digits_value ds < usize_limit
         then Some (digits_value ds) else None)"

text \<open>\<open>str::is_char_boundary\<close>: an end, or a byte that continues no character.\<close>

definition char_boundary :: "string \<Rightarrow> nat \<Rightarrow> bool" where
  "char_boundary s i \<longleftrightarrow> i = 0 \<or> i = length s
     \<or> (i < length s \<and> \<not> (128 \<le> (of_char (s ! i) :: nat) \<and> (of_char (s ! i) :: nat) < 192))"

text \<open>\<open>str::get(a..b)\<close>\<close>

definition str_get :: "string \<Rightarrow> nat \<Rightarrow> nat \<Rightarrow> string option" where
  "str_get s a b = (if a \<le> b \<and> b \<le> length s \<and> char_boundary s a \<and> char_boundary s b
     then Some (take (b - a) (drop a s)) else None)"

text \<open>\<open>a + b\<close> on \<open>usize\<close> in a build with (\<open>checks\<close>) or without overflow checks.\<close>

definition usize_add :: "bool \<Rightarrow> nat \<Rightarrow> nat \<Rightarrow> nat outcome" where
  "usize_add checks a b =
     (if a + b < usize_limit then Returned (a + b)
      else if checks then Panicked else Returned ((a + b) mod usize_limit))"

function decode_loop :: "bool \<Rightarrow> string list \<Rightarrow> string \<Rightarrow> string list option outcome" where
  "decode_loop checks parts rest =
     (case find_char CHR '':'' rest of
        None \<Rightarrow> Returned None
      | Some colon \<Rightarrow>
          (case parse_usize (take colon rest) of
             None \<Rightarrow> Returned None
           | Some len \<Rightarrow>
               (case usize_add checks (colon + 1) len of
                  Panicked \<Rightarrow> Panicked
                | Returned stop \<Rightarrow>
                    (case str_get rest (colon + 1) stop of
                       None \<Rightarrow> Returned None
                     | Some body \<Rightarrow>
                         (let rest' = drop stop rest in
                          if rest' = [] then Returned (Some (parts @ [body]))
                          else if starts_with ''|'' rest'
                          then decode_loop checks (parts @ [body]) (drop 1 rest')
                          else Returned None)))))"
  by pat_completeness auto
termination
  by (relation "measure (\<lambda>(checks, parts, rest). length rest)") auto

declare decode_loop.simps [simp del]

definition decode :: "bool \<Rightarrow> string \<Rightarrow> string list option outcome" where
  "decode checks key = decode_loop checks [] key"

section \<open>Injectivity and round trip\<close>

lemma colon_not_in_nat_str: "CHR '':'' \<notin> set (nat_str n)"
  using nat_str_digits by (fastforce simp: is_digit_def)

lemma plus_not_hd_nat_str: "nat_str n = c # cs \<Longrightarrow> c \<noteq> CHR ''+''"
  using nat_str_digits[of c n] by (auto simp: is_digit_def)

lemma bar_not_hd_nat_str: "nat_str n @ xs \<noteq> CHR ''|'' # ys"
proof
  assume "nat_str n @ xs = CHR ''|'' # ys"
  then obtain cs where "nat_str n = CHR ''|'' # cs"
    using nat_str_ne[of n] by (cases "nat_str n") auto
  then show False using nat_str_digits[of "CHR ''|''" n] by (simp add: is_digit_def)
qed

lemma encode_from_ne: "encode_from i (p # ps) \<noteq> []"
  by simp

lemma encode_from_inject: "encode_from i xs = encode_from i ys \<Longrightarrow> xs = ys"
proof (induction xs arbitrary: i ys)
  case Nil
  then show ?case by (cases ys) auto
next
  case (Cons p ps)
  then obtain q qs where ys: "ys = q # qs" by (cases ys) auto
  let ?r = "\<lambda>ps. encode_from (Suc i) ps"
  from Cons.prems have
    "nat_str (length p) @ CHR '':'' # (p @ ?r ps) = nat_str (length q) @ CHR '':'' # (q @ ?r qs)"
    by (simp add: ys)
  from split_at_first[OF this colon_not_in_nat_str colon_not_in_nat_str]
  have "p = q \<and> ?r ps = ?r qs" by auto
  with Cons.IH ys show ?case by blast
qed

lemma encode_inject: "encode xs = encode ys \<Longrightarrow> xs = ys"
  by (simp add: encode_def encode_from_inject)

lemma find_char_append: "c \<notin> set a \<Longrightarrow> find_char c (a @ c # b) = Some (length a)"
  by (induction a) auto

lemma parse_usize_nat_str:
  assumes "n < usize_limit" shows "parse_usize (nat_str n) = Some n"
proof -
  obtain c cs where s: "nat_str n = c # cs" using nat_str_ne by (cases "nat_str n") auto
  have "list_all is_digit (nat_str n)" by (auto simp: list_all_iff dest: nat_str_digits)
  with s plus_not_hd_nat_str[OF s] assms show ?thesis
    using digits_value_nat_str[of n] by (auto simp: parse_usize_def Let_def)
qed

text \<open>Every Rust \<open>str\<close> starts on a character boundary.\<close>

definition rust_str :: "string \<Rightarrow> bool" where
  "rust_str s \<longleftrightarrow> s = [] \<or> \<not> (128 \<le> (of_char (hd s) :: nat) \<and> (of_char (hd s) :: nat) < 192)"

lemma str_get_component:
  assumes "rust_str (p @ r)" and "r = [] \<or> starts_with ''|'' r"
  shows "str_get (a @ p @ r) (length a) (length a + length p) = Some p"
proof -
  have "char_boundary (a @ p @ r) (length a)"
    using assms(1) by (cases "p @ r") (auto simp: char_boundary_def rust_str_def nth_append)
  moreover have "char_boundary (a @ p @ r) (length a + length p)"
    using assms(2) by (cases r) (auto simp: char_boundary_def nth_append)
  ultimately show ?thesis by (simp add: str_get_def)
qed

lemma rust_str_append: "rust_str p \<Longrightarrow> r = [] \<or> starts_with ''|'' r \<Longrightarrow> rust_str (p @ r)"
  by (cases p; cases r) (auto simp: rust_str_def)

lemma encode_from_start: "0 < i \<Longrightarrow> encode_from i ps = [] \<or> starts_with ''|'' (encode_from i ps)"
  by (cases ps) auto

lemma decode_loop_component:
  assumes "rust_str p" and "r = [] \<or> starts_with ''|'' r"
    and "length (nat_str (length p) @ '':'' @ p @ r) < usize_limit"
  shows "decode_loop checks acc (nat_str (length p) @ '':'' @ p @ r) =
    (if r = [] then Returned (Some (acc @ [p])) else decode_loop checks (acc @ [p]) (drop 1 r))"
proof -
  let ?n = "nat_str (length p)"
  let ?rest = "?n @ '':'' @ p @ r"
  have find: "find_char CHR '':'' ?rest = Some (length ?n)"
    by (simp add: find_char_append colon_not_in_nat_str)
  have parse: "parse_usize (take (length ?n) ?rest) = Some (length p)"
    using assms(3) by (simp add: parse_usize_nat_str)
  have add: "usize_add checks (length ?n + 1) (length p) = Returned (length ?n + 1 + length p)"
    using assms(3) by (simp add: usize_add_def)
  have get: "str_get ?rest (length ?n + 1) (length ?n + 1 + length p) = Some p"
    using str_get_component[of p r "?n @ '':''"] assms(1,2) rust_str_append by simp
  have dr: "drop (length ?n + 1 + length p) ?rest = r"
    by simp
  show ?thesis
    using assms(2) by (subst decode_loop.simps) (simp only: find parse add get dr option.case
      outcome.case Let_def, auto)
qed

lemma encode_from_Suc: "encode_from (Suc i) ps = encode_from (Suc 0) ps"
proof (induction ps arbitrary: i)
  case (Cons p ps)
  show ?case using Cons.IH[of "Suc i"] Cons.IH[of "Suc 0"] by simp
qed simp

lemma encode_from_drop_bar: "drop 1 (encode_from (Suc 0) (q # qs)) = encode_from 0 (q # qs)"
  by (simp add: encode_from_Suc[of "Suc 0"])

lemma decode_loop_encode:
  assumes "parts \<noteq> []" and "\<forall>p\<in>set parts. rust_str p"
    and "length (encode_from 0 parts) < usize_limit"
  shows "decode_loop checks acc (encode_from 0 parts) = Returned (Some (acc @ parts))"
  using assms
proof (induction parts arbitrary: acc)
  case Nil
  then show ?case by simp
next
  case (Cons p ps)
  let ?r = "encode_from (Suc 0) ps"
  have step: "decode_loop checks acc (encode_from 0 (p # ps)) =
    (if ?r = [] then Returned (Some (acc @ [p])) else decode_loop checks (acc @ [p]) (drop 1 ?r))"
    using decode_loop_component[of p ?r checks acc] Cons.prems encode_from_start[of "Suc 0" ps]
    by simp
  show ?case
  proof (cases ps)
    case Nil
    with step show ?thesis by simp
  next
    case (Cons q qs)
    then have shift: "drop 1 ?r = encode_from 0 ps" and "?r \<noteq> []"
      using encode_from_drop_bar by auto
    then have "length (encode_from 0 ps) \<le> length ?r" by (metis diff_le_self length_drop)
    with Cons.prems(3) have "length (encode_from 0 ps) < usize_limit" by simp
    with step shift \<open>?r \<noteq> []\<close> Cons Cons.IH Cons.prems(2) show ?thesis by simp
  qed
qed

section \<open>Properties\<close>

text \<open>distinct component lists never share a key: \<open>encode\<close> is injective, whatever
  separators the components contain.\<close>

lemma encode_injective: "encode xs = encode ys \<longleftrightarrow> xs = ys"
  by (auto dest: encode_inject)

text \<open>C12: \<open>decode\<close> recovers the exact components of every key \<open>encode\<close> makes from a
  non-empty list of Rust strings that fits in memory, with or without overflow checks.\<close>

theorem decode_encode:
  assumes "parts \<noteq> []" and "\<forall>p\<in>set parts. rust_str p"
    and "length (encode parts) < usize_limit"
  shows "decode checks (encode parts) = Returned (Some parts)"
  using assms decode_loop_encode[of parts checks "[]"] by (simp add: decode_def encode_def)

theorem decode_encode_witness:
  "decode True (encode [''3:abc'', ''|'', '''', ''x|y'']) =
     Returned (Some [''3:abc'', ''|'', '''', ''x|y''])"
  by (rule decode_encode) (simp_all add: rust_str_def encode_def usize_limit_def nat_str.simps)

lemma decode_loop_release: "decode_loop checks parts rest = Panicked \<Longrightarrow> checks"
proof (induction checks parts rest rule: decode_loop.induct)
  case (1 checks parts rest)
  show ?case
  proof (rule ccontr)
    assume no: "\<not> checks"
    have add: "usize_add checks a b \<noteq> Panicked" for a b
      using no by (simp add: usize_add_def)
    show False
      using "1.prems" "1.IH" no add
      by (subst (asm) decode_loop.simps) (simp only: Let_def outcome.distinct split: option.splits outcome.splits if_splits, blast)
  qed
qed

text \<open>a release build never panics in \<open>decode\<close>, but the promise that any key not made
  by \<open>encode\<close> gives \<open>None\<close> fails twice: with overflow checks a length close to
  \<open>usize::MAX\<close> panics, and a length written with \<open>+\<close> or a leading zero is accepted.\<close>

lemma decode_malformed:
  "decode False key \<noteq> Panicked
   \<and> decode True ''18446744073709551615:'' = Panicked
   \<and> decode False ''18446744073709551615:'' = Returned None
   \<and> decode checks ''+1:a'' = Returned (Some [''a'']) \<and> encode [''a''] \<noteq> ''+1:a''
   \<and> decode checks ''01:a'' = Returned (Some [''a'']) \<and> encode [''a''] \<noteq> ''01:a''"
  using decode_loop_release[of False "[]" key]
  by (auto simp: decode_def decode_loop.simps parse_usize_def is_digit_def digits_value_def
    digit_val_def usize_add_def usize_limit_def str_get_def char_boundary_def encode_def
    nat_str.simps digit_def)

end
