(* ===== verification/Tx.thy ===== *)
theory Tx
  imports Prelude
begin

text \<open>
  The transaction runner (\<open>storage/tx.rs\<close>) and the conflict classification it uses
  (\<open>storage/error.rs\<close>). A body is a function from the snapshot it reads to an
  error or a value with the state it would commit. What the engine and the other
  clients do around one attempt is an \<open>attempt_env\<close>: whether \<open>begin\<close> fails, which
  transactions of others commit before the snapshot, and how \<open>COMMIT\<close> ends; a commit
  that fails may still have been applied (the connection broke before the reply).
\<close>

section \<open>Errors\<close>

text \<open>The parts of \<open>surrealdb::Error\<close> the code reads: kind, message and query details.\<close>

datatype error_kind =
    Query_Kind | Internal_Kind | Validation_Kind | Already_Exists_Kind | Not_Found_Kind | Not_Allowed_Kind
  | Serialization_Kind | Other_Kind
datatype query_error = Transaction_Conflict | Cancelled_Query | Other_Query

record db_error =
  err_kind :: error_kind
  err_message :: string
  query_details :: "query_error option"

definition conflict_marker :: string where
  "conflict_marker = ''Transaction conflict''"

definition retry_marker :: string where
  "retry_marker = ''can be retried''"

definition is_unstructured_conflict :: "db_error \<Rightarrow> bool" where
  "is_unstructured_conflict e \<longleftrightarrow> err_kind e = Internal_Kind
     \<and> contains conflict_marker (err_message e) \<and> contains retry_marker (err_message e)"

definition is_conflict_error :: "db_error \<Rightarrow> bool" where
  "is_conflict_error e \<longleftrightarrow>
     query_details e = Some Transaction_Conflict \<or> is_unstructured_conflict e"

definition normalize_error :: "db_error \<Rightarrow> db_error" where
  "normalize_error e = (if is_unstructured_conflict e
     then \<lparr>err_kind = Query_Kind, err_message = err_message e,
           query_details = Some Transaction_Conflict\<rparr>
     else e)"

datatype tx_error =
    Db db_error
  | Contention nat
  | Abort string
  | PublisherStopped
  | PublisherDropped

definition tx_error_from :: "db_error \<Rightarrow> tx_error" where
  "tx_error_from e = Db (normalize_error e)"

definition is_conflict :: "tx_error \<Rightarrow> bool" where
  "is_conflict e = (case e of Db d \<Rightarrow> is_conflict_error d | _ \<Rightarrow> False)"

text \<open>
  The engine's refusal of a statement: a failed assertion or a value the schema does not admit is a
  query error without details, a record whose id or unique index entry exists already has a kind of its
  own. Neither is a conflict, so the runner does not retry it.
\<close>

definition refused :: "string \<Rightarrow> tx_error" where
  "refused why = Db \<lparr>err_kind = Query_Kind, err_message = why, query_details = None\<rparr>"

definition already_exists :: tx_error where
  "already_exists = Db \<lparr>err_kind = Already_Exists_Kind, err_message = ''already exists'', query_details = None\<rparr>"

definition field_mismatch :: tx_error where
  "field_mismatch = refused ''field type mismatch''"

section \<open>Retry policy and backoff\<close>

text \<open>Durations are nanoseconds; \<open>Duration::MAX\<close> bounds \<open>saturating_mul\<close>.\<close>

record retry_policy =
  max_attempts :: nat
  base :: nat
  cap :: nat

definition default_policy :: retry_policy where
  "default_policy = \<lparr>max_attempts = 6, base = 5000000, cap = 200000000\<rparr>"

definition duration_max :: nat where
  "duration_max = (2 ^ 64 - 1) * 1000000000 + 999999999"

text \<open>
  \<open>backoff\<close> with the value \<open>jitter\<close> the random hasher gave. \<open>as_nanos() as u64\<close>
  truncates; \<open>nanos + 1\<close> on \<open>u64::MAX\<close> panics (as an overflow, or as a remainder
  by zero after wrapping), which is \<open>None\<close>.
\<close>

definition backoff_ceiling :: "retry_policy \<Rightarrow> nat \<Rightarrow> nat" where
  "backoff_ceiling p retry =
     min (min (base p * 2 ^ (min (retry - 1) 16)) duration_max) (cap p)"

definition backoff :: "nat \<Rightarrow> retry_policy \<Rightarrow> nat \<Rightarrow> nat option" where
  "backoff jitter p retry =
     (let nanos = backoff_ceiling p retry mod 2 ^ 64
      in if nanos = 0 then Some 0
         else if nanos = 2 ^ 64 - 1 then None
         else Some (jitter mod (nanos + 1)))"

section \<open>The runner\<close>

datatype commit_reply = Committed_Ok | Commit_Failed db_error bool
  \<comment> \<open>the flag of a failed commit: it was applied although the reply was an error\<close>

record 's attempt_env =
  begin_error :: "db_error option"
  others :: "'s \<Rightarrow> 's"
  commit_reply :: commit_reply

record 'a committed =
  outcome_value :: 'a
  retries :: nat

type_synonym ('s, 'a) body = "'s \<Rightarrow> tx_error + ('a \<times> 's)"

text \<open>
  \<open>for attempt in 0..attempts\<close>, with \<open>left\<close> attempts to go. The body is an
  \<open>FnMut\<close> that may count its calls, so it is a family indexed by the attempt.
\<close>

fun run_attempts ::
  "(nat \<Rightarrow> 's attempt_env) \<Rightarrow> (nat \<Rightarrow> ('s, 'a) body) \<Rightarrow> nat \<Rightarrow> nat \<Rightarrow> nat \<Rightarrow> 's
     \<Rightarrow> (tx_error + 'a committed) \<times> 's" where
  "run_attempts env body attempts attempt 0 s = (Inl (Contention attempts), s)"
| "run_attempts env body attempts attempt (Suc left) s =
     (let e = env attempt; snap = others e s in
      case begin_error e of
        Some err \<Rightarrow> (Inl (tx_error_from err), snap)
      | None \<Rightarrow>
          (case body attempt snap of
             Inr (v, s') \<Rightarrow>
               (case commit_reply e of
                  Committed_Ok \<Rightarrow> (Inr \<lparr>outcome_value = v, retries = attempt\<rparr>, s')
                | Commit_Failed err applied \<Rightarrow>
                    (let after = (if applied then s' else snap) in
                     if is_conflict (tx_error_from err)
                     then run_attempts env body attempts (Suc attempt) left after
                     else (Inl (tx_error_from err), after)))
           | Inl err \<Rightarrow>
               if is_conflict err
               then run_attempts env body attempts (Suc attempt) left snap
               else (Inl err, snap)))"

definition run_tx ::
  "(nat \<Rightarrow> 's attempt_env) \<Rightarrow> retry_policy \<Rightarrow> (nat \<Rightarrow> ('s, 'a) body) \<Rightarrow> 's
     \<Rightarrow> (tx_error + 'a committed) \<times> 's" where
  "run_tx env p body s =
     (let attempts = max (max_attempts p) 1 in run_attempts env body attempts 0 attempts s)"

section \<open>Conflict classification\<close>

lemma is_conflict_normalize: "is_conflict_error (normalize_error e) = is_conflict_error e"
  by (simp add: normalize_error_def is_conflict_error_def)

text \<open>normalizing keeps the classification, is idempotent, leaves every other error
  alone, and leaves no conflict in the unstructured form.\<close>

lemma normalize_classifies:
  "is_conflict (tx_error_from e) = is_conflict_error e
   \<and> normalize_error (normalize_error e) = normalize_error e
   \<and> (is_conflict_error e \<or> normalize_error e = e)
   \<and> (is_conflict_error e = (query_details (normalize_error e) = Some Transaction_Conflict))"
  by (auto simp: is_conflict_def tx_error_from_def is_conflict_normalize normalize_error_def
    is_unstructured_conflict_def is_conflict_error_def)

section \<open>The runner's contract\<close>

text \<open>The engine's documented promise: a commit it rejects as a conflict is not applied.\<close>

definition conflict_not_applied :: "'s attempt_env \<Rightarrow> bool" where
  "conflict_not_applied e = (case commit_reply e of Committed_Ok \<Rightarrow> True
     | Commit_Failed err applied \<Rightarrow> is_conflict_error err \<longrightarrow> \<not> applied)"

text \<open>The state after the transactions of others up to and including attempt \<open>n\<close>.\<close>

fun others_until :: "(nat \<Rightarrow> 's attempt_env) \<Rightarrow> nat \<Rightarrow> nat \<Rightarrow> 's \<Rightarrow> 's" where
  "others_until env from 0 s = others (env from) s"
| "others_until env from (Suc n) s = others_until env (Suc from) n (others (env from) s)"

lemma is_conflict_from [simp]: "is_conflict (tx_error_from e) = is_conflict_error e"
  by (simp add: is_conflict_def tx_error_from_def is_conflict_normalize)

lemma conflict_not_appliedD:
  "conflict_not_applied e \<Longrightarrow> commit_reply e = Commit_Failed err b \<Longrightarrow> is_conflict_error err \<Longrightarrow> \<not> b"
  by (simp add: conflict_not_applied_def)

lemma run_attempts_ok:
  assumes "\<And>n. conflict_not_applied (env n)"
    and "run_attempts env body attempts attempt left s = (Inr c, t)"
  shows "attempt \<le> retries c \<and> retries c < attempt + left
    \<and> body (retries c) (others_until env attempt (retries c - attempt) s) = Inr (outcome_value c, t)"
  using assms(2)
proof (induction left arbitrary: attempt s)
  case (Suc left)
  let ?e = "env attempt" and ?snap = "others (env attempt) s"
  have rec: ?case if r: "run_attempts env body attempts (Suc attempt) left ?snap = (Inr c, t)"
  proof -
    from Suc.IH[OF r] have "Suc attempt \<le> retries c" and "retries c < Suc attempt + left"
      and "body (retries c) (others_until env (Suc attempt) (retries c - Suc attempt) ?snap) = Inr (outcome_value c, t)"
      by auto
    moreover have "retries c - attempt = Suc (retries c - Suc attempt)"
      using \<open>Suc attempt \<le> retries c\<close> by simp
    ultimately show ?thesis by simp
  qed
  from Suc.prems conflict_not_appliedD[OF assms(1)[of attempt]]
  have "run_attempts env body attempts (Suc attempt) left ?snap = (Inr c, t)
    \<or> retries c = attempt \<and> body attempt ?snap = Inr (outcome_value c, t)"
    by (auto simp: Let_def split: option.splits sum.splits commit_reply.splits if_splits
      prod.splits)
  with rec show ?case by auto
qed simp

text \<open>C9: a transaction that reports success took effect exactly once and atomically: its
  final state is the body run on one snapshot, the state left by the other clients'
  transactions up to that attempt, and it needed fewer attempts than the policy allows.\<close>

theorem run_tx_atomic:
  assumes "\<And>n. conflict_not_applied (env n)"
    and "run_tx env p body s = (Inr c, t)"
  shows "retries c < max (max_attempts p) 1
    \<and> body (retries c) (others_until env 0 (retries c) s) = Inr (outcome_value c, t)"
  using run_attempts_ok[OF assms(1), where attempt = 0] assms(2)
  by (fastforce simp: run_tx_def Let_def)

definition demo_env :: "nat \<Rightarrow> nat attempt_env" where
  "demo_env n = \<lparr>begin_error = None, others = (\<lambda>s. s + 10),
     commit_reply = (if n = 0 then Commit_Failed \<lparr>err_kind = Query_Kind, err_message = [],
        query_details = Some Transaction_Conflict\<rparr> False else Committed_Ok)\<rparr>"

lemma demo_env_no_apply: "conflict_not_applied (demo_env n)"
  by (simp add: demo_env_def conflict_not_applied_def)

definition demo_policy :: retry_policy where
  "demo_policy = \<lparr>max_attempts = 2, base = 5, cap = 20\<rparr>"

lemma run_tx_demo:
  "run_tx env demo_policy body s = run_attempts env body 2 0 (Suc (Suc 0)) s"
  by (simp add: run_tx_def demo_policy_def numeral_2_eq_2)

theorem run_tx_atomic_witness:
  "retries \<lparr>outcome_value = (), retries = 1\<rparr> < max (max_attempts demo_policy) 1
   \<and> Inr ((), Suc (others_until demo_env 0 1 0)) = (Inr ((), 21) :: tx_error + unit \<times> nat)"
proof -
  have "run_tx demo_env demo_policy (\<lambda>_ s. Inr ((), Suc s)) 0 =
    (Inr \<lparr>outcome_value = (), retries = 1\<rparr>, 21)"
    unfolding run_tx_demo by (simp add: demo_env_def is_conflict_error_def)
  from run_tx_atomic[OF demo_env_no_apply this] show ?thesis by simp
qed

text \<open>The body only ever ran against states that others left: on an error that the
  engine did not apply, nothing of the body remains.\<close>

definition never_applied :: "'s attempt_env \<Rightarrow> bool" where
  "never_applied e = (case commit_reply e of Committed_Ok \<Rightarrow> True | Commit_Failed _ b \<Rightarrow> \<not> b)"

lemma run_attempts_error:
  assumes "\<And>n. never_applied (env n)"
    and "run_attempts env body attempts attempt left s = (Inl e, t)"
  shows "t = s \<or> (\<exists>n<left. t = others_until env attempt n s)"
  using assms(2)
proof (induction left arbitrary: attempt s)
  case (Suc left)
  let ?snap = "others (env attempt) s"
  have here: "\<exists>n<Suc left. ?snap = others_until env attempt n s"
    by (rule exI[of _ 0]) simp
  have rec: "\<exists>n<Suc left. t = others_until env attempt n s"
    if r: "run_attempts env body attempts (Suc attempt) left ?snap = (Inl e, t)"
    using Suc.IH[OF r] here by (metis Suc_mono others_until.simps(2))
  from assms(1)[of attempt] have "commit_reply (env attempt) = Commit_Failed err b \<Longrightarrow> \<not> b" for err b
    by (simp add: never_applied_def)
  with Suc.prems here rec show ?case
    by (auto simp: Let_def split: option.splits sum.splits commit_reply.splits if_splits
      prod.splits)
qed simp

text \<open>a transaction that reports an error which the engine did not apply leaves no
  trace: the state is the start state, or what the other clients' transactions made of it.\<close>

lemma run_tx_error_leaves_nothing:
  assumes "\<And>n. never_applied (env n)"
    and "run_tx env p body s = (Inl e, t)"
  shows "t = s \<or> (\<exists>n<max (max_attempts p) 1. t = others_until env 0 n s)"
  using run_attempts_error[of env, OF assms(1)] assms(2) by (simp add: run_tx_def Let_def)

theorem run_tx_error_leaves_nothing_witness:
  "(20::nat) = 0 \<or> (\<exists>n<max (max_attempts demo_policy) 1. 20 = others_until demo_env 0 n 0)"
proof -
  have never: "never_applied (demo_env n)" for n
    by (simp add: demo_env_def never_applied_def)
  have "run_tx demo_env demo_policy
      (\<lambda>_ s. if s = 20 then Inl (Abort ''no'') else Inr ((), Suc s)) 0 = (Inl (Abort ''no''), 20)"
    unfolding run_tx_demo by (simp add: demo_env_def is_conflict_error_def, simp add: is_conflict_def)
  from run_tx_error_leaves_nothing[OF never this] show ?thesis by simp
qed

section \<open>Backoff\<close>

text \<open>every delay is within the cap and within the doubling ceiling of its retry, and
  no \<open>u64\<close> arithmetic panics, for every policy whose cap fits below \<open>u64::MAX\<close>.\<close>

lemma backoff_bounded:
  assumes "cap p < 2 ^ 64 - 1"
  shows "\<exists>d. backoff jitter p retry = Some d \<and> d \<le> cap p \<and> d \<le> base p * 2 ^ min (retry - 1) 16"
proof -
  let ?c = "backoff_ceiling p retry"
  have "?c \<le> cap p" and le: "?c \<le> base p * 2 ^ min (retry - 1) 16"
    by (simp_all add: backoff_ceiling_def)
  with assms have "?c < 2 ^ 64 - 1" by linarith
  then have mod: "?c mod 2 ^ 64 = ?c" and "?c \<noteq> 2 ^ 64 - 1" by simp_all
  have "jitter mod (?c + 1) \<le> ?c"
    using mod_less_divisor[of "?c + 1" jitter] by linarith
  then have "jitter mod (?c + 1) \<le> cap p" and "jitter mod (?c + 1) \<le> base p * 2 ^ min (retry - 1) 16"
    using \<open>?c \<le> cap p\<close> le by linarith+
  with mod show ?thesis using \<open>?c \<noteq> 2 ^ 64 - 1\<close> by (simp add: backoff_def Let_def)
qed

theorem backoff_bounded_witness:
  "\<exists>d. backoff 123456789 default_policy 3 = Some d \<and> d \<le> 200000000 \<and> d \<le> 5000000 * 2 ^ min (3 - 1) 16"
  using backoff_bounded[of default_policy 123456789 3] by (simp add: default_policy_def)

section \<open>Undisturbed transactions\<close>

text \<open>An attempt nobody disturbs.\<close>

definition undisturbed :: "'s attempt_env \<Rightarrow> bool" where
  "undisturbed e \<longleftrightarrow> begin_error e = None \<and> others e = (\<lambda>s. s) \<and> commit_reply e = Committed_Ok"

lemma run_tx_quiet:
  assumes "\<And>n. undisturbed (net n)"
  shows "body 0 s = Inr (v, t) \<Longrightarrow> run_tx net p body s = (Inr \<lparr>outcome_value = v, retries = 0\<rparr>, t)"
    and "body 0 s = Inl e \<Longrightarrow> \<not> is_conflict e \<Longrightarrow> run_tx net p body s = (Inl e, s)"
proof -
  obtain n where n: "max (max_attempts p) 1 = Suc n" by (metis max.cobounded2 Suc_le_D One_nat_def)
  show "body 0 s = Inr (v, t) \<Longrightarrow> run_tx net p body s = (Inr \<lparr>outcome_value = v, retries = 0\<rparr>, t)"
    "body 0 s = Inl e \<Longrightarrow> \<not> is_conflict e \<Longrightarrow> run_tx net p body s = (Inl e, s)"
    using assms[of 0] unfolding run_tx_def Let_def n undisturbed_def by simp_all
qed

text \<open>A value the runner returns is one the body returned.\<close>

lemma run_attempts_value:
  "run_attempts env body n a left s = (Inr c, t) \<Longrightarrow> \<exists>a' s' t'. body a' s' = Inr (outcome_value c, t')"
proof (induction left arbitrary: a s)
  case (Suc left)
  then show ?case
    by (auto simp: Let_def split: option.splits sum.splits prod.splits commit_reply.splits if_splits) blast
qed simp

end
