(* ===== verification/Job_Store.thy ===== *)
theory Job_Store
  imports Codec Tx
begin

text \<open>
  The state of the durable job system (\<open>storage/jobs.rs\<close>, schema
  \<open>storage/schema/jobs.surql\<close>): one record field per table, one record type per
  row, and the operations that create rows: guards, receipts, lifecycle events, jobs
  and tasks. A SurrealQL statement of the source is a state change here; a statement
  that the engine refuses (creating a record that exists) aborts the transaction with
  \<open>already_exists\<close>. \<open>i64\<close> columns are \<open>int\<close>.
\<close>

section \<open>Rows and tables\<close>

record job =
  j_kind :: string
  j_operation :: string
  j_parent :: "string option"
  j_ancestors :: "string list"
  j_root :: string
  j_state :: string
  j_cancel_requested :: bool
  j_stopped :: bool
  j_phase :: string
  j_created_at :: instant
  j_updated_at :: instant
  j_finished_at :: "instant option"
  j_app :: string
  j_title :: string
  j_run_ref :: string
  j_resource_ref :: string
  j_result_ref :: string
  j_error_category :: string
  j_error_summary :: string
  j_correlation_id :: string
  j_worker_owner :: string
  j_progress_done :: "int option"
  j_progress_total :: "int option"
  j_heartbeat_at :: "instant option"
  j_active_since :: "instant option"
  j_active_ms :: "int option"
  j_queue_ms :: "int option"
  j_attempts_used :: int
  j_attempt_cap :: int
  j_cancellable :: bool
  j_provider :: string
  j_model :: string
  j_tool :: string
  j_stage_coverage_json :: string
  j_retry_wait_ms :: "int option"

record task =
  t_job :: string
  t_root :: string
  t_pool :: string
  t_operation :: string
  t_state :: string
  t_priority :: int
  t_deps :: "string list"
  t_input_hash :: string
  t_output_hash :: string
  t_lease_owner :: string
  t_process_owner :: string
  t_lease_until :: "instant option"
  t_lease_epoch :: int
  t_attempts :: int
  t_recoveries :: int
  t_created_at :: instant
  t_next_eligible_at :: instant
  t_started_at :: "instant option"
  t_heartbeat_at :: "instant option"
  t_finished_at :: "instant option"
  t_updated_at :: instant
  t_max_attempts :: int
  t_active_ms :: int
  t_error_category :: string
  t_error_message :: string

record attempt =
  a_task :: string
  a_root :: string
  a_number :: int
  a_epoch :: int
  a_owner :: string
  a_started_at :: instant
  a_finished_at :: "instant option"
  a_outcome :: string
  a_duration_ms :: "int option"

record stage_output =
  so_task :: string
  so_root :: string
  so_stage :: string
  so_output_hash :: string
  so_output_json :: string
  so_committed_at :: instant

record neighborhood =
  nb_task :: string
  nb_body :: string
  nb_route :: string
  nb_generated_at :: instant

record brief_run =
  b_article :: string
  b_generation :: int
  b_job :: string
  b_input_revision :: string
  b_state :: string
  b_updated_at :: instant

record receipt =
  r_kind :: string
  r_task :: string
  r_epoch :: int
  r_at :: instant

record retirement =
  ret_at :: instant
  ret_reason :: string

record event =
  e_job_id :: string
  e_app :: string
  e_type :: string
  e_severity :: string
  e_message :: string
  e_ts :: instant

record process =
  p_pid :: int
  p_started_at :: instant
  p_heartbeat_at :: instant

record refresh_note =
  rn_message :: string
  rn_blocked_reason :: string

record scheduler_lease =
  l_owner :: string
  l_epoch :: int
  l_until :: instant
  l_updated_at :: instant

text \<open>
  Links of \<open>job_ancestor\<close> are keyed by the pair (ancestor, job). Attempts have
  generated ids and are kept in insertion order. A guard record only counts the
  transactions that took it.
\<close>

record db =
  jobs :: "job tbl"
  links :: "((string \<times> string) \<times> string) list"
  tasks :: "task tbl"
  attempts :: "attempt list"
  stage_outputs :: "stage_output tbl"
  neighborhoods :: "neighborhood tbl"
  brief_runs :: "brief_run tbl"
  chain_generations :: "string \<Rightarrow> int option"
  retirements :: "retirement tbl"
  receipts :: "receipt tbl"
  events :: "event tbl"
  retry_events :: "event list"
  guards :: "string \<times> string \<Rightarrow> nat"
  lease :: "scheduler_lease option"
  processes :: "process tbl"
  refresh_notes :: "refresh_note tbl"
  scope_results :: "string tbl"

definition empty_db :: db where
  "empty_db = \<lparr>jobs = [], links = [], tasks = [], attempts = [], stage_outputs = [],
     neighborhoods = [], brief_runs = [], chain_generations = (\<lambda>_. None), retirements = [],
     receipts = [], events = [], retry_events = [], guards = (\<lambda>_. 0), lease = None,
     processes = [], refresh_notes = [], scope_results = []\<rparr>"

text \<open>
  What the code reads from outside the tables: the redaction of messages
  (\<open>events::redact\<close>, regular expressions and the secret file), the id of this process
  (\<open>scheduler::process_owner\<close>) and SurrealQL's \<open>duration::millis(a - b)\<close>.
\<close>

record env =
  redact :: "string \<Rightarrow> string"
  process_owner :: string
  millis :: "instant \<Rightarrow> instant \<Rightarrow> int"

section \<open>Constants\<close>

definition POOL_INTEL_BRIEF :: string where "POOL_INTEL_BRIEF = ''intel_brief''"
definition MAX_WORKER_RECOVERIES :: int where "MAX_WORKER_RECOVERIES = 3"
definition EXECUTION_WINDOW_HOURS :: int where "EXECUTION_WINDOW_HOURS = 72"
definition CLAIM_PAGE :: nat where "CLAIM_PAGE = 32"
definition CLAIM_MAX_PAGES :: nat where "CLAIM_MAX_PAGES = 2"
definition STOP_BATCH :: nat where "STOP_BATCH = 100"
definition SWEEP_BATCH :: nat where "SWEEP_BATCH = 64"

definition TERMINAL :: "string list" where
  "TERMINAL = [''completed'', ''succeeded'', ''failed'', ''partial'', ''cancelled'', ''paused'',
     ''superseded'']"

definition seconds :: "int \<Rightarrow> instant" where "seconds n = n * 1000000000"
definition hours :: "int \<Rightarrow> instant" where "hours n = seconds (n * 3600)"

section \<open>Guards, receipts and events\<close>

definition bump :: "string \<Rightarrow> string \<Rightarrow> db \<Rightarrow> db" where
  "bump table key d = d\<lparr>guards := (guards d)((table, key) := Suc (guards d (table, key)))\<rparr>"

definition receipt_of :: "db \<Rightarrow> string \<Rightarrow> receipt option" where
  "receipt_of d op_key = row (receipts d) op_key"

definition write_receipt ::
  "string \<Rightarrow> string \<Rightarrow> string \<Rightarrow> int \<Rightarrow> instant \<Rightarrow> db \<Rightarrow> tx_error + db" where
  "write_receipt op_key kind task epoch now d =
     (case row (receipts d) op_key of
        Some _ \<Rightarrow> Inl already_exists
      | None \<Rightarrow> Inr (d\<lparr>receipts := put op_key
          \<lparr>r_kind = kind, r_task = task, r_epoch = epoch, r_at = now\<rparr> (receipts d)\<rparr>))"

definition log_transition_in ::
  "env \<Rightarrow> string \<Rightarrow> string \<Rightarrow> string \<Rightarrow> string \<Rightarrow> instant \<Rightarrow> db \<Rightarrow> db" where
  "log_transition_in E job key event message now d =
     (let app = (case row (jobs d) job of Some j \<Rightarrow> j_app j | None \<Rightarrow> ''jobs'')
      in d\<lparr>events := put key \<lparr>e_job_id = job, e_app = app, e_type = event,
           e_severity = ''info'', e_message = redact E message, e_ts = now\<rparr> (events d)\<rparr>)"

section \<open>Jobs and tasks\<close>

record new_job =
  nj_id :: string
  nj_kind :: string
  nj_operation :: string
  nj_parent :: "string option"
  nj_created_at :: instant

record new_task =
  nt_id :: string
  nt_job :: string
  nt_pool :: string
  nt_operation :: string
  nt_priority :: int
  nt_deps :: "string list"
  nt_input_hash :: string
  nt_created_at :: instant

definition job_app :: "string \<Rightarrow> string" where
  "job_app op =
     (if starts_with ''intel_brief'' op \<or> starts_with ''insight'' op then ''intel''
      else if starts_with ''atlas'' op then ''atlas''
      else if starts_with ''recon'' op then ''recon''
      else if starts_with ''brain'' op \<or> starts_with ''memory'' op \<or> starts_with ''index'' op
      then ''brain''
      else if op = ''summaries'' \<or> op = ''summary'' then ''intel''
      else ''jobs'')"

text \<open>Operations are ASCII, so the first character's uppercase form is one byte.\<close>

definition upper_ascii :: "char \<Rightarrow> char" where
  "upper_ascii c = (let n = (of_char c :: nat) in
     if 97 \<le> n \<and> n \<le> 122 then char_of (n - 32) else c)"

definition job_title :: "string \<Rightarrow> string" where
  "job_title operation =
     (let words = map (\<lambda>c. if c = CHR ''_'' then CHR '' '' else c) operation
      in case words of [] \<Rightarrow> [] | c # cs \<Rightarrow> upper_ascii c # cs)"

fun add_links :: "string \<Rightarrow> string \<Rightarrow> string list \<Rightarrow> db \<Rightarrow> tx_error + db" where
  "add_links job root [] d = Inr d"
| "add_links job root (a # as) d =
     (if (a, job) \<in> fst ` set (links d) then Inl already_exists
      else add_links job root as (d\<lparr>links := links d @ [((a, job), root)]\<rparr>))"

definition create_job_in :: "env \<Rightarrow> new_job \<Rightarrow> db \<Rightarrow> tx_error + db" where
  "create_job_in E n d =
     (let lineage = (case nj_parent n of
            None \<Rightarrow> Some (nj_id n, [])
          | Some p \<Rightarrow> map_option (\<lambda>r. (j_root r, j_ancestors r @ [p])) (row (jobs d) p))
      in case lineage of
           None \<Rightarrow> Inl (Abort (''parent job '' @ the (nj_parent n) @ '' missing''))
         | Some (root, ancestors) \<Rightarrow>
             (case row (jobs d) (nj_id n) of
                Some _ \<Rightarrow> Inl already_exists
              | None \<Rightarrow>
                  (let j = \<lparr>j_kind = nj_kind n, j_operation = nj_operation n,
                         j_parent = nj_parent n, j_ancestors = ancestors, j_root = root,
                         j_state = ''running'', j_cancel_requested = False, j_stopped = False,
                         j_phase = [], j_created_at = nj_created_at n,
                         j_updated_at = nj_created_at n, j_finished_at = None,
                         j_app = job_app (nj_operation n), j_title = job_title (nj_operation n),
                         j_run_ref = [], j_resource_ref = [], j_result_ref = [],
                         j_error_category = [], j_error_summary = [], j_correlation_id = [],
                         j_worker_owner = [], j_progress_done = None, j_progress_total = None,
                         j_heartbeat_at = None, j_active_since = None, j_active_ms = None,
                         j_queue_ms = None, j_attempts_used = 0, j_attempt_cap = 0,
                         j_cancellable = False,
                         j_provider = [], j_model = [], j_tool = [], j_stage_coverage_json = [],
                         j_retry_wait_ms = None\<rparr>;
                       d1 = d\<lparr>jobs := put (nj_id n) j (jobs d)\<rparr>
                   in case add_links (nj_id n) root ancestors d1 of
                        Inl e \<Rightarrow> Inl e
                      | Inr d2 \<Rightarrow> Inr (log_transition_in E (nj_id n) (nj_id n @ '':started'')
                          ''job.started'' (''Started: '' @ job_title (nj_operation n))
                          (nj_created_at n) d2))))"

text \<open>
  \<open>root = $job.root\<close> reads the job's row; the schema refuses a task whose job has no
  row, since \<open>root\<close> is a mandatory record link.
\<close>

definition create_task_in :: "new_task \<Rightarrow> db \<Rightarrow> tx_error + db" where
  "create_task_in n d =
     (case (row (jobs d) (nt_job n), row (tasks d) (nt_id n)) of
        (None, _) \<Rightarrow> Inl field_mismatch
      | (Some j, Some _) \<Rightarrow> Inl already_exists
      | (Some j, None) \<Rightarrow>
          Inr (d\<lparr>tasks := put (nt_id n) \<lparr>t_job = nt_job n, t_root = j_root j, t_pool = nt_pool n,
            t_operation = nt_operation n, t_state = ''queued'', t_priority = nt_priority n,
            t_deps = nt_deps n, t_input_hash = nt_input_hash n, t_output_hash = [],
            t_lease_owner = [], t_process_owner = [], t_lease_until = None, t_lease_epoch = 0,
            t_attempts = 0, t_recoveries = 0, t_created_at = nt_created_at n,
            t_next_eligible_at = nt_created_at n, t_started_at = None, t_heartbeat_at = None,
            t_finished_at = None, t_updated_at = nt_created_at n, t_max_attempts = 3,
            t_active_ms = 0, t_error_category = [], t_error_message = []\<rparr> (tasks d)\<rparr>))"

fun create_tasks_in :: "new_task list \<Rightarrow> db \<Rightarrow> tx_error + db" where
  "create_tasks_in [] d = Inr d"
| "create_tasks_in (t # ts) d =
     (case create_task_in t d of Inl e \<Rightarrow> Inl e | Inr d' \<Rightarrow> create_tasks_in ts d')"

definition create_job :: "env \<Rightarrow> new_job \<Rightarrow> new_task list \<Rightarrow> (db, unit) body" where
  "create_job E j ts d =
     (case create_job_in E j d of
        Inl e \<Rightarrow> Inl e
      | Inr d1 \<Rightarrow> (case create_tasks_in ts d1 of Inl e \<Rightarrow> Inl e | Inr d2 \<Rightarrow> Inr ((), d2)))"

section \<open>Scheduler election\<close>

record election =
  elected :: bool
  el_epoch :: int

definition try_elect :: "string \<Rightarrow> int \<Rightarrow> instant \<Rightarrow> (db, election) body" where
  "try_elect owner lease_secs now d =
     (let until = now + seconds lease_secs;
          take_lease = (\<lambda>epoch. Inr (\<lparr>elected = True, el_epoch = epoch\<rparr>,
            d\<lparr>lease := Some \<lparr>l_owner = owner, l_epoch = epoch, l_until = until,
              l_updated_at = now\<rparr>\<rparr>))
      in case lease d of
           Some l \<Rightarrow>
             if l_owner l \<noteq> owner \<and> now < l_until l
             then Inr (\<lparr>elected = False, el_epoch = l_epoch l\<rparr>, d)
             else if l_owner l = owner then take_lease (l_epoch l)
             else take_lease (l_epoch l + 1)
         | None \<Rightarrow> take_lease 1)"

section \<open>What the operations leave alone\<close>

lemma bump_frame [simp, frame]:
  "jobs (bump t k d) = jobs d" "links (bump t k d) = links d" "tasks (bump t k d) = tasks d"
  "attempts (bump t k d) = attempts d" "receipts (bump t k d) = receipts d"
  "stage_outputs (bump t k d) = stage_outputs d" "neighborhoods (bump t k d) = neighborhoods d"
  "brief_runs (bump t k d) = brief_runs d" "retirements (bump t k d) = retirements d"
  "chain_generations (bump t k d) = chain_generations d" "events (bump t k d) = events d"
  "retry_events (bump t k d) = retry_events d" "lease (bump t k d) = lease d"
  "processes (bump t k d) = processes d" "refresh_notes (bump t k d) = refresh_notes d"
  "scope_results (bump t k d) = scope_results d"
  by (simp_all add: bump_def)

lemma log_transition_frame [simp, frame]:
  "jobs (log_transition_in E j k e m n d) = jobs d"
  "links (log_transition_in E j k e m n d) = links d"
  "tasks (log_transition_in E j k e m n d) = tasks d"
  "attempts (log_transition_in E j k e m n d) = attempts d"
  "receipts (log_transition_in E j k e m n d) = receipts d"
  "stage_outputs (log_transition_in E j k e m n d) = stage_outputs d"
  "neighborhoods (log_transition_in E j k e m n d) = neighborhoods d"
  "brief_runs (log_transition_in E j k e m n d) = brief_runs d"
  "retirements (log_transition_in E j k e m n d) = retirements d"
  "chain_generations (log_transition_in E j k e m n d) = chain_generations d"
  "lease (log_transition_in E j k e m n d) = lease d"
  "guards (log_transition_in E j k e m n d) = guards d"
  "processes (log_transition_in E j k e m n d) = processes d"
  "refresh_notes (log_transition_in E j k e m n d) = refresh_notes d"
  "scope_results (log_transition_in E j k e m n d) = scope_results d"
  by (simp_all add: log_transition_in_def Let_def)

lemma add_links_frame:
  "add_links job root as d = Inr d' \<Longrightarrow>
     d' = d\<lparr>links := links d @ map (\<lambda>a. ((a, job), root)) as\<rparr>"
proof (induction as arbitrary: d)
  case (Cons a as)
  then have "add_links job root as (d\<lparr>links := links d @ [((a, job), root)]\<rparr>) = Inr d'"
    by (auto split: if_splits)
  from Cons.IH[OF this] show ?case by simp
qed simp

end
