(* ===== verification/Job_Claim.thy ===== *)
theory Job_Claim
  imports Job_Store "HOL-Library.Word" "HOL-Library.Multiset"
begin

unbundle bit_operations_syntax

text \<open>
  Claiming (\<open>storage/jobs.rs\<close>, lines 54 to 805): the shard of a worker, the order in
  which it tries a page of candidates, eligibility, the claim transaction and the
  renewal of a lease.
\<close>

section \<open>Shards and slots\<close>

definition POOL_GUARD_SHARDS :: nat where "POOL_GUARD_SHARDS = 8"
definition HEAD_EVERY :: nat where "HEAD_EVERY = 8"

text \<open>FNV-1a on 64-bit words, wrapping.\<close>

definition fnv_step :: "64 word \<Rightarrow> char \<Rightarrow> 64 word" where
  "fnv_step h c = (h XOR of_nat (of_char c)) * 0x100000001b3"

definition claim_shard :: "string \<Rightarrow> nat" where
  "claim_shard owner =
     unat (foldl fnv_step 0xcbf29ce484222325 owner mod of_nat POOL_GUARD_SHARDS)"

text \<open>Per-pool claim counters of this process, and the slot of one attempt of a claim.\<close>

definition next_claim_seq :: "string \<Rightarrow> (string \<Rightarrow> nat) \<Rightarrow> nat \<times> (string \<Rightarrow> nat)" where
  "next_claim_seq pool seqs = (seqs pool, seqs(pool := seqs pool + 1))"

definition claim_slot :: "nat \<Rightarrow> nat \<Rightarrow> string \<Rightarrow> nat option" where
  "claim_slot seq tries owner =
     (let head = (seq mod HEAD_EVERY = 0); first = (tries = 0)
      in if head \<and> first then None else Some (claim_shard owner))"

section \<open>Candidates\<close>

record candidate =
  c_priority :: int
  c_id :: string
  c_job_id :: string
  c_pool :: string
  c_input_hash :: string
  c_dep_count :: nat
  c_dep_states :: "string list"
  c_cancelled :: bool
  c_fresh :: bool
  c_retired :: bool

definition eligible :: "candidate \<Rightarrow> bool" where
  "eligible c \<longleftrightarrow> c_fresh c \<and> \<not> c_cancelled c \<and> \<not> c_retired c
     \<and> list_all (\<lambda>s. s = ''completed'') (c_dep_states c)
     \<and> (c_pool c \<noteq> POOL_INTEL_BRIEF \<or> c_input_hash c \<noteq> [])"

definition claim_order :: "candidate list \<Rightarrow> nat option \<Rightarrow> candidate list" where
  "claim_order candidates slot =
     (let el = filter eligible candidates in
      case el of [] \<Rightarrow> []
      | best # _ \<Rightarrow>
          (let bucket = length (takeWhile (\<lambda>c. c_priority c = c_priority best) el);
               turn = (case slot of
                   Some s \<Rightarrow> if bucket > 1 then 1 + (s * (bucket - 1)) div POOL_GUARD_SHARDS else 0
                 | None \<Rightarrow> 0)
           in rotate turn (take bucket el) @ drop bucket el))"

text \<open>
  \<open>job.cancel_requested OR array::any(job.ancestors.cancel_requested)\<close>: a link to a
  record that does not exist reads as absent.
\<close>

definition cancel_flag :: "db \<Rightarrow> string \<Rightarrow> bool" where
  "cancel_flag d j = (case row (jobs d) j of Some r \<Rightarrow> j_cancel_requested r | None \<Rightarrow> False)"

definition job_cancelled :: "db \<Rightarrow> string \<Rightarrow> bool" where
  "job_cancelled d j = (cancel_flag d j \<or>
     (case row (jobs d) j of Some r \<Rightarrow> list_ex (cancel_flag d) (j_ancestors r) | None \<Rightarrow> False))"

definition dep_state :: "db \<Rightarrow> string \<Rightarrow> string" where
  "dep_state d t = (case row (tasks d) t of Some r \<Rightarrow> t_state r | None \<Rightarrow> [])"

definition job_fresh :: "db \<Rightarrow> instant \<Rightarrow> string \<Rightarrow> bool" where
  "job_fresh d fresh_after j =
     (case row (jobs d) j of Some r \<Rightarrow> fresh_after \<le> j_created_at r | None \<Rightarrow> False)"

definition retired :: "db \<Rightarrow> string \<Rightarrow> bool" where
  "retired d root = (row (retirements d) root \<noteq> None)"

definition candidate_of :: "db \<Rightarrow> instant \<Rightarrow> string \<times> task \<Rightarrow> candidate" where
  "candidate_of d fresh_after = (\<lambda>(k, t). \<lparr>c_priority = t_priority t, c_id = k,
     c_job_id = t_job t, c_pool = t_pool t, c_input_hash = t_input_hash t,
     c_dep_count = length (t_deps t), c_dep_states = map (dep_state d) (t_deps t),
     c_cancelled = job_cancelled d (t_job t), c_fresh = job_fresh d fresh_after (t_job t),
     c_retired = retired d (t_root t)\<rparr>)"

text \<open>\<open>CLAIM_CANDIDATES_SURQL\<close>, and its variant for one task id.\<close>

definition claim_key :: "string \<times> task \<Rightarrow> int \<times> int" where
  "claim_key = (\<lambda>(k, t). (t_priority t, t_created_at t))"

definition claim_candidates ::
  "db \<Rightarrow> string \<Rightarrow> instant \<Rightarrow> instant \<Rightarrow> nat \<Rightarrow> nat \<Rightarrow> candidate list" where
  "claim_candidates d pool now fresh_after k start =
     map (candidate_of d fresh_after) (take k (drop start (sort_key claim_key
       (filter (\<lambda>(i, t). t_state t = ''queued'' \<and> t_pool t = pool \<and> t_next_eligible_at t \<le> now)
         (tasks d)))))"

definition one_candidate :: "db \<Rightarrow> string \<Rightarrow> string \<Rightarrow> instant \<Rightarrow> candidate list" where
  "one_candidate d pool tid fresh_after =
     map (candidate_of d fresh_after) (take 1 (sort_key claim_key
       (filter (\<lambda>(i, t). i = tid \<and> t_state t = ''queued'' \<and> t_pool t = pool) (tasks d))))"

section \<open>The claim transaction\<close>

record claimed =
  ct_id :: string
  ct_job_id :: string
  ct_root_id :: string
  ct_operation :: string
  ct_pool :: string
  ct_input_hash :: string
  ct_lease_owner :: string
  ct_lease_epoch :: int
  ct_attempts :: int
  ct_state :: string

definition load_task :: "db \<Rightarrow> string \<Rightarrow> claimed option" where
  "load_task d tid = map_option (\<lambda>t. \<lparr>ct_id = tid, ct_job_id = t_job t, ct_root_id = t_root t,
     ct_operation = t_operation t, ct_pool = t_pool t, ct_input_hash = t_input_hash t,
     ct_lease_owner = t_lease_owner t, ct_lease_epoch = t_lease_epoch t,
     ct_attempts = t_attempts t, ct_state = t_state t\<rparr>) (row (tasks d) tid)"

text \<open>\<open>CREATE attempt\<close> under the unique index on (task, number).\<close>

definition create_attempt :: "attempt \<Rightarrow> db \<Rightarrow> tx_error + db" where
  "create_attempt a d =
     (if list_ex (\<lambda>b. a_task b = a_task a \<and> a_number b = a_number a) (attempts d)
      then Inl already_exists else Inr (d\<lparr>attempts := attempts d @ [a]\<rparr>))"

text \<open>A dependent Intel brief stage runs alone in its job.\<close>

definition brief_busy :: "db \<Rightarrow> candidate \<Rightarrow> bool" where
  "brief_busy d c \<longleftrightarrow> ids_where (\<lambda>i t. t_job t = c_job_id c \<and> t_state t = ''running'' \<and> i \<noteq> c_id c
     \<and> (c_dep_count c > 0 \<or> t_deps t \<noteq> [])) (tasks d) \<noteq> []"

definition start_running :: "env \<Rightarrow> string \<Rightarrow> int \<Rightarrow> instant \<Rightarrow> task \<Rightarrow> task" where
  "start_running E owner lease_secs now t = t\<lparr>t_state := ''running'', t_lease_owner := owner,
     t_process_owner := process_owner E, t_lease_until := Some (now + seconds lease_secs),
     t_lease_epoch := t_lease_epoch t + 1, t_attempts := t_attempts t + 1,
     t_heartbeat_at := Some now,
     t_started_at := (case t_started_at t of None \<Rightarrow> Some now | s \<Rightarrow> s), t_updated_at := now\<rparr>"

text \<open>One turn of the inner loop: \<open>None\<close> is \<open>continue\<close>.\<close>

definition claim_one ::
  "env \<Rightarrow> string \<Rightarrow> int \<Rightarrow> instant \<Rightarrow> string \<Rightarrow> candidate \<Rightarrow> db
     \<Rightarrow> tx_error + (claimed option \<times> db)" where
  "claim_one E owner lease_secs now op_key c d =
     (if c_pool c = POOL_INTEL_BRIEF \<and> brief_busy d c then Inr (None, d)
      else if ids_where (\<lambda>i t. i = c_id c \<and> t_state t = ''queued'') (tasks d) = []
      then Inr (None, d)
      else
        let d1 = d\<lparr>tasks := update_where (\<lambda>i t. i = c_id c \<and> t_state t = ''queued'')
               (start_running E owner lease_secs now) (tasks d)\<rparr>
        in case load_task d1 (c_id c) of
             None \<Rightarrow> Inr (None, d1)
           | Some t \<Rightarrow>
               (case create_attempt \<lparr>a_task = ct_id t, a_root = ct_root_id t,
                    a_number = ct_attempts t, a_epoch = ct_lease_epoch t, a_owner = owner,
                    a_started_at = now, a_finished_at = None, a_outcome = [],
                    a_duration_ms = None\<rparr> d1 of
                  Inl e \<Rightarrow> Inl e
                | Inr d2 \<Rightarrow>
                    (let d3 = (if ct_pool t = POOL_INTEL_BRIEF
                           then bump ''job_guard'' (ct_root_id t) d2 else d2);
                         d4 = log_transition_in E (ct_job_id t)
                           (ct_id t @ '':'' @ nat_str (nat (ct_lease_epoch t)) @ '':started'')
                           ''task.started'' (''Started: '' @ ct_operation t) now d3
                     in case write_receipt op_key ''claim'' (ct_id t) (ct_lease_epoch t) now d4 of
                          Inl e \<Rightarrow> Inl e
                        | Inr d5 \<Rightarrow> Inr (Some t, d5))))"

fun claim_first ::
  "env \<Rightarrow> string \<Rightarrow> int \<Rightarrow> instant \<Rightarrow> string \<Rightarrow> candidate list \<Rightarrow> db
     \<Rightarrow> tx_error + (claimed option \<times> db)" where
  "claim_first E owner lease_secs now op_key [] d = Inr (None, d)"
| "claim_first E owner lease_secs now op_key (c # cs) d =
     (case claim_one E owner lease_secs now op_key c d of
        Inl e \<Rightarrow> Inl e
      | Inr (Some t, d') \<Rightarrow> Inr (Some t, d')
      | Inr (None, d') \<Rightarrow> claim_first E owner lease_secs now op_key cs d')"

definition claim_page ::
  "string \<Rightarrow> string option \<Rightarrow> instant \<Rightarrow> nat \<Rightarrow> db \<Rightarrow> candidate list" where
  "claim_page pool task_id now page d =
     (let fresh_after = now - hours EXECUTION_WINDOW_HOURS in
      case task_id of
        Some tid \<Rightarrow> one_candidate d pool tid fresh_after
      | None \<Rightarrow> claim_candidates d pool now fresh_after CLAIM_PAGE (page * CLAIM_PAGE))"

text \<open>\<open>for page in 0..pages\<close>, with \<open>left\<close> pages to go.\<close>

fun claim_pages ::
  "env \<Rightarrow> string \<Rightarrow> string option \<Rightarrow> string \<Rightarrow> int \<Rightarrow> instant \<Rightarrow> string \<Rightarrow> nat option
     \<Rightarrow> nat \<Rightarrow> nat \<Rightarrow> db \<Rightarrow> tx_error + (claimed option \<times> db)" where
  "claim_pages E pool task_id owner lease_secs now op_key slot page 0 d = Inr (None, d)"
| "claim_pages E pool task_id owner lease_secs now op_key slot page (Suc left) d =
     (let candidates = claim_page pool task_id now page d in
      if candidates = [] then Inr (None, d)
      else case claim_first E owner lease_secs now op_key (claim_order candidates slot) d of
             Inl e \<Rightarrow> Inl e
           | Inr (Some t, d') \<Rightarrow> Inr (Some t, d')
           | Inr (None, d') \<Rightarrow>
               claim_pages E pool task_id owner lease_secs now op_key slot (Suc page) left d')"

definition claim_in ::
  "env \<Rightarrow> string \<Rightarrow> string option \<Rightarrow> string \<Rightarrow> int \<Rightarrow> instant \<Rightarrow> string \<Rightarrow> nat option
     \<Rightarrow> (db, claimed option) body" where
  "claim_in E pool task_id owner lease_secs now op_key slot d =
     (let d1 = bump ''pool_guard'' (encode [pool, nat_str (claim_shard owner)]) d in
      case receipt_of d1 op_key of
        Some r \<Rightarrow>
          if r_kind r = ''claim''
          then Inr (case load_task d1 (r_task r) of
                 Some t \<Rightarrow> if ct_lease_epoch t = r_epoch r then Some t else None
               | None \<Rightarrow> None, d1)
          else Inl (Abort (''operation key '' @ op_key @ '' names a '' @ r_kind r))
      | None \<Rightarrow>
          claim_pages E pool task_id owner lease_secs now op_key slot 0
            (if task_id = None then CLAIM_MAX_PAGES else 1) d1)"

text \<open>
  \<open>claim_next\<close> (\<open>task_id = None\<close>) and \<open>claim_task\<close>: the claim number of the process
  decides the slot of the first attempt, retries use the worker's own slot.
\<close>

definition claim ::
  "env \<Rightarrow> (nat \<Rightarrow> db attempt_env) \<Rightarrow> string \<Rightarrow> string option \<Rightarrow> string \<Rightarrow> int \<Rightarrow> instant
     \<Rightarrow> string \<Rightarrow> (string \<Rightarrow> nat) \<Rightarrow> db
     \<Rightarrow> (tx_error + claimed option committed) \<times> db \<times> (string \<Rightarrow> nat)" where
  "claim E net pool task_id owner lease_secs now op_key seqs d =
     (let (seq, seqs') = next_claim_seq pool seqs;
          (r, d') = run_tx net default_policy (\<lambda>tries.
            claim_in E pool task_id owner lease_secs now op_key (claim_slot seq tries owner)) d
      in (r, d', seqs'))"

definition claim_next where
  "claim_next E net pool owner lease_secs now op_key seqs d =
     claim E net pool None owner lease_secs now op_key seqs d"

definition claim_task where
  "claim_task E net pool task_id owner lease_secs now op_key seqs d =
     claim E net pool (Some task_id) owner lease_secs now op_key seqs d"

section \<open>Lease renewal\<close>

definition renew_lease :: "claimed \<Rightarrow> int \<Rightarrow> instant \<Rightarrow> (db, bool) body" where
  "renew_lease ct lease_secs now d =
     (let d1 = d\<lparr>tasks := update_where (\<lambda>i t. i = ct_id ct \<and> t_state t = ''running''
              \<and> t_lease_owner t = ct_lease_owner ct \<and> t_lease_epoch t = ct_lease_epoch ct)
            (\<lambda>t. t\<lparr>t_lease_until := Some (now + seconds lease_secs), t_heartbeat_at := Some now,
               t_updated_at := now\<rparr>) (tasks d)\<rparr>
      in Inr (case load_task d1 (ct_id ct) of
            Some t \<Rightarrow> ct_state t = ''running'' \<and> ct_lease_owner t = ct_lease_owner ct
              \<and> ct_lease_epoch t = ct_lease_epoch ct
          | None \<Rightarrow> False, d1))"

section \<open>The order of a page\<close>

lemma claim_shard_less: "claim_shard owner < POOL_GUARD_SHARDS"
proof -
  have "unat ((x :: 64 word) mod 8) < 8" for x
    by (simp add: unat_mod)
  then show ?thesis by (simp add: claim_shard_def POOL_GUARD_SHARDS_def)
qed

lemma mset_rotate: "mset (rotate n xs) = mset xs"
  by (metis rotate_drop_take mset_append union_commute append_take_drop_id)

lemma sorted_map_const: "\<forall>c\<in>set xs. f c = k \<Longrightarrow> sorted (map f xs)"
  by (induction xs) auto

definition best_run :: "candidate list \<Rightarrow> nat" where
  "best_run el = (case el of [] \<Rightarrow> 0 | best # _ \<Rightarrow>
     length (takeWhile (\<lambda>c. c_priority c = c_priority best) el))"

lemma claim_order_shape:
  "\<exists>n. claim_order cs slot = rotate n (take (best_run (filter eligible cs)) (filter eligible cs))
     @ drop (best_run (filter eligible cs)) (filter eligible cs)"
  by (cases "filter eligible cs") (auto simp: claim_order_def best_run_def Let_def)

lemma mset_claim_order: "mset (claim_order cs slot) = mset (filter eligible cs)"
  using claim_order_shape[of cs slot] by (metis append_take_drop_id mset_append mset_rotate)

lemma set_claim_order: "set (claim_order cs slot) = set (filter eligible cs)"
  by (metis mset_claim_order set_mset_mset)

lemma claim_order_head: "claim_order cs None = filter eligible cs"
  by (auto simp: claim_order_def Let_def split: list.splits)

text \<open>The rotated run is the leading run of the best priority, and it starts at a later row.\<close>

lemma claim_order_bucket:
  assumes el: "filter eligible cs = best # el"
    and bucket: "bucket = length (takeWhile (\<lambda>c. c_priority c = c_priority best) (best # el))"
    and "s < POOL_GUARD_SHARDS" and "1 < bucket"
  shows "\<exists>turn. 1 \<le> turn \<and> turn < bucket \<and> claim_order cs (Some s) =
    drop turn (take bucket (best # el)) @ take turn (take bucket (best # el)) @ drop bucket (best # el)"
proof -
  let ?turn = "1 + s * (bucket - 1) div 8"
  have "s * (bucket - 1) div 8 < bucket - 1"
    using assms(3,4) by (simp add: POOL_GUARD_SHARDS_def less_mult_imp_div_less mult.commute)
  then have lt: "?turn < bucket" by simp
  have len: "length (take bucket (best # el)) = bucket"
    unfolding bucket using length_takeWhile_le by (metis length_take min.absorb2)
  have "claim_order cs (Some s) = rotate ?turn (take bucket (best # el)) @ drop bucket (best # el)"
    using assms(4) by (simp add: claim_order_def el bucket Let_def POOL_GUARD_SHARDS_def del: takeWhile.simps)
  also have "rotate ?turn (take bucket (best # el)) =
     drop ?turn (take bucket (best # el)) @ take ?turn (take bucket (best # el))"
    using lt len by (simp add: rotate_drop_take)
  finally show ?thesis using lt by (intro exI[of _ ?turn]) simp
qed

lemma best_run_const:
  "c \<in> set (take (best_run el) el) \<Longrightarrow> c_priority c = c_priority (hd el)"
  by (cases el) (auto simp: best_run_def takeWhile_eq_take[symmetric] dest: set_takeWhileD
    split: if_splits)

lemma claim_order_sorted:
  assumes "sorted (map c_priority (filter eligible cs))"
  shows "sorted (map c_priority (claim_order cs slot))"
proof -
  let ?el = "filter eligible cs" and ?b = "best_run (filter eligible cs)"
  obtain n where ord: "claim_order cs slot = rotate n (take ?b ?el) @ drop ?b ?el"
    using claim_order_shape by blast
  have const: "\<forall>c\<in>set (rotate n (take ?b ?el)). c_priority c = c_priority (hd ?el)"
    using best_run_const by simp
  have "sorted (map c_priority (take ?b ?el @ drop ?b ?el))"
    using assms by simp
  then show ?thesis
    unfolding ord map_append sorted_append
    using sorted_map_const[OF const] by simp
qed

section \<open>What one claim does\<close>

lemma ids_where_Nil_iff: "ids_where P t = [] \<longleftrightarrow> (\<forall>(i, r) \<in> set t. \<not> P i r)"
  by (auto simp: ids_where_def filter_empty_conv)

lemma queued_row:
  assumes "keyed t" and "ids_where (\<lambda>i r. i = k \<and> P r) t \<noteq> []"
  obtains r where "row t k = Some r" "P r"
  using assms ids_where_iff[OF assms(1), where P = "\<lambda>i r. i = k \<and> P r"]
  by (metis list.set_intros(1) neq_Nil_conv)

lemma write_receipt_Inr:
  "write_receipt k kind task epoch now d = Inr d' \<longleftrightarrow> row (receipts d) k = None \<and>
     d' = d\<lparr>receipts := put k \<lparr>r_kind = kind, r_task = task, r_epoch = epoch, r_at = now\<rparr> (receipts d)\<rparr>"
  by (auto simp: write_receipt_def split: option.splits)

lemma create_attempt_Inr:
  "create_attempt a d = Inr d' \<longleftrightarrow>
     (\<forall>b \<in> set (attempts d). \<not> (a_task b = a_task a \<and> a_number b = a_number a))
     \<and> d' = d\<lparr>attempts := attempts d @ [a]\<rparr>"
  by (auto simp: create_attempt_def list_ex_iff)

lemma ids_where_id_row: "ids_where (\<lambda>i r. i = k \<and> P r) t \<noteq> [] \<Longrightarrow> row t k \<noteq> None"
  by (force simp: ids_where_Nil_iff map_of_eq_None_iff)

lemma load_task_None_iff: "load_task d k = None \<longleftrightarrow> row (tasks d) k = None"
  by (simp add: load_task_def)

lemma claim_one_None:
  assumes "claim_one E owner secs now op c d = Inr (None, d')"
  shows "d' = d"
proof -
  have "row (tasks d) (c_id c) \<noteq> None"
    if "ids_where (\<lambda>i t. i = c_id c \<and> t_state t = ''queued'') (tasks d) \<noteq> []"
    using ids_where_id_row[OF that] .
  with assms show ?thesis
    by (auto simp: claim_one_def Let_def load_task_None_iff split: if_splits option.splits sum.splits)
qed

definition new_attempt :: "claimed \<Rightarrow> string \<Rightarrow> instant \<Rightarrow> attempt" where
  "new_attempt ct owner now = \<lparr>a_task = ct_id ct, a_root = ct_root_id ct,
     a_number = ct_attempts ct, a_epoch = ct_lease_epoch ct, a_owner = owner,
     a_started_at = now, a_finished_at = None, a_outcome = [], a_duration_ms = None\<rparr>"

definition claim_log :: "env \<Rightarrow> claimed \<Rightarrow> instant \<Rightarrow> db \<Rightarrow> db" where
  "claim_log E t now d2 = log_transition_in E (ct_job_id t)
     (ct_id t @ '':'' @ nat_str (nat (ct_lease_epoch t)) @ '':started'')
     ''task.started'' (''Started: '' @ ct_operation t) now
     (if ct_pool t = POOL_INTEL_BRIEF then bump ''job_guard'' (ct_root_id t) d2 else d2)"

lemma claim_log_frame [simp, frame]:
  "jobs (claim_log E t n d) = jobs d" "links (claim_log E t n d) = links d"
  "tasks (claim_log E t n d) = tasks d" "attempts (claim_log E t n d) = attempts d"
  "receipts (claim_log E t n d) = receipts d" "stage_outputs (claim_log E t n d) = stage_outputs d"
  "neighborhoods (claim_log E t n d) = neighborhoods d" "brief_runs (claim_log E t n d) = brief_runs d"
  "retirements (claim_log E t n d) = retirements d"
  "chain_generations (claim_log E t n d) = chain_generations d" "lease (claim_log E t n d) = lease d"
  "processes (claim_log E t n d) = processes d"
  by (simp_all add: claim_log_def)

definition claimed_tasks :: "env \<Rightarrow> string \<Rightarrow> int \<Rightarrow> instant \<Rightarrow> string \<Rightarrow> db \<Rightarrow> db" where
  "claimed_tasks E owner secs now k d = d\<lparr>tasks := update_where
     (\<lambda>i t. i = k \<and> t_state t = ''queued'') (start_running E owner secs now) (tasks d)\<rparr>"

lemma claim_one_run:
  assumes "\<not> (c_pool c = POOL_INTEL_BRIEF \<and> brief_busy d c)"
    and "ids_where (\<lambda>i t. i = c_id c \<and> t_state t = ''queued'') (tasks d) \<noteq> []"
    and "load_task (claimed_tasks E owner secs now (c_id c) d) (c_id c) = Some t"
  shows "claim_one E owner secs now op c d =
    (case create_attempt (new_attempt t owner now) (claimed_tasks E owner secs now (c_id c) d) of
       Inl e \<Rightarrow> Inl e
     | Inr d2 \<Rightarrow> (case write_receipt op ''claim'' (ct_id t) (ct_lease_epoch t) now
           (claim_log E t now d2) of Inl e \<Rightarrow> Inl e | Inr d5 \<Rightarrow> Inr (Some t, d5)))"
  unfolding claim_one_def if_not_P[OF assms(1)] if_not_P[OF assms(2)] Let_def
    claimed_tasks_def[symmetric] assms(3) new_attempt_def claim_log_def by simp

lemma claim_one_skip:
  assumes "c_pool c = POOL_INTEL_BRIEF \<and> brief_busy d c
    \<or> ids_where (\<lambda>i t. i = c_id c \<and> t_state t = ''queued'') (tasks d) = []"
  shows "claim_one E owner secs now op c d = Inr (None, d)"
  using assms unfolding claim_one_def by (simp only: if_True if_P split: if_split) blast

lemma claim_one_SomeE:
  assumes "keyed (tasks d)" and "claim_one E owner secs now op c d = Inr (Some ct, d')"
  obtains t where "row (tasks d) (c_id c) = Some t" "t_state t = ''queued''"
    and "tasks d' = update_where (\<lambda>i t. i = c_id c \<and> t_state t = ''queued'')
           (start_running E owner secs now) (tasks d)"
    and "load_task d' (c_id c) = Some ct"
    and "attempts d' = attempts d @ [new_attempt ct owner now]"
    and "\<forall>b\<in>set (attempts d). \<not> (a_task b = c_id c \<and> a_number b = t_attempts t + 1)"
    and "row (receipts d) op = None"
    and "receipts d' = put op \<lparr>r_kind = ''claim'', r_task = ct_id ct, r_epoch = ct_lease_epoch ct,
           r_at = now\<rparr> (receipts d)"
    and "\<not> (c_pool c = POOL_INTEL_BRIEF \<and> brief_busy d c)"
    and "jobs d' = jobs d" "links d' = links d" "retirements d' = retirements d"
      "stage_outputs d' = stage_outputs d" "lease d' = lease d" "brief_runs d' = brief_runs d"
      "chain_generations d' = chain_generations d" "neighborhoods d' = neighborhoods d"
      "processes d' = processes d"
proof -
  from claim_one_skip[of c d E owner secs now op] assms(2)
  have nb: "\<not> (c_pool c = POOL_INTEL_BRIEF \<and> brief_busy d c)"
    and q: "ids_where (\<lambda>i t. i = c_id c \<and> t_state t = ''queued'') (tasks d) \<noteq> []" by auto
  from q obtain t where t: "row (tasks d) (c_id c) = Some t" "t_state t = ''queued''"
    by (rule queued_row[OF assms(1)])
  let ?d1 = "claimed_tasks E owner secs now (c_id c) d"
  obtain c1 where c1: "load_task ?d1 (c_id c) = Some c1" "ct_id c1 = c_id c"
     "ct_attempts c1 = t_attempts t + 1"
    using t by (simp add: load_task_def start_running_def claimed_tasks_def)
  note run = assms(2)[unfolded claim_one_run[OF nb q c1(1)]]
  from run obtain d2 where d2: "create_attempt (new_attempt c1 owner now) ?d1 = Inr d2"
    by (cases "create_attempt (new_attempt c1 owner now) ?d1") auto
  with run have d5: "write_receipt op ''claim'' (ct_id c1) (ct_lease_epoch c1) now
      (claim_log E c1 now d2) = Inr d'" and eq: "ct = c1"
    by (auto split: sum.splits)
  note facts = d2[unfolded create_attempt_Inr] d5[unfolded write_receipt_Inr]
  have tasks: "tasks d' = tasks ?d1"
    using facts by simp
  then have "load_task d' (c_id c) = Some ct"
    using c1 by (simp add: load_task_def eq)
  then show ?thesis
    using facts nb c1 by - (rule that[OF t], simp_all add: claimed_tasks_def eq new_attempt_def)
qed

lemma claim_first_SomeE:
  assumes "claim_first E owner secs now op cs d = Inr (Some ct, d')"
  obtains c where "c \<in> set cs" "claim_one E owner secs now op c d = Inr (Some ct, d')"
  using assms
proof (induction cs)
  case (Cons c cs)
  show ?case
  proof (cases "claim_one E owner secs now op c d")
    case (Inr p)
    then obtain r d1 where p: "claim_one E owner secs now op c d = Inr (r, d1)" by (cases p) auto
    show ?thesis
    proof (cases r)
      case None
      with p have "d1 = d" using claim_one_None by metis
      with Cons.prems(2) p None have "claim_first E owner secs now op cs d = Inr (Some ct, d')" by simp
      then show ?thesis using Cons.IH Cons.prems(1) by (meson list.set_intros(2))
    qed (use Cons.prems p in auto)
  qed (use Cons.prems in simp)
qed simp

lemma claim_first_None:
  "claim_first E owner secs now op cs d = Inr (None, d') \<Longrightarrow>
     d' = d \<and> (\<forall>c\<in>set cs. claim_one E owner secs now op c d = Inr (None, d))"
proof (induction cs)
  case (Cons c cs)
  then obtain d1 where "claim_one E owner secs now op c d = Inr (None, d1)"
    and "claim_first E owner secs now op cs d1 = Inr (None, d')"
    by (auto split: sum.splits option.splits prod.splits)
  moreover from this(1) have "d1 = d" by (rule claim_one_None)
  ultimately show ?case using Cons.IH by simp
qed simp

lemma claim_pages_SomeE:
  assumes "claim_pages E pool task_id owner secs now op slot page left d = Inr (Some ct, d')"
  obtains p c where "page \<le> p" "p < page + left"
    "c \<in> set (claim_order (claim_page pool task_id now p d) slot)"
    "claim_one E owner secs now op c d = Inr (Some ct, d')"
  using assms
proof (induction left arbitrary: page)
  case (Suc left)
  let ?cs = "claim_order (claim_page pool task_id now page d) slot"
  show ?case
  proof (cases "claim_first E owner secs now op ?cs d")
    case (Inr p)
    then obtain r d1 where p: "claim_first E owner secs now op ?cs d = Inr (r, d1)"
      by (cases p) auto
    show ?thesis
    proof (cases r)
      case None
      with p have "d1 = d" using claim_first_None by metis
      with Suc.prems(2) p None
      have "claim_pages E pool task_id owner secs now op slot (Suc page) left d = Inr (Some ct, d')"
        by (auto simp: Let_def split: if_splits)
      then show ?thesis using Suc.IH[of "Suc page"] Suc.prems(1) by (metis Suc_leD add_Suc_shift)
    next
      case (Some x)
      with Suc.prems(2) p have "claim_first E owner secs now op ?cs d = Inr (Some ct, d')"
        by (auto simp: Let_def split: if_splits)
      then show ?thesis using Suc.prems(1)[of page] by (auto elim: claim_first_SomeE)
    qed
  qed (use Suc.prems in \<open>auto simp: Let_def split: if_splits\<close>)
qed simp

lemma claim_page_mem:
  assumes "keyed (tasks d)" "c \<in> set (claim_page pool task_id now page d)"
  shows "\<exists>t. row (tasks d) (c_id c) = Some t \<and> t_state t = ''queued'' \<and> t_pool t = pool
    \<and> (case task_id of None \<Rightarrow> t_next_eligible_at t \<le> now | Some i \<Rightarrow> c_id c = i)
    \<and> c = candidate_of d (now - hours EXECUTION_WINDOW_HOURS) (c_id c, t)"
proof -
  have mem: "x \<in> set xs" if "x \<in> set (take n (drop k xs))" for x n k and xs :: "(string \<times> task) list"
    using that by (meson in_set_dropD in_set_takeD)
  show ?thesis
  proof (cases task_id)
    case None
    with assms obtain i t where "(i, t) \<in> set (tasks d)" "t_state t = ''queued''" "t_pool t = pool"
      "t_next_eligible_at t \<le> now" "c = candidate_of d (now - hours EXECUTION_WINDOW_HOURS) (i, t)"
      by (auto simp: claim_page_def claim_candidates_def Let_def dest!: mem)
    with None assms(1) show ?thesis by (auto simp: candidate_of_def dest: keyed_memD)
  next
    case (Some tid)
    with assms obtain i t where "(i, t) \<in> set (tasks d)" "t_state t = ''queued''" "t_pool t = pool"
      "i = tid" "c = candidate_of d (now - hours EXECUTION_WINDOW_HOURS) (i, t)"
      by (auto simp: claim_page_def one_candidate_def Let_def dest!: in_set_takeD)
    with Some assms(1) show ?thesis by (auto simp: candidate_of_def dest: keyed_memD)
  qed
qed

section \<open>The contract of a claim\<close>

text \<open>A queued task may run now: what the candidate query and its checks amount to.\<close>

definition runnable :: "db \<Rightarrow> string \<Rightarrow> instant \<Rightarrow> string \<Rightarrow> task \<Rightarrow> bool" where
  "runnable d pool now k t \<longleftrightarrow> t_state t = ''queued'' \<and> t_pool t = pool
     \<and> list_all (\<lambda>x. dep_state d x = ''completed'') (t_deps t)
     \<and> \<not> job_cancelled d (t_job t) \<and> job_fresh d (now - hours EXECUTION_WINDOW_HOURS) (t_job t)
     \<and> \<not> retired d (t_root t) \<and> (pool = POOL_INTEL_BRIEF \<longrightarrow> t_input_hash t \<noteq> [])"

definition brief_exclusive :: "db \<Rightarrow> string \<Rightarrow> task \<Rightarrow> bool" where
  "brief_exclusive d k t \<longleftrightarrow> (\<forall>(i, u)\<in>set (tasks d).
     t_job u = t_job t \<and> t_state u = ''running'' \<and> i \<noteq> k \<longrightarrow> t_deps t = [] \<and> t_deps u = [])"

lemma eligible_candidate:
  "eligible (candidate_of d (now - hours EXECUTION_WINDOW_HOURS) (k, t)) \<and> t_state t = ''queued''
     \<longleftrightarrow> runnable d (t_pool t) now k t"
  by (auto simp: eligible_def candidate_of_def runnable_def list_all_iff)

lemma brief_busy_candidate:
  "brief_busy d (candidate_of d f (k, t)) \<longleftrightarrow> \<not> brief_exclusive d k t"
  by (auto simp: brief_busy_def candidate_of_def brief_exclusive_def ids_where_Nil_iff)

lemma claim_in_pages:
  assumes "row (receipts d) op = None"
  shows "claim_in E pool task_id owner secs now op slot d =
    claim_pages E pool task_id owner secs now op slot 0 (if task_id = None then CLAIM_MAX_PAGES else 1)
      (bump ''pool_guard'' (encode [pool, nat_str (claim_shard owner)]) d)"
  using assms by (simp add: claim_in_def Let_def receipt_of_def)

lemma bump_cancel_flag [simp]: "cancel_flag (bump a b d) = cancel_flag d"
  by (simp add: fun_eq_iff cancel_flag_def)

lemma bump_job_cancelled [simp]: "job_cancelled (bump a b d) j = job_cancelled d j"
  by (cases "row (jobs d) j") (simp_all add: job_cancelled_def)

lemma bump_reads [simp]:
  "job_cancelled (bump a b d) = job_cancelled d" "dep_state (bump a b d) = dep_state d"
  "job_fresh (bump a b d) = job_fresh d" "retired (bump a b d) = retired d"
  "load_task (bump a b d) = load_task d" "receipt_of (bump a b d) = receipt_of d"
  by (simp_all add: fun_eq_iff dep_state_def job_fresh_def
    retired_def load_task_def receipt_of_def)

lemma bump_claimable [simp]:
  "runnable (bump a b d) = runnable d" "brief_exclusive (bump a b d) = brief_exclusive d"
  "candidate_of (bump a b d) = candidate_of d" "brief_busy (bump a b d) = brief_busy d"
  by (simp_all add: fun_eq_iff runnable_def brief_exclusive_def candidate_of_def brief_busy_def)

lemma bump_claim_page [simp]: "claim_page pool tid now p (bump a b d) = claim_page pool tid now p d"
  by (cases tid) (simp_all add: claim_page_def one_candidate_def claim_candidates_def)

lemma claim_in_spec:
  assumes keyed: "keyed (tasks d)" and fresh: "row (receipts d) op = None"
    and claim: "claim_in E pool task_id owner secs now op slot d = Inr (Some ct, d')"
  shows "\<exists>t. row (tasks d) (ct_id ct) = Some t \<and> runnable d pool now (ct_id ct) t
     \<and> (case task_id of None \<Rightarrow> t_next_eligible_at t \<le> now | Some i \<Rightarrow> ct_id ct = i)
     \<and> (pool = POOL_INTEL_BRIEF \<longrightarrow> brief_exclusive d (ct_id ct) t)
     \<and> row (tasks d') = (row (tasks d))(ct_id ct \<mapsto> start_running E owner secs now t)
     \<and> load_task d' (ct_id ct) = Some ct \<and> ct_lease_owner ct = owner
     \<and> ct_lease_epoch ct = t_lease_epoch t + 1
     \<and> attempts d' = attempts d @ [new_attempt ct owner now]
     \<and> row (receipts d') op = Some \<lparr>r_kind = ''claim'', r_task = ct_id ct,
          r_epoch = ct_lease_epoch ct, r_at = now\<rparr>"
proof -
  let ?d = "bump ''pool_guard'' (encode [pool, nat_str (claim_shard owner)]) d"
  have kb: "keyed (tasks ?d)" using keyed by simp
  from claim[unfolded claim_in_pages[OF fresh]] obtain p c
    where c: "c \<in> set (claim_order (claim_page pool task_id now p d) slot)"
      and one: "claim_one E owner secs now op c ?d = Inr (Some ct, d')"
    by (rule claim_pages_SomeE) simp
  from c have cp: "c \<in> set (claim_page pool task_id now p d)" and el: "eligible c"
    by (auto simp: set_claim_order)
  from claim_page_mem[OF keyed cp] obtain t where t: "row (tasks d) (c_id c) = Some t"
      "t_state t = ''queued''" "t_pool t = pool"
      "case task_id of None \<Rightarrow> t_next_eligible_at t \<le> now | Some i \<Rightarrow> c_id c = i"
      "c = candidate_of d (now - hours EXECUTION_WINDOW_HOURS) (c_id c, t)"
    by auto
  have run: "runnable d pool now (c_id c) t"
    using el t eligible_candidate[of d now "c_id c" t] by (metis (no_types))
  have pool: "c_pool c = pool"
    using t(3) by (subst t(5)) (simp add: candidate_of_def)
  obtain
    tasks': "tasks d' = update_where (\<lambda>i t. i = c_id c \<and> t_state t = ''queued'')
       (start_running E owner secs now) (tasks d)"
    and load: "load_task d' (c_id c) = Some ct"
    and rest: "attempts d' = attempts d @ [new_attempt ct owner now]"
      "receipts d' = put op \<lparr>r_kind = ''claim'', r_task = ct_id ct, r_epoch = ct_lease_epoch ct,
           r_at = now\<rparr> (receipts d)"
      "\<not> (c_pool c = POOL_INTEL_BRIEF \<and> brief_busy d c)"
    by (rule claim_one_SomeE[OF kb one]) simp
  have row': "row (tasks d') (c_id c) = Some (start_running E owner secs now t)"
    using t(1,2) by (simp add: tasks')
  with load have ct: "ct_id ct = c_id c" "ct_lease_owner ct = owner"
      "ct_lease_epoch ct = t_lease_epoch t + 1"
    by (auto simp: load_task_def start_running_def)
  have upd: "row (tasks d') = (row (tasks d))(c_id c \<mapsto> start_running E owner secs now t)"
    using t(1,2) by (auto simp: tasks' fun_eq_iff map_option_case split: option.splits)
  have excl: "pool = POOL_INTEL_BRIEF \<longrightarrow> brief_exclusive d (c_id c) t"
    using rest(3) pool t(5) brief_busy_candidate[of d _ "c_id c" t] by (metis (no_types))
  show ?thesis
    using t(1-4)[folded ct(1)] run excl upd load rest(1,2) ct by (intro exI[of _ t]) (simp add: fun_upd_def)
qed

text \<open>C1: A worker only ever claims a stage that may run: it is queued in the pool, its
  dependencies are completed, its job and the job's ancestors are not cancelled, its job is
  inside the execution window, its tree is not retired, and a dependent brief stage is alone in
  its job. The claim marks exactly that stage running under the worker's name with the next
  epoch and the next attempt number, opens that one attempt, and records the receipt.\<close>

theorem claim_in_sound:
  assumes keyed: "keyed (tasks d)" and fresh: "row (receipts d) op = None"
    and claim: "claim_in E pool task_id owner secs now op slot d = Inr (Some ct, d')"
  shows "\<exists>t. row (tasks d) (ct_id ct) = Some t \<and> runnable d pool now (ct_id ct) t
     \<and> (case task_id of None \<Rightarrow> t_next_eligible_at t \<le> now | Some i \<Rightarrow> ct_id ct = i)
     \<and> (pool = POOL_INTEL_BRIEF \<longrightarrow> brief_exclusive d (ct_id ct) t)
     \<and> row (tasks d') = (row (tasks d))(ct_id ct \<mapsto> start_running E owner secs now t)
     \<and> load_task d' (ct_id ct) = Some ct \<and> ct_lease_owner ct = owner
     \<and> ct_lease_epoch ct = t_lease_epoch t + 1
     \<and> attempts d' = attempts d @ [new_attempt ct owner now]
     \<and> row (receipts d') op = Some \<lparr>r_kind = ''claim'', r_task = ct_id ct,
          r_epoch = ct_lease_epoch ct, r_at = now\<rparr>"
  by (rule claim_in_spec[OF assms])

text \<open>A small database for the witnesses: one brief job with a queued head stage and a
  dependent one.\<close>

definition demo_job :: job where
  "demo_job = \<lparr>j_kind = ''task'', j_operation = ''intel_brief'', j_parent = None,
     j_ancestors = [], j_root = ''j'', j_state = ''running'', j_cancel_requested = False,
     j_stopped = False, j_phase = [], j_created_at = 0, j_updated_at = 0, j_finished_at = None,
     j_app = ''intel'', j_title = ''Intel brief'', j_run_ref = [], j_resource_ref = [],
     j_result_ref = [], j_error_category = [], j_error_summary = [], j_correlation_id = [],
     j_worker_owner = [], j_progress_done = None, j_progress_total = None,
     j_heartbeat_at = None, j_active_since = None, j_active_ms = None, j_queue_ms = None,
     j_attempts_used = 0, j_attempt_cap = 0, j_cancellable = False,
     j_provider = [], j_model = [], j_tool = [], j_stage_coverage_json = [], j_retry_wait_ms = None\<rparr>"

definition demo_task :: "string list \<Rightarrow> task" where
  "demo_task deps = \<lparr>t_job = ''j'', t_root = ''j'', t_pool = ''intel_brief'', t_operation = ''op'',
     t_state = ''queued'', t_priority = 0, t_deps = deps, t_input_hash = ''h'', t_output_hash = [],
     t_lease_owner = [], t_process_owner = [], t_lease_until = None, t_lease_epoch = 0,
     t_attempts = 0, t_recoveries = 0, t_created_at = 0, t_next_eligible_at = 0,
     t_started_at = None, t_heartbeat_at = None, t_finished_at = None, t_updated_at = 0,
     t_max_attempts = 3, t_active_ms = 0, t_error_category = [], t_error_message = []\<rparr>"

definition demo_db :: db where
  "demo_db = empty_db\<lparr>jobs := [(''j'', demo_job)],
     tasks := [(''a'', demo_task []), (''b'', demo_task [''a''])]\<rparr>"

definition demo_E :: env where
  "demo_E = \<lparr>redact = (\<lambda>s. s), process_owner = ''p'', millis = (\<lambda>a b. (a - b) div 1000000)\<rparr>"

definition demo_claim :: "tx_error + (claimed option \<times> db)" where
  "demo_claim = claim_in demo_E ''intel_brief'' None ''w'' 60 5 ''k'' (Some 3) demo_db"

lemma demo_claimed: "\<exists>ct d'. demo_claim = Inr (Some ct, d') \<and> ct_id ct = ''a''"
proof -
  have "(case demo_claim of Inr (Some ct, _) \<Rightarrow> ct_id ct = ''a'' | _ \<Rightarrow> False)"
    by code_simp
  then show ?thesis by (auto split: sum.splits option.splits prod.splits)
qed

theorem claim_in_sound_witness:
  "\<exists>ct d'. demo_claim = Inr (Some ct, d') \<and> ct_id ct = ''a'' \<and> ct_lease_epoch ct = 1
     \<and> attempts d' = [new_attempt ct ''w'' 5]"
proof -
  from demo_claimed obtain ct d' where r: "demo_claim = Inr (Some ct, d')" "ct_id ct = ''a''" by blast
  have keyed: "keyed (tasks demo_db)" and fresh: "row (receipts demo_db) ''k'' = None"
    by (simp_all add: demo_db_def keyed_def empty_db_def)
  from claim_in_sound[OF keyed fresh r(1)[unfolded demo_claim_def]] r show ?thesis
    by (auto simp: demo_db_def demo_task_def empty_db_def)
qed

text \<open>Asking again with the operation key of a claim that was granted returns that same
  claim, whatever worker, page order or clock asks, and writes nothing but the pool guard, for
  as long as the stage keeps the epoch; once the stage has another epoch it returns nothing.\<close>

lemma claim_in_replay:
  assumes keyed: "keyed (tasks d)" and fresh: "row (receipts d) op = None"
    and claim: "claim_in E pool task_id owner secs now op slot d = Inr (Some ct, d1)"
    and kept: "row (receipts d2) op = row (receipts d1) op"
  shows "\<exists>r. claim_in E' pool' task_id' owner' secs' now' op slot' d2 =
      Inr (r, bump ''pool_guard'' (encode [pool', nat_str (claim_shard owner')]) d2)
    \<and> (load_task d2 (ct_id ct) = Some ct \<longrightarrow> r = Some ct)
    \<and> (\<forall>t. row (tasks d2) (ct_id ct) = Some t \<and> t_lease_epoch t \<noteq> ct_lease_epoch ct \<longrightarrow> r = None)"
proof -
  from claim_in_spec[OF keyed fresh claim] have "receipt_of d2 op = Some
    \<lparr>r_kind = ''claim'', r_task = ct_id ct, r_epoch = ct_lease_epoch ct, r_at = now\<rparr>"
    using kept by (auto simp: receipt_of_def)
  then show ?thesis
    by (cases "load_task d2 (ct_id ct)") (auto simp: claim_in_def load_task_def)
qed

theorem claim_in_replay_witness:
  "\<exists>ct d1. demo_claim = Inr (Some ct, d1) \<and>
     claim_in demo_E ''other'' None ''w2'' 9 99 ''k'' None d1 =
       Inr (Some ct, bump ''pool_guard'' (encode [''other'', nat_str (claim_shard ''w2'')]) d1)"
proof -
  from demo_claimed obtain ct d1 where r: "demo_claim = Inr (Some ct, d1)" "ct_id ct = ''a''" by blast
  have keyed: "keyed (tasks demo_db)" and fresh: "row (receipts demo_db) ''k'' = None"
    by (simp_all add: demo_db_def keyed_def empty_db_def)
  note c = r(1)[unfolded demo_claim_def]
  have "load_task d1 (ct_id ct) = Some ct"
    using claim_in_spec[OF keyed fresh c] by auto
  with claim_in_replay[OF keyed fresh c refl, of demo_E "''other''" None "''w2''" 9 99 None] r
  show ?thesis by auto
qed

section \<open>A claim that finds nothing\<close>

lemma claim_one_None_iff:
  assumes "keyed (tasks d)" "row (tasks d) k = Some t" "t_state t = ''queued''"
    and "claim_one E owner secs now op (candidate_of d f (k, t)) d = Inr (None, d')"
  shows "t_pool t = POOL_INTEL_BRIEF \<and> \<not> brief_exclusive d k t"
proof (rule ccontr)
  let ?c = "candidate_of d f (k, t)"
  assume "\<not> ?thesis"
  then have nb: "\<not> (c_pool ?c = POOL_INTEL_BRIEF \<and> brief_busy d ?c)"
    by (simp add: brief_busy_candidate) (simp add: candidate_of_def)
  have id: "c_id ?c = k" by (simp add: candidate_of_def)
  have q: "ids_where (\<lambda>i t. i = c_id ?c \<and> t_state t = ''queued'') (tasks d) \<noteq> []"
    using assms(2,3) map_of_SomeD[OF assms(2)] by (auto simp: ids_where_Nil_iff id)
  obtain c1 where c1: "load_task (claimed_tasks E owner secs now (c_id ?c) d) (c_id ?c) = Some c1"
    using assms(2,3) by (simp add: load_task_def claimed_tasks_def id)
  from assms(4)[unfolded claim_one_run[OF nb q c1]] show False
    by (auto split: sum.splits)
qed

definition due_queue :: "db \<Rightarrow> string \<Rightarrow> instant \<Rightarrow> (string \<times> task) list" where
  "due_queue d pool now = sort_key claim_key (filter (\<lambda>(i, t). t_state t = ''queued''
     \<and> t_pool t = pool \<and> t_next_eligible_at t \<le> now) (tasks d))"

lemma claim_page_due:
  "claim_page pool None now p d = map (candidate_of d (now - hours EXECUTION_WINDOW_HOURS))
     (take CLAIM_PAGE (drop (p * CLAIM_PAGE) (due_queue d pool now)))"
  by (simp add: claim_page_def claim_candidates_def due_queue_def)

lemma claim_pages_None:
  "claim_pages E pool None owner secs now op slot page left d = Inr (None, d') \<Longrightarrow>
     d' = d \<and> (\<forall>c \<in> set (map (candidate_of d (now - hours EXECUTION_WINDOW_HOURS))
        (take (left * CLAIM_PAGE) (drop (page * CLAIM_PAGE) (due_queue d pool now)))).
        eligible c \<longrightarrow> claim_one E owner secs now op c d = Inr (None, d))"
proof (induction left arbitrary: page)
  case (Suc left)
  let ?q = "drop (page * CLAIM_PAGE) (due_queue d pool now)"
  let ?cs = "claim_page pool None now page d"
  show ?case
  proof (cases "?cs = []")
    case True
    then have "?q = []" by (simp add: claim_page_due CLAIM_PAGE_def)
    with True Suc.prems show ?thesis by simp
  next
    case False
    with Suc.prems obtain d1
      where first: "claim_first E owner secs now op (claim_order ?cs slot) d = Inr (None, d1)"
        and more: "claim_pages E pool None owner secs now op slot (Suc page) left d1 = Inr (None, d')"
      by (auto simp: Let_def split: sum.splits option.splits prod.splits)
    from claim_first_None[OF first] have "d1 = d"
      and here: "\<forall>c\<in>set ?cs. eligible c \<longrightarrow> claim_one E owner secs now op c d = Inr (None, d)"
      by (auto simp: set_claim_order)
    have split: "take (Suc left * CLAIM_PAGE) ?q =
      take CLAIM_PAGE ?q @ take (left * CLAIM_PAGE) (drop (Suc page * CLAIM_PAGE) (due_queue d pool now))"
      by (simp add: take_add add.commute)
    from Suc.IH[OF more[unfolded \<open>d1 = d\<close>]] here show ?thesis
      unfolding split map_append claim_page_due by auto
  qed
qed simp

text \<open>C10: A claim that comes back empty overlooked nothing among the first
  64 due stages of the pool in queue order: each of them is either not allowed to run, or a
  dependent brief stage that must wait for another stage of its job; and it changed nothing
  but the pool guard.\<close>

theorem claim_in_complete:
  assumes keyed: "keyed (tasks d)" and fresh: "row (receipts d) op = None"
    and claim: "claim_in E pool None owner secs now op slot d = Inr (None, d')"
    and due: "(k, t) \<in> set (take (CLAIM_MAX_PAGES * CLAIM_PAGE) (due_queue d pool now))"
  shows "d' = bump ''pool_guard'' (encode [pool, nat_str (claim_shard owner)]) d
    \<and> (\<not> runnable d pool now k t \<or> pool = POOL_INTEL_BRIEF \<and> \<not> brief_exclusive d k t)"
proof -
  let ?d = "bump ''pool_guard'' (encode [pool, nat_str (claim_shard owner)]) d"
  let ?c = "candidate_of d (now - hours EXECUTION_WINDOW_HOURS) (k, t)"
  have queue: "due_queue ?d pool now = due_queue d pool now" by (simp add: due_queue_def)
  from claim_pages_None[OF claim[unfolded claim_in_pages[OF fresh], simplified if_P[OF refl]]]
  have d': "d' = ?d" and none: "eligible ?c \<Longrightarrow> claim_one E owner secs now op ?c ?d = Inr (None, ?d)"
    using due by (auto simp: queue)
  from in_set_takeD[OF due] have t: "(k, t) \<in> set (tasks d)" "t_state t = ''queued''" "t_pool t = pool"
    by (auto simp: due_queue_def)
  then have "row (tasks ?d) k = Some t" using keyed by (simp add: keyed_memD)
  with claim_one_None_iff[of ?d k t E owner secs now op "now - hours EXECUTION_WINDOW_HOURS" ?d]
    none t keyed eligible_candidate[of d now k t] d' show ?thesis by auto
qed

definition demo_waiting :: db where
  "demo_waiting = demo_db\<lparr>tasks := [(''b'', demo_task [''a''])]\<rparr>"

theorem claim_in_complete_witness:
  "\<exists>d'. claim_in demo_E ''intel_brief'' None ''w'' 60 5 ''k'' (Some 3) demo_waiting = Inr (None, d')
     \<and> \<not> runnable demo_waiting ''intel_brief'' 5 ''b'' (demo_task [''a''])"
proof -
  let ?r = "claim_in demo_E ''intel_brief'' None ''w'' 60 5 ''k'' (Some 3) demo_waiting"
  have "(case ?r of Inr (None, _) \<Rightarrow> True | _ \<Rightarrow> False)"
    by code_simp
  then obtain d' where r: "?r = Inr (None, d')"
    by (auto split: sum.splits option.splits prod.splits)
  have keyed: "keyed (tasks demo_waiting)" and fresh: "row (receipts demo_waiting) ''k'' = None"
    by (simp_all add: demo_waiting_def demo_db_def keyed_def empty_db_def)
  have due: "(''b'', demo_task [''a'']) \<in>
      set (take (CLAIM_MAX_PAGES * CLAIM_PAGE) (due_queue demo_waiting ''intel_brief'' 5))"
    by (simp add: due_queue_def demo_waiting_def demo_task_def CLAIM_MAX_PAGES_def CLAIM_PAGE_def)
  have "brief_exclusive demo_waiting ''b'' (demo_task [''a''])"
    by (simp add: brief_exclusive_def demo_waiting_def)
  with claim_in_complete[OF keyed fresh r due] r show ?thesis by auto
qed

section \<open>The order of a page, as a policy\<close>

text \<open>A worker tries exactly the eligible candidates of a page, best priority first. The
  claim whose turn it is to serve the head takes them in queue order, so the oldest stage is not
  starved; any other claim of the pool starts at a later stage of the best priority whenever
  there are several, so that it does not race the head.\<close>

lemma claim_order_policy:
  assumes sorted: "sorted (map c_priority cs)"
  shows "mset (claim_order cs slot) = mset (filter eligible cs)
    \<and> sorted (map c_priority (claim_order cs slot))
    \<and> (seq mod HEAD_EVERY = 0 \<longrightarrow> claim_order cs (claim_slot seq 0 owner) = filter eligible cs)
    \<and> ((seq mod HEAD_EVERY \<noteq> 0 \<or> tries \<noteq> 0) \<and> 1 < best_run (filter eligible cs) \<longrightarrow>
        (\<exists>i. 1 \<le> i \<and> i < best_run (filter eligible cs)
           \<and> hd (claim_order cs (claim_slot seq tries owner)) = filter eligible cs ! i))"
proof (intro conjI impI)
  have el: "sorted (map c_priority (filter eligible cs))"
    using sorted by (rule sorted_filter)
  show "mset (claim_order cs slot) = mset (filter eligible cs)" by (rule mset_claim_order)
  show "sorted (map c_priority (claim_order cs slot))" by (rule claim_order_sorted[OF el])
  show "claim_order cs (claim_slot seq 0 owner) = filter eligible cs" if "seq mod HEAD_EVERY = 0"
    using that by (simp add: claim_slot_def claim_order_head)
  assume a: "(seq mod HEAD_EVERY \<noteq> 0 \<or> tries \<noteq> 0) \<and> 1 < best_run (filter eligible cs)"
  then have slot: "claim_slot seq tries owner = Some (claim_shard owner)"
    by (auto simp: claim_slot_def)
  from a obtain best el where f: "filter eligible cs = best # el"
    by (cases "filter eligible cs") (auto simp: best_run_def)
  let ?b = "best_run (best # el)"
  have b: "?b = length (takeWhile (\<lambda>c. c_priority c = c_priority best) (best # el))"
    by (simp add: best_run_def)
  from claim_order_bucket[OF f b claim_shard_less, of owner] a obtain turn
    where turn: "1 \<le> turn" "turn < ?b"
      "claim_order cs (Some (claim_shard owner)) = drop turn (take ?b (best # el))
         @ take turn (take ?b (best # el)) @ drop ?b (best # el)" by (auto simp: f)
  have "?b \<le> length (best # el)" unfolding b by (rule length_takeWhile_le)
  with turn(2) have lt: "turn < length (take ?b (best # el))"
    by (metis length_take min.absorb2)
  then have "hd (claim_order cs (Some (claim_shard owner))) = take ?b (best # el) ! turn"
    unfolding turn(3) by (metis hd_append2 hd_drop_conv_nth drop_eq_Nil not_le)
  then show "\<exists>i\<ge>1. i < best_run (filter eligible cs)
     \<and> hd (claim_order cs (claim_slot seq tries owner)) = filter eligible cs ! i"
    using turn(1,2) unfolding f slot by (intro exI[of _ turn]) simp
qed

definition demo_candidates :: "candidate list" where
  "demo_candidates = map (candidate_of demo_db 0) [(''a'', demo_task []), (''c'', demo_task [])]"

theorem claim_order_policy_witness:
  "hd (claim_order demo_candidates (claim_slot 8 0 ''w'')) = candidate_of demo_db 0 (''a'', demo_task [])
   \<and> hd (claim_order demo_candidates (claim_slot 9 0 ''w'')) = candidate_of demo_db 0 (''c'', demo_task [])"
proof -
  have sorted: "sorted (map c_priority demo_candidates)"
    and el: "filter eligible demo_candidates = demo_candidates"
    and run: "best_run demo_candidates = 2"
    by code_simp+
  note policy = claim_order_policy[OF sorted, unfolded el run]
  from policy[of None 9 "''w''" 0] have
    "hd (claim_order demo_candidates (claim_slot 9 0 ''w'')) = demo_candidates ! 1"
    by (auto simp: HEAD_EVERY_def less_2_cases_iff)
  moreover from policy[of None 8 "''w''" 0] have
    "claim_order demo_candidates (claim_slot 8 0 ''w'') = demo_candidates"
    by (simp add: HEAD_EVERY_def)
  ultimately show ?thesis by (simp add: demo_candidates_def)
qed

section \<open>Renewal\<close>

definition still_held :: "db \<Rightarrow> claimed \<Rightarrow> bool" where
  "still_held d ct \<longleftrightarrow> (\<exists>t. row (tasks d) (ct_id ct) = Some t \<and> t_state t = ''running''
     \<and> t_lease_owner t = ct_lease_owner ct \<and> t_lease_epoch t = ct_lease_epoch ct)"

text \<open>A renewal succeeds exactly while the stage is still running under the worker's own
  claim; it then moves the lease forward and nothing else in any other stage; a worker that
  lost its claim changes nothing.\<close>

lemma renew_lease_contract:
  assumes keyed: "keyed (tasks d)"
  shows "\<exists>d'. renew_lease ct secs now d = Inr (still_held d ct, d')
    \<and> (still_held d ct \<longrightarrow> still_held d' ct
        \<and> map_option t_lease_until (row (tasks d') (ct_id ct)) = Some (Some (now + seconds secs))
        \<and> (\<forall>k. k \<noteq> ct_id ct \<longrightarrow> row (tasks d') k = row (tasks d) k))
    \<and> (\<not> still_held d ct \<longrightarrow> d' = d)"
proof (cases "still_held d ct")
  case True
  then obtain t where t: "row (tasks d) (ct_id ct) = Some t" "t_state t = ''running''"
    "t_lease_owner t = ct_lease_owner ct" "t_lease_epoch t = ct_lease_epoch ct"
    by (auto simp: still_held_def)
  have other: "k \<noteq> ct_id ct \<Longrightarrow> map_option (\<lambda>r. r) (row (tasks d) k) = row (tasks d) k" for k
    by (simp add: option.map_ident)
  with True t show ?thesis
    by (auto simp: renew_lease_def load_task_def still_held_def cong: option.map_cong)
next
  case False
  then have "update_where (\<lambda>i t. i = ct_id ct \<and> t_state t = ''running''
      \<and> t_lease_owner t = ct_lease_owner ct \<and> t_lease_epoch t = ct_lease_epoch ct) f (tasks d) = tasks d"
    for f by (intro update_where_none) (auto simp: still_held_def keyed_memD[OF keyed])
  with False show ?thesis
    by (auto simp: renew_lease_def load_task_def still_held_def Let_def split: option.splits)
qed

definition demo_claimed_task :: claimed where
  "demo_claimed_task = \<lparr>ct_id = ''a'', ct_job_id = ''j'', ct_root_id = ''j'',
     ct_operation = ''op'', ct_pool = ''intel_brief'', ct_input_hash = ''h'', ct_lease_owner = ''w'',
     ct_lease_epoch = 1, ct_attempts = 1, ct_state = ''running''\<rparr>"

definition demo_running :: db where
  "demo_running = demo_db\<lparr>tasks := [(''a'', start_running demo_E ''w'' 60 5 (demo_task [])),
     (''b'', demo_task [''a''])], attempts := [new_attempt demo_claimed_task ''w'' 5]\<rparr>"

lemma keyed_demo_running: "keyed (tasks demo_running)"
  by (simp add: demo_running_def keyed_def)

lemma still_held_demo_running: "still_held demo_running demo_claimed_task"
  by (simp add: still_held_def demo_running_def demo_claimed_task_def start_running_def demo_task_def)

theorem renew_lease_contract_witness:
  "\<exists>d'. renew_lease demo_claimed_task 60 30 demo_running = Inr (True, d')
     \<and> still_held d' demo_claimed_task"
  using renew_lease_contract[OF keyed_demo_running, of demo_claimed_task 60 30]
    still_held_demo_running by auto

end
