(* ===== verification/Job_Commit.thy ===== *)
theory Job_Commit
  imports Job_Claim
begin

text \<open>
  Fenced publication (\<open>storage/jobs.rs\<close>, lines 923 to 1245): the fence a worker must
  pass, completion of a task, stage commit and neighborhood publication, the settling
  of a job whose tasks have finished; and the other fenced endings of a claimed task
  (\<open>storage/brief_stages.rs\<close>, \<open>summary_flush.rs\<close>, \<open>refresh_exec.rs\<close>, \<open>brain_scope.rs\<close>).
  \<open>clock\<close> is SurrealQL's \<open>time::now()\<close>.
\<close>

section \<open>The fence\<close>

datatype publish = Committed | LeaseLost | Cancelled

record fence_row =
  f_root_id :: string
  f_state :: string
  f_lease_owner :: string
  f_lease_epoch :: int
  f_output_hash :: string
  f_live :: bool
  f_cancelled :: bool

definition fence :: "claimed \<Rightarrow> instant \<Rightarrow> db \<Rightarrow> fence_row option" where
  "fence ct now d = map_option (\<lambda>t. \<lparr>f_root_id = t_root t, f_state = t_state t,
     f_lease_owner = t_lease_owner t, f_lease_epoch = t_lease_epoch t,
     f_output_hash = t_output_hash t,
     f_live = (now < (case t_lease_until t of Some u \<Rightarrow> u | None \<Rightarrow> 0)),
     f_cancelled = job_cancelled d (t_job t)\<rparr>) (row (tasks d) (ct_id ct))"

definition holds :: "fence_row \<Rightarrow> claimed \<Rightarrow> bool" where
  "holds f ct \<longleftrightarrow> f_state f = ''running'' \<and> f_lease_owner f = ct_lease_owner ct
     \<and> f_lease_epoch f = ct_lease_epoch ct \<and> f_live f"

definition should_continue :: "claimed \<Rightarrow> db \<Rightarrow> bool" where
  "should_continue ct d = (case row (tasks d) (ct_id ct) of
     Some t \<Rightarrow> t_state t = ''running'' \<and> \<not> job_cancelled d (t_job t) | None \<Rightarrow> False)"

section \<open>Closing attempts and completing a task\<close>

text \<open>\<open>LET $open = \<dots> finished_at = NONE; UPDATE $open SET \<dots>\<close>\<close>

definition close_attempts :: "env \<Rightarrow> (attempt \<Rightarrow> bool) \<Rightarrow> string \<Rightarrow> instant \<Rightarrow> attempt list \<Rightarrow> attempt list"
  where
  "close_attempts E P outcome now as = map (\<lambda>a. if P a \<and> a_finished_at a = None
     then a\<lparr>a_finished_at := Some now, a_duration_ms := Some (millis E now (a_started_at a)),
            a_outcome := outcome\<rparr> else a) as"

definition attempt_of :: "string \<Rightarrow> int \<Rightarrow> attempt \<Rightarrow> bool" where
  "attempt_of task epoch a \<longleftrightarrow> a_task a = task \<and> a_epoch a = epoch"

definition active_ms_of :: "string \<Rightarrow> attempt list \<Rightarrow> int" where
  "active_ms_of task as = sum_list (map (\<lambda>a. case a_duration_ms a of Some m \<Rightarrow> m | None \<Rightarrow> 0)
     (filter (\<lambda>a. a_task a = task) as))"

definition complete_in :: "env \<Rightarrow> claimed \<Rightarrow> string \<Rightarrow> instant \<Rightarrow> db \<Rightarrow> db" where
  "complete_in E ct hash now d =
     (let as = close_attempts E (attempt_of (ct_id ct) (ct_lease_epoch ct)) ''completed'' now
            (attempts d);
          d1 = d\<lparr>tasks := update_one (ct_id ct) (\<lambda>t. t\<lparr>t_state := ''completed'',
              t_output_hash := hash, t_lease_owner := [], t_process_owner := [],
              t_lease_until := None, t_finished_at := Some now, t_updated_at := now,
              t_active_ms := active_ms_of (ct_id ct) as\<rparr>) (tasks d), attempts := as\<rparr>
      in log_transition_in E (ct_job_id ct)
           (ct_id ct @ '':'' @ nat_str (nat (ct_lease_epoch ct)) @ '':completed'')
           ''task.completed'' (''Completed: '' @ ct_operation ct) now d1)"

section \<open>Settling a finished job\<close>

definition tasks_of_job :: "db \<Rightarrow> string \<Rightarrow> (string \<times> task) list" where
  "tasks_of_job d j = filter (\<lambda>(i, t). t_job t = j) (tasks d)"

definition rollup_in :: "env \<Rightarrow> string \<Rightarrow> db \<Rightarrow> db" where
  "rollup_in E j d =
     (let ts = tasks_of_job d j;
          att = map a_duration_ms (filter (\<lambda>a. a_task a \<in> fst ` set ts) (attempts d));
          starts = sort (List.map_filter (\<lambda>(i, t). t_started_at t) ts);
          failed = map (\<lambda>(i, t). t_error_category t) (filter (\<lambda>(i, t). t_state t = ''failed'') ts)
      in d\<lparr>jobs := update_one j (\<lambda>r. r\<lparr>
           j_attempts_used := int (length att),
           j_attempt_cap := sum_list (map (\<lambda>(i, t). t_max_attempts t) ts),
           j_active_ms := (if att \<noteq> []
             then Some (sum_list (map (\<lambda>m. case m of Some x \<Rightarrow> x | None \<Rightarrow> 0) att))
             else j_active_ms r),
           j_queue_ms := (case starts of [] \<Rightarrow> j_queue_ms r
             | s # _ \<Rightarrow> Some (millis E s (j_created_at r))),
           j_error_summary := (if failed \<noteq> []
             then nat_str (length failed) @ '' task(s) failed'' else j_error_summary r),
           j_error_category := (if failed \<noteq> []
             then (case filter (\<lambda>c. c \<noteq> []) failed of c # _ \<Rightarrow> c | [] \<Rightarrow> ''task_failed'')
             else j_error_category r)\<rparr>) (jobs d)\<rparr>)"

definition open_state :: "string \<Rightarrow> bool" where
  "open_state s \<longleftrightarrow> s = ''queued'' \<or> s = ''running'' \<or> s = ''retry_scheduled''
     \<or> s = ''waiting'' \<or> s = ''pending''"

definition settle_finished_job_in :: "env \<Rightarrow> instant \<Rightarrow> string \<Rightarrow> (bool \<times> db) \<Rightarrow> bool \<times> db" where
  "settle_finished_job_in E clock j = (\<lambda>(_, d).
     let ts = tasks_of_job d j in
     if ts = [] then (False, d)
     else if list_ex (\<lambda>(i, t). open_state (t_state t)) ts then (False, d)
     else
       let d1 = rollup_in E j d;
           next_state = (if list_ex (\<lambda>(i, t). t_state t = ''failed'') ts
             then ''failed'' else ''completed'')
       in (True, d1\<lparr>
            jobs := update_where (\<lambda>i r. i = j \<and> j_state r \<in> {''running'', ''active'', ''queued''})
              (\<lambda>r. r\<lparr>j_state := next_state,
                 j_finished_at := (case j_finished_at r of None \<Rightarrow> Some clock | f \<Rightarrow> f),
                 j_updated_at := clock\<rparr>) (jobs d1),
            brief_runs := update_where (\<lambda>i b. b_job b = j \<and> b_state b = ''active'')
              (\<lambda>b. b\<lparr>b_state := next_state, b_updated_at := clock\<rparr>) (brief_runs d1)\<rparr>))"

definition settle_finished_job :: "env \<Rightarrow> instant \<Rightarrow> string \<Rightarrow> (db, bool) body" where
  "settle_finished_job E clock j d = Inr (settle_finished_job_in E clock j (False, d))"

text \<open>Queued stages that wait for a failed or cancelled dependency, none still open.\<close>

definition blocked_task :: "db \<Rightarrow> string \<Rightarrow> task \<Rightarrow> bool" where
  "blocked_task d j t \<longleftrightarrow> t_job t = j \<and> t_state t = ''queued'' \<and> t_deps t \<noteq> []
     \<and> list_all (\<lambda>x. dep_state d x \<in> {''completed'', ''failed'', ''cancelled'', ''superseded''}) (t_deps t)
     \<and> list_ex (\<lambda>x. dep_state d x \<in> {''failed'', ''cancelled''}) (t_deps t)"

fun settle_rounds :: "nat \<Rightarrow> instant \<Rightarrow> string \<Rightarrow> db \<Rightarrow> db" where
  "settle_rounds 0 now j d = d"
| "settle_rounds (Suc n) now j d =
     (let blocked = ids_where (\<lambda>i t. blocked_task d j t) (tasks d) in
      if blocked = [] then d
      else settle_rounds n now j (d\<lparr>tasks := update_where
        (\<lambda>i t. i \<in> set blocked \<and> t_state t = ''queued'')
        (\<lambda>t. t\<lparr>t_state := ''cancelled'', t_finished_at := Some now, t_updated_at := now\<rparr>)
        (tasks d)\<rparr>))"

definition settle_blocked_job :: "env \<Rightarrow> instant \<Rightarrow> string \<Rightarrow> (db, bool) body" where
  "settle_blocked_job E clock j d =
     Inr (settle_finished_job_in E clock j (False, settle_rounds 4 clock j d))"

fun settle_each :: "env \<Rightarrow> instant \<Rightarrow> string list \<Rightarrow> db \<Rightarrow> db" where
  "settle_each E clock [] d = d"
| "settle_each E clock (j # js) d =
     settle_each E clock js (snd (settle_finished_job_in E clock j (False, d)))"

definition settle_running_intel_briefs :: "env \<Rightarrow> instant \<Rightarrow> db \<Rightarrow> db" where
  "settle_running_intel_briefs E clock d = settle_each E clock
     (ids_where (\<lambda>i r. j_state r = ''running'' \<and> j_operation r = ''intel_brief'') (jobs d)) d"

section \<open>Publication\<close>

definition commit_stage ::
  "env \<Rightarrow> claimed \<Rightarrow> string \<Rightarrow> string \<Rightarrow> instant \<Rightarrow> instant \<Rightarrow> string \<Rightarrow> (db, publish) body" where
  "commit_stage E ct output_json output_hash now clock op_key d0 =
     (let d = bump ''job_guard'' (ct_root_id ct) d0 in
      case receipt_of d op_key of
        Some r \<Rightarrow>
          if r_kind r = ''stage'' \<and> r_task r = ct_id ct \<and> r_epoch r = ct_lease_epoch ct
          then Inr (Committed, d)
          else Inl (Abort (''operation key '' @ op_key @ '' reused''))
      | None \<Rightarrow>
          (case fence ct now d of
             None \<Rightarrow> Inr (LeaseLost, d)
           | Some f \<Rightarrow>
               if \<not> holds f ct then Inr (LeaseLost, d)
               else if f_cancelled f then Inr (Cancelled, d)
               else
                 let d1 = d\<lparr>stage_outputs := put (ct_id ct) \<lparr>so_task = ct_id ct,
                        so_root = f_root_id f, so_stage = ct_operation ct,
                        so_output_hash = output_hash, so_output_json = output_json,
                        so_committed_at = now\<rparr> (stage_outputs d)\<rparr>;
                     d2 = complete_in E ct output_hash now d1
                 in case write_receipt op_key ''stage'' (ct_id ct) (ct_lease_epoch ct) now d2 of
                      Inl e \<Rightarrow> Inl e
                    | Inr d3 \<Rightarrow>
                        Inr (Committed, snd (settle_finished_job_in E clock (ct_job_id ct)
                          (False, d3)))))"

definition publish_neighborhood ::
  "env \<Rightarrow> claimed \<Rightarrow> string \<Rightarrow> string \<Rightarrow> string \<Rightarrow> instant \<Rightarrow> (db, publish) body" where
  "publish_neighborhood E ct body_text route output_hash now d0 =
     (let d = bump ''job_guard'' (ct_root_id ct) d0 in
      case fence ct now d of
        None \<Rightarrow> Inr (LeaseLost, d)
      | Some f \<Rightarrow>
          if f_state f = ''completed'' \<and> f_lease_epoch f = ct_lease_epoch ct
             \<and> f_output_hash f = output_hash
          then Inr (Committed, d)
          else if \<not> holds f ct then Inr (LeaseLost, d)
          else if f_cancelled f then Inr (Cancelled, d)
          else
            let d1 = d\<lparr>neighborhoods := put (ct_id ct) \<lparr>nb_task = ct_id ct, nb_body = body_text,
                   nb_route = route, nb_generated_at = now\<rparr> (neighborhoods d)\<rparr>
            in Inr (Committed, complete_in E ct output_hash now d1))"

section \<open>Other fenced endings\<close>

text \<open>These endings close the attempt without writing its duration.\<close>

definition end_attempts :: "(attempt \<Rightarrow> bool) \<Rightarrow> string \<Rightarrow> instant \<Rightarrow> attempt list \<Rightarrow> attempt list"
  where
  "end_attempts P outcome now as = map (\<lambda>a. if P a \<and> a_finished_at a = None
     then a\<lparr>a_finished_at := Some now, a_outcome := outcome\<rparr> else a) as"

definition end_task ::
  "claimed \<Rightarrow> (task \<Rightarrow> task) \<Rightarrow> string \<Rightarrow> instant \<Rightarrow> db \<Rightarrow> db" where
  "end_task ct f outcome now d = d\<lparr>tasks := update_one (ct_id ct)
       (\<lambda>t. f (t\<lparr>t_lease_owner := [], t_process_owner := [], t_lease_until := None\<rparr>)) (tasks d),
     attempts := end_attempts (attempt_of (ct_id ct) (ct_lease_epoch ct)) outcome now (attempts d)\<rparr>"

definition fenced ::
  "claimed \<Rightarrow> instant \<Rightarrow> (db \<Rightarrow> db) \<Rightarrow> (db, bool) body" where
  "fenced ct now act d0 =
     (let d = bump ''job_guard'' (ct_root_id ct) d0 in
      case fence ct now d of
        Some f \<Rightarrow> if holds f ct then Inr (True, act d) else Inr (False, d)
      | None \<Rightarrow> Inr (False, d))"

text \<open>\<open>brief_stages::fail\<close>: the stage waits for an explicit retry.\<close>

definition fail_stage :: "claimed \<Rightarrow> string \<Rightarrow> string \<Rightarrow> instant \<Rightarrow> (db, bool) body" where
  "fail_stage ct category message now = fenced ct now
     (end_task ct (\<lambda>t. t\<lparr>t_state := ''failed'', t_finished_at := Some now,
        t_error_category := category, t_error_message := message, t_updated_at := now\<rparr>)
        ''failed'' now)"

text \<open>\<open>summary_flush::end\<close>: \<open>queued\<close> refunds the attempt.\<close>

definition end_summary :: "env \<Rightarrow> claimed \<Rightarrow> string \<Rightarrow> string \<Rightarrow> instant \<Rightarrow> (db, bool) body" where
  "end_summary E ct state hash now = fenced ct now
     (if state = ''completed'' then complete_in E ct hash now
      else end_task ct (\<lambda>t. t\<lparr>t_state := state, t_next_eligible_at := now,
        t_attempts := (if state = ''queued'' then max (t_attempts t - 1) 0 else t_attempts t),
        t_finished_at := (if state = ''queued'' then None else Some now),
        t_updated_at := now\<rparr>) state now)"

datatype ending = Continue | Superseded | Blocked | Failed_Ending

definition ending_state :: "ending \<Rightarrow> string \<times> string" where
  "ending_state e = (case e of
     Continue \<Rightarrow> (''queued'', ''slice_complete'')
   | Superseded \<Rightarrow> (''superseded'', ''superseded'')
   | Blocked \<Rightarrow> (''paused'', ''cancelled'')
   | Failed_Ending \<Rightarrow> (''failed'', ''failed''))"

text \<open>\<open>refresh_exec::end_claimed\<close>, with the note on the refresh task.\<close>

definition end_refresh :: "claimed \<Rightarrow> ending \<Rightarrow> string \<Rightarrow> instant \<Rightarrow> (db, bool) body" where
  "end_refresh ct e message now = fenced ct now
     (\<lambda>d. let (state, outcome) = ending_state e; terminal = (e = Superseded \<or> e = Failed_Ending);
          d1 = end_task ct (\<lambda>t. t\<lparr>t_state := state, t_next_eligible_at := now,
            t_attempts := (if e = Blocked then max (t_attempts t - 1) 0 else t_attempts t),
            t_finished_at := (if terminal then Some now else None), t_updated_at := now\<rparr>)
            outcome now d
      in d1\<lparr>refresh_notes := update_one (ct_id ct) (\<lambda>n. n\<lparr>rn_message := message,
           rn_blocked_reason := (if e = Blocked then message else [])\<rparr>) (refresh_notes d1)\<rparr>)"

text \<open>
  \<open>brain_scope::end\<close>: success stores the result; a failure requeues after 30 s until
  three attempts were used. \<open>hash\<close> is \<open>nlp::cache::hash\<close>.
\<close>

definition end_scope ::
  "env \<Rightarrow> (string \<Rightarrow> string) \<Rightarrow> claimed \<Rightarrow> bool \<Rightarrow> string \<Rightarrow> instant \<Rightarrow> (db, bool) body" where
  "end_scope E hash ct ok out now = fenced ct now
     (\<lambda>d. if ok then
        (let d1 = complete_in E ct (hash out) now d
         in d1\<lparr>scope_results := update_one (ct_id ct) (\<lambda>_. out) (scope_results d1)\<rparr>)
      else end_task ct (\<lambda>t. t\<lparr>t_state := (if t_attempts t \<ge> 3 then ''failed'' else ''queued''),
          t_next_eligible_at := now + seconds 30,
          t_finished_at := (if t_attempts t \<ge> 3 then Some now else None),
          t_updated_at := now\<rparr>) ''failed'' now d)"

section \<open>Frames\<close>

lemma complete_in_frame [simp, frame]:
  "jobs (complete_in E ct h n d) = jobs d" "receipts (complete_in E ct h n d) = receipts d"
  "stage_outputs (complete_in E ct h n d) = stage_outputs d"
  "neighborhoods (complete_in E ct h n d) = neighborhoods d"
  "brief_runs (complete_in E ct h n d) = brief_runs d" "links (complete_in E ct h n d) = links d"
  "retirements (complete_in E ct h n d) = retirements d" "lease (complete_in E ct h n d) = lease d"
  "chain_generations (complete_in E ct h n d) = chain_generations d"
  "processes (complete_in E ct h n d) = processes d"
  by (simp_all add: complete_in_def Let_def)

lemma complete_in_attempts [simp]:
  "attempts (complete_in E ct h n d) =
     close_attempts E (attempt_of (ct_id ct) (ct_lease_epoch ct)) ''completed'' n (attempts d)"
  by (simp add: complete_in_def Let_def)

lemma complete_in_task:
  "row (tasks (complete_in E ct h n d)) k = (case row (tasks d) k of None \<Rightarrow> None
     | Some t \<Rightarrow> Some (if k = ct_id ct then t\<lparr>t_state := ''completed'', t_output_hash := h,
         t_lease_owner := [], t_process_owner := [], t_lease_until := None,
         t_finished_at := Some n, t_updated_at := n,
         t_active_ms := active_ms_of (ct_id ct) (close_attempts E
           (attempt_of (ct_id ct) (ct_lease_epoch ct)) ''completed'' n (attempts d))\<rparr> else t))"
  by (auto simp: complete_in_def Let_def split: option.splits)

lemma complete_in_keys [simp]: "map fst (tasks (complete_in E ct h n d)) = map fst (tasks d)"
  by (simp add: complete_in_def Let_def)

lemma rollup_in_frame [simp, frame]:
  "tasks (rollup_in E j d) = tasks d" "attempts (rollup_in E j d) = attempts d"
  "receipts (rollup_in E j d) = receipts d" "stage_outputs (rollup_in E j d) = stage_outputs d"
  "neighborhoods (rollup_in E j d) = neighborhoods d" "brief_runs (rollup_in E j d) = brief_runs d"
  "retirements (rollup_in E j d) = retirements d" "lease (rollup_in E j d) = lease d"
  "chain_generations (rollup_in E j d) = chain_generations d" "links (rollup_in E j d) = links d"
  "processes (rollup_in E j d) = processes d"
  "map fst (jobs (rollup_in E j d)) = map fst (jobs d)"
  by (simp_all add: rollup_in_def Let_def)

lemma rollup_in_job:
  "\<exists>f. row (jobs (rollup_in E j d)) = (\<lambda>k. map_option (\<lambda>r. if k = j then f r else r) (row (jobs d) k))
     \<and> (\<forall>r. j_state (f r) = j_state r \<and> j_kind (f r) = j_kind r \<and> j_root (f r) = j_root r
       \<and> j_parent (f r) = j_parent r \<and> j_ancestors (f r) = j_ancestors r
       \<and> j_cancel_requested (f r) = j_cancel_requested r \<and> j_stopped (f r) = j_stopped r
       \<and> j_created_at (f r) = j_created_at r \<and> j_operation (f r) = j_operation r)"
  by (auto simp: rollup_in_def Let_def fun_eq_iff intro!: exI)

lemma settle_finished_frame [simp, frame]:
  "tasks (snd (settle_finished_job_in E c j p)) = tasks (snd p)"
  "attempts (snd (settle_finished_job_in E c j p)) = attempts (snd p)"
  "receipts (snd (settle_finished_job_in E c j p)) = receipts (snd p)"
  "stage_outputs (snd (settle_finished_job_in E c j p)) = stage_outputs (snd p)"
  "neighborhoods (snd (settle_finished_job_in E c j p)) = neighborhoods (snd p)"
  "retirements (snd (settle_finished_job_in E c j p)) = retirements (snd p)"
  "lease (snd (settle_finished_job_in E c j p)) = lease (snd p)"
  "links (snd (settle_finished_job_in E c j p)) = links (snd p)"
  "processes (snd (settle_finished_job_in E c j p)) = processes (snd p)"
  "chain_generations (snd (settle_finished_job_in E c j p)) = chain_generations (snd p)"
  by (simp_all add: settle_finished_job_in_def Let_def split: prod.splits)

section \<open>Publication\<close>

text \<open>The claim is still the current one: running, same owner and epoch, lease not expired.\<close>

definition holds_now :: "db \<Rightarrow> instant \<Rightarrow> claimed \<Rightarrow> bool" where
  "holds_now d now ct = (case fence ct now d of Some f \<Rightarrow> holds f ct | None \<Rightarrow> False)"

lemma holds_now_bump [simp]: "holds_now (bump a b d) now ct = holds_now d now ct"
  by (simp add: holds_now_def fence_def)

lemma fence_bump [simp]: "fence ct now (bump a b d) = fence ct now d"
  by (simp add: fence_def)

lemma holds_now_row:
  "holds_now d now ct \<longleftrightarrow> (\<exists>t. row (tasks d) (ct_id ct) = Some t \<and> t_state t = ''running''
     \<and> t_lease_owner t = ct_lease_owner ct \<and> t_lease_epoch t = ct_lease_epoch ct
     \<and> now < (case t_lease_until t of Some u \<Rightarrow> u | None \<Rightarrow> 0))"
  by (auto simp: holds_now_def fence_def holds_def split: option.splits)

lemma holds_now_held: "holds_now d now ct \<Longrightarrow> still_held d ct"
  by (auto simp: holds_now_row still_held_def)

definition published :: "env \<Rightarrow> claimed \<Rightarrow> string \<Rightarrow> string \<Rightarrow> instant \<Rightarrow> string \<Rightarrow> db \<Rightarrow> db \<Rightarrow> bool" where
  "published E ct output hash now op d d' \<longleftrightarrow>
     (\<forall>k. k \<noteq> ct_id ct \<longrightarrow> row (tasks d') k = row (tasks d) k
        \<and> row (stage_outputs d') k = row (stage_outputs d) k)
     \<and> (\<exists>t. row (tasks d') (ct_id ct) = Some t \<and> t_state t = ''completed'' \<and> t_output_hash t = hash
          \<and> t_lease_until t = None)
     \<and> map_option so_output_json (row (stage_outputs d') (ct_id ct)) = Some output
     \<and> map_option so_output_hash (row (stage_outputs d') (ct_id ct)) = Some hash
     \<and> attempts d' = close_attempts E (attempt_of (ct_id ct) (ct_lease_epoch ct)) ''completed'' now
         (attempts d)
     \<and> row (receipts d') op = Some \<lparr>r_kind = ''stage'', r_task = ct_id ct,
          r_epoch = ct_lease_epoch ct, r_at = now\<rparr>"

lemma commit_stage_fresh:
  assumes "row (receipts d) op = None"
  shows "\<exists>r d'. commit_stage E ct output hash now clock op d = Inr (r, d')
    \<and> (r = Committed \<longleftrightarrow> holds_now d now ct
         \<and> \<not> (\<exists>t. row (tasks d) (ct_id ct) = Some t \<and> job_cancelled d (t_job t)))
    \<and> (r = LeaseLost \<longleftrightarrow> \<not> holds_now d now ct)
    \<and> (if r = Committed then published E ct output hash now op d d'
       else d' = bump ''job_guard'' (ct_root_id ct) d)"
proof (cases "holds_now d now ct")
  case False
  with assms show ?thesis
    by (auto simp: commit_stage_def receipt_of_def holds_now_def split: option.splits)
next
  case True
  then obtain t f where t: "row (tasks d) (ct_id ct) = Some t" and f: "fence ct now d = Some f"
      "holds f ct" "f_cancelled f = job_cancelled d (t_job t)"
    by (auto simp: holds_now_def fence_def split: option.splits)
  show ?thesis
  proof (cases "job_cancelled d (t_job t)")
    case True
    with assms t f \<open>holds_now d now ct\<close> show ?thesis
      by (auto simp: commit_stage_def receipt_of_def)
  next
    case False
    with assms t f \<open>holds_now d now ct\<close> show ?thesis
      by (auto simp: commit_stage_def receipt_of_def write_receipt_Inr write_receipt_def
        published_def complete_in_task Let_def
        split: option.splits)
  qed
qed

text \<open>C2: Publication of a stage is fenced. A commit with a new operation key publishes exactly
  when the claim is still running under the worker's name and epoch with an unexpired lease and
  the job is not cancelled; then the stage is completed, its output and receipt are stored and
  its open attempt is closed, and no other stage is touched. Otherwise the worker is told that
  the lease is lost or the job cancelled, and nothing but the job guard is written.\<close>

theorem commit_stage_fenced:
  assumes "row (receipts d) op = None"
  shows "\<exists>r d'. commit_stage E ct output hash now clock op d = Inr (r, d')
    \<and> (r = Committed \<longleftrightarrow> holds_now d now ct
         \<and> \<not> (\<exists>t. row (tasks d) (ct_id ct) = Some t \<and> job_cancelled d (t_job t)))
    \<and> (r = LeaseLost \<longleftrightarrow> \<not> holds_now d now ct)
    \<and> (if r = Committed then published E ct output hash now op d d'
       else d' = bump ''job_guard'' (ct_root_id ct) d)"
  by (rule commit_stage_fresh[OF assms])

lemma holds_now_demo: "holds_now demo_running 30 demo_claimed_task"
  by (simp add: holds_now_row demo_running_def demo_claimed_task_def start_running_def demo_task_def
    seconds_def)

lemma demo_running_receipts: "row (receipts demo_running) op = None"
  by (simp add: demo_running_def demo_db_def empty_db_def)

lemma demo_not_cancelled:
  "\<not> (\<exists>t. row (tasks demo_running) (ct_id demo_claimed_task) = Some t
     \<and> job_cancelled demo_running (t_job t))"
  by (simp add: demo_running_def demo_db_def demo_claimed_task_def start_running_def demo_task_def
    job_cancelled_def cancel_flag_def demo_job_def)

theorem commit_stage_fenced_witness:
  "\<exists>d'. commit_stage demo_E demo_claimed_task ''out'' ''h1'' 30 31 ''c1'' demo_running
       = Inr (Committed, d')
     \<and> published demo_E demo_claimed_task ''out'' ''h1'' 30 ''c1'' demo_running d'"
proof -
  from commit_stage_fenced[OF demo_running_receipts[of "''c1''"],
      of demo_E demo_claimed_task "''out''" "''h1''" 30 31] holds_now_demo demo_not_cancelled
  obtain r d' where "commit_stage demo_E demo_claimed_task ''out'' ''h1'' 30 31 ''c1'' demo_running
      = Inr (r, d')" "r = Committed"
    "if r = Committed then published demo_E demo_claimed_task ''out'' ''h1'' 30 ''c1'' demo_running d'
       else d' = bump ''job_guard'' (ct_root_id demo_claimed_task) demo_running" by metis
  then show ?thesis by auto
qed

text \<open>C6: Publication happens at most once per claim. After a successful commit, the same
  operation key is answered with the same success, and any other key with a lost lease; neither
  writes anything but the job guard.\<close>

theorem commit_stage_once:
  assumes "row (receipts d) op = None" and "row (receipts d) op' = None" and "op' \<noteq> op"
    and "commit_stage E ct output hash now clock op d = Inr (Committed, d')"
    and key: "row (receipts d') op' = None"
  shows "commit_stage E ct output2 hash2 now2 clock2 op d' =
      Inr (Committed, bump ''job_guard'' (ct_root_id ct) d')
    \<and> commit_stage E ct output2 hash2 now2 clock2 op' d' =
      Inr (LeaseLost, bump ''job_guard'' (ct_root_id ct) d')"
proof -
  from commit_stage_fresh[OF assms(1), of E ct "output" hash now clock] assms(4)
  have pub: "published E ct output hash now op d d'" by auto
  then have "receipt_of d' op = Some \<lparr>r_kind = ''stage'', r_task = ct_id ct,
      r_epoch = ct_lease_epoch ct, r_at = now\<rparr>"
    by (simp add: published_def receipt_of_def)
  moreover have "\<not> holds_now d' now2 ct"
    using pub by (auto simp: published_def holds_now_row)
  ultimately show ?thesis
    using commit_stage_fresh[OF key, of E ct output2 hash2 now2 clock2]
    by (auto simp: commit_stage_def split: if_splits)
qed

theorem commit_stage_once_witness:
  "\<exists>d'. commit_stage demo_E demo_claimed_task ''out'' ''h1'' 30 31 ''c1'' demo_running
       = Inr (Committed, d')
     \<and> commit_stage demo_E demo_claimed_task ''x'' ''y'' 40 41 ''c2'' d'
       = Inr (LeaseLost, bump ''job_guard'' ''j'' d')"
proof -
  from commit_stage_fresh[OF demo_running_receipts[of "''c1''"],
      of demo_E demo_claimed_task "''out''" "''h1''" 30 31] holds_now_demo demo_not_cancelled
  obtain d' where c: "commit_stage demo_E demo_claimed_task ''out'' ''h1'' 30 31 ''c1'' demo_running
      = Inr (Committed, d')" by metis
  have "row (receipts d') ''c2'' = None"
    using c demo_running_receipts[of "''c2''"] demo_running_receipts[of "''c1''"] holds_now_demo
    by (auto simp: commit_stage_def write_receipt_def receipt_of_def Let_def
      split: option.splits if_splits)
  from commit_stage_once[OF demo_running_receipts demo_running_receipts _ c this] c show ?thesis
    by (auto simp: demo_claimed_task_def)
qed

section \<open>Settling\<close>

text \<open>A job is closed only when it has stages and none of them is open. It is closed as failed
  when some stage failed and as completed otherwise, and only from a running, active or queued
  state; stages are never touched, and other jobs keep their state.\<close>

lemma settle_finished_contract:
  "\<exists>d'. settle_finished_job E clock j d =
      Inr (tasks_of_job d j \<noteq> [] \<and> \<not> list_ex (\<lambda>(i, t). open_state (t_state t)) (tasks_of_job d j), d')
    \<and> tasks d' = tasks d
    \<and> (\<forall>k. map_option j_state (row (jobs d') k) = map_option (\<lambda>r.
        if k = j \<and> tasks_of_job d j \<noteq> []
           \<and> \<not> list_ex (\<lambda>(i, t). open_state (t_state t)) (tasks_of_job d j)
           \<and> j_state r \<in> {''running'', ''active'', ''queued''}
        then (if list_ex (\<lambda>(i, t). t_state t = ''failed'') (tasks_of_job d j)
              then ''failed'' else ''completed'')
        else j_state r) (row (jobs d) k))"
proof -
  from rollup_in_job obtain f where f: "row (jobs (rollup_in E j d)) =
      (\<lambda>k. map_option (\<lambda>r. if k = j then f r else r) (row (jobs d) k))"
    "\<forall>r. j_state (f r) = j_state r" by blast
  let ?ts = "tasks_of_job d j"
  show ?thesis
  proof (cases "?ts = [] \<or> list_ex (\<lambda>(i, t). open_state (t_state t)) ?ts")
    case True
    then have "settle_finished_job_in E clock j (False, d) = (False, d)"
      by (auto simp: settle_finished_job_in_def Let_def)
    with True show ?thesis
      by (auto simp: settle_finished_job_def option.map_ident)
  next
    case False
    then show ?thesis
      by (simp add: settle_finished_job_def settle_finished_job_in_def Let_def f(1) option.map_comp)
        (intro conjI impI allI option.map_cong refl; simp add: f(2))
  qed
qed

end
