(* ===== verification/Job_Admin.thy ===== *)
theory Job_Admin
  imports Job_Commit
begin

text \<open>
  Everything else that writes the job tables: recovery of expired leases and of the
  tasks of processes that are gone (\<open>storage/jobs.rs\<close> lines 807 to 922,
  \<open>storage/processes.rs\<close>), report finalization, brief chains, stopping a job tree,
  retention and history (\<open>storage/jobs.rs\<close> from line 1247).
\<close>

section \<open>Recovery of running tasks\<close>

definition lease_expired :: "instant \<Rightarrow> task \<Rightarrow> bool" where
  "lease_expired now t = (case t_lease_until t of Some u \<Rightarrow> u \<le> now | None \<Rightarrow> True)"

definition requeue_task :: "bool \<Rightarrow> instant \<Rightarrow> task \<Rightarrow> task" where
  "requeue_task failed now t = t\<lparr>t_state := (if failed then ''failed'' else ''queued''),
     t_lease_epoch := t_lease_epoch t + 1, t_lease_owner := [], t_process_owner := [],
     t_lease_until := None, t_recoveries := t_recoveries t + 1, t_next_eligible_at := now,
     t_finished_at := (if failed then Some now else None), t_updated_at := now\<rparr>"

definition requeue_running_in ::
  "env \<Rightarrow> string \<Rightarrow> string \<Rightarrow> int \<Rightarrow> int \<Rightarrow> string \<Rightarrow> instant \<Rightarrow> bool \<Rightarrow> db \<Rightarrow> db" where
  "requeue_running_in E tid root epoch recoveries outcome now only_expired d =
     (let failed = (recoveries + 1 \<ge> MAX_WORKER_RECOVERIES)
      in bump ''job_guard'' root (d\<lparr>
           tasks := update_where (\<lambda>i t. i = tid \<and> t_state t = ''running'' \<and> t_lease_epoch t = epoch
               \<and> (\<not> only_expired \<or> lease_expired now t)) (requeue_task failed now) (tasks d),
           attempts := close_attempts E (attempt_of tid epoch) outcome now (attempts d)\<rparr>))"

fun requeue_all :: "env \<Rightarrow> string \<Rightarrow> instant \<Rightarrow> bool \<Rightarrow> (string \<times> task) list \<Rightarrow> db \<Rightarrow> db" where
  "requeue_all E outcome now only_expired [] d = d"
| "requeue_all E outcome now only_expired ((i, t) # rest) d =
     requeue_all E outcome now only_expired rest
       (requeue_running_in E i (t_root t) (t_lease_epoch t) (t_recoveries t) outcome now
          only_expired d)"

definition expired_tasks :: "instant \<Rightarrow> db \<Rightarrow> (string \<times> task) list" where
  "expired_tasks now d = take SWEEP_BATCH
     (filter (\<lambda>(i, t). t_state t = ''running'' \<and> lease_expired now t) (tasks d))"

definition interrupt_expired_leases :: "env \<Rightarrow> instant \<Rightarrow> (db, nat) body" where
  "interrupt_expired_leases E now d0 =
     (let d = bump ''lease_sweep_guard'' ''singleton'' d0; expired = expired_tasks now d
      in Inr (length expired, requeue_all E ''lease_expired'' now True expired d))"

section \<open>The process registry\<close>

definition PROCESS_STALE_SECS :: int where "PROCESS_STALE_SECS = 90"
definition RECOVER_BATCH :: nat where "RECOVER_BATCH = 64"

definition beat :: "string \<Rightarrow> int \<Rightarrow> instant \<Rightarrow> (db, unit) body" where
  "beat owner pid now d = Inr ((), d\<lparr>processes := put owner
     (case row (processes d) owner of
        None \<Rightarrow> \<lparr>p_pid = pid, p_started_at = now, p_heartbeat_at = now\<rparr>
      | Some p \<Rightarrow> \<lparr>p_pid = pid, p_started_at = p_started_at p,
          p_heartbeat_at = (if p_heartbeat_at p > now then p_heartbeat_at p else now)\<rparr>)
     (processes d)\<rparr>)"

record recovery =
  rec_tasks :: nat
  rec_processes :: nat
  skipped_self_stale :: bool

definition fresh_processes :: "instant \<Rightarrow> db \<Rightarrow> string list" where
  "fresh_processes stale d = ids_where (\<lambda>i p. stale \<le> p_heartbeat_at p) (processes d)"

definition orphans :: "string list \<Rightarrow> db \<Rightarrow> (string \<times> task) list" where
  "orphans fresh d = take RECOVER_BATCH (filter (\<lambda>(i, t). t_state t = ''running''
     \<and> t_process_owner t \<noteq> [] \<and> t_process_owner t \<notin> set fresh) (tasks d))"

definition recover_orphans :: "env \<Rightarrow> string \<Rightarrow> instant \<Rightarrow> (db, recovery) body" where
  "recover_orphans E me now d0 =
     (let stale = now - seconds PROCESS_STALE_SECS; fresh = fresh_processes stale d0 in
      if me \<notin> set fresh
      then Inr (\<lparr>rec_tasks = 0, rec_processes = 0, skipped_self_stale = True\<rparr>, d0)
      else
        let d = bump ''lease_sweep_guard'' ''singleton'' d0;
            os = orphans fresh d;
            d1 = requeue_all E ''owner_gone'' now False os d;
            gone = ids_where (\<lambda>i p. p_heartbeat_at p < stale \<and> i \<noteq> me) (processes d1)
        in Inr (\<lparr>rec_tasks = length os, rec_processes = length gone, skipped_self_stale = False\<rparr>,
             d1\<lparr>processes := delete_where (\<lambda>i _. i \<in> set gone) (processes d1)\<rparr>))"

section \<open>Report finalization\<close>

datatype finalize = Finalized | AlreadyFinal | Finalize_LeaseLost | Retired

definition finalize_job ::
  "env \<Rightarrow> string \<Rightarrow> claimed option \<Rightarrow> string \<Rightarrow> instant \<Rightarrow> (db, finalize) body" where
  "finalize_job E j lease_of state now d0 =
     (case row (jobs d0) j of
        None \<Rightarrow> Inl (Abort (''job '' @ j @ '' missing''))
      | Some r \<Rightarrow>
          (let d = bump ''job_guard'' (j_root r) d0 in
           if j_state r \<in> set TERMINAL then Inr (AlreadyFinal, d)
           else if (case lease_of of None \<Rightarrow> False
                    | Some ct \<Rightarrow> (case fence ct now d of Some f \<Rightarrow> \<not> holds f ct | None \<Rightarrow> True))
           then Inr (Finalize_LeaseLost, d)
           else if retired d0 (j_root r) then Inr (Retired, d)
           else Inr (Finalized, rollup_in E j (d\<lparr>jobs := update_where
                  (\<lambda>i x. i = j \<and> j_state x \<notin> set TERMINAL)
                  (\<lambda>x. x\<lparr>j_state := state, j_finished_at := Some now, j_updated_at := now\<rparr>)
                  (jobs d)\<rparr>))))"

section \<open>Brief chains\<close>

record stage_spec =
  st_operation :: string
  st_deps :: "nat list"

record chain =
  ch_job_id :: string
  ch_generation :: int
  ch_created :: bool

text \<open>The latest run of an article: \<open>ORDER BY generation DESC LIMIT 1\<close>.\<close>

definition latest_run :: "db \<Rightarrow> string \<Rightarrow> brief_run option" where
  "latest_run d article = (case sort_key (\<lambda>(i, b). - b_generation b)
     (filter (\<lambda>(i, b). b_article b = article) (brief_runs d)) of [] \<Rightarrow> None | (i, b) # _ \<Rightarrow> Some b)"

definition cancel_task :: "instant \<Rightarrow> task \<Rightarrow> task" where
  "cancel_task now t = t\<lparr>t_state := ''cancelled'', t_lease_epoch := t_lease_epoch t + 1,
     t_lease_owner := [], t_process_owner := [], t_lease_until := None, t_finished_at := Some now,
     t_updated_at := now\<rparr>"

lemma cancel_task_sel [simp]:
  "t_state (cancel_task now t) = ''cancelled''" "t_job (cancel_task now t) = t_job t"
  "t_root (cancel_task now t) = t_root t" "t_lease_epoch (cancel_task now t) = t_lease_epoch t + 1"
  "t_recoveries (cancel_task now t) = t_recoveries t" "t_deps (cancel_task now t) = t_deps t"
  "t_pool (cancel_task now t) = t_pool t" "t_attempts (cancel_task now t) = t_attempts t"
  "t_lease_until (cancel_task now t) = None"
  by (simp_all add: cancel_task_def)

definition supersede_run :: "instant \<Rightarrow> string \<Rightarrow> db \<Rightarrow> db" where
  "supersede_run now j d = d\<lparr>
     jobs := update_one j (\<lambda>r. r\<lparr>j_cancel_requested := True, j_state := ''superseded'',
       j_finished_at := Some now, j_updated_at := now\<rparr>) (jobs d),
     tasks := update_where (\<lambda>i t. t_job t = j \<and> t_state t \<in> {''queued'', ''running''})
       (cancel_task now) (tasks d),
     brief_runs := update_where (\<lambda>i b. b_job b = j)
       (\<lambda>b. b\<lparr>b_state := ''superseded'', b_updated_at := now\<rparr>) (brief_runs d)\<rparr>"

text \<open>
  \<open>ids[*d]\<close> panics out of range; the panic drops the open transaction, so nothing is
  committed, which is the abort here.
\<close>

definition stage_tasks ::
  "string \<Rightarrow> string \<Rightarrow> instant \<Rightarrow> stage_spec list \<Rightarrow> tx_error + new_task list" where
  "stage_tasks job_id revision now stages =
     (let stage_ids = map (\<lambda>s. encode [job_id, st_operation s]) stages in
      if list_all (\<lambda>s. list_all (\<lambda>i. i < length stages) (st_deps s)) stages
      then Inr (map (\<lambda>(i, s). \<lparr>nt_id = stage_ids ! i, nt_job = job_id, nt_pool = POOL_INTEL_BRIEF,
             nt_operation = st_operation s, nt_priority = int i,
             nt_deps = map (\<lambda>k. stage_ids ! k) (st_deps s), nt_input_hash = revision,
             nt_created_at = now\<rparr>) (enumerate 0 stages))
      else Inl (Abort ''index out of bounds''))"

definition create_run ::
  "string \<Rightarrow> int \<Rightarrow> string \<Rightarrow> string \<Rightarrow> instant \<Rightarrow> db \<Rightarrow> tx_error + db" where
  "create_run article gen job_id revision now d =
     (let key = encode [article, nat_str (nat gen)] in
      if row (brief_runs d) key \<noteq> None
         \<or> list_ex (\<lambda>(i, b). b_article b = article \<and> b_generation b = gen) (brief_runs d)
      then Inl already_exists
      else Inr (d\<lparr>brief_runs := put key \<lparr>b_article = article, b_generation = gen, b_job = job_id,
             b_input_revision = revision, b_state = ''active'', b_updated_at = now\<rparr> (brief_runs d),
             chain_generations := (chain_generations d)(article \<mapsto> gen)\<rparr>))"

text \<open>The part of \<open>ensure_chain\<close> after the latest run was looked at: the next generation.\<close>

definition create_next ::
  "env \<Rightarrow> string \<Rightarrow> string \<Rightarrow> stage_spec list \<Rightarrow> instant \<Rightarrow> int \<Rightarrow> (db, chain) body" where
  "create_next E article revision stages now counter d =
     (let gen = counter + 1; job_id = encode [''brief'', article, nat_str (nat gen)] in
      case create_job_in E \<lparr>nj_id = job_id, nj_kind = ''task'', nj_operation = POOL_INTEL_BRIEF,
          nj_parent = None, nj_created_at = now\<rparr> d of
        Inl e \<Rightarrow> Inl e
      | Inr d1 \<Rightarrow> (case stage_tasks job_id revision now stages of
          Inl e \<Rightarrow> Inl e
        | Inr ts \<Rightarrow> (case create_tasks_in ts d1 of
            Inl e \<Rightarrow> Inl e
          | Inr d2 \<Rightarrow> (case create_run article gen job_id revision now d2 of
              Inl e \<Rightarrow> Inl e
            | Inr d3 \<Rightarrow> Inr (\<lparr>ch_job_id = job_id, ch_generation = gen, ch_created = True\<rparr>, d3)))))"

definition ensure_chain ::
  "env \<Rightarrow> string \<Rightarrow> string \<Rightarrow> stage_spec list \<Rightarrow> instant \<Rightarrow> (db, chain) body" where
  "ensure_chain E article revision stages now d0 =
     (let counter = (case chain_generations d0 article of None \<Rightarrow> 0 | Some g \<Rightarrow> g);
          d = (bump ''brief_chain_guard'' article d0)\<lparr>chain_generations :=
                (chain_generations d0)(article \<mapsto> counter)\<rparr>
      in case latest_run d article of
           None \<Rightarrow> create_next E article revision stages now counter d
         | Some b \<Rightarrow>
             if b_input_revision b = revision \<and> b_state b \<noteq> ''superseded''
             then Inr (\<lparr>ch_job_id = b_job b, ch_generation = b_generation b,
                    ch_created = False\<rparr>, d)
             else create_next E article revision stages now counter
               (if b_state b = ''active''
                then supersede_run now (b_job b) (bump ''job_guard'' (b_job b) d) else d))"

section \<open>Stopping a job tree\<close>

record stop_progress =
  jobs_stopped :: nat
  batches :: nat
  stop_done :: bool

definition cancel_one_in :: "env \<Rightarrow> string \<Rightarrow> instant \<Rightarrow> db \<Rightarrow> db" where
  "cancel_one_in E j now d =
     (let ids = map fst (tasks_of_job d j);
          d1 = d\<lparr>
            attempts := close_attempts E (\<lambda>a. a_task a \<in> set ids) ''cancelled'' now (attempts d),
            tasks := update_where (\<lambda>i t. t_job t = j \<and> t_state t \<in> {''queued'', ''running''})
              (cancel_task now) (tasks d),
            jobs := update_one j (\<lambda>r. r\<lparr>j_cancel_requested := True, j_stopped := True,
                j_phase := ''Stopped by user'', j_updated_at := now\<rparr>)
              (update_where (\<lambda>i r. i = j \<and> j_state r \<notin> set TERMINAL)
                (\<lambda>r. r\<lparr>j_state := ''cancelled'', j_finished_at := Some now\<rparr>) (jobs d)),
            brief_runs := update_where (\<lambda>i b. b_job b = j \<and> b_state b = ''active'')
              (\<lambda>b. b\<lparr>b_state := ''cancelled'', b_updated_at := now\<rparr>) (brief_runs d)\<rparr>
      in rollup_in E j d1)"

fun cancel_each :: "env \<Rightarrow> string list \<Rightarrow> instant \<Rightarrow> db \<Rightarrow> db" where
  "cancel_each E [] now d = d"
| "cancel_each E (j # js) now d = cancel_each E js now (cancel_one_in E j now d)"

definition stop_begin :: "string \<Rightarrow> instant \<Rightarrow> (db, string) body" where
  "stop_begin j now d =
     (case row (jobs d) j of
        None \<Rightarrow> Inl (Abort (''job '' @ j @ '' missing''))
      | Some r \<Rightarrow> Inr (j_root r, (bump ''job_guard'' (j_root r) d)\<lparr>jobs := update_where
          (\<lambda>i x. i = j \<and> j_kind x \<noteq> ''service'')
          (\<lambda>x. x\<lparr>j_cancel_requested := True, j_phase := ''Stopped by user'', j_updated_at := now\<rparr>)
          (jobs d)\<rparr>))"

definition unstopped :: "db \<Rightarrow> string \<Rightarrow> bool" where
  "unstopped d j = (case row (jobs d) j of
     Some r \<Rightarrow> \<not> j_stopped r \<and> j_kind r \<noteq> ''service'' | None \<Rightarrow> False)"

definition stop_descendants :: "db \<Rightarrow> string \<Rightarrow> nat \<Rightarrow> string list" where
  "stop_descendants d j n = take n (map (\<lambda>((a, c), _). c)
     (filter (\<lambda>((a, c), _). a = j \<and> unstopped d c) (links d)))"

definition stop_batch :: "env \<Rightarrow> string \<Rightarrow> string \<Rightarrow> instant \<Rightarrow> nat \<Rightarrow> (db, nat \<times> bool) body" where
  "stop_batch E j root now batch d0 =
     (let d = bump ''job_guard'' root d0;
          found = stop_descendants d j batch;
          last_batch = (found = []);
          ids = (if last_batch then [j] else found)
      in Inr ((length ids, last_batch), cancel_each E ids now d))"

text \<open>The loop of \<open>stop_job\<close>; \<open>None\<close> when the fuel runs out.\<close>

fun stop_loop ::
  "nat \<Rightarrow> env \<Rightarrow> string \<Rightarrow> string \<Rightarrow> instant \<Rightarrow> nat \<Rightarrow> nat option \<Rightarrow> stop_progress \<Rightarrow> db
     \<Rightarrow> (stop_progress \<times> db) option" where
  "stop_loop 0 E j root now batch max_batches p d = None"
| "stop_loop (Suc fuel) E j root now batch max_batches p d =
     (if (case max_batches of Some m \<Rightarrow> batches p \<ge> m | None \<Rightarrow> False) then Some (p, d)
      else case stop_batch E j root now batch d of
             Inl _ \<Rightarrow> None
           | Inr ((n, last_batch), d') \<Rightarrow>
               (let p' = \<lparr>jobs_stopped = jobs_stopped p + n, batches = batches p + 1,
                      stop_done = last_batch\<rparr>
                in if last_batch then Some (p', d')
                   else stop_loop fuel E j root now batch max_batches p' d'))"

definition stop_job ::
  "nat \<Rightarrow> env \<Rightarrow> string \<Rightarrow> instant \<Rightarrow> nat \<Rightarrow> nat option \<Rightarrow> db
     \<Rightarrow> tx_error + (stop_progress \<times> db) option" where
  "stop_job fuel E j now batch max_batches d =
     (case stop_begin j now d of
        Inl e \<Rightarrow> Inl e
      | Inr (root, d1) \<Rightarrow> Inr (stop_loop fuel E j root now batch max_batches
          \<lparr>jobs_stopped = 0, batches = 0, stop_done = False\<rparr> d1))"

section \<open>Retention and history\<close>

definition busy_job_states :: "string list" where
  "busy_job_states = [''running'', ''queued'', ''retry_scheduled'', ''waiting'', ''blocked'']"

definition tree_busy :: "string \<Rightarrow> bool \<Rightarrow> db \<Rightarrow> bool" where
  "tree_busy root protect_active_jobs d \<longleftrightarrow>
     length (filter (\<lambda>(i, t). t_root t = root \<and> t_state t = ''running'') (tasks d))
     + length (filter (\<lambda>(i, r). j_root r = root \<and> (j_kind r = ''service'' \<or> protect_active_jobs)
         \<and> j_state r \<in> set busy_job_states) (jobs d)) > 0"

definition purge_tree_in :: "string \<Rightarrow> string \<Rightarrow> instant \<Rightarrow> db \<Rightarrow> db" where
  "purge_tree_in root reason now d0 =
     (let d = bump ''job_guard'' root d0;
          jids = ids_where (\<lambda>i r. j_root r = root) (jobs d)
      in d\<lparr>
        events := delete_where (\<lambda>i e. e_job_id e \<in> set jids) (events d),
        retry_events := filter (\<lambda>e. e_job_id e \<notin> set jids) (retry_events d),
        attempts := filter (\<lambda>a. a_root a \<noteq> root) (attempts d),
        stage_outputs := delete_where (\<lambda>i s. so_root s = root) (stage_outputs d),
        neighborhoods := delete_where (\<lambda>i n. (case row (tasks d) (nb_task n) of
            Some t \<Rightarrow> t_root t = root | None \<Rightarrow> False)) (neighborhoods d),
        tasks := delete_where (\<lambda>i t. t_root t = root) (tasks d),
        brief_runs := delete_where (\<lambda>i b. (case row (jobs d) (b_job b) of
            Some r \<Rightarrow> j_root r = root | None \<Rightarrow> False)) (brief_runs d),
        jobs := delete_where (\<lambda>i r. j_root r = root) (jobs d),
        links := filter (\<lambda>((a, c), r). a \<notin> set jids \<and> c \<notin> set jids \<and> r \<noteq> root) (links d),
        retirements := put root \<lparr>ret_at = now, ret_reason = reason\<rparr> (retirements d)\<rparr>)"

text \<open>One pass over a page of roots: (deleted, skipped).\<close>

fun purge_roots :: "bool \<Rightarrow> string \<Rightarrow> instant \<Rightarrow> string list \<Rightarrow> nat \<times> nat \<Rightarrow> db \<Rightarrow> (nat \<times> nat) \<times> db"
  where
  "purge_roots protect reason now [] c d = (c, d)"
| "purge_roots protect reason now (r # rs) (deleted, skipped) d =
     (if tree_busy r protect d
      then purge_roots protect reason now rs (deleted, skipped + 1) d
      else purge_roots protect reason now rs (deleted + 1, skipped) (purge_tree_in r reason now d))"

definition expired_roots :: "instant \<Rightarrow> db \<Rightarrow> string list" where
  "expired_roots cutoff d = take SWEEP_BATCH (map fst (sort_key (\<lambda>(i, r). j_created_at r)
     (filter (\<lambda>(i, r). j_parent r = None \<and> j_kind r \<noteq> ''service'' \<and> j_created_at r < cutoff)
       (jobs d))))"

definition cleanup_batch :: "instant \<Rightarrow> (db, nat) body" where
  "cleanup_batch now d0 =
     (let cutoff = now - hours EXECUTION_WINDOW_HOURS;
          d = bump ''cleanup_guard'' ''singleton'' d0;
          ((deleted, skipped), d') =
            purge_roots False ''retention'' now (expired_roots cutoff d) (0, 0) d
      in Inr (deleted, d'))"

text \<open>\<open>jobs_view::sweep_expired\<close>: batches until one deletes nothing.\<close>

fun sweep_expired_from :: "nat \<Rightarrow> instant \<Rightarrow> nat \<Rightarrow> db \<Rightarrow> tx_error + (nat \<times> db)" where
  "sweep_expired_from 0 now acc d = Inr (acc, d)"
| "sweep_expired_from (Suc left) now acc d =
     (case cleanup_batch now d of
        Inl e \<Rightarrow> Inl e
      | Inr (n, d') \<Rightarrow>
          if n = 0 then Inr (acc + n, d') else sweep_expired_from left now (acc + n) d')"

definition sweep_expired :: "instant \<Rightarrow> nat \<Rightarrow> db \<Rightarrow> tx_error + (nat \<times> db)" where
  "sweep_expired now max_batches d = sweep_expired_from (max max_batches 1) now 0 d"

text \<open>
  One batch of \<open>clear_jobs_by_status\<close>: (deleted, skipped, seen). Ties of
  \<open>ORDER BY created_at, id\<close> are broken by the table order.
\<close>

definition history_roots :: "string list \<Rightarrow> nat \<Rightarrow> db \<Rightarrow> string list" where
  "history_roots states skip d = take SWEEP_BATCH (drop skip (map fst
     (sort_key (\<lambda>(i, r). j_created_at r)
       (filter (\<lambda>(i, r). j_parent r = None \<and> j_state r \<in> set states) (jobs d)))))"

definition clear_batch :: "string list \<Rightarrow> instant \<Rightarrow> nat \<Rightarrow> (db, nat \<times> nat \<times> nat) body" where
  "clear_batch states now skip d0 =
     (let d = bump ''cleanup_guard'' ''singleton'' d0;
          roots = history_roots states skip d;
          ((deleted, skipped), d') = purge_roots True ''cleared'' now roots (0, 0) d
      in Inr ((deleted, skipped, length roots), d'))"

fun clear_loop :: "nat \<Rightarrow> string list \<Rightarrow> instant \<Rightarrow> nat \<Rightarrow> nat \<Rightarrow> db \<Rightarrow> (nat \<times> db) option" where
  "clear_loop 0 states now skip acc d = None"
| "clear_loop (Suc fuel) states now skip acc d =
     (case clear_batch states now skip d of
        Inl _ \<Rightarrow> None
      | Inr ((deleted, skipped, seen), d') \<Rightarrow>
          if seen = 0 then Some (acc + deleted, d')
          else clear_loop fuel states now (skip + skipped) (acc + deleted) d')"

definition clear_jobs_by_status ::
  "nat \<Rightarrow> string list \<Rightarrow> instant \<Rightarrow> db \<Rightarrow> tx_error + (nat \<times> db) option" where
  "clear_jobs_by_status fuel states now d =
     (case filter (\<lambda>s. s \<notin> set TERMINAL) states of
        s # _ \<Rightarrow> Inl (Abort (s @ '' is not a terminal job state''))
      | [] \<Rightarrow> Inr (clear_loop fuel states now 0 0 d))"

section \<open>Recovery, row by row\<close>

lemma requeue_running_task:
  "row (tasks (requeue_running_in E i root epoch recoveries outcome now oe d)) k =
    map_option (\<lambda>t. if k = i \<and> t_state t = ''running'' \<and> t_lease_epoch t = epoch
        \<and> (\<not> oe \<or> lease_expired now t)
      then requeue_task (recoveries + 1 \<ge> MAX_WORKER_RECOVERIES) now t else t) (row (tasks d) k)"
  by (simp add: requeue_running_in_def Let_def)

lemma requeue_running_frame [simp, frame]:
  "jobs (requeue_running_in E i root e r out now oe d) = jobs d"
  "links (requeue_running_in E i root e r out now oe d) = links d"
  "receipts (requeue_running_in E i root e r out now oe d) = receipts d"
  "stage_outputs (requeue_running_in E i root e r out now oe d) = stage_outputs d"
  "neighborhoods (requeue_running_in E i root e r out now oe d) = neighborhoods d"
  "brief_runs (requeue_running_in E i root e r out now oe d) = brief_runs d"
  "retirements (requeue_running_in E i root e r out now oe d) = retirements d"
  "chain_generations (requeue_running_in E i root e r out now oe d) = chain_generations d"
  "lease (requeue_running_in E i root e r out now oe d) = lease d"
  "processes (requeue_running_in E i root e r out now oe d) = processes d"
  "map fst (tasks (requeue_running_in E i root e r out now oe d)) = map fst (tasks d)"
  "attempts (requeue_running_in E i root e r out now oe d) =
     close_attempts E (attempt_of i e) out now (attempts d)"
  by (simp_all add: requeue_running_in_def Let_def)

lemma requeue_all_frame [simp, frame]:
  "jobs (requeue_all E out now oe xs d) = jobs d"
  "links (requeue_all E out now oe xs d) = links d"
  "receipts (requeue_all E out now oe xs d) = receipts d"
  "stage_outputs (requeue_all E out now oe xs d) = stage_outputs d"
  "neighborhoods (requeue_all E out now oe xs d) = neighborhoods d"
  "brief_runs (requeue_all E out now oe xs d) = brief_runs d"
  "retirements (requeue_all E out now oe xs d) = retirements d"
  "chain_generations (requeue_all E out now oe xs d) = chain_generations d"
  "lease (requeue_all E out now oe xs d) = lease d"
  "processes (requeue_all E out now oe xs d) = processes d"
  "map fst (tasks (requeue_all E out now oe xs d)) = map fst (tasks d)"
  by (induction E out now oe xs d rule: requeue_all.induct) auto

text \<open>What recovery does to a running task it found.\<close>

definition recovered :: "instant \<Rightarrow> task \<Rightarrow> task" where
  "recovered now t = requeue_task (t_recoveries t + 1 \<ge> MAX_WORKER_RECOVERIES) now t"

lemma requeue_all_row:
  assumes "distinct (map fst xs)"
    and "\<And>i t. (i, t) \<in> set xs \<Longrightarrow> row (tasks d) i = Some t \<and> t_state t = ''running''
           \<and> (oe \<longrightarrow> lease_expired now t)"
  shows "row (tasks (requeue_all E out now oe xs d)) k = (case row (tasks d) k of None \<Rightarrow> None
     | Some t \<Rightarrow> Some (if k \<in> fst ` set xs then recovered now t else t))"
  using assms
proof (induction xs arbitrary: d)
  case (Cons x xs)
  obtain i t where x: "x = (i, t)" by (cases x)
  let ?d1 = "requeue_running_in E i (t_root t) (t_lease_epoch t) (t_recoveries t) out now oe d"
  have t: "row (tasks d) i = Some t" "t_state t = ''running''" "oe \<longrightarrow> lease_expired now t"
    using Cons.prems(2)[of i t] x by auto
  have new: "row (tasks ?d1) k = (case row (tasks d) k of None \<Rightarrow> None
     | Some u \<Rightarrow> Some (if k = i then recovered now t else u))" for k
    using t by (auto simp: requeue_running_task recovered_def split: option.splits)
  have notin: "i \<notin> fst ` set xs" using Cons.prems(1) x by auto
  have "row (tasks ?d1) j = Some u \<and> t_state u = ''running'' \<and> (oe \<longrightarrow> lease_expired now u)"
    if "(j, u) \<in> set xs" for j u
    using Cons.prems(2)[of j u] that notin x by (force simp: new)
  from Cons.IH[OF _ this] Cons.prems(1) x
  have "row (tasks (requeue_all E out now oe xs ?d1)) k = (case row (tasks ?d1) k of None \<Rightarrow> None
     | Some u \<Rightarrow> Some (if k \<in> fst ` set xs then recovered now u else u))" by auto
  with t notin show ?case
    unfolding x by (auto simp: new split: option.splits)
qed (auto split: option.splits)

lemma take_filter_running:
  assumes "keyed (tasks d)" "(i, t) \<in> set (take n (filter P (tasks d)))"
  shows "row (tasks d) i = Some t \<and> P (i, t)"
  using assms by (auto dest!: in_set_takeD simp: keyed_memD)

lemma distinct_take_filter: "keyed t \<Longrightarrow> distinct (map fst (take n (filter P t)))"
  by (metis distinct_map_filter distinct_take keyed_def take_map)

text \<open>The lease sweep recovers the first 64 expired running stages and no other: each of them
  goes back to the queue with the next epoch, or fails when this was its third recovery; its
  owner and lease are cleared. Every other stage, and every job, is left as it was.\<close>

lemma lease_sweep_exact:
  assumes "keyed (tasks d)"
  shows "\<exists>d'. interrupt_expired_leases E now d = Inr (length (expired_tasks now d), d')
    \<and> jobs d' = jobs d
    \<and> row (tasks d') k = (case row (tasks d) k of None \<Rightarrow> None
       | Some t \<Rightarrow> Some (if k \<in> fst ` set (expired_tasks now d)
           then t\<lparr>t_state := (if t_recoveries t + 1 \<ge> 3 then ''failed'' else ''queued''),
             t_lease_epoch := t_lease_epoch t + 1, t_lease_owner := [], t_process_owner := [],
             t_lease_until := None, t_recoveries := t_recoveries t + 1, t_next_eligible_at := now,
             t_finished_at := (if t_recoveries t + 1 \<ge> 3 then Some now else None),
             t_updated_at := now\<rparr> else t))
    \<and> (\<forall>i\<in>fst ` set (expired_tasks now d). \<exists>t. row (tasks d) i = Some t
         \<and> t_state t = ''running'' \<and> lease_expired now t)
    \<and> (length (expired_tasks now d) < 64 \<longrightarrow> (\<forall>i t. row (tasks d) i = Some t
         \<and> t_state t = ''running'' \<and> lease_expired now t \<longrightarrow> i \<in> fst ` set (expired_tasks now d)))"
proof -
  let ?d = "bump ''lease_sweep_guard'' ''singleton'' d"
  have ex: "expired_tasks now ?d = expired_tasks now d" by (simp add: expired_tasks_def)
  have run: "row (tasks d) i = Some t \<and> t_state t = ''running'' \<and> lease_expired now t"
    if "(i, t) \<in> set (expired_tasks now d)" for i t
    using take_filter_running[OF assms that[unfolded expired_tasks_def]] by simp
  have rows: "row (tasks (requeue_all E out now True (expired_tasks now d) ?d)) k =
     (case row (tasks d) k of None \<Rightarrow> None
     | Some t \<Rightarrow> Some (if k \<in> fst ` set (expired_tasks now d) then recovered now t else t))" for out
  proof -
    have "distinct (map fst (expired_tasks now d))"
      unfolding expired_tasks_def by (rule distinct_take_filter[OF assms])
    moreover have "row (tasks ?d) i = Some t \<and> t_state t = ''running'' \<and> (True \<longrightarrow> lease_expired now t)"
      if "(i, t) \<in> set (expired_tasks now d)" for i t
      using run[OF that] by simp
    ultimately show ?thesis
      using requeue_all_row[of "expired_tasks now d" ?d True now E out k] unfolding bump_frame by blast
  qed
  have all: "i \<in> fst ` set (expired_tasks now d)"
    if "length (expired_tasks now d) < 64" "row (tasks d) i = Some t" "t_state t = ''running''"
      "lease_expired now t" for i t
  proof -
    have "expired_tasks now d = filter (\<lambda>(i, t). t_state t = ''running'' \<and> lease_expired now t) (tasks d)"
      using that(1) by (simp add: expired_tasks_def SWEEP_BATCH_def)
    with that map_of_SomeD[OF that(2)] show ?thesis by force
  qed
  show ?thesis
  proof (intro exI conjI)
    show "interrupt_expired_leases E now d = Inr (length (expired_tasks now d),
        requeue_all E ''lease_expired'' now True (expired_tasks now d) ?d)"
      by (simp add: interrupt_expired_leases_def Let_def ex)
    show "\<forall>i\<in>fst ` set (expired_tasks now d). \<exists>t. row (tasks d) i = Some t
         \<and> t_state t = ''running'' \<and> lease_expired now t"
      using run by fastforce
    show "length (expired_tasks now d) < 64 \<longrightarrow> (\<forall>i t. row (tasks d) i = Some t
         \<and> t_state t = ''running'' \<and> lease_expired now t \<longrightarrow> i \<in> fst ` set (expired_tasks now d))"
      using all by blast
  qed (simp_all add: rows[unfolded recovered_def requeue_task_def MAX_WORKER_RECOVERIES_def])
qed

definition demo_expired :: db where
  "demo_expired = demo_running\<lparr>tasks := [(''a'', start_running demo_E ''w'' 60 5 (demo_task []))]\<rparr>"

lemma demo_expired_tasks:
  "expired_tasks (seconds 100) demo_expired = [(''a'', start_running demo_E ''w'' 60 5 (demo_task []))]"
  by (simp add: expired_tasks_def demo_expired_def start_running_def demo_task_def seconds_def
    lease_expired_def SWEEP_BATCH_def)

theorem lease_sweep_exact_witness:
  "\<exists>d'. interrupt_expired_leases demo_E (seconds 100) demo_expired = Inr (1, d')
    \<and> map_option t_state (row (tasks d') ''a'') = Some ''queued''
    \<and> map_option t_lease_epoch (row (tasks d') ''a'') = Some 2"
proof -
  have keyed: "keyed (tasks demo_expired)" by (simp add: demo_expired_def keyed_def)
  from lease_sweep_exact[OF keyed, of demo_E "seconds 100" "''a''"]
  obtain d' where d': "interrupt_expired_leases demo_E (seconds 100) demo_expired = Inr (1, d')"
    "row (tasks d') ''a'' = Some ((start_running demo_E ''w'' 60 5 (demo_task []))\<lparr>t_state := ''queued'',
       t_lease_epoch := 2, t_lease_owner := [], t_process_owner := [], t_lease_until := None,
       t_recoveries := 1, t_next_eligible_at := seconds 100, t_finished_at := None,
       t_updated_at := seconds 100\<rparr>)"
    unfolding demo_expired_tasks
    by (simp add: demo_expired_def start_running_def demo_task_def) blast
  then show ?thesis by (intro exI[of _ d']) simp
qed

text \<open>A process only takes back the stages of processes that are gone. It refuses to recover
  anything when its own heartbeat is stale, since then its peers may already have taken over;
  otherwise it requeues only running stages whose process has no heartbeat within the last 90
  seconds, so never its own, and it removes only stale processes other than itself.\<close>

lemma recover_orphans_safe:
  assumes "keyed (tasks d)" and "keyed (processes d)"
  shows "\<exists>rec d'. recover_orphans E me now d = Inr (rec, d')
    \<and> (me \<notin> set (fresh_processes (now - seconds PROCESS_STALE_SECS) d) \<longrightarrow>
         skipped_self_stale rec \<and> d' = d)
    \<and> (\<forall>i t. row (tasks d) i = Some t \<and> row (tasks d') i \<noteq> Some t \<longrightarrow>
         t_state t = ''running'' \<and> t_process_owner t \<noteq> me
         \<and> (\<forall>p. row (processes d) (t_process_owner t) = Some p \<longrightarrow>
              p_heartbeat_at p < now - seconds PROCESS_STALE_SECS)
         \<and> row (tasks d') i = Some (recovered now t))
    \<and> (\<forall>i p. row (processes d) i = Some p \<and> row (processes d') i \<noteq> Some p \<longrightarrow>
         i \<noteq> me \<and> p_heartbeat_at p < now - seconds PROCESS_STALE_SECS)"
proof (cases "me \<in> set (fresh_processes (now - seconds PROCESS_STALE_SECS) d)")
  case False
  then show ?thesis by (simp add: recover_orphans_def Let_def)
next
  case True
  let ?stale = "now - seconds PROCESS_STALE_SECS"
  let ?fresh = "fresh_processes ?stale d"
  let ?d = "bump ''lease_sweep_guard'' ''singleton'' d"
  let ?os = "orphans ?fresh d"
  let ?d1 = "requeue_all E ''owner_gone'' now False ?os ?d"
  let ?gone = "ids_where (\<lambda>i p. p_heartbeat_at p < ?stale \<and> i \<noteq> me) (processes d)"
  let ?d2 = "?d1\<lparr>processes := delete_where (\<lambda>i _. i \<in> set ?gone) (processes d)\<rparr>"
  have os: "orphans ?fresh ?d = ?os" by (simp add: orphans_def)
  have eq: "recover_orphans E me now d = Inr (\<lparr>rec_tasks = length ?os,
      rec_processes = length ?gone, skipped_self_stale = False\<rparr>, ?d2)"
    using True by (simp add: recover_orphans_def Let_def os)
  have run: "row (tasks d) i = Some t \<and> t_state t = ''running'' \<and> t_process_owner t \<notin> set ?fresh"
    if "(i, t) \<in> set ?os" for i t
    using take_filter_running[OF assms(1) that[unfolded orphans_def]] by simp
  have "distinct (map fst ?os)"
    unfolding orphans_def by (rule distinct_take_filter[OF assms(1)])
  moreover have "row (tasks ?d) i = Some t \<and> t_state t = ''running'' \<and> (False \<longrightarrow> lease_expired now t)"
    if "(i, t) \<in> set ?os" for i t
    using run[OF that] by simp
  ultimately have rows: "row (tasks ?d1) k = (case row (tasks d) k of None \<Rightarrow> None
     | Some t \<Rightarrow> Some (if k \<in> fst ` set ?os then recovered now t else t))" for k
    using requeue_all_row[of ?os ?d False now E "''owner_gone''" k] unfolding bump_frame by blast
  have stale: "p_heartbeat_at p < ?stale" if "q \<notin> set ?fresh" "row (processes d) q = Some p" for p q
    using that ids_where_iff[OF assms(2)] by (fastforce simp: fresh_processes_def)
  have tasks: "t_state t = ''running'' \<and> t_process_owner t \<notin> set ?fresh
      \<and> row (tasks ?d2) i = Some (recovered now t)"
    if "row (tasks d) i = Some t" "row (tasks ?d2) i \<noteq> Some t" for i t
  proof -
    from that have mem: "i \<in> fst ` set ?os" by (auto simp: rows split: if_splits)
    then obtain u where "(i, u) \<in> set ?os" by auto
    with run[OF this] that mem show ?thesis by (auto simp: rows)
  qed
  have procs: "i \<noteq> me \<and> p_heartbeat_at p < ?stale"
    if "row (processes d) i = Some p" "row (processes ?d2) i \<noteq> Some p" for i p
  proof -
    from that have "i \<in> set ?gone"
      using row_delete_where[OF assms(2)] by (auto split: if_splits)
    with that(1) show ?thesis by (auto simp: ids_where_iff[OF assms(2)])
  qed
  show ?thesis
    unfolding eq by (intro exI conjI refl) (use True tasks stale procs in \<open>blast+\<close>)
qed

definition demo_orphaned :: db where
  "demo_orphaned = demo_running\<lparr>processes :=
     [(''me'', \<lparr>p_pid = 1, p_started_at = 0, p_heartbeat_at = seconds 990\<rparr>),
      (''p'', \<lparr>p_pid = 2, p_started_at = 0, p_heartbeat_at = seconds 5\<rparr>)]\<rparr>"

theorem recover_orphans_safe_witness:
  "\<exists>rec d'. recover_orphans demo_E ''me'' (seconds 1000) demo_orphaned = Inr (rec, d')
     \<and> row (processes d') ''me'' = row (processes demo_orphaned) ''me''
     \<and> row (tasks d') ''b'' = row (tasks demo_orphaned) ''b''"
proof -
  have keyed: "keyed (tasks demo_orphaned)" "keyed (processes demo_orphaned)"
    by (simp_all add: demo_orphaned_def demo_running_def keyed_def)
  have rows: "row (tasks demo_orphaned) ''b'' = Some (demo_task [''a''])"
    "row (processes demo_orphaned) ''me'' =
      Some \<lparr>p_pid = 1, p_started_at = 0, p_heartbeat_at = seconds 990\<rparr>"
    by (simp_all add: demo_orphaned_def demo_running_def)
  have q: "t_state (demo_task [''a'']) \<noteq> ''running''" by (simp add: demo_task_def)
  from recover_orphans_safe[OF keyed, of demo_E "''me''" "seconds 1000"] rows q
  show ?thesis by metis
qed

section \<open>Finalizing a report\<close>

text \<open>Finalizing closes a job once. It writes only when the job is not terminal, the caller's
  claim (if it acts under one) still holds and the tree is not retired; then the job has the
  given state, and a second finalization reports that the job is already final. Every other
  answer leaves all job rows as they were.\<close>

lemma finalize_job_contract:
  assumes "row (jobs d) j = Some r" and "state \<in> set TERMINAL"
  shows "\<exists>f d'. finalize_job E j lease_of state now d = Inr (f, d')
    \<and> (f = Finalized \<longleftrightarrow> j_state r \<notin> set TERMINAL
         \<and> (\<forall>ct. lease_of = Some ct \<longrightarrow> holds_now d now ct) \<and> \<not> retired d (j_root r))
    \<and> (f = Finalized \<longrightarrow> map_option j_state (row (jobs d') j) = Some state
         \<and> (\<exists>d''. finalize_job E j lease' state' now' d' = Inr (AlreadyFinal, d'')))
    \<and> (f \<noteq> Finalized \<longrightarrow> jobs d' = jobs d) \<and> tasks d' = tasks d
    \<and> (\<forall>k. k \<noteq> j \<longrightarrow> row (jobs d') k = row (jobs d) k)"
proof -
  let ?d = "bump ''job_guard'' (j_root r) d"
  let ?lost = "case lease_of of None \<Rightarrow> False
     | Some ct \<Rightarrow> (case fence ct now ?d of Some f \<Rightarrow> \<not> holds f ct | None \<Rightarrow> True)"
  have lost: "?lost \<longleftrightarrow> \<not> (\<forall>ct. lease_of = Some ct \<longrightarrow> holds_now d now ct)"
    by (auto simp: holds_now_def split: option.splits)
  show ?thesis
  proof (cases "j_state r \<in> set TERMINAL \<or> ?lost \<or> retired d (j_root r)")
    case True
    then show ?thesis
      using assms(1) lost by (auto simp: finalize_job_def Let_def)
  next
    case False
    let ?w = "?d\<lparr>jobs := update_where (\<lambda>i x. i = j \<and> j_state x \<notin> set TERMINAL)
        (\<lambda>x. x\<lparr>j_state := state, j_finished_at := Some now, j_updated_at := now\<rparr>) (jobs d)\<rparr>"
    have eq: "finalize_job E j lease_of state now d = Inr (Finalized, rollup_in E j ?w)"
      using assms(1) False by (simp add: finalize_job_def Let_def)
    from rollup_in_job[of E j ?w] obtain f where f: "row (jobs (rollup_in E j ?w)) =
        (\<lambda>k. map_option (\<lambda>r. if k = j then f r else r) (row (jobs ?w) k))"
      "\<forall>r. j_state (f r) = j_state r" by blast
    have jrow: "row (jobs (rollup_in E j ?w)) j =
        Some (f (r\<lparr>j_state := state, j_finished_at := Some now, j_updated_at := now\<rparr>))"
      using assms(1) False by (simp add: f(1))
    then have "\<exists>d''. finalize_job E j lease' state' now' (rollup_in E j ?w) = Inr (AlreadyFinal, d'')"
      using assms(2) f(2) by (simp add: finalize_job_def Let_def)
    moreover have "row (jobs (rollup_in E j ?w)) k = row (jobs d) k" if "k \<noteq> j" for k
      using that by (simp add: f(1) option.map_ident option.map_comp comp_def)
    ultimately show ?thesis
      unfolding eq using False lost jrow f(2) by auto
  qed
qed

theorem finalize_job_contract_witness:
  "\<exists>d'. finalize_job demo_E ''j'' None ''completed'' 7 demo_db = Inr (Finalized, d')
     \<and> map_option j_state (row (jobs d') ''j'') = Some ''completed''"
proof -
  have r: "row (jobs demo_db) ''j'' = Some demo_job" and s: "''completed'' \<in> set TERMINAL"
    and o: "j_state demo_job \<notin> set TERMINAL" and n: "\<not> retired demo_db (j_root demo_job)"
    by (simp_all add: demo_db_def demo_job_def TERMINAL_def retired_def empty_db_def)
  from finalize_job_contract[OF r s, of demo_E None 7 None "[]" 0] o n show ?thesis by auto
qed

section \<open>Stopping\<close>

lemma cancel_one_frame [simp, frame]:
  "links (cancel_one_in E j now d) = links d" "receipts (cancel_one_in E j now d) = receipts d"
  "stage_outputs (cancel_one_in E j now d) = stage_outputs d"
  "neighborhoods (cancel_one_in E j now d) = neighborhoods d"
  "retirements (cancel_one_in E j now d) = retirements d"
  "lease (cancel_one_in E j now d) = lease d" "processes (cancel_one_in E j now d) = processes d"
  "chain_generations (cancel_one_in E j now d) = chain_generations d"
  "map fst (tasks (cancel_one_in E j now d)) = map fst (tasks d)"
  "map fst (jobs (cancel_one_in E j now d)) = map fst (jobs d)"
  by (simp_all add: cancel_one_in_def Let_def)

lemma cancel_one_task:
  "row (tasks (cancel_one_in E j now d)) k = map_option (\<lambda>t. if t_job t = j
      \<and> t_state t \<in> {''queued'', ''running''} then cancel_task now t else t)
     (row (tasks d) k)"
  by (simp add: cancel_one_in_def Let_def)

lemma cancel_one_job:
  "\<exists>f. row (jobs (cancel_one_in E j now d)) = (\<lambda>k. map_option (\<lambda>r. if k = j then f r else r) (row (jobs d) k))
     \<and> (\<forall>r. j_state (f r) = (if j_state r \<in> set TERMINAL then j_state r else ''cancelled'')
       \<and> j_kind (f r) = j_kind r \<and> j_root (f r) = j_root r
       \<and> j_parent (f r) = j_parent r \<and> j_ancestors (f r) = j_ancestors r
       \<and> j_cancel_requested (f r) \<and> j_stopped (f r) \<and> j_created_at (f r) = j_created_at r
       \<and> j_operation (f r) = j_operation r)"
proof -
  let ?d1 = "d\<lparr>attempts := close_attempts E (\<lambda>a. a_task a \<in> set (map fst (tasks_of_job d j)))
        ''cancelled'' now (attempts d),
     tasks := update_where (\<lambda>i t. t_job t = j \<and> t_state t \<in> {''queued'', ''running''})
              (cancel_task now) (tasks d),
     jobs := update_one j (\<lambda>r. r\<lparr>j_cancel_requested := True, j_stopped := True,
                j_phase := ''Stopped by user'', j_updated_at := now\<rparr>)
              (update_where (\<lambda>i r. i = j \<and> j_state r \<notin> set TERMINAL)
                (\<lambda>r. r\<lparr>j_state := ''cancelled'', j_finished_at := Some now\<rparr>) (jobs d)),
     brief_runs := update_where (\<lambda>i b. b_job b = j \<and> b_state b = ''active'')
              (\<lambda>b. b\<lparr>b_state := ''cancelled'', b_updated_at := now\<rparr>) (brief_runs d)\<rparr>"
  have eq: "cancel_one_in E j now d = rollup_in E j ?d1" by (simp add: cancel_one_in_def Let_def)
  from rollup_in_job[of E j ?d1] obtain g where g:
    "row (jobs (rollup_in E j ?d1)) = (\<lambda>k. map_option (\<lambda>r. if k = j then g r else r) (row (jobs ?d1) k))"
    "\<forall>r. j_state (g r) = j_state r \<and> j_kind (g r) = j_kind r \<and> j_root (g r) = j_root r
       \<and> j_parent (g r) = j_parent r \<and> j_ancestors (g r) = j_ancestors r
       \<and> j_cancel_requested (g r) = j_cancel_requested r \<and> j_stopped (g r) = j_stopped r
       \<and> j_created_at (g r) = j_created_at r \<and> j_operation (g r) = j_operation r" by blast
  let ?h = "\<lambda>r. (if j_state r \<notin> set TERMINAL then r\<lparr>j_state := ''cancelled'',
       j_finished_at := Some now\<rparr> else r)\<lparr>j_cancel_requested := True, j_stopped := True,
       j_phase := ''Stopped by user'', j_updated_at := now\<rparr>"
  show ?thesis
    unfolding eq g(1)
    by (rule exI[of _ "\<lambda>r. g (?h r)"])
      (auto simp: g(2) option.map_comp comp_def fun_eq_iff intro!: option.map_cong)
qed

lemma cancel_each_frame [simp, frame]:
  "links (cancel_each E js now d) = links d" "receipts (cancel_each E js now d) = receipts d"
  "stage_outputs (cancel_each E js now d) = stage_outputs d"
  "neighborhoods (cancel_each E js now d) = neighborhoods d"
  "retirements (cancel_each E js now d) = retirements d"
  "lease (cancel_each E js now d) = lease d" "processes (cancel_each E js now d) = processes d"
  "chain_generations (cancel_each E js now d) = chain_generations d"
  "map fst (tasks (cancel_each E js now d)) = map fst (tasks d)"
  "map fst (jobs (cancel_each E js now d)) = map fst (jobs d)"
  by (induction E js now d rule: cancel_each.induct) auto

text \<open>No stage of the job can run, and the job carries the stop.\<close>

definition job_stopped :: "db \<Rightarrow> string \<Rightarrow> bool" where
  "job_stopped d j \<longleftrightarrow> (\<forall>r. row (jobs d) j = Some r \<longrightarrow> j_stopped r \<and> j_cancel_requested r
       \<and> j_state r \<in> set TERMINAL)
     \<and> (\<forall>k t. row (tasks d) k = Some t \<and> t_job t = j \<longrightarrow> t_state t \<notin> {''queued'', ''running''})"

lemma cancel_one_taskE:
  assumes "row (tasks (cancel_one_in E j now d)) k = Some t"
  obtains t0 where "row (tasks d) k = Some t0" "t_job t0 = j" "t_state t0 = ''queued'' \<or> t_state t0 = ''running''"
      "t = cancel_task now t0"
  | "row (tasks d) k = Some t" "t_job t \<noteq> j \<or> t_state t \<noteq> ''queued'' \<and> t_state t \<noteq> ''running''"
proof (cases "row (tasks d) k")
  case None
  with assms show ?thesis by (simp add: cancel_one_task)
next
  case (Some t0)
  show ?thesis
  proof (cases "t_job t0 = j \<and> (t_state t0 = ''queued'' \<or> t_state t0 = ''running'')")
    case True
    then have "t = cancel_task now t0" using assms unfolding cancel_one_task Some by simp
    with True Some that(1) show ?thesis by blast
  next
    case False
    then have "t = t0" using assms unfolding cancel_one_task Some by (auto split: if_splits)
    with False Some that(2) show ?thesis by blast
  qed
qed
lemma cancelled_terminal: "''cancelled'' \<in> set TERMINAL"
  by (simp add: TERMINAL_def)

lemma job_stopped_cancel_one: "job_stopped (cancel_one_in E j now d) j"
proof -
  from cancel_one_job[of E j now d] obtain f where f:
    "row (jobs (cancel_one_in E j now d)) = (\<lambda>k. map_option (\<lambda>r. if k = j then f r else r) (row (jobs d) k))"
    "\<forall>r. j_state (f r) = (if j_state r \<in> set TERMINAL then j_state r else ''cancelled'')
       \<and> j_cancel_requested (f r) \<and> j_stopped (f r)" by blast
  show ?thesis
    unfolding job_stopped_def
  proof (intro conjI allI impI)
    fix r assume "row (jobs (cancel_one_in E j now d)) j = Some r"
    then obtain r0 where "r = f r0" by (auto simp: f(1))
    with f(2) show "j_stopped r" "j_cancel_requested r" "j_state r \<in> set TERMINAL"
      by (simp_all add: cancelled_terminal)
  next
    fix k t assume t: "row (tasks (cancel_one_in E j now d)) k = Some t \<and> t_job t = j"
    from t[THEN conjunct1] t[THEN conjunct2] show "t_state t \<notin> {''queued'', ''running''}"
      by (cases rule: cancel_one_taskE) auto
  qed
qed

lemma job_stopped_mono: "job_stopped d i \<Longrightarrow> job_stopped (cancel_one_in E j now d) i"
proof (cases "i = j")
  case False
  assume st: "job_stopped d i"
  from cancel_one_job[of E j now d] obtain f where f:
    "row (jobs (cancel_one_in E j now d)) = (\<lambda>k. map_option (\<lambda>r. if k = j then f r else r) (row (jobs d) k))"
    by blast
  show ?thesis
    unfolding job_stopped_def
  proof (intro conjI allI impI)
    fix r assume "row (jobs (cancel_one_in E j now d)) i = Some r"
    then have "row (jobs d) i = Some r" using False by (simp add: f option.map_ident)
    with st show "j_stopped r" "j_cancel_requested r" "j_state r \<in> set TERMINAL"
      by (simp_all add: job_stopped_def)
  next
    fix k t assume "row (tasks (cancel_one_in E j now d)) k = Some t \<and> t_job t = i"
    then have t: "row (tasks (cancel_one_in E j now d)) k = Some t" and ji: "t_job t = i" by auto
    from t ji False have "row (tasks d) k = Some t"
      by (cases rule: cancel_one_taskE) auto
    with st ji show "t_state t \<notin> {''queued'', ''running''}" unfolding job_stopped_def by blast
  qed
qed (simp add: job_stopped_cancel_one)

lemma job_stopped_cancel_each:
  "i \<in> set js \<or> job_stopped d i \<Longrightarrow> job_stopped (cancel_each E js now d) i"
proof (induction E js now d rule: cancel_each.induct)
  case (2 E j js now d)
  then show ?case by (auto simp: job_stopped_cancel_one job_stopped_mono)
qed simp

lemma unstopped_cancel_one:
  "unstopped (cancel_one_in E j now d) i \<longleftrightarrow> i \<noteq> j \<and> unstopped d i"
proof -
  from cancel_one_job[of E j now d] obtain f where f:
    "row (jobs (cancel_one_in E j now d)) = (\<lambda>k. map_option (\<lambda>r. if k = j then f r else r) (row (jobs d) k))"
    "\<forall>r. j_kind (f r) = j_kind r \<and> j_stopped (f r)" by blast
  show ?thesis by (auto simp: unstopped_def f split: option.splits)
qed

lemma unstopped_cancel_each: "unstopped (cancel_each E js now d) i \<longleftrightarrow> i \<notin> set js \<and> unstopped d i"
  by (induction E js now d rule: cancel_each.induct) (auto simp: unstopped_cancel_one)

definition left_to_stop :: "db \<Rightarrow> string \<Rightarrow> string list" where
  "left_to_stop d j = map (\<lambda>((a, c), _). c) (filter (\<lambda>((a, c), _). a = j \<and> unstopped d c) (links d))"

lemma stop_descendants_left: "stop_descendants d j n = take n (left_to_stop d j)"
  by (simp add: stop_descendants_def left_to_stop_def)

lemma left_to_stop_bump [simp]: "left_to_stop (bump a b d) j = left_to_stop d j"
  by (simp add: left_to_stop_def unstopped_def)

lemma left_to_stop_cancel:
  "left_to_stop (cancel_each E js now d) j = filter (\<lambda>c. c \<notin> set js) (left_to_stop d j)"
  by (auto simp: left_to_stop_def unstopped_cancel_each filter_map comp_def conj_commute
      case_prod_beta intro!: arg_cong[where f = "map _"] filter_cong)

lemma stop_loop_done:
  assumes "0 < batch" and "length (left_to_stop d j) < fuel"
  shows "\<exists>p' d'. stop_loop fuel E j root now batch None p d = Some (p', d') \<and> stop_done p'
    \<and> job_stopped d' j \<and> (\<forall>c\<in>set (left_to_stop d j). job_stopped d' c)
    \<and> (\<forall>i. job_stopped d i \<longrightarrow> job_stopped d' i)"
  using assms(2)
proof (induction fuel arbitrary: d p)
  case (Suc fuel)
  let ?d = "bump ''job_guard'' root d"
  let ?found = "stop_descendants ?d j batch"
  have bump: "job_stopped ?d = job_stopped d" by (simp add: fun_eq_iff job_stopped_def)
  show ?case
  proof (cases "?found = []")
    case True
    then have "left_to_stop d j = []" using assms(1) by (simp add: stop_descendants_left)
    with True show ?thesis
      using job_stopped_cancel_one job_stopped_mono bump by (simp add: stop_batch_def Let_def)
  next
    case False
    let ?d1 = "cancel_each E ?found now ?d"
    from False obtain c where c: "c \<in> set ?found" by (meson last_in_set)
    then have "c \<in> set (left_to_stop d j)"
      by (auto simp: stop_descendants_left dest: in_set_takeD)
    then have "length (left_to_stop ?d1 j) < length (left_to_stop d j)"
      using c unfolding left_to_stop_cancel left_to_stop_bump
      by (intro length_filter_less[of c]) simp_all
    with Suc.prems have "length (left_to_stop ?d1 j) < fuel" by simp
    from Suc.IH[OF this, of "\<lparr>jobs_stopped = jobs_stopped p + length ?found,
        batches = batches p + 1, stop_done = False\<rparr>"] obtain p' d' where
      r: "stop_loop fuel E j root now batch None \<lparr>jobs_stopped = jobs_stopped p + length ?found,
        batches = batches p + 1, stop_done = False\<rparr> ?d1 = Some (p', d')" "stop_done p'"
      "job_stopped d' j" "\<forall>c\<in>set (left_to_stop ?d1 j). job_stopped d' c"
      "\<forall>i. job_stopped ?d1 i \<longrightarrow> job_stopped d' i" by blast
    have "job_stopped d' c" if "c \<in> set (left_to_stop d j)" for c
      using that r(4,5) job_stopped_cancel_each[of c ?found ?d E now]
      by (cases "c \<in> set ?found") (auto simp: left_to_stop_cancel)
    moreover have "job_stopped d' i" if "job_stopped d i" for i
      using that r(5) job_stopped_cancel_each[of i ?found ?d E now] bump by simp
    ultimately show ?thesis
      using r(1-3) False by (simp add: stop_batch_def Let_def)
  qed
qed simp

lemma stop_begin_row:
  assumes "row (jobs d) j = Some r"
  shows "\<exists>d1. stop_begin j now d = Inr (j_root r, d1) \<and> left_to_stop d1 j = left_to_stop d j
    \<and> (\<forall>i. job_stopped d i \<longrightarrow> job_stopped d1 i)"
  using assms by (auto simp: stop_begin_def left_to_stop_def unstopped_def job_stopped_def
    option.case_eq_if split: if_splits intro!: arg_cong[where f = "map _"] filter_cong)

lemma stop_job_stops:
  assumes "row (jobs d) j = Some r" and "0 < batch" and "length (left_to_stop d j) < fuel"
  shows "\<exists>p d'. stop_job fuel E j now batch None d = Inr (Some (p, d')) \<and> stop_done p
    \<and> job_stopped d' j
    \<and> (\<forall>c. (j, c) \<in> fst ` set (links d) \<and> unstopped d c \<longrightarrow> job_stopped d' c)
    \<and> (\<forall>i. job_stopped d i \<longrightarrow> job_stopped d' i)"
proof -
  from stop_begin_row[OF assms(1)] obtain d1 where d1: "stop_begin j now d = Inr (j_root r, d1)"
    "left_to_stop d1 j = left_to_stop d j" "\<forall>i. job_stopped d i \<longrightarrow> job_stopped d1 i" by blast
  from stop_loop_done[OF assms(2), of d1 j fuel E "j_root r" now
      "\<lparr>jobs_stopped = 0, batches = 0, stop_done = False\<rparr>"] assms(3) d1(2)
  obtain p d' where r: "stop_loop fuel E j (j_root r) now batch None
      \<lparr>jobs_stopped = 0, batches = 0, stop_done = False\<rparr> d1 = Some (p, d')" "stop_done p"
    "job_stopped d' j" "\<forall>c\<in>set (left_to_stop d j). job_stopped d' c"
    "\<forall>i. job_stopped d1 i \<longrightarrow> job_stopped d' i" by auto
  have "c \<in> set (left_to_stop d j)" if "(j, c) \<in> fst ` set (links d)" "unstopped d c" for c
    using that by (force simp: left_to_stop_def)
  with r d1 show ?thesis by (auto simp: stop_job_def)
qed

text \<open>C7: Stopping a job completes: with any positive batch size, and fuel above the number of its
  descendants that are left to stop, the loop ends and reports that it is done. Then the job and
  each of those descendants carry the stop, are in a terminal state, and none of their stages is
  queued or running; jobs that were already stopped stay so.\<close>

theorem stop_job_complete:
  assumes "row (jobs d) j = Some r" and "0 < batch" and "length (left_to_stop d j) < fuel"
  shows "\<exists>p d'. stop_job fuel E j now batch None d = Inr (Some (p, d')) \<and> stop_done p
    \<and> job_stopped d' j
    \<and> (\<forall>c. (j, c) \<in> fst ` set (links d) \<and> unstopped d c \<longrightarrow> job_stopped d' c)
    \<and> (\<forall>i. job_stopped d i \<longrightarrow> job_stopped d' i)"
  using assms by (rule stop_job_stops)

definition demo_tree :: db where
  "demo_tree = demo_db\<lparr>jobs := [(''p'', demo_job\<lparr>j_root := ''p''\<rparr>),
     (''j'', demo_job\<lparr>j_root := ''p'', j_parent := Some ''p'', j_ancestors := [''p'']\<rparr>)],
     links := [((''p'', ''j''), ''p'')]\<rparr>"

theorem stop_job_complete_witness:
  "\<exists>p d'. stop_job 5 demo_E ''p'' 9 1 None demo_tree = Inr (Some (p, d')) \<and> stop_done p
     \<and> job_stopped d' ''p'' \<and> job_stopped d' ''j''"
proof -
  have r: "row (jobs demo_tree) ''p'' = Some (demo_job\<lparr>j_root := ''p''\<rparr>)"
    by (simp add: demo_tree_def)
  have len: "length (left_to_stop demo_tree ''p'') < 5"
    by (simp add: demo_tree_def left_to_stop_def)
  have "(''p'', ''j'') \<in> fst ` set (links demo_tree)" "unstopped demo_tree ''j''"
    by (simp_all add: demo_tree_def unstopped_def demo_job_def)
  with stop_job_complete[OF r zero_less_one len, of demo_E 9] show ?thesis by blast
qed

section \<open>Purging\<close>

lemma purge_tree_frame [simp, frame]:
  "receipts (purge_tree_in root reason now d) = receipts d"
  "lease (purge_tree_in root reason now d) = lease d"
  "processes (purge_tree_in root reason now d) = processes d"
  "chain_generations (purge_tree_in root reason now d) = chain_generations d"
  "attempts (purge_tree_in root reason now d) = filter (\<lambda>a. a_root a \<noteq> root) (attempts d)"
  "tasks (purge_tree_in root reason now d) = delete_where (\<lambda>i t. t_root t = root) (tasks d)"
  "jobs (purge_tree_in root reason now d) = delete_where (\<lambda>i r. j_root r = root) (jobs d)"
  "retirements (purge_tree_in root reason now d) =
     put root \<lparr>ret_at = now, ret_reason = reason\<rparr> (retirements d)"
  by (simp_all add: purge_tree_in_def Let_def)

lemma tree_busy_iff:
  "tree_busy root protect d \<longleftrightarrow> (\<exists>(i, t) \<in> set (tasks d). t_root t = root \<and> t_state t = ''running'')
     \<or> (\<exists>(i, r) \<in> set (jobs d). j_root r = root \<and> (j_kind r = ''service'' \<or> protect)
          \<and> j_state r \<in> set busy_job_states)"
  by (auto simp: tree_busy_def filter_empty_conv)

lemma tree_busy_purge_other:
  "r \<noteq> root \<Longrightarrow> tree_busy r protect (purge_tree_in root reason now d) = tree_busy r protect d"
  unfolding tree_busy_iff by (auto simp: delete_where_def)

lemma tree_busy_purged: "\<not> tree_busy root protect (purge_tree_in root reason now d)"
  unfolding tree_busy_iff by (auto simp: delete_where_def)

text \<open>The roots of a page that are purged: those whose tree is not busy.\<close>

definition purgeable :: "bool \<Rightarrow> string list \<Rightarrow> db \<Rightarrow> string set" where
  "purgeable protect roots d = {r \<in> set roots. \<not> tree_busy r protect d}"

lemma purge_roots_rows:
  assumes "distinct roots" and "purge_roots protect reason now roots (a, b) d = ((a', b'), d')"
  shows "tasks d' = delete_where (\<lambda>i t. t_root t \<in> purgeable protect roots d) (tasks d)
    \<and> jobs d' = delete_where (\<lambda>i r. j_root r \<in> purgeable protect roots d) (jobs d)
    \<and> attempts d' = filter (\<lambda>x. a_root x \<notin> purgeable protect roots d) (attempts d)
    \<and> (\<forall>r. row (retirements d') r = (if r \<in> purgeable protect roots d
          then Some \<lparr>ret_at = now, ret_reason = reason\<rparr> else row (retirements d) r))
    \<and> a' = a + length (filter (\<lambda>r. \<not> tree_busy r protect d) roots)
    \<and> b' = b + length (filter (\<lambda>r. tree_busy r protect d) roots)"
  using assms
proof (induction roots arbitrary: a b d)
  case Nil
  then show ?case by (auto simp: purgeable_def delete_where_def)
next
  case (Cons r rs)
  show ?case
  proof (cases "tree_busy r protect d")
    case True
    then have "purgeable protect (r # rs) d = purgeable protect rs d"
      by (auto simp: purgeable_def)
    with Cons.IH[of a "b + 1" d] Cons.prems True show ?thesis by simp
  next
    case False
    let ?d = "purge_tree_in r reason now d"
    have busy: "tree_busy x protect ?d = tree_busy x protect d" if "x \<in> set rs" for x
      using Cons.prems(1) that by (intro tree_busy_purge_other) auto
    have p: "purgeable protect (r # rs) d = insert r (purgeable protect rs ?d)"
      using False busy by (auto simp: purgeable_def)
    have f: "filter (\<lambda>x. tree_busy x protect ?d) rs = filter (\<lambda>x. tree_busy x protect d) rs"
      "filter (\<lambda>x. \<not> tree_busy x protect ?d) rs = filter (\<lambda>x. \<not> tree_busy x protect d) rs"
      using busy by (auto intro: filter_cong)
    have "r \<notin> purgeable protect rs ?d" using Cons.prems(1) by (auto simp: purgeable_def)
    with Cons.IH[of "a + 1" b ?d] Cons.prems False show ?thesis
      unfolding p f by (auto simp: delete_where_def filter_filter case_prod_beta conj_commute
        intro!: filter_cong)
  qed
qed

lemma distinct_sorted_ids: "keyed t \<Longrightarrow> distinct (map fst (sort_key f (filter P t)))"
proof -
  assume "keyed t"
  moreover have "mset (map fst (sort_key f (filter P t))) = mset (map fst (filter P t))"
    by (simp only: mset_map mset_sort)
  ultimately show ?thesis
    by (metis distinct_map_filter keyed_def mset_eq_imp_distinct_iff)
qed

text \<open>Retention deletes whole idle trees and nothing else. After a cleanup batch, a stage, a job
  or an attempt is gone exactly if its tree was selected, started more than 72 hours ago and had
  no running stage and no busy service; every deleted tree has a retirement marker, which keeps
  its stages from ever being claimed, and the batch returns how many trees it deleted.\<close>

lemma cleanup_batch_exact:
  assumes "keyed (jobs d)"
  shows "\<exists>d'. cleanup_batch now d = Inr (length (filter (\<lambda>r. \<not> tree_busy r False d)
        (expired_roots (now - hours 72) d)), d')
    \<and> tasks d' = delete_where (\<lambda>i t. t_root t \<in> purgeable False (expired_roots (now - hours 72) d) d) (tasks d)
    \<and> jobs d' = delete_where (\<lambda>i r. j_root r \<in> purgeable False (expired_roots (now - hours 72) d) d) (jobs d)
    \<and> attempts d' = filter (\<lambda>a. a_root a \<notin> purgeable False (expired_roots (now - hours 72) d) d) (attempts d)
    \<and> (\<forall>r\<in>purgeable False (expired_roots (now - hours 72) d) d. retired d' r
         \<and> (\<exists>x. row (jobs d) r = Some x \<and> j_parent x = None \<and> j_kind x \<noteq> ''service''
              \<and> j_created_at x < now - hours 72))"
proof -
  let ?d = "bump ''cleanup_guard'' ''singleton'' d"
  let ?roots = "expired_roots (now - hours 72) d"
  have roots: "expired_roots c ?d = expired_roots c d" for c by (simp add: expired_roots_def)
  have busy: "tree_busy r p ?d = tree_busy r p d" for r p by (simp add: tree_busy_def)
  then have purgeable: "purgeable p rs ?d = purgeable p rs d" for p rs by (simp add: purgeable_def)
  have mem: "(r, x) \<in> set (jobs d) \<Longrightarrow> row (jobs d) r = Some x" for r x
    using assms by (rule keyed_memD)
  have dist: "distinct ?roots"
    unfolding expired_roots_def by (intro distinct_take distinct_sorted_ids assms)
  have sel: "\<exists>x. row (jobs d) r = Some x \<and> j_parent x = None \<and> j_kind x \<noteq> ''service''
      \<and> j_created_at x < now - hours 72" if "r \<in> set ?roots" for r
    using that mem by (force simp: expired_roots_def dest!: in_set_takeD)
  obtain a b d' where r: "purge_roots False ''retention'' now ?roots (0, 0) ?d = ((a, b), d')"
    by (metis prod.collapse)
  have "cleanup_batch now d = Inr (a, d')"
    using r by (simp add: cleanup_batch_def Let_def roots EXECUTION_WINDOW_HOURS_def)
  with purge_roots_rows[OF dist r] show ?thesis
    using sel by (auto simp: busy purgeable retired_def) (auto simp: purgeable_def)
qed

theorem cleanup_batch_exact_witness:
  "\<exists>d'. cleanup_batch (hours 100) demo_db = Inr (1, d') \<and> tasks d' = []"
proof -
  have keyed: "keyed (jobs demo_db)" by (simp add: demo_db_def keyed_def)
  have roots: "expired_roots (hours 100 - hours 72) demo_db = [''j'']"
    by (simp add: expired_roots_def demo_db_def demo_job_def hours_def seconds_def SWEEP_BATCH_def)
  have busy: "\<not> tree_busy ''j'' False demo_db"
    by (simp add: tree_busy_iff demo_db_def demo_task_def demo_job_def)
  then have pg: "purgeable False [''j''] demo_db = {''j''}" by (auto simp: purgeable_def)
  from cleanup_batch_exact[OF keyed, of "hours 100"] busy show ?thesis
    unfolding roots pg by (auto simp: demo_db_def demo_task_def delete_where_def)
qed

section \<open>Clearing the history\<close>

definition history_all :: "string list \<Rightarrow> db \<Rightarrow> string list" where
  "history_all states d = map fst (sort_key (\<lambda>(i, r). j_created_at r)
     (filter (\<lambda>(i, r). j_parent r = None \<and> j_state r \<in> set states) (jobs d)))"

lemma history_roots_all: "history_roots states skip d = take SWEEP_BATCH (drop skip (history_all states d))"
  by (simp add: history_roots_def history_all_def)

lemma filter_sort_key: "filter P (sort_key f xs) = sort_key f (filter P xs)"
  by (simp add: filter_sort)

text \<open>A job without a parent is its own root.\<close>

definition roots_own :: "db \<Rightarrow> bool" where
  "roots_own d \<longleftrightarrow> (\<forall>(i, r) \<in> set (jobs d). j_parent r = None \<longrightarrow> j_root r = i)"

lemma history_all_delete:
  assumes "roots_own d" and "jobs d' = delete_where (\<lambda>i r. j_root r \<in> R) (jobs d)"
  shows "history_all states d' = filter (\<lambda>r. r \<notin> R) (history_all states d)"
proof -
  have "filter (\<lambda>(i, r). j_parent r = None \<and> j_state r \<in> set states)
      (filter (\<lambda>(i, r). j_root r \<notin> R) (jobs d))
    = filter (\<lambda>(i, r). i \<notin> R) (filter (\<lambda>(i, r). j_parent r = None \<and> j_state r \<in> set states) (jobs d))"
    using assms(1) by (auto simp: filter_filter roots_own_def intro!: filter_cong)
  then show ?thesis
    by (simp add: history_all_def assms(2) delete_where_def filter_map comp_def case_prod_beta
      filter_sort_key)
qed

lemma distinct_history: "keyed (jobs d) \<Longrightarrow> distinct (history_all states d)"
  unfolding history_all_def by (rule distinct_sorted_ids)

lemma clear_loop_done:
  assumes "keyed (jobs d)" and "roots_own d"
    and "\<forall>r\<in>set (take skip (history_all states d)). tree_busy r True d"
    and "length (history_all states d) - skip < fuel"
  shows "\<exists>n d'. clear_loop fuel states now skip acc d = Some (n, d')
    \<and> (\<forall>r\<in>set (history_all states d'). tree_busy r True d')
    \<and> acc + length (history_all states d) = n + length (history_all states d')"
  using assms
proof (induction fuel arbitrary: skip acc d)
  case (Suc fuel)
  let ?d = "bump ''cleanup_guard'' ''singleton'' d"
  let ?h = "history_all states d"
  let ?page = "take SWEEP_BATCH (drop skip ?h)"
  let ?R = "purgeable True ?page d"
  have h: "history_all states ?d = ?h" by (simp add: history_all_def)
  have busy: "tree_busy r p ?d = tree_busy r p d" for r p by (simp add: tree_busy_def)
  have pg: "purgeable p rs ?d = purgeable p rs d" for p rs by (simp add: purgeable_def busy)
  show ?case
  proof (cases "?page = []")
    case True
    then have "length ?h \<le> skip" by (simp add: SWEEP_BATCH_def)
    then have "take skip ?h = ?h" by simp
    with Suc.prems(3) have "\<forall>r\<in>set ?h. tree_busy r True d" by simp
    moreover have "clear_batch states now skip d = Inr ((0, 0, 0), ?d)"
      unfolding clear_batch_def history_roots_all h Let_def True by simp
    ultimately show ?thesis by (simp add: h busy)
  next
    case False
    obtain a b d1 where r: "purge_roots True ''cleared'' now ?page (0, 0) ?d = ((a, b), d1)"
      by (metis prod.collapse)
    have dh: "distinct ?h" using Suc.prems(1) by (rule distinct_history)
    then have "distinct ?page" by (simp add: distinct_take distinct_drop)
    from purge_roots_rows[OF this r]
    have jobs1: "jobs d1 = delete_where (\<lambda>i r. j_root r \<in> ?R) (jobs d)"
      and tasks1: "tasks d1 = delete_where (\<lambda>i t. t_root t \<in> ?R) (tasks d)"
      and a: "a = length (filter (\<lambda>r. \<not> tree_busy r True d) ?page)"
      and b: "b = length (filter (\<lambda>r. tree_busy r True d) ?page)"
      by (simp_all add: busy pg)
    have k1: "keyed (jobs d1)" using Suc.prems(1) by (simp add: jobs1)
    have o1: "roots_own d1" using Suc.prems(2) by (auto simp: jobs1 roots_own_def delete_where_def)
    have busy1: "tree_busy r True d1" if "r \<notin> ?R" "tree_busy r True d" for r
      using that unfolding tree_busy_iff jobs1 tasks1 by (auto simp: delete_where_def)
    have h1: "history_all states d1 = filter (\<lambda>r. r \<notin> ?R) ?h"
      by (rule history_all_delete[OF Suc.prems(2) jobs1])
    let ?pre = "take skip ?h" and ?post = "drop (skip + SWEEP_BATCH) ?h"
    have h3: "?h = ?pre @ ?page @ ?post"
      by (metis append.assoc append_take_drop_id take_add)
    then have "distinct (?pre @ ?page @ ?post)" using dh by simp
    then have pre: "filter (\<lambda>r. r \<notin> ?R) ?pre = ?pre" and post: "filter (\<lambda>r. r \<notin> ?R) ?post = ?post"
      by (auto simp: purgeable_def intro!: filter_True)
    have page: "filter (\<lambda>r. r \<notin> ?R) ?page = filter (\<lambda>r. tree_busy r True d) ?page"
      by (auto simp: purgeable_def intro!: filter_cong)
    have h1': "history_all states d1 = ?pre @ filter (\<lambda>r. tree_busy r True d) ?page @ ?post"
      using arg_cong[OF h3, of "filter (\<lambda>r. r \<notin> ?R)"] by (simp only: h1 filter_append pre post page)
    have "skip < length ?h" using False by (simp add: SWEEP_BATCH_def)
    then have lpre: "length ?pre = skip" by simp
    have len: "a + b = length ?page"
      unfolding a b using sum_length_filter_compl[of "\<lambda>r. tree_busy r True d" ?page] by simp
    have skip1: "take (skip + b) (history_all states d1) = ?pre @ filter (\<lambda>r. tree_busy r True d) ?page"
      using lpre by (simp add: h1' b)
    have "r \<notin> ?R" if "r \<in> set ?pre" for r
      using pre that by (metis (no_types, lifting) filter_id_conv)
    then have front: "\<forall>r\<in>set (take (skip + b) (history_all states d1)). tree_busy r True d1"
      unfolding skip1 using Suc.prems(3) busy1 by (auto simp: purgeable_def)
    have l: "length ?h = skip + length ?page + length ?post"
      using arg_cong[OF h3, of length] lpre by (simp only: length_append)
    have l1: "length (history_all states d1) = skip + b + length ?post"
      using lpre by (simp add: h1' b)
    have "0 < length ?page" using False by simp
    then have "length (history_all states d1) - (skip + b) < fuel"
      using Suc.prems(4) l l1 by linarith
    from Suc.IH[OF k1 o1 front this, of "acc + a"] obtain n d' where
      "clear_loop fuel states now (skip + b) (acc + a) d1 = Some (n, d')"
      "\<forall>r\<in>set (history_all states d'). tree_busy r True d'"
      and cnt: "acc + a + length (history_all states d1) = n + length (history_all states d')" by blast
    moreover have "acc + length ?h = n + length (history_all states d')"
      using cnt l l1 len by linarith
    moreover have "clear_loop (Suc fuel) states now skip acc d
        = clear_loop fuel states now (skip + b) (acc + a) d1"
    proof -
      have "clear_batch states now skip d = Inr ((a, b, length ?page), d1)"
        unfolding clear_batch_def history_roots_all h Let_def r by simp
      then obtain m where "clear_batch states now skip d = Inr ((a, b, Suc m), d1)"
        using \<open>0 < length ?page\<close> by (metis gr0_implies_Suc)
      then show ?thesis by simp
    qed
    ultimately show ?thesis by (intro exI[of _ n] exI[of _ d']) simp
  qed
qed simp

text \<open>Clearing the history ends: with fuel above the number of matching root jobs the loop
  returns. What it leaves in those states are only jobs whose tree is busy, and the count it
  returns is the number of root jobs that disappeared.\<close>

lemma clear_jobs_ends:
  assumes "keyed (jobs d)" and "roots_own d" and "set states \<subseteq> set TERMINAL"
    and "length (history_all states d) < fuel"
  shows "\<exists>n d'. clear_jobs_by_status fuel states now d = Inr (Some (n, d'))
    \<and> (\<forall>r\<in>set (history_all states d'). tree_busy r True d')
    \<and> n = length (history_all states d) - length (history_all states d')"
proof -
  have "filter (\<lambda>s. s \<notin> set TERMINAL) states = []" using assms(3) by (auto simp: filter_empty_conv)
  with clear_loop_done[OF assms(1,2), of 0 states fuel now 0] assms(4) show ?thesis
    by (auto simp: clear_jobs_by_status_def)
qed

definition demo_done :: db where
  "demo_done = empty_db\<lparr>jobs := [(''j'', demo_job\<lparr>j_state := ''completed''\<rparr>)]\<rparr>"

theorem clear_jobs_ends_witness:
  "\<exists>n d'. clear_jobs_by_status 2 [''completed''] 9 demo_done = Inr (Some (n, d'))"
proof -
  have "keyed (jobs demo_done)" "roots_own demo_done" "set [''completed''] \<subseteq> set TERMINAL"
    "length (history_all [''completed''] demo_done) < 2"
    by (simp_all add: demo_done_def keyed_def roots_own_def demo_job_def TERMINAL_def history_all_def)
  from clear_jobs_ends[OF this, of 9] show ?thesis by blast
qed

end
