(* ===== verification/Job_Chain.thy ===== *)
theory Job_Chain
  imports Job_Admin
begin

text \<open>
  The contract of \<open>ensure_chain\<close> (\<open>storage/jobs.rs\<close>, lines 1343 to 1467; its definition is
  in Job_Admin): attaching to the current run of an article, or superseding it and
  creating the next generation with all of its stages.
\<close>

section \<open>Brief chains: attaching and creating\<close>

lemma sort_key_hd:
  assumes "x \<in> set xs" and "\<And>y. y \<in> set xs \<Longrightarrow> y = x \<or> f x < f y"
  shows "\<exists>ys. sort_key f xs = x # ys"
proof -
  obtain y ys where s: "sort_key f xs = y # ys"
    using assms(1) by (cases "sort_key f xs") (auto dest: arg_cong[where f = set])
  have "sorted (map f (y # ys))" unfolding s[symmetric] by (rule sorted_sort_key)
  moreover have "x \<in> set (y # ys)" and y: "y \<in> set xs"
    using assms(1) arg_cong[OF s, of set] by auto
  ultimately have "f y \<le> f x" by auto
  with assms(2)[OF y] s show ?thesis by force
qed

lemma latest_run_Some:
  assumes "(k, b) \<in> set (brief_runs d)" and "b_article b = a"
    and "\<And>k' b'. (k', b') \<in> set (brief_runs d) \<Longrightarrow> b_article b' = a \<Longrightarrow>
           (k', b') = (k, b) \<or> b_generation b' < b_generation b"
  shows "latest_run d a = Some b"
proof -
  let ?xs = "filter (\<lambda>(i, b). b_article b = a) (brief_runs d)"
  have "\<exists>ys. sort_key (\<lambda>(i, b). - b_generation b) ?xs = (k, b) # ys"
  proof (rule sort_key_hd)
    fix y assume "y \<in> set ?xs"
    then obtain k' b' where "y = (k', b')" "(k', b') \<in> set (brief_runs d)" "b_article b' = a"
      by auto
    with assms(3)[of k' b'] show "y = (k, b) \<or> (case (k, b) of (i, b) \<Rightarrow> - b_generation b)
        < (case y of (i, b) \<Rightarrow> - b_generation b)" by auto
  qed (use assms(1,2) in auto)
  then show ?thesis by (auto simp: latest_run_def)
qed

lemma create_job_in_Inr:
  assumes "create_job_in E n d = Inr d'"
  shows "row (jobs d) (nj_id n) = None
    \<and> (\<exists>j. jobs d' = put (nj_id n) j (jobs d) \<and> j_state j = ''running'' \<and> \<not> j_cancel_requested j
        \<and> j_kind j = nj_kind n \<and> j_parent j = nj_parent n \<and> j_operation j = nj_operation n
        \<and> (nj_parent n = None \<longrightarrow> j_root j = nj_id n \<and> j_ancestors j = [])
        \<and> (\<forall>p. nj_parent n = Some p \<longrightarrow> (\<exists>r. row (jobs d) p = Some r \<and> j_root j = j_root r
             \<and> j_ancestors j = j_ancestors r @ [p])))
    \<and> tasks d' = tasks d \<and> attempts d' = attempts d \<and> brief_runs d' = brief_runs d
    \<and> chain_generations d' = chain_generations d \<and> receipts d' = receipts d
    \<and> retirements d' = retirements d \<and> lease d' = lease d \<and> processes d' = processes d
    \<and> stage_outputs d' = stage_outputs d \<and> neighborhoods d' = neighborhoods d"
  using assms
  by (auto simp: create_job_in_def Let_def split: option.splits sum.splits prod.splits
    dest!: add_links_frame)

lemma create_task_in_Inr:
  "create_task_in n d = Inr d' \<Longrightarrow> row (tasks d) (nt_id n) = None
    \<and> (\<exists>j t. row (jobs d) (nt_job n) = Some j \<and> d' = d\<lparr>tasks := put (nt_id n) t (tasks d)\<rparr>
        \<and> t_job t = nt_job n \<and> t_root t = j_root j \<and> t_pool t = nt_pool n
        \<and> t_operation t = nt_operation n \<and> t_state t = ''queued'' \<and> t_priority t = nt_priority n
        \<and> t_deps t = nt_deps n \<and> t_input_hash t = nt_input_hash n \<and> t_lease_epoch t = 0
        \<and> t_attempts t = 0 \<and> t_recoveries t = 0 \<and> t_lease_until t = None)"
  by (auto simp: create_task_in_def split: option.splits)

definition queued_as :: "new_task \<Rightarrow> task \<Rightarrow> bool" where
  "queued_as n t \<longleftrightarrow> t_job t = nt_job n \<and> t_pool t = nt_pool n \<and> t_operation t = nt_operation n
     \<and> t_state t = ''queued'' \<and> t_priority t = nt_priority n \<and> t_deps t = nt_deps n
     \<and> t_input_hash t = nt_input_hash n \<and> t_lease_epoch t = 0 \<and> t_recoveries t = 0
     \<and> t_attempts t = 0"

lemma create_tasks_in_Inr:
  "create_tasks_in ns d = Inr d' \<Longrightarrow> distinct (map nt_id ns)
    \<and> d' = d\<lparr>tasks := tasks d'\<rparr>
    \<and> (\<forall>n\<in>set ns. row (tasks d) (nt_id n) = None
        \<and> (\<exists>j t. row (jobs d) (nt_job n) = Some j \<and> row (tasks d') (nt_id n) = Some t
             \<and> queued_as n t \<and> t_root t = j_root j))
    \<and> (\<forall>k. k \<notin> nt_id ` set ns \<longrightarrow> row (tasks d') k = row (tasks d) k)
    \<and> (keyed (tasks d) \<longrightarrow> keyed (tasks d'))"
proof (induction ns arbitrary: d)
  case (Cons n ns)
  then obtain d1 where one: "create_task_in n d = Inr d1" and more: "create_tasks_in ns d1 = Inr d'"
    by (auto split: sum.splits)
  from create_task_in_Inr[OF one] obtain j t where n: "row (tasks d) (nt_id n) = None"
    "row (jobs d) (nt_job n) = Some j" "d1 = d\<lparr>tasks := put (nt_id n) t (tasks d)\<rparr>" "queued_as n t"
    "t_root t = j_root j"
    by (auto simp: queued_as_def)
  note IH = Cons.IH[OF more]
  have notin: "nt_id n \<notin> nt_id ` set ns" using IH n(3) by fastforce
  have "d' = d\<lparr>tasks := tasks d'\<rparr>" using IH n(3) by (metis db.select_convs(1) db.surjective db.update_convs(3))
  moreover have "row (tasks d') (nt_id n) = Some t" using IH notin n(3) by auto
  ultimately show ?case using IH notin n by (auto split: if_splits)
qed simp

definition chain_counter :: "db \<Rightarrow> string \<Rightarrow> int" where
  "chain_counter d article = (case chain_generations d article of None \<Rightarrow> 0 | Some g \<Rightarrow> g)"

text \<open>Generations come from the counter, so no run of an article is beyond it.\<close>

definition chains_ok :: "db \<Rightarrow> bool" where
  "chains_ok d \<longleftrightarrow> keyed (brief_runs d) \<and> (\<forall>(k, b) \<in> set (brief_runs d).
     b_generation b \<le> chain_counter d (b_article b))"

lemma supersede_run_frame [simp, frame]:
  "links (supersede_run now j d) = links d" "attempts (supersede_run now j d) = attempts d"
  "receipts (supersede_run now j d) = receipts d"
  "chain_generations (supersede_run now j d) = chain_generations d"
  "retirements (supersede_run now j d) = retirements d" "lease (supersede_run now j d) = lease d"
  "processes (supersede_run now j d) = processes d"
  "stage_outputs (supersede_run now j d) = stage_outputs d"
  "neighborhoods (supersede_run now j d) = neighborhoods d"
  "map fst (tasks (supersede_run now j d)) = map fst (tasks d)"
  "map fst (jobs (supersede_run now j d)) = map fst (jobs d)"
  "map fst (brief_runs (supersede_run now j d)) = map fst (brief_runs d)"
  by (simp_all add: supersede_run_def)

lemma supersede_runs:
  "(k, b) \<in> set (brief_runs (supersede_run now j d)) \<Longrightarrow> \<exists>b0. (k, b0) \<in> set (brief_runs d)
     \<and> b_article b = b_article b0 \<and> b_generation b = b_generation b0"
  by (auto simp: supersede_run_def set_update_where)

lemma create_next_Inr:
  assumes "create_next E article revision stages now counter d = Inr (c, d')"
  shows "\<exists>ts d1 d2. stage_tasks (ch_job_id c) revision now stages = Inr ts
    \<and> create_job_in E \<lparr>nj_id = ch_job_id c, nj_kind = ''task'', nj_operation = POOL_INTEL_BRIEF,
          nj_parent = None, nj_created_at = now\<rparr> d = Inr d1
    \<and> create_tasks_in ts d1 = Inr d2 \<and> create_run article (counter + 1) (ch_job_id c) revision now d2 = Inr d'
    \<and> ch_generation c = counter + 1 \<and> ch_created c
    \<and> ch_job_id c = encode [''brief'', article, nat_str (nat (counter + 1))]"
proof -
  let ?j = "encode [''brief'', article, nat_str (nat (counter + 1))]"
  let ?n = "\<lparr>nj_id = ?j, nj_kind = ''task'', nj_operation = POOL_INTEL_BRIEF,
          nj_parent = None, nj_created_at = now\<rparr>"
  from assms obtain d1 where d1: "create_job_in E ?n d = Inr d1"
    by (cases "create_job_in E ?n d") (auto simp: create_next_def Let_def)
  with assms obtain ts where ts: "stage_tasks ?j revision now stages = Inr ts"
    by (cases "stage_tasks ?j revision now stages") (auto simp: create_next_def Let_def)
  with assms d1 obtain d2 where d2: "create_tasks_in ts d1 = Inr d2"
    by (cases "create_tasks_in ts d1") (auto simp: create_next_def Let_def)
  with assms d1 ts show ?thesis
    by (auto simp: create_next_def Let_def split: sum.splits)
qed

lemma create_run_Inr:
  "create_run article gen j revision now d = Inr d' \<Longrightarrow>
     row (brief_runs d) (encode [article, nat_str (nat gen)]) = None
     \<and> d' = d\<lparr>brief_runs := brief_runs d @ [(encode [article, nat_str (nat gen)],
         \<lparr>b_article = article, b_generation = gen, b_job = j, b_input_revision = revision,
          b_state = ''active'', b_updated_at = now\<rparr>)],
         chain_generations := (chain_generations d)(article \<mapsto> gen)\<rparr>"
  by (auto simp: create_run_def Let_def put_new split: if_splits)

lemma create_next_runs:
  assumes "create_next E article revision stages now (chain_counter d article) d = Inr (c, d')"
    and ok: "chains_ok d"
  shows "chains_ok d' \<and> chain_counter d' article = chain_counter d article + 1
    \<and> ch_generation c = chain_counter d article + 1 \<and> ch_created c
    \<and> (\<forall>(k, b)\<in>set (brief_runs d). b_article b = article \<longrightarrow> b_generation b < ch_generation c)
    \<and> latest_run d' article = Some \<lparr>b_article = article, b_generation = ch_generation c,
         b_job = ch_job_id c, b_input_revision = revision, b_state = ''active'', b_updated_at = now\<rparr>"
proof -
  let ?g = "chain_counter d article + 1"
  let ?k = "encode [article, nat_str (nat ?g)]"
  let ?b = "\<lparr>b_article = article, b_generation = ?g, b_job = ch_job_id c,
      b_input_revision = revision, b_state = ''active'', b_updated_at = now\<rparr>"
  from create_next_Inr[OF assms(1)] obtain ts d1 d2 where
    steps: "create_job_in E \<lparr>nj_id = ch_job_id c, nj_kind = ''task'', nj_operation = POOL_INTEL_BRIEF,
          nj_parent = None, nj_created_at = now\<rparr> d = Inr d1" "create_tasks_in ts d1 = Inr d2"
      "create_run article ?g (ch_job_id c) revision now d2 = Inr d'"
    and c: "ch_generation c = ?g" "ch_created c" by blast
  from create_job_in_Inr[OF steps(1)] have f1: "brief_runs d1 = brief_runs d"
      "chain_generations d1 = chain_generations d" by simp_all
  from create_tasks_in_Inr[OF steps(2)] have d2: "d2 = d1\<lparr>tasks := tasks d2\<rparr>" by blast
  have f2: "brief_runs d2 = brief_runs d" "chain_generations d2 = chain_generations d"
    by (subst d2, simp add: f1)+
  from create_run_Inr[OF steps(3)] have none: "row (brief_runs d) ?k = None"
    and runs: "brief_runs d' = brief_runs d @ [(?k, ?b)]"
    and gens: "chain_generations d' = (chain_generations d)(article \<mapsto> ?g)"
    by (simp_all add: f2)
  have le: "b_generation b \<le> chain_counter d (b_article b)" if "(k, b) \<in> set (brief_runs d)" for k b
    using ok that by (auto simp: chains_ok_def)
  have cnt: "chain_counter d' a = (if a = article then ?g else chain_counter d a)" for a
    by (simp add: chain_counter_def gens)
  have latest: "latest_run d' article = Some ?b"
  proof (rule latest_run_Some[where k = ?k])
    fix k' b' assume "(k', b') \<in> set (brief_runs d')" "b_article b' = article"
    then show "(k', b') = (?k, ?b) \<or> b_generation b' < b_generation ?b"
      using le[of k' b'] by (auto simp: runs)
  qed (simp_all add: runs)
  have "keyed (brief_runs d')"
    using ok none by (simp add: runs chains_ok_def keyed_def map_of_eq_None_iff)
  then have "chains_ok d'"
    using le by (fastforce simp: chains_ok_def runs cnt)
  with latest cnt c le show ?thesis by fastforce
qed

lemma supersede_chains_ok: "chains_ok d \<Longrightarrow> chains_ok (supersede_run now j d)"
proof -
  assume ok: "chains_ok d"
  have "b_generation b \<le> chain_counter d (b_article b)"
    if "(k, b) \<in> set (brief_runs (supersede_run now j d))" for k b
    using supersede_runs[OF that] ok by (auto simp: chains_ok_def)
  moreover have "keyed (brief_runs (supersede_run now j d))"
    using ok by (simp add: chains_ok_def keyed_def)
  ultimately show ?thesis by (auto simp: chains_ok_def chain_counter_def)
qed

text \<open>The state \<open>ensure_chain\<close> creates the next generation in.\<close>

definition chain_guarded :: "string \<Rightarrow> db \<Rightarrow> db" where
  "chain_guarded article d = (bump ''brief_chain_guard'' article d)\<lparr>chain_generations :=
     (chain_generations d)(article \<mapsto> chain_counter d article)\<rparr>"

definition before_next :: "instant \<Rightarrow> string \<Rightarrow> db \<Rightarrow> db" where
  "before_next now article d = (case latest_run d article of
     Some b \<Rightarrow> if b_state b = ''active''
       then supersede_run now (b_job b) (bump ''job_guard'' (b_job b) (chain_guarded article d))
       else chain_guarded article d
   | None \<Rightarrow> chain_guarded article d)"

lemma chain_guarded_frame [simp]:
  "brief_runs (chain_guarded a d) = brief_runs d" "tasks (chain_guarded a d) = tasks d"
  "jobs (chain_guarded a d) = jobs d" "attempts (chain_guarded a d) = attempts d"
  "chain_counter (chain_guarded a d) b = chain_counter d b"
  "latest_run (chain_guarded a d) = latest_run d"
  by (simp_all add: chain_guarded_def chain_counter_def fun_eq_iff latest_run_def)

lemma chain_counter_bump [simp]: "chain_counter (bump a b d) = chain_counter d"
  by (simp add: fun_eq_iff chain_counter_def)

lemma chain_counter_supersede [simp]: "chain_counter (supersede_run now j d) = chain_counter d"
  by (simp add: fun_eq_iff chain_counter_def)

lemma chain_counter_before [simp]: "chain_counter (before_next now a d) b = chain_counter d b"
  by (simp add: before_next_def split: option.splits)

lemma before_next_ok: "chains_ok d \<Longrightarrow> chains_ok (before_next now a d)"
proof -
  assume "chains_ok d"
  then have g: "chains_ok (chain_guarded a d)" by (simp add: chains_ok_def)
  then have "chains_ok (bump x y (chain_guarded a d))" for x y by (simp add: chains_ok_def)
  with g show ?thesis by (simp add: before_next_def supersede_chains_ok split: option.splits)
qed

lemma ensure_chain_cases:
  "ensure_chain E article revision stages now d =
    (case latest_run d article of
       Some b \<Rightarrow> if b_input_revision b = revision \<and> b_state b \<noteq> ''superseded''
         then Inr (\<lparr>ch_job_id = b_job b, ch_generation = b_generation b, ch_created = False\<rparr>,
                   chain_guarded article d)
         else create_next E article revision stages now (chain_counter d article) (before_next now article d)
     | None \<Rightarrow> create_next E article revision stages now (chain_counter d article) (before_next now article d))"
  by (simp add: ensure_chain_def Let_def chain_guarded_def[symmetric] chain_counter_def[symmetric]
    before_next_def split: option.splits)

lemma before_next_runs:
  "(k, b) \<in> set (brief_runs d) \<Longrightarrow>
     \<exists>b'. (k, b') \<in> set (brief_runs (before_next now a d)) \<and> b_article b' = b_article b
       \<and> b_generation b' = b_generation b"
  by (force simp: before_next_def supersede_run_def set_update_where split: option.splits)

text \<open>C8: Asking for the chain of an article with a given input revision leaves that revision's
  run as the article's latest one and never one that was superseded. A new run gets a
  generation above all earlier ones of the article; otherwise the current run is attached to
  and no job, stage or run is written. Asking again, at any time, attaches to the same run.\<close>

theorem ensure_chain_contract:
  assumes ok: "chains_ok d" and run: "ensure_chain E article revision stages now d = Inr (c, d')"
  shows "chains_ok d'
    \<and> (\<exists>b. latest_run d' article = Some b \<and> b_job b = ch_job_id c \<and> b_generation b = ch_generation c
         \<and> b_input_revision b = revision \<and> b_state b \<noteq> ''superseded'')
    \<and> (ch_created c \<longrightarrow> (\<forall>(k, b)\<in>set (brief_runs d). b_article b = article \<longrightarrow>
         b_generation b < ch_generation c))
    \<and> (\<not> ch_created c \<longrightarrow> tasks d' = tasks d \<and> jobs d' = jobs d \<and> brief_runs d' = brief_runs d)
    \<and> (\<exists>d''. ensure_chain E' article revision stages' now' d' = Inr (c\<lparr>ch_created := False\<rparr>, d''))"
proof -
  have "(\<exists>b. latest_run d article = Some b \<and> b_input_revision b = revision \<and> b_state b \<noteq> ''superseded''
        \<and> c = \<lparr>ch_job_id = b_job b, ch_generation = b_generation b, ch_created = False\<rparr>
        \<and> d' = chain_guarded article d)
      \<or> create_next E article revision stages now (chain_counter d article) (before_next now article d) = Inr (c, d')"
    using run[unfolded ensure_chain_cases] by (auto split: option.splits if_splits)
  then show ?thesis
  proof
    assume "\<exists>b. latest_run d article = Some b \<and> b_input_revision b = revision \<and> b_state b \<noteq> ''superseded''
        \<and> c = \<lparr>ch_job_id = b_job b, ch_generation = b_generation b, ch_created = False\<rparr>
        \<and> d' = chain_guarded article d"
    with ok show ?thesis
      by (auto simp: ensure_chain_cases chains_ok_def)
  next
    let ?d = "before_next now article d"
    assume n: "create_next E article revision stages now (chain_counter d article) ?d = Inr (c, d')"
    have "create_next E article revision stages now (chain_counter ?d article) ?d = Inr (c, d')"
      using n by simp
    note new = create_next_runs[OF this before_next_ok[OF ok]]
    have "b_generation b < ch_generation c" if "(k, b) \<in> set (brief_runs d)" "b_article b = article" for k b
      using before_next_runs[OF that(1), of now article] that(2) new by force
    with new show ?thesis
      by (auto simp: ensure_chain_cases)
  qed
qed

definition demo_stages :: "stage_spec list" where
  "demo_stages = [\<lparr>st_operation = ''read'', st_deps = []\<rparr>, \<lparr>st_operation = ''write'', st_deps = [0]\<rparr>]"

theorem ensure_chain_contract_witness:
  "\<exists>c d'. ensure_chain demo_E ''art'' ''r1'' demo_stages 5 empty_db = Inr (c, d') \<and> chains_ok d'
     \<and> (\<exists>d''. ensure_chain demo_E ''art'' ''r1'' demo_stages 9 d' = Inr (c\<lparr>ch_created := False\<rparr>, d''))"
proof -
  have ok: "chains_ok empty_db" by (simp add: chains_ok_def empty_db_def)
  have "(case ensure_chain demo_E ''art'' ''r1'' demo_stages 5 empty_db of Inl _ \<Rightarrow> False | Inr _ \<Rightarrow> True)"
    by code_simp
  then obtain c d' where r: "ensure_chain demo_E ''art'' ''r1'' demo_stages 5 empty_db = Inr (c, d')"
    by (auto split: sum.splits)
  from ensure_chain_contract[OF ok r, of demo_E demo_stages 9] r show ?thesis by blast
qed

text \<open>Stage ids and the stages of a new chain.\<close>

definition stage_id :: "string \<Rightarrow> stage_spec list \<Rightarrow> nat \<Rightarrow> string" where
  "stage_id j stages i = encode [j, st_operation (stages ! i)]"

lemma if_InrD: "(if c then Inr x else Inl e) = Inr y \<Longrightarrow> x = y"
  by (auto split: if_splits)

lemma stage_tasks_nth:
  assumes "stage_tasks j revision now stages = Inr ts" and "i < length stages"
  shows "\<exists>n\<in>set ts. nt_id n = stage_id j stages i \<and> nt_job n = j \<and> nt_pool n = POOL_INTEL_BRIEF
    \<and> nt_operation n = st_operation (stages ! i) \<and> nt_priority n = int i
    \<and> nt_deps n = map (stage_id j stages) (st_deps (stages ! i)) \<and> nt_input_hash n = revision
    \<and> (\<forall>k\<in>set (st_deps (stages ! i)). k < length stages)"
proof -
  have deps: "\<forall>k\<in>set (st_deps (stages ! i)). k < length stages"
    using assms by (auto simp: stage_tasks_def Let_def list_all_iff split: if_splits)
  let ?ids = "map (\<lambda>s. encode [j, st_operation s]) stages"
  let ?f = "\<lambda>(i, s). \<lparr>nt_id = ?ids ! i, nt_job = j, nt_pool = POOL_INTEL_BRIEF,
     nt_operation = st_operation s, nt_priority = int i, nt_deps = map (\<lambda>k. ?ids ! k) (st_deps s),
     nt_input_hash = revision, nt_created_at = now\<rparr>"
  have id: "?ids ! k = stage_id j stages k" if "k < length stages" for k
    using that by (simp add: stage_id_def)
  have mem: "(i, stages ! i) \<in> set (enumerate 0 stages)"
    using assms(2) by (simp add: in_set_enumerate_eq)
  have ts: "ts = map ?f (enumerate 0 stages)"
    by (rule if_InrD[OF assms(1)[unfolded stage_tasks_def Let_def], symmetric])
  have "?f (i, stages ! i) \<in> set ts" unfolding ts set_map by (rule imageI[OF mem])
  then show ?thesis
    using deps id assms(2) by (intro bexI[of _ "?f (i, stages ! i)"]) auto
qed

lemma supersede_tasks:
  "row (tasks (supersede_run now j d)) k = map_option (\<lambda>t. if t_job t = j
      \<and> t_state t \<in> {''queued'', ''running''} then cancel_task now t else t) (row (tasks d) k)"
  by (simp add: supersede_run_def)

text \<open>A new chain is complete: its job runs, every stage of the specification is queued in the
  brief pool for that revision, waits for exactly the stages it names, and has its position as
  priority; and no stage of the run it replaced can run any more.\<close>

lemma ensure_chain_stages:
  assumes run: "ensure_chain E article revision stages now d = Inr (c, d')" and new: "ch_created c"
  shows "(\<exists>j. row (jobs d') (ch_job_id c) = Some j \<and> j_state j = ''running'' \<and> j_root j = ch_job_id c)
    \<and> (\<forall>i<length stages. \<exists>t. row (tasks d') (stage_id (ch_job_id c) stages i) = Some t
         \<and> t_state t = ''queued'' \<and> t_job t = ch_job_id c \<and> t_pool t = POOL_INTEL_BRIEF
         \<and> t_operation t = st_operation (stages ! i) \<and> t_input_hash t = revision
         \<and> t_priority t = int i
         \<and> t_deps t = map (stage_id (ch_job_id c) stages) (st_deps (stages ! i)))
    \<and> (\<forall>old k t. latest_run d article = Some old \<and> b_state old = ''active''
         \<and> row (tasks d) k = Some t \<and> t_job t = b_job old \<longrightarrow>
         (\<exists>t'. row (tasks d') k = Some t' \<and> t_state t' \<noteq> ''running'' \<and> t_state t' \<noteq> ''queued''))"
proof -
  let ?d = "before_next now article d"
  have "create_next E article revision stages now (chain_counter d article) ?d = Inr (c, d')"
    using run[unfolded ensure_chain_cases] new by (auto split: option.splits if_splits)
  from create_next_Inr[OF this] obtain ts d1 d2 where
    ts: "stage_tasks (ch_job_id c) revision now stages = Inr ts" and
    d1: "create_job_in E \<lparr>nj_id = ch_job_id c, nj_kind = ''task'', nj_operation = POOL_INTEL_BRIEF,
          nj_parent = None, nj_created_at = now\<rparr> ?d = Inr d1" and
    d2: "create_tasks_in ts d1 = Inr d2" and
    d3: "create_run article (chain_counter d article + 1) (ch_job_id c) revision now d2 = Inr d'" by blast
  note job = create_job_in_Inr[OF d1] and tasks2 = create_tasks_in_Inr[OF d2]
  from create_run_Inr[OF d3] have eq3: "tasks d' = tasks d2" "jobs d' = jobs d2" by simp_all
  from tasks2 have d2eq: "d2 = d1\<lparr>tasks := tasks d2\<rparr>" by blast
  have jobs2: "jobs d2 = jobs d1" by (subst d2eq) simp
  have jrow: "\<exists>j. row (jobs d') (ch_job_id c) = Some j \<and> j_state j = ''running'' \<and> j_root j = ch_job_id c"
    using job by (auto simp: eq3 jobs2)
  have stage: "\<exists>t. row (tasks d') (stage_id (ch_job_id c) stages i) = Some t
         \<and> t_state t = ''queued'' \<and> t_job t = ch_job_id c \<and> t_pool t = POOL_INTEL_BRIEF
         \<and> t_operation t = st_operation (stages ! i) \<and> t_input_hash t = revision
         \<and> t_priority t = int i
         \<and> t_deps t = map (stage_id (ch_job_id c) stages) (st_deps (stages ! i))"
    if "i < length stages" for i
  proof -
    from stage_tasks_nth[OF ts that] obtain n where n: "n \<in> set ts"
      "nt_id n = stage_id (ch_job_id c) stages i" "nt_job n = ch_job_id c" "nt_pool n = POOL_INTEL_BRIEF"
      "nt_operation n = st_operation (stages ! i)" "nt_priority n = int i"
      "nt_deps n = map (stage_id (ch_job_id c) stages) (st_deps (stages ! i))"
      "nt_input_hash n = revision" by blast
    from tasks2 n(1) obtain t where "row (tasks d2) (nt_id n) = Some t" "queued_as n t" by blast
    with n show ?thesis by (auto simp: queued_as_def eq3)
  qed
  have old: "\<exists>t'. row (tasks d') k = Some t' \<and> t_state t' \<noteq> ''running'' \<and> t_state t' \<noteq> ''queued''"
    if o: "latest_run d article = Some old" "b_state old = ''active''"
      "row (tasks d) k = Some t" "t_job t = b_job old" for old k t
  proof -
    have before: "row (tasks ?d) k = Some (if t_state t \<in> {''queued'', ''running''} then cancel_task now t else t)"
      using o by (simp add: before_next_def supersede_tasks)
    then have "k \<notin> nt_id ` set ts" using tasks2 job by fastforce
    then have "row (tasks d') k = row (tasks ?d) k" using tasks2 job by (simp add: eq3)
    with before show ?thesis by auto
  qed
  show ?thesis using jrow stage old by blast
qed

theorem ensure_chain_stages_witness:
  "\<exists>c d' t. ensure_chain demo_E ''art'' ''r1'' demo_stages 5 empty_db = Inr (c, d') \<and>
     row (tasks d') (stage_id (ch_job_id c) demo_stages 1) = Some t \<and> t_state t = ''queued''
     \<and> t_deps t = [stage_id (ch_job_id c) demo_stages 0]"
proof -
  have "(case ensure_chain demo_E ''art'' ''r1'' demo_stages 5 empty_db of Inl _ \<Rightarrow> False
     | Inr (c, _) \<Rightarrow> ch_created c)"
    by code_simp
  then obtain c d' where r: "ensure_chain demo_E ''art'' ''r1'' demo_stages 5 empty_db = Inr (c, d')"
    "ch_created c" by (auto split: sum.splits)
  have "1 < length demo_stages" by (simp add: demo_stages_def)
  with ensure_chain_stages[OF r] obtain t where
    "row (tasks d') (stage_id (ch_job_id c) demo_stages 1) = Some t" "t_state t = ''queued''"
    "t_deps t = map (stage_id (ch_job_id c) demo_stages) (st_deps (demo_stages ! 1))" by blast
  with r(1) show ?thesis by (auto simp: demo_stages_def)
qed
end
