(* ===== verification/Job_System.thy ===== *)
theory Job_System
  imports Job_Chain
begin

text \<open>
  The job tables as one transition system: a step is one committed transaction of any worker,
  scheduler or user. What every step keeps, and what a worker may conclude from its claim
  however the steps of others interleave.
\<close>

section \<open>How a stage may evolve\<close>

text \<open>
  One committed operation, seen at one stage: what was fixed at creation stays, the lease
  epoch never falls, and a stage that runs afterwards either ran before under the same worker
  and epoch, or has a new epoch.
\<close>

definition evolves :: "task \<Rightarrow> task \<Rightarrow> bool" where
  "evolves t u \<longleftrightarrow> t_job u = t_job t \<and> t_root u = t_root t \<and> t_pool u = t_pool t
     \<and> t_deps u = t_deps t \<and> t_operation u = t_operation t
     \<and> t_lease_epoch t \<le> t_lease_epoch u
     \<and> (t_state u = ''running'' \<longrightarrow> t_lease_epoch t < t_lease_epoch u
          \<or> t_state t = ''running'' \<and> t_lease_owner u = t_lease_owner t
             \<and> t_lease_epoch u = t_lease_epoch t)"

lemma evolves_refl [simp, intro]: "evolves t t"
  by (simp add: evolves_def)

lemma evolves_trans: "evolves t u \<Longrightarrow> evolves u v \<Longrightarrow> evolves t v"
proof -
  assume a: "evolves t u" and b: "evolves u v"
  have le: "t_lease_epoch t \<le> t_lease_epoch u" "t_lease_epoch u \<le> t_lease_epoch v"
    using a b by (auto simp: evolves_def)
  have "t_lease_epoch t < t_lease_epoch v \<or> t_state t = ''running'' \<and> t_lease_owner v = t_lease_owner t
     \<and> t_lease_epoch v = t_lease_epoch t" if r: "t_state v = ''running''"
  proof -
    from b r have "t_lease_epoch u < t_lease_epoch v \<or> t_state u = ''running''
        \<and> t_lease_owner v = t_lease_owner u \<and> t_lease_epoch v = t_lease_epoch u"
      by (simp add: evolves_def)
    then show ?thesis
    proof
      assume u: "t_state u = ''running'' \<and> t_lease_owner v = t_lease_owner u
        \<and> t_lease_epoch v = t_lease_epoch u"
      with a have "t_lease_epoch t < t_lease_epoch u \<or> t_state t = ''running''
        \<and> t_lease_owner u = t_lease_owner t \<and> t_lease_epoch u = t_lease_epoch t"
        by (simp add: evolves_def)
      with u show ?thesis by auto
    qed (use le in linarith)
  qed
  then show "evolves t v"
    using a b le by (simp add: evolves_def)
qed

definition job_evolves :: "job \<Rightarrow> job \<Rightarrow> bool" where
  "job_evolves r s \<longleftrightarrow> j_kind s = j_kind r \<and> j_root s = j_root r \<and> j_parent s = j_parent r
     \<and> j_ancestors s = j_ancestors r \<and> j_created_at s = j_created_at r
     \<and> (j_cancel_requested r \<longrightarrow> j_cancel_requested s) \<and> (j_stopped r \<longrightarrow> j_stopped s)
     \<and> (j_state r \<in> set TERMINAL \<longrightarrow> j_state s \<in> set TERMINAL)"

lemma job_evolves_refl [simp, intro]: "job_evolves r r"
  by (simp add: job_evolves_def)

lemma job_evolves_trans: "job_evolves r s \<Longrightarrow> job_evolves s u \<Longrightarrow> job_evolves r u"
  unfolding job_evolves_def by simp

definition attempt_kept :: "attempt \<Rightarrow> attempt \<Rightarrow> bool" where
  "attempt_kept a b \<longleftrightarrow> a_task b = a_task a \<and> a_root b = a_root a \<and> a_number b = a_number a
     \<and> a_epoch b = a_epoch a \<and> a_owner b = a_owner a \<and> a_started_at b = a_started_at a
     \<and> (a_finished_at a \<noteq> None \<longrightarrow> b = a)"

lemma attempt_kept_refl [simp, intro]: "attempt_kept a a"
  by (simp add: attempt_kept_def)

lemma attempt_kept_trans: "attempt_kept a b \<Longrightarrow> attempt_kept b c \<Longrightarrow> attempt_kept a c"
  unfolding attempt_kept_def by (elim conjE) simp

text \<open>An operation that only updates rows: the same stages, jobs, attempts and runs, evolved.\<close>

definition run_key :: "string \<times> brief_run \<Rightarrow> string \<times> string \<times> int" where
  "run_key = (\<lambda>(k, b). (k, b_article b, b_generation b))"

lemma run_key_update_where [simp]:
  "(\<And>b. b_article (f b) = b_article b \<and> b_generation (f b) = b_generation b) \<Longrightarrow>
     map run_key (update_where P f t) = map run_key t"
  by (induction t) (auto simp: run_key_def update_where_def)

definition counters_of :: "(string \<Rightarrow> int option) \<Rightarrow> string \<Rightarrow> int" where
  "counters_of m a = (case m a of None \<Rightarrow> 0 | Some g \<Rightarrow> g)"

lemma chain_counter_of: "chain_counter d = counters_of (chain_generations d)"
  by (simp add: fun_eq_iff chain_counter_def counters_of_def)

lemma counters_of_same [simp]: "counters_of (m(a \<mapsto> counters_of m a)) = counters_of m"
  by (simp add: fun_eq_iff counters_of_def)

definition updates :: "db \<Rightarrow> db \<Rightarrow> bool" where
  "updates d d' \<longleftrightarrow> map fst (tasks d') = map fst (tasks d) \<and> map fst (jobs d') = map fst (jobs d)
     \<and> (\<forall>k. rel_option evolves (row (tasks d) k) (row (tasks d') k))
     \<and> (\<forall>k. rel_option job_evolves (row (jobs d) k) (row (jobs d') k))
     \<and> list_all2 attempt_kept (attempts d) (attempts d')
     \<and> retirements d' = retirements d \<and> links d' = links d
     \<and> map run_key (brief_runs d') = map run_key (brief_runs d) \<and> counters_of (chain_generations d') = counters_of (chain_generations d)"

lemma rel_option_trans:
  "(\<And>x y z. R x y \<Longrightarrow> R y z \<Longrightarrow> R x z) \<Longrightarrow> rel_option R a b \<Longrightarrow> rel_option R b c \<Longrightarrow> rel_option R a c"
  by (cases a; cases b; cases c) auto

lemma rel_option_self [simp, intro]: "(\<And>x. R x x) \<Longrightarrow> rel_option R a a"
  by (cases a) auto

lemma updates_refl [simp, intro]: "updates d d"
  by (auto simp: updates_def list_all2_refl)

lemma updates_trans [trans]: "updates a b \<Longrightarrow> updates b c \<Longrightarrow> updates a c"
  unfolding updates_def
  by (elim conjE, intro conjI allI)
    (auto intro: rel_option_trans[OF evolves_trans] rel_option_trans[OF job_evolves_trans]
      list_all2_trans[OF attempt_kept_trans])

lemma rows_update_where:
  "(\<And>k r. row t k = Some r \<Longrightarrow> P k r \<Longrightarrow> R r (f r)) \<Longrightarrow> (\<And>r. R r r)
     \<Longrightarrow> rel_option R (row t k) (row (update_where P f t) k)"
  by (cases "row t k") auto

lemma rel_option_Some_iff: "rel_option R (Some x) b \<longleftrightarrow> (\<exists>y. b = Some y \<and> R x y)"
  by (cases b) auto

lemma updatesI:
  assumes "map fst (tasks d') = map fst (tasks d)" "map fst (jobs d') = map fst (jobs d)"
    "retirements d' = retirements d" "links d' = links d"
    "\<And>k. rel_option evolves (row (tasks d) k) (row (tasks d') k)"
    "\<And>k. rel_option job_evolves (row (jobs d) k) (row (jobs d') k)"
    "list_all2 attempt_kept (attempts d) (attempts d')"
    "map run_key (brief_runs d') = map run_key (brief_runs d)" "counters_of (chain_generations d') = counters_of (chain_generations d)"
  shows "updates d d'"
  using assms by (simp add: updates_def)

text \<open>Operations that touch none of the three tables.\<close>

lemma updates_frame:
  "tasks d' = tasks d \<Longrightarrow> jobs d' = jobs d \<Longrightarrow> attempts d' = attempts d
     \<Longrightarrow> retirements d' = retirements d \<Longrightarrow> links d' = links d \<Longrightarrow> brief_runs d' = brief_runs d
     \<Longrightarrow> counters_of (chain_generations d') = counters_of (chain_generations d) \<Longrightarrow> updates d d'"
  by (auto simp: updates_def list_all2_refl)

lemma kept_close [intro]: "list_all2 attempt_kept as (close_attempts E P out now as)"
  by (induction as) (auto simp: close_attempts_def attempt_kept_def)

lemma kept_end [intro]: "list_all2 attempt_kept as (end_attempts P out now as)"
  by (induction as) (auto simp: end_attempts_def attempt_kept_def)

lemma kept_refl [simp, intro]: "list_all2 attempt_kept as as"
  by (auto simp: list_all2_refl)

section \<open>The operations that update\<close>

lemma updates_bump [simp, intro]: "updates d (bump a b d)"
  by (rule updates_frame) simp_all

lemma updates_log [simp, intro]: "updates d (log_transition_in E j k e m n d)"
  by (rule updates_frame) simp_all

lemma updates_complete [intro]: "updates d (complete_in E ct h now d)"
  by (rule updatesI) (auto simp: complete_in_task evolves_def split: option.splits)

lemma updates_rollup [intro]: "updates d (rollup_in E j d)"
proof -
  from rollup_in_job[of E j d] obtain f where
    "row (jobs (rollup_in E j d)) = (\<lambda>k. map_option (\<lambda>r. if k = j then f r else r) (row (jobs d) k))"
    "\<forall>r. j_state (f r) = j_state r \<and> j_kind (f r) = j_kind r \<and> j_root (f r) = j_root r
       \<and> j_parent (f r) = j_parent r \<and> j_ancestors (f r) = j_ancestors r
       \<and> j_cancel_requested (f r) = j_cancel_requested r \<and> j_stopped (f r) = j_stopped r
       \<and> j_created_at (f r) = j_created_at r \<and> j_operation (f r) = j_operation r" by blast
  then show ?thesis
    by (intro updatesI) (auto simp: option_rel_Some1 option.rel_map job_evolves_def
      intro!: option.rel_refl)
qed

lemma updates_tasks:
  assumes "\<And>k t. row (tasks d) k = Some t \<Longrightarrow> P k t \<Longrightarrow> evolves t (f t)"
    and "tasks d' = update_where P f (tasks d)" "jobs d' = jobs d" "retirements d' = retirements d"
    "links d' = links d" "list_all2 attempt_kept (attempts d) (attempts d')"
    "map run_key (brief_runs d') = map run_key (brief_runs d)" "counters_of (chain_generations d') = counters_of (chain_generations d)"
  shows "updates d d'"
  by (rule updatesI) (use assms in \<open>auto intro!: rows_update_where simp del: row_update_where\<close>)

lemma updates_jobs:
  assumes "\<And>k r. row (jobs d) k = Some r \<Longrightarrow> P k r \<Longrightarrow> job_evolves r (f r)"
    and "jobs d' = update_where P f (jobs d)" "tasks d' = tasks d" "retirements d' = retirements d"
    "links d' = links d" "list_all2 attempt_kept (attempts d) (attempts d')"
    "map run_key (brief_runs d') = map run_key (brief_runs d)" "counters_of (chain_generations d') = counters_of (chain_generations d)"
  shows "updates d d'"
  by (rule updatesI) (use assms in \<open>auto intro!: rows_update_where simp del: row_update_where\<close>)

lemma settled_terminal: "(if b then ''failed'' else ''completed'') \<in> set TERMINAL"
  by (simp add: TERMINAL_def)

lemma updates_settle_finished [intro]: "updates d (snd (settle_finished_job_in E c j (b, d)))"
proof -
  let ?ts = "tasks_of_job d j"
  let ?s = "if list_ex (\<lambda>(i, t). t_state t = ''failed'') ?ts then ''failed'' else ''completed''"
  let ?d1 = "rollup_in E j d"
  let ?d2 = "?d1\<lparr>jobs := update_where (\<lambda>i r. i = j \<and> j_state r \<in> {''running'', ''active'', ''queued''})
              (\<lambda>r. r\<lparr>j_state := ?s,
                 j_finished_at := (case j_finished_at r of None \<Rightarrow> Some c | f \<Rightarrow> f),
                 j_updated_at := c\<rparr>) (jobs ?d1),
            brief_runs := update_where (\<lambda>i b. b_job b = j \<and> b_state b = ''active'')
              (\<lambda>b. b\<lparr>b_state := ?s, b_updated_at := c\<rparr>) (brief_runs ?d1)\<rparr>"
  have "updates ?d1 ?d2"
    by (rule updates_jobs[where P = "\<lambda>i r. i = j \<and> j_state r \<in> {''running'', ''active'', ''queued''}"
        and f = "\<lambda>r. r\<lparr>j_state := ?s,
                 j_finished_at := (case j_finished_at r of None \<Rightarrow> Some c | f \<Rightarrow> f),
                 j_updated_at := c\<rparr>"]) (use settled_terminal in \<open>auto simp: job_evolves_def\<close>)
  then have "updates d ?d2" using updates_rollup updates_trans by blast
  then show ?thesis
    by (simp add: settle_finished_job_in_def Let_def)
qed

lemma updates_settle_finished_job:
  "settle_finished_job E c j d = Inr (r, d') \<Longrightarrow> updates d d'"
  using updates_settle_finished[of d E c j False] by (simp add: settle_finished_job_def)

lemma updates_settle_rounds [intro]: "updates d (settle_rounds n now j d)"
proof (induction n now j d rule: settle_rounds.induct)
  case (2 n now j d)
  let ?blocked = "ids_where (\<lambda>i t. blocked_task d j t) (tasks d)"
  let ?d1 = "d\<lparr>tasks := update_where (\<lambda>i t. i \<in> set ?blocked \<and> t_state t = ''queued'')
        (\<lambda>t. t\<lparr>t_state := ''cancelled'', t_finished_at := Some now, t_updated_at := now\<rparr>) (tasks d)\<rparr>"
  have "updates d ?d1"
    by (rule updates_tasks[where P = "\<lambda>i t. i \<in> set ?blocked \<and> t_state t = ''queued''" and
        f = "\<lambda>t. t\<lparr>t_state := ''cancelled'', t_finished_at := Some now, t_updated_at := now\<rparr>"])
      (auto simp: evolves_def)
  with 2 show ?case by (auto simp: Let_def intro: updates_trans)
qed simp

lemma updates_settle_blocked: "settle_blocked_job E c j d = Inr (r, d') \<Longrightarrow> updates d d'"
  using updates_trans[OF updates_settle_rounds updates_settle_finished]
  unfolding settle_blocked_job_def by (metis snd_conv sum.inject(2))

lemma updates_settle_each [intro]: "updates d (settle_each E c js d)"
proof (induction E c js d rule: settle_each.induct)
  case (2 E c j js d)
  then show ?case using updates_settle_finished updates_trans by fastforce
qed simp

lemma updates_requeue_running [intro]:
  "updates d (requeue_running_in E i root e r out now oe d)"
proof (rule updatesI)
  fix k show "rel_option evolves (row (tasks d) k)
      (row (tasks (requeue_running_in E i root e r out now oe d)) k)"
    by (cases "row (tasks d) k") (auto simp: requeue_running_task requeue_task_def evolves_def)
qed auto

lemma updates_requeue_all [intro]: "updates d (requeue_all E out now oe xs d)"
proof (induction E out now oe xs d rule: requeue_all.induct)
  case (2 E out now oe i t rest d)
  then show ?case using updates_requeue_running updates_trans by fastforce
qed simp

lemma cancel_task_evolves [simp, intro]: "evolves t (cancel_task now t)"
  by (simp add: evolves_def cancel_task_def)

lemma runs_cancel_one: "map run_key (brief_runs (cancel_one_in E j now d)) = map run_key (brief_runs d)"
  by (simp add: cancel_one_in_def Let_def)

lemma kept_cancel_one: "list_all2 attempt_kept (attempts d) (attempts (cancel_one_in E j now d))"
  by (auto simp: cancel_one_in_def Let_def)

lemma updates_cancel_one [intro]: "updates d (cancel_one_in E j now d)"
proof (rule updatesI)
  fix k
  show "rel_option evolves (row (tasks d) k) (row (tasks (cancel_one_in E j now d)) k)"
    by (cases "row (tasks d) k") (auto simp: cancel_one_task)
  from cancel_one_job[of E j now d] obtain f where f:
    "row (jobs (cancel_one_in E j now d)) = (\<lambda>k. map_option (\<lambda>r. if k = j then f r else r) (row (jobs d) k))"
    "\<forall>r. j_state (f r) = (if j_state r \<in> set TERMINAL then j_state r else ''cancelled'')
       \<and> j_kind (f r) = j_kind r \<and> j_root (f r) = j_root r
       \<and> j_parent (f r) = j_parent r \<and> j_ancestors (f r) = j_ancestors r
       \<and> j_cancel_requested (f r) \<and> j_stopped (f r) \<and> j_created_at (f r) = j_created_at r
       \<and> j_operation (f r) = j_operation r" by blast
  then have "job_evolves r (f r)" for r by (simp add: job_evolves_def)
  then show "rel_option job_evolves (row (jobs d) k) (row (jobs (cancel_one_in E j now d)) k)"
    by (cases "row (jobs d) k") (auto simp: f(1))
qed (simp_all add: kept_cancel_one runs_cancel_one)

lemma updates_cancel_each [intro]: "updates d (cancel_each E js now d)"
proof (induction E js now d rule: cancel_each.induct)
  case (2 E j js now d)
  then show ?case using updates_cancel_one updates_trans by fastforce
qed simp

lemma superseded_terminal: "''superseded'' \<in> set TERMINAL"
  by (simp add: TERMINAL_def)

lemma updates_supersede [intro]: "updates d (supersede_run now j d)"
proof (rule updatesI)
  fix k
  show "rel_option evolves (row (tasks d) k) (row (tasks (supersede_run now j d)) k)"
    by (cases "row (tasks d) k") (auto simp: supersede_tasks)
  show "rel_option job_evolves (row (jobs d) k) (row (jobs (supersede_run now j d)) k)"
    by (cases "row (jobs d) k") (auto simp: supersede_run_def job_evolves_def superseded_terminal)
  show "map run_key (brief_runs (supersede_run now j d)) = map run_key (brief_runs d)"
    by (simp add: supersede_run_def)
qed simp_all

lemma updates_before_next [intro]: "updates d (before_next now a d)"
proof -
  have g: "updates d (chain_guarded a d)"
    by (rule updates_frame) (simp_all add: chain_guarded_def chain_counter_of)
  have "updates (chain_guarded a d) (supersede_run now j (bump x y (chain_guarded a d)))" for j x y
    using updates_bump updates_supersede updates_trans by blast
  with g show ?thesis
    unfolding before_next_def by (auto split: option.splits intro: updates_trans)
qed

section \<open>Fenced endings\<close>

lemma updates_end_task:
  assumes "\<And>t. t_job (f t) = t_job t \<and> t_root (f t) = t_root t \<and> t_pool (f t) = t_pool t
      \<and> t_deps (f t) = t_deps t \<and> t_operation (f t) = t_operation t
      \<and> t_lease_epoch (f t) = t_lease_epoch t \<and> t_state (f t) \<noteq> ''running''"
  shows "updates d (end_task ct f out now d)"
proof (rule updates_tasks[where P = "\<lambda>k _. k = ct_id ct" and
    f = "\<lambda>t. f (t\<lparr>t_lease_owner := [], t_process_owner := [], t_lease_until := None\<rparr>)"])
  fix t show "evolves t (f (t\<lparr>t_lease_owner := [], t_process_owner := [], t_lease_until := None\<rparr>))"
    using assms by (simp add: evolves_def)
qed (auto simp: end_task_def)

lemma updates_fenced:
  assumes "fenced ct now act d = Inr (b, d')" and "\<And>d. updates d (act d)"
  shows "updates d d'"
proof -
  let ?d = "bump ''job_guard'' (ct_root_id ct) d"
  from assms(1) have "d' = ?d \<or> d' = act ?d"
    by (auto simp: fenced_def Let_def split: option.splits if_splits)
  with assms(2)[of ?d] show ?thesis using updates_trans[OF updates_bump] by auto
qed

lemma updates_fail_stage: "fail_stage ct c m now d = Inr (b, d') \<Longrightarrow> updates d d'"
  unfolding fail_stage_def by (rule updates_fenced, assumption, rule updates_end_task) simp

lemma updates_end_summary:
  "end_summary E ct state h now d = Inr (b, d') \<Longrightarrow> state \<noteq> ''running'' \<Longrightarrow> updates d d'"
  unfolding end_summary_def
  by (rule updates_fenced, assumption) (auto intro!: updates_end_task)

lemma ending_not_running: "fst (ending_state e) \<noteq> ''running''"
  by (cases e) (simp_all add: ending_state_def)

lemma updates_end_refresh: "end_refresh ct e m now d = Inr (b, d') \<Longrightarrow> updates d d'"
proof -
  assume r: "end_refresh ct e m now d = Inr (b, d')"
  obtain state out where s: "ending_state e = (state, out)" by (cases "ending_state e")
  have n: "state \<noteq> ''running''" using ending_not_running[of e] s by simp
  let ?f = "\<lambda>t. t\<lparr>t_state := state, t_next_eligible_at := now,
            t_attempts := (if e = Blocked then max (t_attempts t - 1) 0 else t_attempts t),
            t_finished_at := (if e = Superseded \<or> e = Failed_Ending then Some now else None),
            t_updated_at := now\<rparr>"
  have "updates x (end_task ct ?f out now x)" for x
    by (rule updates_end_task) (simp add: n)
  moreover have "updates y (y\<lparr>refresh_notes := ns\<rparr>)" for y ns
    by (rule updates_frame) simp_all
  ultimately have "updates x ((end_task ct ?f out now x)\<lparr>refresh_notes := ns\<rparr>)" for x ns
    using updates_trans by blast
  then show ?thesis
    by (intro updates_fenced[OF r[unfolded end_refresh_def]]) (simp add: s Let_def)
qed

lemma updates_end_scope: "end_scope E h ct ok out now d = Inr (b, d') \<Longrightarrow> updates d d'"
  unfolding end_scope_def
proof (rule updates_fenced, assumption)
  fix x
  have "updates y (y\<lparr>scope_results := ns\<rparr>)" for y ns
    by (rule updates_frame) simp_all
  then have "updates x ((complete_in E ct (h out) now x)\<lparr>scope_results := ns\<rparr>)" for ns
    using updates_complete updates_trans by blast
  then show "updates x (if ok then let d1 = complete_in E ct (h out) now x
         in d1\<lparr>scope_results := update_one (ct_id ct) (\<lambda>_. out) (scope_results d1)\<rparr>
      else end_task ct (\<lambda>t. t\<lparr>t_state := (if t_attempts t \<ge> 3 then ''failed'' else ''queued''),
          t_next_eligible_at := now + seconds 30,
          t_finished_at := (if t_attempts t \<ge> 3 then Some now else None),
          t_updated_at := now\<rparr>) ''failed'' now x)"
    by (auto simp: Let_def intro!: updates_end_task split: if_splits)
qed

lemma updates_commit:
  assumes "commit_stage E ct out h now clock op d = Inr (r, d')"
  shows "updates d d'"
proof -
  let ?d = "bump ''job_guard'' (ct_root_id ct) d"
  have bump: "updates d ?d" by (rule updates_bump)
  have pub: "updates ?d (snd (settle_finished_job_in E clock j (b, d3)))"
    if w: "write_receipt op k t e now (complete_in E ct h now (?d\<lparr>stage_outputs := so\<rparr>)) = Inr d3"
    for j b d3 so k t e
  proof -
    have "updates ?d (?d\<lparr>stage_outputs := so\<rparr>)" by (rule updates_frame) simp_all
    also have "updates \<dots> (complete_in E ct h now (?d\<lparr>stage_outputs := so\<rparr>))" by (rule updates_complete)
    also have "updates \<dots> d3" using w by (intro updates_frame) (auto simp: write_receipt_Inr)
    also have "updates \<dots> (snd (settle_finished_job_in E clock j (b, d3)))"
      by (rule updates_settle_finished)
    finally show ?thesis .
  qed
  from assms have "d' = ?d \<or> updates ?d d'"
    by (auto simp: commit_stage_def Let_def split: option.splits if_splits sum.splits dest: pub)
  with bump show ?thesis using updates_trans by blast
qed

lemma updates_publish:
  assumes "publish_neighborhood E ct body route h now d = Inr (r, d')"
  shows "updates d d'"
proof -
  let ?d = "bump ''job_guard'' (ct_root_id ct) d"
  have "updates ?d (complete_in E ct h now (?d\<lparr>neighborhoods := ns\<rparr>))" for ns
    using updates_trans[OF updates_frame updates_complete] by simp
  moreover have "d' = ?d \<or> (\<exists>ns. d' = complete_in E ct h now (?d\<lparr>neighborhoods := ns\<rparr>))"
    using assms by (auto simp: publish_neighborhood_def Let_def split: option.splits if_splits)
  ultimately show ?thesis using updates_trans[OF updates_bump] by fastforce
qed

lemma updates_renew: "renew_lease ct secs now d = Inr (b, d') \<Longrightarrow> updates d d'"
  by (rule updates_tasks[where P = "\<lambda>i t. i = ct_id ct \<and> t_state t = ''running''
        \<and> t_lease_owner t = ct_lease_owner ct \<and> t_lease_epoch t = ct_lease_epoch ct" and
        f = "\<lambda>t. t\<lparr>t_lease_until := Some (now + seconds secs), t_heartbeat_at := Some now,
               t_updated_at := now\<rparr>"])
    (auto simp: renew_lease_def Let_def evolves_def)

section \<open>Recovery, finalization, stopping\<close>

lemma updates_interrupt: "interrupt_expired_leases E now d = Inr (n, d') \<Longrightarrow> updates d d'"
  using updates_trans[OF updates_bump updates_requeue_all]
  by (auto simp: interrupt_expired_leases_def Let_def)

lemma updates_recover: "recover_orphans E me now d = Inr (rec, d') \<Longrightarrow> updates d d'"
proof -
  assume r: "recover_orphans E me now d = Inr (rec, d')"
  have "updates y (y\<lparr>processes := ps\<rparr>)" for y ps
    by (rule updates_frame) simp_all
  then have "updates d ((requeue_all E o1 now False xs (bump a b d))\<lparr>processes := ps\<rparr>)" for o1 xs a b ps
    using updates_trans[OF updates_trans[OF updates_bump updates_requeue_all]] by blast
  with r show ?thesis
    by (auto simp: recover_orphans_def Let_def split: if_splits)
qed

lemma updates_finalize:
  assumes "finalize_job E j lo state now d = Inr (f, d')" "state \<in> set TERMINAL"
  shows "updates d d'"
proof -
  from assms(1) obtain r where "row (jobs d) j = Some r"
    by (auto simp: finalize_job_def split: option.splits)
  let ?d = "bump ''job_guard'' (j_root r) d"
  let ?w = "?d\<lparr>jobs := update_where (\<lambda>i x. i = j \<and> j_state x \<notin> set TERMINAL)
        (\<lambda>x. x\<lparr>j_state := state, j_finished_at := Some now, j_updated_at := now\<rparr>) (jobs d)\<rparr>"
  have "updates ?d ?w"
    by (rule updates_jobs[where P = "\<lambda>i x. i = j \<and> j_state x \<notin> set TERMINAL" and
       f = "\<lambda>x. x\<lparr>j_state := state, j_finished_at := Some now, j_updated_at := now\<rparr>"])
      (use assms(2) in \<open>auto simp: job_evolves_def\<close>)
  then have "updates d (rollup_in E j ?w)"
    using updates_trans[OF updates_bump] updates_rollup updates_trans by blast
  moreover from assms(1) \<open>row (jobs d) j = Some r\<close> have "d' = ?d \<or> d' = rollup_in E j ?w"
    unfolding finalize_job_def Let_def
    by (simp split: if_splits option.splits)
  ultimately show ?thesis using updates_bump by blast
qed

lemma updates_stop_begin: "stop_begin j now d = Inr (root, d') \<Longrightarrow> updates d d'"
proof -
  assume r: "stop_begin j now d = Inr (root, d')"
  then obtain x where d': "d' = (bump ''job_guard'' root d)\<lparr>jobs := update_where
          (\<lambda>i x. i = j \<and> j_kind x \<noteq> ''service'')
          (\<lambda>x. x\<lparr>j_cancel_requested := True, j_phase := ''Stopped by user'', j_updated_at := now\<rparr>)
          (jobs d)\<rparr>"
    by (auto simp: stop_begin_def split: option.splits)
  show ?thesis
    by (rule updates_jobs[where P = "\<lambda>i x. i = j \<and> j_kind x \<noteq> ''service''" and f =
       "\<lambda>x. x\<lparr>j_cancel_requested := True, j_phase := ''Stopped by user'', j_updated_at := now\<rparr>"])
      (auto simp: d' job_evolves_def)
qed

lemma updates_stop_batch: "stop_batch E j root now n d = Inr (r, d') \<Longrightarrow> updates d d'"
  using updates_trans[OF updates_bump updates_cancel_each]
  by (auto simp: stop_batch_def Let_def)

lemma updates_beat: "beat owner pid now d = Inr (u, d') \<Longrightarrow> updates d d'"
  by (rule updates_frame) (auto simp: beat_def)

lemma updates_try_elect: "try_elect owner secs now d = Inr (e, d') \<Longrightarrow> updates d d'"
  by (rule updates_frame) (auto simp: try_elect_def Let_def split: option.splits if_splits)

section \<open>Claims, creations and purges as changes\<close>

lemma claim_pages_None_db:
  "claim_pages E pool tid owner secs now op slot page left d = Inr (None, d') \<Longrightarrow> d' = d"
proof (induction left arbitrary: page)
  case (Suc left)
  let ?cs = "claim_page pool tid now page d"
  show ?case
  proof (cases "?cs = []")
    case False
    with Suc.prems obtain d1
      where first: "claim_first E owner secs now op (claim_order ?cs slot) d = Inr (None, d1)"
        and more: "claim_pages E pool tid owner secs now op slot (Suc page) left d1 = Inr (None, d')"
      by (auto simp: Let_def split: sum.splits option.splits prod.splits)
    from claim_first_None[OF first] have "d1 = d" by blast
    with Suc.IH more show ?thesis by simp
  qed (use Suc.prems in simp)
qed simp

text \<open>A claim: one queued stage runs under a new epoch, with one new attempt of that epoch.\<close>

definition claims :: "db \<Rightarrow> db \<Rightarrow> bool" where
  "claims d d' \<longleftrightarrow> (\<exists>E owner secs now k t ct.
     row (tasks d) k = Some t \<and> t_state t = ''queued''
     \<and> tasks d' = update_where (\<lambda>i t. i = k \<and> t_state t = ''queued'') (start_running E owner secs now) (tasks d)
     \<and> load_task d' k = Some ct \<and> ct_id ct = k \<and> attempts d' = attempts d @ [new_attempt ct owner now]
     \<and> jobs d' = jobs d \<and> retirements d' = retirements d \<and> links d' = links d
     \<and> brief_runs d' = brief_runs d \<and> chain_generations d' = chain_generations d)"

lemma claim_in_change:
  assumes "keyed (tasks d)" and "claim_in E pool tid owner secs now op slot d = Inr (r, d')"
  shows "updates d d' \<or> claims d d'"
proof -
  let ?d = "bump ''pool_guard'' (encode [pool, nat_str (claim_shard owner)]) d"
  show ?thesis
  proof (cases "row (receipts d) op")
    case (Some x)
    with assms(2) have "d' = ?d"
      by (auto simp: claim_in_def Let_def receipt_of_def split: if_splits)
    then show ?thesis by simp
  next
    case None
    note pages = assms(2)[unfolded claim_in_pages[OF None]]
    show ?thesis
    proof (cases r)
      case r: None
      with claim_pages_None_db[OF pages[unfolded r]] show ?thesis by simp
    next
      case (Some ct)
      have kb: "keyed (tasks ?d)" using assms(1) by simp
      from pages[unfolded Some] obtain c where one: "claim_one E owner secs now op c ?d = Inr (Some ct, d')"
        by (rule claim_pages_SomeE) simp
      from one have "claims d d'"
      proof (rule claim_one_SomeE[OF kb])
        fix t
        assume t: "row (tasks ?d) (c_id c) = Some t" "t_state t = ''queued''"
          and T: "tasks d' = update_where (\<lambda>i t. i = c_id c \<and> t_state t = ''queued'')
             (start_running E owner secs now) (tasks ?d)"
          and L: "load_task d' (c_id c) = Some ct"
          and A: "attempts d' = attempts ?d @ [new_attempt ct owner now]"
          and F: "jobs d' = jobs ?d" "links d' = links ?d" "retirements d' = retirements ?d"
            "brief_runs d' = brief_runs ?d" "chain_generations d' = chain_generations ?d"
        have "ct_id ct = c_id c" using L by (auto simp: load_task_def)
        with t T L A F show "claims d d'"
          unfolding claims_def bump_frame by blast
      qed
      then show ?thesis by blast
    qed
  qed
qed

text \<open>A creation: new jobs and queued stages, old rows unchanged.\<close>

definition creates :: "db \<Rightarrow> db \<Rightarrow> bool" where
  "creates d d' \<longleftrightarrow> attempts d' = attempts d \<and> retirements d' = retirements d
     \<and> (\<forall>k t. row (tasks d) k = Some t \<longrightarrow> row (tasks d') k = Some t)
     \<and> (\<forall>k r. row (jobs d) k = Some r \<longrightarrow> row (jobs d') k = Some r)
     \<and> (\<forall>k t. row (tasks d) k = None \<and> row (tasks d') k = Some t \<longrightarrow>
          t_state t = ''queued'' \<and> t_lease_epoch t = 0 \<and> t_recoveries t = 0
          \<and> (\<exists>j. row (jobs d') (t_job t) = Some j \<and> t_root t = j_root j))
     \<and> (\<forall>k j. row (jobs d) k = None \<and> row (jobs d') k = Some j \<longrightarrow>
          j_parent j = None \<longrightarrow> j_root j = k)
     \<and> (keyed (tasks d) \<longrightarrow> keyed (tasks d')) \<and> (keyed (jobs d) \<longrightarrow> keyed (jobs d'))"

lemma create_creates:
  assumes "create_job_in E n d = Inr d1" and "create_tasks_in ts d1 = Inr d2"
  shows "creates d d2"
proof -
  note job = create_job_in_Inr[OF assms(1)] and tasks = create_tasks_in_Inr[OF assms(2)]
  from tasks have d2: "d2 = d1\<lparr>tasks := tasks d2\<rparr>" by blast
  have f: "jobs d2 = jobs d1" "attempts d2 = attempts d1" "retirements d2 = retirements d1"
    by (subst d2, simp)+
  from job[THEN conjunct2, THEN conjunct1] obtain j where j0: "jobs d1 = put (nj_id n) j (jobs d)"
    "nj_parent n = None \<longrightarrow> j_root j = nj_id n" "j_parent j = nj_parent n" by (elim exE conjE) simp
  note j = j0(1) job[THEN conjunct1] j0(2,3)
  have t1: "tasks d1 = tasks d" using job by blast
  have new: "t_state t = ''queued'' \<and> t_lease_epoch t = 0 \<and> t_recoveries t = 0
      \<and> (\<exists>j. row (jobs d2) (t_job t) = Some j \<and> t_root t = j_root j)"
    if "row (tasks d) k = None" "row (tasks d2) k = Some t" for k t
  proof -
    have "k \<in> nt_id ` set ts"
    proof (rule ccontr)
      assume "k \<notin> nt_id ` set ts"
      then have "row (tasks d2) k = row (tasks d1) k" using tasks by blast
      with that t1 show False by simp
    qed
    then obtain m where m: "m \<in> set ts" "nt_id m = k" by auto
    from tasks m(1) obtain jj u where u: "row (jobs d1) (nt_job m) = Some jj"
      "row (tasks d2) (nt_id m) = Some u" "queued_as m u" "t_root u = j_root jj" by blast
    note u = u[unfolded m(2)]
    with that(2) f(1) show ?thesis by (auto simp: queued_as_def)
  qed
  have keep: "row (tasks d2) k = Some t" if "row (tasks d) k = Some t" for k t
  proof -
    have "k \<notin> nt_id ` set ts" using that tasks t1 by fastforce
    then have "row (tasks d2) k = row (tasks d1) k" using tasks by blast
    with that t1 show ?thesis by simp
  qed
  have jkeep: "row (jobs d2) k = Some r" if "row (jobs d) k = Some r" for k r
    using that j(1,2) f(1) by auto
  have jnew: "j_root r = k" if "row (jobs d) k = None" "row (jobs d2) k = Some r" "j_parent r = None" for k r
    using that j f(1) by (auto split: if_splits)
  have k1: "keyed (tasks d) \<longrightarrow> keyed (tasks d2)" using tasks t1 by simp
  have k2: "keyed (jobs d) \<longrightarrow> keyed (jobs d2)" using j(1) f(1) by simp
  have a: "attempts d2 = attempts d" "retirements d2 = retirements d" using job f by simp_all
  show ?thesis
    unfolding creates_def using a keep jkeep new jnew k1 k2 by blast
qed

text \<open>A purge: rows of whole trees are gone, others unchanged.\<close>

definition purges :: "db \<Rightarrow> db \<Rightarrow> bool" where
  "purges d d' \<longleftrightarrow> (\<exists>R. tasks d' = delete_where (\<lambda>i t. t_root t \<in> R) (tasks d)
     \<and> jobs d' = delete_where (\<lambda>i r. j_root r \<in> R) (jobs d)
     \<and> attempts d' = filter (\<lambda>a. a_root a \<notin> R) (attempts d)
     \<and> (\<forall>r. retired d r \<or> r \<in> R \<longleftrightarrow> retired d' r))"

lemma purge_roots_purges:
  assumes "distinct roots" and "purge_roots protect reason now roots (a, b) d = (p, d')"
  shows "purges d d'"
proof -
  obtain a' b' where "p = (a', b')" by (cases p)
  with purge_roots_rows[OF assms(1) assms(2)[unfolded this]] show ?thesis
    unfolding purges_def by (intro exI[of _ "purgeable protect roots d"]) (auto simp: retired_def)
qed

section \<open>The steps\<close>

text \<open>
  One committed transaction. Loops of several transactions (\<open>stop_job\<close>, the sweeps) are several
  steps. The endings that take a state from their caller never name \<open>running\<close>, and a report
  is finalized with a terminal state.
\<close>

inductive job_step :: "env \<Rightarrow> db \<Rightarrow> db \<Rightarrow> bool" for E where
  s_claim: "claim_in E pool tid owner secs now op slot d = Inr (r, d') \<Longrightarrow> job_step E d d'"
| s_renew: "renew_lease ct secs now d = Inr (b, d') \<Longrightarrow> job_step E d d'"
| s_commit: "commit_stage E ct out h now clock op d = Inr (p, d') \<Longrightarrow> job_step E d d'"
| s_publish: "publish_neighborhood E ct body route h now d = Inr (p, d') \<Longrightarrow> job_step E d d'"
| s_fail: "fail_stage ct cat msg now d = Inr (b, d') \<Longrightarrow> job_step E d d'"
| s_summary: "end_summary E ct state h now d = Inr (b, d') \<Longrightarrow> state \<noteq> ''running'' \<Longrightarrow> job_step E d d'"
| s_refresh: "end_refresh ct e msg now d = Inr (b, d') \<Longrightarrow> job_step E d d'"
| s_scope: "end_scope E hash ct ok out now d = Inr (b, d') \<Longrightarrow> job_step E d d'"
| s_settle: "settle_finished_job E clock j d = Inr (b, d') \<Longrightarrow> job_step E d d'"
| s_settle_blocked: "settle_blocked_job E clock j d = Inr (b, d') \<Longrightarrow> job_step E d d'"
| s_sweep: "interrupt_expired_leases E now d = Inr (n, d') \<Longrightarrow> job_step E d d'"
| s_beat: "beat owner pid now d = Inr (u, d') \<Longrightarrow> job_step E d d'"
| s_recover: "recover_orphans E me now d = Inr (rec, d') \<Longrightarrow> job_step E d d'"
| s_finalize: "finalize_job E j lo state now d = Inr (f, d') \<Longrightarrow> state \<in> set TERMINAL \<Longrightarrow> job_step E d d'"
| s_create: "create_job E n ts d = Inr (u, d') \<Longrightarrow> job_step E d d'"
| s_chain: "ensure_chain E article revision stages now d = Inr (c, d') \<Longrightarrow> job_step E d d'"
| s_stop_begin: "stop_begin j now d = Inr (root, d') \<Longrightarrow> job_step E d d'"
| s_stop: "stop_batch E j root now n d = Inr (p, d') \<Longrightarrow> job_step E d d'"
| s_cleanup: "cleanup_batch now d = Inr (n, d') \<Longrightarrow> job_step E d d'"
| s_clear: "clear_batch states now skip d = Inr (p, d') \<Longrightarrow> job_step E d d'"
| s_elect: "try_elect owner secs now d = Inr (e, d') \<Longrightarrow> job_step E d d'"

lemma create_job_creates:
  assumes "create_job E n ts d = Inr (u, d')"
  shows "creates d d' \<and> brief_runs d' = brief_runs d \<and> chain_generations d' = chain_generations d"
proof -
  from assms obtain d1 where one: "create_job_in E n d = Inr d1" and two: "create_tasks_in ts d1 = Inr d'"
    by (auto simp: create_job_def split: sum.splits)
  from create_tasks_in_Inr[OF two] have d': "d' = d1\<lparr>tasks := tasks d'\<rparr>" by blast
  have "brief_runs d' = brief_runs d1 \<and> chain_generations d' = chain_generations d1"
    by (subst d', simp, subst d', simp)
  then show ?thesis
    using create_creates[OF one two] create_job_in_Inr[OF one] by simp
qed

lemma chain_creates:
  assumes "ensure_chain E article revision stages now d = Inr (c, d')"
  shows "\<exists>m. updates d m \<and> (creates m d' \<or> d' = m)"
proof -
  consider "d' = chain_guarded article d"
    | "create_next E article revision stages now (chain_counter d article) (before_next now article d) = Inr (c, d')"
    using assms[unfolded ensure_chain_cases] by (auto split: option.splits if_splits)
  then show ?thesis
  proof cases
    case 1
    have "updates d (chain_guarded article d)"
      by (rule updates_frame) (simp_all add: chain_guarded_def chain_counter_of)
    with 1 show ?thesis by blast
  next
    case 2
    let ?m = "before_next now article d"
    from create_next_Inr[OF 2] obtain ts d1 d2 where
      d1: "create_job_in E \<lparr>nj_id = ch_job_id c, nj_kind = ''task'', nj_operation = POOL_INTEL_BRIEF,
          nj_parent = None, nj_created_at = now\<rparr> ?m = Inr d1" and
      d2: "create_tasks_in ts d1 = Inr d2" and
      d3: "create_run article (chain_counter d article + 1) (ch_job_id c) revision now d2 = Inr d'" by blast
    have "creates ?m d2" by (rule create_creates[OF d1 d2])
    moreover from create_run_Inr[OF d3] have "tasks d' = tasks d2" "jobs d' = jobs d2"
      "attempts d' = attempts d2" "retirements d' = retirements d2" by simp_all
    ultimately have "creates ?m d'" by (simp add: creates_def)
    then show ?thesis using updates_before_next by blast
  qed
qed

lemma roots_bump: "expired_roots c (bump a b d) = expired_roots c d"
  "history_roots s k (bump a b d) = history_roots s k d"
  by (simp_all add: expired_roots_def history_roots_def)

lemma purges_bump: "purges (bump a b d) d' \<Longrightarrow> purges d d'"
  by (simp add: purges_def)

lemma cleanup_purges:
  assumes "keyed (jobs d)" and "cleanup_batch now d = Inr (n, d')"
  shows "\<exists>roots p. distinct roots \<and> purge_roots False ''retention'' now roots (0, 0)
    (bump ''cleanup_guard'' ''singleton'' d) = (p, d')"
proof -
  let ?roots = "expired_roots (now - hours EXECUTION_WINDOW_HOURS) d"
  have "distinct ?roots"
    unfolding expired_roots_def by (intro distinct_take distinct_sorted_ids assms)
  with assms(2) show ?thesis
    by (auto simp: cleanup_batch_def Let_def roots_bump split: prod.splits)
qed

lemma clear_purges:
  assumes "keyed (jobs d)" and "clear_batch states now skip d = Inr (r, d')"
  shows "\<exists>roots p. distinct roots \<and> purge_roots True ''cleared'' now roots (0, 0)
    (bump ''cleanup_guard'' ''singleton'' d) = (p, d')"
proof -
  have "distinct (history_roots states skip d)"
    unfolding history_roots_def by (intro distinct_take distinct_drop distinct_sorted_ids assms)
  with assms(2) show ?thesis
    by (auto simp: clear_batch_def Let_def roots_bump split: prod.splits)
qed

lemma job_step_change:
  assumes "job_step E d d'" and kt: "keyed (tasks d)" and kj: "keyed (jobs d)"
  shows "claims d d' \<or> purges d d' \<or> (\<exists>m. updates d m \<and> (creates m d' \<or> d' = m))"
  using assms(1)
proof (cases rule: job_step.cases)
  case (s_claim pool tid owner secs now op slot r)
  with claim_in_change[OF kt s_claim] show ?thesis by blast
next
  case (s_cleanup now n)
  with cleanup_purges[OF kj s_cleanup] purge_roots_purges purges_bump show ?thesis by blast
next
  case (s_clear states now skip p)
  with clear_purges[OF kj s_clear] purge_roots_purges purges_bump show ?thesis by blast
next
  case (s_create n ts u)
  with create_job_creates[OF s_create] show ?thesis by blast
next
  case (s_chain article revision stages now c)
  with chain_creates[OF s_chain] show ?thesis by blast
qed (blast dest: updates_renew updates_commit updates_publish updates_fail_stage updates_end_summary
      updates_end_refresh updates_end_scope updates_settle_finished_job updates_settle_blocked
      updates_interrupt updates_beat updates_recover updates_finalize updates_stop_begin
      updates_stop_batch updates_try_elect)+

section \<open>The invariant\<close>

text \<open>Every attempt belongs to a stage, and no two attempts of a stage have the same epoch.\<close>

definition attempt_key :: "attempt \<Rightarrow> string \<times> int" where
  "attempt_key a = (a_task a, a_epoch a)"

definition attempts_ok :: "db \<Rightarrow> bool" where
  "attempts_ok d \<longleftrightarrow> distinct (map attempt_key (attempts d))
     \<and> (\<forall>a\<in>set (attempts d). \<exists>t. row (tasks d) (a_task a) = Some t
          \<and> a_root a = t_root t \<and> a_epoch a \<le> t_lease_epoch t)"

definition db_inv :: "db \<Rightarrow> bool" where
  "db_inv d \<longleftrightarrow> keyed (tasks d) \<and> keyed (jobs d) \<and> roots_own d \<and> attempts_ok d"

lemma list_all2_kept_map: "list_all2 attempt_kept as bs \<Longrightarrow> map attempt_key bs = map attempt_key as"
  by (induction rule: list_all2_induct) (auto simp: attempt_kept_def attempt_key_def)

lemma list_all2_kept_mem:
  "list_all2 attempt_kept as bs \<Longrightarrow> b \<in> set bs \<Longrightarrow> \<exists>a\<in>set as. attempt_kept a b"
  by (induction rule: list_all2_induct) auto

lemma roots_ownI:
  assumes "keyed (jobs d)" "\<And>k r. row (jobs d) k = Some r \<Longrightarrow> j_parent r = None \<Longrightarrow> j_root r = k"
  shows "roots_own d"
  using assms by (auto simp: roots_own_def dest: keyed_memD)

lemma roots_ownD: "roots_own d \<Longrightarrow> row (jobs d) k = Some r \<Longrightarrow> j_parent r = None \<Longrightarrow> j_root r = k"
  by (auto simp: roots_own_def dest: map_of_SomeD)

lemma updates_inv:
  assumes u: "updates d d'" and inv: "db_inv d"
  shows "db_inv d'"
proof -
  have k: "keyed (tasks d')" "keyed (jobs d')"
    using u inv by (simp_all add: updates_def db_inv_def keyed_def)
  have roots: "roots_own d'"
  proof (rule roots_ownI[OF k(2)])
    fix i r assume r: "row (jobs d') i = Some r" "j_parent r = None"
    from u have "rel_option job_evolves (row (jobs d) i) (row (jobs d') i)" by (simp add: updates_def)
    with r obtain r0 where "row (jobs d) i = Some r0" "job_evolves r0 r" by (auto simp: option_rel_Some2)
    with r inv show "j_root r = i" by (auto simp: job_evolves_def db_inv_def dest: roots_ownD)
  qed
  from u have kept: "list_all2 attempt_kept (attempts d) (attempts d')" by (simp add: updates_def)
  have "\<exists>t. row (tasks d') (a_task b) = Some t \<and> a_root b = t_root t \<and> a_epoch b \<le> t_lease_epoch t"
    if "b \<in> set (attempts d')" for b
  proof -
    from list_all2_kept_mem[OF kept that] obtain a where a: "a \<in> set (attempts d)" "attempt_kept a b" ..
    with inv obtain t where t: "row (tasks d) (a_task a) = Some t" "a_root a = t_root t"
      "a_epoch a \<le> t_lease_epoch t" by (auto simp: db_inv_def attempts_ok_def)
    from u have "rel_option evolves (row (tasks d) (a_task a)) (row (tasks d') (a_task a))"
      by (simp add: updates_def)
    with t a(2) show ?thesis by (auto simp: option_rel_Some1 evolves_def attempt_kept_def)
  qed
  with k roots list_all2_kept_map[OF kept] inv show ?thesis
    by (simp add: db_inv_def attempts_ok_def)
qed

lemma claims_inv:
  assumes c: "claims d d'" and inv: "db_inv d"
  shows "db_inv d'"
proof -
  from c obtain E owner secs now k t ct where
    t: "row (tasks d) k = Some t" "t_state t = ''queued''" and
    T: "tasks d' = update_where (\<lambda>i t. i = k \<and> t_state t = ''queued'') (start_running E owner secs now) (tasks d)" and
    L: "load_task d' k = Some ct" "ct_id ct = k" and
    A: "attempts d' = attempts d @ [new_attempt ct owner now]" and J: "jobs d' = jobs d"
    unfolding claims_def by blast
  have rows: "row (tasks d') i = (if i = k then Some (start_running E owner secs now t) else row (tasks d) i)" for i
    using t by (auto simp: T map_option_case split: option.splits)
  from L rows[of k] have ct: "ct_root_id ct = t_root t" "ct_lease_epoch ct = t_lease_epoch t + 1"
    by (auto simp: load_task_def start_running_def)
  have old: "\<exists>u. row (tasks d) (a_task a) = Some u \<and> a_root a = t_root u \<and> a_epoch a \<le> t_lease_epoch u"
    if "a \<in> set (attempts d)" for a
    using inv that by (auto simp: db_inv_def attempts_ok_def)
  have "\<exists>u. row (tasks d') (a_task a) = Some u \<and> a_root a = t_root u \<and> a_epoch a \<le> t_lease_epoch u"
    if "a \<in> set (attempts d')" for a
    using that old[of a] ct L(2) t(1) by (auto simp: A rows new_attempt_def start_running_def split: if_splits)
  moreover have "attempt_key (new_attempt ct owner now) \<notin> attempt_key ` set (attempts d)"
  proof
    assume "attempt_key (new_attempt ct owner now) \<in> attempt_key ` set (attempts d)"
    then obtain a where "a \<in> set (attempts d)" "a_task a = k" "a_epoch a = t_lease_epoch t + 1"
      using ct L(2) by (auto simp: attempt_key_def new_attempt_def)
    with old[of a] t(1) show False by auto
  qed
  moreover have "keyed (tasks d')" using inv by (simp add: T db_inv_def)
  ultimately show ?thesis
    using inv by (simp add: db_inv_def attempts_ok_def A J roots_own_def)
qed

lemma purges_inv:
  assumes p: "purges d d'" and inv: "db_inv d"
  shows "db_inv d'"
proof -
  from p obtain R where T: "tasks d' = delete_where (\<lambda>i t. t_root t \<in> R) (tasks d)"
    and J: "jobs d' = delete_where (\<lambda>i r. j_root r \<in> R) (jobs d)"
    and A: "attempts d' = filter (\<lambda>a. a_root a \<notin> R) (attempts d)"
    unfolding purges_def by blast
  have k: "keyed (tasks d)" using inv by (simp add: db_inv_def)
  have "\<exists>u. row (tasks d') (a_task a) = Some u \<and> a_root a = t_root u \<and> a_epoch a \<le> t_lease_epoch u"
    if "a \<in> set (attempts d')" for a
    using that inv by (auto simp: A T row_delete_where[OF k] db_inv_def attempts_ok_def)
  moreover have "distinct (map attempt_key (attempts d'))"
    using inv by (simp add: A db_inv_def attempts_ok_def distinct_map_filter)
  moreover have "roots_own d'"
    using inv by (auto simp: J roots_own_def delete_where_def db_inv_def)
  ultimately show ?thesis
    using inv by (simp add: db_inv_def attempts_ok_def T J)
qed

lemma creates_inv:
  assumes c: "creates d d'" and inv: "db_inv d"
  shows "db_inv d'"
proof -
  have k: "keyed (tasks d')" "keyed (jobs d')" using c inv by (simp_all add: creates_def db_inv_def)
  have "roots_own d'"
  proof (rule roots_ownI[OF k(2)])
    fix i r assume r: "row (jobs d') i = Some r" "j_parent r = None"
    show "j_root r = i"
    proof (cases "row (jobs d) i")
      case None
      with c r show ?thesis by (simp add: creates_def)
    next
      case (Some r0)
      with c r have "r0 = r" by (simp add: creates_def)
      with Some r inv show ?thesis by (auto simp: db_inv_def dest: roots_ownD)
    qed
  qed
  moreover have "\<exists>u. row (tasks d') (a_task a) = Some u \<and> a_root a = t_root u \<and> a_epoch a \<le> t_lease_epoch u"
    if "a \<in> set (attempts d)" for a
    using that inv c by (auto simp: db_inv_def attempts_ok_def creates_def)
  ultimately show ?thesis
    using k inv c by (auto simp: db_inv_def attempts_ok_def creates_def)
qed

lemma job_step_inv: "db_inv d \<Longrightarrow> job_step E d d' \<Longrightarrow> db_inv d'"
proof -
  assume inv: "db_inv d" and st: "job_step E d d'"
  have k: "keyed (tasks d)" "keyed (jobs d)" using inv by (simp_all add: db_inv_def)
  from job_step_change[OF st k] show ?thesis
    using claims_inv purges_inv updates_inv creates_inv inv by blast
qed

interpretation job_sys: step_system "\<lambda>d. d = empty_db" "job_step E" db_inv for E
proof
  show "db_inv d" if "d = empty_db" for d
    using that by (simp add: db_inv_def attempts_ok_def roots_own_def empty_db_def)
qed (rule job_step_inv)

text \<open>The counters of the brief chains, too, are kept by every step.\<close>

lemma map_run_keyD:
  assumes "map run_key xs = map run_key ys" "(k, b) \<in> set xs"
  shows "\<exists>b0. (k, b0) \<in> set ys \<and> b_article b0 = b_article b \<and> b_generation b0 = b_generation b"
proof -
  from assms(2) have "run_key (k, b) \<in> set (map run_key xs)" by (auto simp del: split_paired_All)
  then have "run_key (k, b) \<in> run_key ` set ys" unfolding assms(1) by simp
  then show ?thesis by (auto simp: run_key_def)
qed

lemma map_run_key_keys: "map run_key xs = map run_key ys \<Longrightarrow> map fst xs = map fst ys"
proof -
  assume "map run_key xs = map run_key ys"
  then have "map fst (map run_key xs) = map fst (map run_key ys)" by (rule arg_cong)
  moreover have "fst \<circ> run_key = fst" by (auto simp: fun_eq_iff run_key_def)
  ultimately show ?thesis by (simp only: map_map)
qed

lemma updates_chains_ok: "updates d d' \<Longrightarrow> chains_ok d \<Longrightarrow> chains_ok d'"
proof -
  assume u: "updates d d'" and ok: "chains_ok d"
  then have m: "map run_key (brief_runs d') = map run_key (brief_runs d)"
    and c: "chain_counter d' = chain_counter d"
    by (simp_all add: updates_def chain_counter_of)
  have "b_generation b \<le> chain_counter d (b_article b)" if "(k, b) \<in> set (brief_runs d')" for k b
    using map_run_keyD[OF m that] ok by (auto simp: chains_ok_def)
  then show ?thesis
    using map_run_key_keys[OF m] ok by (auto simp: chains_ok_def keyed_def c)
qed

lemma purge_roots_chains_ok:
  "chains_ok d \<Longrightarrow> chains_ok (snd (purge_roots protect reason now roots (a, b) d))"
proof (induction roots arbitrary: a b d)
  case (Cons r rs)
  have "chains_ok (purge_tree_in r reason now d)"
  proof -
    have "brief_runs (purge_tree_in r reason now d) = delete_where (\<lambda>i b.
        (case row (jobs d) (b_job b) of Some x \<Rightarrow> j_root x = r | None \<Rightarrow> False)) (brief_runs d)"
      by (simp add: purge_tree_in_def Let_def)
    with Cons.prems show ?thesis
      by (auto simp: chains_ok_def chain_counter_of delete_where_def[of _ "brief_runs d"] keyed_def
        intro: distinct_map_filter)
  qed
  with Cons show ?case by simp
qed simp

lemma job_step_chains_ok:
  assumes inv: "db_inv d" and ok: "chains_ok d" and st: "job_step E d d'"
  shows "chains_ok d'"
proof -
  have kt: "keyed (tasks d)" and kj: "keyed (jobs d)" using inv by (simp_all add: db_inv_def)
  have b: "chains_ok (bump x y d)" for x y using ok by (simp add: chains_ok_def)
  have c: "chains_ok d'" if "claims d d'"
    using that ok unfolding claims_def by (auto simp: chains_ok_def chain_counter_of)
  from st show ?thesis
  proof (cases rule: job_step.cases)
    case (s_claim pool tid owner secs now op slot r)
    with claim_in_change[OF kt s_claim] c updates_chains_ok ok show ?thesis by blast
  next
    case (s_cleanup now n)
    from cleanup_purges[OF kj s_cleanup] purge_roots_chains_ok[OF b] show ?thesis by (metis snd_conv)
  next
    case (s_clear states now skip p)
    from clear_purges[OF kj s_clear] purge_roots_chains_ok[OF b] show ?thesis by (metis snd_conv)
  next
    case (s_create n ts u)
    from create_job_creates[OF s_create] ok show ?thesis by (simp add: chains_ok_def chain_counter_of)
  next
    case (s_chain article revision stages now c)
    from s_chain[unfolded ensure_chain_cases] consider "d' = chain_guarded article d"
      | "create_next E article revision stages now (chain_counter (before_next now article d) article)
           (before_next now article d) = Inr (c, d')"
      by (auto split: option.splits if_splits)
    then show ?thesis
    proof cases
      case 1
      with ok show ?thesis by (simp add: chains_ok_def)
    next
      case 2
      from create_next_runs[OF 2 before_next_ok[OF ok]] show ?thesis by blast
    qed
  qed (rule updates_chains_ok[OF _ ok], (erule updates_renew | erule updates_commit
      | erule updates_publish | erule updates_fail_stage | erule updates_end_refresh
      | erule updates_end_scope | erule updates_settle_finished_job | erule updates_settle_blocked
      | erule updates_interrupt | erule updates_beat | erule updates_recover
      | erule updates_stop_begin | erule updates_stop_batch | erule updates_try_elect
      | erule (1) updates_end_summary | erule (1) updates_finalize))+
qed

interpretation chain_sys: step_system "\<lambda>d. d = empty_db" "job_step E" "\<lambda>d. db_inv d \<and> chains_ok d" for E
proof
  show "db_inv d \<and> chains_ok d" if "d = empty_db" for d
    using that job_sys.inv_start[of d] by (simp add: chains_ok_def empty_db_def)
qed (use job_step_inv job_step_chains_ok in blast)

text \<open>C5: In every reachable state of the job tables: record ids are unique, a job without a parent
  is the root of its own tree, every attempt belongs to an existing stage of its tree whose
  epoch has reached the attempt's, no two attempts of a stage share an epoch, and no brief run
  is beyond its article's generation counter.\<close>

theorem reachable_tables:
  assumes "run_of (job_step E) empty_db d"
  shows "keyed (tasks d) \<and> keyed (jobs d) \<and> roots_own d
    \<and> distinct (map (\<lambda>a. (a_task a, a_epoch a)) (attempts d))
    \<and> (\<forall>a\<in>set (attempts d). \<exists>t. row (tasks d) (a_task a) = Some t
         \<and> a_root a = t_root t \<and> a_epoch a \<le> t_lease_epoch t)
    \<and> chains_ok d"
proof -
  have "attempt_key = (\<lambda>a. (a_task a, a_epoch a))" by (simp add: fun_eq_iff attempt_key_def)
  with chain_sys.inv_reachable[OF refl assms] show ?thesis
    by (simp add: db_inv_def attempts_ok_def)
qed

lemma demo_created: "\<exists>d'. create_job demo_E \<lparr>nj_id = ''j'', nj_kind = ''task'', nj_operation = ''op'',
     nj_parent = None, nj_created_at = 0\<rparr> [\<lparr>nt_id = ''a'', nt_job = ''j'', nt_pool = ''p'',
     nt_operation = ''op'', nt_priority = 0, nt_deps = [], nt_input_hash = ''h'', nt_created_at = 0\<rparr>]
     empty_db = Inr ((), d') \<and> row (tasks d') ''a'' \<noteq> None"
  by (simp add: create_job_def create_job_in_def create_task_in_def empty_db_def Let_def
    log_transition_in_def)

theorem reachable_tables_witness:
  "\<exists>d. run_of (job_step demo_E) empty_db d \<and> row (tasks d) ''a'' \<noteq> None \<and> keyed (tasks d)"
proof -
  from demo_created obtain d' where c: "create_job demo_E \<lparr>nj_id = ''j'', nj_kind = ''task'', nj_operation = ''op'',
     nj_parent = None, nj_created_at = 0\<rparr> [\<lparr>nt_id = ''a'', nt_job = ''j'', nt_pool = ''p'',
     nt_operation = ''op'', nt_priority = 0, nt_deps = [], nt_input_hash = ''h'', nt_created_at = 0\<rparr>]
     empty_db = Inr ((), d')" "row (tasks d') ''a'' \<noteq> None" by blast
  have "run_of (job_step demo_E) empty_db d'"
    using run_refl s_create[OF c(1)] by (rule run_step)
  with reachable_tables[OF this] c(2) show ?thesis by blast
qed

section \<open>Fencing over any interleaving\<close>

lemma start_running_evolves: "t_state t = ''queued'' \<Longrightarrow> evolves t (start_running E owner secs now t)"
  by (simp add: evolves_def start_running_def)

lemma step_evolves:
  assumes inv: "db_inv d" and st: "job_step E d d'"
    and t: "row (tasks d) k = Some t" and u: "row (tasks d') k = Some u"
  shows "evolves t u"
proof -
  have kt: "keyed (tasks d)" and kj: "keyed (jobs d)" using inv by (simp_all add: db_inv_def)
  have upd: "\<exists>v. row (tasks m) k = Some v \<and> evolves t v" if "updates d m" for m
  proof -
    from that have "rel_option evolves (row (tasks d) k) (row (tasks m) k)" by (simp add: updates_def)
    with t show ?thesis by (simp add: option_rel_Some1)
  qed
  from job_step_change[OF st kt kj] show ?thesis
  proof (elim disjE exE conjE)
    assume "claims d d'"
    then obtain E' owner secs now i where "tasks d' =
        update_where (\<lambda>j t. j = i \<and> t_state t = ''queued'') (start_running E' owner secs now) (tasks d)"
      unfolding claims_def by blast
    with t u show ?thesis by (auto simp: start_running_evolves)
  next
    assume "purges d d'"
    then obtain R where "tasks d' = delete_where (\<lambda>i t. t_root t \<in> R) (tasks d)"
      unfolding purges_def by blast
    with t u show ?thesis by (auto simp: row_delete_where[OF kt] split: if_splits)
  next
    fix m assume "updates d m" "creates m d'"
    with upd[of m] u show ?thesis by (auto simp: creates_def)
  next
    fix m assume "updates d m" "d' = m"
    with upd[of m] u show ?thesis by auto
  qed
qed

lemma step_job_evolves:
  assumes inv: "db_inv d" and st: "job_step E d d'"
    and t: "row (jobs d) k = Some r" and u: "row (jobs d') k = Some s"
  shows "job_evolves r s"
proof -
  have kt: "keyed (tasks d)" and kj: "keyed (jobs d)" using inv by (simp_all add: db_inv_def)
  have upd: "\<exists>v. row (jobs m) k = Some v \<and> job_evolves r v" if "updates d m" for m
  proof -
    from that have "rel_option job_evolves (row (jobs d) k) (row (jobs m) k)" by (simp add: updates_def)
    with t show ?thesis by (simp add: option_rel_Some1)
  qed
  from job_step_change[OF st kt kj] show ?thesis
  proof (elim disjE exE conjE)
    assume "claims d d'"
    with t u show ?thesis by (auto simp: claims_def)
  next
    assume "purges d d'"
    then obtain R where "jobs d' = delete_where (\<lambda>i t. j_root t \<in> R) (jobs d)"
      unfolding purges_def by blast
    with t u show ?thesis by (auto simp: row_delete_where[OF kj] split: if_splits)
  next
    fix m assume "updates d m" "creates m d'"
    with upd[of m] u show ?thesis by (auto simp: creates_def)
  next
    fix m assume "updates d m" "d' = m"
    with upd[of m] u show ?thesis by auto
  qed
qed

interpretation task_fence: epoch_fence "\<lambda>s t. db_inv s \<and> job_step E s t" "\<lambda>d. row (tasks d) k"
    t_lease_epoch "\<lambda>t. t_state t = ''running''" t_lease_owner for E k
proof
  fix s t r r'
  assume "db_inv s \<and> job_step E s t" "row (tasks s) k = Some r" "row (tasks t) k = Some r'"
  then have "evolves r r'" using step_evolves by blast
  then show "t_lease_epoch r \<le> t_lease_epoch r' \<and> (t_state r' = ''running'' \<longrightarrow>
      t_lease_epoch r < t_lease_epoch r' \<or> t_state r = ''running'' \<and>
      t_lease_owner r' = t_lease_owner r \<and> t_lease_epoch r' = t_lease_epoch r)"
    by (simp add: evolves_def)
qed

text \<open>A run during which the row of stage \<open>k\<close> is never deleted.\<close>

definition run_keeping :: "env \<Rightarrow> string \<Rightarrow> db \<Rightarrow> db \<Rightarrow> bool" where
  "run_keeping E k = run_of (\<lambda>s t. job_step E s t \<and> row (tasks t) k \<noteq> None)"

lemma run_keeping_fence:
  assumes "run_keeping E k d d'" and "db_inv d"
  shows "run_of (\<lambda>s t. (db_inv s \<and> job_step E s t) \<and> row (tasks t) k \<noteq> None) d d' \<and> db_inv d'"
  using assms(1)[unfolded run_keeping_def] assms(2)
proof (induction rule: run_of.induct)
  case (run_step s t u)
  then have "db_inv t" "db_inv u" using job_step_inv by blast+
  with run_step show ?case by (auto intro: run_of.run_step)
qed auto

lemma still_held_fence:
  "still_held d ct = task_fence.held (ct_id ct) d (ct_lease_owner ct) (ct_lease_epoch ct)"
  by (simp add: still_held_def task_fence.held_def)

lemma not_held_commit:
  assumes "\<not> still_held d ct" and "row (receipts d) op = None"
  shows "commit_stage E ct out h now clock op d = Inr (LeaseLost, bump ''job_guard'' (ct_root_id ct) d)"
proof -
  have "\<not> holds_now d now ct" using assms(1) holds_now_held by blast
  with commit_stage_fresh[OF assms(2), of E ct out h now clock] show ?thesis by auto
qed

text \<open>C3: A worker that lost its claim can never act on it again. Once a stage is no longer running
  under the worker's name and epoch, then after any further steps of any workers, sweeps,
  stops and purges that leave the stage in place, a commit answers that the lease is lost and
  a renewal fails, and neither publishes anything.\<close>

theorem lost_claim_fenced:
  assumes inv: "db_inv d" and t: "row (tasks d) (ct_id ct) = Some t"
    and e: "ct_lease_epoch ct \<le> t_lease_epoch t" and lost: "\<not> still_held d ct"
    and run: "run_keeping E (ct_id ct) d d'" and op: "row (receipts d') op = None"
  shows "commit_stage E ct out h now clock op d' =
      Inr (LeaseLost, bump ''job_guard'' (ct_root_id ct) d')
    \<and> renew_lease ct secs now d' = Inr (False, d')"
proof -
  note fr = run_keeping_fence[OF run inv]
  from task_fence.lost_forever[OF fr[THEN conjunct1] t e] lost
  have n: "\<not> still_held d' ct" by (simp add: still_held_fence)
  have "keyed (tasks d')" using fr by (simp add: db_inv_def)
  then have same: "update_where (\<lambda>i t. i = ct_id ct \<and> t_state t = ''running''
      \<and> t_lease_owner t = ct_lease_owner ct \<and> t_lease_epoch t = ct_lease_epoch ct) f (tasks d') = tasks d'"
    for f using n by (intro update_where_none) (auto simp: still_held_def dest: keyed_memD)
  have "renew_lease ct secs now d' = Inr (False, d')"
    using n by (auto simp: renew_lease_def Let_def same load_task_def still_held_def split: option.splits)
  with not_held_commit[OF n op] show ?thesis by simp
qed

text \<open>C4: Two claims of the same stage never overlap. The second claim has a larger epoch, and from
  then on the first worker no longer holds the stage, whatever happened in between.\<close>

theorem claims_never_overlap:
  assumes inv: "db_inv d" and op1: "row (receipts d) op1 = None"
    and c1: "claim_in E pool tid owner secs now op1 slot d = Inr (Some ct, d1)"
    and run: "run_keeping E' (ct_id ct) d1 d2" and op2: "row (receipts d2) op2 = None"
    and c2: "claim_in E pool2 tid2 owner2 secs2 now2 op2 slot2 d2 = Inr (Some ct2, d3)"
    and same: "ct_id ct2 = ct_id ct"
  shows "ct_lease_epoch ct < ct_lease_epoch ct2 \<and> still_held d1 ct \<and> still_held d3 ct2
    \<and> \<not> still_held d3 ct"
proof -
  have inv1: "db_inv d1" using job_step_inv[OF inv s_claim[OF c1]] .
  note fr = run_keeping_fence[OF run inv1]
  have k: "keyed (tasks d)" "keyed (tasks d2)" using inv fr by (simp_all add: db_inv_def)
  from claim_in_spec[OF k(1) op1 c1] obtain t1 where
    t1: "row (tasks d1) (ct_id ct) = Some t1" "t_lease_epoch t1 = ct_lease_epoch ct"
      "t_state t1 = ''running''" "t_lease_owner t1 = ct_lease_owner ct"
    by (auto simp: start_running_def)
  from task_fence.fence_run[OF fr[THEN conjunct1] t1(1)] obtain t2 where
    t2: "row (tasks d2) (ct_id ct) = Some t2" "t_lease_epoch t1 \<le> t_lease_epoch t2" by blast
  from claim_in_spec[OF k(2) op2 c2] t2(1) same have
    t3: "ct_lease_epoch ct2 = t_lease_epoch t2 + 1"
      "row (tasks d3) (ct_id ct) = Some (start_running E owner2 secs2 now2 t2)"
      "ct_lease_owner ct2 = owner2" by auto
  then have "ct_lease_epoch ct < ct_lease_epoch ct2" using t1(2) t2(2) by simp
  with t1 t3 same show ?thesis by (auto simp: still_held_def start_running_def)
qed

section \<open>Witnesses\<close>

lemma db_inv_demo: "db_inv demo_db"
  by (simp add: db_inv_def demo_db_def keyed_def roots_own_def attempts_ok_def demo_job_def empty_db_def)

definition demo_lost :: db where
  "demo_lost = demo_db\<lparr>tasks := [(''a'', (demo_task [])\<lparr>t_lease_epoch := 2\<rparr>)]\<rparr>"

theorem lost_claim_fenced_witness:
  "\<exists>d'. run_keeping demo_E ''a'' demo_lost d' \<and> commit_stage demo_E demo_claimed_task ''x'' ''h'' 9 9 ''c'' d'
     = Inr (LeaseLost, bump ''job_guard'' ''j'' d')"
proof -
  have inv: "db_inv demo_lost"
    by (simp add: db_inv_def demo_lost_def demo_db_def keyed_def roots_own_def attempts_ok_def
      demo_job_def empty_db_def)
  obtain d' where b: "beat ''p'' 1 9 demo_lost = Inr ((), d')" by (simp add: beat_def)
  have rows: "row (tasks d') ''a'' = Some ((demo_task [])\<lparr>t_lease_epoch := 2\<rparr>)"
    "row (receipts d') ''c'' = None"
    using b by (auto simp: beat_def demo_lost_def demo_db_def empty_db_def)
  have run: "run_keeping demo_E (ct_id demo_claimed_task) demo_lost d'"
    unfolding run_keeping_def
    by (rule run_of.run_step[OF run_of.run_refl]) (use s_beat[OF b] rows in \<open>simp add: demo_claimed_task_def\<close>)
  have t: "row (tasks demo_lost) (ct_id demo_claimed_task) = Some ((demo_task [])\<lparr>t_lease_epoch := 2\<rparr>)"
    by (simp add: demo_lost_def demo_claimed_task_def)
  have lost: "\<not> still_held demo_lost demo_claimed_task"
    using t by (simp add: still_held_def demo_task_def)
  have e: "ct_lease_epoch demo_claimed_task \<le> t_lease_epoch ((demo_task [])\<lparr>t_lease_epoch := 2\<rparr>)"
    by (simp add: demo_claimed_task_def)
  from lost_claim_fenced[OF inv t e lost run rows(2), of "''x''" "''h''" 9 9] run show ?thesis
    by (auto simp: demo_claimed_task_def)
qed

definition demo_swept :: "db option" where
  "demo_swept = (case demo_claim of Inr (Some ct, d1) \<Rightarrow>
     (case interrupt_expired_leases demo_E (seconds 100) d1 of Inr (_, d2) \<Rightarrow> Some d2 | _ \<Rightarrow> None)
   | _ \<Rightarrow> None)"

definition demo_again :: "(claimed \<times> db) option" where
  "demo_again = (case demo_swept of Some d2 \<Rightarrow>
     (case claim_in demo_E ''intel_brief'' (Some ''a'') ''w2'' 60 (seconds 101) ''k2'' None d2 of
        Inr (Some ct, d3) \<Rightarrow> Some (ct, d3) | _ \<Rightarrow> None) | None \<Rightarrow> None)"

lemma demo_again_runs:
  "case demo_swept of None \<Rightarrow> False | Some d2 \<Rightarrow> row (tasks d2) ''a'' \<noteq> None \<and> row (receipts d2) ''k2'' = None"
  "case demo_again of None \<Rightarrow> False | Some (ct, d3) \<Rightarrow> ct_id ct = ''a''"
  by code_simp+

theorem claims_never_overlap_witness:
  "\<exists>ct d1 ct2 d3. demo_claim = Inr (Some ct, d1) \<and> demo_again = Some (ct2, d3)
     \<and> ct_lease_epoch ct < ct_lease_epoch ct2 \<and> \<not> still_held d3 ct"
proof -
  from demo_claimed obtain ct d1 where c1: "demo_claim = Inr (Some ct, d1)" "ct_id ct = ''a''" by blast
  have swept: "demo_swept = (case interrupt_expired_leases demo_E (seconds 100) d1 of
      Inr (_, d2) \<Rightarrow> Some d2 | _ \<Rightarrow> None)"
    by (simp add: demo_swept_def c1)
  obtain n d2 where i: "interrupt_expired_leases demo_E (seconds 100) d1 = Inr (n, d2)"
    by (simp add: interrupt_expired_leases_def Let_def)
  with swept have sw: "interrupt_expired_leases demo_E (seconds 100) d1 = Inr (n, d2)" "demo_swept = Some d2"
    by simp_all
  from demo_again_runs(1) have rows: "row (tasks d2) ''a'' \<noteq> None" "row (receipts d2) ''k2'' = None"
    unfolding sw(2) by simp_all
  obtain ct2 d3 where again: "demo_again = Some (ct2, d3)" "ct_id ct2 = ''a''"
  proof (cases demo_again)
    case (Some p)
    then show ?thesis using demo_again_runs(2) that unfolding Some by (cases p) simp
  qed (use demo_again_runs(2) in simp)
  have "(case claim_in demo_E ''intel_brief'' (Some ''a'') ''w2'' 60 (seconds 101) ''k2'' None d2 of
        Inr (Some ct, d3) \<Rightarrow> Some (ct, d3) | _ \<Rightarrow> None) = Some (ct2, d3)"
    using again(1) unfolding demo_again_def sw(2) by simp
  then have c2: "claim_in demo_E ''intel_brief'' (Some ''a'') ''w2'' 60 (seconds 101) ''k2'' None d2
      = Inr (Some ct2, d3)"
    by (auto split: sum.splits prod.splits option.splits)
  have run: "run_keeping demo_E (ct_id ct) d1 d2"
    unfolding run_keeping_def
    by (rule run_of.run_step[OF run_of.run_refl]) (use s_sweep[OF sw(1)] rows c1 in simp)
  have op1: "row (receipts demo_db) ''k'' = None" by (simp add: demo_db_def empty_db_def)
  from claims_never_overlap[OF db_inv_demo op1 c1(1)[unfolded demo_claim_def] run rows(2) c2]
    c1 again show ?thesis by auto
qed

end
