(* ===== verification/Counters.thy ===== *)
theory Counters
  imports Tx
begin

text \<open>
  Persisted counters (\<open>storage/counters.rs\<close>): allocation inside a caller's transaction,
  and the standalone allocation with its receipt.
\<close>

section \<open>State\<close>

record counter_receipt =
  cr_name :: string
  cr_n :: int

text \<open>
  The \<open>counter\<close> table and the receipts of this module in \<open>tx_receipt\<close>, keyed by
  \<open>receipt_key\<close>. Other modules write receipts under other ids.
\<close>

record counter_db =
  counter_rows :: "string \<Rightarrow> int option"
  alloc_receipts :: "counter_receipt tbl"

definition HOT_RECORD_POLICY :: retry_policy where
  "HOT_RECORD_POLICY = \<lparr>max_attempts = 16, base = 5000000, cap = 200000000\<rparr>"

section \<open>Operations\<close>

text \<open>\<open>UPSERT $c SET n = (n ?? 0) + 1 RETURN VALUE n\<close>\<close>

definition current :: "counter_db \<Rightarrow> string \<Rightarrow> int" where
  "current d name = (case counter_rows d name of Some n \<Rightarrow> n | None \<Rightarrow> 0)"

definition next_in :: "string \<Rightarrow> counter_db \<Rightarrow> int \<times> counter_db" where
  "next_in name d = (let v = (case counter_rows d name of Some n \<Rightarrow> n | None \<Rightarrow> 0) + 1
     in (v, d\<lparr>counter_rows := (counter_rows d)(name \<mapsto> v)\<rparr>))"

definition receipt_key :: "string \<Rightarrow> string \<Rightarrow> string" where
  "receipt_key name op_key = ''counter:'' @ name @ '':'' @ op_key"

definition allocate_in :: "string \<Rightarrow> string \<Rightarrow> (counter_db, int) body" where
  "allocate_in name op_key d =
     (let key = receipt_key name op_key in
      case row (alloc_receipts d) key of
        Some r \<Rightarrow> if cr_name r = name then Inr (cr_n r, d)
          else Inl already_exists
      | None \<Rightarrow> (let (v, d') = next_in name d
          in Inr (v, d'\<lparr>alloc_receipts := put key \<lparr>cr_name = name, cr_n = v\<rparr> (alloc_receipts d')\<rparr>)))"

definition allocate ::
  "(nat \<Rightarrow> counter_db attempt_env) \<Rightarrow> string \<Rightarrow> string \<Rightarrow> counter_db
     \<Rightarrow> (tx_error + int committed) \<times> counter_db" where
  "allocate net name op_key = run_tx net HOT_RECORD_POLICY (\<lambda>_. allocate_in name op_key)"

section \<open>Sequences\<close>

text \<open>
  What a client needs of a counter: each call hands out the value above the current one and
  makes it current. Then values grow strictly along any series of calls, so none is shared.
\<close>

locale sequencer =
  fixes cur :: "'s \<Rightarrow> int" and nxt :: "'s \<Rightarrow> int \<times> 's"
  assumes nxt_value: "nxt s = (v, s') \<Longrightarrow> v = cur s + 1"
    and nxt_cur: "nxt s = (v, s') \<Longrightarrow> cur s' = v"
begin

fun draw :: "nat \<Rightarrow> 's \<Rightarrow> int list \<times> 's" where
  "draw 0 s = ([], s)"
| "draw (Suc n) s = (let (v, s1) = nxt s; (vs, s2) = draw n s1 in (v # vs, s2))"

lemma draw_values: "draw n s = (vs, s') \<Longrightarrow> vs = [cur s + 1 .. cur s + int n] \<and> cur s' = cur s + int n"
proof (induction n arbitrary: s vs s')
  case (Suc n)
  obtain v s1 where v: "nxt s = (v, s1)" by (cases "nxt s")
  obtain us s2 where us: "draw n s1 = (us, s2)" by (cases "draw n s1")
  from Suc.prems v us have eq: "vs = v # us" "s' = s2" by auto
  from Suc.IH[OF us] nxt_value[OF v] nxt_cur[OF v] eq show ?case
    by (simp add: upto_rec1 add.assoc)
qed simp

end

interpretation counter_seq: sequencer "\<lambda>d. current d name" "next_in name" for name
  by unfold_locales (auto simp: next_in_def current_def Let_def)

lemma next_in_spec:
  "next_in name d = (v, d') \<Longrightarrow> v = current d name + 1
     \<and> current d' n = (if n = name then v else current d n) \<and> alloc_receipts d' = alloc_receipts d"
  by (auto simp: next_in_def current_def Let_def)

text \<open>Standalone allocation gives each operation key its own value, once. A new key gets the
  value after the current one; asking again with the same key, after any allocations under
  other keys, returns the same value and consumes none; and two keys never share a value.\<close>

lemma allocate_in_once:
  assumes "row (alloc_receipts d) (receipt_key name op) = None"
    and "allocate_in name op d = Inr (v, d1)"
    and "row (alloc_receipts d2) (receipt_key name op) = row (alloc_receipts d1) (receipt_key name op)"
    and "current d1 name \<le> current d2 name"
  shows "v = current d name + 1 \<and> current d1 name = v
    \<and> allocate_in name op d2 = Inr (v, d2)
    \<and> (\<forall>op' w d3. row (alloc_receipts d2) (receipt_key name op') = None
         \<and> allocate_in name op' d2 = Inr (w, d3) \<longrightarrow> v < w)"
proof -
  obtain u d' where n: "next_in name d = (u, d')" by (cases "next_in name d")
  from assms(1,2) n have v: "v = u"
    and d1: "d1 = d'\<lparr>alloc_receipts := put (receipt_key name op) \<lparr>cr_name = name, cr_n = u\<rparr> (alloc_receipts d')\<rparr>"
    by (auto simp: allocate_in_def Let_def)
  from next_in_spec[OF n, of name] have c: "u = current d name + 1" "current d' name = u" by auto
  then have c1: "current d1 name = v" by (simp add: d1 v current_def)
  have "v < w" if "row (alloc_receipts d2) (receipt_key name op') = None" "allocate_in name op' d2 = Inr (w, d3)"
    for op' w d3
    using that assms(4) c1 by (auto simp: allocate_in_def next_in_def current_def Let_def)
  with c c1 v assms(3) show ?thesis
    by (auto simp: allocate_in_def d1)
qed

definition demo_counters :: counter_db where
  "demo_counters = \<lparr>counter_rows = (\<lambda>_. None), alloc_receipts = []\<rparr>"

theorem allocate_in_once_witness:
  "\<exists>d1. allocate_in ''c'' ''a'' demo_counters = Inr (1, d1) \<and> allocate_in ''c'' ''a'' d1 = Inr (1, d1)"
proof -
  have f: "row (alloc_receipts demo_counters) (receipt_key ''c'' ''a'') = None"
    by (simp add: demo_counters_def)
  obtain d1 where a: "allocate_in ''c'' ''a'' demo_counters = Inr (1, d1)"
    by (simp add: demo_counters_def allocate_in_def next_in_def Let_def)
  from allocate_in_once[OF f a refl order_refl] a show ?thesis by blast
qed

end
