(* ===== verification/Outbox.thy ===== *)
theory Outbox
  imports Counters Codec
begin

text \<open>
  The index change outbox (\<open>storage/outbox.rs\<close>): enqueueing with replay by operation key and
  coalescing by work key, the consumers' reads, and acknowledgment.
\<close>

section \<open>State\<close>

record change =
  ic_seq :: int
  ic_kind :: string
  ic_id :: string
  ic_revision :: string
  ic_operation :: string
  ic_gen :: string
  ic_state :: string
  ic_outcome :: string
  ic_work_key :: string
  ic_content_hash :: string
  ic_task :: string
  ic_job :: string
  ic_created_at :: instant
  ic_updated_at :: instant

text \<open>Tables \<open>index_change\<close>, \<open>index_work\<close> (work key to the change that holds it) and \<open>counter\<close>.\<close>

record outbox =
  changes :: "change tbl"
  work :: "string tbl"
  ctr :: counter_db

record new_change =
  nc_kind :: string
  nc_id :: string
  nc_revision :: string
  nc_operation :: string
  nc_gen :: string
  nc_content_hash :: string
  nc_task :: string
  nc_job :: string

record enqueued =
  eq_seq :: int
  eq_key :: string
  eq_created :: bool

definition SEQ_COUNTER :: string where "SEQ_COUNTER = ''index_change''"

definition ACTIVE_STATES :: "string list" where
  "ACTIVE_STATES = [''pending'', ''running'', ''blocked'']"

section \<open>Work keys\<close>

definition normalized_operation :: "string \<Rightarrow> string" where
  "normalized_operation op =
     (if op = ''upsert'' \<or> op = ''index_upsert'' then ''index_upsert''
      else if op = ''remove'' \<or> op = ''index_remove'' then ''index_remove''
      else ''index_rebuild'')"

definition unit_separator :: char where
  "unit_separator = char_of (31 :: nat)"

definition work_key :: "string \<Rightarrow> string \<Rightarrow> string \<Rightarrow> string \<Rightarrow> string" where
  "work_key kind i revision op =
     kind @ [unit_separator] @ i @ [unit_separator] @ revision @ [unit_separator] @ normalized_operation op"

definition work_of :: "new_change \<Rightarrow> string" where
  "work_of c = work_key (nc_kind c) (nc_id c) (nc_revision c) (nc_operation c)"

section \<open>Enqueue\<close>

definition names_work :: "change \<Rightarrow> new_change \<Rightarrow> bool" where
  "names_work e c \<longleftrightarrow> ic_kind e = nc_kind c \<and> ic_id e = nc_id c \<and> ic_revision e = nc_revision c
     \<and> ic_operation e = normalized_operation (nc_operation c)"

definition reused :: "string \<Rightarrow> change \<Rightarrow> tx_error" where
  "reused op_key e = Abort (''op_key '' @ op_key @ '' already names '' @ ic_kind e @ ''/'' @ ic_id e
     @ ''@'' @ ic_revision e @ '' '' @ ic_operation e)"

text \<open>The change that holds the work key, when it is active.\<close>

definition active_holder :: "outbox \<Rightarrow> string \<Rightarrow> (string \<times> change) option" where
  "active_holder d w = (case row (work d) w of None \<Rightarrow> None
     | Some k \<Rightarrow> (case row (changes d) k of None \<Rightarrow> None
        | Some r \<Rightarrow> if ic_state r \<in> set ACTIVE_STATES then Some (k, r) else None))"

text \<open>\<open>CREATE $r SET seq = \<dots>\<close> under the unique index on \<open>seq\<close>.\<close>

definition create_change :: "string \<Rightarrow> change \<Rightarrow> outbox \<Rightarrow> tx_error + outbox" where
  "create_change op_key r d =
     (if row (changes d) op_key \<noteq> None \<or> list_ex (\<lambda>(k, x). ic_seq x = ic_seq r) (changes d)
      then Inl already_exists
      else Inr (d\<lparr>changes := put op_key r (changes d)\<rparr>))"

definition enqueue_in :: "new_change \<Rightarrow> string \<Rightarrow> instant \<Rightarrow> (outbox, enqueued) body" where
  "enqueue_in c op_key now d =
     (case row (changes d) op_key of
        Some e \<Rightarrow> if names_work e c
          then Inr (\<lparr>eq_seq = ic_seq e, eq_key = op_key, eq_created = False\<rparr>, d)
          else Inl (reused op_key e)
      | None \<Rightarrow>
          (case active_holder d (work_of c) of
             Some (k, r) \<Rightarrow> Inr (\<lparr>eq_seq = ic_seq r, eq_key = k, eq_created = False\<rparr>, d)
           | None \<Rightarrow>
               (let (seq, ctr') = next_in SEQ_COUNTER (ctr d); op = normalized_operation (nc_operation c) in
                case create_change op_key \<lparr>ic_seq = seq, ic_kind = nc_kind c, ic_id = nc_id c,
                    ic_revision = nc_revision c, ic_operation = op, ic_gen = nc_gen c,
                    ic_state = ''pending'', ic_outcome = [],
                    ic_work_key = work_key (nc_kind c) (nc_id c) (nc_revision c) op,
                    ic_content_hash = nc_content_hash c, ic_task = nc_task c, ic_job = nc_job c,
                    ic_created_at = now, ic_updated_at = now\<rparr> (d\<lparr>ctr := ctr'\<rparr>) of
                  Inl e \<Rightarrow> Inl e
                | Inr d1 \<Rightarrow> Inr (\<lparr>eq_seq = seq, eq_key = op_key, eq_created = True\<rparr>,
                    d1\<lparr>work := put (work_of c) op_key (work d1)\<rparr>))))"

section \<open>Batched enqueue\<close>

text \<open>
  The SurrealQL block of one change: it never fails by itself on a reused key, it returns the
  conflict and the next blocks still run; the caller aborts afterwards.
\<close>

datatype block_row = Row_Conflict tx_error | Row_Ok enqueued

definition enqueue_block :: "new_change \<Rightarrow> string \<Rightarrow> instant \<Rightarrow> outbox \<Rightarrow> tx_error + (block_row \<times> outbox)" where
  "enqueue_block c key now d =
     (case row (changes d) key of
        Some e \<Rightarrow> if \<not> names_work e c then Inr (Row_Conflict (reused key e), d)
          else Inr (Row_Ok \<lparr>eq_seq = ic_seq e, eq_key = key, eq_created = False\<rparr>, d)
      | None \<Rightarrow>
          (let k = row (work d) (work_of c);
               a = (case k of None \<Rightarrow> None | Some k \<Rightarrow> (case row (changes d) k of
                   Some r \<Rightarrow> if ic_state r \<in> set ACTIVE_STATES then Some (k, ic_seq r) else None
                 | None \<Rightarrow> None))
           in case a of
                Some (k, seq) \<Rightarrow> Inr (Row_Ok \<lparr>eq_seq = seq, eq_key = k, eq_created = False\<rparr>, d)
              | None \<Rightarrow>
                  (let (seq, ctr') = next_in SEQ_COUNTER (ctr d); op = normalized_operation (nc_operation c) in
                   case create_change key \<lparr>ic_seq = seq, ic_kind = nc_kind c, ic_id = nc_id c,
                       ic_revision = nc_revision c, ic_operation = op, ic_gen = nc_gen c,
                       ic_state = ''pending'', ic_outcome = [],
                       ic_work_key = work_key (nc_kind c) (nc_id c) (nc_revision c) op,
                       ic_content_hash = nc_content_hash c, ic_task = nc_task c, ic_job = nc_job c,
                       ic_created_at = now, ic_updated_at = now\<rparr> (d\<lparr>ctr := ctr'\<rparr>) of
                     Inl e \<Rightarrow> Inl e
                   | Inr d1 \<Rightarrow> Inr (Row_Ok \<lparr>eq_seq = seq, eq_key = key, eq_created = True\<rparr>,
                       d1\<lparr>work := put (work_of c) key (work d1)\<rparr>))))"

fun enqueue_blocks ::
  "(new_change \<times> string) list \<Rightarrow> instant \<Rightarrow> outbox \<Rightarrow> tx_error + (block_row list \<times> outbox)" where
  "enqueue_blocks [] now d = Inr ([], d)"
| "enqueue_blocks ((c, key) # rest) now d =
     (case enqueue_block c key now d of
        Inl e \<Rightarrow> Inl e
      | Inr (r, d1) \<Rightarrow> (case enqueue_blocks rest now d1 of
            Inl e \<Rightarrow> Inl e | Inr (rs, d2) \<Rightarrow> Inr (r # rs, d2)))"

text \<open>Reading the rows back, in order; the first conflict aborts.\<close>

fun block_rows :: "block_row list \<Rightarrow> tx_error + enqueued list" where
  "block_rows [] = Inr []"
| "block_rows (Row_Conflict e # rs) = Inl e"
| "block_rows (Row_Ok q # rs) = (case block_rows rs of Inl e \<Rightarrow> Inl e | Inr qs \<Rightarrow> Inr (q # qs))"

definition enqueue_many_in ::
  "(new_change \<times> string) list \<Rightarrow> string option \<Rightarrow> instant \<Rightarrow> (outbox, enqueued list \<times> int option) body" where
  "enqueue_many_in cs bump_name now d =
     (if cs = [] \<and> bump_name = None then Inr (([], None), d)
      else case enqueue_blocks cs now d of
        Inl e \<Rightarrow> Inl e
      | Inr (rows, d1) \<Rightarrow>
          (let (bumped, d2) = (case bump_name of None \<Rightarrow> (None, d1)
               | Some name \<Rightarrow> (let (v, c') = next_in name (ctr d1) in (Some v, d1\<lparr>ctr := c'\<rparr>)))
           in case block_rows rows of Inl e \<Rightarrow> Inl e | Inr qs \<Rightarrow> Inr ((qs, bumped), d2)))"

definition enqueue ::
  "(nat \<Rightarrow> outbox attempt_env) \<Rightarrow> new_change \<Rightarrow> string \<Rightarrow> instant \<Rightarrow> outbox
     \<Rightarrow> (tx_error + enqueued committed) \<times> outbox" where
  "enqueue net c op_key now = run_tx net HOT_RECORD_POLICY (\<lambda>_. enqueue_in c op_key now)"

section \<open>Reads\<close>

text \<open>A negative \<open>LIMIT\<close> is refused by the engine; callers pass a positive one.\<close>

definition pending_filtered :: "string option \<Rightarrow> int \<Rightarrow> nat \<Rightarrow> outbox \<Rightarrow> (string \<times> change) list" where
  "pending_filtered kind after_seq limit d = take limit (sort_key (\<lambda>(k, r). ic_seq r)
     (filter (\<lambda>(k, r). (case kind of Some x \<Rightarrow> ic_kind r = x | None \<Rightarrow> True)
        \<and> ic_state r = ''pending'' \<and> after_seq < ic_seq r) (changes d)))"

definition pending :: "int \<Rightarrow> nat \<Rightarrow> outbox \<Rightarrow> (string \<times> change) list" where
  "pending = pending_filtered None"

definition pending_of_kind :: "string \<Rightarrow> int \<Rightarrow> nat \<Rightarrow> outbox \<Rightarrow> (string \<times> change) list" where
  "pending_of_kind kind = pending_filtered (Some kind)"

section \<open>Acknowledgment\<close>

datatype ack = Done | AlreadyDone | Stale | Missing

definition final_state :: "string \<Rightarrow> bool" where
  "final_state s \<longleftrightarrow> s = ''completed'' \<or> s = ''failed''"

definition finish_change :: "string \<Rightarrow> string \<Rightarrow> string \<Rightarrow> string \<Rightarrow> instant \<Rightarrow> outbox \<Rightarrow> outbox" where
  "finish_change op_key w state outcome now d = d\<lparr>
     changes := update_where (\<lambda>k r. k = op_key \<and> ic_state r \<in> set ACTIVE_STATES)
       (\<lambda>r. r\<lparr>ic_state := state, ic_outcome := outcome, ic_updated_at := now\<rparr>) (changes d),
     work := delete_where (\<lambda>k c. k = w \<and> c = op_key) (work d)\<rparr>"

definition ack ::
  "string \<Rightarrow> string \<Rightarrow> string \<Rightarrow> string \<Rightarrow> string \<Rightarrow> instant \<Rightarrow> (outbox, ack) body" where
  "ack op_key revision gen state outcome now d =
     (if \<not> final_state state then Inl (Abort (''invalid ack state '' @ state))
      else case row (changes d) op_key of
        None \<Rightarrow> Inr (Missing, d)
      | Some r \<Rightarrow>
          if ic_revision r \<noteq> revision \<or> ic_gen r \<noteq> gen then Inr (Stale, d)
          else if ic_state r \<notin> set ACTIVE_STATES then Inr (AlreadyDone, d)
          else Inr (Done, finish_change op_key
            (work_key (ic_kind r) (ic_id r) (ic_revision r) (ic_operation r)) state outcome now d))"

record ack_item =
  ai_op_key :: string
  ai_revision :: string
  ai_gen :: string
  ai_state :: string
  ai_outcome :: string
  ai_work_key :: string

definition ack_block :: "ack_item \<Rightarrow> instant \<Rightarrow> outbox \<Rightarrow> outbox" where
  "ack_block i now d =
     (case row (changes d) (ai_op_key i) of
        Some r \<Rightarrow> if ic_revision r = ai_revision i \<and> ic_gen r = ai_gen i
            \<and> ic_state r \<in> set ACTIVE_STATES
          then finish_change (ai_op_key i) (ai_work_key i) (ai_state i) (ai_outcome i) now d else d
      | None \<Rightarrow> d)"

definition ack_many :: "ack_item list \<Rightarrow> instant \<Rightarrow> (outbox, unit) body" where
  "ack_many items now d =
     (if items = [] then Inr ((), d)
      else case filter (\<lambda>i. \<not> final_state (ai_state i)) items of
        i # _ \<Rightarrow> Inl (Abort (''invalid ack state '' @ ai_state i))
      | [] \<Rightarrow> Inr ((), foldl (\<lambda>d i. ack_block i now d) d items))"

definition set_active_state :: "string \<Rightarrow> string \<Rightarrow> instant \<Rightarrow> (outbox, bool) body" where
  "set_active_state op_key state now d =
     (if state \<notin> set ACTIVE_STATES then Inl (Abort (''invalid active state '' @ state))
      else Inr (ids_where (\<lambda>k r. k = op_key \<and> ic_state r \<in> set ACTIVE_STATES) (changes d) \<noteq> [],
        d\<lparr>changes := update_where (\<lambda>k r. k = op_key \<and> ic_state r \<in> set ACTIVE_STATES)
          (\<lambda>r. r\<lparr>ic_state := state, ic_updated_at := now\<rparr>) (changes d)\<rparr>))"

section \<open>The outbox invariant\<close>

definition is_active :: "change \<Rightarrow> bool" where
  "is_active r \<longleftrightarrow> ic_state r \<in> set ACTIVE_STATES"

text \<open>
  Every active change holds its work key, a work key names a change of that work, sequence
  numbers are distinct and not beyond the counter, and a row's work key is that of its fields.
\<close>

definition outbox_ok :: "outbox \<Rightarrow> bool" where
  "outbox_ok d \<longleftrightarrow> keyed (changes d) \<and> keyed (work d)
     \<and> distinct (map (\<lambda>(k, r). ic_seq r) (changes d))
     \<and> (\<forall>(k, r) \<in> set (changes d). ic_seq r \<le> current (ctr d) SEQ_COUNTER
          \<and> ic_work_key r = work_key (ic_kind r) (ic_id r) (ic_revision r) (ic_operation r)
          \<and> (is_active r \<longrightarrow> row (work d) (ic_work_key r) = Some k))
     \<and> (\<forall>(w, k) \<in> set (work d). \<exists>r. row (changes d) k = Some r \<and> ic_work_key r = w)"

lemma normalized_idem [simp]: "normalized_operation (normalized_operation op) = normalized_operation op"
  by (simp add: normalized_operation_def)

lemma work_key_normalized [simp]:
  "work_key kind i r (normalized_operation op) = work_key kind i r op"
  by (simp add: work_key_def)

lemma outbox_okI:
  assumes "keyed (changes d)" "keyed (work d)" "distinct (map (\<lambda>(k, r). ic_seq r) (changes d))"
    and "\<And>k r. (k, r) \<in> set (changes d) \<Longrightarrow> ic_seq r \<le> current (ctr d) SEQ_COUNTER
          \<and> ic_work_key r = work_key (ic_kind r) (ic_id r) (ic_revision r) (ic_operation r)
          \<and> (is_active r \<longrightarrow> row (work d) (ic_work_key r) = Some k)"
    and "\<And>w k. (w, k) \<in> set (work d) \<Longrightarrow> \<exists>r. row (changes d) k = Some r \<and> ic_work_key r = w"
  shows "outbox_ok d"
  unfolding outbox_ok_def using assms by blast

lemma outbox_okD:
  assumes "outbox_ok d" and "row (changes d) k = Some r"
  shows "ic_seq r \<le> current (ctr d) SEQ_COUNTER"
    and "ic_work_key r = work_key (ic_kind r) (ic_id r) (ic_revision r) (ic_operation r)"
    and "is_active r \<Longrightarrow> row (work d) (ic_work_key r) = Some k"
  using assms by (auto simp: outbox_ok_def dest: map_of_SomeD)

lemma outbox_ok_work:
  "outbox_ok d \<Longrightarrow> row (work d) w = Some k \<Longrightarrow> \<exists>r. row (changes d) k = Some r \<and> ic_work_key r = w"
  by (fastforce simp: outbox_ok_def dest: map_of_SomeD)

lemma outbox_ok_keyed: "outbox_ok d \<Longrightarrow> keyed (changes d)" "outbox_ok d \<Longrightarrow> keyed (work d)"
  by (simp_all add: outbox_ok_def)

text \<open>At most one active change per work key.\<close>

lemma one_active:
  assumes "outbox_ok d" "row (changes d) k = Some r" "row (changes d) k' = Some r'"
    "is_active r" "is_active r'" "ic_work_key r = ic_work_key r'"
  shows "k = k'"
  using outbox_okD(3)[OF assms(1,2,4)] outbox_okD(3)[OF assms(1,3,5)] assms(6) by simp

lemma active_holder_iff:
  assumes "outbox_ok d"
  shows "active_holder d w = Some (k, r) \<longleftrightarrow>
    row (changes d) k = Some r \<and> is_active r \<and> ic_work_key r = w"
proof
  assume "active_holder d w = Some (k, r)"
  then have wk: "row (work d) w = Some k" and r: "row (changes d) k = Some r" "is_active r"
    by (auto simp: active_holder_def is_active_def split: option.splits if_splits)
  with outbox_ok_work[OF assms wk] show "row (changes d) k = Some r \<and> is_active r \<and> ic_work_key r = w"
    by auto
next
  assume "row (changes d) k = Some r \<and> is_active r \<and> ic_work_key r = w"
  with outbox_okD(3)[OF assms, of k r] show "active_holder d w = Some (k, r)"
    by (auto simp: active_holder_def is_active_def)
qed

section \<open>Enqueue keeps the invariant\<close>

definition fresh_change :: "new_change \<Rightarrow> int \<Rightarrow> instant \<Rightarrow> change" where
  "fresh_change c seq now = \<lparr>ic_seq = seq, ic_kind = nc_kind c, ic_id = nc_id c,
     ic_revision = nc_revision c, ic_operation = normalized_operation (nc_operation c),
     ic_gen = nc_gen c, ic_state = ''pending'', ic_outcome = [], ic_work_key = work_of c,
     ic_content_hash = nc_content_hash c, ic_task = nc_task c, ic_job = nc_job c,
     ic_created_at = now, ic_updated_at = now\<rparr>"

lemma fresh_active [simp]: "is_active (fresh_change c s now)"
  by (simp add: is_active_def fresh_change_def ACTIVE_STATES_def)

definition added :: "new_change \<Rightarrow> string \<Rightarrow> instant \<Rightarrow> outbox \<Rightarrow> outbox" where
  "added c k now d = (let (seq, ctr') = next_in SEQ_COUNTER (ctr d) in
     d\<lparr>ctr := ctr', changes := changes d @ [(k, fresh_change c seq now)],
       work := put (work_of c) k (work d)\<rparr>)"

lemma enqueue_in_cases:
  assumes ok: "outbox_ok d"
  shows "enqueue_in c k now d =
    (case row (changes d) k of
       Some e \<Rightarrow> if names_work e c
         then Inr (\<lparr>eq_seq = ic_seq e, eq_key = k, eq_created = False\<rparr>, d) else Inl (reused k e)
     | None \<Rightarrow> (case active_holder d (work_of c) of
         Some (h, r) \<Rightarrow> Inr (\<lparr>eq_seq = ic_seq r, eq_key = h, eq_created = False\<rparr>, d)
       | None \<Rightarrow> Inr (\<lparr>eq_seq = current (ctr d) SEQ_COUNTER + 1, eq_key = k, eq_created = True\<rparr>,
           added c k now d)))"
proof (cases "row (changes d) k")
  case (Some e)
  then show ?thesis by (simp add: enqueue_in_def)
next
  case None
  show ?thesis
  proof (cases "active_holder d (work_of c)")
    case (Some p)
    with None show ?thesis by (cases p) (simp add: enqueue_in_def)
  next
    case h: None
    obtain v c' where n: "next_in SEQ_COUNTER (ctr d) = (v, c')" by (cases "next_in SEQ_COUNTER (ctr d)")
    then have v: "v = current (ctr d) SEQ_COUNTER + 1" using next_in_spec by blast
    have "\<not> list_ex (\<lambda>(i, x). ic_seq x = v) (changes d)"
      using ok by (fastforce simp: outbox_ok_def list_ex_iff v)
    moreover have "put k r (changes d) = changes d @ [(k, r)]" for r
      using None by (rule put_new)
    ultimately show ?thesis
      using None h n v unfolding enqueue_in_def
      by (simp add: create_change_def fresh_change_def added_def work_of_def[symmetric])
  qed
qed

lemma added_ok:
  assumes ok: "outbox_ok d" and k: "row (changes d) k = None" and h: "active_holder d (work_of c) = None"
  shows "outbox_ok (added c k now d)"
proof -
  obtain v c' where n: "next_in SEQ_COUNTER (ctr d) = (v, c')" by (cases "next_in SEQ_COUNTER (ctr d)")
  from next_in_spec[OF n, of SEQ_COUNTER] have v: "v = current (ctr d) SEQ_COUNTER + 1"
    and c': "current c' SEQ_COUNTER = v" by auto
  let ?f = "fresh_change c v now"
  have a: "added c k now d = d\<lparr>ctr := c', changes := changes d @ [(k, ?f)],
       work := put (work_of c) k (work d)\<rparr>" by (simp add: added_def n)
  have rows: "row (changes d @ [(k, ?f)]) i = (if i = k then Some ?f else row (changes d) i)" for i
    using k by (simp add: map_add_def split: option.splits)
  have fw: "ic_work_key ?f = work_of c" by (simp add: fresh_change_def)
  have old: "row (put (work_of c) k (work d)) (ic_work_key r) = Some i"
    if "(i, r) \<in> set (changes d)" "is_active r" for i r
  proof -
    from ok that have w: "row (work d) (ic_work_key r) = Some i" "row (changes d) i = Some r"
      by (auto simp: outbox_ok_def keyed_memD)
    have "ic_work_key r \<noteq> work_of c"
      using h active_holder_iff[OF ok, of "work_of c" i r] w(2) that(2) by auto
    with w show ?thesis by simp
  qed
  have work: "\<exists>r. row (changes d @ [(k, ?f)]) i = Some r \<and> ic_work_key r = w"
    if "(w, i) \<in> set (put (work_of c) k (work d))" for w i
  proof -
    have "row (put (work_of c) k (work d)) w = Some i"
      using that ok by (intro keyed_memD) (simp_all add: outbox_ok_def)
    then show ?thesis
      using outbox_ok_work[OF ok, of w i] k fw unfolding rows by (auto split: if_splits)
  qed
  have keyed: "keyed (changes d @ [(k, ?f)])"
    using ok k by (simp add: outbox_ok_def keyed_def map_of_eq_None_iff)
  have seqs: "distinct (map (\<lambda>(k, r). ic_seq r) (changes d @ [(k, ?f)]))"
    using ok by (fastforce simp: outbox_ok_def v fresh_change_def)
  have each: "ic_seq r \<le> current c' SEQ_COUNTER \<and> ic_work_key r = work_key (ic_kind r) (ic_id r) (ic_revision r) (ic_operation r)
      \<and> (is_active r \<longrightarrow> row (put (work_of c) k (work d)) (ic_work_key r) = Some i)"
    if "(i, r) \<in> set (changes d @ [(k, ?f)])" for i r
  proof (cases "(i, r) \<in> set (changes d)")
    case True
    with ok have "ic_seq r \<le> current (ctr d) SEQ_COUNTER"
      "ic_work_key r = work_key (ic_kind r) (ic_id r) (ic_revision r) (ic_operation r)"
      by (auto simp: outbox_ok_def)
    with old[OF True] v c' show ?thesis by simp
  next
    case False
    with that have "i = k" "r = ?f" by auto
    then show ?thesis using c' by (simp add: fresh_change_def work_of_def)
  qed
  have sel: "changes (d\<lparr>ctr := c', changes := t, work := wk\<rparr>) = t"
    "work (d\<lparr>ctr := c', changes := t, work := wk\<rparr>) = wk"
    "ctr (d\<lparr>ctr := c', changes := t, work := wk\<rparr>) = c'" for t wk by simp_all
  show ?thesis
    unfolding a
  proof (rule outbox_okI, unfold sel)
    show "keyed (put (work_of c) k (work d))" using ok by (simp add: outbox_ok_def)
  qed (use each work c' in blast | rule keyed seqs)+
qed

lemma enqueue_in_ok:
  assumes ok: "outbox_ok d" and e: "enqueue_in c k now d = Inr (q, d')"
  shows "outbox_ok d'"
proof -
  from e[unfolded enqueue_in_cases[OF ok]] have "d' = d \<or>
      (row (changes d) k = None \<and> active_holder d (work_of c) = None \<and> d' = added c k now d)"
    by (auto split: option.splits if_splits)
  with added_ok[OF ok] ok show ?thesis by blast
qed

lemma state_update_ok:
  assumes ok: "outbox_ok d"
    and f: "\<And>r. ic_seq (f r) = ic_seq r \<and> ic_kind (f r) = ic_kind r \<and> ic_id (f r) = ic_id r
      \<and> ic_revision (f r) = ic_revision r \<and> ic_operation (f r) = ic_operation r
      \<and> ic_work_key (f r) = ic_work_key r"
    and P: "\<And>k r. row (changes d) k = Some r \<Longrightarrow> P k r \<Longrightarrow> is_active (f r) \<Longrightarrow> is_active r"
    and sub: "set (wk) \<subseteq> set (work d)" "keyed wk"
    and keep: "\<And>k r. row (changes d) k = Some r \<Longrightarrow> is_active (if P k r then f r else r) \<Longrightarrow>
       row wk (ic_work_key r) = Some k"
  shows "outbox_ok (d\<lparr>changes := update_where P f (changes d), work := wk\<rparr>)"
proof -
  let ?t = "update_where P f (changes d)"
  have row: "row ?t k = map_option (\<lambda>r. if P k r then f r else r) (row (changes d) k)" for k by simp
  have seqs: "map (\<lambda>(k, r). ic_seq r) ?t = map (\<lambda>(k, r). ic_seq r) (changes d)"
    using f by (auto simp: update_where_def)
  have keyed: "keyed ?t" using ok by (simp add: outbox_ok_def)
  have each: "ic_seq r \<le> current (ctr d) SEQ_COUNTER
      \<and> ic_work_key r = work_key (ic_kind r) (ic_id r) (ic_revision r) (ic_operation r)
      \<and> (is_active r \<longrightarrow> row wk (ic_work_key r) = Some k)" if "(k, r) \<in> set ?t" for k r
  proof -
    have "row ?t k = Some r" using keyed that by (rule keyed_memD)
    then obtain r0 where r0: "row (changes d) k = Some r0" "r = (if P k r0 then f r0 else r0)" by auto
    with outbox_okD(1,2)[OF ok r0(1)] keep[OF r0(1)] f[of r0] show ?thesis by auto
  qed
  have work: "\<exists>r. row ?t k = Some r \<and> ic_work_key r = w" if "(w, k) \<in> set wk" for w k
  proof -
    from that sub(1) ok obtain r where "row (changes d) k = Some r" "ic_work_key r = w"
      by (fastforce simp: outbox_ok_def)
    with f[of r] show ?thesis by auto
  qed
  have sel: "changes (d\<lparr>changes := t, work := wk\<rparr>) = t" "work (d\<lparr>changes := t, work := wk\<rparr>) = wk"
    "ctr (d\<lparr>changes := t, work := wk\<rparr>) = ctr d" for t wk by simp_all
  show ?thesis
  proof (rule outbox_okI, unfold sel)
    show "distinct (map (\<lambda>(k, r). ic_seq r) ?t)"
      unfolding seqs using ok by (simp add: outbox_ok_def)
  qed (use each work in blast | rule keyed sub(2))+
qed

lemma final_not_active: "final_state s \<Longrightarrow> is_active (r\<lparr>ic_state := s, ic_outcome := out, ic_updated_at := now\<rparr>) \<Longrightarrow> False"
  by (auto simp: final_state_def is_active_def ACTIVE_STATES_def)

lemma finish_change_ok:
  assumes ok: "outbox_ok d" and s: "final_state state"
    and k: "row (changes d) op = Some r" "is_active r"
  shows "outbox_ok (finish_change op w state outcome now d)"
proof -
  let ?wk = "delete_where (\<lambda>k c. k = w \<and> c = op) (work d)"
  let ?P = "\<lambda>k r. k = op \<and> ic_state r \<in> set ACTIVE_STATES"
  let ?f = "\<lambda>r. r\<lparr>ic_state := state, ic_outcome := outcome, ic_updated_at := now\<rparr>"
  have "outbox_ok (d\<lparr>changes := update_where ?P ?f (changes d), work := ?wk\<rparr>)"
  proof (rule state_update_ok[OF ok])
    show "keyed ?wk" using ok by (simp add: outbox_ok_def)
    show "set ?wk \<subseteq> set (work d)" by (auto simp: delete_where_def)
    fix i x assume x: "row (changes d) i = Some x"
    show "is_active x" if "?P i x" "is_active (?f x)" using final_not_active[OF s that(2)] by simp
    assume act: "is_active (if ?P i x then ?f x else x)"
    have "i \<noteq> op"
    proof
      assume "i = op"
      with x k have "x = r" "?P i x" by (auto simp: is_active_def)
      with act final_not_active[OF s] show False by auto
    qed
    with act have "is_active x" by simp
    with outbox_okD(3)[OF ok x] \<open>i \<noteq> op\<close> show "row ?wk (ic_work_key x) = Some i"
      using row_delete_where[OF outbox_ok_keyed(2)[OF ok]] by simp
  qed simp
  then show ?thesis by (simp add: finish_change_def)
qed

lemma ack_ok: "outbox_ok d \<Longrightarrow> ack op rvn gen st out now d = Inr (a, d') \<Longrightarrow> outbox_ok d'"
  by (auto simp: ack_def finish_change_ok is_active_def split: if_splits option.splits)

lemma ack_block_ok: "outbox_ok d \<Longrightarrow> final_state (ai_state i) \<Longrightarrow> outbox_ok (ack_block i now d)"
  by (auto simp: ack_block_def finish_change_ok is_active_def split: option.splits)

lemma ack_many_ok: "outbox_ok d \<Longrightarrow> ack_many items now d = Inr (u, d') \<Longrightarrow> outbox_ok d'"
proof -
  assume ok: "outbox_ok d" and r: "ack_many items now d = Inr (u, d')"
  have "outbox_ok (foldl (\<lambda>d i. ack_block i now d) d is)"
    if "outbox_ok d" "\<forall>i\<in>set is. final_state (ai_state i)" for d "is"
    using that by (induction "is" arbitrary: d) (auto simp: ack_block_ok)
  moreover from r have "d' = d \<or> (\<forall>i\<in>set items. final_state (ai_state i))
      \<and> d' = foldl (\<lambda>d i. ack_block i now d) d items"
    by (auto simp: ack_many_def filter_empty_conv split: if_splits list.splits)
  ultimately show ?thesis using ok by blast
qed

lemma set_active_ok: "outbox_ok d \<Longrightarrow> set_active_state op st now d = Inr (b, d') \<Longrightarrow> outbox_ok d'"
proof -
  assume ok: "outbox_ok d" and r: "set_active_state op st now d = Inr (b, d')"
  let ?P = "\<lambda>k r. k = op \<and> ic_state r \<in> set ACTIVE_STATES"
  let ?f = "\<lambda>r. r\<lparr>ic_state := st, ic_updated_at := now\<rparr>"
  have "outbox_ok (d\<lparr>changes := update_where ?P ?f (changes d), work := work d\<rparr>)"
    using ok outbox_okD(3)[OF ok]
    by (intro state_update_ok[OF ok]) (auto simp: is_active_def outbox_ok_keyed split: if_splits)
  with r show ?thesis by (auto simp: set_active_state_def split: if_splits)
qed

section \<open>Batched enqueue is the enqueue of each\<close>

fun enqueue_each ::
  "(new_change \<times> string) list \<Rightarrow> instant \<Rightarrow> outbox \<Rightarrow> tx_error + (enqueued list \<times> outbox)" where
  "enqueue_each [] now d = Inr ([], d)"
| "enqueue_each ((c, k) # rest) now d =
     (case enqueue_in c k now d of
        Inl e \<Rightarrow> Inl e
      | Inr (q, d1) \<Rightarrow> (case enqueue_each rest now d1 of
            Inl e \<Rightarrow> Inl e | Inr (qs, d2) \<Rightarrow> Inr (q # qs, d2)))"

lemma enqueue_block_in:
  "enqueue_block c k now d = (case row (changes d) k of
     Some e \<Rightarrow> if names_work e c then Inr (Row_Ok \<lparr>eq_seq = ic_seq e, eq_key = k, eq_created = False\<rparr>, d)
       else Inr (Row_Conflict (reused k e), d)
   | None \<Rightarrow> (case enqueue_in c k now d of Inl e \<Rightarrow> Inl e | Inr (q, d') \<Rightarrow> Inr (Row_Ok q, d')))"
  by (auto simp: enqueue_block_def enqueue_in_def active_holder_def Let_def
    split: option.splits sum.splits prod.splits)

lemma enqueue_block_ok:
  assumes ok: "outbox_ok d"
  shows "\<exists>r d'. enqueue_block c k now d = Inr (r, d') \<and> outbox_ok d' \<and>
    (case enqueue_in c k now d of Inl e \<Rightarrow> r = Row_Conflict e | Inr (q, d2) \<Rightarrow> r = Row_Ok q \<and> d2 = d')"
  using ok added_ok[OF ok]
  by (auto simp: enqueue_block_in enqueue_in_cases[OF ok] split: option.splits)

lemma enqueue_blocks_each:
  assumes "outbox_ok d"
  shows "\<exists>rs d'. enqueue_blocks cs now d = Inr (rs, d') \<and> outbox_ok d' \<and>
    (case enqueue_each cs now d of Inl e \<Rightarrow> block_rows rs = Inl e
     | Inr (qs, d2) \<Rightarrow> block_rows rs = Inr qs \<and> d2 = d')"
  using assms
proof (induction cs arbitrary: d)
  case (Cons x cs)
  obtain c k where x: "x = (c, k)" by (cases x)
  from enqueue_block_ok[OF Cons.prems, of c k now] obtain r d1 where
    b: "enqueue_block c k now d = Inr (r, d1)" "outbox_ok d1" and
    r: "case enqueue_in c k now d of Inl e \<Rightarrow> r = Row_Conflict e | Inr (q, d2) \<Rightarrow> r = Row_Ok q \<and> d2 = d1"
    by blast
  from Cons.IH[OF b(2)] obtain rs d' where IH: "enqueue_blocks cs now d1 = Inr (rs, d')" "outbox_ok d'"
    "case enqueue_each cs now d1 of Inl e \<Rightarrow> block_rows rs = Inl e
     | Inr (qs, d2) \<Rightarrow> block_rows rs = Inr qs \<and> d2 = d'" by blast
  have blocks: "enqueue_blocks (x # cs) now d = Inr (r # rs, d')"
    by (simp add: x b IH)
  show ?case
  proof (cases "enqueue_in c k now d")
    case (Inl e)
    with r blocks IH(2) x show ?thesis by simp
  next
    case (Inr p)
    obtain q d2 where "p = (q, d2)" by (cases p)
    with Inr r have i: "enqueue_in c k now d = Inr (q, d1)" "r = Row_Ok q" by auto
    show ?thesis
      using IH(2,3) blocks by (cases "enqueue_each cs now d1") (auto simp: x i)
  qed
qed simp

text \<open>Enqueueing a batch in one round trip gives the same answers and the same state as enqueueing
  its changes one after the other in the same transaction, and fails with the same error, the
  first reused operation key, when any of them would; then nothing is written.\<close>

lemma enqueue_many_equiv:
  assumes "outbox_ok d"
  shows "enqueue_many_in cs name now d = (case enqueue_each cs now d of
     Inl e \<Rightarrow> Inl e
   | Inr (qs, d1) \<Rightarrow> (case name of None \<Rightarrow> Inr ((qs, None), d1)
       | Some n \<Rightarrow> Inr ((qs, Some (current (ctr d1) n + 1)), d1\<lparr>ctr := snd (next_in n (ctr d1))\<rparr>)))"
proof -
  from enqueue_blocks_each[OF assms] obtain rs d' where b: "enqueue_blocks cs now d = Inr (rs, d')"
    "case enqueue_each cs now d of Inl e \<Rightarrow> block_rows rs = Inl e
     | Inr (qs, d2) \<Rightarrow> block_rows rs = Inr qs \<and> d2 = d'" by blast
  have n: "next_in n c = (current c n + 1, snd (next_in n c))" for n c
    by (simp add: next_in_def current_def Let_def)
  show ?thesis
  proof (cases "cs = [] \<and> name = None")
    case False
    then have f: "enqueue_many_in cs name now d = (let (bumped, d2) = (case name of None \<Rightarrow> (None, d')
         | Some m \<Rightarrow> (let (v, c') = next_in m (ctr d') in (Some v, d'\<lparr>ctr := c'\<rparr>)))
       in case block_rows rs of Inl e \<Rightarrow> Inl e | Inr qs \<Rightarrow> Inr ((qs, bumped), d2))"
      unfolding enqueue_many_in_def if_not_P[OF False] b(1) by simp
    show ?thesis
    proof (cases "enqueue_each cs now d")
      case (Inl e)
      then have "block_rows rs = Inl e" using b(2) by simp
      with Inl show ?thesis
        unfolding f by (cases name) (simp_all add: Let_def split: prod.splits)
    next
      case (Inr p)
      obtain qs d2 where p: "p = (qs, d2)" by (cases p)
      with b(2) Inr have r: "block_rows rs = Inr qs" and d2: "d' = d2" by auto
      show ?thesis
      proof (cases name)
        case None
        with r d2 Inr p show ?thesis unfolding f by simp
      next
        case (Some m)
        obtain v c' where v: "next_in m (ctr d2) = (v, c')" by (cases "next_in m (ctr d2)")
        with n[of m "ctr d2"] have "v = current (ctr d2) m + 1" by simp
        with Some v r d2 Inr p show ?thesis unfolding f by simp
      qed
    qed
  qed (simp add: enqueue_many_in_def)
qed

text \<open>Enqueueing is idempotent and coalesces. A successful enqueue names a stored change of exactly
  that work which is either active or the caller's own row; it allocates a new sequence number,
  above all earlier ones, only when no active change of that work existed, and otherwise writes
  nothing. Asking again with the same operation key gives the same row and writes nothing.\<close>

lemma enqueue_in_contract:
  assumes ok: "outbox_ok d" and e: "enqueue_in c k now d = Inr (q, d')"
  shows "outbox_ok d'
    \<and> (\<exists>r. row (changes d') (eq_key q) = Some r \<and> ic_seq r = eq_seq q \<and> (eq_key q = k \<or> is_active r)
         \<and> ic_work_key r = work_of c)
    \<and> (eq_created q \<longleftrightarrow> row (changes d) k = None
         \<and> \<not> (\<exists>i r. row (changes d) i = Some r \<and> is_active r \<and> ic_work_key r = work_of c))
    \<and> (eq_created q \<longrightarrow> (\<forall>(i, r)\<in>set (changes d). ic_seq r < eq_seq q))
    \<and> (\<not> eq_created q \<longrightarrow> d' = d)
    \<and> (\<exists>q'. enqueue_in c k now' d' = Inr (q', d') \<and> eq_key q' = eq_key q \<and> eq_seq q' = eq_seq q)"
proof -
  have named: "ic_work_key x = work_of c" if "row (changes d) k = Some x" "names_work x c" for x
    using outbox_okD(2)[OF ok that(1)] that(2) by (simp add: names_work_def work_of_def)
  have seqs: "ic_seq r \<le> current (ctr d) SEQ_COUNTER" if "(i, r) \<in> set (changes d)" for i r
    using ok that by (auto simp: outbox_ok_def)
  from e[unfolded enqueue_in_cases[OF ok]] consider
      (replay) x where "row (changes d) k = Some x" "names_work x c"
        "q = \<lparr>eq_seq = ic_seq x, eq_key = k, eq_created = False\<rparr>" "d' = d"
    | (joined) h x where "row (changes d) k = None" "active_holder d (work_of c) = Some (h, x)"
        "q = \<lparr>eq_seq = ic_seq x, eq_key = h, eq_created = False\<rparr>" "d' = d"
    | (fresh) "row (changes d) k = None" "active_holder d (work_of c) = None"
        "q = \<lparr>eq_seq = current (ctr d) SEQ_COUNTER + 1, eq_key = k, eq_created = True\<rparr>"
        "d' = added c k now d"
    by (auto split: option.splits if_splits)
  then show ?thesis
  proof cases
    case replay
    with ok named e show ?thesis by (auto simp: enqueue_in_def)
  next
    case joined
    from active_holder_iff[OF ok, of "work_of c" h x] joined(2)
    have "row (changes d) h = Some x" "is_active x" "ic_work_key x = work_of c" by auto
    with joined ok show ?thesis by (auto simp: enqueue_in_def)
  next
    case fresh
    have ok': "outbox_ok d'" using added_ok[OF ok fresh(1,2)] fresh(4) by simp
    let ?f = "fresh_change c (current (ctr d) SEQ_COUNTER + 1) now"
    obtain v c' where n: "next_in SEQ_COUNTER (ctr d) = (v, c')" by (cases "next_in SEQ_COUNTER (ctr d)")
    with next_in_spec have v: "v = current (ctr d) SEQ_COUNTER + 1" by blast
    have rows: "row (changes d') k = Some ?f"
      using fresh(1) by (simp add: fresh(4) added_def n v map_add_def)
    have noact: "\<not> (\<exists>i r. row (changes d) i = Some r \<and> is_active r \<and> ic_work_key r = work_of c)"
      using fresh(2) active_holder_iff[OF ok] by (metis option.distinct(1))
    have "names_work ?f c" by (simp add: names_work_def fresh_change_def)
    with rows have again: "enqueue_in c k now' d' =
        Inr (\<lparr>eq_seq = ic_seq ?f, eq_key = k, eq_created = False\<rparr>, d')"
      by (simp add: enqueue_in_def)
    have "\<forall>(i, r)\<in>set (changes d). ic_seq r < eq_seq q"
      using seqs fresh(3) by fastforce
    then show ?thesis
      using ok' rows noact again fresh(1,3) by (auto simp: fresh_change_def)
  qed
qed

section \<open>Acknowledgment and reads\<close>

lemma finish_change_rows:
  "row (changes (finish_change op w st out now d)) k = map_option (\<lambda>r. if k = op \<and> is_active r
     then r\<lparr>ic_state := st, ic_outcome := out, ic_updated_at := now\<rparr> else r) (row (changes d) k)"
  by (simp add: finish_change_def is_active_def)

text \<open>An acknowledgment takes effect exactly when the change is still active at the acknowledged
  revision and generation. Then the change has the final state, no other change is touched, its
  work key is free, so that enqueueing the same work again creates a new change, and repeating
  the acknowledgment changes nothing; a stale, repeated or unknown one never writes.\<close>

lemma ack_contract:
  assumes ok: "outbox_ok d" and st: "final_state st"
  shows "\<exists>a d'. ack op rvn gen st out now d = Inr (a, d') \<and> outbox_ok d'
    \<and> (a = Done \<longleftrightarrow> (\<exists>r. row (changes d) op = Some r \<and> ic_revision r = rvn \<and> ic_gen r = gen \<and> is_active r))
    \<and> (a \<noteq> Done \<longrightarrow> d' = d)
    \<and> (a = Done \<longrightarrow> (\<exists>r r'. row (changes d) op = Some r \<and> row (changes d') op = Some r'
         \<and> ic_state r' = st \<and> \<not> is_active r' \<and> row (work d') (ic_work_key r) = None
         \<and> (\<forall>k. k \<noteq> op \<longrightarrow> row (changes d') k = row (changes d) k)
         \<and> (\<forall>st2 out2 now2. final_state st2 \<longrightarrow> ack op rvn gen st2 out2 now2 d' = Inr (AlreadyDone, d'))
         \<and> (\<forall>c k. work_of c = ic_work_key r \<and> row (changes d) k = None \<longrightarrow>
              (\<exists>q d2. enqueue_in c k now d' = Inr (q, d2) \<and> eq_created q))))"
proof (cases "\<exists>r. row (changes d) op = Some r \<and> ic_revision r = rvn \<and> ic_gen r = gen \<and> is_active r")
  case False
  with ok st show ?thesis
    by (auto simp: ack_def is_active_def split: option.splits)
next
  case True
  then obtain r where r: "row (changes d) op = Some r" "ic_revision r = rvn" "ic_gen r = gen" "is_active r"
    by blast
  let ?d = "finish_change op (ic_work_key r) st out now d"
  have wk: "work_key (ic_kind r) (ic_id r) (ic_revision r) (ic_operation r) = ic_work_key r"
    using outbox_okD(2)[OF ok r(1)] by simp
  have done1: "ack op rvn gen st out now d = Inr (Done, ?d)"
    using r st wk by (simp add: ack_def is_active_def)
  have ok': "outbox_ok ?d" by (rule finish_change_ok[OF ok st r(1,4)])
  let ?r' = "r\<lparr>ic_state := st, ic_outcome := out, ic_updated_at := now\<rparr>"
  have row': "row (changes ?d) op = Some ?r'" using r by (simp add: finish_change_rows)
  have na: "\<not> is_active ?r'" using final_not_active[OF st] by blast
  have free: "row (work ?d) (ic_work_key r) = None"
    using outbox_okD(3)[OF ok r(1,4)] row_delete_where[OF outbox_ok_keyed(2)[OF ok]]
    by (simp add: finish_change_def)
  have others: "row (changes ?d) k = row (changes d) k" if "k \<noteq> op" for k
    using that by (simp add: finish_change_rows option.map_ident)
  have again: "ack op rvn gen st2 out2 now2 ?d = Inr (AlreadyDone, ?d)" if "final_state st2" for st2 out2 now2
    using row' na r that by (simp add: ack_def is_active_def)
  have enq: "\<exists>q d2. enqueue_in c k now ?d = Inr (q, d2) \<and> eq_created q"
    if "work_of c = ic_work_key r" "row (changes d) k = None" for c k
  proof -
    have "row (changes ?d) k = None" using that(2) by (simp add: finish_change_rows)
    moreover have "active_holder ?d (work_of c) = None" using free that(1) by (simp add: active_holder_def)
    ultimately show ?thesis by (simp add: enqueue_in_cases[OF ok'])
  qed
  show ?thesis
    by (rule exI[of _ Done], rule exI[of _ ?d])
      (use done1 ok' row' na free others again enq r in auto)
qed

definition wanted :: "string option \<Rightarrow> int \<Rightarrow> change \<Rightarrow> bool" where
  "wanted kind after r \<longleftrightarrow> (case kind of Some x \<Rightarrow> ic_kind r = x | None \<Rightarrow> True)
     \<and> ic_state r = ''pending'' \<and> after < ic_seq r"

text \<open>A page of pending changes is the prefix a cursor needs: only pending changes of the asked
  kind after the cursor, in increasing order; a change that is left out comes after all of
  them, and nothing is left out when the page is not full. So moving the cursor to the last
  one never skips a change, also not one enqueued later, since its number is larger.\<close>

lemma pending_prefix:
  assumes ok: "outbox_ok d"
  shows "sorted (map (\<lambda>(k, r). ic_seq r) (pending_filtered kind after n d))
    \<and> (\<forall>(k, r)\<in>set (pending_filtered kind after n d). row (changes d) k = Some r \<and> wanted kind after r)
    \<and> (\<forall>k r. row (changes d) k = Some r \<and> wanted kind after r \<and> (k, r) \<notin> set (pending_filtered kind after n d) \<longrightarrow>
         length (pending_filtered kind after n d) = n
         \<and> (\<forall>(i, x)\<in>set (pending_filtered kind after n d). ic_seq x < ic_seq r))
    \<and> (\<forall>c key now q d'. enqueue_in c key now d = Inr (q, d') \<and> eq_created q \<longrightarrow>
         (\<forall>(i, x)\<in>set (pending_filtered kind after n d). ic_seq x < eq_seq q))"
proof -
  let ?f = "\<lambda>(k, r). ic_seq r"
  let ?all = "sort_key ?f (filter (\<lambda>(k, r). wanted kind after r) (changes d))"
  let ?p = "pending_filtered kind after n d"
  have p: "?p = take n ?all"
    by (simp add: pending_filtered_def wanted_def[abs_def])
  have sorted: "sorted (map ?f ?all)" by (rule sorted_sort_key)
  then have s1: "sorted (map ?f ?p)" unfolding p take_map[symmetric] by (rule sorted_wrt_take)
  have mem: "row (changes d) k = Some r \<and> wanted kind after r" if "(k, r) \<in> set ?p" for k r
    using that outbox_ok_keyed(1)[OF ok] by (auto simp: p keyed_memD dest!: in_set_takeD)
  have distinct: "ic_seq x \<noteq> ic_seq r" if "(i, x) \<in> set (changes d)" "(k, r) \<in> set (changes d)" "(i, x) \<noteq> (k, r)"
    for i x k r
    using ok that by (force simp: outbox_ok_def distinct_map inj_on_def)
  have rest: "length ?p = n \<and> (\<forall>(i, x)\<in>set ?p. ic_seq x < ic_seq r)"
    if r: "row (changes d) k = Some r" "wanted kind after r" "(k, r) \<notin> set ?p" for k r
  proof -
    have inall: "(k, r) \<in> set ?all" using r(1,2) by (auto dest: map_of_SomeD)
    then have d: "(k, r) \<in> set (drop n ?all)"
      using r(3) unfolding p by (metis Un_iff append_take_drop_id set_append)
    then have "n < length ?all" by (metis drop_eq_Nil empty_iff empty_set not_le)
    then have len: "length ?p = n" by (simp add: p)
    have "sorted (map ?f (take n ?all @ drop n ?all))" using sorted by simp
    then have le: "\<forall>x\<in>set ?p. \<forall>y\<in>set (drop n ?all). ?f x \<le> ?f y"
      unfolding p map_append sorted_append by auto
    have "ic_seq x < ic_seq r" if x: "(i, x) \<in> set ?p" for i x
    proof -
      have "ic_seq x \<le> ic_seq r" using le x d by fastforce
      moreover have "(i, x) \<noteq> (k, r)" using x r(3) by auto
      moreover have "(i, x) \<in> set (changes d)" "(k, r) \<in> set (changes d)"
        using mem[OF x] r(1) by (auto dest: map_of_SomeD)
      ultimately show ?thesis using distinct[of i x k r] by linarith
    qed
    with len show ?thesis by auto
  qed
  have later: "ic_seq x < eq_seq q" if "enqueue_in c key now d = Inr (q, d')" "eq_created q" "(i, x) \<in> set ?p"
    for c key now q d' i x
  proof -
    have "eq_seq q = current (ctr d) SEQ_COUNTER + 1"
      using that(1,2) unfolding enqueue_in_cases[OF ok] by (auto split: option.splits if_splits)
    with mem[OF that(3)] outbox_okD(1)[OF ok, of i x] show ?thesis by simp
  qed
  show ?thesis using s1 mem rest later by fast
qed

section \<open>The outbox as a step system\<close>

inductive outbox_step :: "outbox \<Rightarrow> outbox \<Rightarrow> bool" where
  o_enqueue: "enqueue_in c k now d = Inr (q, d') \<Longrightarrow> outbox_step d d'"
| o_many: "enqueue_many_in cs None now d = Inr (r, d') \<Longrightarrow> outbox_step d d'"
| o_ack: "ack op rvn gen st out now d = Inr (a, d') \<Longrightarrow> outbox_step d d'"
| o_ack_many: "ack_many items now d = Inr (u, d') \<Longrightarrow> outbox_step d d'"
| o_active: "set_active_state op st now d = Inr (b, d') \<Longrightarrow> outbox_step d d'"

lemma enqueue_many_ok:
  assumes ok: "outbox_ok d" and r: "enqueue_many_in cs None now d = Inr (p, d')"
  shows "outbox_ok d'"
proof -
  from enqueue_blocks_each[OF ok] obtain rs d1 where b: "enqueue_blocks cs now d = Inr (rs, d1)" "outbox_ok d1"
    by blast
  from r b(1) have "d' = d \<or> d' = d1"
    by (auto simp: enqueue_many_in_def split: if_splits sum.splits)
  with ok b(2) show ?thesis by blast
qed

lemma outbox_step_ok: "outbox_ok d \<Longrightarrow> outbox_step d d' \<Longrightarrow> outbox_ok d'"
  by (erule outbox_step.cases) (blast intro: enqueue_in_ok enqueue_many_ok ack_ok ack_many_ok set_active_ok)+

definition empty_outbox :: outbox where
  "empty_outbox = \<lparr>changes = [], work = [], ctr = \<lparr>counter_rows = (\<lambda>_. None), alloc_receipts = []\<rparr>\<rparr>"

lemma empty_outbox_ok: "outbox_ok empty_outbox"
  by (simp add: outbox_ok_def empty_outbox_def)

interpretation outbox_sys: step_system "\<lambda>d. d = empty_outbox" outbox_step outbox_ok
  by unfold_locales (auto simp: empty_outbox_ok intro: outbox_step_ok)

text \<open>C14: In every reachable state of the outbox at most one change per work key is active, each active
  change holds its work key, no two changes share a sequence number, and none is beyond the
  counter.\<close>

theorem outbox_reachable:
  assumes "run_of outbox_step empty_outbox d"
  shows "(\<forall>k r k' r'. row (changes d) k = Some r \<and> row (changes d) k' = Some r' \<and> is_active r \<and> is_active r'
        \<and> ic_work_key r = ic_work_key r' \<longrightarrow> k = k')
    \<and> (\<forall>k r. row (changes d) k = Some r \<and> is_active r \<longrightarrow> row (work d) (ic_work_key r) = Some k)
    \<and> distinct (map (\<lambda>(k, r). ic_seq r) (changes d))
    \<and> (\<forall>(k, r)\<in>set (changes d). ic_seq r \<le> current (ctr d) SEQ_COUNTER)"
proof -
  have ok: "outbox_ok d" using outbox_sys.inv_reachable[OF refl assms] .
  with one_active[OF ok] outbox_okD(3)[OF ok] show ?thesis
    by (auto simp: outbox_ok_def)
qed

section \<open>Witnesses\<close>

definition demo_change :: "string \<Rightarrow> new_change" where
  "demo_change rv = \<lparr>nc_kind = ''article'', nc_id = ''x'', nc_revision = rv, nc_operation = ''upsert'',
     nc_gen = ''g'', nc_content_hash = [], nc_task = [], nc_job = []\<rparr>"

definition demo_outbox :: outbox where
  "demo_outbox = added (demo_change ''1'') ''k1'' 5 empty_outbox"

lemma demo_enqueue: "enqueue_in (demo_change ''1'') ''k1'' 5 empty_outbox =
    Inr (\<lparr>eq_seq = 1, eq_key = ''k1'', eq_created = True\<rparr>, demo_outbox)"
  unfolding enqueue_in_cases[OF empty_outbox_ok]
  by (simp add: demo_outbox_def empty_outbox_def active_holder_def current_def)

lemma demo_outbox_ok: "outbox_ok demo_outbox"
  using enqueue_in_ok[OF empty_outbox_ok demo_enqueue] .

lemma demo_outbox_row:
  "row (changes demo_outbox) ''k1'' = Some (fresh_change (demo_change ''1'') 1 5)"
  by (simp add: demo_outbox_def added_def empty_outbox_def next_in_def)

theorem outbox_reachable_witness:
  "run_of outbox_step empty_outbox demo_outbox
   \<and> row (work demo_outbox) (ic_work_key (fresh_change (demo_change ''1'') 1 5)) = Some ''k1''"
proof -
  have run: "run_of outbox_step empty_outbox demo_outbox"
    using run_refl o_enqueue[OF demo_enqueue] by (rule run_step)
  from outbox_reachable[OF run] demo_outbox_row run show ?thesis
    by (meson fresh_active)
qed

theorem enqueue_in_contract_witness:
  "\<exists>q'. enqueue_in (demo_change ''1'') ''k1'' 9 demo_outbox = Inr (q', demo_outbox) \<and> eq_seq q' = 1"
  using enqueue_in_contract[OF empty_outbox_ok demo_enqueue, of 9] by auto

theorem enqueue_many_equiv_witness:
  "\<exists>q d. enqueue_many_in [(demo_change ''1'', ''k2'')] None 9 demo_outbox = Inr (([q], None), d)
     \<and> eq_key q = ''k1''"
proof -
  have "row (changes demo_outbox) ''k2'' = None"
    by (simp add: demo_outbox_def added_def empty_outbox_def next_in_def)
  moreover have "active_holder demo_outbox (work_of (demo_change ''1'')) =
      Some (''k1'', fresh_change (demo_change ''1'') 1 5)"
    using demo_outbox_row by (simp add: active_holder_iff[OF demo_outbox_ok] fresh_change_def[of _ 1])
      (simp add: is_active_def ACTIVE_STATES_def)
  ultimately have "enqueue_in (demo_change ''1'') ''k2'' 9 demo_outbox =
      Inr (\<lparr>eq_seq = 1, eq_key = ''k1'', eq_created = False\<rparr>, demo_outbox)"
    unfolding enqueue_in_cases[OF demo_outbox_ok] by (simp add: fresh_change_def)
  with enqueue_many_equiv[OF demo_outbox_ok, of "[(demo_change ''1'', ''k2'')]" None 9]
  show ?thesis by simp
qed

theorem ack_contract_witness:
  "\<exists>d'. ack ''k1'' ''1'' ''g'' ''completed'' [] 9 demo_outbox = Inr (Done, d') \<and> outbox_ok d'"
proof -
  have st: "final_state ''completed''" by (simp add: final_state_def)
  have "\<exists>r. row (changes demo_outbox) ''k1'' = Some r \<and> ic_revision r = ''1'' \<and> ic_gen r = ''g'' \<and> is_active r"
    by (simp add: demo_outbox_row) (simp add: fresh_change_def demo_change_def)
  with ack_contract[OF demo_outbox_ok st, of "''k1''" "''1''" "''g''" "[]" 9] show ?thesis by metis
qed

theorem pending_prefix_witness:
  "row (changes demo_outbox) ''k1'' \<noteq> None
   \<and> (''k1'', fresh_change (demo_change ''1'') 1 5) \<in> set (pending_filtered None 0 3 demo_outbox)"
proof (rule conjI, simp add: demo_outbox_row, rule ccontr)
  let ?r = "fresh_change (demo_change ''1'') 1 5"
  assume no: "(''k1'', ?r) \<notin> set (pending_filtered None 0 3 demo_outbox)"
  have "wanted None 0 ?r" by (simp add: wanted_def fresh_change_def)
  with pending_prefix[OF demo_outbox_ok, of None 0 3] demo_outbox_row no
  have "length (pending_filtered None 0 3 demo_outbox) = 3" by blast
  moreover have "length (changes demo_outbox) = 1"
    by (simp add: demo_outbox_def added_def empty_outbox_def next_in_def)
  then have "length (pending_filtered None 0 3 demo_outbox) \<le> 1"
    unfolding pending_filtered_def
    by (metis (no_types, lifting) le_trans length_filter_le length_sort length_take min.cobounded1)
  ultimately show False by simp
qed

end
