(* ===== verification/Credits.thy ===== *)
theory Credits
  imports Tx
begin

text \<open>
  The provider credit ledger (\<open>storage/credits.rs\<close>): quota refresh, holds, reconciliation at the
  actual cost, release, and the release of every hold at recovery. \<open>u32\<close> values are \<open>nat\<close>, with
  their bound where the code converts; \<open>i64\<close> columns are \<open>int\<close>. \<open>clock\<close> is the RFC 3339 text of
  the current instant, whose first seven characters are the month.
\<close>

section \<open>State\<close>

record quota =
  q_allowance :: int
  q_trial_remaining :: int
  q_trial_seed :: int
  q_reserved :: int
  q_spent :: int
  q_reset_policy :: string
  q_period_start :: string
  q_updated_at :: string

record reservation =
  rv_provider :: string
  rv_trial :: int
  rv_allowance :: int
  rv_state :: string
  rv_created_at :: string

record ledger =
  quotas :: "quota tbl"
  reservations :: "reservation tbl"

record credit_hold =
  h_id :: string
  h_provider :: string
  h_trial :: nat
  h_allowance :: nat

text \<open>The fields of \<open>ReconLimits\<close> this module reads.\<close>

record limits =
  credit_reset :: string
  firecrawl_credits :: nat
  hunter_credits :: nat
  sociavault_credits :: nat
  whoxy_credits :: nat
  firecrawl_trial_credits :: nat
  hunter_trial_credits :: nat
  sociavault_trial_credits :: nat

definition allowance :: "limits \<Rightarrow> string \<Rightarrow> nat" where
  "allowance l p = (if p = ''firecrawl'' then firecrawl_credits l
     else if p = ''hunter'' then hunter_credits l
     else if p = ''sociavault'' then sociavault_credits l
     else if p = ''whoxy'' then whoxy_credits l else 0)"

definition trial_grant :: "limits \<Rightarrow> string \<Rightarrow> nat" where
  "trial_grant l p = (if p = ''firecrawl'' then firecrawl_trial_credits l
     else if p = ''hunter'' then hunter_trial_credits l
     else if p = ''sociavault'' then sociavault_trial_credits l else 0)"

definition same_budget_month :: "string \<Rightarrow> string \<Rightarrow> bool" where
  "same_budget_month clock stored = starts_with (take 7 clock) stored"

section \<open>Numbers\<close>

definition u32_max :: nat where "u32_max = 4294967295"
definition i64_max :: int where "i64_max = 9223372036854775807"

definition sat_sub :: "int \<Rightarrow> int \<Rightarrow> int" where
  "sat_sub a b = max (- i64_max - 1) (min i64_max (a - b))"

text \<open>\<open>u32::try_from(n).unwrap_or(d)\<close>\<close>

definition to_u32 :: "nat \<Rightarrow> int \<Rightarrow> nat" where
  "to_u32 d n = (if 0 \<le> n \<and> n \<le> int u32_max then nat n else d)"

definition sat_add_u32 :: "nat \<Rightarrow> nat \<Rightarrow> nat" where
  "sat_add_u32 a b = min (a + b) u32_max"

definition allowance_left :: "quota \<Rightarrow> int" where
  "allowance_left q = max (sat_sub (sat_sub (q_allowance q) (q_spent q)) (q_reserved q)) 0"

section \<open>Operations\<close>

definition touch_quota :: "limits \<Rightarrow> string \<Rightarrow> string \<Rightarrow> quota option \<Rightarrow> quota" where
  "touch_quota l p clock old =
     (let reset = (if p = ''whoxy'' \<or> credit_reset l = ''never'' then ''never'' else ''monthly'');
          al = int (allowance l p); trial = int (trial_grant l p);
          q1 = (case old of
            Some q \<Rightarrow> q\<lparr>q_allowance := al, q_reset_policy := reset, q_updated_at := clock\<rparr>
          | None \<Rightarrow> \<lparr>q_allowance = al, q_trial_remaining = trial, q_trial_seed = trial,
              q_reserved = 0, q_spent = 0, q_reset_policy = reset, q_period_start = clock,
              q_updated_at = clock\<rparr>);
          q2 = (if trial > q_trial_seed q1
            then q1\<lparr>q_trial_remaining := q_trial_remaining q1 + (trial - q_trial_seed q1),
                   q_trial_seed := trial, q_updated_at := clock\<rparr> else q1)
      in if q_reset_policy q1 \<noteq> ''never'' \<and> \<not> same_budget_month clock (q_period_start q1)
         then q2\<lparr>q_spent := 0, q_period_start := clock, q_updated_at := clock\<rparr> else q2)"

definition touch_in :: "limits \<Rightarrow> string \<Rightarrow> string \<Rightarrow> ledger \<Rightarrow> quota \<times> ledger" where
  "touch_in l p clock d = (let q = touch_quota l p clock (row (quotas d) p)
     in (q, d\<lparr>quotas := put p q (quotas d)\<rparr>))"

definition credits_available :: "limits \<Rightarrow> string \<Rightarrow> string \<Rightarrow> (ledger, nat) body" where
  "credits_available l p clock d = (let (q, d') = touch_in l p clock d
     in Inr (to_u32 u32_max (max (q_trial_remaining q) 0 + allowance_left q), d'))"

text \<open>The three \<open>UPDATE provider_quota\<close> statements: taking a hold, giving it back, charging.\<close>

definition take_hold :: "nat \<Rightarrow> nat \<Rightarrow> string \<Rightarrow> quota \<Rightarrow> quota" where
  "take_hold t a clock q = q\<lparr>q_trial_remaining := q_trial_remaining q - int t,
     q_reserved := q_reserved q + int a, q_updated_at := clock\<rparr>"

definition give_back :: "credit_hold \<Rightarrow> string \<Rightarrow> quota \<Rightarrow> quota" where
  "give_back h clock q = q\<lparr>q_trial_remaining := q_trial_remaining q + int (h_trial h),
     q_reserved := (if q_reserved q > int (h_allowance h)
       then q_reserved q - int (h_allowance h) else 0), q_updated_at := clock\<rparr>"

definition charge :: "nat \<Rightarrow> nat \<Rightarrow> string \<Rightarrow> quota \<Rightarrow> quota" where
  "charge t a clock q = q\<lparr>q_trial_remaining := q_trial_remaining q - int t,
     q_spent := q_spent q + int a, q_updated_at := clock\<rparr>"

definition reserve_credits ::
  "limits \<Rightarrow> string \<Rightarrow> string \<Rightarrow> string \<Rightarrow> nat \<Rightarrow> (ledger, credit_hold option) body" where
  "reserve_credits l clock hold_id p cost d =
     (if cost = 0 then Inr (Some \<lparr>h_id = [], h_provider = p, h_trial = 0, h_allowance = 0\<rparr>, d)
      else
        let (q, d1) = touch_in l p clock d;
            trial_left = to_u32 0 (max (q_trial_remaining q) 0);
            al = to_u32 0 (allowance_left q)
        in if sat_add_u32 trial_left al < cost then Inr (None, d1)
           else
             let from_trial = min cost trial_left; from_allowance = cost - from_trial;
                 d2 = d1\<lparr>quotas := update_one p (take_hold from_trial from_allowance clock) (quotas d1)\<rparr>
             in case row (reservations d2) hold_id of
                  Some _ \<Rightarrow> Inl already_exists
                | None \<Rightarrow> Inr (Some \<lparr>h_id = hold_id, h_provider = p, h_trial = from_trial,
                        h_allowance = from_allowance\<rparr>,
                    d2\<lparr>reservations := put hold_id \<lparr>rv_provider = p, rv_trial = int from_trial,
                        rv_allowance = int from_allowance, rv_state = ''held'',
                        rv_created_at = clock\<rparr> (reservations d2)\<rparr>))"

definition is_held :: "ledger \<Rightarrow> string \<Rightarrow> bool" where
  "is_held d i = (case row (reservations d) i of Some r \<Rightarrow> rv_state r = ''held'' | None \<Rightarrow> False)"

definition unhold_in :: "string \<Rightarrow> credit_hold \<Rightarrow> string \<Rightarrow> ledger \<Rightarrow> bool \<times> ledger" where
  "unhold_in clock h state d =
     (if is_held d (h_id h) then (True, d\<lparr>
         reservations := update_one (h_id h) (\<lambda>r. r\<lparr>rv_state := state\<rparr>) (reservations d),
         quotas := update_one (h_provider h) (give_back h clock) (quotas d)\<rparr>)
      else (False, d))"

definition reconcile_credits :: "string \<Rightarrow> credit_hold \<Rightarrow> nat \<Rightarrow> (ledger, unit) body" where
  "reconcile_credits clock h actual d =
     (if h_id h = [] then Inr ((), d)
      else let (was_held, d1) = unhold_in clock h ''spent'' d in
        if \<not> was_held then Inr ((), d1)
        else
          let trial_now = (case row (quotas d1) (h_provider h) of
                Some q \<Rightarrow> q_trial_remaining q | None \<Rightarrow> 0);
              from_trial = min actual (to_u32 0 (max trial_now 0))
          in Inr ((), d1\<lparr>quotas := update_one (h_provider h) (charge from_trial (actual - from_trial) clock) (quotas d1)\<rparr>))"

definition release_credits :: "string \<Rightarrow> credit_hold \<Rightarrow> (ledger, unit) body" where
  "release_credits clock h d =
     (if h_id h = [] then Inr ((), d) else Inr ((), snd (unhold_in clock h ''released'' d)))"

text \<open>\<open>n.max(0) as u32\<close>\<close>

definition as_u32 :: "int \<Rightarrow> nat" where
  "as_u32 n = nat (max n 0) mod 2 ^ 32"

definition hold_of :: "string \<times> reservation \<Rightarrow> credit_hold" where
  "hold_of = (\<lambda>(i, r). \<lparr>h_id = i, h_provider = rv_provider r, h_trial = as_u32 (rv_trial r),
     h_allowance = as_u32 (rv_allowance r)\<rparr>)"

fun release_each :: "string \<Rightarrow> credit_hold list \<Rightarrow> ledger \<Rightarrow> tx_error + ledger" where
  "release_each clock [] d = Inr d"
| "release_each clock (h # hs) d =
     (case release_credits clock h d of Inl e \<Rightarrow> Inl e | Inr (_, d') \<Rightarrow> release_each clock hs d')"

definition release_held_credits :: "string \<Rightarrow> ledger \<Rightarrow> tx_error + (nat \<times> ledger)" where
  "release_held_credits clock d =
     (let rows = filter (\<lambda>(i, r). rv_state r = ''held'') (reservations d)
      in case release_each clock (map hold_of rows) d of
           Inl e \<Rightarrow> Inl e | Inr d' \<Rightarrow> Inr (length rows, d'))"

section \<open>The ledger invariant\<close>

definition held_amount :: "string \<Rightarrow> reservation \<Rightarrow> int" where
  "held_amount p r = (if rv_provider r = p \<and> rv_state r = ''held'' then rv_allowance r else 0)"

definition held_sum :: "ledger \<Rightarrow> string \<Rightarrow> int" where
  "held_sum d p = sum_list (map (\<lambda>(i, r). held_amount p r) (reservations d))"

text \<open>
  What is reserved of a pool is exactly what its open holds took from it, trial credits are never
  negative, and every reservation belongs to an existing pool and fits \<open>u32\<close>.
\<close>

definition ledger_ok :: "ledger \<Rightarrow> bool" where
  "ledger_ok d \<longleftrightarrow> keyed (quotas d) \<and> keyed (reservations d)
     \<and> (\<forall>p q. row (quotas d) p = Some q \<longrightarrow> 0 \<le> q_trial_remaining q \<and> q_reserved q = held_sum d p)
     \<and> (\<forall>i r. row (reservations d) i = Some r \<longrightarrow> i \<noteq> [] \<and> row (quotas d) (rv_provider r) \<noteq> None
          \<and> 0 \<le> rv_trial r \<and> rv_trial r \<le> int u32_max \<and> 0 \<le> rv_allowance r \<and> rv_allowance r \<le> int u32_max)"

definition hold_matches :: "ledger \<Rightarrow> credit_hold \<Rightarrow> bool" where
  "hold_matches d h \<longleftrightarrow> h_id h \<noteq> [] \<and> (\<exists>r. row (reservations d) (h_id h) = Some r
     \<and> rv_provider r = h_provider h \<and> rv_trial r = int (h_trial h) \<and> rv_allowance r = int (h_allowance h))"

definition balance :: "quota \<Rightarrow> int" where
  "balance q = q_trial_remaining q + q_allowance q - q_spent q - q_reserved q"

lemma ledger_okD:
  assumes "ledger_ok d"
  shows "keyed (quotas d)" "keyed (reservations d)"
    "row (quotas d) p = Some q \<Longrightarrow> 0 \<le> q_trial_remaining q"
    "row (quotas d) p = Some q \<Longrightarrow> q_reserved q = held_sum d p"
    "row (reservations d) i = Some r \<Longrightarrow> i \<noteq> [] \<and> row (quotas d) (rv_provider r) \<noteq> None
       \<and> 0 \<le> rv_trial r \<and> rv_trial r \<le> int u32_max \<and> 0 \<le> rv_allowance r \<and> rv_allowance r \<le> int u32_max"
  using assms by (auto simp: ledger_ok_def)

lemma sum_update_one:
  assumes "keyed t" and "row t i = Some r"
  shows "sum_list (map (\<lambda>(k, r). w r) (update_one i f t)) = sum_list (map (\<lambda>(k, r). w r) t) - w r + (w (f r) :: int)"
  using assms
proof (induction t)
  case (Cons x t)
  obtain k s where x: "x = (k, s)" by (cases x)
  show ?case
  proof (cases "k = i")
    case True
    with Cons.prems x have "s = r" "i \<notin> fst ` set t" by (auto simp: keyed_def)
    then have "update_one i f t = t"
      by (induction t) (auto simp: update_where_def)
    with True x \<open>s = r\<close> show ?thesis by (simp add: update_where_def)
  next
    case False
    with Cons x show ?thesis by (simp add: update_where_def keyed_def)
  qed
qed simp

lemma sum_member_le:
  assumes "row t i = Some r" and "\<And>k s. (k, s) \<in> set t \<Longrightarrow> 0 \<le> (w s :: int)"
  shows "w r \<le> sum_list (map (\<lambda>(k, r). w r) t)"
  using assms
proof (induction t)
  case (Cons x t)
  obtain k s where x: "x = (k, s)" by (cases x)
  have nn: "0 \<le> sum_list (map (\<lambda>(k, r). w r) t)"
    using Cons.prems(2) by (intro sum_list_nonneg) auto
  show ?case
    using Cons nn x by (cases "k = i") (force)+
qed simp

lemma held_sum_put:
  "row (reservations d) i = None \<Longrightarrow>
     held_sum (d\<lparr>reservations := put i r (reservations d)\<rparr>) p = held_sum d p + held_amount p r"
  by (simp add: held_sum_def put_new)

lemma held_sum_quotas [simp]: "held_sum (d\<lparr>quotas := qs\<rparr>) = held_sum d"
  by (simp add: held_sum_def fun_eq_iff)

lemma held_amount_le:
  assumes "ledger_ok d" "row (reservations d) i = Some r" "rv_state r = ''held''"
  shows "rv_allowance r \<le> held_sum d (rv_provider r)"
proof -
  have "0 \<le> held_amount (rv_provider r) s" if "(k, s) \<in> set (reservations d)" for k s
    using ledger_okD(5)[OF assms(1) keyed_memD[OF ledger_okD(2)[OF assms(1)] that]]
    by (simp add: held_amount_def)
  from sum_member_le[where w = "held_amount (rv_provider r)", OF assms(2) this] assms(3)
  show ?thesis by (simp add: held_sum_def held_amount_def)
qed

section \<open>Touching a pool\<close>

lemma touch_trial_nonneg:
  "(\<And>q. old = Some q \<Longrightarrow> 0 \<le> q_trial_remaining q) \<Longrightarrow> 0 \<le> q_trial_remaining (touch_quota l p clock old)"
  by (cases old) (simp_all add: touch_quota_def Let_def)

lemma touch_reserved: "q_reserved (touch_quota l p clock old) = (case old of Some q \<Rightarrow> q_reserved q | None \<Rightarrow> 0)"
  by (cases old) (simp_all add: touch_quota_def Let_def)

lemma held_sum_no_quota:
  assumes "ledger_ok d" "row (quotas d) p = None"
  shows "held_sum d p = 0"
proof -
  have z: "held_amount p r = 0" if "(i, r) \<in> set (reservations d)" for i r
    using ledger_okD(5)[OF assms(1) keyed_memD[OF ledger_okD(2)[OF assms(1)] that]] assms(2)
    by (auto simp: held_amount_def)
  have "sum_list (map (\<lambda>(i, r). held_amount p r) xs) = 0" if "set xs \<subseteq> set (reservations d)" for xs
    using that by (induction xs) (auto simp: z)
  then show ?thesis by (simp add: held_sum_def)
qed

lemma touch_in_ok:
  assumes ok: "ledger_ok d" and t: "touch_in l p clock d = (q, d')"
  shows "ledger_ok d' \<and> row (quotas d') p = Some q \<and> reservations d' = reservations d
    \<and> (\<forall>x. x \<noteq> p \<longrightarrow> row (quotas d') x = row (quotas d) x)"
proof -
  from t have q: "q = touch_quota l p clock (row (quotas d) p)" and d': "d' = d\<lparr>quotas := put p q (quotas d)\<rparr>"
    by (auto simp: touch_in_def Let_def)
  have "0 \<le> q_trial_remaining q"
    unfolding q using ledger_okD(3)[OF ok] by (rule touch_trial_nonneg)
  moreover have "q_reserved q = held_sum d p"
    unfolding q touch_reserved using ledger_okD(4)[OF ok] held_sum_no_quota[OF ok] by (auto split: option.splits)
  ultimately show ?thesis
    using ok by (auto simp: d' ledger_ok_def)
qed

section \<open>Holding and releasing\<close>

lemma to_u32_le: "0 \<le> n \<Longrightarrow> int (to_u32 0 n) \<le> n"
  by (simp add: to_u32_def)

lemma edit_selects [simp]:
  "q_trial_remaining (take_hold t a c q) = q_trial_remaining q - int t"
  "q_reserved (take_hold t a c q) = q_reserved q + int a"
  "q_spent (take_hold t a c q) = q_spent q" "q_allowance (take_hold t a c q) = q_allowance q"
  "q_trial_remaining (charge t a c q) = q_trial_remaining q - int t"
  "q_reserved (charge t a c q) = q_reserved q"
  "q_spent (charge t a c q) = q_spent q + int a" "q_allowance (charge t a c q) = q_allowance q"
  "q_trial_remaining (give_back h c q) = q_trial_remaining q + int (h_trial h)"
  "q_spent (give_back h c q) = q_spent q" "q_allowance (give_back h c q) = q_allowance q"
  "int (h_allowance h) \<le> q_reserved q \<Longrightarrow> q_reserved (give_back h c q) = q_reserved q - int (h_allowance h)"
  by (simp_all add: take_hold_def charge_def give_back_def)

lemma row_edit:
  "row t p = Some q \<Longrightarrow> row (update_one p f t) x = (if x = p then Some (f q) else row t x)"
  by (auto simp: map_option_case split: option.splits)

text \<open>One pool is edited and the reservations become \<open>rs\<close>: the ledger stays consistent when the
  pool's new reserved amount is what the open holds of \<open>rs\<close> took.\<close>

lemma ledger_ok_edit:
  assumes ok: "ledger_ok d" and q: "row (quotas d) p = Some q" and t: "0 \<le> q_trial_remaining (f q)"
    and r: "q_reserved (f q) = held_sum (d\<lparr>reservations := rs\<rparr>) p"
    and o: "\<And>x. x \<noteq> p \<Longrightarrow> held_sum (d\<lparr>reservations := rs\<rparr>) x = held_sum d x"
    and k: "keyed rs"
    and w: "\<And>i x. row rs i = Some x \<Longrightarrow> i \<noteq> [] \<and> row (quotas d) (rv_provider x) \<noteq> None
      \<and> 0 \<le> rv_trial x \<and> rv_trial x \<le> int u32_max \<and> 0 \<le> rv_allowance x \<and> rv_allowance x \<le> int u32_max"
  shows "ledger_ok (d\<lparr>quotas := update_one p f (quotas d), reservations := rs\<rparr>)"
  unfolding ledger_ok_def
proof (intro conjI allI impI)
  let ?d = "d\<lparr>quotas := update_one p f (quotas d), reservations := rs\<rparr>"
  have h: "held_sum ?d = held_sum (d\<lparr>reservations := rs\<rparr>)" by (simp add: held_sum_def fun_eq_iff)
  show "keyed (quotas ?d)" "keyed (reservations ?d)" using ok k by (simp_all add: ledger_ok_def)
  fix x y assume y: "row (quotas ?d) x = Some y"
  then have "x = p \<and> y = f q \<or> x \<noteq> p \<and> row (quotas d) x = Some y"
    using row_edit[OF q, of f x] by (cases "x = p") (simp_all del: row_update_where)
  then show "0 \<le> q_trial_remaining y" "q_reserved y = held_sum ?d x"
    unfolding h using t r o ledger_okD(3,4)[OF ok] by metis+
next
  let ?d = "d\<lparr>quotas := update_one p f (quotas d), reservations := rs\<rparr>"
  fix i x assume "row (reservations ?d) i = Some x"
  then have "row rs i = Some x" by simp
  from w[OF this] show "i \<noteq> []" "row (quotas ?d) (rv_provider x) \<noteq> None"
    "0 \<le> rv_trial x" "rv_trial x \<le> int u32_max" "0 \<le> rv_allowance x" "rv_allowance x \<le> int u32_max"
    by (auto simp: row_edit[OF q] split: option.splits)
qed

lemma ledger_ok_charge:
  assumes "ledger_ok d" "row (quotas d) p = Some q" "0 \<le> q_trial_remaining (f q)" "q_reserved (f q) = q_reserved q"
  shows "ledger_ok (d\<lparr>quotas := update_one p f (quotas d)\<rparr>)"
  using ledger_ok_edit[where f = f and rs = "reservations d", OF assms(1-3)] assms ledger_okD[OF assms(1)] by simp

lemma is_held_iff: "is_held d i \<longleftrightarrow> (\<exists>r. row (reservations d) i = Some r \<and> rv_state r = ''held'')"
  by (auto simp: is_held_def split: option.splits)

lemma unhold_ok:
  assumes ok: "ledger_ok d" and m: "hold_matches d h" and held: "is_held d (h_id h)" and s: "state \<noteq> ''held''"
    and u: "unhold_in clock h state d = (b, d')"
  shows "b \<and> ledger_ok d' \<and> \<not> is_held d' (h_id h)
    \<and> (\<exists>q q'. row (quotas d) (h_provider h) = Some q \<and> row (quotas d') (h_provider h) = Some q'
        \<and> q_trial_remaining q' = q_trial_remaining q + int (h_trial h)
        \<and> q_reserved q' = q_reserved q - int (h_allowance h) \<and> q_spent q' = q_spent q
        \<and> q_allowance q' = q_allowance q)
    \<and> (\<forall>p. p \<noteq> h_provider h \<longrightarrow> row (quotas d') p = row (quotas d) p)
    \<and> (\<forall>i. i \<noteq> h_id h \<longrightarrow> row (reservations d') i = row (reservations d) i)"
proof -
  from m obtain r where r: "row (reservations d) (h_id h) = Some r" "rv_provider r = h_provider h"
    "rv_trial r = int (h_trial h)" "rv_allowance r = int (h_allowance h)" by (auto simp: hold_matches_def)
  with held have rs: "rv_state r = ''held''" by (simp add: is_held_def)
  from ledger_okD(5)[OF ok r(1)] r(2) obtain q where q: "row (quotas d) (h_provider h) = Some q" by auto
  have le: "int (h_allowance h) \<le> q_reserved q"
    using held_amount_le[OF ok r(1) rs] ledger_okD(4)[OF ok q] r by simp
  let ?rs = "update_one (h_id h) (\<lambda>r. r\<lparr>rv_state := state\<rparr>) (reservations d)"
  have d': "d' = d\<lparr>quotas := update_one (h_provider h) (give_back h clock) (quotas d), reservations := ?rs\<rparr>" and b: "b"
    using u held by (auto simp: unhold_in_def)
  have "held_sum (d\<lparr>reservations := ?rs\<rparr>) p = held_sum d p - held_amount p r + held_amount p (r\<lparr>rv_state := state\<rparr>)" for p
    unfolding held_sum_def using sum_update_one[OF ledger_okD(2)[OF ok] r(1)] by simp
  then have sums: "held_sum (d\<lparr>reservations := ?rs\<rparr>) p = held_sum d p - (if p = h_provider h then int (h_allowance h) else 0)" for p
    using r rs s by (simp add: held_amount_def)
  note rows = row_edit[OF r(1), of "\<lambda>r. r\<lparr>rv_state := state\<rparr>"]
  have "ledger_ok d'"
    unfolding d'
  proof (rule ledger_ok_edit[OF ok q])
    show "0 \<le> q_trial_remaining (give_back h clock q)" using ledger_okD(3)[OF ok q] by simp
    show "keyed ?rs" using ok by (simp add: ledger_ok_def)
    fix i x assume "row ?rs i = Some x"
    then obtain y where y: "row (reservations d) i = Some y" "rv_provider x = rv_provider y"
      "rv_trial x = rv_trial y" "rv_allowance x = rv_allowance y"
      using r(1) unfolding rows by (auto split: if_splits)
    with ledger_okD(5)[OF ok y(1)] show "i \<noteq> [] \<and> row (quotas d) (rv_provider x) \<noteq> None
      \<and> 0 \<le> rv_trial x \<and> rv_trial x \<le> int u32_max \<and> 0 \<le> rv_allowance x \<and> rv_allowance x \<le> int u32_max" by simp
  qed (use ledger_okD(4)[OF ok q] le sums in simp_all)
  moreover have "\<not> is_held d' (h_id h)" using s rows by (simp add: is_held_iff d' del: row_update_where)
  ultimately show ?thesis
    using b q le by (simp add: d' rows row_edit[OF q] del: row_update_where)
qed

lemma reserved_nonneg:
  assumes ok: "ledger_ok d" and q: "row (quotas d) p = Some q"
  shows "0 \<le> q_reserved q"
proof -
  have "0 \<le> held_amount p s" if "(k, s) \<in> set (reservations d)" for k s
    using ledger_okD(5)[OF ok keyed_memD[OF ledger_okD(2)[OF ok] that]] by (simp add: held_amount_def)
  then show ?thesis unfolding ledger_okD(4)[OF ok q] held_sum_def by (intro sum_list_nonneg) auto
qed

text \<open>The split of a cost into a trial part and an allowance part.\<close>

lemma cost_split:
  fixes cost :: nat and q :: quota
  defines "t \<equiv> to_u32 0 (max (q_trial_remaining q) 0)" and "a \<equiv> to_u32 0 (allowance_left q)"
  assumes pos: "0 \<le> q_trial_remaining q" "0 \<le> q_reserved q" and fits: "\<not> sat_add_u32 t a < cost"
  shows "int (min cost t) \<le> q_trial_remaining q"
    and "min cost t < cost \<Longrightarrow> int u32_max < q_trial_remaining q \<or>
      q_trial_remaining q = int (min cost t)
      \<and> q_reserved q + int (cost - min cost t) + q_spent q \<le> q_allowance q"
proof -
  have mx: "max (q_trial_remaining q) 0 = q_trial_remaining q" using pos(1) by simp
  have tle: "int t \<le> q_trial_remaining q" unfolding t_def mx by (rule to_u32_le[OF pos(1)])
  then show "int (min cost t) \<le> q_trial_remaining q" by linarith
  assume p0: "min cost t < cost"
  then have m: "min cost t = t" "t < cost" by auto
  have fa: "cost - t \<le> a" using fits by (auto simp: sat_add_u32_def min_def split: if_splits)
  have al: "int a \<le> allowance_left q" unfolding a_def by (rule to_u32_le) (simp add: allowance_left_def)
  have cut: "int (cost - t) \<le> allowance_left q" using fa al by linarith
  with m have "0 < allowance_left q" by linarith
  then have "allowance_left q \<le> q_allowance q - q_spent q - q_reserved q"
    using pos(2) by (auto simp: allowance_left_def sat_sub_def i64_max_def)
  moreover have "q_trial_remaining q = int t" if "\<not> int u32_max < q_trial_remaining q"
    using that pos(1) unfolding t_def mx by (simp add: to_u32_def)
  ultimately show "int u32_max < q_trial_remaining q \<or> q_trial_remaining q = int (min cost t)
      \<and> q_reserved q + int (cost - min cost t) + q_spent q \<le> q_allowance q"
    unfolding m(1) using cut by linarith
qed

lemma reserve_ok:
  assumes ok: "ledger_ok d" and q: "row (quotas d) p = Some q" and t: "int t \<le> q_trial_remaining q"
    and a: "t \<le> u32_max" "a \<le> u32_max" and new: "row (reservations d) i = None" "i \<noteq> []"
  shows "ledger_ok (d\<lparr>quotas := update_one p (take_hold t a clock) (quotas d),
    reservations := put i \<lparr>rv_provider = p, rv_trial = int t, rv_allowance = int a, rv_state = ''held'',
      rv_created_at = clock\<rparr> (reservations d)\<rparr>)"
proof -
  define r where "r = \<lparr>rv_provider = p, rv_trial = int t, rv_allowance = int a, rv_state = ''held'',
    rv_created_at = clock\<rparr>"
  define rs where "rs = put i r (reservations d)"
  have r: "rv_provider r = p" "rv_trial r = int t" "rv_allowance r = int a" "rv_state r = ''held''"
    by (simp_all add: r_def)
  have s: "held_sum (d\<lparr>reservations := rs\<rparr>) x = held_sum d x + (if p = x then int a else 0)" for x
    unfolding rs_def held_sum_put[OF new(1)] by (simp add: held_amount_def r)
  have rows: "row rs k = (if k = i then Some r else row (reservations d) k)" for k by (simp add: rs_def)
  have ra: "rv_allowance r \<le> int u32_max" "rv_trial r \<le> int u32_max" using a r by simp_all
  show ?thesis
    unfolding r_def[symmetric] rs_def[symmetric]
  proof (rule ledger_ok_edit[OF ok q])
    show "0 \<le> q_trial_remaining (take_hold t a clock q)" using t by simp
    show "q_reserved (take_hold t a clock q) = held_sum (d\<lparr>reservations := rs\<rparr>) p"
      using ledger_okD(4)[OF ok q] by (simp add: s)
    show "held_sum (d\<lparr>reservations := rs\<rparr>) x = held_sum d x" if "x \<noteq> p" for x
      using that by (simp add: s)
    show "keyed rs" using ok by (simp add: ledger_ok_def rs_def)
    fix k x assume x: "row rs k = Some x"
    show "k \<noteq> [] \<and> row (quotas d) (rv_provider x) \<noteq> None
      \<and> 0 \<le> rv_trial x \<and> rv_trial x \<le> int u32_max \<and> 0 \<le> rv_allowance x \<and> rv_allowance x \<le> int u32_max"
    proof (cases "k = i")
      case True
      with x have "x = r" by (simp add: rows)
      with True new(2) q ra r show ?thesis by simp
    next
      case False
      with x show ?thesis using ledger_okD(5)[OF ok, of k x] by (simp add: rows)
    qed
  qed
qed

lemma reserve_contract:
  assumes ok: "ledger_ok d" and cost: "0 < cost" "cost \<le> u32_max" and new: "row (reservations d) hid = None" "hid \<noteq> []"
  shows "\<exists>r d' q. reserve_credits l clock hid p cost d = Inr (r, d') \<and> ledger_ok d'
    \<and> fst (touch_in l p clock d) = q
    \<and> (r = None \<longrightarrow> d' = snd (touch_in l p clock d)
         \<and> sat_add_u32 (to_u32 0 (max (q_trial_remaining q) 0)) (to_u32 0 (allowance_left q)) < cost)
    \<and> (\<forall>h. r = Some h \<longrightarrow> h_trial h + h_allowance h = cost \<and> hold_matches d' h \<and> is_held d' hid
         \<and> (\<exists>q'. row (quotas d') p = Some q' \<and> balance q' = balance q - int cost
              \<and> 0 \<le> q_trial_remaining q' \<and> (0 < h_allowance h \<longrightarrow> int u32_max < q_trial_remaining q \<or>
                  q_trial_remaining q' = 0 \<and> q_reserved q' + q_spent q' \<le> q_allowance q')))"
proof -
  obtain q d1 where t: "touch_in l p clock d = (q, d1)" by (cases "touch_in l p clock d")
  from touch_in_ok[OF ok t] have ok1: "ledger_ok d1" and q: "row (quotas d1) p = Some q"
    and rv: "reservations d1 = reservations d" by auto
  define u where "u = to_u32 0 (max (q_trial_remaining q) 0)"
  define a where "a = to_u32 0 (allowance_left q)"
  show ?thesis
  proof (cases "sat_add_u32 u a < cost")
    case True
    with cost t ok1 show ?thesis by (simp add: reserve_credits_def Let_def u_def a_def)
  next
    case False
    note fits = False[unfolded u_def a_def]
    define ft where "ft = min cost u"
    let ?r = "\<lparr>rv_provider = p, rv_trial = int ft, rv_allowance = int (cost - ft), rv_state = ''held'',
                rv_created_at = clock\<rparr>"
    let ?h = "\<lparr>h_id = hid, h_provider = p, h_trial = ft, h_allowance = cost - ft\<rparr>"
    define d2 where "d2 = d1\<lparr>quotas := update_one p (take_hold ft (cost - ft) clock) (quotas d1),
      reservations := put hid ?r (reservations d1)\<rparr>"
    have eq: "reserve_credits l clock hid p cost d = Inr (Some ?h, d2)"
      using False cost(1) t new(1) rv by (simp add: reserve_credits_def Let_def d2_def ft_def u_def a_def)
    have le: "ft \<le> cost" by (simp add: ft_def)
    note sp = cost_split[OF ledger_okD(3)[OF ok1 q] reserved_nonneg[OF ok1 q] fits, folded u_def, folded ft_def]
    have ok2: "ledger_ok d2"
      unfolding d2_def using sp(1) le cost(2) new rv by (intro reserve_ok[OF ok1 q]) simp_all
    have "is_held d2 hid" "hold_matches d2 ?h" "row (quotas d2) p = Some (take_hold ft (cost - ft) clock q)"
      using new(2) q by (simp_all add: d2_def is_held_def hold_matches_def)
    moreover have "balance (take_hold ft (cost - ft) clock q) = balance q - int cost"
      using le by (simp add: balance_def)
    ultimately show ?thesis
      unfolding eq t using ok2 sp le by simp
  qed
qed

lemma reserve_frame: "reserve_credits l clock hid p cost d = Inr (r, d') \<Longrightarrow> i \<noteq> hid \<or> r = None
    \<Longrightarrow> row (reservations d') i = row (reservations d) i"
  by (auto simp: reserve_credits_def touch_in_def Let_def split: if_splits option.splits)

text \<open>C15: A hold never overdraws a pool. It is granted for exactly the asked cost, trial credits
  first, from what the refreshed pool has left; the trial part stays non-negative, the recurring
  part within the allowance, and the balance of the pool drops by the cost. It is refused only when
  trial and allowance together do not cover the cost; then no credit moves. The ledger stays
  consistent: what is reserved is what open holds took.\<close>

theorem reserve_never_overdraws:
  assumes ok: "ledger_ok d" and cost: "0 < cost" "cost \<le> u32_max" and new: "row (reservations d) hid = None" "hid \<noteq> []"
  shows "\<exists>r d' q. reserve_credits l clock hid p cost d = Inr (r, d') \<and> ledger_ok d'
    \<and> fst (touch_in l p clock d) = q
    \<and> (r = None \<longrightarrow> d' = snd (touch_in l p clock d)
         \<and> sat_add_u32 (to_u32 0 (max (q_trial_remaining q) 0)) (to_u32 0 (allowance_left q)) < cost)
    \<and> (\<forall>h. r = Some h \<longrightarrow> h_trial h + h_allowance h = cost \<and> hold_matches d' h \<and> is_held d' hid
         \<and> (\<exists>q'. row (quotas d') p = Some q' \<and> balance q' = balance q - int cost
              \<and> 0 \<le> q_trial_remaining q' \<and> (0 < h_allowance h \<longrightarrow> int u32_max < q_trial_remaining q \<or>
                  q_trial_remaining q' = 0 \<and> q_reserved q' + q_spent q' \<le> q_allowance q')))"
  using assms by (rule reserve_contract)

text \<open>A hold is settled once. Settling an open hold at its actual cost gives the hold back and
  charges that cost, trial credits first, so the balance of its pool changes by hold minus cost
  and that of no other pool; releasing it gives back exactly what it took. Any later release or
  reconciliation of the same hold writes nothing.\<close>

lemma settle_hold_once:
  assumes ok: "ledger_ok d" and m: "hold_matches d h" and held: "is_held d (h_id h)"
    and q: "row (quotas d) (h_provider h) = Some q"
  shows "\<exists>d1 q1 d2 q2. reconcile_credits clock h actual d = Inr ((), d1) \<and> ledger_ok d1
    \<and> row (quotas d1) (h_provider h) = Some q1
    \<and> balance q1 = balance q + int (h_trial h + h_allowance h) - int actual
    \<and> q_reserved q1 = q_reserved q - int (h_allowance h)
    \<and> (\<forall>p. p \<noteq> h_provider h \<longrightarrow> row (quotas d1) p = row (quotas d) p)
    \<and> release_credits clock2 h d1 = Inr ((), d1) \<and> reconcile_credits clock2 h actual2 d1 = Inr ((), d1)
    \<and> release_credits clock h d = Inr ((), d2) \<and> ledger_ok d2
    \<and> row (quotas d2) (h_provider h) = Some q2
    \<and> q_trial_remaining q2 = q_trial_remaining q + int (h_trial h)
    \<and> q_reserved q2 = q_reserved q - int (h_allowance h) \<and> q_spent q2 = q_spent q
    \<and> release_credits clock2 h d2 = Inr ((), d2) \<and> reconcile_credits clock2 h actual2 d2 = Inr ((), d2)"
proof -
  have id: "h_id h \<noteq> []" using m by (simp add: hold_matches_def)
  have gone: "release_credits clock2 h x = Inr ((), x)" "reconcile_credits clock2 h actual2 x = Inr ((), x)"
    if "\<not> is_held x (h_id h)" for x
    using that id by (simp_all add: release_credits_def reconcile_credits_def unhold_in_def)
  have ns: "''spent'' \<noteq> ''held''" and nr: "''released'' \<noteq> ''held''" by simp_all
  obtain b x where s: "unhold_in clock h ''spent'' d = (b, x)" by (cases "unhold_in clock h ''spent'' d")
  from unhold_ok[OF ok m held ns s] q obtain qx where b: "b" and okx: "ledger_ok x" and nh: "\<not> is_held x (h_id h)"
    and qx: "row (quotas x) (h_provider h) = Some qx" "q_trial_remaining qx = q_trial_remaining q + int (h_trial h)"
      "q_reserved qx = q_reserved q - int (h_allowance h)" "q_spent qx = q_spent q" "q_allowance qx = q_allowance q"
    and ox: "\<forall>p. p \<noteq> h_provider h \<longrightarrow> row (quotas x) p = row (quotas d) p" by auto
  define ft where "ft = min actual (to_u32 0 (max (q_trial_remaining qx) 0))"
  define d1 where "d1 = x\<lparr>quotas := update_one (h_provider h) (charge ft (actual - ft) clock) (quotas x)\<rparr>"
  have rec: "reconcile_credits clock h actual d = Inr ((), d1)"
    using id s b qx(1) by (simp add: reconcile_credits_def Let_def d1_def ft_def)
  have "int ft \<le> q_trial_remaining qx"
    using to_u32_le[of "q_trial_remaining qx"] ledger_okD(3)[OF okx qx(1)] by (simp add: ft_def)
  then have ok1: "ledger_ok d1"
    unfolding d1_def by (intro ledger_ok_charge[OF okx qx(1)]) simp_all
  have q1: "row (quotas d1) p = (if p = h_provider h then Some (charge ft (actual - ft) clock qx) else row (quotas x) p)" for p
    by (simp add: d1_def row_edit[OF qx(1)] del: row_update_where)
  have nh1: "\<not> is_held d1 (h_id h)" using nh by (simp add: is_held_def d1_def)
  have "ft \<le> actual" by (simp add: ft_def)
  then have bal: "balance (charge ft (actual - ft) clock qx) = balance q + int (h_trial h + h_allowance h) - int actual"
    using qx by (simp add: balance_def)
  obtain c y where r: "unhold_in clock h ''released'' d = (c, y)" by (cases "unhold_in clock h ''released'' d")
  from unhold_ok[OF ok m held nr r] q obtain qy where nhy: "\<not> is_held y (h_id h)" and oky: "ledger_ok y"
    and qy: "row (quotas y) (h_provider h) = Some qy" "q_trial_remaining qy = q_trial_remaining q + int (h_trial h)"
      "q_reserved qy = q_reserved q - int (h_allowance h)" "q_spent qy = q_spent q" by auto
  have rel: "release_credits clock h d = Inr ((), y)" using id r by (simp add: release_credits_def)
  show ?thesis
  proof (intro exI conjI)
    show "row (quotas d1) (h_provider h) = Some (charge ft (actual - ft) clock qx)" by (simp add: q1)
    show "q_reserved (charge ft (actual - ft) clock qx) = q_reserved q - int (h_allowance h)" using qx(3) by simp
    show "\<forall>p. p \<noteq> h_provider h \<longrightarrow> row (quotas d1) p = row (quotas d) p" using ox by (simp add: q1)
  qed (rule rec ok1 bal rel oky qy gone[OF nh1] gone[OF nhy])+
qed

section \<open>Recovery\<close>

lemma hold_of_matches:
  assumes "ledger_ok d" "row (reservations d) i = Some r"
  shows "hold_matches d (hold_of (i, r))"
proof -
  from ledger_okD(5)[OF assms] have "i \<noteq> []" "0 \<le> rv_trial r" "rv_trial r \<le> int u32_max"
    "0 \<le> rv_allowance r" "rv_allowance r \<le> int u32_max" by auto
  then have "int (as_u32 (rv_trial r)) = rv_trial r" "int (as_u32 (rv_allowance r)) = rv_allowance r"
    by (simp_all add: as_u32_def u32_max_def max_def nat_less_iff)
  with assms(2) \<open>i \<noteq> []\<close> show ?thesis by (simp add: hold_matches_def hold_of_def)
qed

lemma release_each_ok:
  assumes "ledger_ok d" and "distinct (map fst rows)"
    and "\<And>i r. (i, r) \<in> set rows \<Longrightarrow> row (reservations d) i = Some r \<and> rv_state r = ''held''"
  shows "\<exists>d'. release_each clock (map hold_of rows) d = Inr d' \<and> ledger_ok d'
    \<and> (\<forall>i. is_held d' i \<longleftrightarrow> is_held d i \<and> i \<notin> fst ` set rows)"
  using assms
proof (induction rows arbitrary: d)
  case (Cons x rows)
  obtain i r where x: "x = (i, r)" by (cases x)
  have ir: "row (reservations d) i = Some r" "rv_state r = ''held''" using Cons.prems(3) x by auto
  let ?h = "hold_of (i, r)"
  have id: "h_id ?h = i" by (simp add: hold_of_def)
  have m: "hold_matches d ?h" by (rule hold_of_matches[OF Cons.prems(1) ir(1)])
  have held: "is_held d (h_id ?h)" using ir by (simp add: is_held_def id)
  have nr: "''released'' \<noteq> ''held''" by simp
  obtain c d1 where r: "unhold_in clock ?h ''released'' d = (c, d1)" by (cases "unhold_in clock ?h ''released'' d")
  note u = unhold_ok[OF Cons.prems(1) m held nr r]
  have ok1: "ledger_ok d1" and gone: "\<not> is_held d1 i" and others: "\<forall>k. k \<noteq> i \<longrightarrow> row (reservations d1) k = row (reservations d) k"
    using u unfolding id by blast+
  have rel: "release_credits clock ?h d = Inr ((), d1)"
    using m r by (simp add: release_credits_def hold_matches_def)
  have notin: "i \<notin> fst ` set rows" using Cons.prems(2) x by auto
  have still: "row (reservations d1) k = Some s \<and> rv_state s = ''held''" if "(k, s) \<in> set rows" for k s
  proof -
    have "k \<noteq> i" using that notin by force
    with Cons.prems(3)[of k s] that others show ?thesis by simp
  qed
  have dist: "distinct (map fst rows)" using Cons.prems(2) by simp
  from Cons.IH[OF ok1 dist still] obtain d' where d': "release_each clock (map hold_of rows) d1 = Inr d'"
    "ledger_ok d'" "\<forall>k. is_held d' k \<longleftrightarrow> is_held d1 k \<and> k \<notin> fst ` set rows" by blast
  have "is_held d1 k \<longleftrightarrow> is_held d k \<and> k \<noteq> i" for k
    using gone others by (cases "k = i") (simp_all add: is_held_def)
  with d' rel x show ?case by auto
qed simp

text \<open>Recovery empties the ledger of open holds: every held hold is released, and afterwards
  nothing is reserved in any pool.\<close>

lemma release_held_clears:
  assumes ok: "ledger_ok d"
  shows "\<exists>n d'. release_held_credits clock d = Inr (n, d') \<and> ledger_ok d'
    \<and> (\<forall>i. \<not> is_held d' i) \<and> (\<forall>p q. row (quotas d') p = Some q \<longrightarrow> q_reserved q = 0)"
proof -
  let ?rows = "filter (\<lambda>(i, r). rv_state r = ''held'') (reservations d)"
  have k: "keyed (reservations d)" using ok by (simp add: ledger_ok_def)
  have mem: "row (reservations d) i = Some r \<and> rv_state r = ''held''" if "(i, r) \<in> set ?rows" for i r
    using that keyed_memD[OF k] by auto
  have dist: "distinct (map fst ?rows)" using k by (simp add: keyed_def distinct_map_filter)
  from release_each_ok[OF ok dist mem] obtain d' where
    d': "release_each clock (map hold_of ?rows) d = Inr d'" "ledger_ok d'"
      "\<forall>i. is_held d' i \<longleftrightarrow> is_held d i \<and> i \<notin> fst ` set ?rows" by blast
  have none: "\<not> is_held d' i" for i
  proof
    assume h: "is_held d' i"
    then have "is_held d i" "i \<notin> fst ` set ?rows" using d'(3) by auto
    then show False by (force simp: is_held_iff dest: map_of_SomeD)
  qed
  have "held_sum d' p = 0" for p
  proof -
    have "held_amount p r = 0" if "(i, r) \<in> set (reservations d')" for i r
      using none[of i] keyed_memD[OF ledger_okD(2)[OF d'(2)] that] by (simp add: is_held_def held_amount_def)
    then have "sum_list (map (\<lambda>(i, r). held_amount p r) xs) = 0" if "set xs \<subseteq> set (reservations d')" for xs
      using that by (induction xs) auto
    then show ?thesis by (simp add: held_sum_def)
  qed
  with d' none ledger_okD(4)[OF d'(2)] show ?thesis
    by (auto simp: release_held_credits_def)
qed

section \<open>What settling a hold leaves alone\<close>

lemma reserve_id: "reserve_credits l clock i p cost L = Inr (Some h, L') \<Longrightarrow> cost \<noteq> 0 \<Longrightarrow> h_id h = i"
  by (auto simp: reserve_credits_def Let_def split: if_splits option.splits prod.splits)

lemma close_hold_frame:
  assumes "ledger_ok L" "hold_matches L h" "is_held L (h_id h)"
  shows "\<exists>L'. release_credits clock h L = Inr ((), L') \<and> ledger_ok L' \<and> \<not> is_held L' (h_id h)
      \<and> (\<forall>i. i \<noteq> h_id h \<longrightarrow> row (reservations L') i = row (reservations L) i)"
    and "\<exists>L'. reconcile_credits clock h n L = Inr ((), L') \<and> ledger_ok L' \<and> \<not> is_held L' (h_id h)
      \<and> (\<forall>i. i \<noteq> h_id h \<longrightarrow> row (reservations L') i = row (reservations L) i)"
proof -
  have id: "h_id h \<noteq> []" using assms(2) by (simp add: hold_matches_def)
  obtain q where q: "row (quotas L) (h_provider h) = Some q"
    using assms(2) ledger_okD(5)[OF assms(1)] by (fastforce simp: hold_matches_def)
  note s = settle_hold_once[OF assms q, of clock n clock n]
  show "\<exists>L'. release_credits clock h L = Inr ((), L') \<and> ledger_ok L' \<and> \<not> is_held L' (h_id h)
      \<and> (\<forall>i. i \<noteq> h_id h \<longrightarrow> row (reservations L') i = row (reservations L) i)"
  proof -
    obtain b L' where u: "unhold_in clock h ''released'' L = (b, L')" by (cases "unhold_in clock h ''released'' L")
    with unhold_ok[OF assms _ u] id show ?thesis by (simp add: release_credits_def)
  qed
  show "\<exists>L'. reconcile_credits clock h n L = Inr ((), L') \<and> ledger_ok L' \<and> \<not> is_held L' (h_id h)
      \<and> (\<forall>i. i \<noteq> h_id h \<longrightarrow> row (reservations L') i = row (reservations L) i)"
  proof -
    obtain b x where u: "unhold_in clock h ''spent'' L = (b, x)" by (cases "unhold_in clock h ''spent'' L")
    note un = unhold_ok[OF assms _ u]
    from s obtain L' where L': "reconcile_credits clock h n L = Inr ((), L')" "ledger_ok L'" by blast
    then have "reservations L' = reservations x" using id u un by (auto simp: reconcile_credits_def Let_def)
    with L' un show ?thesis by (auto simp: is_held_def)
  qed
qed

lemma closed_state:
  assumes "is_held d (h_id h)" "h_id h \<noteq> []"
  shows "release_credits clock h d = Inr ((), d') \<Longrightarrow> \<exists>r. row (reservations d') (h_id h) = Some r \<and> rv_state r = ''released''"
    and "reconcile_credits clock h n d = Inr ((), d') \<Longrightarrow> \<exists>r. row (reservations d') (h_id h) = Some r \<and> rv_state r = ''spent''"
  using assms by (auto simp: release_credits_def reconcile_credits_def unhold_in_def is_held_def Let_def split: option.splits)

section \<open>A concrete ledger\<close>

definition demo_limits :: limits where
  "demo_limits = \<lparr>credit_reset = ''monthly'', firecrawl_credits = 100, hunter_credits = 50,
     sociavault_credits = 0, whoxy_credits = 10, firecrawl_trial_credits = 5, hunter_trial_credits = 5,
     sociavault_trial_credits = 0\<rparr>"

definition demo_ledger :: ledger where
  "demo_ledger = \<lparr>quotas = [(''hunter'', \<lparr>q_allowance = 50, q_trial_remaining = 0, q_trial_seed = 5,
       q_reserved = 20, q_spent = 3, q_reset_policy = ''monthly'',
       q_period_start = ''2026-07-01T00:00:00Z'', q_updated_at = ''2026-07-01T00:00:00Z''\<rparr>)],
     reservations = [(''h1'', \<lparr>rv_provider = ''hunter'', rv_trial = 5, rv_allowance = 20,
       rv_state = ''held'', rv_created_at = ''2026-07-01T00:00:00Z''\<rparr>)]\<rparr>"

definition demo_hold :: credit_hold where
  "demo_hold = \<lparr>h_id = ''h1'', h_provider = ''hunter'', h_trial = 5, h_allowance = 20\<rparr>"

lemma demo_ledger_ok: "ledger_ok demo_ledger"
  by (auto simp: ledger_ok_def demo_ledger_def keyed_def held_sum_def held_amount_def u32_max_def
      split: if_splits)

lemma demo_hold_open: "hold_matches demo_ledger demo_hold" "is_held demo_ledger (h_id demo_hold)"
  by (simp_all add: hold_matches_def is_held_def demo_ledger_def demo_hold_def)

theorem reserve_never_overdraws_witness:
  "\<exists>r d'. reserve_credits demo_limits ''2026-07-02T00:00:00Z'' ''h2'' ''hunter'' 15 demo_ledger = Inr (r, d')
    \<and> ledger_ok d'"
proof -
  have "(0::nat) < 15" "(15::nat) \<le> u32_max" "row (reservations demo_ledger) ''h2'' = None"
    "''h2'' \<noteq> []" by (simp_all add: u32_max_def demo_ledger_def)
  from reserve_never_overdraws[OF demo_ledger_ok this] show ?thesis by blast
qed

theorem settle_hold_once_witness:
  "\<exists>d1. reconcile_credits ''2026-07-02T00:00:00Z'' demo_hold 7 demo_ledger = Inr ((), d1) \<and> ledger_ok d1
    \<and> release_credits ''2026-07-03T00:00:00Z'' demo_hold d1 = Inr ((), d1)"
proof -
  obtain q where "row (quotas demo_ledger) (h_provider demo_hold) = Some q"
    by (simp add: demo_ledger_def demo_hold_def)
  from settle_hold_once[OF demo_ledger_ok demo_hold_open this] show ?thesis by blast
qed

theorem release_held_clears_witness:
  "\<exists>n d'. release_held_credits ''2026-07-02T00:00:00Z'' demo_ledger = Inr (n, d') \<and> (\<forall>i. \<not> is_held d' i)"
  using release_held_clears[OF demo_ledger_ok] by blast

end
