(* ===== verification/Job_View.thy ===== *)
theory Job_View
  imports Job_System Outbox "HOL-Library.Char_ord" "HOL-Library.List_Lexorder"
begin

text \<open>
  The Jobs dashboard (\<open>storage/jobs_view.rs\<close> and the row type and filters of \<open>jobs_view.rs\<close>):
  which jobs are visible, the page of the list with the counts it loads in grouped queries, one
  job with the same counts as correlated subqueries, header counts, dashboard metadata, and the
  operations started from it: retry, cancel and clearing the history.
\<close>

section \<open>State\<close>

text \<open>
  The dashboard reads the job tables, the outbox and the event log (\<open>argos_event\<close>), of which it
  only counts rows by their \<open>job_id\<close>.
\<close>

record view =
  vw_store :: db
  vw_index :: outbox
  vw_log :: "string list"

datatype status_filter = F_All | F_Active | F_Retrying | F_Failed | F_Completed | F_Stopped

fun filter_label :: "status_filter \<Rightarrow> string" where
  "filter_label F_All = ''All''"
| "filter_label F_Active = ''Active''"
| "filter_label F_Retrying = ''Retrying''"
| "filter_label F_Failed = ''Failed''"
| "filter_label F_Completed = ''Completed''"
| "filter_label F_Stopped = ''Stopped''"

fun filter_states :: "status_filter \<Rightarrow> string list" where
  "filter_states F_All = []"
| "filter_states F_Active = [''running'', ''queued'', ''retry_scheduled'']"
| "filter_states F_Retrying = [''retry_scheduled'']"
| "filter_states F_Failed = [''failed'', ''partial'']"
| "filter_states F_Completed = [''completed'', ''succeeded'']"
| "filter_states F_Stopped = [''cancelled'', ''paused'', ''superseded'']"

text \<open>
  Empty texts do not filter. \<open>fl_text\<close> is the search text after \<open>trim\<close> and \<open>to_lowercase\<close>;
  \<open>fl_since\<close> the parsed lower bound.
\<close>

record job_filter =
  fl_status :: status_filter
  fl_app :: string
  fl_operation :: string
  fl_text :: string
  fl_since :: "instant option"

text \<open>A row as it is read: the columns of the job and the numbers loaded with them.\<close>

record raw =
  rw_key :: string
  rw_job :: job
  rw_events :: nat
  rw_children :: nat
  rw_tasks :: nat
  rw_attempt_rows :: nat
  rw_open_attempt_started :: "instant option"
  rw_started_at :: "instant option"

record job_row =
  jr_id :: string
  jr_job :: job
  jr_cancellable :: bool
  jr_events :: nat
  jr_children :: nat
  jr_attempt_rows :: nat
  jr_open_attempt_started :: "instant option"
  jr_started_at :: "instant option"

definition job_row_of :: "raw \<Rightarrow> job_row" where
  "job_row_of r = \<lparr>jr_id = rw_key r, jr_job = rw_job r,
     jr_cancellable = (j_kind (rw_job r) \<noteq> ''service'' \<and> (j_cancellable (rw_job r) \<or> rw_tasks r > 0)),
     jr_events = rw_events r, jr_children = rw_children r, jr_attempt_rows = rw_attempt_rows r,
     jr_open_attempt_started = rw_open_attempt_started r, jr_started_at = rw_started_at r\<rparr>"

definition row_active :: "job_row \<Rightarrow> bool" where
  "row_active r \<longleftrightarrow> j_state (jr_job r) \<in> {''running'', ''queued'', ''retry_scheduled''}"

definition is_service :: "job_row \<Rightarrow> bool" where
  "is_service r \<longleftrightarrow> j_kind (jr_job r) = ''service''"

definition state_label :: "job_row \<Rightarrow> string" where
  "state_label r = (let s = j_state (jr_job r) in
     if s = ''running'' \<and> is_service r then ''service''
     else if s = ''running'' then ''running''
     else if s = ''queued'' then ''queued''
     else if s = ''retry_scheduled'' then ''retry wait''
     else if s = ''paused'' then ''paused''
     else if s = ''waiting'' then ''waiting''
     else if s = ''completed'' \<or> s = ''succeeded'' then ''completed''
     else if s = ''partial'' then ''partial''
     else if s = ''failed'' then ''failed''
     else if s = ''cancelled'' then ''stopped''
     else if s = ''superseded'' then ''superseded''
     else if s = ''blocked'' then ''blocked''
     else ''unknown'')"

text \<open>\<open>(b - a).num_milliseconds().max(0)\<close>\<close>

definition span_ms :: "instant \<Rightarrow> instant \<Rightarrow> int" where
  "span_ms a b = max 0 ((b - a) div 1000000)"

definition registry_kind :: string where "registry_kind = ''inproc''"

definition active_now :: "job_row \<Rightarrow> instant \<Rightarrow> int option" where
  "active_now r now =
     (let j = jr_job r; stored = (case j_active_ms j of Some n \<Rightarrow> n | None \<Rightarrow> 0) in
      if jr_attempt_rows r > 0
      then Some (stored + (case jr_open_attempt_started r of Some s \<Rightarrow> span_ms s now | None \<Rightarrow> 0))
      else case j_active_since j of
        Some since \<Rightarrow> Some (stored + span_ms since now)
      | None \<Rightarrow>
          if j_kind j = registry_kind \<and> j_active_ms j \<noteq> None then j_active_ms j
          else if stored > 0 then Some stored
          else map_option (\<lambda>s. span_ms s (case j_finished_at j of Some e \<Rightarrow> e | None \<Rightarrow> now))
                 (jr_started_at r))"

definition elapsed_ms :: "job_row \<Rightarrow> instant \<Rightarrow> int" where
  "elapsed_ms r now = span_ms (case jr_started_at r of Some s \<Rightarrow> s | None \<Rightarrow> j_created_at (jr_job r))
     (case j_finished_at (jr_job r) of Some e \<Rightarrow> e | None \<Rightarrow> now)"

section \<open>Visible jobs and their order\<close>

definition cutoff :: "instant \<Rightarrow> instant" where
  "cutoff now = now - hours EXECUTION_WINDOW_HOURS"

definition eligible_job :: "instant \<Rightarrow> db \<Rightarrow> string \<Rightarrow> job \<Rightarrow> bool" where
  "eligible_job now d i r \<longleftrightarrow> cutoff now \<le> j_created_at r \<and> row (retirements d) i = None"

definition active_states :: "string list" where
  "active_states = [''running'', ''queued'', ''retry_scheduled'']"

definition rank :: "job \<Rightarrow> int" where
  "rank r = (if j_kind r = ''service'' \<and> j_state r = ''running''
       \<and> j_operation r \<in> {''api_server'', ''web_server''} then -1
     else if j_state r \<in> set active_states \<and> j_kind r \<noteq> ''service'' then 0
     else if j_kind r = ''service'' then 2 else 1)"

text \<open>\<open>ORDER BY rank, updated_at DESC, key\<close>; keys compare by their bytes.\<close>

definition page_key :: "string \<times> job \<Rightarrow> int \<times> int \<times> string" where
  "page_key = (\<lambda>(i, r). (rank r, - j_updated_at r, i))"

text \<open>\<open>lower\<close> is \<open>string::lowercase\<close>.\<close>

definition listed :: "(string \<Rightarrow> string) \<Rightarrow> job_filter \<Rightarrow> instant \<Rightarrow> db \<Rightarrow> string \<Rightarrow> job \<Rightarrow> bool" where
  "listed lower f now d i r \<longleftrightarrow> j_parent r = None \<and> eligible_job now d i r
     \<and> (filter_states (fl_status f) = [] \<or> j_state r \<in> set (filter_states (fl_status f)))
     \<and> (fl_app f = [] \<or> j_app r = fl_app f)
     \<and> (fl_operation f = [] \<or> j_operation r = fl_operation f)
     \<and> (fl_text f = [] \<or> contains (fl_text f) (lower (j_operation r))
         \<or> contains (fl_text f) (lower (j_title r)) \<or> contains (fl_text f) (lower (j_error_summary r))
         \<or> contains (fl_text f) (lower i))
     \<and> (case fl_since f of Some since \<Rightarrow> since \<le> j_created_at r | None \<Rightarrow> True)"

definition empty_raw :: "string \<times> job \<Rightarrow> raw" where
  "empty_raw = (\<lambda>(i, r). \<lparr>rw_key = i, rw_job = r, rw_events = 0, rw_children = 0, rw_tasks = 0,
     rw_attempt_rows = 0, rw_open_attempt_started = None, rw_started_at = None\<rparr>)"

definition list_page :: "(string \<Rightarrow> string) \<Rightarrow> job_filter \<Rightarrow> nat \<Rightarrow> instant \<Rightarrow> db \<Rightarrow> (string \<times> job) list" where
  "list_page lower f limit now d = take (max limit 1) (sort_key page_key
     (filter (\<lambda>(i, r). listed lower f now d i r) (jobs d)))"


section \<open>The numbers of one row: correlated subqueries\<close>

fun earliest :: "instant list \<Rightarrow> instant option" where
  "earliest [] = None"
| "earliest (t # ts) = Some (case earliest ts of None \<Rightarrow> t | Some u \<Rightarrow> min t u)"

text \<open>The job of the task a record link names.\<close>

definition task_job :: "db \<Rightarrow> string \<Rightarrow> string option" where
  "task_job d t = map_option t_job (row (tasks d) t)"

definition job_events :: "db \<Rightarrow> string list" where
  "job_events d = map (\<lambda>(i, e). e_job_id e) (events d) @ map e_job_id (retry_events d)"

definition events_of :: "view \<Rightarrow> string \<Rightarrow> nat" where
  "events_of v j = count_list (job_events (vw_store v)) j + count_list (vw_log v) j"

definition children_of :: "db \<Rightarrow> string \<Rightarrow> string list" where
  "children_of d j = ids_where (\<lambda>i r. j_parent r = Some j) (jobs d)"

definition relations :: "view \<Rightarrow> raw \<Rightarrow> raw" where
  "relations v r = (let d = vw_store v; j = rw_key r in r\<lparr>
     rw_events := sum_list (map (events_of v) (ids_where (\<lambda>i x. i = j \<or> j_parent x = Some j) (jobs d))),
     rw_children := length (children_of d j),
     rw_tasks := length (filter (\<lambda>(i, t). t_job t = j) (tasks d)),
     rw_attempt_rows := length (filter (\<lambda>a. task_job d (a_task a) = Some j) (attempts d)),
     rw_open_attempt_started := earliest (map a_started_at
        (filter (\<lambda>a. task_job d (a_task a) = Some j \<and> a_finished_at a = None) (attempts d))),
     rw_started_at := earliest (List.map_filter (\<lambda>(i, t). if t_job t = j then t_started_at t else None)
        (tasks d))\<rparr>)"

definition get_job :: "view \<Rightarrow> string \<Rightarrow> instant \<Rightarrow> job_row option" where
  "get_job v i now = (case row (jobs (vw_store v)) i of
     Some r \<Rightarrow> if eligible_job now (vw_store v) i r
       then Some (job_row_of (relations v (empty_raw (i, r)))) else None
   | None \<Rightarrow> None)"

section \<open>The numbers of a page: grouped queries\<close>

text \<open>\<open>SELECT k, count() AS n \<dots> GROUP BY k\<close> and \<open>SELECT k, time::min(t) \<dots> GROUP BY k\<close>\<close>

definition group_count :: "string list \<Rightarrow> (string \<times> nat) list" where
  "group_count xs = map (\<lambda>k. (k, count_list xs k)) (remdups xs)"

definition group_min :: "(string \<times> instant) list \<Rightarrow> (string \<times> instant) list" where
  "group_min xs = map (\<lambda>k. (k, the (earliest (map snd (filter (\<lambda>(j, t). j = k) xs)))))
     (remdups (map fst xs))"

text \<open>
  \<open>positions\<close> is the hash map from a key to its index in the page; one loop step edits the row at
  the index of the key it reads, when there is one.
\<close>

definition positions :: "raw list \<Rightarrow> string \<Rightarrow> nat option" where
  "positions rows = map_of (rev (zip (map rw_key rows) [0..<length rows]))"

definition edit_at :: "(string \<Rightarrow> nat option) \<Rightarrow> string \<Rightarrow> (raw \<Rightarrow> raw) \<Rightarrow> raw list \<Rightarrow> raw list" where
  "edit_at pos k f rows = (case pos k of Some i \<Rightarrow> rows[i := f (rows ! i)] | None \<Rightarrow> rows)"

definition add_child :: "raw \<Rightarrow> raw" where "add_child r = r\<lparr>rw_children := rw_children r + 1\<rparr>"
definition set_tasks :: "nat \<Rightarrow> raw \<Rightarrow> raw" where "set_tasks n r = r\<lparr>rw_tasks := n\<rparr>"
definition set_started :: "instant \<Rightarrow> raw \<Rightarrow> raw" where "set_started t r = r\<lparr>rw_started_at := Some t\<rparr>"
definition set_attempts :: "nat \<Rightarrow> raw \<Rightarrow> raw" where "set_attempts n r = r\<lparr>rw_attempt_rows := n\<rparr>"
definition set_open :: "instant \<Rightarrow> raw \<Rightarrow> raw" where "set_open t r = r\<lparr>rw_open_attempt_started := Some t\<rparr>"
definition add_events :: "nat \<Rightarrow> raw \<Rightarrow> raw" where "add_events n r = r\<lparr>rw_events := rw_events r + n\<rparr>"

definition page_children :: "db \<Rightarrow> string list \<Rightarrow> (string \<times> string) list" where
  "page_children d js = List.map_filter (\<lambda>(i, r). case j_parent r of
     Some p \<Rightarrow> if p \<in> set js then Some (p, i) else None | None \<Rightarrow> None) (jobs d)"

definition page_tasks :: "db \<Rightarrow> string list \<Rightarrow> (string \<times> task) list" where
  "page_tasks d js = filter (\<lambda>(i, t). t_job t \<in> set js) (tasks d)"

definition page_attempts :: "db \<Rightarrow> string list \<Rightarrow> (string \<times> attempt) list" where
  "page_attempts d js = List.map_filter (\<lambda>a.
     if a_task a \<in> fst ` set (page_tasks d js) then map_option (\<lambda>j. (j, a)) (task_job d (a_task a))
     else None) (attempts d)"

definition each :: "(string \<Rightarrow> nat option) \<Rightarrow> ('a \<Rightarrow> raw \<Rightarrow> raw) \<Rightarrow> (string \<times> 'a) list \<Rightarrow> raw list \<Rightarrow> raw list" where
  "each pos f xs rows = foldl (\<lambda>rs (k, x). edit_at pos k (f x) rs) rows xs"

text \<open>Events of a child count for the job it belongs to.\<close>

definition count_events ::
  "(string \<Rightarrow> nat option) \<Rightarrow> (string \<Rightarrow> string option) \<Rightarrow> string list \<Rightarrow> string list \<Rightarrow> raw list \<Rightarrow> raw list" where
  "count_events pos parents js log rows =
     each pos add_events (map (\<lambda>(j, n). (case parents j of Some p \<Rightarrow> p | None \<Rightarrow> j, n))
       (group_count (filter (\<lambda>j. j \<in> set js) log))) rows"

definition load_page_relations :: "view \<Rightarrow> raw list \<Rightarrow> raw list" where
  "load_page_relations v rows =
     (if rows = [] then rows else
      let d = vw_store v; pos = positions rows; js = map rw_key rows;
          children = page_children d js;
          parents = map_of (rev (map (\<lambda>(p, c). (c, p)) children));
          atts = page_attempts d js;
          rows1 = each pos (\<lambda>_. add_child) children rows;
          rows2 = each pos set_tasks (group_count (map (\<lambda>(i, t). t_job t) (page_tasks d js))) rows1;
          rows3 = each pos set_started (group_min (List.map_filter (\<lambda>(i, t).
            map_option (\<lambda>s. (t_job t, s)) (t_started_at t)) (page_tasks d js))) rows2;
          rows4 = each pos set_attempts (group_count (map fst atts)) rows3;
          rows5 = each pos set_open (group_min (map (\<lambda>(j, a). (j, a_started_at a))
            (filter (\<lambda>(j, a). a_finished_at a = None) atts))) rows4;
          ejs = js @ map snd children
      in count_events pos parents ejs (vw_log v) (count_events pos parents ejs (job_events d) rows5))"

definition list_jobs ::
  "env \<Rightarrow> (string \<Rightarrow> string) \<Rightarrow> job_filter \<Rightarrow> nat \<Rightarrow> instant \<Rightarrow> view \<Rightarrow> job_row list \<times> view" where
  "list_jobs E lower f limit now v =
     (let v1 = v\<lparr>vw_store := settle_running_intel_briefs E now (vw_store v)\<rparr>
      in (map job_row_of (load_page_relations v1 (map empty_raw (list_page lower f limit now (vw_store v1)))), v1))"

section \<open>The page is what the subqueries give\<close>

lemma positions_eq:
  assumes "distinct (map rw_key rows)"
  shows "positions rows k = Some i \<longleftrightarrow> i < length rows \<and> rw_key (rows ! i) = k"
proof -
  let ?z = "zip (map rw_key rows) [0..<length rows]"
  have "distinct (map fst (rev ?z))" using assms by (simp add: rev_map[symmetric])
  then have "positions rows k = Some i \<longleftrightarrow> (k, i) \<in> set ?z"
    unfolding positions_def by (subst map_of_eq_Some_iff) auto
  also have "\<dots> \<longleftrightarrow> (\<exists>n < length rows. rw_key (rows ! n) = k \<and> n = i)"
    by (auto simp: in_set_zip intro!: exI[of _ i])
  finally show ?thesis by auto
qed

lemma edit_at_map:
  assumes "distinct (map rw_key rows0)" "map rw_key rows = map rw_key rows0" "\<And>r. rw_key (f r) = rw_key r"
  shows "edit_at (positions rows0) k f rows = map (\<lambda>r. if rw_key r = k then f r else r) rows"
proof -
  have len: "length rows = length rows0" using assms(2) by (metis length_map)
  have key: "rw_key (rows ! i) = rw_key (rows0 ! i)" if "i < length rows" for i
    using that assms(2) len by (metis nth_map)
  have inj: "i = j" if "rw_key (rows0 ! i) = rw_key (rows0 ! j)" "i < length rows" "j < length rows" for i j
    using assms(1) that len by (metis distinct_conv_nth length_map nth_map)
  show ?thesis
  proof (cases "positions rows0 k")
    case None
    then have "\<forall>i < length rows. rw_key (rows ! i) \<noteq> k"
      using positions_eq[OF assms(1), of k] key len by (metis option.distinct(1))
    with None show ?thesis by (auto simp: edit_at_def intro!: nth_equalityI)
  next
    case (Some i)
    then have i: "i < length rows" "rw_key (rows0 ! i) = k" using positions_eq[OF assms(1), of k i] len by auto
    have "rows[i := f (rows ! i)] ! j = map (\<lambda>r. if rw_key r = k then f r else r) rows ! j" if "j < length rows" for j
      using that i key inj[of j i] by (cases "j = i") auto
    with Some show ?thesis by (auto simp: edit_at_def intro!: nth_equalityI)
  qed
qed

text \<open>So a loop over the page acts on each row by itself.\<close>

definition row_each :: "('a \<Rightarrow> raw \<Rightarrow> raw) \<Rightarrow> (string \<times> 'a) list \<Rightarrow> raw \<Rightarrow> raw" where
  "row_each f xs r = foldl (\<lambda>r (k, x). if rw_key r = k then f x r else r) r xs"

lemma each_map:
  assumes d: "distinct (map rw_key rows0)" and f: "\<And>x r. rw_key (f x r) = rw_key r"
    and k: "map rw_key rows = map rw_key rows0"
  shows "each (positions rows0) f xs rows = map (row_each f xs) rows"
  using k
proof (induction xs arbitrary: rows)
  case (Cons a xs)
  obtain k x where a: "a = (k, x)" by (cases a)
  have e: "edit_at (positions rows0) k (f x) rows = map (\<lambda>r. if rw_key r = k then f x r else r) rows"
    by (rule edit_at_map[OF d Cons.prems]) (rule f)
  have "map rw_key (map (\<lambda>r. if rw_key r = k then f x r else r) rows) = map rw_key rows0"
    using Cons.prems f by (simp add: comp_def if_distrib[of rw_key] cong: if_cong)
  from Cons.IH[OF this] show ?case by (simp add: each_def row_each_def a e)
qed (simp add: each_def row_each_def[abs_def])

lemma row_each_key: "(\<And>x r. rw_key (f x r) = rw_key r) \<Longrightarrow> rw_key (row_each f xs r) = rw_key r"
  unfolding row_each_def by (induction xs arbitrary: r) auto

lemma row_each_pick:
  assumes "distinct (map fst xs)" "\<And>x r. rw_key (f x r) = rw_key r"
  shows "row_each f xs r = (case map_of xs (rw_key r) of Some x \<Rightarrow> f x r | None \<Rightarrow> r)"
  using assms(1)
proof (induction xs arbitrary: r)
  case (Cons a xs)
  obtain k x where a: "a = (k, x)" by (cases a)
  have st: "row_each f (a # xs) r = row_each f xs (if rw_key r = k then f x r else r)"
    by (simp add: row_each_def a)
  have "map_of xs k = None" using Cons.prems a by (simp add: map_of_eq_None_iff)
  with Cons assms(2) a show ?case unfolding st by simp
qed (simp add: row_each_def)

lemma row_each_children:
  "row_each (\<lambda>_. add_child) xs r = r\<lparr>rw_children := rw_children r + length (filter (\<lambda>(k, x). k = rw_key r) xs)\<rparr>"
  unfolding row_each_def by (induction xs arbitrary: r) (auto simp: add_child_def)

lemma row_each_events:
  "row_each add_events xs r
    = r\<lparr>rw_events := rw_events r + sum_list (map snd (filter (\<lambda>(k, x). k = rw_key r) xs))\<rparr>"
  unfolding row_each_def by (induction xs arbitrary: r) (auto simp: add_events_def)

lemma map_of_group_count: "map_of (group_count xs) k = (if k \<in> set xs then Some (count_list xs k) else None)"
proof -
  have "map_of (map (\<lambda>k. (k, f k)) ys) k = (if k \<in> set ys then Some (f k) else None)" for f :: "string \<Rightarrow> nat" and ys
    by (induction ys) auto
  then show ?thesis by (simp add: group_count_def)
qed

lemma map_of_group_min:
  "map_of (group_min xs) k = earliest (map snd (filter (\<lambda>(j, t). j = k) xs))"
proof -
  have m: "map_of (map (\<lambda>k. (k, f k)) ys) k = (if k \<in> set ys then Some (f k) else None)" for f :: "_ \<Rightarrow> instant" and ys :: "string list"
    by (induction ys) auto
  have n: "earliest ts = None \<longleftrightarrow> ts = []" for ts by (cases ts) auto
  let ?l = "map snd (filter (\<lambda>(j, t). j = k) xs)"
  have "k \<in> fst ` set xs \<longleftrightarrow> ?l \<noteq> []" by (force simp: filter_empty_conv)
  then show ?thesis using n[of ?l] by (auto simp: group_min_def m)
qed

lemma distinct_groups: "distinct (map fst (group_count xs))" "distinct (map fst (group_min ys))"
  by (simp_all add: group_count_def group_min_def comp_def)


lemma earliest_None [simp]: "earliest ts = None \<longleftrightarrow> ts = []" by (cases ts) auto

lemma map_filter_Cons: "List.map_filter f (x # xs) = (case f x of None \<Rightarrow> List.map_filter f xs | Some y \<Rightarrow> y # List.map_filter f xs)"
  by (simp add: List.map_filter_def split: option.splits)

lemma map_filter_Nil [simp]: "List.map_filter f [] = []"
  by (simp add: List.map_filter_def)

lemma page_children_count:
  assumes "i \<in> set js"
  shows "length (filter (\<lambda>(k, x). k = i) (page_children d js)) = length (children_of d i)"
proof -
  have "length (filter (\<lambda>(k, x). k = i) (List.map_filter (\<lambda>(c, r). case j_parent r of
      Some p \<Rightarrow> if p \<in> set js then Some (p, c) else None | None \<Rightarrow> None) xs))
    = length (filter (\<lambda>(c, r). j_parent r = Some i) xs)" for xs :: "job tbl"
    using assms by (induction xs) (auto simp: map_filter_Cons split: option.splits if_splits)
  then show ?thesis by (simp add: page_children_def children_of_def ids_where_def)
qed

lemma page_task_count:
  assumes "i \<in> set js"
  shows "count_list (map (\<lambda>(i, t). t_job t) (page_tasks d js)) i = length (filter (\<lambda>(k, t). t_job t = i) (tasks d))"
proof -
  have "count_list (map (\<lambda>(i, t). t_job t) (filter (\<lambda>(i, t). t_job t \<in> set js) xs)) i
    = length (filter (\<lambda>(k, t). t_job t = i) xs)" for xs :: "task tbl"
    using assms by (induction xs) auto
  then show ?thesis by (simp add: page_tasks_def)
qed

lemma page_task_starts:
  assumes "i \<in> set js"
  shows "map snd (filter (\<lambda>(j, t). j = i) (List.map_filter (\<lambda>(k, t). map_option (\<lambda>s. (t_job t, s)) (t_started_at t))
      (page_tasks d js)))
    = List.map_filter (\<lambda>(k, t). if t_job t = i then t_started_at t else None) (tasks d)"
proof -
  have "map snd (filter (\<lambda>(j, t). j = i) (List.map_filter (\<lambda>(k, t). map_option (\<lambda>s. (t_job t, s)) (t_started_at t))
      (filter (\<lambda>(i, t). t_job t \<in> set js) xs)))
    = List.map_filter (\<lambda>(k, t). if t_job t = i then t_started_at t else None) xs" for xs :: "task tbl"
    using assms by (induction xs) (auto simp: map_filter_Cons split: option.splits)
  then show ?thesis by (simp add: page_tasks_def)
qed

lemma page_task_ids: "task_job d t = Some j \<Longrightarrow> j \<in> set js \<Longrightarrow> t \<in> fst ` set (page_tasks d js)"
  by (force simp: task_job_def page_tasks_def dest: map_of_SomeD)

lemma page_attempt_count:
  assumes "i \<in> set js"
  shows "filter (\<lambda>(j, a). j = i) (page_attempts d js)
    = map (Pair i) (filter (\<lambda>a. task_job d (a_task a) = Some i) (attempts d))"
proof -
  have "filter (\<lambda>(j, a). j = i) (List.map_filter (\<lambda>a.
     if a_task a \<in> fst ` set (page_tasks d js) then map_option (\<lambda>j. (j, a)) (task_job d (a_task a))
     else None) as) = map (Pair i) (filter (\<lambda>a. task_job d (a_task a) = Some i) as)" for as
    using page_task_ids[OF _ assms]
    by (induction as) (auto simp: map_filter_Cons split: option.splits)
  then show ?thesis by (simp add: page_attempts_def)
qed

lemma count_list_fst: "count_list (map fst xs) i = length (filter (\<lambda>(j, a). j = i) xs)"
  by (induction xs) auto

lemma filter_swap: "filter (\<lambda>(j, a). j = i) (filter (\<lambda>(j, a). P a) xs) = filter (\<lambda>(j, a). P a) (filter (\<lambda>(j, a). j = i) xs)"
  by (induction xs) auto

lemma page_attempt_open:
  assumes "i \<in> set js"
  shows "map snd (filter (\<lambda>(j, t). j = i) (map (\<lambda>(j, a). (j, a_started_at a))
      (filter (\<lambda>(j, a). a_finished_at a = None) (page_attempts d js))))
    = map a_started_at (filter (\<lambda>a. task_job d (a_task a) = Some i \<and> a_finished_at a = None) (attempts d))"
proof -
  have m: "map snd (filter (\<lambda>(j, t). j = i) (map (\<lambda>(j, a). (j, f a)) xs)) = map (\<lambda>(j, a). f a) (filter (\<lambda>(j, a). j = i) xs)"
    for f :: "attempt \<Rightarrow> instant" and xs
    by (induction xs) auto
  have "map (\<lambda>(j, a). a_started_at a) (filter (\<lambda>(j, a). a_finished_at a = None)
      (map (Pair i) (filter (\<lambda>a. task_job d (a_task a) = Some i) as)))
    = map a_started_at (filter (\<lambda>a. task_job d (a_task a) = Some i \<and> a_finished_at a = None) as)" for as
    by (induction as) auto
  then show ?thesis
    unfolding m filter_swap page_attempt_count[OF assms] .
qed

text \<open>Events: a child's rows are counted under its parent, which is in the page.\<close>

lemma sum_group_count:
  fixes target :: "string \<Rightarrow> string"
  assumes ejs: "set ejs = E" and S: "\<And>j. j \<in> E \<Longrightarrow> target j = i \<longleftrightarrow> j \<in> S" and sub: "S \<subseteq> E" "finite S"
  shows "sum_list (map snd (filter (\<lambda>(k, x). k = i) (map (\<lambda>(j, n). (target j, n)) (group_count (filter (\<lambda>j. j \<in> set ejs) log)))))
    = (\<Sum>j\<in>S. count_list log j)"
proof -
  let ?g = "filter (\<lambda>j. j \<in> set ejs) log"
  have "sum_list (map snd (filter (\<lambda>(k, x). k = i) (map (\<lambda>(j, n). (target j, n)) (map (\<lambda>k. (k, count_list ?g k)) ks))))
      = sum_list (map (count_list ?g) (filter (\<lambda>j. target j = i) ks))" for ks
    by (induction ks) auto
  also have "sum_list (map (count_list ?g) (filter (\<lambda>j. target j = i) (remdups ?g)))
      = (\<Sum>j\<in>{j \<in> set ?g. target j = i}. count_list ?g j)"
    by (subst sum_list_distinct_conv_sum_set) auto
  also have "{j \<in> set ?g. target j = i} = S \<inter> set log" using ejs S sub by auto
  also have "(\<Sum>j\<in>S \<inter> set log. count_list ?g j) = (\<Sum>j\<in>S \<inter> set log. count_list log j)"
  proof (rule sum.cong[OF refl])
    fix j assume "j \<in> S \<inter> set log"
    with ejs sub have "j \<in> set ejs" by auto
    then show "count_list ?g j = count_list log j" by (induction log) auto
  qed
  also have "\<dots> = (\<Sum>j\<in>S. count_list log j)"
    using sub by (intro sum.mono_neutral_left) auto
  finally show ?thesis by (simp add: group_count_def)
qed


lemma count_job_events:
  assumes k: "keyed (jobs d)" and i: "row (jobs d) i = Some r" "j_parent r = None" "i \<in> set js"
  defines "children \<equiv> page_children d js"
  shows "sum_list (map snd (filter (\<lambda>(k, x). k = i) (map (\<lambda>(j, n).
      (case map_of (rev (map (\<lambda>(p, c). (c, p)) children)) j of Some p \<Rightarrow> p | None \<Rightarrow> j, n))
      (group_count (filter (\<lambda>j. j \<in> set (js @ map snd children)) log)))))
    = sum_list (map (count_list log) (ids_where (\<lambda>k x. k = i \<or> j_parent x = Some i) (jobs d)))"
proof -
  let ?parents = "map_of (rev (map (\<lambda>(p, c). (c, p)) children))"
  let ?S = "set (ids_where (\<lambda>k x. k = i \<or> j_parent x = Some i) (jobs d))"
  have mem: "(p, c) \<in> set children \<longleftrightarrow> p \<in> set js \<and> (\<exists>x. row (jobs d) c = Some x \<and> j_parent x = Some p)" for p c
    using k keyed_memD[OF k] unfolding children_def page_children_def
    by (auto simp: List.map_filter_def split: option.splits if_splits dest: map_of_SomeD intro!: rev_image_eqI)
  have par: "?parents j = Some p \<Longrightarrow> p \<in> set js \<and> (\<exists>x. row (jobs d) j = Some x \<and> j_parent x = Some p)" for j p
    using mem[of p j] by (auto dest!: map_of_SomeD)
  have nopar: "?parents j = None \<Longrightarrow> (p, j) \<notin> set children" for j p
    by (force simp: map_of_eq_None_iff)
  have S: "j \<in> ?S \<longleftrightarrow> j = i \<or> (\<exists>x. row (jobs d) j = Some x \<and> j_parent x = Some i)" for j
    using k i(1) by (auto simp: ids_where_iff)
  have target: "(case ?parents j of Some p \<Rightarrow> p | None \<Rightarrow> j) = i \<longleftrightarrow> j \<in> ?S" for j
  proof (cases "?parents j")
    case None
    then show ?thesis unfolding S using nopar[OF None, of i] mem[of i j] i(3) by auto
  next
    case (Some p)
    from par[OF this] i(1,2) have "j \<noteq> i" by auto
    with par[OF Some] Some show ?thesis unfolding S by auto
  qed
  have sub: "?S \<subseteq> set (js @ map snd children)"
    using S mem[of i] i(3) by force
  have "sum_list (map (count_list log) (ids_where (\<lambda>k x. k = i \<or> j_parent x = Some i) (jobs d)))
      = (\<Sum>j\<in>?S. count_list log j)"
    using distinct_ids_where[OF k] by (rule sum_list_distinct_conv_sum_set)
  then show ?thesis
    using sum_group_count[OF refl target sub finite_set, of log] by simp
qed

text \<open>Each loop on one fresh row.\<close>

definition loaded :: "view \<Rightarrow> string list \<Rightarrow> raw \<Rightarrow> raw" where
  "loaded v js r =
     (let d = vw_store v; children = page_children d js;
          parents = map_of (rev (map (\<lambda>(p, c). (c, p)) children)); atts = page_attempts d js;
          ev = (\<lambda>log. map (\<lambda>(j, n). (case parents j of Some p \<Rightarrow> p | None \<Rightarrow> j, n))
            (group_count (filter (\<lambda>j. j \<in> set (js @ map snd children)) log)));
          r1 = row_each (\<lambda>_. add_child) children r;
          r2 = row_each set_tasks (group_count (map (\<lambda>(i, t). t_job t) (page_tasks d js))) r1;
          r3 = row_each set_started (group_min (List.map_filter (\<lambda>(i, t).
            map_option (\<lambda>s. (t_job t, s)) (t_started_at t)) (page_tasks d js))) r2;
          r4 = row_each set_attempts (group_count (map fst atts)) r3;
          r5 = row_each set_open (group_min (map (\<lambda>(j, a). (j, a_started_at a))
            (filter (\<lambda>(j, a). a_finished_at a = None) atts))) r4
      in row_each add_events (ev (vw_log v)) (row_each add_events (ev (job_events d)) r5))"

lemma edits_keep_key [simp]:
  "rw_key (add_child r) = rw_key r" "rw_key (set_tasks n r) = rw_key r" "rw_key (set_started t r) = rw_key r"
  "rw_key (set_attempts n r) = rw_key r" "rw_key (set_open t r) = rw_key r" "rw_key (add_events n r) = rw_key r"
  by (simp_all add: add_child_def set_tasks_def set_started_def set_attempts_def set_open_def add_events_def)

lemmas row_each_keys [simp] =
  row_each_key[of "\<lambda>_. add_child", OF edits_keep_key(1)] row_each_key[of set_tasks, OF edits_keep_key(2)]
  row_each_key[of set_started, OF edits_keep_key(3)] row_each_key[of set_attempts, OF edits_keep_key(4)]
  row_each_key[of set_open, OF edits_keep_key(5)] row_each_key[of add_events, OF edits_keep_key(6)]

lemma load_page_loaded:
  assumes d: "distinct (map rw_key rows)"
  shows "load_page_relations v rows = map (loaded v (map rw_key rows)) rows"
proof -
  note e = each_map[OF d, of "\<lambda>_. add_child", OF edits_keep_key(1)] each_map[OF d, of set_tasks, OF edits_keep_key(2)]
    each_map[OF d, of set_started, OF edits_keep_key(3)] each_map[OF d, of set_attempts, OF edits_keep_key(4)]
    each_map[OF d, of set_open, OF edits_keep_key(5)] each_map[OF d, of add_events, OF edits_keep_key(6)]
  show ?thesis
    by (simp add: load_page_relations_def loaded_def count_events_def Let_def e comp_def)
qed

lemma same_field:
  "rw_tasks x = n \<Longrightarrow> x\<lparr>rw_tasks := n\<rparr> = x" "rw_attempt_rows x = n \<Longrightarrow> x\<lparr>rw_attempt_rows := n\<rparr> = x"
  "rw_started_at x = t \<Longrightarrow> x\<lparr>rw_started_at := t\<rparr> = x"
  "rw_open_attempt_started x = t \<Longrightarrow> x\<lparr>rw_open_attempt_started := t\<rparr> = x"
  by (cases x; simp)+

lemma row_each_count:
  assumes "\<And>n r. rw_key (f n r) = rw_key r" "f 0 x = x"
  shows "row_each f (group_count ks) x = f (count_list ks (rw_key x)) x"
proof (cases "rw_key x \<in> set ks")
  case True
  then show ?thesis by (simp add: row_each_pick[OF distinct_groups(1) assms(1)] map_of_group_count)
next
  case False
  then show ?thesis
    by (simp add: row_each_pick[OF distinct_groups(1) assms(1)] map_of_group_count assms(2) count_notin)
qed

lemma row_each_min:
  assumes "\<And>t r. rw_key (f t r) = rw_key r"
  shows "row_each f (group_min xs) x
    = (case earliest (map snd (filter (\<lambda>(j, t). j = rw_key x) xs)) of Some t \<Rightarrow> f t x | None \<Rightarrow> x)"
  by (simp add: row_each_pick[OF distinct_groups(2) assms] map_of_group_min)

lemma loaded_fresh:
  assumes k: "keyed (jobs (vw_store v))" and i: "row (jobs (vw_store v)) i = Some r" "j_parent r = None" "i \<in> set js"
  shows "loaded v js (empty_raw (i, r)) = relations v (empty_raw (i, r))"
proof -
  let ?d = "vw_store v"
  have ev: "sum_list (map (events_of v) xs) = sum_list (map (count_list (job_events ?d)) xs) + sum_list (map (count_list (vw_log v)) xs)" for xs
    by (induction xs) (auto simp: events_of_def)
  have tasks: "row_each set_tasks (group_count (map (\<lambda>(i, t). t_job t) (page_tasks ?d js))) x
      = x\<lparr>rw_tasks := length (filter (\<lambda>(k, t). t_job t = i) (tasks ?d))\<rparr>" if "rw_key x = i" "rw_tasks x = 0" for x
    unfolding row_each_count[where f = set_tasks, OF edits_keep_key(2) same_field(1)[OF that(2), folded set_tasks_def]]
      that(1) page_task_count[OF i(3)] by (rule set_tasks_def)
  have atts: "row_each set_attempts (group_count (map fst (page_attempts ?d js))) x
      = x\<lparr>rw_attempt_rows := length (filter (\<lambda>a. task_job ?d (a_task a) = Some i) (attempts ?d))\<rparr>"
    if "rw_key x = i" "rw_attempt_rows x = 0" for x
    unfolding row_each_count[where f = set_attempts, OF edits_keep_key(4) same_field(2)[OF that(2), folded set_attempts_def]]
      that(1) count_list_fst page_attempt_count[OF i(3)] by (simp add: set_attempts_def)
  have pick: "(case t of Some t \<Rightarrow> set_started t x | None \<Rightarrow> x) = x\<lparr>rw_started_at := t\<rparr>" if "rw_started_at x = None" for t x
    using that by (cases t) (simp_all add: set_started_def same_field)
  have pick2: "(case t of Some t \<Rightarrow> set_open t x | None \<Rightarrow> x) = x\<lparr>rw_open_attempt_started := t\<rparr>"
    if "rw_open_attempt_started x = None" for t x
    using that by (cases t) (simp_all add: set_open_def same_field)
  have starts: "row_each set_started (group_min (List.map_filter (\<lambda>(i, t).
            map_option (\<lambda>s. (t_job t, s)) (t_started_at t)) (page_tasks ?d js))) x
      = x\<lparr>rw_started_at := earliest (List.map_filter (\<lambda>(k, t). if t_job t = i then t_started_at t else None) (tasks ?d))\<rparr>"
    if "rw_key x = i" "rw_started_at x = None" for x
    unfolding row_each_min[where f = set_started, OF edits_keep_key(3)] that(1) page_task_starts[OF i(3)]
    by (rule pick[OF that(2)])
  have opens: "row_each set_open (group_min (map (\<lambda>(j, a). (j, a_started_at a))
            (filter (\<lambda>(j, a). a_finished_at a = None) (page_attempts ?d js)))) x
      = x\<lparr>rw_open_attempt_started := earliest (map a_started_at
        (filter (\<lambda>a. task_job ?d (a_task a) = Some i \<and> a_finished_at a = None) (attempts ?d)))\<rparr>"
    if "rw_key x = i" "rw_open_attempt_started x = None" for x
    unfolding row_each_min[where f = set_open, OF edits_keep_key(5)] that(1) page_attempt_open[OF i(3)]
    by (rule pick2[OF that(2)])
  show ?thesis
    unfolding loaded_def relations_def Let_def row_each_children row_each_events
    by (simp add: tasks starts atts opens empty_raw_def page_children_count[OF i(3)]
        count_job_events[OF k i, simplified] ev)
qed


section \<open>The page\<close>

lemma take_sorted_key:
  assumes "(a :: 'a) \<in> set (take n (sort_key f xs))" "b \<in> set xs" "b \<notin> set (take n (sort_key f xs))"
  shows "(f a :: 'b :: linorder) \<le> f b"
proof -
  let ?s = "sort_key f xs"
  have "b \<in> set (drop n ?s)"
    using assms(2,3) append_take_drop_id[of n ?s] by (metis Un_iff set_append set_sort)
  moreover have "sorted (map f (take n ?s @ drop n ?s))" by simp
  ultimately show ?thesis using assms(1) unfolding map_append sorted_append by auto
qed

lemma settle_frame: "keyed (jobs (settle_running_intel_briefs E now d)) = keyed (jobs d)"
  using updates_settle_each[of d E now "ids_where (\<lambda>i r. j_state r = ''running'' \<and> j_operation r = ''intel_brief'') (jobs d)"]
  by (simp add: settle_running_intel_briefs_def updates_def keyed_def)

text \<open>Each row of the Jobs list, whose counts are loaded in grouped queries over the page, is
  exactly the row that reading the job by itself gives, whose counts are correlated subqueries:
  children, tasks, attempts, the earliest start, the earliest open attempt, and the events of the
  job and its children.\<close>

lemma list_jobs_rows:
  assumes k: "keyed (jobs (vw_store v))" and l: "list_jobs E lower f limit now v = (rows, v1)"
  shows "map Some rows = map (\<lambda>(i, r). get_job v1 i now) (list_page lower f limit now (vw_store v1))"
proof -
  let ?d = "vw_store v1" and ?page = "list_page lower f limit now (vw_store v1)"
  have v1: "v1 = v\<lparr>vw_store := settle_running_intel_briefs E now (vw_store v)\<rparr>"
    and rows: "rows = map job_row_of (load_page_relations v1 (map empty_raw ?page))"
    using l by (auto simp: list_jobs_def Let_def)
  have k1: "keyed (jobs ?d)" using k by (simp add: v1 settle_frame)
  have keys: "map rw_key (map empty_raw ?page) = map fst ?page" by (simp add: empty_raw_def split_beta comp_def)
  have sub: "set ?page \<subseteq> set (filter (\<lambda>(i, r). listed lower f now ?d i r) (jobs ?d))"
    unfolding list_page_def by (metis set_sort set_take_subset)
  have dist: "distinct (map fst ?page)"
  proof -
    have "distinct (map fst (filter (\<lambda>(i, r). listed lower f now ?d i r) (jobs ?d)))"
      using k1 by (simp add: keyed_def distinct_map_filter)
    then have "distinct (map fst (sort_key page_key (filter (\<lambda>(i, r). listed lower f now ?d i r) (jobs ?d))))"
      by (simp add: distinct_map)
    then show ?thesis unfolding list_page_def by (metis distinct_take take_map)
  qed
  have one: "get_job v1 i now = Some (job_row_of (loaded v1 (map fst ?page) (empty_raw (i, r))))"
    if ir: "(i, r) \<in> set ?page" for i r
  proof -
    from sub ir have "(i, r) \<in> set (jobs ?d)" and l: "listed lower f now ?d i r" by auto
    then have row: "row (jobs ?d) i = Some r" using keyed_memD[OF k1] by simp
    have "i \<in> set (map fst ?page)" using ir by force
    with l row show ?thesis
      by (simp add: get_job_def listed_def loaded_fresh[OF k1 row])
  qed
  have "load_page_relations v1 (map empty_raw ?page) = map (loaded v1 (map fst ?page)) (map empty_raw ?page)"
    using load_page_loaded[of "map empty_raw ?page" v1] dist unfolding keys by simp
  then show ?thesis
    using one by (auto simp: rows comp_def)
qed

text \<open>The Jobs list shows the right jobs: each of them is a visible top-level job that passes the
  filter, at most the asked number is shown (never none), and no visible job that passes the filter
  and is left out comes before a shown one in the order rank, newest update, key. A running API or
  web server therefore is left out only for another one.\<close>

lemma list_page_first:
  assumes k: "keyed (jobs d)"
  shows "let page = list_page lower f limit now d in length page \<le> max limit 1 \<and> sorted (map page_key page)
    \<and> (\<forall>j x. (j, x) \<in> set page \<longrightarrow> row (jobs d) j = Some x \<and> listed lower f now d j x)
    \<and> (\<forall>i r. row (jobs d) i = Some r \<and> listed lower f now d i r \<and> (i, r) \<notin> set page \<longrightarrow>
        length page = max limit 1 \<and> (\<forall>j x. (j, x) \<in> set page \<longrightarrow> rank x < rank r
            \<or> rank x = rank r \<and> j_updated_at r < j_updated_at x
            \<or> rank x = rank r \<and> j_updated_at r = j_updated_at x \<and> j \<le> i))"
proof -
  let ?c = "filter (\<lambda>(i, r). listed lower f now d i r) (jobs d)" and ?n = "max limit 1"
  define page where "page = list_page lower f limit now d"
  have page: "page = take ?n (sort_key page_key ?c)" by (simp add: page_def list_page_def)
  have sound: "row (jobs d) j = Some x \<and> listed lower f now d j x" if "(j, x) \<in> set page" for j x
  proof -
    have "(j, x) \<in> set ?c" using that unfolding page by (metis in_set_takeD set_sort)
    then show ?thesis using keyed_memD[OF k] by auto
  qed
  have left: "length page = ?n \<and> page_key (j, x) \<le> page_key (i, r)"
    if "row (jobs d) i = Some r" "listed lower f now d i r" "(i, r) \<notin> set page" "(j, x) \<in> set page" for i r j x
  proof -
    have mem: "(i, r) \<in> set ?c" using that by (auto dest: map_of_SomeD)
    have "page \<noteq> sort_key page_key ?c" using mem that(3) by auto
    then have "\<not> length (sort_key page_key ?c) < ?n" unfolding page by auto
    then show ?thesis using take_sorted_key[OF that(4)[unfolded page] mem that(3)[unfolded page]] page by auto
  qed
  have full: "length page = ?n" if "row (jobs d) i = Some r" "listed lower f now d i r" "(i, r) \<notin> set page" for i r
  proof -
    have "page \<noteq> sort_key page_key ?c" using that by (auto dest: map_of_SomeD)
    then have "\<not> length (sort_key page_key ?c) < ?n" unfolding page by auto
    then show ?thesis unfolding page by simp
  qed
  have "sorted (map page_key page)" unfolding page by (simp flip: take_map)
  moreover have "length page \<le> ?n" by (simp add: page)
  ultimately show ?thesis
    unfolding page_def[symmetric] Let_def using sound left full by (fastforce simp: page_key_def)
qed


section \<open>A concrete page\<close>

definition demo_log_view :: view where
  "demo_log_view = \<lparr>vw_store = demo_db\<lparr>jobs := [(''j'', demo_job), (''c'', demo_job\<lparr>j_parent := Some ''j''\<rparr>),
       (''k'', demo_job\<lparr>j_operation := ''index'', j_updated_at := 7\<rparr>)]\<rparr>,
     vw_index = empty_outbox, vw_log = [''c'', ''j'', ''c'', ''z'']\<rparr>"

definition no_filter :: job_filter where
  "no_filter = \<lparr>fl_status = F_All, fl_app = [], fl_operation = [], fl_text = [], fl_since = None\<rparr>"

lemma demo_log_view_keyed: "keyed (jobs (vw_store demo_log_view))"
  by (simp add: demo_log_view_def keyed_def)

theorem list_jobs_rows_witness:
  "map Some (fst (list_jobs demo_E (\<lambda>s. s) no_filter 1 8 demo_log_view))
     = map (\<lambda>(i, r). get_job (snd (list_jobs demo_E (\<lambda>s. s) no_filter 1 8 demo_log_view)) i 8)
         (list_page (\<lambda>s. s) no_filter 1 8 (vw_store (snd (list_jobs demo_E (\<lambda>s. s) no_filter 1 8 demo_log_view))))"
  using list_jobs_rows[OF demo_log_view_keyed prod.collapse[symmetric]] .

theorem list_page_first_witness:
  "length (list_page (\<lambda>s. s) no_filter 1 8 (vw_store demo_log_view)) \<le> 1
   \<and> sorted (map page_key (list_page (\<lambda>s. s) no_filter 1 8 (vw_store demo_log_view)))
   \<and> map fst (list_page (\<lambda>s. s) no_filter 1 8 (vw_store demo_log_view)) = [''k'']"
proof (intro conjI)
  note page = list_page_first[OF demo_log_view_keyed, of "\<lambda>s. s" no_filter 1 8, unfolded Let_def]
  show "length (list_page (\<lambda>s. s) no_filter 1 8 (vw_store demo_log_view)) \<le> 1" using page by simp
  show "sorted (map page_key (list_page (\<lambda>s. s) no_filter 1 8 (vw_store demo_log_view)))" using page by blast
  show "map fst (list_page (\<lambda>s. s) no_filter 1 8 (vw_store demo_log_view)) = [''k'']"
    by code_simp
qed

section \<open>Header counts, apps and the detail panel\<close>

record job_counts =
  jc_active :: nat
  jc_queued :: nat
  jc_retrying :: nat
  jc_failed :: nat
  jc_completed_recent :: nat

text \<open>One row of the counting query: the state and whether the job finished in the last day; an
  unfinished job counts as finished at the epoch.\<close>

definition count_row :: "instant \<Rightarrow> job \<Rightarrow> job_counts \<Rightarrow> job_counts" where
  "count_row now r c =
     (let recent = (now - hours 24 \<le> (case j_finished_at r of Some t \<Rightarrow> t | None \<Rightarrow> 0)); s = j_state r in
      if s = ''running'' then c\<lparr>jc_active := jc_active c + 1\<rparr>
      else if s = ''queued'' then c\<lparr>jc_queued := jc_queued c + 1\<rparr>
      else if s = ''retry_scheduled'' then c\<lparr>jc_retrying := jc_retrying c + 1\<rparr>
      else if s = ''failed'' \<or> s = ''partial'' then c\<lparr>jc_failed := jc_failed c + 1\<rparr>
      else if (s = ''completed'' \<or> s = ''succeeded'') \<and> recent
      then c\<lparr>jc_completed_recent := jc_completed_recent c + 1\<rparr> else c)"

definition count_jobs :: "instant \<Rightarrow> db \<Rightarrow> job_counts" where
  "count_jobs now d = foldl (\<lambda>c (i, r). count_row now r c)
     \<lparr>jc_active = 0, jc_queued = 0, jc_retrying = 0, jc_failed = 0, jc_completed_recent = 0\<rparr>
     (filter (\<lambda>(i, r). j_parent r = None \<and> j_kind r \<noteq> ''service'' \<and> eligible_job now d i r) (jobs d))"

definition job_apps :: "instant \<Rightarrow> db \<Rightarrow> string list" where
  "job_apps now d = take 32 (sort (remdups (map (\<lambda>(i, r). j_app r)
     (filter (\<lambda>(i, r). j_parent r = None \<and> j_app r \<noteq> [] \<and> eligible_job now d i r) (jobs d)))))"

definition retryable_ops :: "string list" where
  "retryable_ops = [''index_upsert'', ''index_remove'', ''index_rebuild'', ''upsert'', ''remove'', ''rebuild'',
       ''generation_rebuild''] @
     [''page_evidence'', ''graph_explanation'', ''follow_up_context'', ''tool_observation'',
       ''investigation_title'', ''report_context'', ''section_digest'', ''atlas_brief'',
       ''article_description'', ''topology_neighborhood'', ''summarization'']"

text \<open>
  \<open>jd_tasks\<close>: open and failed first, then newest update, then id; the 20 newest attempts, ties
  (broken by generated ids) in table order.
\<close>

record job_detail =
  jd_job :: job_row
  jd_children :: "job_row list"
  jd_tasks :: "(string \<times> task) list"
  jd_task_total :: nat
  jd_attempts :: "attempt list"
  jd_retryable :: nat

definition task_rank :: "task \<Rightarrow> int" where
  "task_rank t = (if t_state t \<in> {''running'', ''queued'', ''retry_scheduled'', ''failed''} then 0 else 1)"

definition job_detail_of :: "view \<Rightarrow> string \<Rightarrow> nat \<Rightarrow> instant \<Rightarrow> job_detail option" where
  "job_detail_of v i limit now = (case get_job v i now of None \<Rightarrow> None
     | Some j \<Rightarrow> (let d = vw_store v; own = filter (\<lambda>(k, t). t_job t = i) (tasks d) in
         Some \<lparr>jd_job = j,
           jd_children = map (\<lambda>x. job_row_of (relations v (empty_raw x)))
             (take 50 (sort_key (\<lambda>(k, r). (j_created_at r, k))
               (filter (\<lambda>(k, r). j_parent r = Some i) (jobs d)))),
           jd_tasks = take (max limit 1) (sort_key (\<lambda>(k, t). (task_rank t, - t_updated_at t, k)) own),
           jd_task_total = length own,
           jd_attempts = take 20 (sort_key (\<lambda>a. - a_started_at a)
             (filter (\<lambda>a. task_job d (a_task a) = Some i) (attempts d))),
           jd_retryable = length (filter (\<lambda>(k, t). t_state t = ''failed'' \<and> t_operation t \<in> set retryable_ops) own)\<rparr>))"

section \<open>Dashboard metadata\<close>

record job_meta =
  m_app :: "string option"
  m_title :: "string option"
  m_provider :: "string option"
  m_model :: "string option"
  m_tool :: "string option"
  m_run_ref :: "string option"
  m_resource_ref :: "string option"
  m_result_ref :: "string option"
  m_error_category :: "string option"
  m_error_summary :: "string option"
  m_correlation_id :: "string option"
  m_worker_owner :: "string option"
  m_progress_done :: "int option"
  m_progress_total :: "int option"
  m_active_ms :: "int option"
  m_queue_ms :: "int option"
  m_retry_wait_ms :: "int option"
  m_attempts_used :: "int option"
  m_attempt_cap :: "int option"
  m_cancellable :: "bool option"

definition or_keep :: "'a option \<Rightarrow> 'a \<Rightarrow> 'a" where
  "or_keep m old = (case m of Some x \<Rightarrow> x | None \<Rightarrow> old)"

definition some_or_keep :: "'a option \<Rightarrow> 'a option \<Rightarrow> 'a option" where
  "some_or_keep m old = (case m of Some x \<Rightarrow> Some x | None \<Rightarrow> old)"

text \<open>The merge of the fields that the code puts in the patch.\<close>

definition merge_meta :: "job_meta \<Rightarrow> job \<Rightarrow> job" where
  "merge_meta m r = r\<lparr>j_app := or_keep (m_app m) (j_app r), j_title := or_keep (m_title m) (j_title r),
     j_provider := or_keep (m_provider m) (j_provider r), j_model := or_keep (m_model m) (j_model r),
     j_tool := or_keep (m_tool m) (j_tool r), j_run_ref := or_keep (m_run_ref m) (j_run_ref r),
     j_resource_ref := or_keep (m_resource_ref m) (j_resource_ref r),
     j_result_ref := or_keep (m_result_ref m) (j_result_ref r),
     j_error_category := or_keep (m_error_category m) (j_error_category r),
     j_error_summary := or_keep (m_error_summary m) (j_error_summary r),
     j_correlation_id := or_keep (m_correlation_id m) (j_correlation_id r),
     j_active_ms := some_or_keep (m_active_ms m) (j_active_ms r),
     j_queue_ms := some_or_keep (m_queue_ms m) (j_queue_ms r),
     j_retry_wait_ms := some_or_keep (m_retry_wait_ms m) (j_retry_wait_ms r),
     j_attempts_used := or_keep (m_attempts_used m) (j_attempts_used r),
     j_attempt_cap := or_keep (m_attempt_cap m) (j_attempt_cap r),
     j_cancellable := or_keep (m_cancellable m) (j_cancellable r)\<rparr>"

definition set_job_meta :: "string \<Rightarrow> job_meta \<Rightarrow> db \<Rightarrow> db" where
  "set_job_meta i m d = d\<lparr>jobs := update_one i (merge_meta m) (jobs d)\<rparr>"

text \<open>The metadata type has a worker and progress counts, the patch does not: they are never written.\<close>

lemma set_job_meta_drops_progress:
  "set_job_meta i (m\<lparr>m_worker_owner := w, m_progress_done := p, m_progress_total := q\<rparr>) d = set_job_meta i m d"
  by (simp add: set_job_meta_def merge_meta_def[abs_def])

section \<open>Operations started from the dashboard\<close>

datatype cancel_request = Requested | NotCancellable | NotRunning | MissingJob

definition cancel_job :: "nat \<Rightarrow> env \<Rightarrow> string \<Rightarrow> instant \<Rightarrow> view
     \<Rightarrow> tx_error + (cancel_request \<times> view) option" where
  "cancel_job fuel E i now v =
     (case get_job v i now of
        None \<Rightarrow> Inr (Some (MissingJob, v))
      | Some j \<Rightarrow>
          if \<not> jr_cancellable j then Inr (Some (NotCancellable, v))
          else if \<not> row_active j then Inr (Some (NotRunning, v))
          else case stop_job fuel E i now 50 None (vw_store v) of
            Inl e \<Rightarrow> Inl e
          | Inr r \<Rightarrow> Inr (map_option (\<lambda>(p, d). (Requested, v\<lparr>vw_store := d\<rparr>)) r))"

definition clear_jobs :: "nat \<Rightarrow> status_filter \<Rightarrow> instant \<Rightarrow> db \<Rightarrow> tx_error + (nat \<times> db) option" where
  "clear_jobs fuel s now d =
     (if s \<notin> {F_Completed, F_Stopped, F_Failed}
      then Inl (Abort (filter_label s @ '' is not a history filter''))
      else clear_jobs_by_status fuel (filter_states s) now d)"

text \<open>The history filters name only terminal states, so clearing never fails on its argument.\<close>

lemma history_filters_terminal:
  "s \<in> {F_Completed, F_Stopped, F_Failed} \<Longrightarrow> set (filter_states s) \<subseteq> set TERMINAL"
  by (auto simp: TERMINAL_def)

text \<open>Cancelling from the dashboard stops the whole tree: for a visible job that is active and
  can be cancelled, the request ends as requested, with fuel above the number of its running
  descendants, and the job and each of those descendants are stopped, none able to run again. A job
  that is missing, finished or not cancellable is answered as such and nothing changes.\<close>

lemma cancel_job_contract:
  assumes r: "row (jobs (vw_store v)) i = Some r" and fuel: "length (left_to_stop (vw_store v) i) < fuel"
  shows "(\<exists>j. get_job v i now = Some j \<and> jr_cancellable j \<and> row_active j
      \<and> (\<exists>v'. cancel_job fuel E i now v = Inr (Some (Requested, v')) \<and> job_stopped (vw_store v') i
          \<and> (\<forall>c. (i, c) \<in> fst ` set (links (vw_store v)) \<and> unstopped (vw_store v) c \<longrightarrow> job_stopped (vw_store v') c)))
    \<or> (\<exists>a. cancel_job fuel E i now v = Inr (Some (a, v)) \<and> a \<noteq> Requested)"
proof (cases "\<exists>j. get_job v i now = Some j \<and> jr_cancellable j \<and> row_active j")
  case True
  then obtain j where j: "get_job v i now = Some j" "jr_cancellable j" "row_active j" by blast
  have "\<exists>p d'. stop_job fuel E i now 50 None (vw_store v) = Inr (Some (p, d')) \<and> job_stopped d' i
      \<and> (\<forall>c. (i, c) \<in> fst ` set (links (vw_store v)) \<and> unstopped (vw_store v) c \<longrightarrow> job_stopped d' c)"
    using stop_job_stops[OF r _ fuel, of 50 E now] by auto
  with j show ?thesis by (auto simp: cancel_job_def)
next
  case False
  then show ?thesis by (auto simp: cancel_job_def split: option.splits)
qed

end
