(* ===== verification/Job_Retry.thy ===== *)
theory Job_Retry
  imports Job_View
begin

text \<open>
  Retry from the Jobs dashboard (\<open>retry_failed_tasks\<close> of \<open>storage/jobs_view.rs\<close>) over the job tables
  and the outbox, what it does row by row, and two defects it has: the claim numbers it makes the
  engine refuse, and the work locks it does not take back.
\<close>

section \<open>State change\<close>

definition requeue_failed :: "instant \<Rightarrow> task \<Rightarrow> task" where
  "requeue_failed now t = t\<lparr>t_state := ''queued'', t_attempts := 0, t_next_eligible_at := now,
     t_lease_owner := [], t_process_owner := [], t_lease_until := None, t_finished_at := None,
     t_error_category := [], t_error_message := [], t_updated_at := now\<rparr>"

definition retried :: "string \<Rightarrow> task \<Rightarrow> bool" where
  "retried i t \<longleftrightarrow> t_job t = i \<and> t_state t = ''failed'' \<and> t_operation t \<in> set retryable_ops"

definition reopen_job :: "instant \<Rightarrow> job \<Rightarrow> job" where
  "reopen_job now r = r\<lparr>j_state := ''running'', j_finished_at := None, j_updated_at := now\<rparr>"

definition reset_changes :: "string list \<Rightarrow> instant \<Rightarrow> outbox \<Rightarrow> outbox" where
  "reset_changes ids now x = x\<lparr>changes := update_where
     (\<lambda>k c. ic_state c = ''failed'' \<and> ic_task c \<in> set ids)
     (\<lambda>c. c\<lparr>ic_state := ''pending'', ic_updated_at := now\<rparr>) (changes x)\<rparr>"

definition retry_event :: "string \<Rightarrow> nat \<Rightarrow> instant \<Rightarrow> event" where
  "retry_event i n now = \<lparr>e_job_id = i, e_app = ''jobs'', e_type = ''job.retry'', e_severity = ''info'',
     e_message = ''Retry requested for '' @ nat_str n @ '' failed task(s)'', e_ts = now\<rparr>"

text \<open>The transaction of \<open>retry_failed_tasks\<close>.\<close>

definition retry_in :: "string \<Rightarrow> instant \<Rightarrow> (view, nat) body" where
  "retry_in i now v =
     (case row (jobs (vw_store v)) i of
        None \<Rightarrow> Inr (0, v)
      | Some head \<Rightarrow>
          if j_cancel_requested head then Inr (0, v)
          else
            let d = bump ''job_guard'' (j_root head) (vw_store v);
                ids = ids_where (\<lambda>k t. retried i t) (tasks d);
                d1 = d\<lparr>tasks := update_where (\<lambda>k t. retried i t) (requeue_failed now) (tasks d)\<rparr>
            in if ids = [] then Inr (0, v\<lparr>vw_store := d1\<rparr>)
               else Inr (length ids, v\<lparr>
                 vw_store := d1\<lparr>
                   jobs := update_where (\<lambda>k r. k = i \<and> j_state r \<in> {''failed'', ''partial''})
                     (reopen_job now) (jobs d1),
                   retry_events := retry_events d1 @ [retry_event i (length ids) now]\<rparr>,
                 vw_index := reset_changes ids now (vw_index v)\<rparr>))"

text \<open>
  The whole request: nothing for a job that is not visible; then the transaction; then the explicit
  retry of each insight refresh task of the job (\<open>insight_retry.rs\<close>, not modelled: \<open>retry_insight\<close>),
  each of which adds one when it was admitted.
\<close>

fun retry_insights :: "(string \<Rightarrow> view \<Rightarrow> tx_error + (bool \<times> view)) \<Rightarrow> string list \<Rightarrow> nat \<Rightarrow> view
     \<Rightarrow> tx_error + (nat \<times> view)" where
  "retry_insights f [] n v = Inr (n, v)"
| "retry_insights f (t # ts) n v = (case f t v of Inl e \<Rightarrow> Inl e
     | Inr (b, v1) \<Rightarrow> retry_insights f ts (if b then n + 1 else n) v1)"

definition retry_failed_tasks ::
  "(string \<Rightarrow> view \<Rightarrow> tx_error + (bool \<times> view)) \<Rightarrow> (nat \<Rightarrow> view attempt_env) \<Rightarrow> string \<Rightarrow> instant \<Rightarrow> view
     \<Rightarrow> tx_error + (nat \<times> view)" where
  "retry_failed_tasks retry_insight net i now v =
     (case get_job v i now of None \<Rightarrow> Inr (0, v)
      | Some _ \<Rightarrow> (case run_tx net default_policy (\<lambda>_. retry_in i now) v of
          (Inl e, v1) \<Rightarrow> Inl e
        | (Inr c, v1) \<Rightarrow> retry_insights retry_insight
            (ids_where (\<lambda>k t. t_job t = i \<and> t_operation t = ''insight_refresh'') (tasks (vw_store v1))) (outcome_value c) v1))"

section \<open>What a retry does\<close>

text \<open>A retry requeues exactly the failed index and summary stages of its job, with a fresh attempt
  count, no lease and their claim epochs kept, so no claim of before the retry holds; their failed
  index changes are pending again, the job is reopened when it had failed, and one event is written.
  Every other stage, job and change, and every attempt and work lock, is left alone. A job with a
  cancel request retries nothing.\<close>

lemma retry_contract:
  assumes r: "row (jobs (vw_store v)) i = Some r" and t: "retry_in i now v = Inr (n, v')"
  shows "(j_cancel_requested r \<longrightarrow> n = 0 \<and> v' = v)
    \<and> (\<not> j_cancel_requested r \<longrightarrow> n = length (ids_where (\<lambda>k. retried i) (tasks (vw_store v)))
        \<and> (\<forall>k. row (tasks (vw_store v')) k
            = map_option (\<lambda>t. if retried i t then requeue_failed now t else t) (row (tasks (vw_store v)) k))
        \<and> (\<forall>k. row (jobs (vw_store v')) k
            = map_option (\<lambda>r. if k = i \<and> 0 < n \<and> j_state r \<in> {''failed'', ''partial''}
                then reopen_job now r else r) (row (jobs (vw_store v)) k))
        \<and> (\<forall>k. row (changes (vw_index v')) k = map_option (\<lambda>c. if ic_state c = ''failed''
                \<and> ic_task c \<in> set (ids_where (\<lambda>k. retried i) (tasks (vw_store v)))
              then c\<lparr>ic_state := ''pending'', ic_updated_at := now\<rparr> else c) (row (changes (vw_index v)) k))
        \<and> (\<forall>ct t. row (tasks (vw_store v)) (ct_id ct) = Some t \<and> retried i t \<longrightarrow> \<not> still_held (vw_store v') ct))
    \<and> attempts (vw_store v') = attempts (vw_store v) \<and> work (vw_index v') = work (vw_index v)
    \<and> retry_events (vw_store v') = retry_events (vw_store v) @ (if 0 < n then [retry_event i n now] else [])"
proof (cases "j_cancel_requested r")
  case True
  with assms show ?thesis by (simp add: retry_in_def)
next
  case False
  let ?ids = "ids_where (\<lambda>k. retried i) (tasks (vw_store v))"
  have none: "?ids = [] \<longleftrightarrow> (\<forall>(k, t)\<in>set (tasks (vw_store v)). \<not> retried i t)"
    by (auto simp: ids_where_def filter_empty_conv)
  have n: "n = length ?ids" and tasks: "tasks (vw_store v') = update_where (\<lambda>k t. retried i t) (requeue_failed now) (tasks (vw_store v))"
    and att: "attempts (vw_store v') = attempts (vw_store v)" "work (vw_index v') = work (vw_index v)"
      "retry_events (vw_store v') = retry_events (vw_store v) @ (if ?ids \<noteq> [] then [retry_event i (length ?ids) now] else [])"
    and jobs: "jobs (vw_store v') = (if ?ids = [] then jobs (vw_store v) else
      update_where (\<lambda>k r. k = i \<and> j_state r \<in> {''failed'', ''partial''}) (reopen_job now) (jobs (vw_store v)))"
    and chs: "changes (vw_index v') = (if ?ids = [] then changes (vw_index v) else
      changes (reset_changes ?ids now (vw_index v)))"
    using t r False by (auto simp: retry_in_def Let_def bump_def reset_changes_def split: if_splits)
  have rows: "row (tasks (vw_store v')) k
      = map_option (\<lambda>t. if retried i t then requeue_failed now t else t) (row (tasks (vw_store v)) k)" for k
    by (simp add: tasks)
  have "\<not> still_held (vw_store v') ct" if "row (tasks (vw_store v)) (ct_id ct) = Some t" "retried i t" for ct t
    using that by (auto simp: still_held_def rows requeue_failed_def)
  moreover have "row (jobs (vw_store v')) k
      = map_option (\<lambda>r. if k = i \<and> 0 < n \<and> j_state r \<in> {''failed'', ''partial''} then reopen_job now r else r)
          (row (jobs (vw_store v)) k)" for k
    by (auto simp: jobs n option.map_id[unfolded id_def])
  moreover have "row (changes (vw_index v')) k = map_option (\<lambda>c. if ic_state c = ''failed'' \<and> ic_task c \<in> set ?ids
              then c\<lparr>ic_state := ''pending'', ic_updated_at := now\<rparr> else c) (row (changes (vw_index v)) k)" for k
    by (auto simp: chs reset_changes_def option.map_id[unfolded id_def])
  ultimately show ?thesis
    using False n att rows by (simp only: simp_thms length_greater_0_conv) blast
qed

section \<open>A retried stage cannot be claimed again\<close>

text \<open>
  The attempt numbers of a stage are unique (index \<open>attempt_task\<close>) and a claim numbers its attempt by
  the stage's attempt count. The retry sets the count back to zero and keeps the attempt rows.
\<close>

lemma retry_keeps:
  assumes "row (jobs (vw_store v)) i = Some r" "\<not> j_cancel_requested r" "retry_in i now v = Inr (n, v')"
  shows "tasks (vw_store v') = update_where (\<lambda>k t. retried i t) (requeue_failed now) (tasks (vw_store v))"
    and "attempts (vw_store v') = attempts (vw_store v)"
  using assms by (auto simp: retry_in_def Let_def bump_def split: if_splits)

lemma claim_one_attempt_exists:
  assumes "row (tasks d) k = Some t" "t_state t = ''queued''" "c_id c = k" "c_pool c \<noteq> POOL_INTEL_BRIEF"
    and "a \<in> set (attempts d)" "a_task a = k" "a_number a = t_attempts t + 1"
  shows "claim_one E owner lease_secs now op_key c d = Inl already_exists"
proof -
  have "ids_where (\<lambda>i t. i = c_id c \<and> t_state t = ''queued'') (tasks d) \<noteq> []"
    using assms(1-3) by (force simp: ids_where_def filter_empty_conv dest: map_of_SomeD)
  moreover have "list_ex (\<lambda>b. a_task b = k \<and> a_number b = t_attempts t + 1) (attempts d)"
    using assms(5-7) by (auto simp: list_ex_iff)
  ultimately show ?thesis
    using assms(1-4) by (simp add: claim_one_def load_task_def create_attempt_def start_running_def Let_def)
qed

text \<open>C13: As the code stands, a stage that failed after its first attempt is lost by a retry: the
  retry makes it claimable, but every claim that reaches it creates attempt number one a second
  time, which the engine refuses, so the claim fails and rolls back, whatever the worker and time.\<close>

theorem retried_stage_unclaimable:
  assumes r: "row (jobs (vw_store v)) i = Some r" "\<not> j_cancel_requested r"
    and t: "row (tasks (vw_store v)) k = Some t" "retried i t"
    and a: "a \<in> set (attempts (vw_store v))" "a_task a = k" "a_number a = 1"
    and c: "c_id c = k" "c_pool c \<noteq> POOL_INTEL_BRIEF"
    and v': "retry_in i now v = Inr (n, v')"
  shows "(\<exists>t'. row (tasks (vw_store v')) k = Some t' \<and> t_state t' = ''queued'' \<and> t_next_eligible_at t' = now)
    \<and> claim_one E owner lease_secs now' op_key c (vw_store v') = Inl already_exists"
proof -
  note keep = retry_keeps[OF r v']
  have t': "row (tasks (vw_store v')) k = Some (requeue_failed now t)" using t by (simp add: keep(1))
  have "claim_one E owner lease_secs now' op_key c (vw_store v') = Inl already_exists"
    by (rule claim_one_attempt_exists[OF t' _ c]) (use a in \<open>simp_all add: requeue_failed_def keep(2)\<close>)
  with t' show ?thesis by (simp add: requeue_failed_def)
qed

section \<open>A concrete retry\<close>

definition failed_task :: task where
  "failed_task = (demo_task [])\<lparr>t_pool := ''index'', t_operation := ''index_upsert'', t_state := ''failed'',
     t_attempts := 1, t_lease_epoch := 1\<rparr>"

definition failed_change :: change where
  "failed_change = \<lparr>ic_seq = 1, ic_kind = ''page'', ic_id = ''x'', ic_revision = ''r1'',
     ic_operation = ''index_upsert'', ic_gen = ''g'', ic_state = ''failed'', ic_outcome = ''error'',
     ic_work_key = work_key ''page'' ''x'' ''r1'' ''index_upsert'', ic_content_hash = ''h'', ic_task = ''a'',
     ic_job = ''j'', ic_created_at = 0, ic_updated_at = 0\<rparr>"

definition demo_view :: view where
  "demo_view = \<lparr>vw_store = demo_db\<lparr>jobs := [(''j'', demo_job\<lparr>j_state := ''failed''\<rparr>)],
       tasks := [(''a'', failed_task)],
       attempts := [\<lparr>a_task = ''a'', a_root = ''j'', a_number = 1, a_epoch = 1, a_owner = ''w'',
         a_started_at = 1, a_finished_at = Some 2, a_outcome = ''failed'', a_duration_ms = None\<rparr>]\<rparr>,
     vw_index = empty_outbox\<lparr>changes := [(''a'', failed_change)],
       ctr := (ctr empty_outbox)\<lparr>counter_rows := [SEQ_COUNTER \<mapsto> 1]\<rparr>\<rparr>,
     vw_log = []\<rparr>"

definition demo_candidate :: candidate where
  "demo_candidate = \<lparr>c_priority = 0, c_id = ''a'', c_job_id = ''j'', c_pool = ''index'', c_input_hash = ''h'',
     c_dep_count = 0, c_dep_states = [], c_cancelled = False, c_fresh = True, c_retired = False\<rparr>"

definition demo_retried :: view where
  "demo_retried = (case retry_in ''j'' 9 demo_view of Inr (n, v) \<Rightarrow> v | Inl _ \<Rightarrow> demo_view)"

lemma demo_retried_eq: "retry_in ''j'' 9 demo_view = Inr (1, demo_retried)"
proof -
  have "(case retry_in ''j'' 9 demo_view of Inr (n, v) \<Rightarrow> n = 1 | Inl _ \<Rightarrow> False)" by code_simp
  then show ?thesis by (auto simp: demo_retried_def split: sum.splits prod.splits)
qed

lemma demo_view_rows:
  "row (jobs (vw_store demo_view)) ''j'' = Some (demo_job\<lparr>j_state := ''failed''\<rparr>)"
  "row (tasks (vw_store demo_view)) ''a'' = Some failed_task" "retried ''j'' failed_task"
  by (simp_all add: demo_view_def failed_task_def retried_def demo_task_def retryable_ops_def)

theorem retry_contract_witness:
  "row (tasks (vw_store demo_retried)) ''a'' = Some (requeue_failed 9 failed_task)
    \<and> retry_events (vw_store demo_retried) = retry_events (vw_store demo_view) @ [retry_event ''j'' 1 9]"
  using retry_contract[OF demo_view_rows(1) demo_retried_eq] demo_view_rows by (simp add: demo_job_def)

theorem retried_stage_unclaimable_witness:
  "claim_one demo_E ''w'' 60 10 ''k'' demo_candidate (vw_store demo_retried) = Inl already_exists"
proof -
  obtain a where a: "a \<in> set (attempts (vw_store demo_view))" "a_task a = ''a''" "a_number a = 1"
    by (simp add: demo_view_def)
  have "\<not> j_cancel_requested (demo_job\<lparr>j_state := ''failed''\<rparr>)" "c_id demo_candidate = ''a''"
    "c_pool demo_candidate \<noteq> POOL_INTEL_BRIEF"
    by (simp_all add: demo_job_def demo_candidate_def POOL_INTEL_BRIEF_def)
  from retried_stage_unclaimable[OF demo_view_rows(1) this(1) demo_view_rows(2,3) a this(2,3) demo_retried_eq]
  show ?thesis by blast
qed

text \<open>A worker that asks for any stage of the pool meets the error too.\<close>

lemma retried_stage_blocks_pool:
  "claim_in demo_E ''index'' None ''w'' 60 10 ''k'' None (vw_store demo_retried) = Inl already_exists"
proof -
  have "(case claim_in demo_E ''index'' None ''w'' 60 10 ''k'' None (vw_store demo_retried) of
      Inl e \<Rightarrow> e = already_exists | Inr _ \<Rightarrow> False)"
    by code_simp
  then show ?thesis by (auto split: sum.splits)
qed

text \<open>
  The terminal acknowledgment of a failed change released its work lock; the retry makes the change
  active again without taking the lock, so the same work can be enqueued and active twice.
\<close>

definition demo_again_change :: new_change where
  "demo_again_change = \<lparr>nc_kind = ''page'', nc_id = ''x'', nc_revision = ''r1'', nc_operation = ''upsert'',
     nc_gen = ''g'', nc_content_hash = ''h'', nc_task = ''b'', nc_job = ''j''\<rparr>"

lemma demo_view_outbox_ok: "outbox_ok (vw_index demo_view)"
  by (simp add: outbox_ok_def demo_view_def empty_outbox_def failed_change_def keyed_def is_active_def
      ACTIVE_STATES_def current_def)

lemma retry_duplicates_work:
  "\<not> outbox_ok (vw_index demo_retried)
   \<and> (case enqueue_in demo_again_change ''b'' 10 (vw_index demo_retried) of
        Inr (q, x) \<Rightarrow> eq_created q \<and> length (filter (\<lambda>(k, c). is_active c
          \<and> ic_work_key c = work_of demo_again_change) (changes x)) = 2
      | Inl _ \<Rightarrow> False)"
proof
  have "(case row (changes (vw_index demo_retried)) ''a'' of Some c \<Rightarrow> is_active c | None \<Rightarrow> False)"
    "row (work (vw_index demo_retried)) (case row (changes (vw_index demo_retried)) ''a'' of
       Some c \<Rightarrow> ic_work_key c | None \<Rightarrow> []) = None"
    by code_simp+
  then show "\<not> outbox_ok (vw_index demo_retried)"
    unfolding outbox_ok_def by (fastforce split: option.splits dest: map_of_SomeD)
  show "case enqueue_in demo_again_change ''b'' 10 (vw_index demo_retried) of
        Inr (q, x) \<Rightarrow> eq_created q \<and> length (filter (\<lambda>(k, c). is_active c
          \<and> ic_work_key c = work_of demo_again_change) (changes x)) = 2
      | Inl _ \<Rightarrow> False"
    by code_simp
qed

end
