(* ===== verification/Job_Reopen.thy ===== *)
theory Job_Reopen
  imports Job_Retry
begin

text \<open>
  The other writers of the job tables: the registry rows of Recon questions and Atlas cycles
  (\<open>storage/recon_jobs.rs\<close>), rows whose state their owner reports (\<open>storage/jobs_store.rs\<close>), the recovery of
  registry rows (\<open>job_registry.rs\<close>), the explicit retries of a summary (\<open>storage/neighborhood_brief.rs\<close>) and
  of an insight refresh (\<open>storage/insight_retry.rs\<close>), the retirement of refreshes (\<open>storage/refresh.rs\<close>) and
  the last stage of a brief (\<open>storage/brief_stages.rs\<close>). Some of them take a terminal state or a cancel
  request back: which ones, and what stays whatever they do.
\<close>

section \<open>Registry rows\<close>

definition RECON_OPERATION :: string where "RECON_OPERATION = ''recon_investigation''"
definition REGISTRY_KIND :: string where "REGISTRY_KIND = ''inproc''"

record recon_job =
  rc_id :: "string option"
  rc_title :: string
  rc_run_ref :: string
  rc_resource_ref :: string

definition restart_job :: "instant \<Rightarrow> job \<Rightarrow> job" where
  "restart_job now r = r\<lparr>j_state := ''running'', j_finished_at := None, j_cancel_requested := False,
     j_error_category := [], j_error_summary := [], j_attempts_used := j_attempts_used r + 1,
     j_heartbeat_at := Some now, j_active_since := Some now, j_updated_at := now\<rparr>"

text \<open>A created row; the columns the statement does not name have the defaults of the schema.\<close>

definition registry_row :: "env \<Rightarrow> string \<Rightarrow> string \<Rightarrow> string \<Rightarrow> string \<Rightarrow> string \<Rightarrow> string \<Rightarrow> string option \<Rightarrow> string list
    \<Rightarrow> string \<Rightarrow> instant \<Rightarrow> job" where
  "registry_row E i operation app title run_ref resource_ref parent ancestors root now = \<lparr>j_kind = REGISTRY_KIND,
     j_operation = operation, j_parent = parent, j_ancestors = ancestors, j_root = root, j_state = ''running'',
     j_cancel_requested = False, j_stopped = False, j_phase = [], j_created_at = now, j_updated_at = now,
     j_finished_at = None, j_app = app, j_title = title, j_run_ref = run_ref, j_resource_ref = resource_ref,
     j_result_ref = [], j_error_category = [], j_error_summary = [], j_correlation_id = i,
     j_worker_owner = process_owner E, j_progress_done = None, j_progress_total = None, j_heartbeat_at = Some now,
     j_active_since = Some now, j_active_ms = None, j_queue_ms = None, j_attempts_used = 1, j_attempt_cap = 1,
     j_cancellable = True, j_provider = [], j_model = [], j_tool = [], j_stage_coverage_json = [], j_retry_wait_ms = None\<rparr>"

text \<open>\<open>fresh\<close> is \<open>new_job_id\<close>.\<close>

definition begin_recon_job :: "env \<Rightarrow> string \<Rightarrow> recon_job \<Rightarrow> instant \<Rightarrow> db \<Rightarrow> string \<times> db" where
  "begin_recon_job E fresh spec now d =
     (let i = (case rc_id spec of Some i \<Rightarrow> i | None \<Rightarrow> fresh)
      in (i, case row (jobs d) i of
           Some _ \<Rightarrow> d\<lparr>jobs := update_one i (\<lambda>r. (restart_job now r)\<lparr>j_run_ref :=
               if rc_run_ref spec \<noteq> [] then rc_run_ref spec else j_run_ref r\<rparr>) (jobs d)\<rparr>
         | None \<Rightarrow> d\<lparr>jobs := put i (registry_row E i RECON_OPERATION ''recon'' (rc_title spec) (rc_run_ref spec)
               (rc_resource_ref spec) None [] i now) (jobs d)\<rparr>))"

definition set_recon_phase :: "string \<Rightarrow> string \<Rightarrow> instant \<Rightarrow> db \<Rightarrow> bool \<times> db" where
  "set_recon_phase i phase now d =
     (cancel_flag d i,
      d\<lparr>jobs := update_one i (\<lambda>r. r\<lparr>j_phase := phase, j_heartbeat_at := Some now, j_updated_at := now\<rparr>) (jobs d)\<rparr>)"

definition finish_recon_job :: "env \<Rightarrow> string \<Rightarrow> string \<Rightarrow> string option \<Rightarrow> string \<Rightarrow> string \<Rightarrow> string \<Rightarrow> int \<Rightarrow> instant
    \<Rightarrow> db \<Rightarrow> db" where
  "finish_recon_job E i state run_ref category summary result ms now d =
     d\<lparr>jobs := update_one i (\<lambda>r. r\<lparr>j_state := state, j_updated_at := now, j_heartbeat_at := Some now,
        j_active_since := None, j_active_ms := Some ms,
        j_finished_at := (if state \<notin> {''paused'', ''waiting'', ''blocked''} then Some now else None),
        j_error_category := category, j_error_summary := take 500 (redact E summary),
        j_result_ref := (if result \<noteq> [] then result else j_result_ref r),
        j_run_ref := (case run_ref of Some x \<Rightarrow> if x \<noteq> [] then x else j_run_ref r | None \<Rightarrow> j_run_ref r)\<rparr>) (jobs d)\<rparr>"

record app_job =
  ap_id :: string
  ap_operation :: string
  ap_app :: string
  ap_title :: string
  ap_run_ref :: string
  ap_resource_ref :: string
  ap_parent :: "string option"

definition begin_app_job :: "env \<Rightarrow> app_job \<Rightarrow> instant \<Rightarrow> db \<Rightarrow> tx_error + db" where
  "begin_app_job E spec now d =
     (if ap_id spec = [] then Inl (Abort ''job: empty id'')
      else let parent = (case ap_parent spec of Some p \<Rightarrow> if p \<noteq> [] then Some p else None | None \<Rightarrow> None)
        in Inr (case row (jobs d) (ap_id spec) of
             Some _ \<Rightarrow> d\<lparr>jobs := update_one (ap_id spec) (restart_job now) (jobs d)\<rparr>
           | None \<Rightarrow> d\<lparr>jobs := put (ap_id spec) (registry_row E (ap_id spec) (ap_operation spec) (ap_app spec) (ap_title spec)
               (ap_run_ref spec) (ap_resource_ref spec) parent (case parent of Some p \<Rightarrow> [p] | None \<Rightarrow> [])
               (case parent of Some p \<Rightarrow> (case row (jobs d) p of Some r \<Rightarrow> j_root r | None \<Rightarrow> p) | None \<Rightarrow> ap_id spec) now)
               (jobs d)\<rparr>))"

definition set_job_progress :: "string \<Rightarrow> string \<Rightarrow> int option \<Rightarrow> int option \<Rightarrow> instant \<Rightarrow> db \<Rightarrow> bool \<times> db" where
  "set_job_progress i phase finished whole now d =
     (if i = [] then (False, d)
      else (cancel_flag d i,
        d\<lparr>jobs := update_one i (\<lambda>r. r\<lparr>j_phase := phase, j_progress_done := finished, j_progress_total := whole,
          j_heartbeat_at := Some now, j_updated_at := now\<rparr>) (jobs d)\<rparr>))"

text \<open>\<open>set_job_progress\<close> of \<open>jobs_store.rs\<close>: the caller names the state.\<close>

definition set_job_state :: "string \<Rightarrow> string \<Rightarrow> string \<Rightarrow> int \<Rightarrow> int option \<Rightarrow> string \<Rightarrow> instant \<Rightarrow> db \<Rightarrow> db" where
  "set_job_state i state phase finished whole err now d =
     d\<lparr>jobs := update_one i (\<lambda>r. r\<lparr>j_state := state, j_phase := phase, j_progress_done := Some finished,
        j_progress_total := whole, j_error_summary := err, j_updated_at := now,
        j_finished_at := (if state \<in> {''completed'', ''partial'', ''succeeded'', ''failed'', ''cancelled''}
          then (case j_finished_at r of None \<Rightarrow> Some now | f \<Rightarrow> f) else j_finished_at r)\<rparr>) (jobs d)\<rparr>"

text \<open>The first query of the recovery of registry rows: those of processes without a fresh beat are failures.\<close>

definition orphan_row :: "string \<Rightarrow> string list \<Rightarrow> job \<Rightarrow> bool" where
  "orphan_row me fresh r \<longleftrightarrow>
     (j_kind r = REGISTRY_KIND \<or> j_kind r = ''service'' \<and> j_operation r \<in> {''api_server'', ''web_server''})
     \<and> j_worker_owner r \<noteq> [] \<and> j_worker_owner r \<noteq> me \<and> j_state r \<in> {''running'', ''queued''}
     \<and> j_worker_owner r \<notin> set fresh"

definition interrupted_row :: "env \<Rightarrow> instant \<Rightarrow> job \<Rightarrow> job" where
  "interrupted_row E now r = r\<lparr>j_state := ''failed'', j_error_category := ''interrupted'',
     j_error_summary := ''Argos exited before this job finished'',
     j_active_ms := Some ((case j_active_ms r of Some n \<Rightarrow> n | None \<Rightarrow> 0)
       + (case (j_active_since r, j_heartbeat_at r) of (Some a, Some h) \<Rightarrow> if a < h then millis E h a else 0 | _ \<Rightarrow> 0)),
     j_active_since := None, j_finished_at := (case j_heartbeat_at r of Some h \<Rightarrow> Some h | None \<Rightarrow> Some now),
     j_updated_at := now\<rparr>"

definition recover_registry :: "env \<Rightarrow> string \<Rightarrow> string list \<Rightarrow> instant \<Rightarrow> db \<Rightarrow> db" where
  "recover_registry E me fresh now d =
     (if me \<notin> set fresh then d
      else d\<lparr>jobs := update_where (\<lambda>_. orphan_row me fresh) (interrupted_row E now) (jobs d)\<rparr>)"

text \<open>Columns that only the dashboard reads: \<open>set_job_meta\<close> writes those it is given,
  the owner and the progress excepted, which it never writes.\<close>

record job_meta =
  m_app :: "string option"
  m_title :: "string option"
  m_provider :: "string option"
  m_model :: "string option"
  m_tool :: "string option"
  m_run_ref :: "string option"
  m_resource_ref :: "string option"
  m_result_ref :: "string option"
  m_error_category :: "string option"
  m_error_summary :: "string option"
  m_correlation_id :: "string option"
  m_worker_owner :: "string option"
  m_progress_done :: "int option"
  m_progress_total :: "int option"
  m_active_ms :: "int option"
  m_queue_ms :: "int option"
  m_retry_wait_ms :: "int option"
  m_attempts_used :: "int option"
  m_attempt_cap :: "int option"
  m_cancellable :: "bool option"

definition given :: "'a option \<Rightarrow> 'a \<Rightarrow> 'a" where
  "given x y = (case x of Some v \<Rightarrow> v | None \<Rightarrow> y)"

definition merge_meta :: "job_meta \<Rightarrow> job \<Rightarrow> job" where
  "merge_meta m r = r\<lparr>j_app := given (m_app m) (j_app r), j_title := given (m_title m) (j_title r),
     j_provider := given (m_provider m) (j_provider r), j_model := given (m_model m) (j_model r),
     j_tool := given (m_tool m) (j_tool r), j_run_ref := given (m_run_ref m) (j_run_ref r),
     j_resource_ref := given (m_resource_ref m) (j_resource_ref r), j_result_ref := given (m_result_ref m) (j_result_ref r),
     j_error_category := given (m_error_category m) (j_error_category r),
     j_error_summary := given (m_error_summary m) (j_error_summary r),
     j_correlation_id := given (m_correlation_id m) (j_correlation_id r),
     j_active_ms := (case m_active_ms m of Some n \<Rightarrow> Some n | None \<Rightarrow> j_active_ms r),
     j_queue_ms := (case m_queue_ms m of Some n \<Rightarrow> Some n | None \<Rightarrow> j_queue_ms r),
     j_retry_wait_ms := (case m_retry_wait_ms m of Some n \<Rightarrow> Some n | None \<Rightarrow> j_retry_wait_ms r),
     j_attempts_used := given (m_attempts_used m) (j_attempts_used r),
     j_attempt_cap := given (m_attempt_cap m) (j_attempt_cap r),
     j_cancellable := given (m_cancellable m) (j_cancellable r)\<rparr>"

definition set_job_meta :: "string \<Rightarrow> job_meta \<Rightarrow> db \<Rightarrow> db" where
  "set_job_meta i m d = d\<lparr>jobs := update_one i (merge_meta m) (jobs d)\<rparr>"

definition set_job_stage_coverage :: "string \<Rightarrow> string \<Rightarrow> db \<Rightarrow> db" where
  "set_job_stage_coverage i json d = d\<lparr>jobs := update_one i (\<lambda>r. r\<lparr>j_stage_coverage_json := json\<rparr>) (jobs d)\<rparr>"

text \<open>\<open>surreal_set_job_meta\<close>, for a row of the registry.\<close>

definition set_registry_meta :: "string \<Rightarrow> string \<Rightarrow> string \<Rightarrow> string \<Rightarrow> bool \<Rightarrow> db \<Rightarrow> db" where
  "set_registry_meta i provider model tool cancellable d =
     d\<lparr>jobs := update_one i (\<lambda>r. r\<lparr>j_provider := provider, j_model := model, j_tool := tool,
       j_cancellable := cancellable\<rparr>) (jobs d)\<rparr>"

section \<open>Explicit retries\<close>

text \<open>The transaction of \<open>retry\<close> of a summary: a finished task of the same identity is queued again.\<close>

definition requeue_summary :: "instant \<Rightarrow> task \<Rightarrow> task" where
  "requeue_summary now t = t\<lparr>t_state := ''queued'', t_attempts := 0, t_output_hash := [], t_error_category := [],
     t_error_message := [], t_lease_owner := [], t_process_owner := [], t_lease_until := None, t_finished_at := None,
     t_next_eligible_at := now, t_updated_at := now\<rparr>"

definition finished_summary :: "string \<Rightarrow> string \<Rightarrow> task \<Rightarrow> bool" where
  "finished_summary i k t \<longleftrightarrow> k = i \<and> t_state t \<in> {''completed'', ''failed'', ''cancelled''}"

definition retry_summary_in :: "string \<Rightarrow> string \<Rightarrow> instant \<Rightarrow> (db, bool) body" where
  "retry_summary_in i j now d =
     (let d = bump ''job_guard'' j d in
      if ids_where (finished_summary i) (tasks d) = [] then Inr (False, d)
      else Inr (True, d\<lparr>tasks := update_where (finished_summary i) (requeue_summary now) (tasks d),
        jobs := update_one j (\<lambda>r. r\<lparr>j_state := ''running'', j_cancel_requested := False, j_finished_at := None,
          j_updated_at := now\<rparr>) (jobs d)\<rparr>))"

text \<open>
  The job tables under \<open>retry_extraction_in\<close>. What it reads of the insight tables is an argument: whether the
  task has its side record, and the admission, which refuses (evidence gone, generation superseded) or tells
  whether a stage is exhausted; what it writes there is not modelled.
\<close>

definition requeue_extraction :: "instant \<Rightarrow> task \<Rightarrow> task" where
  "requeue_extraction now t = t\<lparr>t_state := ''queued'', t_max_attempts := t_attempts t + 1, t_next_eligible_at := now,
     t_lease_owner := [], t_process_owner := [], t_lease_until := None, t_error_category := [], t_error_message := [],
     t_finished_at := None, t_updated_at := now\<rparr>"

definition retry_extraction_in :: "bool \<Rightarrow> tx_error + bool \<Rightarrow> event \<Rightarrow> string \<Rightarrow> instant \<Rightarrow> (db, bool) body" where
  "retry_extraction_in side admission ev i now d =
     (case row (tasks d) i of None \<Rightarrow> Inr (False, d)
      | Some t \<Rightarrow>
          if t_operation t \<noteq> ''insight_refresh'' \<or> \<not> side \<or> cancel_flag d (t_job t) \<or> t_state t \<notin> {''failed'', ''completed''}
          then Inr (False, d)
          else case admission of Inl e \<Rightarrow> Inl e
            | Inr exhausted \<Rightarrow>
                if \<not> exhausted then Inr (False, d)
                else Inr (True, d\<lparr>tasks := update_one i (requeue_extraction now) (tasks d),
                  jobs := update_where (\<lambda>k r. k = t_job t \<and> j_state r \<in> {''failed'', ''partial'', ''completed''})
                    (reopen_job now) (jobs d),
                  retry_events := retry_events d @ [ev]\<rparr>))"

section \<open>Insight refreshes and briefs\<close>

text \<open>Retired by a newer admission that read the task as queued: it is superseded, and its job ends when none of its tasks is left.\<close>

definition ended_by :: "string list \<Rightarrow> string" where
  "ended_by states = (if ''completed'' \<in> set states then (if ''failed'' \<in> set states then ''partial'' else ''completed'')
     else if ''failed'' \<in> set states then ''failed'' else ''cancelled'')"

definition supersede_task :: "instant \<Rightarrow> task \<Rightarrow> task" where
  "supersede_task now t = t\<lparr>t_state := ''superseded'', t_lease_epoch := t_lease_epoch t + 1, t_finished_at := Some now,
     t_updated_at := now\<rparr>"

definition supersede_refresh :: "string \<Rightarrow> string \<Rightarrow> string \<Rightarrow> instant \<Rightarrow> db \<Rightarrow> db" where
  "supersede_refresh i j message now d =
     (let ts = update_where (\<lambda>k t. k = i \<and> t_state t = ''queued'') (supersede_task now) (tasks d);
          states = map (\<lambda>(_, t). t_state t) (filter (\<lambda>(_, t). t_job t = j) ts)
      in if list_ex (\<lambda>s. s \<in> {''queued'', ''running''}) states then d\<lparr>tasks := ts\<rparr>
         else d\<lparr>tasks := ts, jobs := update_one j (\<lambda>r. r\<lparr>j_state := ended_by states, j_phase := message,
           j_finished_at := Some now, j_updated_at := now\<rparr>) (jobs d)\<rparr>)"

text \<open>A paused refresh whose cancellation left its evidence dirty (\<open>blocked\<close>) is queued by the next admission.\<close>

definition resume_refresh :: "bool \<Rightarrow> string \<Rightarrow> instant \<Rightarrow> db \<Rightarrow> db" where
  "resume_refresh blocked i now d =
     (if \<not> blocked then d
      else d\<lparr>tasks := update_where (\<lambda>k t. k = i \<and> t_state t = ''paused'') (\<lambda>t. t\<lparr>t_state := ''queued'',
        t_updated_at := now, t_next_eligible_at := now\<rparr>) (tasks d)\<rparr>)"

definition refresh_live :: "string list" where
  "refresh_live = [''queued'', ''running'', ''retry_scheduled'', ''paused'']"

definition retire_phase :: string where "retire_phase = ''Atlas collection contract retired insight work''"

text \<open>\<open>scopes\<close> are the tasks whose side record is in the Atlas scope.\<close>

definition atlas_refresh :: "string list \<Rightarrow> db \<Rightarrow> string \<Rightarrow> task \<Rightarrow> bool" where
  "atlas_refresh scopes d k t \<longleftrightarrow> t_operation t = ''insight_refresh'' \<and> t_state t \<in> set refresh_live
     \<and> (k \<in> set scopes \<or> (case row (jobs d) (t_job t) of Some r \<Rightarrow> j_app r = ''atlas'' | None \<Rightarrow> False))"

definition retire_atlas_insight_work :: "string list \<Rightarrow> instant \<Rightarrow> db \<Rightarrow> nat \<times> db" where
  "retire_atlas_insight_work scopes now d =
     (let hit = filter (\<lambda>(k, t). atlas_refresh scopes d k t) (tasks d); js = map (\<lambda>(_, t). t_job t) hit
      in (length hit, d\<lparr>tasks := update_where (atlas_refresh scopes d) (\<lambda>t. t\<lparr>t_state := ''cancelled'',
           t_lease_epoch := t_lease_epoch t + 1, t_lease_owner := [], t_lease_until := None,
           t_error_category := ''cancelled_or_stale'', t_error_message := retire_phase,
           t_finished_at := Some now, t_updated_at := now\<rparr>) (tasks d),
         jobs := update_where (\<lambda>k r. j_operation r = ''insight_refresh'' \<and> j_state r \<in> set (refresh_live @ [''waiting''])
             \<and> (j_app r = ''atlas'' \<or> k \<in> set js))
           (\<lambda>r. r\<lparr>j_state := ''cancelled'', j_cancel_requested := True, j_phase := retire_phase,
             j_finished_at := Some now, j_updated_at := now\<rparr>) (jobs d)\<rparr>))"

text \<open>After the last stage of a brief was published.\<close>

definition complete_brief :: "string \<Rightarrow> instant \<Rightarrow> db \<Rightarrow> db" where
  "complete_brief j now d =
     d\<lparr>brief_runs := update_where (\<lambda>_ b. b_job b = j \<and> b_state b = ''active'')
         (\<lambda>b. b\<lparr>b_state := ''completed'', b_updated_at := now\<rparr>) (brief_runs d),
       jobs := update_where (\<lambda>k r. k = j \<and> j_state r \<in> {''active'', ''queued'', ''running''})
         (\<lambda>r. r\<lparr>j_state := ''completed'', j_finished_at := Some now, j_updated_at := now\<rparr>) (jobs d)\<rparr>"

section \<open>All writers of the job tables\<close>

text \<open>
  A step of the job system or one of the writers above. The label tells what it may take back: \<open>Restarts j\<close>
  a terminal state and the cancel request of \<open>j\<close>, \<open>Retries j\<close> a terminal state, \<open>Reports j\<close> a terminal state
  when the owner of \<open>j\<close> reports one that is not terminal.
\<close>

datatype label = Ordinary | Retries string | Restarts string | Reports string

inductive writer_step :: "env \<Rightarrow> label \<Rightarrow> db \<Rightarrow> db \<Rightarrow> bool" for E where
  w_step: "job_step E d d' \<Longrightarrow> writer_step E Ordinary d d'"
| w_tasks: "create_tasks_in ts d = Inr d' \<Longrightarrow> writer_step E Ordinary d d'"
| w_begin: "begin_recon_job E fresh spec now d = (i, d') \<Longrightarrow> writer_step E (Restarts i) d d'"
| w_begin_app: "begin_app_job E app now d = Inr d' \<Longrightarrow> writer_step E (Restarts (ap_id app)) d d'"
| w_phase: "set_recon_phase i phase now d = (b, d') \<Longrightarrow> writer_step E Ordinary d d'"
| w_progress: "set_job_progress i phase finished whole now d = (b, d') \<Longrightarrow> writer_step E Ordinary d d'"
| w_finish: "finish_recon_job E i state run_ref cat summary res ms now d = d'
    \<Longrightarrow> writer_step E (if state \<in> set TERMINAL then Ordinary else Reports i) d d'"
| w_state: "set_job_state i state phase n whole err now d = d'
    \<Longrightarrow> writer_step E (if state \<in> set TERMINAL then Ordinary else Reports i) d d'"
| w_meta: "set_job_meta i m d = d' \<Longrightarrow> writer_step E Ordinary d d'"
| w_coverage: "set_job_stage_coverage i json d = d' \<Longrightarrow> writer_step E Ordinary d d'"
| w_registry_meta: "set_registry_meta i provider model tool cancellable d = d' \<Longrightarrow> writer_step E Ordinary d d'"
| w_recover: "recover_registry E me fresh now d = d' \<Longrightarrow> writer_step E Ordinary d d'"
| w_retry: "retry_in i now v = Inr (n, v') \<Longrightarrow> writer_step E (Retries i) (vw_store v) (vw_store v')"
| w_summary: "retry_summary_in i j now d = Inr (b, d') \<Longrightarrow> writer_step E (Restarts j) d d'"
| w_extraction: "retry_extraction_in side admission ev i now d = Inr (b, d')
    \<Longrightarrow> writer_step E (Retries (case row (tasks d) i of Some t \<Rightarrow> t_job t | None \<Rightarrow> [])) d d'"
| w_supersede: "supersede_refresh i j message now d = d' \<Longrightarrow> writer_step E Ordinary d d'"
| w_resume: "resume_refresh blocked i now d = d' \<Longrightarrow> writer_step E Ordinary d d'"
| w_retire: "retire_atlas_insight_work scopes now d = (n, d') \<Longrightarrow> writer_step E Ordinary d d'"
| w_brief: "complete_brief j now d = d' \<Longrightarrow> writer_step E Ordinary d d'"

subsection \<open>What one writer may do to a row\<close>

definition job_moves :: "label \<Rightarrow> string \<Rightarrow> job \<Rightarrow> job \<Rightarrow> bool" where
  "job_moves l j r s \<longleftrightarrow> j_parent s = j_parent r \<and> j_root s = j_root r \<and> (j_stopped r \<longrightarrow> j_stopped s)
     \<and> (l \<noteq> Restarts j \<longrightarrow> j_cancel_requested r \<longrightarrow> j_cancel_requested s)
     \<and> (l \<noteq> Restarts j \<longrightarrow> l \<noteq> Reports j \<longrightarrow> (l = Retries j \<longrightarrow> j_cancel_requested r)
         \<longrightarrow> j_state r \<in> set TERMINAL \<longrightarrow> j_state s \<in> set TERMINAL)"

lemma moves_refl [simp, intro]: "job_moves l j r r"
  by (simp add: job_moves_def)

lemma rel_option_update_where [intro]:
  assumes "\<And>x. R x x" and "\<And>x. row t k = Some x \<Longrightarrow> P k x \<Longrightarrow> R x (f x)"
  shows "rel_option R (row t k) (row (update_where P f t) k)"
  using assms by (cases "row t k") auto

lemma update_where_never: "update_where (\<lambda>_ _. False) f t = t"
  by (simp add: update_where_def case_prod_unfold)

text \<open>A writer that changes rows and neither creates nor deletes one.\<close>

definition row_writes :: "label \<Rightarrow> db \<Rightarrow> db \<Rightarrow> bool" where
  "row_writes l d d' \<longleftrightarrow> attempts d' = attempts d \<and> map fst (tasks d') = map fst (tasks d)
     \<and> map fst (jobs d') = map fst (jobs d) \<and> (\<forall>k. rel_option evolves (row (tasks d) k) (row (tasks d') k))
     \<and> (\<forall>k. rel_option (job_moves l k) (row (jobs d) k) (row (jobs d') k))"

lemma row_writes_refl [simp, intro]: "row_writes l d d"
  by (simp add: row_writes_def rel_option_self)

lemma row_writesI:
  assumes "attempts d' = attempts d"
    and "tasks d' = tasks d \<or> (\<exists>P f. tasks d' = update_where P f (tasks d) \<and> (\<forall>t. evolves t (f t)))"
    and "jobs d' = jobs d \<or> (\<exists>P f. jobs d' = update_where P f (jobs d)
           \<and> (\<forall>k r. row (jobs d) k = Some r \<and> P k r \<longrightarrow> job_moves l k r (f r)))"
  shows "row_writes l d d'"
proof -
  from assms(2) have "map fst (tasks d') = map fst (tasks d)
      \<and> (\<forall>k. rel_option evolves (row (tasks d) k) (row (tasks d') k))"
    by (auto intro!: rel_option_update_where simp del: row_update_where)
  moreover from assms(3) have "map fst (jobs d') = map fst (jobs d)
      \<and> (\<forall>k. rel_option (job_moves l k) (row (jobs d) k) (row (jobs d') k))"
    by (auto intro!: rel_option_update_where simp del: row_update_where)
  ultimately show ?thesis using assms(1) by (simp add: row_writes_def)
qed

lemma job_writes:
  assumes "jobs d' = update_where P f (jobs d)" "tasks d' = tasks d" "attempts d' = attempts d"
    and "\<And>k r. row (jobs d) k = Some r \<Longrightarrow> P k r \<Longrightarrow> job_moves l k r (f r)"
  shows "row_writes l d d'"
  using assms by (intro row_writesI) blast+

lemma task_writes:
  assumes "tasks d' = update_where P f (tasks d)" "jobs d' = jobs d" "attempts d' = attempts d"
    and "\<And>t. evolves t (f t)"
  shows "row_writes l d d'"
  using assms by (intro row_writesI) blast+

lemma table_writes:
  assumes "tasks d' = update_where P f (tasks d)" "jobs d' = update_where Q g (jobs d)" "attempts d' = attempts d"
    and "\<And>t. evolves t (f t)" and "\<And>k r. row (jobs d) k = Some r \<Longrightarrow> Q k r \<Longrightarrow> job_moves l k r (g r)"
  shows "row_writes l d d'"
  using assms by (intro row_writesI) blast+

lemma row_writes_inv:
  assumes w: "row_writes l d d'" and inv: "db_inv d"
  shows "db_inv d'"
proof -
  have k: "keyed (tasks d')" "keyed (jobs d')" using w inv by (simp_all add: row_writes_def db_inv_def keyed_def)
  have "roots_own d'"
  proof (rule roots_ownI[OF k(2)])
    fix i r assume r: "row (jobs d') i = Some r" "j_parent r = None"
    from w have "rel_option (job_moves l i) (row (jobs d) i) (row (jobs d') i)" by (simp add: row_writes_def)
    with r obtain r0 where "row (jobs d) i = Some r0" "job_moves l i r0 r" by (auto simp: option_rel_Some2)
    with r inv show "j_root r = i" by (auto simp: job_moves_def db_inv_def dest: roots_ownD)
  qed
  moreover have "\<exists>u. row (tasks d') (a_task a) = Some u \<and> a_root a = t_root u \<and> a_epoch a \<le> t_lease_epoch u"
    if "a \<in> set (attempts d')" for a
  proof -
    from that w inv obtain t where t: "row (tasks d) (a_task a) = Some t" "a_root a = t_root t"
      "a_epoch a \<le> t_lease_epoch t" by (auto simp: row_writes_def db_inv_def attempts_ok_def)
    from w have "rel_option evolves (row (tasks d) (a_task a)) (row (tasks d') (a_task a))"
      by (simp add: row_writes_def)
    with t show ?thesis by (auto simp: option_rel_Some1 evolves_def)
  qed
  moreover have "attempts d' = attempts d" using w by (simp add: row_writes_def)
  ultimately show ?thesis using k inv by (simp add: db_inv_def attempts_ok_def)
qed

lemma registry_put_inv:
  assumes inv: "db_inv d" and none: "row (jobs d) i = None" and "j_parent r = None \<longrightarrow> j_root r = i"
  shows "db_inv (d\<lparr>jobs := put i r (jobs d)\<rparr>)"
proof -
  have "roots_own (d\<lparr>jobs := put i r (jobs d)\<rparr>)"
  proof (rule roots_ownI)
    fix k x assume "row (jobs (d\<lparr>jobs := put i r (jobs d)\<rparr>)) k = Some x" "j_parent x = None"
    with assms(3) inv show "j_root x = k" by (auto simp: db_inv_def dest: roots_ownD split: if_splits)
  qed (use inv in \<open>simp add: db_inv_def\<close>)
  with inv show ?thesis by (simp add: db_inv_def attempts_ok_def)
qed

subsection \<open>Every writer\<close>

lemma restarts_move: "job_moves (Restarts k) k r (restart_job now r)"
  "job_moves (Restarts k) k r ((restart_job now r)\<lparr>j_run_ref := x\<rparr>)"
  by (simp_all add: job_moves_def restart_job_def)

lemmas column_writers = set_recon_phase_def set_job_progress_def set_job_meta_def merge_meta_def
  set_job_stage_coverage_def set_registry_meta_def

lemma column_writes:
  "set_recon_phase i phase now d = (b, d') \<Longrightarrow> row_writes l d d'"
  "set_job_progress i phase finished whole now d = (b, d') \<Longrightarrow> row_writes l d d'"
  "set_job_meta i m d = d' \<Longrightarrow> row_writes l d d'"
  "set_job_stage_coverage i json d = d' \<Longrightarrow> row_writes l d d'"
  "set_registry_meta i provider model tool cancellable d = d' \<Longrightarrow> row_writes l d d'"
  unfolding column_writers by (auto split: if_splits intro!: job_writes; simp add: job_moves_def)+

lemma finish_writes:
  "row_writes (if state \<in> set TERMINAL then Ordinary else Reports i) d
    (finish_recon_job E i state run_ref cat summary res ms now d)"
  unfolding finish_recon_job_def by (rule job_writes, simp, simp, simp, simp add: job_moves_def)

lemma state_writes:
  "row_writes (if state \<in> set TERMINAL then Ordinary else Reports i) d
    (set_job_state i state phase n whole err now d)"
  unfolding set_job_state_def by (rule job_writes, simp, simp, simp, simp add: job_moves_def)

lemma recover_writes: "recover_registry E me fresh now d = d' \<Longrightarrow> row_writes l d d'"
  unfolding recover_registry_def
  by (auto split: if_splits intro!: job_writes; simp add: interrupted_row_def job_moves_def TERMINAL_def)

lemma retry_writes:
  assumes t: "retry_in i now v = Inr (n, v')"
  shows "row_writes (Retries i) (vw_store v) (vw_store v')"
proof (cases "row (jobs (vw_store v)) i")
  case (Some r)
  show ?thesis
  proof (cases "j_cancel_requested r")
    case False
    note kept = retry_keeps[OF Some False t]
    have "jobs (vw_store v') = update_where (\<lambda>k r. n \<noteq> 0 \<and> k = i \<and> j_state r \<in> {''failed'', ''partial''})
        (reopen_job now) (jobs (vw_store v))"
      using t Some False
      by (auto simp: retry_in_def Let_def bump_def update_where_never ids_where_def split: if_splits)
    then show ?thesis
    proof (rule table_writes[OF kept(1) _ kept(2)])
      show "evolves t (requeue_failed now t)" for t by (simp add: requeue_failed_def evolves_def)
      show "job_moves (Retries i) k r (reopen_job now r)"
        if "row (jobs (vw_store v)) k = Some r" "n \<noteq> 0 \<and> k = i \<and> j_state r \<in> {''failed'', ''partial''}" for k r
        using that Some False by (simp add: reopen_job_def job_moves_def)
    qed
  qed (use t Some in \<open>simp add: retry_in_def\<close>)
qed (use t in \<open>simp add: retry_in_def\<close>)

lemma summary_writes:
  assumes "retry_summary_in i j now d = Inr (b, d')"
  shows "row_writes (Restarts j) d d'"
proof (cases "ids_where (finished_summary i) (tasks d) = []")
  case True
  with assms have "d' = bump ''job_guard'' j d" by (simp add: retry_summary_in_def bump_def)
  then show ?thesis by (auto simp: bump_def row_writes_def)
next
  case False
  with assms have d': "d' = (bump ''job_guard'' j d)\<lparr>tasks := update_where (finished_summary i) (requeue_summary now) (tasks d),
      jobs := update_one j (\<lambda>r. r\<lparr>j_state := ''running'', j_cancel_requested := False, j_finished_at := None,
        j_updated_at := now\<rparr>) (jobs d)\<rparr>" by (simp add: retry_summary_in_def bump_def)
  show ?thesis
    by (rule table_writes, unfold d', simp, simp, simp add: bump_def)
      (simp_all add: requeue_summary_def evolves_def job_moves_def)
qed

lemma extraction_writes:
  assumes e: "retry_extraction_in side admission ev i now d = Inr (b, d')"
  shows "row_writes (Retries (case row (tasks d) i of Some t \<Rightarrow> t_job t | None \<Rightarrow> [])) d d'"
proof (cases "d' = d")
  case False
  with e obtain t where t: "row (tasks d) i = Some t" "\<not> cancel_flag d (t_job t)"
    and d': "d' = d\<lparr>tasks := update_one i (requeue_extraction now) (tasks d),
        jobs := update_where (\<lambda>k r. k = t_job t \<and> j_state r \<in> {''failed'', ''partial'', ''completed''})
          (reopen_job now) (jobs d), retry_events := retry_events d @ [ev]\<rparr>"
    by (auto simp: retry_extraction_in_def split: option.splits if_splits sum.splits)
  have "row_writes (Retries (t_job t)) d d'"
    by (rule table_writes, unfold d', simp, simp, simp)
      (use t(2) in \<open>auto simp: requeue_extraction_def reopen_job_def evolves_def job_moves_def cancel_flag_def\<close>)
  with t show ?thesis by simp
qed simp

lemma ended_by_terminal: "ended_by states \<in> set TERMINAL"
  by (simp add: ended_by_def TERMINAL_def)

lemma supersede_writes: "row_writes l d (supersede_refresh i j message now d)"
proof -
  let ?ts = "update_where (\<lambda>k t. k = i \<and> t_state t = ''queued'') (supersede_task now) (tasks d)"
  have move: "evolves t (supersede_task now t)" for t by (simp add: supersede_task_def evolves_def)
  have "row_writes l d (d\<lparr>tasks := ?ts\<rparr>)" by (rule task_writes, simp, simp, simp) (rule move)
  moreover have "row_writes l d (d\<lparr>tasks := ?ts, jobs := update_one j (\<lambda>r. r\<lparr>j_state := ended_by states,
      j_phase := message, j_finished_at := Some now, j_updated_at := now\<rparr>) (jobs d)\<rparr>)" for states
    by (rule table_writes, simp, simp, simp) (rule move, simp add: job_moves_def ended_by_terminal)
  ultimately show ?thesis by (simp only: supersede_refresh_def Let_def split: if_splits) blast
qed

lemma resume_writes: "row_writes l d (resume_refresh blocked i now d)"
proof (cases blocked)
  case True
  show ?thesis unfolding resume_refresh_def using True
    by (simp only: not_True_eq_False if_False) (rule task_writes, simp, simp, simp, simp add: evolves_def)
qed (simp add: resume_refresh_def)

lemma retire_writes: "row_writes l d (snd (retire_atlas_insight_work scopes now d))"
  unfolding retire_atlas_insight_work_def Let_def snd_conv
  by (rule table_writes, simp, simp, simp) (simp_all add: evolves_def job_moves_def TERMINAL_def)

lemma brief_writes: "row_writes l d (complete_brief j now d)"
  unfolding complete_brief_def
  by (rule job_writes, simp, simp, simp) (simp add: job_moves_def TERMINAL_def)

lemma restart_writes:
  "begin_recon_job E fresh spec now d = (i, d') \<Longrightarrow> row (jobs d) i \<noteq> None \<Longrightarrow> row_writes (Restarts i) d d'"
  "begin_app_job E app now d = Inr d' \<Longrightarrow> row (jobs d) (ap_id app) \<noteq> None \<Longrightarrow> row_writes (Restarts (ap_id app)) d d'"
  by (auto simp: begin_recon_job_def begin_app_job_def Let_def split: if_splits option.splits
    intro!: job_writes restarts_move)

lemma begin_creates:
  "begin_recon_job E fresh spec now d = (i, d') \<Longrightarrow> row (jobs d) i = None
    \<Longrightarrow> \<exists>r. d' = d\<lparr>jobs := put i r (jobs d)\<rparr> \<and> (j_parent r = None \<longrightarrow> j_root r = i)"
  "begin_app_job E app now d = Inr d' \<Longrightarrow> row (jobs d) (ap_id app) = None
    \<Longrightarrow> \<exists>r. d' = d\<lparr>jobs := put (ap_id app) r (jobs d)\<rparr> \<and> (j_parent r = None \<longrightarrow> j_root r = ap_id app)"
  by (auto simp: begin_recon_job_def begin_app_job_def registry_row_def Let_def split: if_splits option.splits)

definition effect_ok :: "label \<Rightarrow> db \<Rightarrow> db \<Rightarrow> bool" where
  "effect_ok l d d' \<longleftrightarrow> db_inv d' \<and> (\<forall>j r s. row (jobs d) j = Some r \<longrightarrow> row (jobs d') j = Some s \<longrightarrow> job_moves l j r s)
     \<and> (\<forall>k t u. row (tasks d) k = Some t \<longrightarrow> row (tasks d') k = Some u \<longrightarrow> evolves t u)"

lemma rows_effect:
  assumes inv: "db_inv d" and w: "row_writes l d d'"
  shows "effect_ok l d d'"
proof -
  have "job_moves l j r s" if "row (jobs d) j = Some r" "row (jobs d') j = Some s" for j r s
  proof -
    from w have "rel_option (job_moves l j) (row (jobs d) j) (row (jobs d') j)" by (simp add: row_writes_def)
    with that show ?thesis by simp
  qed
  moreover have "evolves t u" if "row (tasks d) k = Some t" "row (tasks d') k = Some u" for k t u
  proof -
    from w have "rel_option evolves (row (tasks d) k) (row (tasks d') k)" by (simp add: row_writes_def)
    with that show ?thesis by simp
  qed
  ultimately show ?thesis using row_writes_inv[OF w inv] unfolding effect_ok_def by blast
qed

lemma step_effect:
  assumes inv: "db_inv d" and st: "job_step E d d'"
  shows "effect_ok Ordinary d d'"
proof -
  have "job_moves Ordinary j r s" if "row (jobs d) j = Some r" "row (jobs d') j = Some s" for j r s
    using step_job_evolves[OF inv st that] by (simp add: job_evolves_def job_moves_def)
  with job_step_inv[OF inv st] step_evolves[OF inv st] show ?thesis unfolding effect_ok_def by blast
qed

lemma create_effect:
  assumes inv: "db_inv d" and i: "row (jobs d) i = None" and p: "j_parent r = None \<longrightarrow> j_root r = i"
  shows "effect_ok l d (d\<lparr>jobs := put i r (jobs d)\<rparr>)"
  using registry_put_inv[OF inv i p] i by (auto simp: effect_ok_def)

lemma tasks_effect:
  assumes inv: "db_inv d" and c: "create_tasks_in ts d = Inr d'"
  shows "effect_ok l d d'"
proof -
  note spec = create_tasks_in_Inr[OF c]
  have eq: "jobs d' = jobs d" "attempts d' = attempts d" by (subst spec[THEN conjunct2, THEN conjunct1], simp)+
  have k: "keyed (tasks d')" using spec inv by (simp add: db_inv_def)
  have "row (tasks d') i = Some t" if "row (tasks d) i = Some t" for i t
  proof -
    have "i \<notin> nt_id ` set ts" using spec that by fastforce
    with spec that show ?thesis by simp
  qed
  note kept = this
  have "\<exists>t. row (tasks d') (a_task a) = Some t \<and> a_root a = t_root t \<and> a_epoch a \<le> t_lease_epoch t"
    if "a \<in> set (attempts d)" for a
    using inv that kept unfolding db_inv_def attempts_ok_def by blast
  with k eq inv have "db_inv d'" by (simp add: db_inv_def attempts_ok_def roots_own_def)
  with eq kept show ?thesis by (auto simp: effect_ok_def)
qed

lemma begin_effect:
  assumes inv: "db_inv d"
  shows "begin_recon_job E fresh spec now d = (i, d') \<Longrightarrow> effect_ok (Restarts i) d d'"
    and "begin_app_job E app now d = Inr d' \<Longrightarrow> effect_ok (Restarts (ap_id app)) d d'"
proof -
  assume b: "begin_recon_job E fresh spec now d = (i, d')"
  show "effect_ok (Restarts i) d d'"
  proof (cases "row (jobs d) i")
    case None
    from begin_creates(1)[OF b None] obtain r where "d' = d\<lparr>jobs := put i r (jobs d)\<rparr>"
      "j_parent r = None \<longrightarrow> j_root r = i" by (elim exE conjE)
    then show ?thesis by (simp only: create_effect[OF inv None])
  qed (use rows_effect[OF inv restart_writes(1)[OF b]] in simp)
next
  assume b: "begin_app_job E app now d = Inr d'"
  show "effect_ok (Restarts (ap_id app)) d d'"
  proof (cases "row (jobs d) (ap_id app)")
    case None
    from begin_creates(2)[OF b None] obtain r where "d' = d\<lparr>jobs := put (ap_id app) r (jobs d)\<rparr>"
      "j_parent r = None \<longrightarrow> j_root r = (ap_id app)" by (elim exE conjE)
    then show ?thesis by (simp only: create_effect[OF inv None])
  qed (use rows_effect[OF inv restart_writes(2)[OF b]] in simp)
qed

text \<open>Every writer keeps the invariant of the tables, and does to a row only what its label allows.\<close>

lemma writer_effect:
  assumes inv: "db_inv d" and w: "writer_step E l d d'"
  shows "effect_ok l d d'"
  using w
proof cases
  case w_step
  then show ?thesis using step_effect[OF inv] by simp
next
  case w_tasks
  then show ?thesis using tasks_effect[OF inv] by simp
next
  case w_begin
  then show ?thesis using begin_effect(1)[OF inv] by simp
next
  case w_begin_app
  then show ?thesis using begin_effect(2)[OF inv] by simp
next
  case w_phase
  then show ?thesis using rows_effect[OF inv column_writes(1)] by simp
next
  case w_progress
  then show ?thesis using rows_effect[OF inv column_writes(2)] by simp
next
  case w_finish
  then show ?thesis using rows_effect[OF inv finish_writes] by metis
next
  case w_state
  then show ?thesis using rows_effect[OF inv state_writes] by metis
next
  case w_meta
  then show ?thesis using rows_effect[OF inv column_writes(3)] by simp
next
  case w_coverage
  then show ?thesis using rows_effect[OF inv column_writes(4)] by simp
next
  case w_registry_meta
  then show ?thesis using rows_effect[OF inv column_writes(5)] by simp
next
  case w_recover
  then show ?thesis using rows_effect[OF inv recover_writes] by simp
next
  case w_retry
  then show ?thesis using rows_effect[OF _ retry_writes] inv by simp
next
  case w_summary
  then show ?thesis using rows_effect[OF inv summary_writes] by simp
next
  case w_extraction
  then show ?thesis using rows_effect[OF inv extraction_writes] by metis
next
  case w_supersede
  then show ?thesis using rows_effect[OF inv supersede_writes] by metis
next
  case w_resume
  then show ?thesis using rows_effect[OF inv resume_writes] by metis
next
  case w_retire
  then show ?thesis using rows_effect[OF inv retire_writes] by (metis snd_conv)
next
  case w_brief
  then show ?thesis using rows_effect[OF inv brief_writes] by metis
qed

section \<open>What stays\<close>

text \<open>A step of any writer, with none of the labels of \<open>B\<close>.\<close>

definition writer_any :: "env \<Rightarrow> label set \<Rightarrow> db \<Rightarrow> db \<Rightarrow> bool" where
  "writer_any E B d d' \<longleftrightarrow> (\<exists>l. l \<notin> B \<and> writer_step E l d d')"

interpretation writers: step_system "\<lambda>d. d = empty_db" "writer_any E B" db_inv for E B
proof
  show "db_inv d" if "d = empty_db" for d using job_sys.inv_start that .
  show "db_inv t" if "db_inv s" "writer_any E B s t" for s t
    using that writer_effect by (auto simp: writer_any_def effect_ok_def)
qed

text \<open>Claims, too, are fenced against all of these writers: none of them puts a stage back into a lost claim.\<close>

interpretation writer_fence: epoch_fence "\<lambda>s t. db_inv s \<and> writer_any E B s t" "\<lambda>d. row (tasks d) k"
    t_lease_epoch "\<lambda>t. t_state t = ''running''" t_lease_owner for E B k
proof
  fix s t r r'
  assume a: "db_inv s \<and> writer_any E B s t" "row (tasks s) k = Some r" "row (tasks t) k = Some r'"
  then obtain l where "writer_step E l s t" by (auto simp: writer_any_def)
  from writer_effect[OF conjunct1[OF a(1)] this] a(2,3) have "evolves r r'" by (simp add: effect_ok_def)
  then show "t_lease_epoch r \<le> t_lease_epoch r' \<and> (t_state r' = ''running'' \<longrightarrow>
      t_lease_epoch r < t_lease_epoch r' \<or> t_state r = ''running'' \<and>
      t_lease_owner r' = t_lease_owner r \<and> t_lease_epoch r' = t_lease_epoch r)"
    by (simp add: evolves_def)
qed

lemma writers_fence_run:
  assumes "run_of (\<lambda>s t. writer_any E B s t \<and> row (tasks t) k \<noteq> None) d d'" and "db_inv d"
  shows "run_of (\<lambda>s t. (db_inv s \<and> writer_any E B s t) \<and> row (tasks t) k \<noteq> None) d d' \<and> db_inv d'"
  using assms
proof (induction rule: run_of.induct)
  case (run_step s t u)
  note ih = run_step.IH[OF run_step.prems]
  have "db_inv u" by (rule writers.inv_step[of t E B]) (use ih run_step.hyps(2) in simp_all)
  moreover have "run_of (\<lambda>s t. (db_inv s \<and> writer_any E B s t) \<and> row (tasks t) k \<noteq> None) s u"
    by (rule run_of.run_step[OF ih[THEN conjunct1]]) (use ih run_step.hyps(2) in simp)
  ultimately show ?case by (intro conjI)
qed auto

lemma lost_claim_stays_lost:
  assumes inv: "db_inv d" and t: "row (tasks d) (ct_id ct) = Some t" and e: "ct_lease_epoch ct \<le> t_lease_epoch t"
    and lost: "\<not> still_held d ct"
    and run: "run_of (\<lambda>s t. writer_any E B s t \<and> row (tasks t) (ct_id ct) \<noteq> None) d d'"
    and op: "row (receipts d') op = None"
  shows "commit_stage E' ct out h now clock op d' = Inr (LeaseLost, bump ''job_guard'' (ct_root_id ct) d')"
proof -
  note held = writer_fence.held_def[of "ct_id ct"]
  have "\<not> writer_fence.held (ct_id ct) d (ct_lease_owner ct) (ct_lease_epoch ct)"
    using lost unfolding still_held_def held by blast
  then have "\<not> writer_fence.held (ct_id ct) d' (ct_lease_owner ct) (ct_lease_epoch ct)"
    by (rule writer_fence.lost_forever[OF writers_fence_run[OF run inv, THEN conjunct1] t e])
  then have "\<not> still_held d' ct" unfolding still_held_def held by blast
  then show ?thesis using op by (rule not_held_commit)
qed

definition job_stays :: "label set \<Rightarrow> string \<Rightarrow> job \<Rightarrow> job \<Rightarrow> bool" where
  "job_stays B j r s \<longleftrightarrow> (j_stopped r \<longrightarrow> j_stopped s)
     \<and> (Restarts j \<in> B \<and> j_cancel_requested r \<longrightarrow> j_cancel_requested s)
     \<and> ({Restarts j, Reports j} \<subseteq> B \<and> (Retries j \<in> B \<or> j_cancel_requested r) \<and> j_state r \<in> set TERMINAL
         \<longrightarrow> j_state s \<in> set TERMINAL)"

lemma moves_stays: "job_moves l j r s \<Longrightarrow> l \<notin> B \<Longrightarrow> job_stays B j r s"
  by (auto simp: job_moves_def job_stays_def)

lemma run_stays:
  assumes inv: "db_inv d" and run: "run_of (\<lambda>s t. writer_any E B s t \<and> row (jobs t) j \<noteq> None) d d'"
    and r: "row (jobs d) j = Some r"
  shows "\<exists>s. row (jobs d') j = Some s \<and> job_stays B j r s"
proof (rule writers.kept_along[where f = "\<lambda>d. row (jobs d) j", OF _ _ _ run inv r])
  show "job_stays B j x y" if "db_inv s" "writer_any E B s t" "row (jobs s) j = Some x" "row (jobs t) j = Some y" for s t x y
  proof -
    from that(2) obtain l where l: "l \<notin> B" "writer_step E l s t" by (auto simp: writer_any_def)
    from writer_effect[OF that(1) l(2)] that(3,4) have "job_moves l j x y" by (simp add: effect_ok_def)
    with l(1) show ?thesis by (rule moves_stays[rotated])
  qed
qed (auto simp: job_stays_def)

lemma cancelled_row: "row (jobs d) j = Some r \<Longrightarrow> j_cancel_requested r \<Longrightarrow> job_cancelled d j"
  by (simp add: job_cancelled_def cancel_flag_def)

lemma cancelled_not_committed:
  assumes "job_cancelled d j" "row (receipts d) op = None"
    and "commit_stage E ct out h now clock op d = Inr (Committed, d2)"
  shows "\<exists>t. row (tasks d) (ct_id ct) = Some t \<and> t_job t \<noteq> j"
proof -
  from commit_stage_fresh[OF assms(2), of E ct out h now clock] assms(3)
  have "holds_now d now ct" "\<not> (\<exists>t. row (tasks d) (ct_id ct) = Some t \<and> job_cancelled d (t_job t))" by auto
  with assms(1) show ?thesis by (auto simp: holds_now_row)
qed

text \<open>C11: Over every sequence of steps of every modelled writer of the job tables in which job \<open>j\<close> is never deleted:
  a stop (\<open>stopped\<close>) is never taken back by anybody. A cancel request is taken back only by a restart of \<open>j\<close> itself
  (\<open>begin_recon_job\<close>, \<open>begin_app_job\<close>, a retry of its summary); without one it stays, and no stage of \<open>j\<close> can be
  claimed and no output of it published. A terminal state is left only by such a restart, by an owner who reports a
  state that is not terminal, or by an explicit retry of \<open>j\<close>, and a retry does not do it while a cancel is requested.\<close>

theorem cancelled_and_stopped_stay:
  assumes inv: "db_inv d" and run: "run_of (\<lambda>s t. writer_any E B s t \<and> row (jobs t) j \<noteq> None) d d'"
    and r: "row (jobs d) j = Some r"
  shows "\<exists>s. row (jobs d') j = Some s \<and> (j_stopped r \<longrightarrow> j_stopped s)
    \<and> (Restarts j \<in> B \<and> j_cancel_requested r \<longrightarrow> j_cancel_requested s \<and> job_cancelled d' j
        \<and> (\<forall>pool now k t. t_job t = j \<longrightarrow> \<not> runnable d' pool now k t)
        \<and> (\<forall>ct out h now clock op d2. row (receipts d') op = None
              \<and> commit_stage E' ct out h now clock op d' = Inr (Committed, d2) \<longrightarrow>
            (\<exists>t. row (tasks d') (ct_id ct) = Some t \<and> t_job t \<noteq> j)))
    \<and> ({Restarts j, Reports j} \<subseteq> B \<and> (Retries j \<in> B \<or> j_cancel_requested r) \<and> j_state r \<in> set TERMINAL
        \<longrightarrow> j_state s \<in> set TERMINAL)"
proof -
  from run_stays[OF inv run r] obtain s where s: "row (jobs d') j = Some s" "job_stays B j r s" by blast
  then have canc: "j_cancel_requested s \<and> job_cancelled d' j" if "Restarts j \<in> B" "j_cancel_requested r"
    using that cancelled_row[OF s(1)] by (simp add: job_stays_def)
  then have "\<not> runnable d' pool now k t" if "Restarts j \<in> B" "j_cancel_requested r" "t_job t = j" for pool now k t
    using that by (simp add: runnable_def)
  moreover have "\<exists>t. row (tasks d') (ct_id ct) = Some t \<and> t_job t \<noteq> j"
    if "Restarts j \<in> B" "j_cancel_requested r" "row (receipts d') op = None"
      "commit_stage E' ct out h now clock op d' = Inr (Committed, d2)" for ct out h now clock op d2
    using cancelled_not_committed[OF _ that(3,4)] canc[OF that(1,2)] by blast
  ultimately show ?thesis using s canc by (auto simp: job_stays_def)
qed

section \<open>Concrete writers\<close>

definition demo_ended :: db where
  "demo_ended = demo_db\<lparr>jobs := [(''j'', demo_job\<lparr>j_state := ''cancelled'', j_cancel_requested := True, j_stopped := True\<rparr>)]\<rparr>"

definition demo_app :: "string option \<Rightarrow> app_job" where
  "demo_app p = \<lparr>ap_id = ''k'', ap_operation = ''atlas_collection'', ap_app = ''atlas'', ap_title = ''Atlas'', ap_run_ref = [],
     ap_resource_ref = [], ap_parent = p\<rparr>"

lemma db_inv_ended: "db_inv demo_ended"
  by (simp add: db_inv_def demo_ended_def demo_db_def keyed_def roots_own_def attempts_ok_def demo_job_def empty_db_def)

theorem cancelled_and_stopped_stay_witness:
  "\<exists>d'. begin_app_job demo_E (demo_app None) 5 demo_ended = Inr d' \<and> row (jobs d') ''k'' \<noteq> None
     \<and> (\<exists>s. row (jobs d') ''j'' = Some s \<and> j_stopped s \<and> j_cancel_requested s \<and> j_state s \<in> set TERMINAL)
     \<and> \<not> runnable d' ''intel_brief'' 9 ''a'' (demo_task [])"
proof -
  let ?B = "{Restarts ''j'', Reports ''j''}"
  obtain d' where b: "begin_app_job demo_E (demo_app None) 5 demo_ended = Inr d'"
    by (simp add: begin_app_job_def demo_app_def Let_def)
  then have rows: "row (jobs d') ''k'' \<noteq> None" "row (jobs d') ''j'' \<noteq> None"
    by (auto simp: begin_app_job_def demo_app_def Let_def demo_ended_def)
  have r: "row (jobs demo_ended) ''j'' = Some (demo_job\<lparr>j_state := ''cancelled'', j_cancel_requested := True, j_stopped := True\<rparr>)"
    by (simp add: demo_ended_def)
  have "writer_any demo_E ?B demo_ended d'"
    unfolding writer_any_def using w_begin_app[OF b] by (intro exI[of _ "Restarts ''k''"]) (simp add: demo_app_def)
  with rows have "run_of (\<lambda>s t. writer_any demo_E ?B s t \<and> row (jobs t) ''j'' \<noteq> None) demo_ended d'"
    using run_of.run_step[where step = "\<lambda>s t. writer_any demo_E ?B s t \<and> row (jobs t) ''j'' \<noteq> None",
        OF run_of.run_refl] by blast
  from cancelled_and_stopped_stay[OF db_inv_ended this r, of demo_E] b rows show ?thesis
    by (auto simp: TERMINAL_def demo_task_def)
qed

text \<open>Each exception happens. A retry reopens a failed job; a restart clears the cancel request of a cancelled job and
  leaves it marked as stopped; an owner's report has no guard on the state it overwrites.\<close>

lemma retry_reopens: "(case row (jobs (vw_store demo_retried)) ''j'' of Some s \<Rightarrow> j_state s = ''running'' | None \<Rightarrow> False)"
  by code_simp

lemma restart_takes_back:
  assumes "begin_app_job E app now d = Inr d'" "row (jobs d) (ap_id app) = Some r"
  shows "\<exists>s. row (jobs d') (ap_id app) = Some s \<and> j_state s = ''running'' \<and> \<not> j_cancel_requested s
    \<and> j_stopped s = j_stopped r \<and> j_attempts_used s = j_attempts_used r + 1"
  using assms by (auto simp: begin_app_job_def restart_job_def Let_def split: if_splits option.splits)

lemma report_overwrites:
  assumes "row (jobs d) i = Some r"
  shows "\<exists>s. row (jobs (finish_recon_job E i state run_ref cat summary res ms now d)) i = Some s \<and> j_state s = state"
  using assms by (simp add: finish_recon_job_def)

text \<open>The retry of a summary sets its attempt count back and keeps its attempts, as the retry of a failed stage
  does, so the requeued summary cannot be claimed.\<close>

lemma retried_summary_unclaimable:
  assumes t: "row (tasks d) k = Some t" "finished_summary k k t"
    and a: "a \<in> set (attempts d)" "a_task a = k" "a_number a = 1"
    and c: "c_id c = k" "c_pool c \<noteq> POOL_INTEL_BRIEF"
    and s: "retry_summary_in k j now d = Inr (b, d')"
  shows "claim_one E owner lease_secs now' op_key c d' = Inl already_exists"
proof -
  have "ids_where (finished_summary k) (tasks d) \<noteq> []"
    using t by (force simp: ids_where_def filter_empty_conv dest: map_of_SomeD)
  with s t have "row (tasks d') k = Some (requeue_summary now t)" "attempts d' = attempts d"
    by (auto simp: retry_summary_in_def Let_def bump_def)
  then show ?thesis
    using claim_one_attempt_exists[OF _ _ c] a by (simp add: requeue_summary_def)
qed

text \<open>A registry row under a parent has no link to it, so a stop of the parent does not visit the child, and the
  child's progress call tells it nothing: it answers with the flag of the child alone.\<close>

definition demo_child :: "tx_error + (stop_progress \<times> db) option" where
  "demo_child = (case begin_app_job demo_E (demo_app (Some ''j'')) 5 demo_db of
     Inr d \<Rightarrow> stop_job 5 demo_E ''j'' 6 50 None d | Inl e \<Rightarrow> Inl e)"

lemma registry_child_not_stopped:
  "(case demo_child of Inr (Some (p, d)) \<Rightarrow> stop_done p \<and> jobs_stopped p = 1 \<and> cancel_flag d ''j''
      \<and> \<not> cancel_flag d ''k'' \<and> job_cancelled d ''k''
      \<and> \<not> fst (set_job_progress ''k'' ''collect'' None None 7 d) | _ \<Rightarrow> False)"
  by code_simp

end
