(* ===== verification/Turn_Budget.thy ===== *)
theory Turn_Budget
  imports Prelude
begin

text \<open>
  The time budget of one investigation turn (\<open>recon/budget.rs\<close>, \<open>recon/clocks.rs\<close>): the allowances
  of the phases, the dynamic deadline with its label, and the clock set of the job. Durations are
  \<open>nat\<close> nanoseconds, below \<open>DURATION_MAX\<close> where the code saturates; counts of seconds are \<open>u64\<close>,
  read as \<open>nat\<close> with the saturation written out where the code has it. The unguarded sums add
  per-call seconds of one plan and stay far below \<open>2 ^ 64\<close>. An instant is the clock reading
  passed in as \<open>now\<close>.
\<close>

section \<open>Durations\<close>

definition NANOS :: nat where "NANOS = 1000000000"
definition U64_MAX :: nat where "U64_MAX = 18446744073709551615"
definition U32_MAX :: nat where "U32_MAX = 4294967295"
definition DURATION_MAX :: nat where "DURATION_MAX = U64_MAX * NANOS + 999999999"

definition secs :: "nat \<Rightarrow> nat" where "secs n = n * NANOS"
definition as_secs :: "nat \<Rightarrow> nat" where "as_secs d = d div NANOS"
definition dur_add :: "nat \<Rightarrow> nat \<Rightarrow> nat" where "dur_add a b = min (a + b) DURATION_MAX"
definition sat_u64 :: "nat \<Rightarrow> nat \<Rightarrow> nat" where "sat_u64 a b = min (a + b) U64_MAX"

lemma as_secs_secs [simp]: "as_secs (secs n) = n"
  by (simp add: as_secs_def secs_def NANOS_def)

section \<open>Clock set\<close>

record clock_set =
  ck_started :: nat
  ck_job_lifetime :: nat
  ck_foreground :: nat
  ck_attempt_execution :: nat
  ck_stream_inactivity :: nat
  ck_active_spent :: nat
  ck_queue_spent :: nat

definition new_clock_set :: "nat \<Rightarrow> nat \<Rightarrow> nat \<Rightarrow> clock_set" where
  "new_clock_set now job_lifetime foreground = \<lparr>ck_started = now, ck_job_lifetime = job_lifetime,
     ck_foreground = foreground, ck_attempt_execution = secs 120, ck_stream_inactivity = secs 60,
     ck_active_spent = 0, ck_queue_spent = 0\<rparr>"

definition wall_elapsed :: "clock_set \<Rightarrow> nat \<Rightarrow> nat" where
  "wall_elapsed c now = now - ck_started c"

definition remaining_lifetime :: "clock_set \<Rightarrow> nat \<Rightarrow> nat" where
  "remaining_lifetime c now = ck_job_lifetime c - wall_elapsed c now"

definition remaining_foreground :: "clock_set \<Rightarrow> nat \<Rightarrow> nat" where
  "remaining_foreground c now = ck_foreground c - wall_elapsed c now"

definition foreground_expired :: "clock_set \<Rightarrow> nat \<Rightarrow> bool" where
  "foreground_expired c now \<longleftrightarrow> remaining_foreground c now = 0"

definition job_expired :: "clock_set \<Rightarrow> nat \<Rightarrow> bool" where
  "job_expired c now \<longleftrightarrow> remaining_lifetime c now = 0"

definition attempt_budget :: "clock_set \<Rightarrow> nat \<Rightarrow> nat" where
  "attempt_budget c now = min (ck_attempt_execution c) (remaining_lifetime c now)"

definition record_active :: "nat \<Rightarrow> clock_set \<Rightarrow> clock_set" where
  "record_active spent c = c\<lparr>ck_active_spent := dur_add (ck_active_spent c) spent\<rparr>"

definition record_queue :: "nat \<Rightarrow> clock_set \<Rightarrow> clock_set" where
  "record_queue spent c = c\<lparr>ck_queue_spent := dur_add (ck_queue_spent c) spent\<rparr>"

definition sequential_tool_budget :: "nat list \<Rightarrow> nat" where
  "sequential_tool_budget timeouts = foldl dur_add 0 timeouts"

text \<open>The unguarded \<open>Duration\<close> sum panics past the maximum: \<open>None\<close>.\<close>

definition overlapping_tool_budget :: "nat list \<Rightarrow> nat \<Rightarrow> nat option" where
  "overlapping_tool_budget timeouts capacity =
     (if timeouts = [] then Some 0
      else
        let capacity = max capacity 1; sorted = sort timeouts; longest = last sorted;
            total = sum_list sorted
        in if total > DURATION_MAX then None
           else Some (max (secs (as_secs total div capacity)) longest))"

section \<open>Allowances\<close>

definition RECON_ROUND_SECONDS :: nat where "RECON_ROUND_SECONDS = 45"
definition SYNTHESIS_BASE_SECONDS :: nat where "SYNTHESIS_BASE_SECONDS = 300"
definition PHASE_WINDOW_SECONDS :: nat where "PHASE_WINDOW_SECONDS = 120"
definition SYNTHESIS_IDLE_SECONDS :: nat where "SYNTHESIS_IDLE_SECONDS = 60"
definition TOOL_CONCURRENCY :: nat where "TOOL_CONCURRENCY = 4"
definition COURTLISTENER_SPACING :: nat where "COURTLISTENER_SPACING = 12 * 1000000000"

definition LEGAL_TOOLS :: "string list" where
  "LEGAL_TOOLS = [''courtlistener_case_search'', ''courtlistener_docket_search'', ''courtlistener_judge_search'']"

record scheduled_call =
  sc_tool_id :: string
  sc_timeout_seconds :: nat
  sc_cached :: bool
  sc_poll_seconds :: nat

definition canonical_tool_id :: "string \<Rightarrow> string" where
  "canonical_tool_id i = (if i = ''hunter_tech_lookup'' then ''hunter_company_enrichment'' else i)"

text \<open>\<open>catalog\<close> gives the timeout of a tool of the registry by its id.\<close>

definition job_poll_seconds :: "(string \<Rightarrow> nat option) \<Rightarrow> string \<Rightarrow> nat" where
  "job_poll_seconds catalog i =
     (if canonical_tool_id i \<in> {''firecrawl_batch_scrape'', ''firecrawl_crawl''}
      then (case catalog (canonical_tool_id i) of Some t \<Rightarrow> t | None \<Rightarrow> 0) else 0)"

definition scheduled :: "(string \<Rightarrow> nat option) \<Rightarrow> string \<Rightarrow> bool \<Rightarrow> scheduled_call" where
  "scheduled catalog tool_id cached =
     (let i = canonical_tool_id tool_id in
      \<lparr>sc_tool_id = i, sc_timeout_seconds = (case catalog (canonical_tool_id i) of Some t \<Rightarrow> t | None \<Rightarrow> 30),
       sc_cached = cached, sc_poll_seconds = (if cached then 0 else job_poll_seconds catalog i)\<rparr>)"

definition tool_allowance_seconds :: "scheduled_call list \<Rightarrow> nat" where
  "tool_allowance_seconds calls =
     (let live = filter (\<lambda>c. \<not> sc_cached c) calls in
      if live = [] then 0
      else
        let longest = Max (set (map sc_timeout_seconds live));
            total = sum_list (map sc_timeout_seconds live);
            concurrent = max longest (total div TOOL_CONCURRENCY);
            court = length (filter (\<lambda>c. sc_tool_id c \<in> set LEGAL_TOOLS) live);
            spacing = (court - 1) * as_secs COURTLISTENER_SPACING;
            polling = sum_list (map sc_poll_seconds live)
        in concurrent + spacing + polling)"

definition tool_allowance_for_deps :: "scheduled_call list \<Rightarrow> bool \<Rightarrow> nat" where
  "tool_allowance_for_deps calls sequential =
     (if sequential then as_secs (sequential_tool_budget
        (map (\<lambda>c. secs (sc_timeout_seconds c + sc_poll_seconds c)) (filter (\<lambda>c. \<not> sc_cached c) calls)))
      else tool_allowance_seconds calls)"

definition clock_set_for_turn :: "nat \<Rightarrow> nat \<Rightarrow> nat \<Rightarrow> clock_set" where
  "clock_set_for_turn now turn_seconds max_turn_seconds =
     new_clock_set now (secs (max max_turn_seconds turn_seconds)) (secs turn_seconds)"

definition synthesis_allowance_capped :: "nat \<Rightarrow> bool \<Rightarrow> nat \<Rightarrow> nat" where
  "synthesis_allowance_capped chars repair ceiling0 =
     (let ceiling = max ceiling0 1; grown = sat_u64 SYNTHESIS_BASE_SECONDS (chars div 1000);
          capped = min grown ceiling
      in if repair then min (sat_u64 capped (capped div 2)) ceiling else capped)"

definition MAX_MAX_TURN_SECONDS :: nat where "MAX_MAX_TURN_SECONDS = 1800"

definition synthesis_allowance_seconds :: "nat \<Rightarrow> bool \<Rightarrow> nat" where
  "synthesis_allowance_seconds chars repair = synthesis_allowance_capped chars repair MAX_MAX_TURN_SECONDS"

definition deadline_seconds :: "nat \<Rightarrow> nat \<Rightarrow> nat \<Rightarrow> nat \<Rightarrow> nat \<Rightarrow> nat" where
  "deadline_seconds recon tools synthesis floor ceiling0 =
     (let ceiling = max ceiling0 floor
      in min (max (sat_u64 (sat_u64 recon tools) synthesis) floor) ceiling)"

definition format_span :: "nat \<Rightarrow> string" where
  "format_span n = (let minutes = n div 60; sec = n mod 60 in
     if minutes = 0 then nat_str sec @ ''s''
     else if sec = 0 then nat_str minutes @ ''m''
     else nat_str minutes @ ''m '' @ nat_str sec @ ''s'')"

definition format_deadline :: "nat \<Rightarrow> nat \<Rightarrow> nat \<Rightarrow> string" where
  "format_deadline n calls evidence_chars =
     (if evidence_chars = 0 then ''Deadline '' @ format_span n @ '': '' @ nat_str calls @ '' calls''
      else ''Deadline '' @ format_span n @ '': '' @ nat_str calls @ '' calls, ~''
        @ nat_str ((evidence_chars + 999) div 1000) @ ''k chars evidence'')"


text \<open>\<open>ReconLimits::effective_max_turn_seconds\<close>\<close>

definition effective_max_turn_seconds :: "nat \<Rightarrow> nat" where
  "effective_max_turn_seconds max_turn =
     (let v = (if max_turn = 0 then 900 else max_turn) in min (max v 120) MAX_MAX_TURN_SECONDS)"

section \<open>The turn clock\<close>

datatype turn_continuation = ContinueActive | ContinueBackground | Exhausted

record turn_checkpoint =
  cp_recon_rounds :: nat
  cp_tool_calls_scheduled :: nat
  cp_evidence_chars :: nat
  cp_synthesis_started :: bool
  cp_continuation :: string

record turn_clock =
  tc_started :: nat
  tc_floor :: nat
  tc_ceiling :: nat
  tc_clocks :: clock_set
  tc_recon_rounds :: nat
  tc_calls :: "scheduled_call list"
  tc_sequential_tools :: bool
  tc_tool_hold :: nat
  tc_evidence_chars :: nat
  tc_repair :: bool
  tc_tools_started :: "nat option"
  tc_synthesis_started :: "nat option"
  tc_idle :: nat
  tc_synthesis_override :: "nat option"
  tc_last_label :: string
  tc_pending :: "string list"
  tc_foreground_notified :: bool

definition new_turn_clock :: "nat \<Rightarrow> nat \<Rightarrow> nat \<Rightarrow> turn_clock" where
  "new_turn_clock now floor_secs ceiling_secs =
     (let ceiling = max ceiling_secs floor_secs in
      \<lparr>tc_started = now, tc_floor = secs floor_secs, tc_ceiling = secs ceiling,
       tc_clocks = new_clock_set now (secs ceiling) (secs floor_secs), tc_recon_rounds = 0,
       tc_calls = [], tc_sequential_tools = False, tc_tool_hold = 0, tc_evidence_chars = 0,
       tc_repair = False, tc_tools_started = None, tc_synthesis_started = None,
       tc_idle = secs SYNTHESIS_IDLE_SECONDS, tc_synthesis_override = None, tc_last_label = [],
       tc_pending = [], tc_foreground_notified = False\<rparr>)"

text \<open>\<open>recon.rs\<close>: the clock of a turn, from the settings' window and clamped ceiling.\<close>

definition turn_clock_for :: "nat \<Rightarrow> nat \<Rightarrow> nat \<Rightarrow> turn_clock" where
  "turn_clock_for now floor max_turn = new_turn_clock now floor (max max_turn floor)"

definition recon_seconds :: "turn_clock \<Rightarrow> nat" where
  "recon_seconds c = tc_recon_rounds c * RECON_ROUND_SECONDS"

definition tool_seconds :: "turn_clock \<Rightarrow> nat" where
  "tool_seconds c = tc_tool_hold c"

definition synthesis_seconds :: "turn_clock \<Rightarrow> nat" where
  "synthesis_seconds c =
     (case tc_synthesis_override c of Some s \<Rightarrow> s
      | None \<Rightarrow>
          let ceiling = as_secs (tc_ceiling c) in
          if tc_repair c then synthesis_allowance_capped (tc_evidence_chars c) True ceiling
          else if tc_synthesis_started c = None \<and> tc_evidence_chars c = 0
          then min SYNTHESIS_BASE_SECONDS ceiling
          else synthesis_allowance_capped (tc_evidence_chars c) False ceiling)"

definition synthesis_hold :: "turn_clock \<Rightarrow> nat" where
  "synthesis_hold c = (let wanted = synthesis_seconds c; ceiling = as_secs (tc_ceiling c) in
     if ceiling - wanted < PHASE_WINDOW_SECONDS then ceiling - PHASE_WINDOW_SECONDS else wanted)"

definition deadline :: "turn_clock \<Rightarrow> nat" where
  "deadline c = secs (deadline_seconds (recon_seconds c) (tool_seconds c) (synthesis_seconds c)
     (as_secs (tc_floor c)) (as_secs (tc_ceiling c)))"

definition live_calls :: "turn_clock \<Rightarrow> nat" where
  "live_calls c = length (filter (\<lambda>k. \<not> sc_cached k) (tc_calls c))"

definition label :: "turn_clock \<Rightarrow> string" where
  "label c = format_deadline (as_secs (deadline c)) (live_calls c)
     (if tc_synthesis_started c \<noteq> None then tc_evidence_chars c else 0)"

definition breakdown :: "turn_clock \<Rightarrow> string" where
  "breakdown c = label c @ '' (recon '' @ nat_str (recon_seconds c) @ ''s, tools '' @ nat_str (tool_seconds c)
     @ ''s, synthesis '' @ nat_str (synthesis_seconds c) @ ''s)''"

definition queue_label :: "turn_clock \<Rightarrow> turn_clock" where
  "queue_label c = (if tc_last_label c = label c then c
     else c\<lparr>tc_last_label := label c, tc_pending := tc_pending c @ [label c]\<rparr>)"

definition note_round :: "turn_clock \<Rightarrow> turn_clock" where
  "note_round c = queue_label (c\<lparr>tc_recon_rounds := min (tc_recon_rounds c + 1) U32_MAX\<rparr>)"

definition raise_calls_with_deps :: "scheduled_call list \<Rightarrow> bool \<Rightarrow> turn_clock \<Rightarrow> turn_clock" where
  "raise_calls_with_deps calls sequential c =
     (let allowance = tool_allowance_for_deps calls sequential in
      queue_label (c\<lparr>tc_sequential_tools := sequential,
        tc_tool_hold := (if allowance \<ge> tc_tool_hold c then allowance else tc_tool_hold c),
        tc_calls := calls\<rparr>))"

definition raise_calls :: "scheduled_call list \<Rightarrow> turn_clock \<Rightarrow> turn_clock" where
  "raise_calls calls c = raise_calls_with_deps calls (tc_sequential_tools c) c"

definition set_sequential_tools :: "bool \<Rightarrow> turn_clock \<Rightarrow> turn_clock" where
  "set_sequential_tools sequential c =
     (let c1 = c\<lparr>tc_sequential_tools := sequential\<rparr> in
      if tc_calls c1 = [] then c1 else raise_calls_with_deps (tc_calls c1) sequential c1)"

definition set_evidence :: "nat \<Rightarrow> turn_clock \<Rightarrow> turn_clock" where
  "set_evidence chars c = queue_label (c\<lparr>tc_evidence_chars := chars\<rparr>)"

definition mark_repair :: "turn_clock \<Rightarrow> turn_clock" where
  "mark_repair c = queue_label (c\<lparr>tc_repair := True\<rparr>)"

definition begin_tools :: "nat \<Rightarrow> turn_clock \<Rightarrow> turn_clock" where
  "begin_tools now c = (if tc_tools_started c = None then c\<lparr>tc_tools_started := Some now\<rparr> else c)"

definition begin_synthesis :: "nat \<Rightarrow> turn_clock \<Rightarrow> turn_clock" where
  "begin_synthesis now c = queue_label
     (if tc_synthesis_started c = None then c\<lparr>tc_synthesis_started := Some now\<rparr> else c)"

definition take_labels :: "turn_clock \<Rightarrow> string list \<times> turn_clock" where
  "take_labels c = (tc_pending c, c\<lparr>tc_pending := []\<rparr>)"

text \<open>The remaining-time reads and the continuation are constant in this version.\<close>

definition recon_remaining :: "turn_clock \<Rightarrow> nat" where "recon_remaining c = secs 3600"
definition synthesis_remaining :: "turn_clock \<Rightarrow> nat" where "synthesis_remaining c = secs 3600"
definition ceiling_remaining :: "turn_clock \<Rightarrow> nat" where "ceiling_remaining c = secs 3600"
definition continuation :: "turn_clock \<Rightarrow> turn_continuation" where "continuation c = ContinueActive"
definition note_foreground_transition :: "turn_clock \<Rightarrow> string option \<times> turn_clock" where
  "note_foreground_transition c = (None, c)"
definition should_continue_in_background :: "turn_clock \<Rightarrow> bool" where "should_continue_in_background c = False"
definition hard_limit_reached :: "turn_clock \<Rightarrow> bool" where "hard_limit_reached c = False"
definition tools_blocked :: "turn_clock \<Rightarrow> bool" where "tools_blocked c = False"

definition checkpoint :: "turn_clock \<Rightarrow> turn_checkpoint" where
  "checkpoint c = \<lparr>cp_recon_rounds = tc_recon_rounds c, cp_tool_calls_scheduled = live_calls c,
     cp_evidence_chars = tc_evidence_chars c, cp_synthesis_started = (tc_synthesis_started c \<noteq> None),
     cp_continuation = ''active''\<rparr>"

section \<open>Allowances\<close>

lemma live_parts: "tool_allowance_seconds calls = tool_allowance_seconds (filter (\<lambda>c. \<not> sc_cached c) calls)"
  by (simp add: tool_allowance_seconds_def)

lemma sum_list_ge_member: "x \<in> set xs \<Longrightarrow> f x \<le> (sum_list (map f xs) :: nat)"
  by (induction xs) auto

lemma Max_le_sum: "xs \<noteq> [] \<Longrightarrow> Max (set (map f xs)) \<le> (sum_list (map f xs) :: nat)"
  using sum_list_ge_member[of _ xs f] by (intro Max.boundedI) auto

lemma foldl_dur_add: "foldl dur_add a xs = (if a \<le> DURATION_MAX \<or> xs \<noteq> [] then min (a + sum_list xs) DURATION_MAX else a)"
  by (induction xs arbitrary: a) (auto simp: dur_add_def min_def)

lemma sequential_tool_budget_eq: "sequential_tool_budget xs = min (sum_list xs) DURATION_MAX"
  by (simp add: sequential_tool_budget_def foldl_dur_add)

lemma sum_secs: "sum_list (map (\<lambda>x. secs (f x)) xs) = secs (sum_list (map f xs))"
  by (induction xs) (auto simp: secs_def algebra_simps)

lemma sequential_exact:
  assumes "sum_list (map (\<lambda>c. sc_timeout_seconds c + sc_poll_seconds c) (filter (\<lambda>c. \<not> sc_cached c) calls)) \<le> U64_MAX"
  shows "tool_allowance_for_deps calls True
    = sum_list (map (\<lambda>c. sc_timeout_seconds c + sc_poll_seconds c) (filter (\<lambda>c. \<not> sc_cached c) calls))"
proof -
  let ?n = "sum_list (map (\<lambda>c. sc_timeout_seconds c + sc_poll_seconds c) (filter (\<lambda>c. \<not> sc_cached c) calls))"
  have "secs ?n \<le> DURATION_MAX" using assms by (simp add: secs_def DURATION_MAX_def NANOS_def)
  then show ?thesis
    by (simp add: tool_allowance_for_deps_def sequential_tool_budget_eq sum_secs)
qed

text \<open>The tool allowance is fair to every live call and never more than running them one after
  the other: it covers the longest live call with the polling of all, it is at most the sum of all
  live timeouts and polls plus twelve seconds between CourtListener calls, cached calls add nothing,
  another call never lowers it, and for dependent steps it is exactly the sum.\<close>

lemma tool_allowance_bounds:
  assumes small: "sum_list (map (\<lambda>c. sc_timeout_seconds c + sc_poll_seconds c) (filter (\<lambda>c. \<not> sc_cached c) calls)) \<le> U64_MAX"
  shows "(\<forall>c\<in>set calls. \<not> sc_cached c \<longrightarrow> sc_timeout_seconds c
        + sum_list (map sc_poll_seconds (filter (\<lambda>c. \<not> sc_cached c) calls)) \<le> tool_allowance_for_deps calls False)
    \<and> tool_allowance_for_deps calls False \<le> tool_allowance_for_deps calls True
        + 12 * (length (filter (\<lambda>c. \<not> sc_cached c \<and> sc_tool_id c \<in> set LEGAL_TOOLS) calls) - 1)
    \<and> (\<forall>k. sc_cached k \<longrightarrow> tool_allowance_for_deps (k # calls) False = tool_allowance_for_deps calls False)
    \<and> (\<forall>k. tool_allowance_for_deps calls False \<le> tool_allowance_for_deps (k # calls) False)
    \<and> tool_allowance_for_deps calls True
        = sum_list (map (\<lambda>c. sc_timeout_seconds c + sc_poll_seconds c) (filter (\<lambda>c. \<not> sc_cached c) calls))"
proof -
  let ?live = "filter (\<lambda>c. \<not> sc_cached c) calls"
  let ?t = "sum_list (map sc_timeout_seconds ?live)" and ?p = "sum_list (map sc_poll_seconds ?live)"
  have split: "sum_list (map (\<lambda>c. sc_timeout_seconds c + sc_poll_seconds c) ?live) = ?t + ?p"
    by (simp add: sum_list_addf)
  have lower: "sc_timeout_seconds c + ?p \<le> tool_allowance_seconds calls" if "c \<in> set calls" "\<not> sc_cached c" for c
  proof -
    have "c \<in> set ?live" using that by simp
    then have "sc_timeout_seconds c \<le> Max (set (map sc_timeout_seconds ?live))" by (intro Max_ge) auto
    moreover have "?live \<noteq> []" using \<open>c \<in> set ?live\<close> by (metis empty_iff empty_set)
    ultimately show ?thesis by (simp only: tool_allowance_seconds_def Let_def if_False)
  qed
  have leg: "filter (\<lambda>c. sc_tool_id c \<in> set LEGAL_TOOLS) ?live
      = filter (\<lambda>c. \<not> sc_cached c \<and> sc_tool_id c \<in> set LEGAL_TOOLS) calls" by (induction calls) auto
  have upper: "tool_allowance_seconds calls \<le> ?t + ?p
      + 12 * (length (filter (\<lambda>c. \<not> sc_cached c \<and> sc_tool_id c \<in> set LEGAL_TOOLS) calls) - 1)"
  proof (cases "?live = []")
    case False
    have "max (Max (set (map sc_timeout_seconds ?live))) (?t div TOOL_CONCURRENCY) \<le> ?t"
      using Max_le_sum[OF False, of sc_timeout_seconds] by (simp add: div_le_dividend)
    with False show ?thesis
      by (simp add: tool_allowance_seconds_def Let_def leg COURTLISTENER_SPACING_def as_secs_def NANOS_def mult.commute)
  qed (simp add: tool_allowance_seconds_def)
  have mono: "tool_allowance_seconds calls \<le> tool_allowance_seconds (k # calls)" for k
  proof (cases "sc_cached k \<or> ?live = []")
    case False
    then have live: "filter (\<lambda>c. \<not> sc_cached c) (k # calls) = k # ?live" "?live \<noteq> []" by auto
    have m: "Max (set (map sc_timeout_seconds ?live)) \<le> Max (set (map sc_timeout_seconds (k # ?live)))"
      using live(2) by (intro Max_mono) (auto simp: filter_empty_conv)
    have d: "?t div TOOL_CONCURRENCY \<le> sum_list (map sc_timeout_seconds (k # ?live)) div TOOL_CONCURRENCY"
      by (rule div_le_mono) simp
    have l: "length (filter (\<lambda>c. sc_tool_id c \<in> set LEGAL_TOOLS) ?live) - 1
      \<le> length (filter (\<lambda>c. sc_tool_id c \<in> set LEGAL_TOOLS) (k # ?live)) - 1" by (simp add: diff_le_mono)
    have p: "?p \<le> sum_list (map sc_poll_seconds (k # ?live))" by simp
    show ?thesis
      unfolding tool_allowance_seconds_def Let_def live(1) if_not_P[OF live(2)] if_not_P[OF list.distinct(2)]
      by (intro add_mono mult_right_mono max.mono m d l p) simp
  qed (auto simp: tool_allowance_seconds_def)
  show ?thesis
    using lower upper mono sequential_exact[OF small] split
    by (auto simp: tool_allowance_for_deps_def tool_allowance_seconds_def)
qed

text \<open>The overlapping budget of the clock set: no shorter than its longest step, no longer than all.\<close>

lemma overlapping_bounds:
  assumes "overlapping_tool_budget ts capacity = Some b"
  shows "(\<forall>t\<in>set ts. t \<le> b) \<and> b \<le> sequential_tool_budget ts"
proof (cases "ts = []")
  case False
  let ?s = "sort ts"
  have ne: "?s \<noteq> []" using False by (metis set_empty set_sort)
  have longest: "t \<le> last ?s" if t: "t \<in> set ts" for t
  proof -
    obtain i where i: "i < length ?s" "?s ! i = t" using t by (metis in_set_conv_nth set_sort)
    have "?s ! i \<le> ?s ! (length ?s - 1)" using i(1) by (intro sorted_nth_mono) auto
    then show ?thesis using ne i(2) by (simp add: last_conv_nth)
  qed
  have sum: "sum_list ?s = sum_list ts" 
  proof -
    have ins: "sum_list (insort x xs) = x + sum_list xs" for x :: nat and xs by (induction xs) auto
    show ?thesis by (induction ts) (auto simp: ins)
  qed
  have "last ?s \<in> set ts" using ne by (metis last_in_set set_sort)
  then have last: "last ?s \<le> sum_list ts" using sum_list_ge_member[of "last ?s" ts id] by simp
  have share: "secs (as_secs n div max capacity 1) \<le> n" for n
  proof -
    have "as_secs n div max capacity 1 \<le> n div NANOS" by (simp add: as_secs_def div_le_dividend)
    then have "secs (as_secs n div max capacity 1) \<le> n div NANOS * NANOS" by (simp add: secs_def)
    also have "\<dots> \<le> n" by simp
    finally show ?thesis .
  qed
  from assms False have fits: "sum_list ts \<le> DURATION_MAX"
    and b: "b = max (secs (as_secs (sum_list ts) div max capacity 1)) (last ?s)"
    unfolding overlapping_tool_budget_def Let_def sum by (simp_all split: if_splits)
  show ?thesis
    unfolding b sequential_tool_budget_eq min_absorb1[OF fits]
    using longest last share[of "sum_list ts"] by (meson max.boundedI max.coboundedI2)
qed (use assms in \<open>simp add: overlapping_tool_budget_def\<close>)


section \<open>Synthesis and deadline\<close>

lemma sat_u64_mono: "a \<le> a' \<Longrightarrow> b \<le> b' \<Longrightarrow> sat_u64 a b \<le> sat_u64 a' b'"
  unfolding sat_u64_def by (intro min.mono add_mono order.refl)

definition base_allowance :: "nat \<Rightarrow> nat \<Rightarrow> nat" where
  "base_allowance chars m = min (sat_u64 SYNTHESIS_BASE_SECONDS (chars div 1000)) m"

lemma capped_base: "synthesis_allowance_capped chars r m0 = (let m = max m0 1; b = base_allowance chars m in
    if r then min (sat_u64 b (b div 2)) m else b)"
  by (simp add: synthesis_allowance_capped_def base_allowance_def Let_def)

lemma base_mono: "c1 \<le> c2 \<Longrightarrow> base_allowance c1 m \<le> base_allowance c2 m"
  unfolding base_allowance_def by (intro min.mono sat_u64_mono div_le_mono order.refl)

lemma base_le: "base_allowance c m \<le> m" "base_allowance c m \<le> U64_MAX"
  by (simp_all add: base_allowance_def sat_u64_def min.coboundedI1)

lemma base_ge: "min SYNTHESIS_BASE_SECONDS m \<le> base_allowance c m"
proof -
  have "SYNTHESIS_BASE_SECONDS \<le> sat_u64 SYNTHESIS_BASE_SECONDS (c div 1000)"
    by (simp add: sat_u64_def SYNTHESIS_BASE_SECONDS_def U64_MAX_def)
  then show ?thesis unfolding base_allowance_def by (intro min.mono order.refl)
qed

lemma repaired_ge: "b \<le> m \<Longrightarrow> b \<le> U64_MAX \<Longrightarrow> b \<le> min (sat_u64 b (b div 2)) m"
  by (simp add: sat_u64_def)

lemma synthesis_capped_mono:
  assumes "c1 \<le> c2" "r1 \<longrightarrow> r2"
  shows "synthesis_allowance_capped c1 r1 m \<le> synthesis_allowance_capped c2 r2 m"
proof -
  let ?m = "max m 1"
  note b = base_mono[OF assms(1), of ?m]
  have "min (sat_u64 (base_allowance c1 ?m) (base_allowance c1 ?m div 2)) ?m
      \<le> min (sat_u64 (base_allowance c2 ?m) (base_allowance c2 ?m div 2)) ?m"
    by (intro min.mono sat_u64_mono div_le_mono b order.refl)
  moreover have "base_allowance c1 ?m \<le> min (sat_u64 (base_allowance c2 ?m) (base_allowance c2 ?m div 2)) ?m"
    using b repaired_ge[OF base_le] by (rule order_trans)
  ultimately show ?thesis
    using b assms(2) unfolding capped_base Let_def by (cases r1; cases r2; simp only: if_True if_False simp_thms)
qed

lemma synthesis_capped_bounds:
  "min SYNTHESIS_BASE_SECONDS (max m 1) \<le> synthesis_allowance_capped c r m \<and> synthesis_allowance_capped c r m \<le> max m 1"
proof -
  have "synthesis_allowance_capped c r m \<le> max m 1" unfolding capped_base Let_def using base_le(1) by simp
  moreover have "min SYNTHESIS_BASE_SECONDS (max m 1) \<le> synthesis_allowance_capped c False m"
    unfolding capped_base Let_def using base_ge by simp
  then have "min SYNTHESIS_BASE_SECONDS (max m 1) \<le> synthesis_allowance_capped c r m"
    using synthesis_capped_mono[of c c False r m] by (meson order_trans order_refl)
  ultimately show ?thesis by blast
qed

lemma deadline_seconds_bounds:
  "floor \<le> deadline_seconds r t s floor ceiling \<and> deadline_seconds r t s floor ceiling \<le> max ceiling floor"
  by (simp add: deadline_seconds_def)

lemma deadline_seconds_mono:
  "r \<le> r' \<Longrightarrow> t \<le> t' \<Longrightarrow> s \<le> s' \<Longrightarrow> deadline_seconds r t s f c \<le> deadline_seconds r' t' s' f c"
  unfolding deadline_seconds_def Let_def by (intro min.mono max.mono sat_u64_mono order.refl)


section \<open>The turn clock as a step system\<close>

text \<open>
  The state pairs the labels the caller has taken so far with the clock. No code outside the tests
  sets the synthesis override, which is therefore not a step.
\<close>

inductive turn_step :: "string list \<times> turn_clock \<Rightarrow> string list \<times> turn_clock \<Rightarrow> bool" where
  ts_round: "turn_step (ls, c) (ls, note_round c)"
| ts_calls: "turn_step (ls, c) (ls, raise_calls calls c)"
| ts_deps: "turn_step (ls, c) (ls, raise_calls_with_deps calls seq c)"
| ts_sequential: "turn_step (ls, c) (ls, set_sequential_tools seq c)"
| ts_evidence: "turn_step (ls, c) (ls, set_evidence chars c)"
| ts_repair: "turn_step (ls, c) (ls, mark_repair c)"
| ts_tools: "turn_step (ls, c) (ls, begin_tools now c)"
| ts_synthesis: "turn_step (ls, c) (ls, begin_synthesis now c)"
| ts_take: "take_labels c = (new, c') \<Longrightarrow> turn_step (ls, c) (ls @ new, c')"

lemma queue_fields [simp]:
  "tc_floor (queue_label c) = tc_floor c" "tc_ceiling (queue_label c) = tc_ceiling c"
  "tc_recon_rounds (queue_label c) = tc_recon_rounds c" "tc_tool_hold (queue_label c) = tc_tool_hold c"
  "tc_evidence_chars (queue_label c) = tc_evidence_chars c" "tc_repair (queue_label c) = tc_repair c"
  "tc_synthesis_started (queue_label c) = tc_synthesis_started c"
  "tc_synthesis_override (queue_label c) = tc_synthesis_override c" "tc_calls (queue_label c) = tc_calls c"
  by (simp_all add: queue_label_def)

text \<open>What the label and the deadline read.\<close>

definition same_reads :: "turn_clock \<Rightarrow> turn_clock \<Rightarrow> bool" where
  "same_reads c c' \<longleftrightarrow> tc_floor c' = tc_floor c \<and> tc_ceiling c' = tc_ceiling c
     \<and> tc_recon_rounds c' = tc_recon_rounds c \<and> tc_tool_hold c' = tc_tool_hold c
     \<and> tc_evidence_chars c' = tc_evidence_chars c \<and> tc_repair c' = tc_repair c
     \<and> tc_synthesis_started c' = tc_synthesis_started c \<and> tc_synthesis_override c' = tc_synthesis_override c
     \<and> tc_calls c' = tc_calls c"

lemma same_reads_label:
  assumes "same_reads c c'"
  shows "label c' = label c"
proof -
  note eq = assms[unfolded same_reads_def]
  have "recon_seconds c' = recon_seconds c" "tool_seconds c' = tool_seconds c" "live_calls c' = live_calls c"
    using eq by (simp_all add: recon_seconds_def tool_seconds_def live_calls_def)
  moreover have "synthesis_seconds c' = synthesis_seconds c" using eq by (simp add: synthesis_seconds_def Let_def split: option.split)
  ultimately show ?thesis using eq by (simp only: label_def deadline_def)
qed

lemma queue_reads [simp]: "same_reads c (queue_label c)"
  by (simp add: same_reads_def)

lemma label_ne [simp]: "label c \<noteq> []" "[] \<noteq> label c"
  by (simp_all add: label_def format_deadline_def)

text \<open>Labels taken and pending, as one sequence ending in the last label queued.\<close>

definition last_or_none :: "string list \<Rightarrow> string" where
  "last_or_none xs = (if xs = [] then [] else last xs)"

definition labels_ok :: "string list \<Rightarrow> turn_clock \<Rightarrow> bool" where
  "labels_ok ls c \<longleftrightarrow> distinct_adj (ls @ tc_pending c) \<and> [] \<notin> set (ls @ tc_pending c)
     \<and> tc_last_label c = last_or_none (ls @ tc_pending c)
     \<and> (tc_last_label c = [] \<or> tc_last_label c = label c)"

definition clock_ok :: "nat \<Rightarrow> nat \<Rightarrow> string list \<times> turn_clock \<Rightarrow> bool" where
  "clock_ok floor ceiling = (\<lambda>(ls, c). tc_floor c = secs floor \<and> tc_ceiling c = secs (max ceiling floor)
     \<and> tc_recon_rounds c \<le> U32_MAX \<and> tc_synthesis_override c = None \<and> labels_ok ls c)"

lemma distinct_adj_snoc: "distinct_adj (xs @ [x]) \<longleftrightarrow> distinct_adj xs \<and> (xs = [] \<or> last xs \<noteq> x)"
  by (induction xs rule: induct_list012) auto

text \<open>An operation that queues may change what the label reads before it does.\<close>

lemma labels_ok_queue:
  assumes "tc_pending c' = tc_pending c" "tc_last_label c' = tc_last_label c" "labels_ok ls c"
  shows "labels_ok ls (queue_label c')"
proof (cases "tc_last_label c' = label c'")
  case True
  then show ?thesis using assms by (auto simp: queue_label_def labels_ok_def)
next
  case False
  then have q: "tc_pending (queue_label c') = tc_pending c @ [label c']" "tc_last_label (queue_label c') = label c'"
    using assms by (simp_all add: queue_label_def)
  have "ls @ tc_pending c = [] \<or> last (ls @ tc_pending c) \<noteq> label c'"
    using False assms(2,3) unfolding labels_ok_def last_or_none_def by metis
  then have "distinct_adj ((ls @ tc_pending c) @ [label c'])"
    using assms(3) unfolding distinct_adj_snoc labels_ok_def by blast
  moreover have "label (queue_label c') = label c'" by (rule same_reads_label) simp
  moreover have "[] \<notin> set ((ls @ tc_pending c) @ [label c'])" using assms(3) by (simp add: labels_ok_def)
  ultimately show ?thesis unfolding labels_ok_def q by (simp add: last_or_none_def)
qed

lemma labels_ok_quiet:
  assumes "same_reads c c'" "tc_pending c' = tc_pending c" "tc_last_label c' = tc_last_label c" "labels_ok ls c"
  shows "labels_ok ls c'"
  using assms(2-4) same_reads_label[OF assms(1)] unfolding labels_ok_def by metis

lemma deps_ok:
  assumes "clock_ok f m (ls, c)"
  shows "clock_ok f m (ls, raise_calls_with_deps calls seq c)"
  using assms labels_ok_queue[of _ c ls]
  by (simp add: clock_ok_def raise_calls_with_deps_def Let_def)

lemma sequential_ok:
  assumes ok: "clock_ok f m (ls, c)"
  shows "clock_ok f m (ls, set_sequential_tools seq c)"
proof -
  have "labels_ok ls (c\<lparr>tc_sequential_tools := seq\<rparr>)"
    by (rule labels_ok_quiet[of c]) (use ok in \<open>simp_all add: same_reads_def clock_ok_def\<close>)
  then have "clock_ok f m (ls, c\<lparr>tc_sequential_tools := seq\<rparr>)" using ok by (simp add: clock_ok_def)
  from this deps_ok[OF this] show ?thesis by (simp add: set_sequential_tools_def Let_def)
qed

lemma turn_step_ok:
  assumes "clock_ok f m s" "turn_step s t"
  shows "clock_ok f m t"
  using assms(2,1)
proof cases
  case (ts_take c new c' ls)
  then show ?thesis using assms(1) same_reads_label[of c c']
    by (auto simp: clock_ok_def take_labels_def labels_ok_def same_reads_def)
next
  case (ts_tools ls c now)
  have "labels_ok ls (begin_tools now c)"
    by (rule labels_ok_quiet[of c]) (use assms(1) ts_tools in \<open>simp_all add: same_reads_def clock_ok_def begin_tools_def\<close>)
  then show ?thesis using assms(1) ts_tools by (simp add: clock_ok_def begin_tools_def)
qed (use assms(1) deps_ok sequential_ok labels_ok_queue in
    \<open>auto simp: clock_ok_def note_round_def raise_calls_def set_evidence_def mark_repair_def begin_synthesis_def\<close>)


lemma new_clock_ok: "clock_ok floor ceiling ([], new_turn_clock now floor ceiling)"
  by (simp add: clock_ok_def new_turn_clock_def Let_def labels_ok_def last_or_none_def U32_MAX_def)

interpretation turn_sys: step_system "\<lambda>s. s = ([], new_turn_clock now floor ceiling)" turn_step "clock_ok floor ceiling"
  by unfold_locales (auto simp: new_clock_ok intro: turn_step_ok)

text \<open>C16: The clock of a turn is well-formed whatever the turn does: the window and the ceiling it was
  made with are kept, the round counter stays a 32-bit number, the deadline lies between them (the
  window wins when it is the larger), and the labels shown to the user, taken or pending, never
  repeat in a row and end in the label of the current deadline.\<close>

theorem turn_clock_wellformed:
  assumes "run_of turn_step ([], new_turn_clock now floor ceiling) (ls, c)"
  shows "tc_floor c = secs floor \<and> tc_ceiling c = secs (max ceiling floor) \<and> tc_recon_rounds c \<le> U32_MAX
    \<and> secs floor \<le> deadline c \<and> deadline c \<le> secs (max ceiling floor)
    \<and> distinct_adj (ls @ tc_pending c)
    \<and> (ls @ tc_pending c \<noteq> [] \<longrightarrow> last (ls @ tc_pending c) = label c)"
proof -
  have ok: "clock_ok floor ceiling (ls, c)" using turn_sys.inv_reachable[OF refl assms] .
  then have l: "labels_ok ls c" by (simp add: clock_ok_def)
  have "last (ls @ tc_pending c) = label c" if "ls @ tc_pending c \<noteq> []"
    using l that last_in_set[OF that] unfolding labels_ok_def last_or_none_def by metis
  moreover have "secs floor \<le> deadline c \<and> deadline c \<le> secs (max ceiling floor)"
    using ok deadline_seconds_bounds[of floor "recon_seconds c" "tool_seconds c" "synthesis_seconds c" "max ceiling floor"]
    by (simp add: clock_ok_def deadline_def) (simp add: secs_def NANOS_def)
  ultimately show ?thesis using ok by (simp add: clock_ok_def labels_ok_def)
qed

lemma synthesis_seconds_mono:
  assumes "tc_synthesis_override c = None" "tc_synthesis_override c' = None" "tc_ceiling c' = tc_ceiling c"
    and "tc_evidence_chars c \<le> tc_evidence_chars c'" "tc_repair c \<longrightarrow> tc_repair c'"
    and "tc_synthesis_started c \<noteq> None \<longrightarrow> tc_synthesis_started c' \<noteq> None"
  shows "synthesis_seconds c \<le> synthesis_seconds c'"
proof -
  let ?m = "as_secs (tc_ceiling c)"
  have start: "min SYNTHESIS_BASE_SECONDS ?m \<le> synthesis_allowance_capped e r ?m" for e r
    using synthesis_capped_bounds[of ?m e r] by (meson max.cobounded1 min.mono order_refl order_trans)
  have "synthesis_allowance_capped (tc_evidence_chars c) r ?m \<le> synthesis_allowance_capped (tc_evidence_chars c') r' ?m"
    if "r \<longrightarrow> r'" for r r'
    using assms(4) that by (rule synthesis_capped_mono)
  with start assms show ?thesis
    by (auto simp: synthesis_seconds_def Let_def)
qed

lemma deadline_mono:
  assumes "synthesis_seconds c \<le> synthesis_seconds c'" "tc_recon_rounds c \<le> tc_recon_rounds c'"
    "tc_tool_hold c \<le> tc_tool_hold c'" "tc_floor c' = tc_floor c" "tc_ceiling c' = tc_ceiling c"
  shows "deadline c \<le> deadline c'"
proof -
  have "recon_seconds c \<le> recon_seconds c'" "tool_seconds c \<le> tool_seconds c'"
    using assms by (simp_all add: recon_seconds_def tool_seconds_def)
  from deadline_seconds_mono[OF this assms(1)] show ?thesis
    unfolding deadline_def assms(4,5) secs_def by (rule mult_right_mono) simp
qed

text \<open>What every step keeps or raises.\<close>

definition grows :: "turn_clock \<Rightarrow> turn_clock \<Rightarrow> bool" where
  "grows c c' \<longleftrightarrow> tc_recon_rounds c \<le> tc_recon_rounds c' \<and> tc_tool_hold c \<le> tc_tool_hold c'
     \<and> tc_floor c' = tc_floor c \<and> tc_ceiling c' = tc_ceiling c \<and> (tc_repair c \<longrightarrow> tc_repair c')
     \<and> (tc_synthesis_started c \<noteq> None \<longrightarrow> tc_synthesis_started c' \<noteq> None)"

lemma step_grows:
  assumes "turn_step (ls, c) (ls', c')" "tc_recon_rounds c \<le> U32_MAX"
  shows "grows c c'"
  using assms(1)
  by cases (use assms(2) in \<open>auto simp: grows_def note_round_def raise_calls_def raise_calls_with_deps_def Let_def
    set_sequential_tools_def set_evidence_def mark_repair_def begin_tools_def begin_synthesis_def take_labels_def\<close>)

text \<open>The deadline only moves out: no step of a turn other than a smaller evidence packet brings it
  forward, so a promise shown to the user is never taken back by growth of the plan, another round,
  the start of synthesis or a repair pass.\<close>

lemma deadline_never_shrinks:
  assumes ok: "clock_ok f m (ls, c)" and step: "turn_step (ls, c) (ls', c')"
    and more: "tc_evidence_chars c \<le> tc_evidence_chars c'"
  shows "deadline c \<le> deadline c' \<and> tc_tool_hold c \<le> tc_tool_hold c' \<and> tc_recon_rounds c \<le> tc_recon_rounds c'"
proof -
  have ok': "clock_ok f m (ls', c')" using turn_step_ok[OF ok step] .
  have g: "grows c c'" using step_grows[OF step] ok by (simp add: clock_ok_def)
  have "synthesis_seconds c \<le> synthesis_seconds c'"
    using ok ok' g more by (intro synthesis_seconds_mono) (auto simp: clock_ok_def grows_def)
  with g show ?thesis by (auto simp: grows_def intro!: deadline_mono)
qed

section \<open>Concrete turns\<close>

definition demo_calls :: "scheduled_call list" where
  "demo_calls = [\<lparr>sc_tool_id = ''whois'', sc_timeout_seconds = 40, sc_cached = False, sc_poll_seconds = 0\<rparr>,
     \<lparr>sc_tool_id = ''courtlistener_case_search'', sc_timeout_seconds = 30, sc_cached = False, sc_poll_seconds = 0\<rparr>,
     \<lparr>sc_tool_id = ''courtlistener_docket_search'', sc_timeout_seconds = 30, sc_cached = False, sc_poll_seconds = 0\<rparr>]"

definition demo_clock :: turn_clock where
  "demo_clock = note_round (new_turn_clock 0 300 900)"

theorem tool_allowance_bounds_witness:
  "tool_allowance_for_deps demo_calls True = 100 \<and> tool_allowance_for_deps demo_calls False = 52
    \<and> tool_allowance_for_deps demo_calls False \<le> tool_allowance_for_deps demo_calls True + 12"
proof -
  have "sum_list (map (\<lambda>c. sc_timeout_seconds c + sc_poll_seconds c) (filter (\<lambda>c. \<not> sc_cached c) demo_calls)) \<le> U64_MAX"
    by (simp add: demo_calls_def U64_MAX_def)
  from tool_allowance_bounds[OF this] show ?thesis
    by (simp add: demo_calls_def tool_allowance_for_deps_def tool_allowance_seconds_def Let_def LEGAL_TOOLS_def
        TOOL_CONCURRENCY_def COURTLISTENER_SPACING_def as_secs_def NANOS_def)
qed

lemma demo_run: "run_of turn_step ([], new_turn_clock 0 300 900) ([], demo_clock)"
  unfolding demo_clock_def using run_of.run_step[where step = turn_step, OF run_of.run_refl] ts_round by blast

theorem turn_clock_wellformed_witness:
  "secs 300 \<le> deadline demo_clock \<and> deadline demo_clock \<le> secs 900 \<and> distinct_adj (tc_pending demo_clock)"
  using turn_clock_wellformed[OF demo_run] by simp

theorem deadline_never_shrinks_witness:
  "deadline demo_clock \<le> deadline (mark_repair demo_clock)"
proof -
  have ok: "clock_ok 300 900 ([], demo_clock)" using turn_sys.inv_reachable[OF refl demo_run] .
  have "tc_evidence_chars demo_clock \<le> tc_evidence_chars (mark_repair demo_clock)" by (simp add: mark_repair_def)
  from deadline_never_shrinks[OF ok ts_repair this] show ?thesis by blast
qed

end
