(* ===== verification/Report_Tasks.thy ===== *)
theory Report_Tasks
  imports Tx "HOL-Library.Char_ord" "HOL-Library.List_Lexorder"
begin


text \<open>
  The Intel report writers (\<open>storage/recon_jobs.rs\<close>): report jobs and the tasks their workers lease.
  Each query is one transaction of its own; a claim is several of them, so other workers may write
  in between.

  Timestamps of these tables are RFC 3339 texts of UTC instants written by one function, whose
  order as texts is their order as instants: an \<open>instant\<close> here, \<open>None\<close> for the empty text.
\<close>

section \<open>State\<close>

record report_job =
  rj_investigation_id :: string
  rj_article_id :: string
  rj_mode :: string
  rj_revision :: int
  rj_state :: string
  rj_stage :: string
  rj_settings_json :: string
  rj_budget_json :: string
  rj_parent_job_id :: "string option"
  rj_sections_done :: int
  rj_sections_total :: int
  rj_elements_done :: int
  rj_elements_total :: int
  rj_tool_calls_done :: int
  rj_tool_calls_allowance :: int
  rj_current_tool :: string
  rj_warning :: string
  rj_error :: string
  rj_generation :: int
  rj_started_at :: instant
  rj_updated_at :: instant
  rj_finished_at :: "instant option"

record report_task =
  rt_job :: string
  rt_type :: string
  rt_section_key :: string
  rt_depends_on_json :: string
  rt_input_hash :: string
  rt_status :: string
  rt_attempts :: int
  rt_max_attempts :: int
  rt_output_ref :: string
  rt_lease_owner :: string
  rt_lease_until :: "instant option"
  rt_lease_epoch :: int
  rt_error :: string
  rt_created_at :: instant
  rt_updated_at :: instant

text \<open>\<open>retired_jobs\<close> is the set of keys of \<open>job_retirement\<close>, as a list.\<close>

record report_db =
  report_jobs :: "report_job tbl"
  report_task_rows :: "report_task tbl"
  retired_jobs :: "string list"

record new_report_job =
  nr_id :: string
  nr_investigation_id :: string
  nr_article_id :: string
  nr_mode :: string
  nr_revision :: int
  nr_settings_json :: string
  nr_budget_json :: string
  nr_sections_total :: int
  nr_elements_total :: int
  nr_tool_calls_allowance :: int
  nr_parent_job_id :: "string option"

section \<open>Jobs\<close>

definition insert_report_job :: "new_report_job \<Rightarrow> instant \<Rightarrow> (report_db, report_job) body" where
  "insert_report_job n now d =
     (case row (report_jobs d) (nr_id n) of Some _ \<Rightarrow> Inl already_exists
      | None \<Rightarrow> (let j = \<lparr>rj_investigation_id = nr_investigation_id n, rj_article_id = nr_article_id n,
            rj_mode = nr_mode n, rj_revision = nr_revision n, rj_state = ''queued'', rj_stage = ''planning'',
            rj_settings_json = nr_settings_json n, rj_budget_json = nr_budget_json n,
            rj_parent_job_id = nr_parent_job_id n, rj_sections_done = 0,
            rj_sections_total = nr_sections_total n, rj_elements_done = 0,
            rj_elements_total = nr_elements_total n, rj_tool_calls_done = 0,
            rj_tool_calls_allowance = nr_tool_calls_allowance n, rj_current_tool = [], rj_warning = [],
            rj_error = [], rj_generation = 1, rj_started_at = now, rj_updated_at = now,
            rj_finished_at = None\<rparr>
          in Inr (j, d\<lparr>report_jobs := put (nr_id n) j (report_jobs d)\<rparr>)))"

definition report_jobs_for_article :: "string \<Rightarrow> report_db \<Rightarrow> (string \<times> report_job) list" where
  "report_jobs_for_article a d = sort_key (\<lambda>(i, j). - rj_updated_at j)
     (filter (\<lambda>(i, j). rj_article_id j = a) (report_jobs d))"

definition next_job_revision :: "string \<Rightarrow> string \<Rightarrow> report_db \<Rightarrow> int" where
  "next_job_revision article mode d =
     (case sort_key (\<lambda>r. - r) (map (\<lambda>(i, j). rj_revision j)
        (filter (\<lambda>(i, j). rj_article_id j = article \<and> rj_mode j = mode) (report_jobs d))) of
        [] \<Rightarrow> 1 | r # _ \<Rightarrow> r + 1)"

definition report_terminal :: "string \<Rightarrow> bool" where
  "report_terminal s \<longleftrightarrow> s \<in> {''completed'', ''partial'', ''failed'', ''cancelled''}"

definition update_report_job ::
  "string \<Rightarrow> string \<Rightarrow> string \<Rightarrow> int \<Rightarrow> int \<Rightarrow> string \<Rightarrow> string \<Rightarrow> instant \<Rightarrow> report_db \<Rightarrow> report_db" where
  "update_report_job i state stage sections elements warning err now d =
     (if i \<in> set (retired_jobs d) then d
      else d\<lparr>report_jobs := update_one i (\<lambda>j. j\<lparr>rj_state := state, rj_stage := stage,
        rj_sections_done := sections, rj_elements_done := elements, rj_warning := warning,
        rj_error := err, rj_updated_at := now,
        rj_finished_at := (if report_terminal state then Some now else rj_finished_at j)\<rparr>) (report_jobs d)\<rparr>)"

section \<open>Tasks\<close>

definition insert_report_task ::
  "string \<Rightarrow> string \<Rightarrow> string \<Rightarrow> string \<Rightarrow> string \<Rightarrow> string \<Rightarrow> instant \<Rightarrow> (report_db, unit) body" where
  "insert_report_task i job ty section_key depends status now d =
     (case row (report_task_rows d) i of Some _ \<Rightarrow> Inl already_exists
      | None \<Rightarrow> Inr ((), d\<lparr>report_task_rows := put i \<lparr>rt_job = job, rt_type = ty,
          rt_section_key = section_key, rt_depends_on_json = depends, rt_input_hash = [],
          rt_status = status, rt_attempts = 0, rt_max_attempts = 3, rt_output_ref = [],
          rt_lease_owner = [], rt_lease_until = None, rt_lease_epoch = 0, rt_error = [],
          rt_created_at = now, rt_updated_at = now\<rparr> (report_task_rows d)\<rparr>))"

definition report_tasks :: "report_db \<Rightarrow> string \<Rightarrow> (string \<times> report_task) list" where
  "report_tasks d j = sort_key (\<lambda>(i, t). (rt_created_at t, i)) (filter (\<lambda>(i, t). rt_job t = j) (report_task_rows d))"

definition report_task_row :: "report_db \<Rightarrow> string \<Rightarrow> (string \<times> report_task) option" where
  "report_task_row d i = map_option (Pair i) (row (report_task_rows d) i)"

definition days :: "int \<Rightarrow> instant" where "days n = n * 86400000000000"
definition report_seconds :: "int \<Rightarrow> instant" where "report_seconds n = n * 1000000000"

text \<open>The first query of a claim: the job is live, inside the 72-hour window and not retired.\<close>

definition report_job_live :: "string \<Rightarrow> instant \<Rightarrow> report_db \<Rightarrow> bool" where
  "report_job_live j now d = (case row (report_jobs d) j of None \<Rightarrow> False
     | Some r \<Rightarrow> rj_state r \<notin> {''cancelled'', ''paused'', ''failed'', ''completed''}
         \<and> now - days 3 \<le> rj_started_at r \<and> j \<notin> set (retired_jobs d))"

text \<open>The guarded update: whether it hit, and the state after it.\<close>

definition lease_free :: "instant \<Rightarrow> report_task \<Rightarrow> bool" where
  "lease_free now t \<longleftrightarrow> rt_status t \<in> {''pending'', ''interrupted'', ''running''}
     \<and> (case rt_lease_until t of None \<Rightarrow> True | Some u \<Rightarrow> u < now)"

definition leased :: "string \<Rightarrow> instant \<Rightarrow> instant \<Rightarrow> report_task \<Rightarrow> report_task" where
  "leased owner until now t = t\<lparr>rt_status := ''running'', rt_lease_owner := owner,
     rt_lease_until := Some until, rt_lease_epoch := rt_lease_epoch t + 1,
     rt_attempts := rt_attempts t + 1, rt_updated_at := now\<rparr>"

definition take_lease :: "string \<Rightarrow> string \<Rightarrow> instant \<Rightarrow> instant \<Rightarrow> report_db \<Rightarrow> bool \<times> report_db" where
  "take_lease i owner until now d =
     (ids_where (\<lambda>k t. k = i \<and> lease_free now t) (report_task_rows d) \<noteq> [],
      d\<lparr>report_task_rows := update_where (\<lambda>k t. k = i \<and> lease_free now t) (leased owner until now) (report_task_rows d)\<rparr>)"

definition open_task :: "instant \<Rightarrow> report_task \<Rightarrow> bool" where
  "open_task now t =
     (if rt_status t \<in> {''pending'', ''interrupted''} then True
      else if rt_status t = ''running'' then (case rt_lease_until t of Some u \<Rightarrow> u \<le> now | None \<Rightarrow> False)
      else False)"

text \<open>
  \<open>parse_ids\<close> is \<open>serde_json::from_str\<close> of a list of texts; a text that does not parse names no
  dependency. \<open>net n\<close> is what other workers write before query \<open>n\<close> of this claim.
\<close>

definition deps_done :: "(string \<Rightarrow> string list option) \<Rightarrow> string list \<Rightarrow> report_task \<Rightarrow> bool" where
  "deps_done parse_ids completed t =
     list_all (\<lambda>i. i \<in> set completed) (case parse_ids (rt_depends_on_json t) of Some ids \<Rightarrow> ids | None \<Rightarrow> [])"

fun claim_scan ::
  "(string \<Rightarrow> string list option) \<Rightarrow> (nat \<Rightarrow> report_db \<Rightarrow> report_db) \<Rightarrow> string list \<Rightarrow> string \<Rightarrow> instant \<Rightarrow> instant
     \<Rightarrow> nat \<Rightarrow> (string \<times> report_task) list \<Rightarrow> report_db \<Rightarrow> (string \<times> report_task) option \<times> report_db" where
  "claim_scan parse net completed owner until now n [] d = (None, d)"
| "claim_scan parse net completed owner until now n ((i, t) # ts) d =
     (if \<not> open_task now t \<or> \<not> deps_done parse completed t
      then claim_scan parse net completed owner until now n ts d
      else case take_lease i owner until now (net n d) of
        (True, d1) \<Rightarrow> (let d2 = net (n + 1) d1 in (report_task_row d2 i, d2))
      | (False, d1) \<Rightarrow> claim_scan parse net completed owner until now (n + 1) ts d1)"

definition claim_report_task ::
  "(string \<Rightarrow> string list option) \<Rightarrow> (nat \<Rightarrow> report_db \<Rightarrow> report_db) \<Rightarrow> string \<Rightarrow> string \<Rightarrow> int \<Rightarrow> instant
     \<Rightarrow> report_db \<Rightarrow> (string \<times> report_task) option \<times> report_db" where
  "claim_report_task parse net j owner lease_secs now d =
     (let d0 = net 0 d in
      if \<not> report_job_live j now d0 then (None, d0)
      else
        let d1 = net 1 d0; ts = report_tasks d1 j;
            completed = map fst (filter (\<lambda>(i, t). rt_status t = ''completed'') ts)
        in claim_scan parse net completed owner (now + report_seconds lease_secs) now 2 ts d1)"

definition complete_report_task :: "string \<Rightarrow> string \<Rightarrow> instant \<Rightarrow> report_db \<Rightarrow> report_db" where
  "complete_report_task i out now d = d\<lparr>report_task_rows := update_one i (\<lambda>t. t\<lparr>rt_status := ''completed'',
     rt_output_ref := out, rt_lease_owner := [], rt_lease_until := None, rt_error := [],
     rt_updated_at := now\<rparr>) (report_task_rows d)\<rparr>"

definition fail_report_task :: "string \<Rightarrow> string \<Rightarrow> bool \<Rightarrow> instant \<Rightarrow> report_db \<Rightarrow> report_db" where
  "fail_report_task i err retryable now d = d\<lparr>report_task_rows := update_one i (\<lambda>t. t\<lparr>
     rt_status := (if retryable then ''pending'' else ''failed''), rt_error := err, rt_lease_owner := [],
     rt_lease_until := None, rt_updated_at := now\<rparr>) (report_task_rows d)\<rparr>"

definition interrupt_expired_report_leases :: "instant \<Rightarrow> report_db \<Rightarrow> nat \<times> report_db" where
  "interrupt_expired_report_leases now d =
     (let P = (\<lambda>i t. rt_status t = ''running'' \<and> (case rt_lease_until t of Some u \<Rightarrow> u < now | None \<Rightarrow> False))
      in (length (ids_where P (report_task_rows d)),
        d\<lparr>report_task_rows := update_where P (\<lambda>t. t\<lparr>rt_status := ''interrupted'', rt_lease_owner := [],
          rt_updated_at := now\<rparr>) (report_task_rows d)\<rparr>))"

section \<open>A claim on its own\<close>

lemma take_lease_row:
  assumes "keyed (report_task_rows d)" "row (report_task_rows d) i = Some t"
  shows "take_lease i owner until now d = (lease_free now t,
    if lease_free now t then d\<lparr>report_task_rows := update_one i (leased owner until now) (report_task_rows d)\<rparr> else d)"
proof (cases "lease_free now t")
  case True
  have "update_where (\<lambda>k t. k = i \<and> lease_free now t) (leased owner until now) (report_task_rows d)
      = update_one i (leased owner until now) (report_task_rows d)"
    unfolding update_where_def
    using True assms keyed_memD[OF assms(1)] by (auto intro!: map_cong)
  with True assms show ?thesis
    by (force simp: take_lease_def ids_where_def filter_empty_conv dest: map_of_SomeD)
next
  case False
  then have "\<not> (k = i \<and> lease_free now x)" if "(k, x) \<in> set (report_task_rows d)" for k x
    using that assms keyed_memD[OF assms(1)] by auto
  with False show ?thesis
    by (simp add: take_lease_def update_where_none) (auto simp: ids_where_def filter_empty_conv)
qed

lemma claim_scan_find:
  assumes "keyed (report_task_rows d)" "\<And>i t. (i, t) \<in> set ts \<Longrightarrow> row (report_task_rows d) i = Some t"
  shows "claim_scan parse (\<lambda>_ d. d) completed owner until now n ts d =
    (case find (\<lambda>(i, t). open_task now t \<and> deps_done parse completed t \<and> lease_free now t) ts of
       None \<Rightarrow> (None, d)
     | Some (i, t) \<Rightarrow> (Some (i, leased owner until now t),
         d\<lparr>report_task_rows := update_one i (leased owner until now) (report_task_rows d)\<rparr>))"
  using assms(2)
proof (induction ts arbitrary: n)
  case (Cons x ts)
  obtain i t where x: "x = (i, t)" by (cases x)
  have r: "row (report_task_rows d) i = Some t" using Cons.prems x by simp
  have ih: "claim_scan parse (\<lambda>_ d. d) completed owner until now m ts d =
    (case find (\<lambda>(i, t). open_task now t \<and> deps_done parse completed t \<and> lease_free now t) ts of
       None \<Rightarrow> (None, d)
     | Some (i, t) \<Rightarrow> (Some (i, leased owner until now t),
         d\<lparr>report_task_rows := update_one i (leased owner until now) (report_task_rows d)\<rparr>))" for m
    using Cons.IH Cons.prems by simp
  show ?case
    using take_lease_row[OF assms(1) r, of owner until now] r
    by (auto simp: x ih report_task_row_def)
qed simp

text \<open>A claim that no other worker interferes with leases exactly the first task, in creation order,
  that is open, whose named dependencies are all completed tasks of the job and whose lease is free,
  and nothing else is written; it leases nothing when the job is missing, ended, paused, retired or
  older than 72 hours, or when no such task exists.\<close>

lemma report_claim_exact:
  assumes "keyed (report_task_rows d)"
  shows "claim_report_task parse (\<lambda>_ d. d) j owner lease_secs now d =
    (if \<not> report_job_live j now d then (None, d)
     else case find (\<lambda>(i, t). open_task now t \<and> lease_free now t \<and> deps_done parse
           (map fst (filter (\<lambda>(i, t). rt_status t = ''completed'') (report_tasks d j))) t) (report_tasks d j) of
       None \<Rightarrow> (None, d)
     | Some (i, t) \<Rightarrow> (Some (i, leased owner (now + report_seconds lease_secs) now t),
         d\<lparr>report_task_rows := update_one i (leased owner (now + report_seconds lease_secs) now) (report_task_rows d)\<rparr>))"
proof -
  have mem: "row (report_task_rows d) i = Some t" if "(i, t) \<in> set (report_tasks d j)" for i t
    using that keyed_memD[OF assms] by (simp add: report_tasks_def)
  show ?thesis
    using claim_scan_find[OF assms mem, of "report_tasks d j" parse _ owner _ now 2]
    by (simp add: claim_report_task_def Let_def conj_commute conj_left_commute cong: conj_cong)
qed

section \<open>Workers in any order\<close>

text \<open>One step is one query of a writer.\<close>

inductive report_step :: "report_db \<Rightarrow> report_db \<Rightarrow> bool" where
  rs_job: "insert_report_job n now d = Inr (j, d') \<Longrightarrow> report_step d d'"
| rs_update: "report_step d (update_report_job i st stage sd ed w e now d)"
| rs_task: "insert_report_task i job ty sk deps st now d = Inr (u, d') \<Longrightarrow> report_step d d'"
| rs_lease: "take_lease i owner until now d = (b, d') \<Longrightarrow> report_step d d'"
| rs_complete: "report_step d (complete_report_task i out now d)"
| rs_fail: "report_step d (fail_report_task i err retryable now d)"
| rs_interrupt: "interrupt_expired_report_leases now d = (n, d') \<Longrightarrow> report_step d d'"

lemma claim_scan_run:
  assumes "\<And>n x. run_of report_step x (net n x)"
  shows "run_of report_step d (snd (claim_scan parse net completed owner until now n ts d))"
proof (induction ts arbitrary: n d)
  case (Cons x ts)
  obtain i t where x: "x = (i, t)" by (cases x)
  obtain b d1 where t: "take_lease i owner until now (net n d) = (b, d1)" by (cases "take_lease i owner until now (net n d)")
  have run: "run_of report_step d d1"
    by (rule run_of.run_step[OF assms rs_lease[OF t]])
  show ?case
    using Cons.IH[of d n] run_trans[OF Cons.IH[of d1 "n + 1"] run] run_trans[OF assms[where x = d1 and n = "n + 1"] run]
    by (cases b) (simp_all add: x t Let_def)
qed (auto intro: run_of.run_refl)

text \<open>A whole claim is a run of such steps, when what interferes with it is.\<close>

lemma claim_report_run:
  assumes "\<And>n x. run_of report_step x (net n x)"
  shows "run_of report_step d (snd (claim_report_task parse net j owner lease_secs now d))"
proof -
  have r: "run_of report_step d (net 0 d)" "run_of report_step (net 0 d) (net 1 (net 0 d))" by (rule assms)+
  show ?thesis
    using r(1) run_trans[OF claim_scan_run[OF assms] run_trans[OF r(2,1)]]
    by (simp add: claim_report_task_def Let_def)
qed

lemma report_step_fence:
  assumes "report_step d d'" "row (report_task_rows d) i = Some t" "row (report_task_rows d') i = Some t'"
  shows "rt_lease_epoch t \<le> rt_lease_epoch t' \<and> (rt_status t' = ''running'' \<longrightarrow> rt_lease_epoch t < rt_lease_epoch t'
    \<or> rt_status t = ''running'' \<and> rt_lease_owner t' = rt_lease_owner t \<and> rt_lease_epoch t' = rt_lease_epoch t)"
  using assms
  by cases (auto simp: insert_report_job_def update_report_job_def insert_report_task_def take_lease_def leased_def
      complete_report_task_def fail_report_task_def interrupt_expired_report_leases_def Let_def
      split: option.splits if_splits)

interpretation report_fence: epoch_fence report_step "\<lambda>d. row (report_task_rows d) i" rt_lease_epoch
    "\<lambda>t. rt_status t = ''running''" rt_lease_owner
  by unfold_locales (rule report_step_fence)

lemma take_lease_hit:
  assumes "keyed (report_task_rows d)" "take_lease i owner until now d = (True, d')"
  obtains t where "row (report_task_rows d) i = Some t" "lease_free now t"
    "row (report_task_rows d') i = Some (leased owner until now t)"
proof -
  from assms(2) obtain t where "(i, t) \<in> set (report_task_rows d)" "lease_free now t"
    by (auto simp: take_lease_def ids_where_def filter_empty_conv)
  with keyed_memD[OF assms(1)] take_lease_row[OF assms(1), of i t owner until now] assms(2) show thesis
    by (intro that[of t]) auto
qed

lemma report_run_one: "report_step d d' \<Longrightarrow> run_of report_step d d'"
  by (blast intro: run_of.run_step run_of.run_refl)

lemma report_run_keyed: "run_of report_step d d' \<Longrightarrow> keyed (report_task_rows d) \<Longrightarrow> keyed (report_task_rows d')"
proof (induction rule: run_of.induct)
  case (run_step s t u)
  from run_step.hyps(2) run_step.IH[OF run_step.prems] show ?case
    by (cases rule: report_step.cases)
      (auto simp: insert_report_job_def update_report_job_def insert_report_task_def take_lease_def
        complete_report_task_def fail_report_task_def interrupt_expired_report_leases_def Let_def
        split: option.splits if_splits)
qed

text \<open>
  What all writers may do while the lease of task \<open>i\<close> lasts until \<open>B\<close>: claims and sweeps whose clock is not
  past \<open>B\<close>, anything with the jobs, and any writes to other tasks. The only thing left out is finishing the
  task itself.
\<close>

inductive before_end :: "string \<Rightarrow> instant \<Rightarrow> report_db \<Rightarrow> report_db \<Rightarrow> bool" for i B where
  be_job: "insert_report_job n now d = Inr (j, d') \<Longrightarrow> before_end i B d d'"
| be_update: "before_end i B d (update_report_job k st stage sd ed w e now d)"
| be_task: "insert_report_task k job ty sk deps st now d = Inr (u, d') \<Longrightarrow> before_end i B d d'"
| be_lease: "take_lease k owner until now d = (b, d') \<Longrightarrow> now \<le> B \<Longrightarrow> before_end i B d d'"
| be_complete: "k \<noteq> i \<Longrightarrow> before_end i B d (complete_report_task k out now d)"
| be_fail: "k \<noteq> i \<Longrightarrow> before_end i B d (fail_report_task k err retryable now d)"
| be_interrupt: "interrupt_expired_report_leases now d = (n, d') \<Longrightarrow> now \<le> B \<Longrightarrow> before_end i B d d'"

lemma before_end_step: "before_end i B d d' \<Longrightarrow> report_step d d'"
  by (induction rule: before_end.induct) (auto intro: report_step.intros)

lemma before_end_row:
  assumes "before_end i B d d'" "row (report_task_rows d) i = Some t" "rt_status t = ''running''" "rt_lease_until t = Some B"
  shows "row (report_task_rows d') i = Some t"
  using assms
  by cases (auto simp: insert_report_job_def update_report_job_def insert_report_task_def take_lease_def lease_free_def
      complete_report_task_def fail_report_task_def interrupt_expired_report_leases_def Let_def
      split: option.splits if_splits)

lemma before_end_run_row:
  assumes "run_of (before_end i B) d d'" "row (report_task_rows d) i = Some t" "rt_status t = ''running''" "rt_lease_until t = Some B"
  shows "row (report_task_rows d') i = Some t"
  using assms by (induction rule: run_of.induct) (auto intro: before_end_row)

lemma claim_scan_skips:
  assumes net: "\<And>n x. run_of (before_end i B) x (net n x)" and t: "rt_status t = ''running''" "rt_lease_until t = Some B" and "now \<le> B"
    and "keyed (report_task_rows d)" "row (report_task_rows d) i = Some t"
    and "claim_scan parse net completed owner until now n ts d = (Some x, d')"
  shows "fst x \<noteq> i"
  using assms(5-)
proof (induction ts arbitrary: n d)
  case (Cons y ts)
  obtain k r where y: "y = (k, r)" by (cases y)
  have row: "row (report_task_rows (net n d)) i = Some t" by (rule before_end_run_row[OF net Cons.prems(2) t])
  have runs: "run_of report_step d (net n d)" by (rule run_of_mono[OF _ net]) (rule before_end_step)
  have keyed: "keyed (report_task_rows (net n d))" by (rule report_run_keyed[OF runs Cons.prems(1)])
  obtain b d1 where l: "take_lease k owner until now (net n d) = (b, d1)" by (metis prod.exhaust)
  have row1: "row (report_task_rows d1) i = Some t" by (rule before_end_row[OF be_lease[OF l assms(4)] row t])
  have keyed1: "keyed (report_task_rows d1)"
    by (rule report_run_keyed[OF report_run_one[OF rs_lease[OF l]] keyed])
  have other: "k \<noteq> i" if "b"
  proof
    assume "k = i"
    with take_lease_row[OF keyed row, of owner until now] l that have "lease_free now t" by simp
    with t assms(4) show False by (simp add: lease_free_def)
  qed
  show ?case
  proof (cases "\<not> open_task now r \<or> \<not> deps_done parse completed r")
    case True
    with Cons.prems(3) y have "claim_scan parse net completed owner until now n ts d = (Some x, d')" by auto
    from Cons.IH[OF Cons.prems(1,2) this] show ?thesis .
  next
    case open_here: False
    show ?thesis
    proof (cases b)
      case True
      with open_here Cons.prems(3) y l have "report_task_row (net (n + 1) d1) k = Some x" by (auto simp: Let_def)
      then have "fst x = k" by (auto simp: report_task_row_def)
      with other[OF True] show ?thesis by simp
    next
      case False
      with open_here Cons.prems(3) y l have "claim_scan parse net completed owner until now (n + 1) ts d1 = (Some x, d')" by simp
      from Cons.IH[OF keyed1 row1 this] show ?thesis .
    qed
  qed
qed simp

lemma claim_report_skips:
  assumes net: "\<And>n x. run_of (before_end i B) x (net n x)" and t: "rt_status t = ''running''" "rt_lease_until t = Some B" and "now \<le> B"
    and d: "keyed (report_task_rows d)" "row (report_task_rows d) i = Some t"
    and c: "claim_report_task parse net j owner secs now d = (Some x, d')"
  shows "fst x \<noteq> i"
proof -
  have n: "run_of (before_end i B) d (net 1 (net 0 d))" by (rule run_trans[OF net net])
  have r: "run_of report_step d (net 1 (net 0 d))" by (rule run_of_mono[OF _ n]) (rule before_end_step)
  from claim_scan_skips[OF net t assms(4) report_run_keyed[OF r d(1)] before_end_run_row[OF n d(2) t]] c show ?thesis
    by (auto simp: claim_report_task_def Let_def split: if_splits)
qed

text \<open>C17: the lease of a report task excludes other workers until it runs out. After a worker took it, whatever
  all workers write with clocks not past its end, short of finishing the task, the row of the task stays
  exactly as the lease left it; taking it again is refused up to the end of the lease and possible after it;
  and a whole claim by anyone at a time not past the end, with any such writes between its queries, never
  returns the task. (Finishing is not tied to the lease: \<open>late_completion_closes\<close>.)\<close>

theorem report_lease_excludes:
  assumes "keyed (report_task_rows d0)" and "take_lease i o1 until1 now1 d0 = (True, d)" and "run_of (before_end i until1) d d'"
  shows "\<exists>t. row (report_task_rows d) i = Some t \<and> rt_status t = ''running'' \<and> rt_lease_owner t = o1 \<and> rt_lease_until t = Some until1
    \<and> row (report_task_rows d') i = Some t
    \<and> (\<forall>o2 until2 now2. take_lease i o2 until2 now2 d' = (if until1 < now2
         then (True, d'\<lparr>report_task_rows := update_one i (leased o2 until2 now2) (report_task_rows d')\<rparr>) else (False, d')))
    \<and> (\<forall>net parse j o2 secs now2 x d2. now2 \<le> until1 \<longrightarrow> (\<forall>n y. run_of (before_end i until1) y (net n y))
         \<longrightarrow> claim_report_task parse net j o2 secs now2 d' = (Some x, d2) \<longrightarrow> fst x \<noteq> i)"
proof -
  obtain t0 where "row (report_task_rows d) i = Some (leased o1 until1 now1 t0)"
    by (rule take_lease_hit[OF assms(1,2)])
  moreover define t where "t = leased o1 until1 now1 t0"
  ultimately have t: "row (report_task_rows d) i = Some t" "rt_status t = ''running''" "rt_lease_owner t = o1" "rt_lease_until t = Some until1"
    by (simp_all add: leased_def)
  have row: "row (report_task_rows d') i = Some t" by (rule before_end_run_row[OF assms(3) t(1,2,4)])
  have "run_of report_step d d'" by (rule run_of_mono[OF _ assms(3)]) (rule before_end_step)
  then have keyed: "keyed (report_task_rows d')"
    by (rule report_run_keyed[OF _ report_run_keyed[OF report_run_one[OF rs_lease[OF assms(2)]] assms(1)]])
  have again: "take_lease i o2 until2 now2 d' = (if until1 < now2
      then (True, d'\<lparr>report_task_rows := update_one i (leased o2 until2 now2) (report_task_rows d')\<rparr>) else (False, d'))" for o2 until2 now2
    using take_lease_row[OF keyed row, of o2 until2 now2] t by (auto simp: lease_free_def)
  have never: "fst x \<noteq> i" if "now2 \<le> until1" "\<forall>n y. run_of (before_end i until1) y (net n y)"
    "claim_report_task parse net j o2 secs now2 d' = (Some x, d2)" for net parse j o2 secs now2 x d2
    using claim_report_skips[OF _ t(2,4) that(1) keyed row that(3)] that(2) by blast
  show ?thesis
    by (intro exI[of _ t] conjI allI impI t row again) (erule never, assumption+)
qed

section \<open>Concrete runs\<close>

definition demo_report_task :: "string \<Rightarrow> string \<Rightarrow> report_task" where
  "demo_report_task deps status = \<lparr>rt_job = ''j'', rt_type = ''section'', rt_section_key = [],
     rt_depends_on_json = deps, rt_input_hash = [], rt_status = status, rt_attempts = 0, rt_max_attempts = 3,
     rt_output_ref = [], rt_lease_owner = [], rt_lease_until = None, rt_lease_epoch = 0, rt_error = [],
     rt_created_at = 1, rt_updated_at = 1\<rparr>"

definition demo_report_job :: report_job where
  "demo_report_job = \<lparr>rj_investigation_id = ''inv'', rj_article_id = ''art'', rj_mode = ''full'', rj_revision = 1,
     rj_state = ''queued'', rj_stage = ''planning'', rj_settings_json = ''{}'', rj_budget_json = ''{}'',
     rj_parent_job_id = None, rj_sections_done = 0, rj_sections_total = 2, rj_elements_done = 0,
     rj_elements_total = 0, rj_tool_calls_done = 0, rj_tool_calls_allowance = 0, rj_current_tool = [],
     rj_warning = [], rj_error = [], rj_generation = 1, rj_started_at = 1, rj_updated_at = 1,
     rj_finished_at = None\<rparr>"

text \<open>\<open>b\<close> waits for \<open>a\<close>; \<open>demo_parse\<close> reads the two dependency texts of the example.\<close>

definition demo_report_db :: "string \<Rightarrow> report_db" where
  "demo_report_db status = \<lparr>report_jobs = [(''j'', demo_report_job)],
     report_task_rows = [(''a'', demo_report_task ''[]'' status), (''b'', demo_report_task ''[a]'' ''pending'')],
     retired_jobs = []\<rparr>"

definition demo_parse :: "string \<Rightarrow> string list option" where
  "demo_parse s = (if s = ''[]'' then Some [] else if s = ''[a]'' then Some [''a''] else None)"

lemmas demo_report_defs = demo_report_db_def demo_report_task_def demo_report_job_def demo_parse_def

lemma demo_report_keyed: "keyed (report_task_rows (demo_report_db s))"
  by (simp add: demo_report_db_def keyed_def)

lemma demo_report_order:
  "report_tasks (demo_report_db s) ''j'' = [(''a'', demo_report_task ''[]'' s), (''b'', demo_report_task ''[a]'' ''pending'')]"
  by (simp add: report_tasks_def demo_report_db_def demo_report_task_def less_eq_char_def)

text \<open>While \<open>a\<close> is open it is the task leased; once it is completed the claim leases \<open>b\<close>.\<close>

theorem report_claim_exact_witness:
  "map_option fst (fst (claim_report_task demo_parse (\<lambda>_ d. d) ''j'' ''w'' 60 5 (demo_report_db ''pending''))) = Some ''a''
   \<and> map_option fst (fst (claim_report_task demo_parse (\<lambda>_ d. d) ''j'' ''w'' 60 5 (demo_report_db ''completed''))) = Some ''b''
   \<and> fst (claim_report_task demo_parse (\<lambda>_ d. d) ''k'' ''w'' 60 5 (demo_report_db ''pending'')) = None"
  unfolding report_claim_exact[OF demo_report_keyed] demo_report_order
  by (simp add: report_job_live_def open_task_def lease_free_def deps_done_def demo_report_defs days_def)

definition demo_leased :: report_db where
  "demo_leased = snd (take_lease ''a'' ''w'' 10 5 (demo_report_db ''pending''))"

definition demo_retaken :: report_db where
  "demo_retaken = snd (take_lease ''a'' ''v'' 30 20 demo_leased)"

lemmas demo_lease_defs = demo_leased_def demo_retaken_def take_lease_def lease_free_def leased_def ids_where_def
  update_where_def demo_report_defs

lemma demo_leased_hit: "take_lease ''a'' ''w'' 10 5 (demo_report_db ''pending'') = (True, demo_leased)"
  by (simp add: demo_lease_defs)

lemma demo_retaken_hit: "take_lease ''a'' ''v'' 30 20 demo_leased = (True, demo_retaken)"
  by (simp add: demo_lease_defs)

text \<open>
  \<open>w\<close> leased \<open>a\<close> until 10: a sweep at 10 leaves it leased, the claim of \<open>v\<close> at 10 returns nothing, and the one
  at 11 takes it.
\<close>

theorem report_lease_excludes_witness:
  "take_lease ''a'' ''v'' 30 10 (snd (interrupt_expired_report_leases 10 demo_leased))
     = (False, snd (interrupt_expired_report_leases 10 demo_leased))
   \<and> fst (take_lease ''a'' ''v'' 30 11 (snd (interrupt_expired_report_leases 10 demo_leased)))"
proof -
  have "run_of (before_end ''a'' 10) demo_leased (snd (interrupt_expired_report_leases 10 demo_leased))"
    by (rule run_of.run_step[OF run_of.run_refl]) (rule be_interrupt[OF surjective_pairing], simp)
  from report_lease_excludes[OF demo_report_keyed demo_leased_hit this] show ?thesis by auto
qed

section \<open>What the lease does not protect\<close>

text \<open>
  Finishing a task does not name the lease: \<open>w\<close> lost the task to \<open>v\<close>, and its late completion still
  closes the task and ends the lease of \<open>v\<close>.
\<close>

lemma late_completion_closes:
  "report_fence.held ''a'' demo_retaken ''v'' 2 \<and> \<not> report_fence.held ''a'' demo_retaken ''w'' 1
   \<and> (let d = complete_report_task ''a'' ''stale'' 25 demo_retaken in
        map_option rt_status (row (report_task_rows d) ''a'') = Some ''completed''
      \<and> map_option rt_output_ref (row (report_task_rows d) ''a'') = Some ''stale''
      \<and> \<not> report_fence.held ''a'' d ''v'' 2)"
  by (simp add: report_fence.held_def complete_report_task_def demo_lease_defs)

text \<open>
  The check of the job is a query of its own, before the guarded update: a job cancelled in between
  still gets its task leased.
\<close>

lemma cancelled_job_leased:
  "let net = (\<lambda>n d. if n = 1 then update_report_job ''j'' ''cancelled'' ''done'' 0 0 [] [] 5 d else d);
       r = claim_report_task demo_parse net ''j'' ''w'' 60 5 (demo_report_db ''pending'')
   in map_option fst (fst r) = Some ''a'' \<and> map_option rj_state (row (report_jobs (snd r)) ''j'') = Some ''cancelled''"
  by (simp add: claim_report_task_def report_job_live_def report_tasks_def open_task_def deps_done_def
      update_report_job_def report_terminal_def report_task_row_def demo_lease_defs days_def less_eq_char_def)

text \<open>A retryable failure is claimed again however many attempts it has: \<open>max_attempts\<close> is not read.\<close>

lemma exhausted_task_leased:
  assumes "rt_status t = ''pending''" "rt_lease_until t = None"
  shows "open_task now t \<and> lease_free now t
    \<and> rt_attempts (leased owner until now t) = rt_attempts t + 1 \<and> rt_max_attempts (leased owner until now t) = rt_max_attempts t"
  using assms by (simp add: open_task_def lease_free_def leased_def)

end
