(* ===== verification/File_Ops.thy ===== *)
theory File_Ops
  imports Prelude
begin

text \<open>
  Programs over files, as \<open>config_commit.rs\<close> writes them. A program is a sequence of file-system
  operations; the \<open>machine\<close> says of each, by its position, whether it works, fails with an I/O error,
  or is never finished because the process dies there. The second part says which files a program
  touches, that only the plan of its own operations matters, and where it can die. Directories, file
  modes and fsync do not show in the state; paths are compared as texts.
\<close>

section \<open>The file system\<close>

datatype path = Path "string option" string

fun parent_of :: "path \<Rightarrow> string" where
  "parent_of (Path (Some d) n) = (if d = [] then ''.'' else d)"
| "parent_of (Path None n) = ''.''"

fun file_name :: "path \<Rightarrow> string" where "file_name (Path p n) = n"
fun has_parent :: "path \<Rightarrow> bool" where "has_parent (Path p n) \<longleftrightarrow> p \<noteq> None"

record lock_owner =
  lo_pid :: nat
  lo_holder :: nat
  lo_heartbeat_at :: string

record journal_entry =
  je_slot :: string
  je_path :: path
  je_staged :: path
  je_backup :: path
  je_done :: bool

record commit_journal =
  cj_generation :: nat
  cj_state :: string
  cj_started_at :: string
  cj_finished_at :: "string option"
  cj_error :: "string option"
  cj_files :: "journal_entry list"

text \<open>
  What a file holds: a whole body, a journal or lock text (read back as what was written), or the
  empty or half-written state between the creation of a file and the end of its write.
\<close>

datatype content = Body string | Journal commit_journal | Lock lock_owner | Partial

type_synonym disk = "path \<Rightarrow> content option"

text \<open>The disk, the operations performed, and the statics of the process.\<close>

record world =
  files :: disk
  ops :: nat
  generation_now :: nat
  reload_epoch :: nat

datatype fault = Works | Fails | Dies
datatype io_error = Already_Exists | Not_Found | Io | Invalid string
datatype 'a io = Done 'a | Failed io_error | Died

text \<open>\<open>temp_name\<close> is the unique part of a temporary name, \<open>clock\<close> the text of the current instant and
  \<open>error_line\<close> the bounded single line of an error.\<close>

record machine =
  plan :: "nat \<Rightarrow> fault"
  clock :: "nat \<Rightarrow> string"
  temp_name :: "nat \<Rightarrow> string"
  error_line :: "io_error \<Rightarrow> string"

type_synonym 'a prog = "machine \<Rightarrow> world \<Rightarrow> 'a io \<times> world"

definition pure :: "'a \<Rightarrow> 'a prog" where "pure x M w = (Done x, w)"
definition failing :: "io_error \<Rightarrow> 'a prog" where "failing e M w = (Failed e, w)"

definition andThen :: "'a prog \<Rightarrow> ('a \<Rightarrow> 'b prog) \<Rightarrow> 'b prog" where
  "andThen p q M w = (case p M w of (Done x, w') \<Rightarrow> q x M w' | (Failed e, w') \<Rightarrow> (Failed e, w') | (Died, w') \<Rightarrow> (Died, w'))"

definition onError :: "'a prog \<Rightarrow> (io_error \<Rightarrow> 'a prog) \<Rightarrow> 'a prog" where
  "onError p h M w = (case p M w of (Failed e, w') \<Rightarrow> h e M w' | r \<Rightarrow> r)"

definition quietly :: "'a prog \<Rightarrow> unit prog" where
  "quietly p = onError (andThen p (\<lambda>_. pure ())) (\<lambda>_. pure ())"

definition reading :: "(world \<Rightarrow> 'a) \<Rightarrow> 'a prog" where "reading f M w = (Done (f w), w)"

definition fs_op :: "(disk \<Rightarrow> io_error + disk) \<Rightarrow> unit prog" where
  "fs_op act M w = (let w1 = w\<lparr>ops := ops w + 1\<rparr> in
     case plan M (ops w) of Dies \<Rightarrow> (Died, w1) | Fails \<Rightarrow> (Failed Io, w1)
     | Works \<Rightarrow> (case act (files w) of Inl e \<Rightarrow> (Failed e, w1) | Inr d \<Rightarrow> (Done (), w1\<lparr>files := d\<rparr>)))"

definition create_dir_all :: "unit prog" where "create_dir_all = fs_op Inr"

definition open_created :: "path \<Rightarrow> unit prog" where
  "open_created p = fs_op (\<lambda>d. if d p \<noteq> None then Inl Already_Exists else Inr (d(p \<mapsto> Partial)))"

definition persist_body :: "path \<Rightarrow> content \<Rightarrow> unit prog" where
  "persist_body p c = fs_op (\<lambda>d. Inr (d(p \<mapsto> c)))"

definition remove_file :: "path \<Rightarrow> unit prog" where
  "remove_file p = fs_op (\<lambda>d. if d p = None then Inl Not_Found else Inr (d(p := None)))"

definition rename :: "path \<Rightarrow> path \<Rightarrow> unit prog" where
  "rename a b = fs_op (\<lambda>d. case d a of None \<Rightarrow> Inl Not_Found | Some c \<Rightarrow> Inr (d(a := None, b \<mapsto> c)))"

text \<open>\<open>fs::copy\<close> truncates or creates the destination, then fills it.\<close>

definition copy :: "path \<Rightarrow> path \<Rightarrow> unit prog" where
  "copy a b = andThen (fs_op (\<lambda>d. if d a = None then Inl Not_Found else Inr (d(b \<mapsto> Partial))))
     (\<lambda>_. fs_op (\<lambda>d. Inr (d(b := d a))))"

definition remove_quietly :: "path \<Rightarrow> unit prog" where "remove_quietly p = quietly (remove_file p)"

definition exists :: "path \<Rightarrow> bool prog" where "exists p = reading (\<lambda>w. files w p \<noteq> None)"

section \<open>Names\<close>

definition JOURNAL_NAME :: string where "JOURNAL_NAME = ''.argos-config-journal.json''"
definition LOCK_NAME :: string where "LOCK_NAME = ''.argos-config.lock''"
definition TEMP_PREFIX :: string where "TEMP_PREFIX = ''.argos-tmp-''"

definition sibling_with_suffix :: "path \<Rightarrow> string \<Rightarrow> path" where
  "sibling_with_suffix t suffix = Path (Some (parent_of t)) (file_name t @ ''.'' @ suffix)"

definition staged_path :: "path \<Rightarrow> nat \<Rightarrow> path" where
  "staged_path t g = sibling_with_suffix t (nat_str g @ ''.staged'')"

definition backup_path :: "path \<Rightarrow> nat \<Rightarrow> path" where
  "backup_path t g = sibling_with_suffix t (nat_str g @ ''.bak'')"

definition journal_path :: "string \<Rightarrow> path" where "journal_path root = Path (Some root) JOURNAL_NAME"

section \<open>Secure writes\<close>

text \<open>The temporary sibling: at most 32 names are tried.\<close>

fun create_sibling :: "nat \<Rightarrow> string \<Rightarrow> path prog" where
  "create_sibling 0 dir M w = (Failed Already_Exists, w)"
| "create_sibling (Suc n) dir M w =
     (let p = Path (Some dir) (TEMP_PREFIX @ temp_name M (ops w)) in
      case open_created p M w of
        (Done u, w') \<Rightarrow> (Done p, w')
      | (Failed e, w') \<Rightarrow> if e = Already_Exists then create_sibling n dir M w' else (Failed e, w')
      | (Died, w') \<Rightarrow> (Died, w'))"

definition write_secure :: "path \<Rightarrow> content \<Rightarrow> unit prog" where
  "write_secure p c = andThen create_dir_all (\<lambda>_. andThen (create_sibling 32 (parent_of p)) (\<lambda>temp.
     andThen (onError (persist_body temp c) (\<lambda>e. andThen (remove_quietly temp) (\<lambda>_. failing e)))
       (\<lambda>_. rename temp p)))"

section \<open>Which files a program touches\<close>

text \<open>
  Whatever happens, \<open>p\<close> changes no file outside \<open>X\<close> and no static of the process, the operations it
  performed are counted, only what the plan says of those matters, and the process dies only in one of
  them.
\<close>

definition within :: "path set \<Rightarrow> world \<Rightarrow> world \<Rightarrow> bool" where
  "within X w w' \<longleftrightarrow> (\<forall>q. q \<notin> X \<longrightarrow> files w' q = files w q) \<and> generation_now w' = generation_now w
     \<and> reload_epoch w' = reload_epoch w \<and> ops w \<le> ops w'"

definition touches :: "path set \<Rightarrow> 'a prog \<Rightarrow> bool" where
  "touches X p \<longleftrightarrow> (\<forall>M w r w'. p M w = (r, w') \<longrightarrow> within X w w' \<and>
     (r = Died \<longrightarrow> (\<exists>m. ops w \<le> m \<and> m < ops w' \<and> plan M m = Dies)) \<and>
     (\<forall>pl. (\<forall>m. ops w \<le> m \<longrightarrow> m < ops w' \<longrightarrow> pl m = plan M m) \<longrightarrow> p (M\<lparr>plan := pl\<rparr>) w = (r, w')))"

lemma within_refl [simp]: "within X w w" by (simp add: within_def)
lemma within_trans: "within X u v \<Longrightarrow> within X v w \<Longrightarrow> within X u w" by (simp add: within_def)
lemma within_mono: "within X v w \<Longrightarrow> X \<subseteq> Y \<Longrightarrow> within Y v w" by (auto simp: within_def)
lemma within_file: "within X v w \<Longrightarrow> q \<notin> X \<Longrightarrow> files w q = files v q" by (simp add: within_def)

definition temps :: "path set" where "temps = {Path (Some d) (TEMP_PREFIX @ x) | d x. True}"

named_theorems touching

lemma touchesD: "touches X p \<Longrightarrow> p M w = (r, w') \<Longrightarrow> within X w w'"
  by (auto simp: touches_def)

lemma touches_ops: "touches X p \<Longrightarrow> p M w = (r, w') \<Longrightarrow> ops w \<le> ops w'"
  using touchesD[of X p M w r w'] by (simp add: within_def)

lemma touches_plan:
  "touches X p \<Longrightarrow> p M w = (r, w') \<Longrightarrow> (\<And>m. ops w \<le> m \<Longrightarrow> m < ops w' \<Longrightarrow> pl m = plan M m) \<Longrightarrow>
     p (M\<lparr>plan := pl\<rparr>) w = (r, w')"
  by (auto simp: touches_def)

lemma touches_died: "touches X p \<Longrightarrow> p M w = (Died, w') \<Longrightarrow> \<exists>m. ops w \<le> m \<and> m < ops w' \<and> plan M m = Dies"
  by (auto simp: touches_def)

lemma touchesI:
  assumes "\<And>M w r w'. p M w = (r, w') \<Longrightarrow> within X w w'"
    and "\<And>M w w'. p M w = (Died, w') \<Longrightarrow> \<exists>m. ops w \<le> m \<and> m < ops w' \<and> plan M m = Dies"
    and "\<And>M w r w' pl. p M w = (r, w') \<Longrightarrow> (\<And>m. ops w \<le> m \<Longrightarrow> m < ops w' \<Longrightarrow> pl m = plan M m) \<Longrightarrow>
      p (M\<lparr>plan := pl\<rparr>) w = (r, w')"
  shows "touches X p"
  unfolding touches_def using assms by blast

text \<open>The results of the combinators, case by case.\<close>

lemma andThenE:
  assumes "andThen p q M w = (r, w')"
  obtains x w1 where "p M w = (Done x, w1)" "q x M w1 = (r, w')"
  | e where "p M w = (Failed e, w')" "r = Failed e"
  | "p M w = (Died, w')" "r = Died"
  using assms by (auto simp: andThen_def split: prod.splits io.splits)

lemma onErrorE:
  assumes "onError p h M w = (r, w')"
  obtains e w1 where "p M w = (Failed e, w1)" "h e M w1 = (r, w')"
  | "p M w = (r, w')" "\<And>e. r \<noteq> Failed e"
  using assms by (auto simp: onError_def split: prod.splits io.splits)

lemma touches_mono: "touches X p \<Longrightarrow> X \<subseteq> Y \<Longrightarrow> touches Y p"
  unfolding touches_def by (blast intro: within_mono)

lemma touches_pure [touching]: "touches X (pure x)" by (simp add: touches_def pure_def)
lemma touches_failing [touching]: "touches X (failing e)" by (simp add: touches_def failing_def)
lemma touches_reading [touching]: "touches X (reading f)" by (simp add: touches_def reading_def)
lemma touches_exists [touching]: "touches X (exists p)" by (simp add: exists_def touches_reading)

lemma touches_andThen_done:
  assumes p: "touches X p" and q: "\<And>x M w w1. p M w = (Done x, w1) \<Longrightarrow> touches X (q x)"
  shows "touches X (andThen p q)"
proof (rule touchesI)
  fix M w r w' assume "andThen p q M w = (r, w')"
  then show "within X w w'"
  proof (cases rule: andThenE)
    case (1 x w1)
    with q[OF 1(1)] p show ?thesis by (blast intro: within_trans touchesD)
  qed (auto intro: touchesD[OF p])
next
  fix M w w' assume "andThen p q M w = (Died, w')"
  then show "\<exists>m. ops w \<le> m \<and> m < ops w' \<and> plan M m = Dies"
  proof (cases rule: andThenE)
    case (1 x w1)
    from touches_died[OF q[OF 1(1)] 1(2)] touches_ops[OF p 1(1)] show ?thesis by (meson order_trans)
  qed (auto dest: touches_died[OF p])
next
  fix M w r w' pl
  assume run: "andThen p q M w = (r, w')" and pl: "\<And>m. ops w \<le> m \<Longrightarrow> m < ops w' \<Longrightarrow> pl m = plan M m"
  from run show "andThen p q (M\<lparr>plan := pl\<rparr>) w = (r, w')"
  proof (cases rule: andThenE)
    case (1 x w1)
    have o: "ops w \<le> ops w1" "ops w1 \<le> ops w'" using touches_ops[OF p 1(1)] touches_ops[OF q[OF 1(1)] 1(2)] .
    have "p (M\<lparr>plan := pl\<rparr>) w = (Done x, w1)" by (rule touches_plan[OF p 1(1)]) (use pl o in simp)
    moreover have "q x (M\<lparr>plan := pl\<rparr>) w1 = (r, w')" by (rule touches_plan[OF q[OF 1(1)] 1(2)]) (use pl o in simp)
    ultimately show ?thesis by (simp add: andThen_def)
  next
    case (2 e)
    with touches_plan[OF p 2(1)] pl show ?thesis by (simp add: andThen_def)
  next
    case 3
    with touches_plan[OF p 3(1)] pl show ?thesis by (simp add: andThen_def)
  qed
qed

lemma touches_andThen [touching]: "touches X p \<Longrightarrow> (\<And>x. touches X (q x)) \<Longrightarrow> touches X (andThen p q)"
  by (rule touches_andThen_done)

lemma onError_other: "p M w = (r, w') \<Longrightarrow> (\<And>e. r \<noteq> Failed e) \<Longrightarrow> onError p h M w = (r, w')"
  by (cases r) (auto simp: onError_def)

lemma touches_onError [touching]:
  assumes p: "touches X p" and h: "\<And>e. touches X (h e)"
  shows "touches X (onError p h)"
proof (rule touchesI)
  fix M w r w' assume "onError p h M w = (r, w')"
  then show "within X w w'"
    by (cases rule: onErrorE) (blast intro: within_trans touchesD[OF p] touchesD[OF h])+
next
  fix M w w' assume "onError p h M w = (Died, w')"
  then show "\<exists>m. ops w \<le> m \<and> m < ops w' \<and> plan M m = Dies"
  proof (cases rule: onErrorE)
    case (1 e w1)
    from touches_died[OF h 1(2)] touches_ops[OF p 1(1)] show ?thesis by (meson order_trans)
  qed (auto dest: touches_died[OF p])
next
  fix M w r w' pl
  assume run: "onError p h M w = (r, w')" and pl: "\<And>m. ops w \<le> m \<Longrightarrow> m < ops w' \<Longrightarrow> pl m = plan M m"
  from run show "onError p h (M\<lparr>plan := pl\<rparr>) w = (r, w')"
  proof (cases rule: onErrorE)
    case (1 e w1)
    have o: "ops w \<le> ops w1" "ops w1 \<le> ops w'" using touches_ops[OF p 1(1)] touches_ops[OF h 1(2)] .
    have "p (M\<lparr>plan := pl\<rparr>) w = (Failed e, w1)" by (rule touches_plan[OF p 1(1)]) (use pl o in simp)
    moreover have "h e (M\<lparr>plan := pl\<rparr>) w1 = (r, w')" by (rule touches_plan[OF h 1(2)]) (use pl o in simp)
    ultimately show ?thesis by (simp add: onError_def)
  next
    case 2
    from touches_plan[OF p 2(1)] pl have "p (M\<lparr>plan := pl\<rparr>) w = (r, w')" by simp
    then show ?thesis using 2(2) by (rule onError_other)
  qed
qed

lemma touches_quietly [touching]: "touches X p \<Longrightarrow> touches X (quietly p)"
  by (simp add: quietly_def touching)

lemma touches_if [touching]: "touches X p \<Longrightarrow> touches X q \<Longrightarrow> touches X (if b then p else q)" by simp

lemma touches_machine:
  assumes "\<And>M :: machine. touches X (p (clock M) (error_line M))"
  shows "touches X (\<lambda>M. p (clock M) (error_line M) M)"
proof (rule touchesI)
  fix M w r w' assume "p (clock M) (error_line M) M w = (r, w')"
  then show "within X w w'" by (rule touchesD[OF assms])
next
  fix M :: machine and w w' assume "p (clock M) (error_line M) M w = (Died, w')"
  then show "\<exists>m. ops w \<le> m \<and> m < ops w' \<and> plan M m = Dies" by (rule touches_died[OF assms])
next
  fix M w r w' and pl :: "nat \<Rightarrow> fault"
  assume "p (clock M) (error_line M) M w = (r, w')" "\<And>m. ops w \<le> m \<Longrightarrow> m < ops w' \<Longrightarrow> pl m = plan M m"
  from touches_plan[OF assms this]
  show "p (clock (M\<lparr>plan := pl\<rparr>)) (error_line (M\<lparr>plan := pl\<rparr>)) (M\<lparr>plan := pl\<rparr>) w = (r, w')" by simp
qed

text \<open>One operation: it works as \<open>act\<close> says, or the disk is as before.\<close>

lemma fs_opE:
  assumes "fs_op act M w = (r, w')"
  obtains d where "plan M (ops w) = Works" "r = Done ()" "act (files w) = Inr d" "w' = w\<lparr>ops := ops w + 1, files := d\<rparr>"
  | e where "plan M (ops w) = Works" "act (files w) = Inl e" "r = Failed e" "w' = w\<lparr>ops := ops w + 1\<rparr>"
  | "plan M (ops w) = Fails" "r = Failed Io" "w' = w\<lparr>ops := ops w + 1\<rparr>"
  | "plan M (ops w) = Dies" "r = Died" "w' = w\<lparr>ops := ops w + 1\<rparr>"
  using assms by (auto simp: fs_op_def Let_def split: fault.splits sum.splits)

lemma touches_fs_op:
  assumes "\<And>d d' q. act d = Inr d' \<Longrightarrow> q \<notin> X \<Longrightarrow> d' q = d q"
  shows "touches X (fs_op act)"
proof (rule touchesI)
  fix M w r w' assume "fs_op act M w = (r, w')"
  then show "within X w w'"
    by (cases rule: fs_opE) (simp_all add: within_def assms)
next
  fix M w w' assume "fs_op act M w = (Died, w')"
  then show "\<exists>m. ops w \<le> m \<and> m < ops w' \<and> plan M m = Dies"
    by (cases rule: fs_opE) auto
next
  fix M w r w' pl
  assume run: "fs_op act M w = (r, w')" and pl: "\<And>m. ops w \<le> m \<Longrightarrow> m < ops w' \<Longrightarrow> pl m = plan M m"
  from run have "ops w < ops w'" by (cases rule: fs_opE) simp_all
  with pl have "pl (ops w) = plan M (ops w)" by simp
  with run show "fs_op act (M\<lparr>plan := pl\<rparr>) w = (r, w')" by (simp add: fs_op_def)
qed

lemma touches_dir [touching]: "touches X create_dir_all"
  by (auto simp: create_dir_all_def intro!: touches_fs_op)
lemma touches_open [touching]: "p \<in> X \<Longrightarrow> touches X (open_created p)"
  by (auto simp: open_created_def intro!: touches_fs_op split: if_splits)
lemma touches_persist [touching]: "p \<in> X \<Longrightarrow> touches X (persist_body p c)"
  by (auto simp: persist_body_def intro!: touches_fs_op)
lemma touches_remove [touching]: "p \<in> X \<Longrightarrow> touches X (remove_file p)"
  by (auto simp: remove_file_def intro!: touches_fs_op split: if_splits)
lemma touches_rename [touching]: "a \<in> X \<Longrightarrow> b \<in> X \<Longrightarrow> touches X (rename a b)"
  by (auto simp: rename_def intro!: touches_fs_op split: option.splits)
lemma touches_copy [touching]: "b \<in> X \<Longrightarrow> touches X (copy a b)"
  by (auto simp: copy_def intro!: touching touches_fs_op split: if_splits)
lemma touches_remove_quietly [touching]: "p \<in> X \<Longrightarrow> touches X (remove_quietly p)"
  by (simp add: remove_quietly_def touching)

lemma create_sibling_temp: "create_sibling n d M w = (Done t, w') \<Longrightarrow> t \<in> temps"
  by (induction n arbitrary: w) (auto simp: temps_def Let_def split: prod.splits io.splits if_splits)

lemma create_sibling_Suc: "create_sibling (Suc n) d = (\<lambda>M w. onError
    (andThen (open_created (Path (Some d) (TEMP_PREFIX @ temp_name M (ops w)))) (\<lambda>_. pure (Path (Some d) (TEMP_PREFIX @ temp_name M (ops w)))))
    (\<lambda>e. if e = Already_Exists then create_sibling n d else failing e) M w)"
  by (intro ext) (auto simp: onError_def andThen_def pure_def failing_def Let_def split: prod.splits io.splits)

lemma touches_create_sibling [touching]: "temps \<subseteq> X \<Longrightarrow> touches X (create_sibling n d)"
proof (induction n)
  case 0
  show ?case by (simp add: touches_def)
next
  case (Suc n)
  let ?p = "\<lambda>x. onError (andThen (open_created (Path (Some d) (TEMP_PREFIX @ x))) (\<lambda>_. pure (Path (Some d) (TEMP_PREFIX @ x))))
    (\<lambda>e. if e = Already_Exists then create_sibling n d else failing e)"
  have o: "touches X (?p x)" for x
    using Suc by (intro touching) (auto simp: temps_def)
  show ?case
    unfolding create_sibling_Suc touches_def using o[unfolded touches_def] by simp
qed

lemma touches_write_secure [touching]:
  assumes "p \<in> X" "temps \<subseteq> X"
  shows "touches X (write_secure p c)"
  unfolding write_secure_def
proof (intro touches_andThen[OF touches_dir] touches_andThen_done[OF touches_create_sibling[OF assms(2)]])
  fix t and M :: machine and w w1 :: world assume "create_sibling 32 (parent_of p) M w = (Done t, w1)"
  then have "t \<in> X" using create_sibling_temp assms(2) by blast
  then show "touches X (andThen (onError (persist_body t c) (\<lambda>e. andThen (remove_quietly t) (\<lambda>_. failing e))) (\<lambda>_. rename t p))"
    using assms(1) by (intro touching)
qed

end
