(* ===== verification/Config_Commit.thy ===== *)
theory Config_Commit
  imports File_Ops
begin

text \<open>
  The configuration commit (\<open>config_commit.rs\<close>): a batch of files published through a journal, rolled
  back when a file fails, and the recovery of an interrupted batch at the next start.
\<close>

section \<open>The journal\<close>

definition write_journal_at :: "string \<Rightarrow> commit_journal \<Rightarrow> unit prog" where
  "write_journal_at root j = write_secure (journal_path root) (Journal j)"

definition read_journal_at :: "string \<Rightarrow> world \<Rightarrow> commit_journal option" where
  "read_journal_at root w = (case files w (journal_path root) of Some (Journal j) \<Rightarrow> Some j | _ \<Rightarrow> None)"

section \<open>Committing a batch\<close>

record commit_file =
  cf_slot :: string
  cf_path :: path
  cf_body :: string

record config_lock =
  cl_root :: string
  cl_pid :: nat
  cl_holder :: nat
  cl_generation :: nat

text \<open>A file that landed: its target and its backup.\<close>

type_synonym landed = "path \<times> path option"

text \<open>\<open>str::trim\<close>, for the ASCII names that slots are.\<close>

definition whitespace :: "char \<Rightarrow> bool" where
  "whitespace c \<longleftrightarrow> (9 \<le> (of_char c :: nat) \<and> (of_char c :: nat) \<le> 13) \<or> c = CHR '' ''"

definition trim :: "string \<Rightarrow> string" where
  "trim s = rev (dropWhile whitespace (rev (dropWhile whitespace s)))"

fun show_path :: "path \<Rightarrow> string" where
  "show_path (Path (Some d) n) = d @ ''/'' @ n"
| "show_path (Path None n) = n"

fun validate_batch :: "string list \<Rightarrow> commit_file list \<Rightarrow> io_error option" where
  "validate_batch seen [] = None"
| "validate_batch seen (f # fs) =
     (let slot = trim (cf_slot f) in
      if slot = [] then Some (Invalid ''a configuration commit slot name is empty'')
      else if slot \<in> set seen then Some (Invalid (''a configuration commit repeats the slot '' @ slot))
      else if \<not> has_parent (cf_path f)
      then Some (Invalid (''the configuration file '' @ show_path (cf_path f) @ '' has no parent directory''))
      else validate_batch (slot # seen) fs)"

definition journal_entry_of :: "commit_file \<Rightarrow> nat \<Rightarrow> journal_entry" where
  "journal_entry_of f g = \<lparr>je_slot = cf_slot f, je_path = cf_path f,
     je_staged = staged_path (cf_path f) g, je_backup = backup_path (cf_path f) g, je_done = False\<rparr>"

definition stage_body :: "path \<Rightarrow> string \<Rightarrow> unit prog" where
  "stage_body staged b = andThen create_dir_all (\<lambda>_. andThen (remove_quietly staged) (\<lambda>_.
     andThen (open_created staged) (\<lambda>_.
       onError (persist_body staged (Body b)) (\<lambda>e. andThen (remove_quietly staged) (\<lambda>_. failing e)))))"

definition stage_and_land :: "commit_file \<Rightarrow> nat \<Rightarrow> landed prog" where
  "stage_and_land f g =
     (let staged = staged_path (cf_path f) g; backup = backup_path (cf_path f) g in
      andThen (exists (cf_path f)) (\<lambda>had. andThen (stage_body staged (cf_body f)) (\<lambda>_.
        andThen (if had then onError (copy (cf_path f) backup) (\<lambda>e. andThen (remove_quietly staged) (\<lambda>_. failing e))
                 else pure ())
          (\<lambda>_. andThen (onError (rename staged (cf_path f)) (\<lambda>e. andThen (remove_quietly staged)
                  (\<lambda>_. andThen (remove_quietly backup) (\<lambda>_. failing e))))
             (\<lambda>_. pure (cf_path f, if had then Some backup else None))))))"

definition restore_one :: "landed \<Rightarrow> unit prog" where
  "restore_one l = (case l of
       (target, Some backup) \<Rightarrow> andThen (exists backup) (\<lambda>there.
          if there then quietly (rename backup target) else remove_quietly target)
     | (target, None) \<Rightarrow> remove_quietly target)"

fun restore_landed :: "landed list \<Rightarrow> unit prog" where
  "restore_landed [] = pure ()"
| "restore_landed (l # ls) = andThen (restore_one l) (\<lambda>_. restore_landed ls)"

definition touch_heartbeat :: "config_lock \<Rightarrow> unit prog" where
  "touch_heartbeat L = (\<lambda>M w. quietly (write_secure (Path (Some (cl_root L)) LOCK_NAME)
     (Lock \<lparr>lo_pid = cl_pid L, lo_holder = cl_holder L, lo_heartbeat_at = clock M (ops w)\<rparr>)) M w)"

fun mark_done :: "nat \<Rightarrow> journal_entry list \<Rightarrow> journal_entry list" where
  "mark_done n es = (if n < length es then es[n := (es ! n)\<lparr>je_done := True\<rparr>] else es)"

text \<open>The journal text with its outcome, stamped when it is written.\<close>

definition write_finished :: "string \<Rightarrow> commit_journal \<Rightarrow> string \<Rightarrow> string option \<Rightarrow> unit prog" where
  "write_finished root j state err M w = write_journal_at root
     (j\<lparr>cj_state := state, cj_finished_at := Some (clock M (ops w)), cj_error := err\<rparr>) M w"

definition roll_back :: "string \<Rightarrow> commit_journal \<Rightarrow> landed list \<Rightarrow> io_error \<Rightarrow> 'a prog" where
  "roll_back root j landed e = andThen (restore_landed landed) (\<lambda>_. andThen
     (quietly (\<lambda>M. write_finished root j ''restored'' (Some (error_line M e)) M)) (\<lambda>_. failing e))"

text \<open>The loop over the batch: the journal with the files done so far and what has landed.\<close>

fun commit_each :: "config_lock \<Rightarrow> nat \<Rightarrow> nat \<Rightarrow> commit_file list \<Rightarrow> commit_journal \<Rightarrow> landed list
     \<Rightarrow> commit_journal prog" where
  "commit_each L g n [] j landed = pure j"
| "commit_each L g n (f # fs) j landed = andThen (touch_heartbeat L) (\<lambda>_.
     andThen (onError (stage_and_land f g) (roll_back (cl_root L) j landed))
       (\<lambda>item. let j' = j\<lparr>cj_files := mark_done n (cj_files j)\<rparr> in
          andThen (quietly (write_journal_at (cl_root L) j'))
            (\<lambda>_. commit_each L g (n + 1) fs j' (landed @ [item]))))"

fun remove_backups :: "journal_entry list \<Rightarrow> unit prog" where
  "remove_backups [] = pure ()"
| "remove_backups (e # es) = andThen (remove_quietly (je_backup e)) (\<lambda>_. remove_backups es)"

definition publish_generation :: "nat \<Rightarrow> nat prog" where
  "publish_generation g M w = (Done g, w\<lparr>generation_now := max (generation_now w) g, reload_epoch := reload_epoch w + 1\<rparr>)"

definition commit_files :: "config_lock \<Rightarrow> commit_file list \<Rightarrow> nat prog" where
  "commit_files L fs M w0 = (case validate_batch [] fs of Some e \<Rightarrow> (Failed e, w0)
   | None \<Rightarrow>
      (let g = max (generation_now w0) (cl_generation L) + 1;
           j0 = \<lparr>cj_generation = g, cj_state = ''pending'', cj_started_at = clock M (ops w0),
                cj_finished_at = None, cj_error = None, cj_files = map (\<lambda>f. journal_entry_of f g) fs\<rparr>
       in andThen (write_journal_at (cl_root L) j0) (\<lambda>_. andThen (commit_each L g 0 fs j0 [])
            (\<lambda>j. andThen (write_finished (cl_root L) j ''committed'' None)
              (\<lambda>_. andThen (remove_backups (cj_files j)) (\<lambda>_. publish_generation g)))) M w0))"

section \<open>Recovery\<close>

record recovery_report =
  rr_state :: string
  rr_generation :: nat
  rr_restored :: "path list"

definition recover_entry :: "journal_entry \<Rightarrow> path list prog" where
  "recover_entry e = (if je_done e then pure [] else
     andThen (exists (je_backup e)) (\<lambda>b.
       andThen (if b then onError (andThen (rename (je_backup e) (je_path e)) (\<lambda>_. pure True)) (\<lambda>_. pure False) else pure False)
         (\<lambda>ok. if ok then pure [je_path e] else
            andThen (exists (je_path e)) (\<lambda>t. if \<not> t then pure []
              else onError (andThen (remove_file (je_path e)) (\<lambda>_. pure [je_path e])) (\<lambda>_. pure [])))))"

fun recover_entries :: "journal_entry list \<Rightarrow> path list prog" where
  "recover_entries [] = pure []"
| "recover_entries (e # es) = andThen (recover_entry e) (\<lambda>r. andThen (recover_entries es) (\<lambda>rs. pure (r @ rs)))"

definition recover_at_startup_at :: "string \<Rightarrow> recovery_report prog" where
  "recover_at_startup_at root M w0 =
     (let clean = \<lparr>rr_state = ''clean'', rr_generation = generation_now w0, rr_restored = []\<rparr> in
      case read_journal_at root w0 of None \<Rightarrow> (Done clean, w0)
      | Some j \<Rightarrow>
          if cj_state j \<noteq> ''pending'' then (Done clean, w0)
          else andThen (recover_entries (cj_files j)) (\<lambda>restored.
            andThen (quietly (write_finished root j ''restored'' (Some ''recovered after interrupted commit'')))
              (\<lambda>_. pure \<lparr>rr_state = ''restored'', rr_generation = cj_generation j, rr_restored = restored\<rparr>)) M w0)"

lemma touches_stage_body [touching]: "s \<in> X \<Longrightarrow> touches X (stage_body s b)"
  unfolding stage_body_def by (intro touching)

lemma touches_stage_and_land [touching]:
  "{cf_path f, staged_path (cf_path f) g, backup_path (cf_path f) g} \<subseteq> X \<Longrightarrow> touches X (stage_and_land f g)"
  unfolding stage_and_land_def Let_def by (intro touching) auto

lemma touches_touch_heartbeat [touching]:
  assumes "Path (Some (cl_root L)) LOCK_NAME \<in> X" "temps \<subseteq> X"
  shows "touches X (touch_heartbeat L)"
proof -
  have "touches X (quietly (write_secure (Path (Some (cl_root L)) LOCK_NAME)
     (Lock \<lparr>lo_pid = cl_pid L, lo_holder = cl_holder L, lo_heartbeat_at = t\<rparr>)))" for t
    using assms by (intro touching)
  then show ?thesis
    unfolding touches_def touch_heartbeat_def by simp
qed

lemma touches_write_journal [touching]: "journal_path root \<in> X \<Longrightarrow> temps \<subseteq> X \<Longrightarrow> touches X (write_journal_at root j)"
  unfolding write_journal_at_def by (rule touches_write_secure)

lemma touches_restore_landed [touching]:
  "(\<forall>(t, b)\<in>set ls. t \<in> X \<and> (case b of Some q \<Rightarrow> q \<in> X | None \<Rightarrow> True)) \<Longrightarrow> touches X (restore_landed ls)"
proof (induction ls)
  case (Cons l ls)
  then have "touches X (restore_one l)"
    by (cases l; cases "snd l") (auto simp: restore_one_def intro!: touching)
  with Cons show ?case by (auto intro!: touches_andThen)
qed (simp add: touching)

lemma touches_remove_backups [touching]: "je_backup ` set es \<subseteq> X \<Longrightarrow> touches X (remove_backups es)"
  by (induction es) (auto intro!: touching)

section \<open>What landing one file does\<close>

lemma sib_name: "file_name (sibling_with_suffix t x) = file_name t @ ''.'' @ x"
  by (simp add: sibling_with_suffix_def)

lemma suffixes_differ: "nat_str g @ ''.staged'' \<noteq> nat_str g' @ ''.bak''"
proof
  assume "nat_str g @ ''.staged'' = nat_str g' @ ''.bak''"
  then have "last (nat_str g @ ''.staged'') = last (nat_str g' @ ''.bak'')" by simp
  then show False by simp
qed

lemma sides_distinct: "t \<noteq> staged_path t g" "t \<noteq> backup_path t g" "staged_path t g \<noteq> backup_path t g"
proof -
  have "t \<noteq> sibling_with_suffix t x" for x by (cases t) (auto simp: sibling_with_suffix_def)
  then show "t \<noteq> staged_path t g" "t \<noteq> backup_path t g" by (simp_all add: staged_path_def backup_path_def)
  show "staged_path t g \<noteq> backup_path t g"
    using suffixes_differ[of g g] by (simp add: staged_path_def backup_path_def sibling_with_suffix_def)
qed

lemma quietlyE:
  assumes "quietly p M w = (r, w')"
  obtains x where "p M w = (Done x, w')" "r = Done ()" | e where "p M w = (Failed e, w')" "r = Done ()"
  | "p M w = (Died, w')" "r = Died"
  using assms by (auto simp: quietly_def onError_def andThen_def pure_def split: prod.splits io.splits)

lemma onError_failing_done:
  "onError p (\<lambda>e. andThen (q e) (\<lambda>_. failing e)) M w = (Done x, w') \<longleftrightarrow> p M w = (Done x, w')"
  by (auto simp: onError_def andThen_def failing_def split: prod.splits io.splits)

lemma persist_done: "persist_body p c M w = (Done u, w') \<Longrightarrow> files w' p = Some c"
  unfolding persist_body_def by (auto elim!: fs_opE)

lemma stage_body_done:
  assumes "stage_body s b M w = (Done u, w')"
  shows "files w' s = Some (Body b)"
proof -
  from assms obtain v w1 where "onError (persist_body s (Body b)) (\<lambda>e. andThen (remove_quietly s) (\<lambda>_. failing e)) M w1 = (Done v, w')"
    unfolding stage_body_def by (auto elim!: andThenE)
  then show ?thesis by (auto simp: onError_failing_done intro: persist_done)
qed

lemma copy_done:
  assumes "copy a b M w = (Done u, w')" "a \<noteq> b"
  shows "files w' b = files w a"
  using assms unfolding copy_def by (auto elim!: andThenE fs_opE split: if_splits)

lemma rename_cases:
  assumes "rename a b M w = (r, w')" "a \<noteq> b"
  shows "if r = Done () then files w' b = files w a \<and> files w' a = None else files w' = files w"
  using assms unfolding rename_def by (auto elim!: fs_opE split: option.splits)

lemma andThen_exists: "andThen (exists p) k M w = k (files w p \<noteq> None) M w"
  by (simp add: andThen_def exists_def reading_def)

text \<open>
  Landing a file: it is at its target with the old body in its backup, or the target is as it was;
  the target is never in between, even when the process dies.
\<close>

definition landed_ok :: "commit_file \<Rightarrow> nat \<Rightarrow> disk \<Rightarrow> disk \<Rightarrow> bool" where
  "landed_ok f g d d' \<longleftrightarrow> d' (cf_path f) = Some (Body (cf_body f)) \<and> d' (staged_path (cf_path f) g) = None
     \<and> (d (cf_path f) \<noteq> None \<longrightarrow> d' (backup_path (cf_path f) g) = d (cf_path f))"

lemma stage_and_land_cases:
  assumes run: "stage_and_land f g M w = (r, w')"
  shows "(case r of
      Done l \<Rightarrow> landed_ok f g (files w) (files w')
        \<and> l = (cf_path f, if files w (cf_path f) = None then None else Some (backup_path (cf_path f) g))
    | Failed e \<Rightarrow> files w' (cf_path f) = files w (cf_path f)
    | Died \<Rightarrow> files w' (cf_path f) = files w (cf_path f))"
proof -
  let ?t = "cf_path f" and ?s = "staged_path (cf_path f) g" and ?b = "backup_path (cf_path f) g"
  note d = sides_distinct[of ?t g]
  let ?had = "files w ?t \<noteq> None"
  let ?body = "stage_body ?s (cf_body f)"
  let ?copy = "if ?had then onError (copy ?t ?b) (\<lambda>e. andThen (remove_quietly ?s) (\<lambda>_. failing e)) else pure ()"
  let ?move = "onError (rename ?s ?t) (\<lambda>e. andThen (remove_quietly ?s) (\<lambda>_. andThen (remove_quietly ?b) (\<lambda>_. failing e)))"
  have run': "andThen ?body (\<lambda>_. andThen ?copy (\<lambda>_. andThen ?move
      (\<lambda>_. pure (?t, if ?had then Some ?b else None)))) M w = (r, w')"
    using run unfolding stage_and_land_def Let_def andThen_exists by simp
  have tb: "touches {?s} ?body" by (intro touching) simp
  have tc: "touches {?s, ?b} ?copy" by (intro touching) simp_all
  from run' show ?thesis
  proof (cases rule: andThenE)
    case (1 u w1)
    have w1: "files w1 ?s = Some (Body (cf_body f))" "files w1 ?t = files w ?t"
      using stage_body_done[OF 1(1)] within_file[OF touchesD[OF tb 1(1)], of ?t] d by auto
    from 1(2) show ?thesis
    proof (cases rule: andThenE)
      case (1 v w2)
      have w2t: "files w2 ?t = files w ?t" using within_file[OF touchesD[OF tc 1(1)], of ?t] d w1 by auto
      have w2: "files w2 ?s = Some (Body (cf_body f)) \<and> (?had \<longrightarrow> files w2 ?b = files w ?t)"
      proof (cases ?had)
        case True
        with 1(1) have c: "copy ?t ?b M w1 = (Done v, w2)"
          by (simp add: onError_failing_done)
        have "touches {?b} (copy ?t ?b)" by (intro touching) simp
        from within_file[OF touchesD[OF this c], of ?s] copy_done[OF c] w1 d show ?thesis by auto
      next
        case False
        with 1(1) w1 show ?thesis by (simp add: pure_def)
      qed
      from 1(2) show ?thesis
      proof (cases rule: andThenE)
        case (1 x w3)
        then have m: "rename ?s ?t M w2 = (Done x, w3)" by (auto elim!: onErrorE andThenE simp: failing_def pure_def)
        have t: "touches {?s, ?t} (rename ?s ?t)" by (intro touching) simp_all
        from rename_cases[OF m] within_file[OF touchesD[OF t m], of ?b] w2 d 1(2)
        show ?thesis by (auto simp: landed_ok_def pure_def)
      next
        case (2 e)
        have t: "touches {?s, ?b} (andThen (remove_quietly ?s) (\<lambda>_. andThen (remove_quietly ?b) (\<lambda>_. failing x)))" for x
          by (intro touching) simp_all
        from 2(1) have "files w' ?t = files w2 ?t"
        proof (cases rule: onErrorE)
          case (1 e1 w3)
          with rename_cases[OF 1(1)] d within_file[OF touchesD[OF t 1(2)], of ?t] show ?thesis by auto
        next
          case 2
          from 2(2)[of e] show ?thesis by simp
        qed
        with w2t 2 show ?thesis by simp
      next
        case 3
        have t: "touches {?s, ?b} (andThen (remove_quietly ?s) (\<lambda>_. andThen (remove_quietly ?b) (\<lambda>_. failing x)))" for x
          by (intro touching) simp_all
        from 3(1) have "files w' ?t = files w2 ?t"
        proof (cases rule: onErrorE)
          case (1 e1 w3)
          with rename_cases[OF 1(1)] d within_file[OF touchesD[OF t 1(2)], of ?t] show ?thesis by auto
        next
          case 2
          with rename_cases[OF 2(1)] d show ?thesis by auto
        qed
        with w2t 3 show ?thesis by simp
      qed
    next
      case (2 e)
      with within_file[OF touchesD[OF tc 2(1)], of ?t] d w1 show ?thesis by simp
    next
      case 3
      with within_file[OF touchesD[OF tc 3(1)], of ?t] d w1 show ?thesis by simp
    qed
  next
    case (2 e)
    with within_file[OF touchesD[OF tb 2(1)], of ?t] d show ?thesis by simp
  next
    case 3
    with within_file[OF touchesD[OF tb 3(1)], of ?t] d show ?thesis by simp
  qed
qed

section \<open>The batch\<close>

definition file_paths :: "nat \<Rightarrow> commit_file \<Rightarrow> path list" where
  "file_paths g f = [cf_path f, staged_path (cf_path f) g, backup_path (cf_path f) g]"

definition internal :: "string \<Rightarrow> path set" where
  "internal root = {journal_path root, Path (Some root) LOCK_NAME} \<union> temps"

text \<open>The targets of the batch and what the commit writes beside them are different files.\<close>

definition separate :: "string \<Rightarrow> nat \<Rightarrow> commit_file list \<Rightarrow> bool" where
  "separate root g fs \<longleftrightarrow> distinct (concat (map (file_paths g) fs))
     \<and> (\<forall>f\<in>set fs. set (file_paths g f) \<inter> internal root = {})"

lemma separate_Cons: "separate root g (f # fs) \<longleftrightarrow> separate root g fs \<and> set (file_paths g f) \<inter> internal root = {}
    \<and> (\<forall>h\<in>set fs. set (file_paths g f) \<inter> set (file_paths g h) = {})"
  using sides_distinct[of "cf_path f" g]
  by (auto simp: separate_def file_paths_def)

lemma separate_append: "separate root g (ps @ fs) \<longleftrightarrow> separate root g ps \<and> separate root g fs
    \<and> (\<forall>h\<in>set ps. \<forall>f\<in>set fs. set (file_paths g h) \<inter> set (file_paths g f) = {})"
  by (simp add: separate_def) blast

lemma in_file_paths [simp]: "cf_path f \<in> set (file_paths g f)" "staged_path (cf_path f) g \<in> set (file_paths g f)"
  "backup_path (cf_path f) g \<in> set (file_paths g f)"
  by (simp_all add: file_paths_def)

definition landed_paths :: "landed list \<Rightarrow> path set" where
  "landed_paths ls = (\<Union>l\<in>set ls. insert (fst l) (set_option (snd l)))"

lemma landed_pathsD: "(t, b) \<in> set ls \<Longrightarrow> t \<in> landed_paths ls \<and> (\<forall>q. b = Some q \<longrightarrow> q \<in> landed_paths ls)"
  by (force simp: landed_paths_def)

definition batch_paths :: "string \<Rightarrow> nat \<Rightarrow> commit_file list \<Rightarrow> path set" where
  "batch_paths root g fs = internal root \<union> (\<Union>f\<in>set fs. set (file_paths g f))"

lemma internal_simps [simp]: "journal_path root \<in> internal root" "Path (Some root) LOCK_NAME \<in> internal root"
  "temps \<subseteq> internal root"
  by (auto simp: internal_def)

lemma touches_heartbeat_root: "internal (cl_root L) \<subseteq> X \<Longrightarrow> touches X (touch_heartbeat L)"
  by (auto simp: internal_def intro!: touches_touch_heartbeat)

lemma touches_journal_root: "internal root \<subseteq> X \<Longrightarrow> touches X (write_journal_at root j)"
  by (auto simp: internal_def intro!: touches_write_journal)

lemma stage_landed_paths:
  assumes "stage_and_land f g M w = (Done l, w')"
  shows "landed_paths [l] \<subseteq> set (file_paths g f)"
  using stage_and_land_cases[OF assms] by (auto simp: landed_paths_def file_paths_def)

lemma touches_write_finished:
  assumes "internal root \<subseteq> X"
  shows "touches X (write_finished root j st err)"
  using touches_journal_root[OF assms, unfolded touches_def]
  unfolding write_finished_def[abs_def] touches_def by simp

lemma touches_note:
  assumes "internal root \<subseteq> X"
  shows "touches X (quietly (\<lambda>M. write_finished root j st (Some (error_line M e)) M))"
  by (intro touches_quietly touches_machine[of X "\<lambda>_ er. write_finished root j st (Some (er e))"]
      touches_write_finished assms)

lemma touches_roll_back:
  assumes "internal root \<union> landed_paths ls \<subseteq> X"
  shows "touches X (roll_back root j ls e)"
proof -
  have "\<forall>(t, b)\<in>set ls. t \<in> X \<and> (case b of Some q \<Rightarrow> q \<in> X | None \<Rightarrow> True)"
    using assms landed_pathsD by (fastforce split: option.splits)
  then show ?thesis
    unfolding roll_back_def using assms
    by (intro touches_andThen touches_restore_landed touches_failing touches_note) auto
qed

lemma roll_back_within:
  assumes run: "roll_back root j ls e M w = (r, w')" and restored: "restore_landed ls M w = (Done u, w1)"
  shows "within (internal root) w1 w'"
proof -
  let ?note = "quietly (\<lambda>M. write_finished root j ''restored'' (Some (error_line M e)) M)"
  obtain r2 w2 where two: "?note M w1 = (r2, w2)" by fastforce
  from run restored two have "w' = w2"
    unfolding roll_back_def by (cases r2) (auto simp: andThen_def failing_def)
  with touchesD[OF touches_note[OF subset_refl] two] show ?thesis by simp
qed

lemma onError_roll_back_done: "onError p (roll_back root j ls) M w = (Done x, w') \<longleftrightarrow> p M w = (Done x, w')"
  by (auto simp: onError_def roll_back_def andThen_def failing_def split: prod.splits io.splits)

lemma touches_commit_each:
  "batch_paths (cl_root L) g fs \<union> landed_paths ls \<subseteq> X \<Longrightarrow> touches X (commit_each L g n fs j ls)"
proof (induction fs arbitrary: n j ls)
  case Nil
  show ?case by (simp add: touching)
next
  case (Cons f fs)
  have sub: "internal (cl_root L) \<subseteq> X" "set (file_paths g f) \<subseteq> X" "landed_paths ls \<subseteq> X"
    using Cons.prems by (auto simp: batch_paths_def)
  let ?stage = "onError (stage_and_land f g) (roll_back (cl_root L) j ls)"
  let ?j = "j\<lparr>cj_files := mark_done n (cj_files j)\<rparr>"
  let ?rest = "\<lambda>item. andThen (quietly (write_journal_at (cl_root L) ?j)) (\<lambda>_. commit_each L g (n + 1) fs ?j (ls @ [item]))"
  have stage: "touches X ?stage"
    using sub by (intro touches_onError touches_stage_and_land touches_roll_back) (auto simp: file_paths_def)
  have "touches X (andThen ?stage ?rest)"
  proof (rule touches_andThen_done[OF stage])
    fix item M w w1 assume "?stage M w = (Done item, w1)"
    from stage_landed_paths[OF this[unfolded onError_roll_back_done]] sub
    have "landed_paths (ls @ [item]) \<subseteq> X" by (auto simp: landed_paths_def)
    with Cons.prems have "batch_paths (cl_root L) g fs \<union> landed_paths (ls @ [item]) \<subseteq> X"
      by (auto simp: batch_paths_def)
    then show "touches X (?rest item)"
      using sub by (intro touches_andThen touches_quietly touches_journal_root Cons.IH)
  qed
  then show ?case
    using sub unfolding commit_each.simps Let_def by (intro touches_andThen[OF touches_heartbeat_root])
qed

text \<open>One round of the loop.\<close>

lemma commit_eachE:
  assumes "commit_each L g n (f # fs) j ls M w = (r, w')"
  obtains u w1 l w2 v w3 where "touch_heartbeat L M w = (Done u, w1)" "stage_and_land f g M w1 = (Done l, w2)"
      "quietly (write_journal_at (cl_root L) (j\<lparr>cj_files := mark_done n (cj_files j)\<rparr>)) M w2 = (Done v, w3)"
      "commit_each L g (n + 1) fs (j\<lparr>cj_files := mark_done n (cj_files j)\<rparr>) (ls @ [l]) M w3 = (r, w')"
  | u w1 e w2 e' where "touch_heartbeat L M w = (Done u, w1)" "stage_and_land f g M w1 = (Failed e, w2)"
      "(roll_back (cl_root L) j ls e :: landed prog) M w2 = (Failed e', w')" "r = Failed e'"
  | "r = Died"
proof -
  have hb: "\<And>e x. touch_heartbeat L M w \<noteq> (Failed e, x)"
    by (auto simp: touch_heartbeat_def elim!: quietlyE)
  have q: "\<And>p e x y. quietly (p :: unit prog) M x \<noteq> (Failed e, y)"
    by (auto elim!: quietlyE)
  from assms[unfolded commit_each.simps Let_def] show thesis
  proof (cases rule: andThenE)
    case (1 u w1)
    note hbt = 1(1)
    from 1(2) show thesis
    proof (cases rule: andThenE)
      case (1 l w2)
      from 1(2) show thesis
      proof (cases rule: andThenE)
        case (1 v w3)
        with that(1) \<open>touch_heartbeat L M w = (Done u, w1)\<close> \<open>onError _ _ M w1 = (Done l, w2)\<close>
        show thesis by (simp add: onError_roll_back_done)
      qed (use q that(3) in auto)
    next
      case (2 e)
      note fail = this
      from fail(1) show thesis
      proof (cases rule: onErrorE)
        case (1 e1 w2)
        show thesis by (rule that(2)[OF hbt 1 fail(2)])
      next
        case 2
        from 2(2)[of e] show thesis by simp
      qed
    qed (use that(3) in auto)
  qed (use hb that(3) in auto)
qed

section \<open>Failures\<close>

text \<open>When every operation works, a file lands; so a file that did not land met a failed operation.\<close>

definition working :: "machine \<Rightarrow> machine" where "working M = M\<lparr>plan := \<lambda>_. Works\<rparr>"

lemma plan_working [simp]: "plan (working M) m = Works" by (simp add: working_def)

lemmas run_defs = andThen_def onError_def quietly_def pure_def failing_def fs_op_def Let_def

lemma stage_and_land_works: "fst (stage_and_land f g (working M) w) \<noteq> Failed e"
proof -
  have "\<exists>l w'. stage_and_land f g (working M) w = (Done l, w')"
    using sides_distinct[of "cf_path f" g]
    by (auto simp: stage_and_land_def stage_body_def create_dir_all_def remove_quietly_def remove_file_def open_created_def
        persist_body_def copy_def rename_def exists_def reading_def run_defs split: option.splits)
  then show ?thesis by auto
qed

lemma stage_failed_fault:
  assumes run: "stage_and_land f g M w = (Failed e, w')"
  shows "\<exists>m. ops w \<le> m \<and> m < ops w' \<and> plan M m \<noteq> Works"
proof (rule ccontr)
  assume "\<nexists>m. ops w \<le> m \<and> m < ops w' \<and> plan M m \<noteq> Works"
  then have "stage_and_land f g (M\<lparr>plan := \<lambda>_. Works\<rparr>) w = (Failed e, w')"
    by (intro touches_plan[OF touches_stage_and_land[OF subset_refl] run]) auto
  then show False using stage_and_land_works[of f g M w e] by (simp add: working_def)
qed

text \<open>What has landed, for the files \<open>ps\<close> done so far over the disk \<open>D\<close> the commit started from.\<close>

definition landed_of :: "disk \<Rightarrow> nat \<Rightarrow> commit_file list \<Rightarrow> landed list" where
  "landed_of D g ps = map (\<lambda>f. (cf_path f, if D (cf_path f) = None then None else Some (backup_path (cf_path f) g))) ps"

lemma landed_paths_of: "landed_paths (landed_of D g ps) \<subseteq> (\<Union>f\<in>set ps. set (file_paths g f))"
  by (auto simp: landed_paths_def landed_of_def file_paths_def split: if_splits)

lemma restore_one_works:
  assumes works: "\<And>m. ops w \<le> m \<Longrightarrow> plan M m = Works"
    and landed: "d (cf_path f) \<noteq> None \<longrightarrow> files w (backup_path (cf_path f) g) = d (cf_path f)"
    and run: "restore_one (cf_path f, if d (cf_path f) = None then None else Some (backup_path (cf_path f) g)) M w = (r, w')"
  shows "r = Done () \<and> files w' (cf_path f) = d (cf_path f)"
  using assms sides_distinct[of "cf_path f" g]
  by (auto simp: restore_one_def remove_quietly_def remove_file_def rename_def exists_def reading_def run_defs
      split: option.splits if_splits)

lemma restore_landed_works:
  assumes "restore_landed (landed_of D g ps) M w = (r, w')" "separate root g ps"
    "\<And>m. ops w \<le> m \<Longrightarrow> plan M m = Works"
    "\<forall>f\<in>set ps. D (cf_path f) \<noteq> None \<longrightarrow> files w (backup_path (cf_path f) g) = D (cf_path f)"
  shows "r = Done () \<and> within (\<Union>f\<in>set ps. set (file_paths g f)) w w' \<and> (\<forall>f\<in>set ps. files w' (cf_path f) = D (cf_path f))"
  using assms
proof (induction ps arbitrary: w)
  case Nil
  then show ?case by (simp add: landed_of_def pure_def)
next
  case (Cons f ps)
  let ?l = "(cf_path f, if D (cf_path f) = None then None else Some (backup_path (cf_path f) g))"
  have X: "touches (set (file_paths g f)) (restore_one ?l)"
    by (auto simp: restore_one_def file_paths_def intro!: touching)
  have sep: "separate root g ps" "\<forall>h\<in>set ps. set (file_paths g f) \<inter> set (file_paths g h) = {}"
    using Cons.prems(2) by (auto simp: separate_Cons)
  obtain r1 w1 where one: "restore_one ?l M w = (r1, w1)" by fastforce
  have o: "r1 = Done () \<and> files w1 (cf_path f) = D (cf_path f)"
    by (rule restore_one_works[where d = D, OF _ _ one]) (use Cons.prems in auto)
  note w1 = touchesD[OF X one]
  have run: "restore_landed (landed_of D g ps) M w1 = (r, w')"
    using Cons.prems(1) one o by (simp add: landed_of_def andThen_def)
  have "\<forall>h\<in>set ps. D (cf_path h) \<noteq> None \<longrightarrow> files w1 (backup_path (cf_path h) g) = D (cf_path h)"
  proof (intro ballI impI)
    fix h assume h: "h \<in> set ps" "D (cf_path h) \<noteq> None"
    then have "backup_path (cf_path h) g \<notin> set (file_paths g f)" using sep(2) by (auto simp: file_paths_def)
    then show "files w1 (backup_path (cf_path h) g) = D (cf_path h)"
      using within_file[OF w1] Cons.prems(4) h by simp
  qed
  moreover have "plan M m = Works" if "ops w1 \<le> m" for m
    using Cons.prems(3) that touches_ops[OF X one] by simp
  ultimately have rest: "r = Done ()" "within (\<Union>f\<in>set ps. set (file_paths g f)) w1 w'"
    "\<forall>f\<in>set ps. files w' (cf_path f) = D (cf_path f)"
    using Cons.IH[OF run sep(1)] by blast+
  have "cf_path f \<notin> (\<Union>f\<in>set ps. set (file_paths g f))" using sep(2) by (auto simp: file_paths_def)
  with within_file[OF rest(2)] o have "files w' (cf_path f) = D (cf_path f)" by simp
  moreover have "within (\<Union>f\<in>set (f # ps). set (file_paths g f)) w w'"
    by (rule within_trans[OF within_mono[OF w1] within_mono[OF rest(2)]]) auto
  ultimately show ?case using rest by simp
qed


lemma internal_disjoint: "separate root g fs \<Longrightarrow> f \<in> set fs \<Longrightarrow> p \<in> set (file_paths g f) \<Longrightarrow> p \<notin> internal root"
  by (auto simp: separate_def)

lemma landed_ok_within:
  assumes "landed_ok f g d d'" "\<And>p. p \<in> set (file_paths g f) \<Longrightarrow> d2 p = d p" "\<And>p. p \<in> set (file_paths g f) \<Longrightarrow> d3 p = d' p"
  shows "landed_ok f g d2 d3"
  using assms by (simp add: landed_ok_def file_paths_def)

lemma commit_each_done:
  assumes "commit_each L g n fs j ls M w = (Done j', w')" "separate (cl_root L) g fs"
  shows "within (batch_paths (cl_root L) g fs) w w' \<and> (\<forall>f\<in>set fs. landed_ok f g (files w) (files w'))
    \<and> map je_backup (cj_files j') = map je_backup (cj_files j)"
  using assms
proof (induction fs arbitrary: n j ls w)
  case Nil
  then show ?case by (simp add: pure_def)
next
  case (Cons f fs)
  let ?root = "cl_root L" and ?j = "j\<lparr>cj_files := mark_done n (cj_files j)\<rparr>"
  from Cons.prems(1) show ?case
  proof (cases rule: commit_eachE)
    case (1 u w1 l w2 v w3)
    have sep: "separate ?root g fs" "set (file_paths g f) \<inter> internal ?root = {}"
      "\<forall>h\<in>set fs. set (file_paths g f) \<inter> set (file_paths g h) = {}"
      using Cons.prems(2) by (auto simp: separate_Cons)
    have a: "within (internal ?root) w w1" by (rule touchesD[OF touches_heartbeat_root 1(1)]) simp
    have b: "within (set (file_paths g f)) w1 w2"
      by (rule touchesD[OF touches_stage_and_land 1(2)]) (simp add: file_paths_def)
    have c: "within (internal ?root) w2 w3"
      by (rule touchesD[OF touches_quietly[OF touches_journal_root] 1(3)]) simp
    have ih: "within (batch_paths ?root g fs) w3 w'" "\<forall>f\<in>set fs. landed_ok f g (files w3) (files w')"
      "map je_backup (cj_files j') = map je_backup (cj_files ?j)"
      using Cons.IH[OF 1(4) sep(1)] by blast+
    have f: "landed_ok f g (files w) (files w')"
    proof (rule landed_ok_within)
      show "landed_ok f g (files w1) (files w2)" using stage_and_land_cases[OF 1(2)] by simp
      fix p assume p: "p \<in> set (file_paths g f)"
      have p': "p \<notin> internal ?root" using p sep(2) by blast
      show "files w p = files w1 p" using within_file[OF a p'] by simp
      have "p \<notin> batch_paths ?root g fs" using p sep(2,3) by (auto simp: batch_paths_def)
      with within_file[OF ih(1), of p] within_file[OF c p'] show "files w' p = files w2 p" by simp
    qed
    have h: "landed_ok h g (files w) (files w')" if h: "h \<in> set fs" for h
    proof (rule landed_ok_within[OF bspec[OF ih(2) h]])
      fix p assume p: "p \<in> set (file_paths g h)"
      then have "p \<notin> set (file_paths g f)" using sep(3) h by blast
      with internal_disjoint[OF sep(1) h p]
      show "files w p = files w3 p" using within_file[OF a, of p] within_file[OF b, of p] within_file[OF c, of p] by simp
    qed simp
    have "within (batch_paths ?root g (f # fs)) w w'"
      by (rule within_trans[OF within_mono[OF a] within_trans[OF within_mono[OF b] within_trans[OF within_mono[OF c] within_mono[OF ih(1)]]]])
        (auto simp: batch_paths_def)
    moreover have "map je_backup (mark_done n es) = map je_backup es" for es
      by (simp add: map_update list_update_same_conv)
    ultimately show ?thesis using f h ih(3) by auto
  qed simp_all
qed

text \<open>The loop failed, and one operation at most did not work: every target is as it was.\<close>

lemma commit_each_failed:
  assumes "commit_each L g n fs j (landed_of D g ps) M w = (Failed e, w')" "separate (cl_root L) g (ps @ fs)"
    "\<forall>f\<in>set ps. landed_ok f g D (files w)" "\<forall>f\<in>set fs. files w (cf_path f) = D (cf_path f)"
    and one: "\<forall>m. m \<noteq> k \<longrightarrow> plan M m = Works"
  shows "\<forall>f\<in>set (ps @ fs). files w' (cf_path f) = D (cf_path f)"
  using assms(1-4)
proof (induction fs arbitrary: n j ps w)
  case Nil
  then show ?case by (simp add: pure_def)
next
  case (Cons f fs)
  let ?root = "cl_root L" and ?j = "j\<lparr>cj_files := mark_done n (cj_files j)\<rparr>"
  note sep = Cons.prems(2)
  have off: "p \<notin> internal ?root" if "h \<in> set (ps @ f # fs)" "p \<in> set (file_paths g h)" for h p
    using internal_disjoint[OF sep] that by blast
  have apart: "p \<notin> set (file_paths g f)" if "h \<in> set ps \<or> h \<in> set fs" "p \<in> set (file_paths g h)" for h p
    using sep that by (simp add: separate_append separate_Cons) blast
  from Cons.prems(1) show ?case
  proof (cases rule: commit_eachE)
    case (1 u w1 l w2 v w3)
    have a: "within (internal ?root) w w1" by (rule touchesD[OF touches_heartbeat_root 1(1)]) simp
    have b: "within (set (file_paths g f)) w1 w2"
      by (rule touchesD[OF touches_stage_and_land 1(2)]) (simp add: file_paths_def)
    have c: "within (internal ?root) w2 w3"
      by (rule touchesD[OF touches_quietly[OF touches_journal_root] 1(3)]) simp
    have same: "files w3 p = files w p" if "h \<in> set ps \<or> h \<in> set fs" "p \<in> set (file_paths g h)" for h p
      using that off[of h p] apart[OF that] within_file[OF a, of p] within_file[OF b, of p] within_file[OF c, of p] by auto
    have t: "files w1 (cf_path f) = D (cf_path f)"
      using within_file[OF a, of "cf_path f"] off[of f "cf_path f"] Cons.prems(4) by (simp add: file_paths_def)
    have l: "l = (cf_path f, if D (cf_path f) = None then None else Some (backup_path (cf_path f) g))"
      and ok: "landed_ok f g (files w1) (files w2)"
      using stage_and_land_cases[OF 1(2)] t by simp_all
    have "landed_ok f g D (files w3)"
      using ok t within_file[OF c] off[of f] by (simp add: landed_ok_def file_paths_def)
    moreover have "landed_ok h g D (files w3)" if "h \<in> set ps" for h
      by (rule landed_ok_within[OF bspec[OF Cons.prems(3) that]]) (use same that in auto)
    ultimately have "\<forall>h\<in>set (ps @ [f]). landed_ok h g D (files w3)" by auto
    moreover have "\<forall>h\<in>set fs. files w3 (cf_path h) = D (cf_path h)"
    proof
      fix h assume h: "h \<in> set fs"
      with same[of h "cf_path h"] Cons.prems(4) show "files w3 (cf_path h) = D (cf_path h)" by (simp add: file_paths_def)
    qed
    moreover have "commit_each L g (n + 1) fs ?j (landed_of D g (ps @ [f])) M w3 = (Failed e, w')"
      using 1(4) l by (simp add: landed_of_def)
    ultimately show ?thesis using Cons.IH[of _ _ "ps @ [f]" w3] sep by simp
  next
    case (2 u w1 e1 w2 e')
    have a: "within (internal ?root) w w1" by (rule touchesD[OF touches_heartbeat_root 2(1)]) simp
    have b: "within (set (file_paths g f)) w1 w2"
      by (rule touchesD[OF touches_stage_and_land 2(2)]) (simp add: file_paths_def)
    from stage_failed_fault[OF 2(2)] obtain m where m: "m < ops w2" "plan M m \<noteq> Works" by blast
    have works: "\<And>i. ops w2 \<le> i \<Longrightarrow> plan M i = Works" using one m by (metis not_less)
    have same: "files w2 p = files w p" if "h \<in> set ps \<or> h \<in> set fs" "p \<in> set (file_paths g h)" for h p
      using that off[of h p] apart[OF that] within_file[OF a, of p] within_file[OF b, of p] by auto
    have kept: "\<forall>h\<in>set ps. D (cf_path h) \<noteq> None \<longrightarrow> files w2 (backup_path (cf_path h) g) = D (cf_path h)"
    proof (intro ballI impI)
      fix h assume "h \<in> set ps" "D (cf_path h) \<noteq> None"
      with same[of h "backup_path (cf_path h) g"] Cons.prems(3)
      show "files w2 (backup_path (cf_path h) g) = D (cf_path h)" by (simp add: landed_ok_def file_paths_def)
    qed
    have sep_ps: "separate ?root g ps" using sep by (simp add: separate_append)
    obtain r3 w3 where r3: "restore_landed (landed_of D g ps) M w2 = (r3, w3)" by fastforce
    note restored = restore_landed_works[OF r3 sep_ps works kept]
    have c: "within (internal ?root) w3 w'"
      using roll_back_within[OF 2(3)] r3 restored by simp
    have target: "files w' (cf_path h) = files w3 (cf_path h)" if "h \<in> set (ps @ f # fs)" for h
      using within_file[OF c] off[OF that] by (simp add: file_paths_def)
    have away: "cf_path h \<notin> (\<Union>f\<in>set ps. set (file_paths g f))" if "h \<in> set (f # fs)" for h
      using sep that in_file_paths(1)[of h g] unfolding separate_append by blast
    have "files w2 (cf_path f) = D (cf_path f)"
      using stage_and_land_cases[OF 2(2)] within_file[OF a, of "cf_path f"] off[of f "cf_path f"] Cons.prems(4)
      by (simp add: file_paths_def)
    moreover have "files w2 (cf_path h) = D (cf_path h)" if "h \<in> set fs" for h
      using same[of h "cf_path h"] that Cons.prems(4) by (simp add: file_paths_def)
    ultimately have rest: "files w3 (cf_path h) = D (cf_path h)" if "h \<in> set (f # fs)" for h
      using within_file[OF conjunct1[OF conjunct2[OF restored]] away[OF that]] that by auto
    show ?thesis
    proof
      fix h assume h: "h \<in> set (ps @ f # fs)"
      then have "files w3 (cf_path h) = D (cf_path h)" using restored rest by (cases "h \<in> set ps") auto
      with target[OF h] show "files w' (cf_path h) = D (cf_path h)" by simp
    qed
  qed simp
qed

lemma separate_apart:
  "separate root g fs \<Longrightarrow> f \<in> set fs \<Longrightarrow> h \<in> set fs \<Longrightarrow> f \<noteq> h \<Longrightarrow>
     set (file_paths g f) \<inter> set (file_paths g h) = {}"
proof (induction fs)
  case (Cons x xs)
  then consider "f \<in> set xs" "h \<in> set xs" | "f = x" "h \<in> set xs" | "h = x" "f \<in> set xs" by auto
  then show ?case by cases (use Cons in \<open>simp_all add: separate_Cons Int_commute\<close>)
qed simp

lemma targets_not_backups:
  assumes "separate root g fs" "f \<in> set fs" "h \<in> set fs"
  shows "cf_path f \<noteq> backup_path (cf_path h) g"
proof (cases "f = h")
  case False
  then show ?thesis using separate_apart[OF assms False] in_file_paths(1)[of f g] in_file_paths(3)[of h g] by (metis disjoint_iff)
qed (simp add: sides_distinct(2))

lemma journal_not_temp: "journal_path root \<notin> temps" "Path (Some root) LOCK_NAME \<notin> temps"
  "journal_path root \<noteq> Path (Some root) LOCK_NAME"
  by (simp_all add: temps_def journal_path_def JOURNAL_NAME_def TEMP_PREFIX_def LOCK_NAME_def)

lemma write_secure_done:
  assumes "write_secure p c M w = (Done u, w')" "p \<notin> temps"
  shows "files w' p = Some c"
proof -
  from assms(1) obtain t w1 w2 w3 where t: "create_sibling 32 (parent_of p) M w1 = (Done t, w2)"
    and b: "onError (persist_body t c) (\<lambda>e. andThen (remove_quietly t) (\<lambda>_. failing e)) M w2 = (Done (), w3)"
    and r: "rename t p M w3 = (Done (), w')"
    unfolding write_secure_def by (auto elim!: andThenE)
  have "files w3 t = Some c" using b by (auto simp: onError_failing_done intro: persist_done)
  moreover have "t \<noteq> p" using create_sibling_temp[OF t] assms(2) by blast
  ultimately show ?thesis using rename_cases[OF r] by simp
qed

definition pending_journal :: "config_lock \<Rightarrow> nat \<Rightarrow> commit_file list \<Rightarrow> machine \<Rightarrow> world \<Rightarrow> commit_journal" where
  "pending_journal L g fs M w = \<lparr>cj_generation = g, cj_state = ''pending'', cj_started_at = clock M (ops w),
                cj_finished_at = None, cj_error = None, cj_files = map (\<lambda>f. journal_entry_of f g) fs\<rparr>"

lemma commit_files_valid:
  assumes "validate_batch [] fs = None"
  shows "commit_files L fs M w =
    andThen (write_journal_at (cl_root L) (pending_journal L (max (generation_now w) (cl_generation L) + 1) fs M w)) (\<lambda>_.
      andThen (commit_each L (max (generation_now w) (cl_generation L) + 1) 0 fs
          (pending_journal L (max (generation_now w) (cl_generation L) + 1) fs M w) [])
        (\<lambda>j. andThen (write_finished (cl_root L) j ''committed'' None)
          (\<lambda>_. andThen (remove_backups (cj_files j))
            (\<lambda>_. publish_generation (max (generation_now w) (cl_generation L) + 1))))) M w"
  using assms by (simp add: commit_files_def Let_def pending_journal_def)

lemma commit_filesE:
  assumes "commit_files L fs M w = (r, w')"
  defines "g \<equiv> max (generation_now w) (cl_generation L) + 1"
  obtains e where "r = Failed e" "within (internal (cl_root L)) w w'"
  | u w1 e where "write_journal_at (cl_root L) (pending_journal L g fs M w) M w = (Done u, w1)"
      "commit_each L g 0 fs (pending_journal L g fs M w) [] M w1 = (Failed e, w')" "r = Failed e"
  | u w1 j w2 e where "write_journal_at (cl_root L) (pending_journal L g fs M w) M w = (Done u, w1)"
      "commit_each L g 0 fs (pending_journal L g fs M w) [] M w1 = (Done j, w2)"
      "write_finished (cl_root L) j ''committed'' None M w2 = (Failed e, w')" "r = Failed e"
  | u w1 j w2 v w3 x w4 where "write_journal_at (cl_root L) (pending_journal L g fs M w) M w = (Done u, w1)"
      "commit_each L g 0 fs (pending_journal L g fs M w) [] M w1 = (Done j, w2)"
      "write_finished (cl_root L) j ''committed'' None M w2 = (Done v, w3)"
      "remove_backups (cj_files j) M w3 = (Done x, w4)" "(r, w') = publish_generation g M w4"
  | "r = Died"
proof (cases "validate_batch [] fs")
  case (Some e)
  with assms(1) have "r = Failed e" "w' = w" by (simp_all add: commit_files_def)
  then show thesis using that(1)[of e] by simp
next
  case None
  have rb: "\<And>es w e w'. remove_backups es M w \<noteq> (Failed e, w')"
  proof -
    fix es w e w' show "remove_backups es M w \<noteq> (Failed e, w')"
      by (induction es arbitrary: w) (auto simp: pure_def remove_quietly_def elim!: andThenE quietlyE)
  qed
  from assms(1)[unfolded commit_files_valid[OF None] g_def[symmetric]] show thesis
  proof (cases rule: andThenE)
    case (1 u w1)
    note a = 1(1)
    from 1(2) show thesis
    proof (cases rule: andThenE)
      case (1 j w2)
      note b = 1(1)
      from 1(2) show thesis
      proof (cases rule: andThenE)
        case (1 v w3)
        note c = 1(1)
        from 1(2) show thesis
        proof (cases rule: andThenE)
          case (1 x w4)
          show thesis by (rule that(4)[OF a b c 1(1)]) (simp add: 1(2))
        qed (use rb that(5) in auto)
      qed (use that(3)[OF a b] that(5) in auto)
    qed (use that(2)[OF a] that(5) in auto)
  next
    case (2 e)
    show thesis by (rule that(1)[OF 2(2) touchesD[OF touches_journal_root 2(1)]]) simp
  qed (use that(5) in auto)
qed

text \<open>A commit whose loop completed: the batch is in place, whatever happens after it.\<close>

lemma committed_batch:
  assumes sep: "separate (cl_root L) g fs" and j: "write_journal_at (cl_root L) (pending_journal L g fs M w) M w = (Done u, w1)"
    and e: "commit_each L g 0 fs (pending_journal L g fs M w) [] M w1 = (Done j, w2)"
  shows "within (batch_paths (cl_root L) g fs) w w2"
    and "\<forall>f\<in>set fs. files w2 (cf_path f) = Some (Body (cf_body f))"
    and "je_backup ` set (cj_files j) = (\<lambda>f. backup_path (cf_path f) g) ` set fs"
proof -
  note loop = commit_each_done[OF e sep]
  show "within (batch_paths (cl_root L) g fs) w w2"
  proof (rule within_trans)
    show "within (batch_paths (cl_root L) g fs) w w1"
      by (rule touchesD[OF touches_journal_root j]) (simp add: batch_paths_def)
    show "within (batch_paths (cl_root L) g fs) w1 w2" using loop by blast
  qed
  show "\<forall>f\<in>set fs. files w2 (cf_path f) = Some (Body (cf_body f))" using loop by (simp add: landed_ok_def)
  have "set (map je_backup (cj_files j)) = set (map je_backup (cj_files (pending_journal L g fs M w)))" using loop by simp
  then show "je_backup ` set (cj_files j) = (\<lambda>f. backup_path (cf_path f) g) ` set fs"
    by (simp add: pending_journal_def journal_entry_of_def image_image)
qed

lemma each_within:
  assumes "commit_each L g 0 fs j [] M w = (r, w')"
  shows "within (batch_paths (cl_root L) g fs) w w'"
  by (rule touchesD[OF touches_commit_each assms]) (simp add: landed_paths_def)

lemma target_not_internal: "separate root g fs \<Longrightarrow> f \<in> set fs \<Longrightarrow> cf_path f \<notin> internal root"
  using internal_disjoint[of root g fs f "cf_path f"] by simp

lemma internal_batch: "internal root \<subseteq> batch_paths root g fs"
  by (simp add: batch_paths_def)

lemma backups_batch: "(\<lambda>f. backup_path (cf_path f) g) ` set fs \<subseteq> batch_paths root g fs"
  by (auto simp: batch_paths_def)

lemma journal_not_batch: "separate root g fs \<Longrightarrow> journal_path root \<notin> (\<lambda>f. backup_path (cf_path f) g) ` set fs"
  by (metis (no_types, lifting) imageE in_file_paths(3) internal_disjoint internal_simps(1))

lemma commit_done:
  assumes run: "commit_files L fs M w = (Done h, w')"
    and sep: "separate (cl_root L) (max (generation_now w) (cl_generation L) + 1) fs"
  shows "(\<forall>f\<in>set fs. files w' (cf_path f) = Some (Body (cf_body f)))
    \<and> h = max (generation_now w) (cl_generation L) + 1 \<and> generation_now w' = h \<and> reload_epoch w' = reload_epoch w + 1
    \<and> (\<exists>j. read_journal_at (cl_root L) w' = Some j \<and> cj_state j = ''committed'')
    \<and> (\<forall>p. p \<notin> batch_paths (cl_root L) h fs \<longrightarrow> files w' p = files w p)"
  using run
proof (cases rule: commit_filesE)
  case (4 u w1 j w2 v w3 x w4)
  let ?root = "cl_root L" and ?g = "max (generation_now w) (cl_generation L) + 1"
  note batch = committed_batch[OF sep 4(1,2)]
  have a: "within (internal ?root) w2 w3" by (rule touchesD[OF touches_write_finished[OF subset_refl] 4(3)])
  have b: "within (je_backup ` set (cj_files j)) w3 w4" by (rule touchesD[OF touches_remove_backups[OF subset_refl] 4(4)])
  have c: "h = ?g" "w' = w4\<lparr>generation_now := max (generation_now w4) ?g, reload_epoch := reload_epoch w4 + 1\<rparr>"
    using 4(5) by (simp_all add: publish_generation_def)
  have all: "within (batch_paths ?root ?g fs) w w4"
    by (rule within_trans[OF batch(1) within_trans[OF within_mono[OF a internal_batch] within_mono[OF b]]])
      (use batch(3) backups_batch in simp)
  have "files w4 (cf_path f) = Some (Body (cf_body f))" if f: "f \<in> set fs" for f
  proof -
    have "cf_path f \<notin> je_backup ` set (cj_files j)" using batch(3) targets_not_backups[OF sep f] by auto
    with within_file[OF b] within_file[OF a target_not_internal[OF sep f]] batch(2) f show ?thesis by simp
  qed
  moreover have "files w4 (journal_path ?root) = Some (Journal (j\<lparr>cj_state := ''committed'', cj_finished_at := Some (clock M (ops w2)), cj_error := None\<rparr>))"
    using write_secure_done[OF 4(3)[unfolded write_finished_def write_journal_at_def] journal_not_temp(1)]
      within_file[OF b, of "journal_path ?root"] batch(3) journal_not_batch[OF sep] by simp
  ultimately show ?thesis
    using all c by (auto simp: within_def read_journal_at_def)
qed simp_all

text \<open>A commit that reports success published the whole batch: every target holds its new body, a
  larger generation than any before is announced, the journal says committed, and no file outside
  the batch and the commit's own files changed, whichever of its unimportant operations failed.\<close>

lemma commit_published:
  assumes run: "commit_files L fs M w = (Done h, w')"
    and sep: "separate (cl_root L) (max (generation_now w) (cl_generation L) + 1) fs"
  shows "(\<forall>f\<in>set fs. files w' (cf_path f) = Some (Body (cf_body f)))
    \<and> h = max (generation_now w) (cl_generation L) + 1 \<and> generation_now w' = h \<and> reload_epoch w' = reload_epoch w + 1
    \<and> (\<exists>j. read_journal_at (cl_root L) w' = Some j \<and> cj_state j = ''committed'')
    \<and> (\<forall>p. p \<notin> batch_paths (cl_root L) h fs \<longrightarrow> files w' p = files w p)"
  by (rule commit_done[OF run sep])

text \<open>C18: A commit in which at most one file-system operation fails, whichever it is, is all or nothing:
  every target holds its new body, or every target is as it was. Success is only reported with the
  new bodies in place, and no other file changes.\<close>

theorem commit_all_or_nothing:
  assumes run: "commit_files L fs M w = (r, w')" and alive: "r \<noteq> Died"
    and one: "\<forall>m. m \<noteq> k \<longrightarrow> plan M m = Works"
    and sep: "separate (cl_root L) (max (generation_now w) (cl_generation L) + 1) fs"
  shows "((\<forall>f\<in>set fs. files w' (cf_path f) = Some (Body (cf_body f))) \<or> (\<forall>f\<in>set fs. files w' (cf_path f) = files w (cf_path f)))
    \<and> (\<forall>g. r = Done g \<longrightarrow> (\<forall>f\<in>set fs. files w' (cf_path f) = Some (Body (cf_body f))))
    \<and> (\<forall>p. p \<notin> batch_paths (cl_root L) (max (generation_now w) (cl_generation L) + 1) fs \<longrightarrow> files w' p = files w p)"
  using run
proof (cases rule: commit_filesE)
  case (1 e)
  have "files w' (cf_path f) = files w (cf_path f)" if "f \<in> set fs" for f
    by (rule within_file[OF 1(2) target_not_internal[OF sep that]])
  moreover have "files w' p = files w p" if "p \<notin> batch_paths (cl_root L) (max (generation_now w) (cl_generation L) + 1) fs" for p
    by (rule within_file[OF 1(2)]) (use that internal_batch in blast)
  ultimately show ?thesis using 1(1) by simp
next
  case (2 u w1 e)
  let ?g = "max (generation_now w) (cl_generation L) + 1"
  have a: "within (internal (cl_root L)) w w1" by (rule touchesD[OF touches_journal_root[OF subset_refl] 2(1)])
  have "\<forall>f\<in>set fs. files w1 (cf_path f) = files w (cf_path f)"
    using within_file[OF a target_not_internal[OF sep]] by blast
  then have "\<forall>f\<in>set ([] @ fs). files w' (cf_path f) = files w (cf_path f)"
    by (intro commit_each_failed[OF _ _ _ _ one, where n = 0 and j = "pending_journal L ?g fs M w" and ps = "[]" and w = w1 and g = ?g and L = L and e = e])
      (use 2(2) sep in \<open>simp_all add: landed_of_def\<close>)
  moreover have "within (batch_paths (cl_root L) ?g fs) w w'"
    by (rule within_trans[OF within_mono[OF a internal_batch] each_within[OF 2(2)]])
  ultimately show ?thesis using 2(3) by (simp add: within_def)
next
  case (3 u w1 j w2 e)
  let ?g = "max (generation_now w) (cl_generation L) + 1"
  note batch = committed_batch[OF sep 3(1,2)]
  have a: "within (internal (cl_root L)) w2 w'" by (rule touchesD[OF touches_write_finished[OF subset_refl] 3(3)])
  have "files w' (cf_path f) = Some (Body (cf_body f))" if "f \<in> set fs" for f
    using within_file[OF a target_not_internal[OF sep that]] batch(2) that by simp
  moreover have "within (batch_paths (cl_root L) ?g fs) w w'"
    by (rule within_trans[OF batch(1) within_mono[OF a internal_batch]])
  ultimately show ?thesis by (simp add: within_def)
next
  case (4 u w1 j w2 v w3 x w4)
  then have "r = Done (max (generation_now w) (cl_generation L) + 1)" by (simp add: publish_generation_def)
  with commit_done[OF _ sep] run show ?thesis by blast
qed (use alive in simp)

section \<open>Recovery\<close>

definition entry_paths :: "journal_entry \<Rightarrow> path list" where "entry_paths e = [je_path e, je_backup e]"

lemma touches_recover_entry: "set (entry_paths e) \<subseteq> X \<Longrightarrow> touches X (recover_entry e)"
  unfolding recover_entry_def by (intro touching) (auto simp: entry_paths_def)

lemma touches_recover_entries: "(\<Union>e\<in>set es. set (entry_paths e)) \<subseteq> X \<Longrightarrow> touches X (recover_entries es)"
  by (induction es) (auto intro!: touching touches_recover_entry)

lemma recover_entry_works:
  assumes works: "\<And>m. ops w \<le> m \<Longrightarrow> plan M m = Works" and apart: "je_path e \<noteq> je_backup e"
    and run: "recover_entry e M w = (r, w')"
  shows "(\<exists>x. r = Done x) \<and> files w' (je_path e) = (if je_done e then files w (je_path e) else files w (je_backup e))"
  using assms
  by (auto simp: recover_entry_def rename_def remove_file_def exists_def reading_def run_defs split: option.splits if_splits)

lemma recover_entries_works:
  assumes "recover_entries es M w = (r, w')" "\<And>m. ops w \<le> m \<Longrightarrow> plan M m = Works"
    "distinct (concat (map entry_paths es))"
  shows "(\<exists>x. r = Done x) \<and> (\<forall>e\<in>set es. files w' (je_path e) = (if je_done e then files w (je_path e) else files w (je_backup e)))"
  using assms
proof (induction es arbitrary: w r w')
  case (Cons e es)
  obtain r1 w1 where one: "recover_entry e M w = (r1, w1)" by fastforce
  have apart: "je_path e \<noteq> je_backup e" "set (entry_paths e) \<inter> (\<Union>x\<in>set es. set (entry_paths x)) = {}"
    "distinct (concat (map entry_paths es))"
    using Cons.prems(3) by (auto simp: entry_paths_def[abs_def])
  note step = recover_entry_works[OF Cons.prems(2) apart(1) one]
  obtain r2 w2 where two: "recover_entries es M w1 = (r2, w2)" by fastforce
  note X = touches_recover_entry[OF subset_refl]
  have ih: "(\<exists>x. r2 = Done x) \<and> (\<forall>e\<in>set es. files w2 (je_path e) = (if je_done e then files w1 (je_path e) else files w1 (je_backup e)))"
    by (rule Cons.IH[OF two _ apart(3)]) (use Cons.prems(2) touches_ops[OF X one] in simp)
  have w': "w' = w2" "\<exists>x. r = Done x"
    using Cons.prems(1) one two step ih by (auto simp: andThen_def pure_def)
  have e: "files w2 p = files w1 p" if "p \<in> set (entry_paths e)" for p
    using within_file[OF touchesD[OF touches_recover_entries[OF subset_refl] two], of p] that apart(2) by auto
  have es: "files w1 p = files w p" if "x \<in> set es" "p \<in> set (entry_paths x)" for x p
    using within_file[OF touchesD[OF X one], of p] that apart(2) by auto
  show ?case
    using w' step ih e[of "je_path e"] es by (auto simp: entry_paths_def)
qed (simp add: pure_def)

lemma works_alive: "touches X p \<Longrightarrow> p M w = (r, w') \<Longrightarrow> (\<And>m. ops w \<le> m \<Longrightarrow> plan M m = Works) \<Longrightarrow> r \<noteq> Died"
  using touches_died[of X p M w w'] by fastforce

lemma recover_works:
  assumes run: "recover_at_startup_at root M w = (r, w')" and works: "\<And>m. ops w \<le> m \<Longrightarrow> plan M m = Works"
    and j: "read_journal_at root w = Some j" "cj_state j = ''pending''"
    and apart: "distinct (concat (map entry_paths (cj_files j)))" "\<forall>e\<in>set (cj_files j). je_path e \<notin> internal root"
  shows "(\<exists>rep. r = Done rep \<and> rr_state rep = ''restored'' \<and> rr_generation rep = cj_generation j)
    \<and> (\<forall>e\<in>set (cj_files j). files w' (je_path e) = (if je_done e then files w (je_path e) else files w (je_backup e)))"
proof -
  let ?note = "quietly (write_finished root j ''restored'' (Some ''recovered after interrupted commit''))"
  obtain r1 w1 where one: "recover_entries (cj_files j) M w = (r1, w1)" by fastforce
  obtain r2 w2 where two: "?note M w1 = (r2, w2)" by fastforce
  note rec = recover_entries_works[OF one works apart(1)]
  note X = touches_recover_entries[OF subset_refl, of "cj_files j"] and Y = touches_quietly[OF touches_write_finished[OF subset_refl]]
  have "r2 \<noteq> Died" by (rule works_alive[OF Y two]) (use works touches_ops[OF X one] in simp)
  with two have r2: "r2 = Done ()" by (cases rule: quietlyE) auto
  have "\<exists>rep. r = Done rep \<and> rr_state rep = ''restored'' \<and> rr_generation rep = cj_generation j" "w' = w2"
    using run rec one two r2 j by (auto simp: recover_at_startup_at_def andThen_def pure_def)
  moreover have "files w2 (je_path e) = files w1 (je_path e)" if "e \<in> set (cj_files j)" for e
    using within_file[OF touchesD[OF Y two], of "je_path e"] apart(2) that by blast
  ultimately show ?thesis using rec by simp
qed

text \<open>C19: What the recovery of an interrupted commit does to the files of its batch: a file that had
  landed keeps what it holds, and every other target takes its backup, or is deleted when it has
  none. Nothing happens without a pending journal.\<close>

theorem recover_exact:
  assumes run: "recover_at_startup_at root M w = (r, w')" and works: "\<And>m. ops w \<le> m \<Longrightarrow> plan M m = Works"
    and apart: "\<And>j. read_journal_at root w = Some j \<Longrightarrow> distinct (concat (map entry_paths (cj_files j)))
      \<and> (\<forall>e\<in>set (cj_files j). je_path e \<notin> internal root)"
  shows "case read_journal_at root w of
      Some j \<Rightarrow> if cj_state j = ''pending''
        then (\<exists>rep. r = Done rep \<and> rr_state rep = ''restored'' \<and> rr_generation rep = cj_generation j)
          \<and> (\<forall>e\<in>set (cj_files j). files w' (je_path e) = (if je_done e then files w (je_path e) else files w (je_backup e)))
        else w' = w
    | None \<Rightarrow> w' = w"
  using recover_works[OF run works] apart run
  by (auto simp: recover_at_startup_at_def split: option.splits)

section \<open>A commit that dies\<close>

text \<open>The next process starts with its statics reset.\<close>

definition restart :: "world \<Rightarrow> world" where
  "restart w = w\<lparr>ops := 0, generation_now := 0, reload_epoch := 0\<rparr>"

lemma create_sibling_fresh:
  assumes "plan M (ops w) = Works" "files w (Path (Some d) (TEMP_PREFIX @ temp_name M (ops w))) = None"
  shows "create_sibling (Suc n) d M w = (Done (Path (Some d) (TEMP_PREFIX @ temp_name M (ops w))),
     w\<lparr>ops := ops w + 1, files := (files w)(Path (Some d) (TEMP_PREFIX @ temp_name M (ops w)) \<mapsto> Partial)\<rparr>)"
  using assms by (simp add: open_created_def fs_op_def Let_def)

lemma write_secure_works:
  assumes p: "p \<notin> temps" and temps: "\<forall>q\<in>temps. files w q = None" and works: "\<forall>m < ops w + 4. plan M m = Works"
  shows "write_secure p c M w = (Done (), w\<lparr>ops := ops w + 4, files := (files w)(p \<mapsto> c)\<rparr>)"
proof -
  define t where "t = Path (Some (parent_of p)) (TEMP_PREFIX @ temp_name M (ops w + 1))"
  let ?w1 = "w\<lparr>ops := ops w + 1\<rparr>"
  let ?w2 = "w\<lparr>ops := ops w + 2, files := (files w)(t \<mapsto> Partial)\<rparr>"
  let ?w3 = "w\<lparr>ops := ops w + 3, files := (files w)(t \<mapsto> c)\<rparr>"
  have t: "t \<in> temps" by (auto simp: t_def temps_def)
  then have fresh: "files w t = None" "t \<noteq> p" using temps p by auto
  have disk: "(files w)(t := None, p \<mapsto> c) = (files w)(p \<mapsto> c)" using fresh by (auto simp: fun_eq_iff)
  have "create_dir_all M w = (Done (), ?w1)"
    using works by (simp add: create_dir_all_def fs_op_def Let_def)
  moreover have "create_sibling 32 (parent_of p) M ?w1 = (Done t, ?w2)"
    using create_sibling_fresh[of M ?w1 "parent_of p" 31] works fresh by (simp add: t_def)
  moreover have "persist_body t c M ?w2 = (Done (), ?w3)"
    using works by (simp add: persist_body_def fs_op_def Let_def)
  moreover have "rename t p M ?w3 = (Done (), w\<lparr>ops := ops w + 4, files := (files w)(p \<mapsto> c)\<rparr>)"
    using works by (simp add: rename_def fs_op_def Let_def disk)
  ultimately show ?thesis by (simp add: write_secure_def andThen_def onError_def)
qed

lemma commit_dies_early:
  assumes valid: "validate_batch [] fs = None" and some: "fs \<noteq> []" and temps: "\<forall>p\<in>temps. files w p = None"
    and dies: "\<forall>m < ops w + 4. plan M m = Works" "plan M (ops w + 4) = Dies"
    and j: "j = pending_journal L (max (generation_now w) (cl_generation L) + 1) fs M w"
  shows "commit_files L fs M w = (Died, w\<lparr>ops := ops w + 5, files := (files w)(journal_path (cl_root L) \<mapsto> Journal j)\<rparr>)"
proof -
  obtain f fs' where fs: "fs = f # fs'" using some by (cases fs) auto
  let ?w = "w\<lparr>ops := ops w + 4, files := (files w)(journal_path (cl_root L) \<mapsto> Journal j)\<rparr>"
  have "write_journal_at (cl_root L) j M w = (Done (), ?w)"
    unfolding write_journal_at_def by (rule write_secure_works[OF journal_not_temp(1) temps dies(1)])
  moreover have "touch_heartbeat L M ?w = (Died, ?w\<lparr>ops := ops w + 5\<rparr>)"
    using dies(2) by (simp add: touch_heartbeat_def quietly_def onError_def andThen_def write_secure_def create_dir_all_def fs_op_def Let_def)
  ultimately show ?thesis
    by (simp only: commit_files_valid[OF valid, of L M w, folded j]) (simp add: andThen_def fs)
qed

lemma pending_paths:
  assumes "separate root g fs"
  shows "distinct (concat (map entry_paths (map (\<lambda>f. journal_entry_of f g) fs)))"
  using assms
proof (induction fs)
  case (Cons f fs)
  then have ih: "distinct (concat (map entry_paths (map (\<lambda>f. journal_entry_of f g) fs)))"
    and apart: "\<forall>h\<in>set fs. set (file_paths g f) \<inter> set (file_paths g h) = {}"
    by (simp_all add: separate_Cons)
  have sub: "set (entry_paths (journal_entry_of h g)) \<subseteq> set (file_paths g h)" for h
    by (simp add: entry_paths_def journal_entry_of_def file_paths_def)
  have "set (entry_paths (journal_entry_of f g)) \<inter> set (entry_paths (journal_entry_of h g)) = {}" if "h \<in> set fs" for h
    using sub[of f] sub[of h] apart that by blast
  moreover have "distinct (entry_paths (journal_entry_of f g))"
    by (simp add: entry_paths_def journal_entry_of_def sides_distinct)
  ultimately show ?case using ih by auto
qed simp

text \<open>A commit that dies just after it announced itself, before it touched any file, loses every
  file of the batch: the recovery at the next start finds no backup of them and deletes them.\<close>

lemma interrupted_commit_deletes:
  assumes sep: "separate (cl_root L) (max (generation_now w) (cl_generation L) + 1) fs"
    and valid: "validate_batch [] fs = None" and some: "fs \<noteq> []"
    and clean: "\<forall>f\<in>set fs. files w (backup_path (cf_path f) (max (generation_now w) (cl_generation L) + 1)) = None"
    and temps: "\<forall>p\<in>temps. files w p = None"
    and dies: "\<forall>m < ops w + 4. plan M m = Works" "plan M (ops w + 4) = Dies"
    and next_start: "\<forall>m. plan M2 m = Works"
  shows "fst (commit_files L fs M w) = Died
    \<and> (\<forall>f\<in>set fs. files (snd (commit_files L fs M w)) (cf_path f) = files w (cf_path f))
    \<and> (\<forall>f\<in>set fs. files (snd (recover_at_startup_at (cl_root L) M2 (restart (snd (commit_files L fs M w))))) (cf_path f) = None)"
proof -
  let ?g = "max (generation_now w) (cl_generation L) + 1" and ?root = "cl_root L"
  define j where "j = pending_journal L ?g fs M w"
  define w1 where "w1 = snd (commit_files L fs M w)"
  note run = commit_dies_early[OF valid some temps dies j_def]
  have w1: "files w1 = (files w)(journal_path ?root \<mapsto> Journal j)" by (simp add: w1_def run)
  have off: "p \<noteq> journal_path ?root" if "f \<in> set fs" "p \<in> set (file_paths ?g f)" for f p
    using internal_disjoint[OF sep that] internal_simps(1) by blast
  obtain r w2 where rec: "recover_at_startup_at ?root M2 (restart w1) = (r, w2)" by fastforce
  have "read_journal_at ?root (restart w1) = Some j" by (simp add: read_journal_at_def restart_def w1)
  moreover have "cj_state j = ''pending''" "cj_files j = map (\<lambda>f. journal_entry_of f ?g) fs"
    by (simp_all add: j_def pending_journal_def)
  moreover have "\<forall>e\<in>set (cj_files j). je_path e \<notin> internal ?root"
    using target_not_internal[OF sep] by (auto simp: j_def pending_journal_def journal_entry_of_def)
  ultimately have out: "\<forall>e\<in>set (cj_files j). files w2 (je_path e) = (if je_done e then files (restart w1) (je_path e) else files (restart w1) (je_backup e))"
    using recover_works[OF rec _ , of j] next_start pending_paths[OF sep] by auto
  have "files w2 (cf_path f) = None" if f: "f \<in> set fs" for f
  proof -
    have "journal_entry_of f ?g \<in> set (cj_files j)" using f by (simp add: j_def pending_journal_def)
    from bspec[OF out this] have "files w2 (cf_path f) = files w1 (backup_path (cf_path f) ?g)"
      by (simp add: journal_entry_of_def restart_def)
    also have "\<dots> = None" using clean f off[OF f in_file_paths(3)] by (simp add: w1)
    finally show ?thesis .
  qed
  moreover have "files w1 (cf_path f) = files w (cf_path f)" if "f \<in> set fs" for f
    using off[OF that in_file_paths(1)] by (simp add: w1)
  ultimately show ?thesis unfolding w1_def[symmetric] using rec by (simp add: run)
qed

section \<open>Concrete commits\<close>

definition demo_config :: path where "demo_config = Path (Some ''r'') ''config.toml''"
definition demo_auth :: path where "demo_auth = Path (Some ''r'') ''auth.json''"

definition demo_batch :: "commit_file list" where
  "demo_batch = [\<lparr>cf_slot = ''config'', cf_path = demo_config, cf_body = ''new config''\<rparr>,
     \<lparr>cf_slot = ''auth'', cf_path = demo_auth, cf_body = ''new auth''\<rparr>]"

definition demo_world :: world where
  "demo_world = \<lparr>files = [demo_config \<mapsto> Body ''old config'', demo_auth \<mapsto> Body ''old auth''],
     ops = 0, generation_now = 0, reload_epoch = 0\<rparr>"

definition demo_machine :: "(nat \<Rightarrow> fault) \<Rightarrow> machine" where
  "demo_machine pl = \<lparr>plan = pl, clock = (\<lambda>_. ''t''), temp_name = nat_str, error_line = (\<lambda>_. ''error'')\<rparr>"

definition demo_config_lock :: config_lock where
  "demo_config_lock = \<lparr>cl_root = ''r'', cl_pid = 1, cl_holder = 1, cl_generation = 0\<rparr>"

definition demo_commit :: "(nat \<Rightarrow> fault) \<Rightarrow> nat io \<times> world" where
  "demo_commit pl = commit_files demo_config_lock demo_batch (demo_machine pl) demo_world"

lemmas demo_paths_defs = demo_config_def demo_auth_def demo_batch_def demo_config_lock_def

lemma demo_separate: "separate (cl_root demo_config_lock) (max (generation_now demo_world) (cl_generation demo_config_lock) + 1) demo_batch"
  by (auto simp: separate_def demo_paths_defs demo_world_def file_paths_def staged_path_def backup_path_def
      sibling_with_suffix_def internal_def temps_def journal_path_def JOURNAL_NAME_def LOCK_NAME_def TEMP_PREFIX_def)

lemma demo_commit_run: "fst (demo_commit pl) = r \<Longrightarrow> commit_files demo_config_lock demo_batch (demo_machine pl) demo_world = (r, snd (demo_commit pl))"
  by (simp add: demo_commit_def prod_eq_iff)

theorem commit_published_witness:
  "files (snd (demo_commit (\<lambda>_. Works))) demo_auth = Some (Body ''new auth'')"
proof -
  have "fst (demo_commit (\<lambda>_. Works)) = Done 1" by code_simp
  from commit_published[OF demo_commit_run[OF this] demo_separate] show ?thesis
    by (simp add: demo_batch_def)
qed

text \<open>The second file cannot be renamed into place: the first one, already in place, is taken back.\<close>

theorem commit_all_or_nothing_witness:
  "fst (demo_commit (\<lambda>n. if n = 29 then Fails else Works)) = Failed Io
   \<and> files (snd (demo_commit (\<lambda>n. if n = 29 then Fails else Works))) demo_config = Some (Body ''old config'')"
proof -
  have f: "fst (demo_commit (\<lambda>n. if n = 29 then Fails else Works)) = Failed Io" by code_simp
  have "\<forall>m. m \<noteq> 29 \<longrightarrow> plan (demo_machine (\<lambda>n. if n = 29 then Fails else Works)) m = Works"
    by (simp add: demo_machine_def)
  from commit_all_or_nothing[OF demo_commit_run[OF f] _ this demo_separate]
  have "files (snd (demo_commit (\<lambda>n. if n = 29 then Fails else Works))) demo_config \<in> {Some (Body ''new config''), Some (Body ''old config'')}"
    by (auto simp: demo_batch_def demo_world_def demo_auth_def demo_config_def)
  moreover have "files (snd (demo_commit (\<lambda>n. if n = 29 then Fails else Works))) demo_auth = Some (Body ''old auth'')"
    by code_simp
  ultimately show ?thesis
    using f commit_all_or_nothing[OF demo_commit_run[OF f] _ \<open>\<forall>m. m \<noteq> 29 \<longrightarrow> _ m = Works\<close> demo_separate]
    by (auto simp: demo_batch_def demo_world_def demo_auth_def demo_config_def)
qed

lemma demo_no_temps: "\<forall>p\<in>temps. files demo_world p = None"
  by (auto simp: demo_world_def temps_def demo_config_def demo_auth_def TEMP_PREFIX_def)

theorem interrupted_commit_deletes_witness:
  "files demo_world demo_config = Some (Body ''old config'')
   \<and> files (snd (recover_at_startup_at ''r'' (demo_machine (\<lambda>_. Works))
       (restart (snd (demo_commit (\<lambda>n. if n = 4 then Dies else Works)))))) demo_config = None"
proof -
  let ?M = "demo_machine (\<lambda>n. if n = 4 then Dies else Works)"
  have clean: "\<forall>f\<in>set demo_batch. files demo_world (backup_path (cf_path f) (max (generation_now demo_world) (cl_generation demo_config_lock) + 1)) = None"
    by (simp add: demo_paths_defs demo_world_def backup_path_def sibling_with_suffix_def)
  have valid: "validate_batch [] demo_batch = None" by code_simp
  have plan: "demo_batch \<noteq> []" "\<forall>m < ops demo_world + 4. plan ?M m = Works" "plan ?M (ops demo_world + 4) = Dies"
    "\<forall>m. plan (demo_machine (\<lambda>_. Works)) m = Works"
    by (simp_all add: demo_batch_def demo_machine_def demo_world_def)
  have "\<forall>f\<in>set demo_batch. files (snd (recover_at_startup_at ''r'' (demo_machine (\<lambda>_. Works))
       (restart (snd (demo_commit (\<lambda>n. if n = 4 then Dies else Works)))))) (cf_path f) = None"
    using interrupted_commit_deletes[OF demo_separate valid plan(1) clean demo_no_temps plan(2-4)]
    by (simp add: demo_commit_def demo_config_lock_def)
  then show ?thesis by (simp add: demo_batch_def demo_world_def demo_config_def demo_auth_def)
qed

text \<open>
  Death between two files: the first keeps its new body, the second, which was not reached, is
  deleted, so the recovered configuration mixes two revisions.
\<close>

definition demo_died :: world where
  "demo_died = restart (snd (demo_commit (\<lambda>n. if n = 19 then Dies else Works)))"

lemma recovery_mixes_revisions:
  "let w = snd (recover_at_startup_at ''r'' (demo_machine (\<lambda>_. Works)) demo_died)
   in files w demo_config = Some (Body ''new config'') \<and> files w demo_auth = None"
  by code_simp


text \<open>Death between the rename of the second file and its note in the journal.\<close>

definition demo_half :: world where
  "demo_half = demo_world\<lparr>files := [demo_config \<mapsto> Body ''new config'', demo_auth \<mapsto> Body ''new auth'',
     backup_path demo_config 1 \<mapsto> Body ''old config'', backup_path demo_auth 1 \<mapsto> Body ''old auth'',
     journal_path ''r'' \<mapsto> Journal \<lparr>cj_generation = 1, cj_state = ''pending'', cj_started_at = ''t'',
       cj_finished_at = None, cj_error = None,
       cj_files = mark_done 0 (map (\<lambda>f. journal_entry_of f 1) demo_batch)\<rparr>]\<rparr>"

theorem recover_exact_witness:
  "files (snd (recover_at_startup_at ''r'' (demo_machine (\<lambda>_. Works)) demo_half)) demo_config = Some (Body ''new config'')
   \<and> files (snd (recover_at_startup_at ''r'' (demo_machine (\<lambda>_. Works)) demo_half)) demo_auth = Some (Body ''old auth'')"
proof -
  let ?r = "recover_at_startup_at ''r'' (demo_machine (\<lambda>_. Works)) demo_half"
  define j where "j = \<lparr>cj_generation = 1, cj_state = ''pending'', cj_started_at = ''t'', cj_finished_at = None, cj_error = None,
       cj_files = [(journal_entry_of (demo_batch ! 0) 1)\<lparr>je_done := True\<rparr>, journal_entry_of (demo_batch ! 1) 1]\<rparr>"
  have j: "read_journal_at ''r'' demo_half = Some j"
    by (simp add: read_journal_at_def demo_half_def j_def demo_batch_def)
  have off: "p \<notin> internal ''r''" if "p = demo_config \<or> p = demo_auth" for p
    using that by (auto simp: internal_def temps_def demo_config_def demo_auth_def journal_path_def
        JOURNAL_NAME_def LOCK_NAME_def TEMP_PREFIX_def)
  have files: "files demo_half demo_config = Some (Body ''new config'')"
    "files demo_half (backup_path demo_auth 1) = Some (Body ''old auth'')"
    by (simp_all add: demo_half_def demo_paths_defs backup_path_def sibling_with_suffix_def journal_path_def JOURNAL_NAME_def)
  have run: "?r = (fst ?r, snd ?r)" by simp
  have works: "\<And>m. ops demo_half \<le> m \<Longrightarrow> plan (demo_machine (\<lambda>_. Works)) m = Works" by (simp add: demo_machine_def)
  have "distinct (concat (map entry_paths (cj_files j))) \<and> (\<forall>e\<in>set (cj_files j). je_path e \<notin> internal ''r'')"
    using off by (simp add: j_def demo_batch_def journal_entry_of_def entry_paths_def)
      (simp add: demo_paths_defs backup_path_def sibling_with_suffix_def)
  then have apart: "\<And>i. read_journal_at ''r'' demo_half = Some i \<Longrightarrow> distinct (concat (map entry_paths (cj_files i)))
      \<and> (\<forall>e\<in>set (cj_files i). je_path e \<notin> internal ''r'')"
    using j by simp
  from recover_exact[OF run works apart] j files show ?thesis
    by (simp add: j_def demo_batch_def journal_entry_of_def)
qed


text \<open>
  Only the last journal write fails, at its rename: the commit is reported as failed with the whole
  batch in place, and the temporary file of the journal stays behind.
\<close>

lemma unreported_commit:
  "let r = demo_commit (\<lambda>n. if n = 37 then Fails else Works)
   in fst r = Failed Io \<and> files (snd r) demo_config = Some (Body ''new config'')
      \<and> files (snd r) demo_auth = Some (Body ''new auth'')
      \<and> files (snd r) (Path (Some ''r'') ''.argos-tmp-35'') \<noteq> None"
  by code_simp

end
