(* ===== verification/Config_Lock.thy ===== *)
theory Config_Lock
  imports Prelude
begin

text \<open>
  The configuration lock (\<open>config_commit.rs\<close>): a lock file created exclusively, kept alive by a
  heartbeat, taken over when it is stale, and released only by its owner. Processes interleave at
  the single file operations of \<open>acquire_at\<close>, \<open>touch_heartbeat\<close> and \<open>drop\<close>.
\<close>

section \<open>The lock file\<close>

text \<open>
  A holder is a process and a number unique in it. The file is empty from its creation to the end of its first write; \<open>lf_maker\<close> is the holder whose
  descriptor it is, so a late write of a removed file does not reach its successor. Times are
  seconds; \<open>None\<close> is a heartbeat that does not parse.
\<close>

datatype holder = Holder nat nat

datatype lock_text = Unfinished | Owner holder "int option"

record lock_file =
  lf_maker :: holder
  lf_text :: lock_text
  lf_modified :: int

definition LOCK_STALE_SECS :: int where "LOCK_STALE_SECS = 30"

definition heartbeat_is_stale :: "int \<Rightarrow> int option \<Rightarrow> bool" where
  "heartbeat_is_stale now hb = (case hb of Some at \<Rightarrow> now - at \<ge> LOCK_STALE_SECS | None \<Rightarrow> True)"

text \<open>A modification time in the future is not stale.\<close>

definition lock_file_is_older_than_stale :: "int \<Rightarrow> lock_file option \<Rightarrow> bool" where
  "lock_file_is_older_than_stale now f = (case f of None \<Rightarrow> True
     | Some l \<Rightarrow> lf_modified l \<le> now \<and> now - lf_modified l \<ge> LOCK_STALE_SECS)"

definition lock_takeover :: "int \<Rightarrow> lock_file option \<Rightarrow> bool" where
  "lock_takeover now f = (case f of
       Some l \<Rightarrow> (case lf_text l of
           Owner h hb \<Rightarrow> heartbeat_is_stale now hb
         | Unfinished \<Rightarrow> lock_file_is_older_than_stale now f)
     | None \<Rightarrow> lock_file_is_older_than_stale now f)"

definition lock_is_ours :: "holder \<Rightarrow> lock_file option \<Rightarrow> bool" where
  "lock_is_ours h f = (case f of Some l \<Rightarrow> (case lf_text l of Owner k hb \<Rightarrow> k = h | Unfinished \<Rightarrow> False) | None \<Rightarrow> False)"

section \<open>Processes\<close>

text \<open>Where a writer is in \<open>acquire_at\<close>, or that it holds the lock.\<close>

datatype stage = Waiting | Blocked | Writing | Removing | Recreating | Holding

record locks =
  lock_on_disk :: "lock_file option"
  stages :: "holder \<Rightarrow> stage"

definition set_stage :: "holder \<Rightarrow> stage \<Rightarrow> locks \<Rightarrow> locks" where
  "set_stage h s L = L\<lparr>stages := (stages L)(h := s)\<rparr>"

definition create_lock :: "holder \<Rightarrow> int \<Rightarrow> locks \<Rightarrow> locks" where
  "create_lock h now L = (if lock_on_disk L = None
     then set_stage h Writing (L\<lparr>lock_on_disk := Some \<lparr>lf_maker = h, lf_text = Unfinished, lf_modified = now\<rparr>\<rparr>)
     else set_stage h (if stages L h = Waiting then Blocked else Waiting) L)"

text \<open>A writer whose creation failed looks at the file: dead, or it sleeps and tries again.\<close>

definition look_at_lock :: "holder \<Rightarrow> int \<Rightarrow> locks \<Rightarrow> bool \<times> locks" where
  "look_at_lock h now L = (if lock_takeover now (lock_on_disk L) then (True, set_stage h Removing L)
     else (False, set_stage h Waiting L))"

definition finish_lock :: "holder \<Rightarrow> int \<Rightarrow> locks \<Rightarrow> locks" where
  "finish_lock h now L = set_stage h Holding (case lock_on_disk L of
       Some l \<Rightarrow> if lf_maker l = h then L\<lparr>lock_on_disk := Some (l\<lparr>lf_text := Owner h (Some now), lf_modified := now\<rparr>)\<rparr> else L
     | None \<Rightarrow> L)"

definition remove_dead :: "holder \<Rightarrow> locks \<Rightarrow> locks" where
  "remove_dead h L = set_stage h Recreating (L\<lparr>lock_on_disk := None\<rparr>)"

text \<open>\<open>write_secure\<close> replaces the file by rename, whosever it is.\<close>

definition touch_lock :: "holder \<Rightarrow> int \<Rightarrow> locks \<Rightarrow> locks" where
  "touch_lock h now L = L\<lparr>lock_on_disk := Some \<lparr>lf_maker = h, lf_text = Owner h (Some now), lf_modified = now\<rparr>\<rparr>"

definition release_lock :: "holder \<Rightarrow> locks \<Rightarrow> locks" where
  "release_lock h L = set_stage h Waiting
     (if lock_is_ours h (lock_on_disk L) then L\<lparr>lock_on_disk := None\<rparr> else L)"

text \<open>\<open>dead\<close> says whether a step found the lock file dead and goes on to take it over.\<close>

inductive lock_step :: "bool \<Rightarrow> locks \<Rightarrow> locks \<Rightarrow> bool" where
  ls_create: "stages L h \<in> {Waiting, Recreating} \<Longrightarrow> lock_step False L (create_lock h now L)"
| ls_finish: "stages L h = Writing \<Longrightarrow> lock_step False L (finish_lock h now L)"
| ls_look: "stages L h = Blocked \<Longrightarrow> look_at_lock h now L = (dead, L') \<Longrightarrow> lock_step dead L L'"
| ls_remove: "stages L h = Removing \<Longrightarrow> lock_step False L (remove_dead h L)"
| ls_touch: "stages L h = Holding \<Longrightarrow> lock_step False L (touch_lock h now L)"
| ls_release: "stages L h = Holding \<Longrightarrow> lock_step False L (release_lock h L)"

definition unlocked :: locks where
  "unlocked = \<lparr>lock_on_disk = None, stages = (\<lambda>_. Waiting)\<rparr>"

section \<open>Exclusion\<close>

text \<open>Without takeovers the writer of the file is the one that writes or holds the lock.\<close>

definition lock_at :: "locks \<Rightarrow> holder \<Rightarrow> bool" where
  "lock_at L h \<longleftrightarrow> stages L h \<noteq> Removing \<and> stages L h \<noteq> Recreating
     \<and> (stages L h = Writing \<or> stages L h = Holding \<longleftrightarrow> map_option lf_maker (lock_on_disk L) = Some h)
     \<and> (stages L h = Holding \<longrightarrow> lock_is_ours h (lock_on_disk L))"

definition lock_inv :: "locks \<Rightarrow> bool" where "lock_inv L \<longleftrightarrow> (\<forall>h. lock_at L h)"

lemma lock_step_at:
  assumes step: "lock_step False L L'" and inv: "\<And>h. lock_at L h"
  shows "lock_at L' k"
  using step
proof cases
  case (ls_create h now)
  with inv[of h] inv[of k] show ?thesis
    by (cases "k = h"; cases "lock_on_disk L") (auto simp: lock_at_def create_lock_def set_stage_def)
next
  case (ls_finish h now)
  with inv[of h] inv[of k] show ?thesis
    by (cases "k = h") (auto simp: lock_at_def finish_lock_def set_stage_def lock_is_ours_def)
next
  case (ls_look h now)
  with inv[of h] inv[of k] show ?thesis
    by (cases "k = h") (auto simp: lock_at_def look_at_lock_def set_stage_def split: if_splits)
next
  case (ls_remove h)
  with inv[of h] show ?thesis by (simp add: lock_at_def)
next
  case (ls_touch h now)
  with inv[of h] inv[of k] show ?thesis
    by (cases "k = h") (auto simp: lock_at_def touch_lock_def lock_is_ours_def)
next
  case (ls_release h)
  with inv[of h] inv[of k] show ?thesis
    by (cases "k = h") (auto simp: lock_at_def release_lock_def set_stage_def)
qed

lemma lock_step_inv: "lock_inv L \<Longrightarrow> lock_step False L L' \<Longrightarrow> lock_inv L'"
  by (simp add: lock_inv_def lock_step_at)

interpretation lock_sys: step_system "\<lambda>L. L = unlocked" "lock_step False" lock_inv
proof unfold_locales
  show "lock_inv L" if "L = unlocked" for L using that by (simp add: lock_inv_def lock_at_def unlocked_def)
  show "lock_inv L'" if "lock_inv L" "lock_step False L L'" for L L' using lock_step_inv[OF that] .
qed

text \<open>C20: While no writer finds the lock dead, the lock excludes: in every reachable state at most one
  writer holds it, the file on disk names that writer, and a release leaves no file behind.\<close>

theorem lock_excludes:
  assumes "run_of (lock_step False) unlocked L" and "stages L h = Holding"
  shows "(\<forall>k. stages L k = Holding \<longrightarrow> k = h) \<and> lock_is_ours h (lock_on_disk L)
    \<and> lock_on_disk (release_lock h L) = None"
proof -
  have inv: "lock_inv L" using lock_sys.inv_reachable[OF refl assms(1)] .
  then have ours: "lock_is_ours h (lock_on_disk L)" and maker: "map_option lf_maker (lock_on_disk L) = Some h"
    using assms(2) unfolding lock_inv_def lock_at_def by blast+
  moreover have "k = h" if "stages L k = Holding" for k
  proof -
    from inv that have "map_option lf_maker (lock_on_disk L) = Some k" unfolding lock_inv_def lock_at_def by blast
    with maker show ?thesis by simp
  qed
  ultimately show ?thesis by (simp add: release_lock_def set_stage_def)
qed

text \<open>A live lock is not taken over: its heartbeat is younger than the stale window.\<close>

lemma live_lock_kept:
  assumes "lock_on_disk L = Some l" "lf_text l = Owner k (Some at)" "now < at + LOCK_STALE_SECS"
  shows "look_at_lock h now L = (False, set_stage h Waiting L)"
  using assms by (simp add: look_at_lock_def lock_takeover_def heartbeat_is_stale_def)

section \<open>Two holders\<close>

definition demo_a :: holder where "demo_a = Holder 1 1"
definition demo_b :: holder where "demo_b = Holder 2 1"
definition demo_c :: holder where "demo_c = Holder 3 1"

definition race1 :: locks where "race1 = finish_lock demo_a 0 (create_lock demo_a 0 unlocked)"
definition race2 :: locks where "race2 = release_lock demo_a (create_lock demo_b 1 race1)"
definition race3 :: locks where "race3 = finish_lock demo_c 2 (create_lock demo_c 2 (snd (look_at_lock demo_b 2 race2)))"
definition race4 :: locks where "race4 = finish_lock demo_b 3 (create_lock demo_b 3 (remove_dead demo_b race3))"

lemmas race_defs = race1_def race2_def race3_def race4_def unlocked_def create_lock_def finish_lock_def release_lock_def
  look_at_lock_def lock_takeover_def lock_file_is_older_than_stale_def lock_is_ours_def remove_dead_def set_stage_def
  demo_a_def demo_b_def demo_c_def

text \<open>
  \<open>a\<close> holds the lock, \<open>b\<close> finds the name taken, \<open>a\<close> releases it, and \<open>b\<close> takes the missing file for a
  dead one; before \<open>b\<close> removes it, \<open>c\<close> has created its own. Now \<open>b\<close> and \<open>c\<close> hold the lock, although no
  writer was ever dead.
\<close>

lemma race_two_holders:
  "run_of (\<lambda>s t. \<exists>dead. lock_step dead s t) unlocked race4
   \<and> stages race4 demo_b = Holding \<and> stages race4 demo_c = Holding"
proof -
  let ?any = "\<lambda>s t. \<exists>dead. lock_step dead s t"
  have go: "run_of ?any s t \<Longrightarrow> lock_step dead t u \<Longrightarrow> run_of ?any s u" for s t u dead
    by (rule run_of.run_step) blast+
  have "run_of ?any unlocked (create_lock demo_a 0 unlocked)"
    by (rule go[OF run_of.run_refl ls_create]) (simp add: race_defs)
  then have "run_of ?any unlocked race1" unfolding race1_def by (rule go[OF _ ls_finish]) (simp add: race_defs)
  then have "run_of ?any unlocked (create_lock demo_b 1 race1)" by (rule go[OF _ ls_create]) (simp add: race_defs)
  then have "run_of ?any unlocked race2" unfolding race2_def by (rule go[OF _ ls_release]) (simp add: race_defs)
  then have "run_of ?any unlocked (snd (look_at_lock demo_b 2 race2))"
    by (rule go[OF _ ls_look[OF _ surjective_pairing]]) (simp add: race_defs)
  then have "run_of ?any unlocked (create_lock demo_c 2 (snd (look_at_lock demo_b 2 race2)))"
    by (rule go[OF _ ls_create]) (simp add: race_defs)
  then have "run_of ?any unlocked race3" unfolding race3_def by (rule go[OF _ ls_finish]) (simp add: race_defs)
  then have "run_of ?any unlocked (remove_dead demo_b race3)" by (rule go[OF _ ls_remove]) (simp add: race_defs)
  then have "run_of ?any unlocked (create_lock demo_b 3 (remove_dead demo_b race3))"
    by (rule go[OF _ ls_create]) (simp add: race_defs)
  then have "run_of ?any unlocked race4" unfolding race4_def by (rule go[OF _ ls_finish]) (simp add: race_defs)
  moreover have "stages race4 demo_b = Holding \<and> stages race4 demo_c = Holding" by (simp add: race_defs)
  ultimately show ?thesis by blast
qed

text \<open>Without the release the lock excludes: \<open>a\<close> holds it while \<open>b\<close> is blocked.\<close>

theorem lock_excludes_witness:
  "lock_is_ours demo_a (lock_on_disk (create_lock demo_b 1 race1))
   \<and> stages (create_lock demo_b 1 race1) demo_b \<noteq> Holding"
proof -
  have "run_of (lock_step False) unlocked (create_lock demo_a 0 unlocked)"
    by (rule run_of.run_step[where step = "lock_step False", OF run_of.run_refl ls_create]) (simp add: race_defs)
  then have "run_of (lock_step False) unlocked race1"
    unfolding race1_def by (rule run_of.run_step[where step = "lock_step False", OF _ ls_finish]) (simp add: race_defs)
  then have run: "run_of (lock_step False) unlocked (create_lock demo_b 1 race1)"
    by (rule run_of.run_step[where step = "lock_step False", OF _ ls_create]) (simp add: race_defs)
  have "stages (create_lock demo_b 1 race1) demo_a = Holding" "demo_a \<noteq> demo_b" by (simp_all add: race_defs)
  with lock_excludes[OF run this(1)] show ?thesis by metis
qed

end
