(* ===== verification/Provider_Chain.thy ===== *)
theory Provider_Chain
  imports Prelude "HOL-Library.Code_Target_Nat"
begin

text \<open>
  The model-request executor (\<open>provider_chain.rs\<close>): a chain of routes, each tried with its own
  limit of attempts and waits, under an operation's wire budget and wall clock and the request
  budget of its stage. What the environment does is a function of the number of observations made
  so far: the clock, the cancel flag, how a wait for admission ended, what the provider answered,
  how long a sleep took, and what other operations of the stage did to the shared ledger.
  Durations are \<open>nat\<close> nanoseconds. The text of a failure (\<open>summary\<close>) and the redaction of a message
  (\<open>sanitize\<close>) are arguments.
\<close>

section \<open>Failures\<close>

datatype failure_stage = Configuration_Stage | Admission_Stage | Connect_Stage | First_Response_Stage
  | Response_Stage | Stream_Stage | Parse_Stage | Validation_Stage | Persistence_Stage

datatype category = Auth | Permission | Invalid_Model | Configuration | Malformed_Request | Unsupported
  | Rate_Limited | Server | Timeout | Network | Stream_Interrupted | Premature_Eof | Sse_Error
  | Malformed_Payload | Token_Limit | Refused | Empty | Invalid_Result | Persistence | Cancelled_Request

text \<open>The parts of \<open>ProviderFailure\<close> the executor reads or sets.\<close>

record provider_failure =
  pf_stage :: failure_stage
  pf_category :: category
  pf_message :: string
  pf_retry_after_ms :: "nat option"

datatype disposition = Retry_Route | Next_Route | Stop_Chain

record dispatch_error =
  de_message :: string
  de_retry_after :: "nat option"
  de_cancelled :: bool
  de_disposition :: disposition
  de_failure :: "provider_failure option"
  de_recovery :: "string option"

definition secs :: "nat \<Rightarrow> nat" where "secs n = n * 1000000000"
definition millis :: "nat \<Rightarrow> nat" where "millis n = n * 1000000"
definition as_secs :: "nat \<Rightarrow> nat" where "as_secs d = d div 1000000000"
definition as_millis :: "nat \<Rightarrow> nat" where "as_millis d = d div 1000000"

definition disposition_of :: "category \<Rightarrow> disposition" where
  "disposition_of c =
     (if c \<in> {Network, Timeout, Rate_Limited, Server, Empty, Malformed_Payload, Stream_Interrupted, Premature_Eof, Sse_Error}
      then Retry_Route
      else if c \<in> {Auth, Permission, Invalid_Model, Configuration, Unsupported, Token_Limit} then Next_Route
      else Stop_Chain)"

definition error_of :: "(provider_failure \<Rightarrow> string) \<Rightarrow> provider_failure \<Rightarrow> dispatch_error" where
  "error_of summary f = \<lparr>de_message = summary f, de_retry_after = map_option millis (pf_retry_after_ms f),
     de_cancelled = (pf_category f = Cancelled_Request), de_disposition = disposition_of (pf_category f),
     de_failure = Some f, de_recovery = None\<rparr>"

definition cancelled_error :: dispatch_error where
  "cancelled_error = \<lparr>de_message = ''cancelled'', de_retry_after = None, de_cancelled = True,
     de_disposition = Stop_Chain, de_failure = None, de_recovery = None\<rparr>"

section \<open>Routes and limits\<close>

record route =
  ro_provider :: string
  ro_account :: string
  ro_model :: string
  ro_skip_reason :: "string option"
  ro_admission_key :: "string option"

definition PRIMARY_ATTEMPTS :: nat where "PRIMARY_ATTEMPTS = 4"
definition FALLBACK_ATTEMPTS :: nat where "FALLBACK_ATTEMPTS = 3"
definition PRIMARY_WAITS :: "nat list" where "PRIMARY_WAITS = [secs 10, secs 20, secs 30]"
definition FALLBACK_WAITS :: "nat list" where "FALLBACK_WAITS = [secs 10, secs 20]"

definition route_attempt_limit :: "nat \<Rightarrow> nat" where
  "route_attempt_limit i = (if i = 0 then PRIMARY_ATTEMPTS else FALLBACK_ATTEMPTS)"

definition list_get :: "'a list \<Rightarrow> nat \<Rightarrow> 'a option" where
  "list_get xs i = (if i < length xs then Some (xs ! i) else None)"

definition wait_before_retry :: "nat \<Rightarrow> nat \<Rightarrow> nat option" where
  "wait_before_retry i attempt = list_get (if i = 0 then PRIMARY_WAITS else FALLBACK_WAITS) (attempt - 1)"

definition max_requests :: "nat \<Rightarrow> nat" where
  "max_requests fallbacks = PRIMARY_ATTEMPTS + FALLBACK_ATTEMPTS * fallbacks"

definition all_failure_base_wait :: "nat \<Rightarrow> nat" where
  "all_failure_base_wait fallbacks = secs (60 + 30 * fallbacks)"

record wire_budget =
  wb_per_route_max :: nat
  wb_primary_transient_retries :: nat
  wb_shared_extra :: nat
  wb_skip_stalled_route :: bool
  wb_wall_clock :: "nat option"

definition INTERACTIVE :: wire_budget where
  "INTERACTIVE = \<lparr>wb_per_route_max = 2, wb_primary_transient_retries = 1, wb_shared_extra = 2,
     wb_skip_stalled_route = True, wb_wall_clock = Some (secs 600)\<rparr>"

definition INTERACTIVE_THINKING :: wire_budget where
  "INTERACTIVE_THINKING = INTERACTIVE\<lparr>wb_wall_clock := Some (secs 900)\<rparr>"

definition max_dispatches :: "wire_budget \<Rightarrow> nat \<Rightarrow> nat" where
  "max_dispatches b routes = routes + wb_shared_extra b"

definition LAST_ROUTE_RETRIES :: nat where "LAST_ROUTE_RETRIES = 2"

section \<open>The ledger of a stage\<close>

definition STAGE_REQUEST_CAP :: nat where "STAGE_REQUEST_CAP = 24"
definition ROUTE_COOLDOWNS :: "nat list" where "ROUTE_COOLDOWNS = [secs 120, secs 300, secs 600]"
definition HARD_REJECT_COOLDOWN :: nat where "HARD_REJECT_COOLDOWN = secs 1800"
definition u32_max :: nat where "u32_max = 4294967295"

definition lower_char :: "char \<Rightarrow> char" where
  "lower_char c = (let n = of_char c :: nat in if 65 \<le> n \<and> n \<le> 90 then char_of (n + 32) else c)"

definition model_family :: "string \<Rightarrow> string" where
  "model_family m = (let i = takeWhile (\<lambda>c. c \<noteq> CHR '':'') m
     in map lower_char (rev (takeWhile (\<lambda>c. c \<noteq> CHR ''/'') (rev i))))"

record route_strikes =
  rs_until :: nat
  rs_strikes :: nat

record stage_ledger =
  sl_cap :: nat
  sl_dispatched :: nat
  sl_health :: "string \<Rightarrow> route_strikes option"
  sl_dead :: "string \<Rightarrow> string option"

definition new_ledger :: "nat \<Rightarrow> stage_ledger" where
  "new_ledger cap = \<lparr>sl_cap = cap, sl_dispatched = 0, sl_health = Map.empty, sl_dead = Map.empty\<rparr>"

definition sat_u32 :: "nat \<Rightarrow> nat" where "sat_u32 n = min n u32_max"

definition plan_ledger :: "nat \<Rightarrow> stage_ledger \<Rightarrow> stage_ledger" where
  "plan_ledger operations l = l\<lparr>sl_cap := max (sl_cap l) (max (sat_u32 (sat_u32 (operations * 2) + 8)) STAGE_REQUEST_CAP)\<rparr>"

definition reserve :: "stage_ledger \<Rightarrow> bool \<times> stage_ledger" where
  "reserve l = (if sl_dispatched l < sl_cap l then (True, l\<lparr>sl_dispatched := sl_dispatched l + 1\<rparr>) else (False, l))"

definition route_key :: "route \<Rightarrow> string" where
  "route_key r = (case ro_admission_key r of Some k \<Rightarrow> if k \<noteq> [] then k else ro_account r | None \<Rightarrow> ro_account r)
     @ ''|'' @ ro_model r"

definition cooling :: "nat \<Rightarrow> stage_ledger \<Rightarrow> route \<Rightarrow> nat option" where
  "cooling now l r = (case sl_health l (route_key r) of None \<Rightarrow> None
     | Some e \<Rightarrow> (let left = rs_until e - now in if left = 0 then None else Some left))"

definition dead_reason :: "stage_ledger \<Rightarrow> route \<Rightarrow> string option" where
  "dead_reason l r = sl_dead l (model_family (ro_model r))"

definition open_route :: "(provider_failure \<Rightarrow> string) \<Rightarrow> nat \<Rightarrow> route \<Rightarrow> provider_failure option \<Rightarrow> stage_ledger \<Rightarrow> stage_ledger" where
  "open_route summary now r f l =
     (let category = map_option pf_category f;
          hard = (category \<in> {Some Auth, Some Permission, Some Invalid_Model});
          dead = (if category = Some Invalid_Model
                  then (sl_dead l)(model_family (ro_model r) := map_option summary f) else sl_dead l);
          e = (case sl_health l (route_key r) of Some e \<Rightarrow> e | None \<Rightarrow> \<lparr>rs_until = now, rs_strikes = 0\<rparr>);
          cooldown = (if hard then HARD_REJECT_COOLDOWN
                      else ROUTE_COOLDOWNS ! (min (rs_strikes e) (length ROUTE_COOLDOWNS - 1)))
      in l\<lparr>sl_dead := dead, sl_health := (sl_health l)(route_key r \<mapsto>
           \<lparr>rs_until = now + cooldown, rs_strikes = rs_strikes e + 1\<rparr>)\<rparr>)"

definition close_route :: "route \<Rightarrow> stage_ledger \<Rightarrow> stage_ledger" where
  "close_route r l = l\<lparr>sl_health := (sl_health l)(route_key r := None)\<rparr>"

definition route_unwell :: "category \<Rightarrow> bool" where
  "route_unwell c \<longleftrightarrow> c \<in> {Network, Timeout, Rate_Limited, Server, Stream_Interrupted, Premature_Eof, Sse_Error,
     Auth, Permission, Invalid_Model}"


section \<open>Options, environment and report\<close>

record exec_options =
  xo_instant :: bool
  xo_cancel :: bool
  xo_recorder :: bool
  xo_admission_account :: string
  xo_attempt_limit :: "nat option"
  xo_wire_budget :: "wire_budget option"

record dispatch_context =
  dc_route_index :: nat
  dc_attempt :: nat
  dc_wire_dispatch :: nat
  dc_recovery :: "string option"
  dc_queue_ms :: nat
  dc_backoff_ms :: nat
  dc_remaining :: "nat option"
  dc_queued_at :: string

text \<open>Each field is read at the number of observations made before it.\<close>

record 'v exec_env =
  en_now :: "nat \<Rightarrow> nat"
  en_stamp :: "nat \<Rightarrow> string"
  en_flag :: "nat \<Rightarrow> bool"
  en_enter :: "nat \<Rightarrow> string \<Rightarrow> bool"
  en_interrupt :: "nat \<Rightarrow> bool"
  en_dispatch :: "nat \<Rightarrow> dispatch_context \<Rightarrow> route \<Rightarrow> (dispatch_error + 'v) option"
    \<comment> \<open>what the caller's future resolves to; \<open>None\<close> when it never does\<close>
  en_others :: "nat \<Rightarrow> stage_ledger \<Rightarrow> stage_ledger"
  en_summary :: "provider_failure \<Rightarrow> string"
  en_sanitize :: "string \<Rightarrow> string"

record attempt_record =
  ar_at :: string
  ar_route_index :: nat
  ar_attempt :: nat
  ar_model :: string
  ar_dispatched :: bool
  ar_outcome :: string
  ar_reason :: string

record 'v chain_report =
  cr_budget_exhausted :: bool
  cr_value :: "'v option"
  cr_blocked :: bool
  cr_cancelled :: bool
  cr_requests :: nat
  cr_waits :: "nat list"
  cr_history :: "attempt_record list"
  cr_effective_route :: "nat option"
  cr_effective_model :: string
  cr_terminal_failure :: "provider_failure option"
  cr_stopped :: bool
  cr_wall_clock_exceeded :: bool

text \<open>
  The locals of the executor, with the observation count, the shared ledger as it stands, the
  shared recorder of waits and the rate limits announced to other callers.
\<close>

record 'v chain_state =
  cs_seen :: nat
  cs_ledger :: "stage_ledger option"
  cs_recorded :: "nat list"
  cs_notes :: "(string \<times> nat) list"
  cs_report :: "'v chain_report"
  cs_extra_used :: nat
  cs_transient_used :: nat
  cs_any_dispatchable :: bool
  cs_route_failure :: "provider_failure option"

definition failure_message :: "'v chain_report \<Rightarrow> string" where
  "failure_message rep =
     (case find (\<lambda>r. ar_outcome r = ''fail'' \<or> ar_outcome r = ''skip'') (rev (cr_history rep)) of
        Some r \<Rightarrow> ar_reason r | None \<Rightarrow> ''every route failed'')"

section \<open>Observations\<close>

definition tick :: "'v chain_state \<Rightarrow> 'v chain_state" where
  "tick s = s\<lparr>cs_seen := cs_seen s + 1\<rparr>"

definition edit_report :: "('v chain_report \<Rightarrow> 'v chain_report) \<Rightarrow> 'v chain_state \<Rightarrow> 'v chain_state" where
  "edit_report f s = s\<lparr>cs_report := f (cs_report s)\<rparr>"

definition is_cancelled :: "'v exec_env \<Rightarrow> exec_options \<Rightarrow> 'v chain_state \<Rightarrow> bool \<times> 'v chain_state" where
  "is_cancelled e opts s = (xo_cancel opts \<and> en_flag e (cs_seen s), tick s)"

definition instant_now :: "'v exec_env \<Rightarrow> 'v chain_state \<Rightarrow> nat \<times> 'v chain_state" where
  "instant_now e s = (en_now e (cs_seen s), tick s)"

definition remaining :: "'v exec_env \<Rightarrow> nat option \<Rightarrow> 'v chain_state \<Rightarrow> nat option \<times> 'v chain_state" where
  "remaining e deadline s =
     (case deadline of None \<Rightarrow> (None, s) | Some at \<Rightarrow> (let (now, s) = instant_now e s in (Some (at - now), s)))"

text \<open>The ledger as this operation finds it: what the stage's other operations did comes first.\<close>

definition see_ledger :: "'v exec_env \<Rightarrow> 'v chain_state \<Rightarrow> 'v chain_state" where
  "see_ledger e s = tick (s\<lparr>cs_ledger := map_option (en_others e (cs_seen s)) (cs_ledger s)\<rparr>)"

definition mark_cancelled :: "'v chain_state \<Rightarrow> 'v chain_state" where
  "mark_cancelled = edit_report (\<lambda>r. r\<lparr>cr_cancelled := True\<rparr>)"

definition record_attempt :: "'v exec_env \<Rightarrow> nat \<Rightarrow> nat \<Rightarrow> string \<Rightarrow> bool \<Rightarrow> string \<Rightarrow> string \<Rightarrow> 'v chain_state \<Rightarrow> 'v chain_state" where
  "record_attempt e i attempt m dispatched outcome reason s =
     tick (edit_report (\<lambda>r. r\<lparr>cr_history := cr_history r @ [\<lparr>ar_at = en_stamp e (cs_seen s), ar_route_index = i,
       ar_attempt = attempt, ar_model = m, ar_dispatched = dispatched, ar_outcome = outcome, ar_reason = reason\<rparr>]\<rparr>) s)"

text \<open>\<open>cancellable_sleep\<close>: chunks of 50 ms, the flag read before the first and after each.\<close>

function sleep_chunks :: "'v exec_env \<Rightarrow> exec_options \<Rightarrow> nat \<Rightarrow> nat \<Rightarrow> 'v chain_state \<Rightarrow> bool \<times> 'v chain_state" where
  "sleep_chunks e opts wait elapsed s =
     (if elapsed < wait
      then (let (c, s) = is_cancelled e opts s
            in if c then (True, s)
               else sleep_chunks e opts wait (elapsed + min (millis 50) (wait - elapsed)) s)
      else (False, s))"
  by pat_completeness auto
termination
  by (relation "measure (\<lambda>(e, opts, wait, elapsed, s). wait - elapsed)") (auto simp: millis_def)

definition cancellable_sleep :: "'v exec_env \<Rightarrow> exec_options \<Rightarrow> nat \<Rightarrow> 'v chain_state \<Rightarrow> bool \<times> 'v chain_state" where
  "cancellable_sleep e opts wait s =
     (if xo_cancel opts
      then (let (c, s) = is_cancelled e opts s in if c then (True, s) else sleep_chunks e opts wait 0 s)
      else (False, tick s))"

definition sleep_unrecorded :: "'v exec_env \<Rightarrow> exec_options \<Rightarrow> nat \<Rightarrow> 'v chain_state \<Rightarrow> bool \<times> 'v chain_state" where
  "sleep_unrecorded e opts wait s =
     (if xo_instant opts \<or> wait = 0 then is_cancelled e opts s else cancellable_sleep e opts wait s)"

definition sleep_recorded :: "'v exec_env \<Rightarrow> exec_options \<Rightarrow> nat \<Rightarrow> 'v chain_state \<Rightarrow> bool \<times> 'v chain_state" where
  "sleep_recorded e opts wait s =
     sleep_unrecorded e opts wait (if xo_recorder opts then s\<lparr>cs_recorded := cs_recorded s @ [wait]\<rparr> else s)"

section \<open>The executor\<close>

definition new_failure :: "'v exec_env \<Rightarrow> failure_stage \<Rightarrow> category \<Rightarrow> string \<Rightarrow> provider_failure" where
  "new_failure e st c m = \<lparr>pf_stage = st, pf_category = c, pf_message = en_sanitize e m, pf_retry_after_ms = None\<rparr>"

definition failure_detail :: "'v exec_env \<Rightarrow> provider_failure option \<Rightarrow> string" where
  "failure_detail e prior = (case prior of Some f \<Rightarrow> ''; last failure: '' @ en_summary e f | None \<Rightarrow> [])"

definition cap_failure :: "'v exec_env \<Rightarrow> nat \<Rightarrow> 'v chain_state \<Rightarrow> 'v chain_state" where
  "cap_failure e cap s =
     (let s = edit_report (\<lambda>r. r\<lparr>cr_wall_clock_exceeded := True,
            cr_terminal_failure := Some (new_failure e Admission_Stage Timeout
              (''operation wall-clock cap of '' @ nat_str (as_secs cap) @ ''s reached after '' @ nat_str (cr_requests r)
               @ '' request(s)'' @ failure_detail e (cr_terminal_failure r)))\<rparr>) s
      in record_attempt e 0 0 [] False ''skip'' (''operation wall-clock cap of '' @ nat_str (as_secs cap) @ ''s reached'') s)"

definition budget_failure :: "'v exec_env \<Rightarrow> nat \<Rightarrow> route \<Rightarrow> stage_ledger \<Rightarrow> 'v chain_state \<Rightarrow> 'v chain_state" where
  "budget_failure e i r l s =
     (let s = edit_report (\<lambda>rep. rep\<lparr>cr_budget_exhausted := True,
            cr_terminal_failure := Some (new_failure e Admission_Stage Timeout
              (''stage request budget of '' @ nat_str (sl_cap l) @ '' reached ('' @ nat_str (sl_dispatched l)
               @ '' dispatched across this stage's operations)'' @ failure_detail e (cr_terminal_failure rep)))\<rparr>) s
      in record_attempt e i 0 (ro_model r) False ''skip'' (''stage request budget of '' @ nat_str (sl_cap l) @ '' reached'') s)"

definition wall_clock :: "exec_options \<Rightarrow> nat option" where
  "wall_clock opts = Option.bind (xo_wire_budget opts) wb_wall_clock"

definition attempt_bound :: "exec_options \<Rightarrow> nat \<Rightarrow> nat" where
  "attempt_bound opts i =
     (case xo_wire_budget opts of Some b \<Rightarrow> wb_per_route_max b
      | None \<Rightarrow> (case xo_attempt_limit opts of Some n \<Rightarrow> n | None \<Rightarrow> route_attempt_limit i))"

definition slot_key :: "exec_options \<Rightarrow> route \<Rightarrow> string" where
  "slot_key opts r =
     (case ro_admission_key r of
        Some k \<Rightarrow> if k \<noteq> [] then k else if ro_account r \<noteq> [] then ro_account r else xo_admission_account opts
      | None \<Rightarrow> if ro_account r \<noteq> [] then ro_account r else xo_admission_account opts)"

text \<open>
  The wait for an admission slot: it ends with a slot, with the cap or with the cancel flag, and
  without either it polls for as long as the slot is refused.
\<close>

datatype admission = Admitted | Refused | Abandoned

partial_function (option) admit ::
    "'v exec_env \<Rightarrow> exec_options \<Rightarrow> nat option \<Rightarrow> string \<Rightarrow> 'v chain_state \<Rightarrow> (admission \<times> 'v chain_state) option" where
  "admit e opts deadline key s =
     (case is_cancelled e opts s of (c, s) \<Rightarrow>
        if c then Some (Abandoned, s)
        else if en_enter e (cs_seen s) key then Some (Admitted, tick s)
        else (case remaining e deadline (tick s) of (left, s) \<Rightarrow>
          if left = Some 0 then Some (Refused, s)
          else (case sleep_unrecorded e opts (millis 50) s of (c, s) \<Rightarrow>
            if c then Some (Abandoned, s) else admit e opts deadline key s)))"

datatype flow = Return | Leave | Again "string option" nat

text \<open>The wire budget's answer to a failed attempt: may the route be asked once more?\<close>

definition is_overload :: "dispatch_error \<Rightarrow> bool" where
  "is_overload err = (case de_failure err of Some f \<Rightarrow> pf_category f = Server \<or> pf_category f = Rate_Limited | None \<Rightarrow> False)"

definition passed_over :: "nat \<Rightarrow> stage_ledger option \<Rightarrow> route \<Rightarrow> bool" where
  "passed_over now l r \<longleftrightarrow> ro_skip_reason r \<noteq> None \<or>
     (case l of Some l \<Rightarrow> cooling now l r \<noteq> None \<or> dead_reason l r \<noteq> None | None \<Rightarrow> False)"

definition grant_extra :: "wire_budget \<Rightarrow> nat \<Rightarrow> bool \<Rightarrow> dispatch_error \<Rightarrow> 'v chain_state \<Rightarrow> bool" where
  "grant_extra b i last_live err s \<longleftrightarrow>
     cs_extra_used s < wb_shared_extra b \<and>
     (de_recovery err \<noteq> None \<or>
      (i = 0 \<and> cs_transient_used s < wb_primary_transient_retries b) \<or>
      (last_live \<and> is_overload err \<and> cs_transient_used s < wb_primary_transient_retries b + LAST_ROUTE_RETRIES))"

definition spend_extra :: "'v exec_env \<Rightarrow> exec_options \<Rightarrow> nat \<Rightarrow> route list \<Rightarrow> dispatch_error \<Rightarrow> 'v chain_state \<Rightarrow> bool \<times> 'v chain_state" where
  "spend_extra e opts i later err s =
     (case xo_wire_budget opts of None \<Rightarrow> (True, s)
      | Some b \<Rightarrow>
          (let s = see_ledger e s;
               (now, s) = instant_now e s;
               last_live = list_all (passed_over now (cs_ledger s)) later
           in if grant_extra b i last_live err s
              then (True, s\<lparr>cs_extra_used := cs_extra_used s + 1,
                     cs_transient_used := (if de_recovery err = None then cs_transient_used s + 1 else cs_transient_used s)\<rparr>)
              else (False, s)))"

definition stalled :: "exec_options \<Rightarrow> route list \<Rightarrow> dispatch_error \<Rightarrow> bool" where
  "stalled opts later err \<longleftrightarrow>
     (case xo_wire_budget opts of Some b \<Rightarrow> wb_skip_stalled_route b | None \<Rightarrow> False) \<and>
     (case de_failure err of Some f \<Rightarrow> pf_category f = Timeout | None \<Rightarrow> False) \<and>
     list_ex (\<lambda>r. ro_skip_reason r = None) later"

definition back_off :: "'v exec_env \<Rightarrow> exec_options \<Rightarrow> nat option \<Rightarrow> nat \<Rightarrow> route \<Rightarrow> nat \<Rightarrow> dispatch_error \<Rightarrow> 'v chain_state \<Rightarrow> flow \<times> 'v chain_state" where
  "back_off e opts deadline i r attempt err s =
     (case wait_before_retry i attempt of None \<Rightarrow> (Leave, s)
      | Some base \<Rightarrow>
          (let wait = (case de_retry_after err of Some d \<Rightarrow> if d > base then d else base | None \<Rightarrow> base);
               (left, s) = remaining e deadline s
           in if (case left of Some l \<Rightarrow> l \<le> wait | None \<Rightarrow> False) then (Leave, s)
              else (let s = (case de_retry_after err of
                          Some d \<Rightarrow> if xo_instant opts then s else s\<lparr>cs_notes := cs_notes s @ [(slot_key opts r, d)]\<rparr>
                        | None \<Rightarrow> s);
                        (slept, s) = instant_now e s;
                        (c, s) = sleep_recorded e opts wait s;
                        (woke, s) = instant_now e s;
                        actual = (if xo_instant opts then wait else min (woke - slept) wait);
                        s = edit_report (\<lambda>rep. rep\<lparr>cr_waits := cr_waits rep @ [actual]\<rparr>) s
                    in if c then (Leave, mark_cancelled s) else (Again None actual, s))))"

text \<open>What follows a failed dispatch, in the order of the source.\<close>

definition after_failure :: "'v exec_env \<Rightarrow> exec_options \<Rightarrow> nat option \<Rightarrow> nat \<Rightarrow> route \<Rightarrow> route list \<Rightarrow> nat \<Rightarrow> nat \<Rightarrow> dispatch_error \<Rightarrow> 'v chain_state \<Rightarrow> flow \<times> 'v chain_state" where
  "after_failure e opts deadline i r later limit attempt err s =
     (let s = edit_report (\<lambda>rep. rep\<lparr>cr_terminal_failure := de_failure err\<rparr>) s\<lparr>cs_route_failure := de_failure err\<rparr>;
          s = record_attempt e i attempt (ro_model r) True (if de_cancelled err then ''cancel'' else ''fail'') (de_message err) s;
          is_recovery = (de_recovery err \<noteq> None)
      in if de_cancelled err \<or> (\<not> is_recovery \<and> de_disposition err = Stop_Chain)
         then (Return, edit_report (\<lambda>rep. rep\<lparr>cr_stopped := True, cr_cancelled := cr_cancelled rep \<or> de_cancelled err\<rparr>) s)
         else if \<not> is_recovery \<and> de_disposition err = Next_Route then (Leave, s)
         else (let (left, s) = remaining e deadline s
               in if left = Some 0 then (Return, cap_failure e (the (wall_clock opts)) s)
                  else if \<not> is_recovery \<and> stalled opts later err then (Leave, s)
                  else if attempt \<ge> limit then (Leave, s)
                  else (let (granted, s) = spend_extra e opts i later err s
                        in if \<not> granted then (Leave, s)
                           else if is_recovery then (Again (de_recovery err) 0, s)
                           else back_off e opts deadline i r attempt err s)))"

definition after_success :: "'v exec_env \<Rightarrow> nat \<Rightarrow> route \<Rightarrow> nat \<Rightarrow> 'v \<Rightarrow> 'v chain_state \<Rightarrow> flow \<times> 'v chain_state" where
  "after_success e i r attempt v s =
     (let s = edit_report (\<lambda>rep. rep\<lparr>cr_terminal_failure := None\<rparr>) s;
          s = record_attempt e i attempt (ro_model r) True ''ok'' [] s;
          s = see_ledger e s;
          s = s\<lparr>cs_ledger := map_option (close_route r) (cs_ledger s)\<rparr>
      in (Return, edit_report (\<lambda>rep. rep\<lparr>cr_value := Some v, cr_effective_route := Some i,
            cr_effective_model := ro_model r\<rparr>) s))"

text \<open>
  One dispatch, from the counted request to the provider's answer or the cancel flag's. The future is
  awaited without a bound of the chain's own: when it never resolves and nobody cancels, neither does
  the operation.
\<close>

definition dispatch_once :: "'v exec_env \<Rightarrow> exec_options \<Rightarrow> nat option \<Rightarrow> nat \<Rightarrow> route \<Rightarrow> nat \<Rightarrow> string option \<Rightarrow> nat \<Rightarrow> string \<Rightarrow> nat
    \<Rightarrow> 'v chain_state \<Rightarrow> ((dispatch_error + 'v) \<times> 'v chain_state) option" where
  "dispatch_once e opts deadline i r attempt recovery backoff queued_at queue_start s =
     (let s = edit_report (\<lambda>rep. rep\<lparr>cr_requests := cr_requests rep + 1\<rparr>) s;
          (now, s) = instant_now e s;
          (left, s) = remaining e deadline s;
          ctx = \<lparr>dc_route_index = i, dc_attempt = attempt, dc_wire_dispatch = cr_requests (cs_report s),
                 dc_recovery = recovery, dc_queue_ms = as_millis (now - queue_start), dc_backoff_ms = as_millis backoff,
                 dc_remaining = left, dc_queued_at = queued_at\<rparr>
      in map_option (\<lambda>res. (res, tick s))
           (if xo_cancel opts \<and> en_interrupt e (cs_seen s) then Some (Inl cancelled_error)
            else en_dispatch e (cs_seen s) ctx r))"

text \<open>The ledger's permission for one more request of the stage.\<close>

definition reserve_request :: "'v exec_env \<Rightarrow> nat \<Rightarrow> route \<Rightarrow> 'v chain_state \<Rightarrow> bool \<times> 'v chain_state" where
  "reserve_request e i r s =
     (let s = see_ledger e s
      in case cs_ledger s of None \<Rightarrow> (True, s)
         | Some l \<Rightarrow> (case reserve l of
             (True, l) \<Rightarrow> (True, s\<lparr>cs_ledger := Some l\<rparr>)
           | (False, l) \<Rightarrow> (False, budget_failure e i r l s)))"

text \<open>The body of the attempt loop; \<open>attempt\<close> counts the attempts already made.\<close>

definition attempt_body :: "'v exec_env \<Rightarrow> exec_options \<Rightarrow> nat option \<Rightarrow> nat \<Rightarrow> route \<Rightarrow> route list \<Rightarrow> nat \<Rightarrow> nat \<Rightarrow> string option \<Rightarrow> nat
    \<Rightarrow> 'v chain_state \<Rightarrow> (flow \<times> 'v chain_state) option" where
  "attempt_body e opts deadline i r later limit attempt recovery backoff s =
     (let (c, s) = is_cancelled e opts s
      in if c then Some (Leave, mark_cancelled s)
         else (let (left, s) = remaining e deadline s
               in if map_option as_millis left = Some 0 then Some (Return, cap_failure e (the (wall_clock opts)) s)
                  else (let queued_at = en_stamp e (cs_seen s); s = tick s;
                            (queue_start, s) = instant_now e s
                        in case (if slot_key opts r = [] then Some (Admitted, s) else admit e opts deadline (slot_key opts r) s) of
                             None \<Rightarrow> None
                           | Some (Abandoned, s) \<Rightarrow> Some (Leave, mark_cancelled s)
                           | Some (Refused, s) \<Rightarrow> Some (Return, cap_failure e (the (wall_clock opts)) s)
                           | Some (Admitted, s) \<Rightarrow>
                               (let (granted, s) = reserve_request e i r s
                                in if \<not> granted then Some (Return, s)
                                   else (case dispatch_once e opts deadline i r (attempt + 1) recovery backoff queued_at queue_start s of
                                       None \<Rightarrow> None
                                     | Some (Inr v, s) \<Rightarrow> Some (after_success e i r (attempt + 1) v s)
                                     | Some (Inl err, s) \<Rightarrow> Some (after_failure e opts deadline i r later limit (attempt + 1) err s))))))"

function attempts :: "'v exec_env \<Rightarrow> exec_options \<Rightarrow> nat option \<Rightarrow> nat \<Rightarrow> route \<Rightarrow> route list \<Rightarrow> nat \<Rightarrow> nat \<Rightarrow> string option \<Rightarrow> nat
    \<Rightarrow> 'v chain_state \<Rightarrow> (flow \<times> 'v chain_state) option" where
  "attempts e opts deadline i r later limit attempt recovery backoff s =
     (if attempt < limit
      then (case attempt_body e opts deadline i r later limit attempt recovery backoff s of
              None \<Rightarrow> None
            | Some (Again recovery backoff, s) \<Rightarrow> attempts e opts deadline i r later limit (attempt + 1) recovery backoff s
            | Some (f, s) \<Rightarrow> Some (f, s))
      else Some (Leave, s))"
  by pat_completeness auto
termination
  by (relation "measure (\<lambda>(e, opts, deadline, i, r, later, limit, attempt, recovery, backoff, s). limit - attempt)") auto

declare attempts.simps[simp del] sleep_chunks.simps[simp del]

text \<open>One route of the chain; \<open>Again\<close> is the \<open>continue\<close> to the next one.\<close>

definition settle_route :: "'v exec_env \<Rightarrow> route \<Rightarrow> 'v chain_state \<Rightarrow> flow \<times> 'v chain_state" where
  "settle_route e r s =
     (if cr_cancelled (cs_report s) then (Leave, s)
      else (case (cs_ledger s, cs_route_failure s) of
          (Some _, Some f) \<Rightarrow>
            if route_unwell (pf_category f)
            then (let s = see_ledger e s; (now, s) = instant_now e s
                  in (Again None 0, s\<lparr>cs_ledger := map_option (open_route (en_summary e) now r (Some f)) (cs_ledger s)\<rparr>))
            else (Again None 0, s)
        | _ \<Rightarrow> (Again None 0, s)))"

definition work_route :: "'v exec_env \<Rightarrow> exec_options \<Rightarrow> nat option \<Rightarrow> nat \<Rightarrow> route \<Rightarrow> route list \<Rightarrow> 'v chain_state \<Rightarrow> (flow \<times> 'v chain_state) option" where
  "work_route e opts deadline i r later s =
     (case attempts e opts deadline i r later (attempt_bound opts i) 0 None 0 (s\<lparr>cs_route_failure := None\<rparr>) of
        None \<Rightarrow> None
      | Some (Return, s) \<Rightarrow> Some (Return, s)
      | Some (_, s) \<Rightarrow> Some (settle_route e r s))"

definition try_route :: "'v exec_env \<Rightarrow> exec_options \<Rightarrow> nat option \<Rightarrow> nat \<Rightarrow> route \<Rightarrow> route list \<Rightarrow> 'v chain_state \<Rightarrow> (flow \<times> 'v chain_state) option" where
  "try_route e opts deadline i r later s =
     (let (c, s) = is_cancelled e opts s
      in if c then Some (Leave, mark_cancelled s)
         else case ro_skip_reason r of
           Some reason \<Rightarrow> Some (Again None 0, record_attempt e i 0 (ro_model r) False ''skip'' reason s)
         | None \<Rightarrow>
             (let s = see_ledger e (s\<lparr>cs_any_dispatchable := True\<rparr>)
              in case Option.bind (cs_ledger s) (\<lambda>l. dead_reason l r) of
                   Some reason \<Rightarrow>
                     (let s = record_attempt e i 0 (ro_model r) False ''skip''
                                (''same model already rejected in this stage: '' @ reason) s
                      in Some (Again None 0, edit_report (\<lambda>rep. rep\<lparr>cr_terminal_failure :=
                           (case cr_terminal_failure rep of Some f \<Rightarrow> Some f
                            | None \<Rightarrow> Some (new_failure e Admission_Stage Invalid_Model reason))\<rparr>) s))
                 | None \<Rightarrow>
                     (let s = see_ledger e s; (now, s) = instant_now e s
                      in case Option.bind (cs_ledger s) (\<lambda>l. cooling now l r) of
                           None \<Rightarrow> work_route e opts deadline i r later s
                         | Some left \<Rightarrow>
                             (let s = see_ledger e s; (now, s) = instant_now e s
                              in if list_ex (\<lambda>r. \<not> passed_over now (cs_ledger s) r) later
                                 then Some (Again None 0, record_attempt e i 0 (ro_model r) False ''skip''
                                   (''route failed recently in this stage; passed over for '' @ nat_str (as_secs left) @ ''s'') s)
                                 else work_route e opts deadline i r later s))))"

fun try_routes :: "'v exec_env \<Rightarrow> exec_options \<Rightarrow> nat option \<Rightarrow> nat \<Rightarrow> route list \<Rightarrow> 'v chain_state \<Rightarrow> (bool \<times> 'v chain_state) option" where
  "try_routes e opts deadline i [] s = Some (False, s)"
| "try_routes e opts deadline i (r # later) s =
     (case try_route e opts deadline i r later s of
        None \<Rightarrow> None
      | Some (Return, s) \<Rightarrow> Some (True, s)
      | Some (Leave, s) \<Rightarrow> Some (False, s)
      | Some (Again _ _, s) \<Rightarrow> try_routes e opts deadline (i + 1) later s)"

definition empty_report :: "'v chain_report" where
  "empty_report = \<lparr>cr_budget_exhausted = False, cr_value = None, cr_blocked = False, cr_cancelled = False, cr_requests = 0,
     cr_waits = [], cr_history = [], cr_effective_route = None, cr_effective_model = [], cr_terminal_failure = None,
     cr_stopped = False, cr_wall_clock_exceeded = False\<rparr>"

definition start_chain :: "stage_ledger option \<Rightarrow> nat list \<Rightarrow> 'v chain_state" where
  "start_chain l recorded = \<lparr>cs_seen = 0, cs_ledger = l, cs_recorded = recorded, cs_notes = [], cs_report = empty_report,
     cs_extra_used = 0, cs_transient_used = 0, cs_any_dispatchable = False, cs_route_failure = None\<rparr>"

definition finish_chain :: "exec_options \<Rightarrow> 'v chain_state \<Rightarrow> 'v chain_state" where
  "finish_chain opts s = edit_report (\<lambda>rep. rep\<lparr>cr_blocked := cr_blocked rep \<or> \<not> cs_any_dispatchable s,
     cr_waits := (if xo_recorder opts \<and> cr_waits rep = [] then cs_recorded s else cr_waits rep)\<rparr>) s"

definition execute_with_context :: "'v exec_env \<Rightarrow> exec_options \<Rightarrow> stage_ledger option \<Rightarrow> nat list \<Rightarrow> route list \<Rightarrow> 'v chain_state option" where
  "execute_with_context e opts l recorded rs =
     (let (now, s) = instant_now e (start_chain l recorded);
          deadline = map_option (\<lambda>d. now + d) (wall_clock opts)
      in if rs = [] then Some (record_attempt e 0 0 [] False ''skip'' ''no routes configured''
              (edit_report (\<lambda>r. r\<lparr>cr_blocked := True\<rparr>) s))
         else case try_routes e opts deadline 0 rs s of
           None \<Rightarrow> None
         | Some (True, s) \<Rightarrow> Some s
         | Some (False, s) \<Rightarrow> Some (finish_chain opts s))"


section \<open>Reading leaves the report alone\<close>

text \<open>What the loops carry besides the observation count and the shared state.\<close>

definition quiet :: "'v chain_state \<Rightarrow> 'v chain_state \<Rightarrow> bool" where
  "quiet s s' \<longleftrightarrow> cs_report s' = cs_report s \<and> cs_extra_used s' = cs_extra_used s \<and>
     cs_transient_used s' = cs_transient_used s \<and> cs_any_dispatchable s' = cs_any_dispatchable s \<and>
     cs_route_failure s' = cs_route_failure s"

named_theorems quietI

lemma quiet_refl [quietI]: "quiet s s"
  by (simp add: quiet_def)

lemma quiet_trans [trans]: "quiet s t \<Longrightarrow> quiet t u \<Longrightarrow> quiet s u"
  by (simp add: quiet_def)

lemma quiet_tick [quietI]: "quiet s (tick s)"
  by (simp add: quiet_def tick_def)

lemma quiet_see_ledger [quietI]: "quiet s (see_ledger e s)"
  by (simp add: quiet_def see_ledger_def tick_def)

lemma quiet_is_cancelled: "is_cancelled e opts s = (c, s') \<Longrightarrow> quiet s s' \<and> cs_ledger s' = cs_ledger s \<and> cs_seen s' = Suc (cs_seen s)"
  by (auto simp: is_cancelled_def quiet_def tick_def)

lemma quiet_instant_now: "instant_now e s = (t, s') \<Longrightarrow> quiet s s' \<and> cs_ledger s' = cs_ledger s \<and> cs_seen s' = Suc (cs_seen s)"
  by (auto simp: instant_now_def quiet_def tick_def)

lemma quiet_remaining: "remaining e d s = (t, s') \<Longrightarrow> quiet s s' \<and> cs_ledger s' = cs_ledger s \<and> cs_seen s \<le> cs_seen s'"
  by (auto simp: remaining_def instant_now_def quiet_def tick_def split: option.splits)

lemma quiet_sleep_chunks: "sleep_chunks e opts w t s = (c, s') \<Longrightarrow> quiet s s' \<and> cs_ledger s' = cs_ledger s \<and> cs_seen s \<le> cs_seen s'"
proof (induction e opts w t s arbitrary: c s' rule: sleep_chunks.induct)
  case (1 e opts w t s)
  show ?case
  proof (cases "t < w")
    case True
    obtain b s1 where b: "is_cancelled e opts s = (b, s1)" by fastforce
    note q = quiet_is_cancelled[OF b]
    show ?thesis
    proof (cases b)
      case True
      with \<open>t < w\<close> b 1(2) q show ?thesis by (simp add: sleep_chunks.simps[of e opts w t s])
    next
      case False
      with \<open>t < w\<close> b 1(2) have "sleep_chunks e opts w (t + min (millis 50) (w - t)) s1 = (c, s')"
        by (simp add: sleep_chunks.simps[of e opts w t s])
      with 1(1)[OF \<open>t < w\<close> b[symmetric] refl False] q show ?thesis
        by (auto intro: quiet_trans)
    qed
  next
    case False
    with 1(2) show ?thesis by (simp add: sleep_chunks.simps[of e opts w t s] quiet_refl)
  qed
qed

lemma quiet_sleep_unrecorded: "sleep_unrecorded e opts w s = (c, s') \<Longrightarrow> quiet s s' \<and> cs_ledger s' = cs_ledger s \<and> cs_seen s < cs_seen s'"
proof -
  assume a: "sleep_unrecorded e opts w s = (c, s')"
  show ?thesis
  proof (cases "xo_instant opts \<or> w = 0")
    case True
    with a quiet_is_cancelled[of e opts s c s'] show ?thesis by (simp add: sleep_unrecorded_def)
  next
    case False
    obtain b s1 where b: "is_cancelled e opts s = (b, s1)" by fastforce
    with False a quiet_is_cancelled[OF b] quiet_sleep_chunks[of e opts w 0 s1 c s'] show ?thesis
      by (auto simp: sleep_unrecorded_def cancellable_sleep_def quiet_def tick_def split: if_splits)
  qed
qed

lemma quiet_sleep_recorded: "sleep_recorded e opts w s = (c, s') \<Longrightarrow> quiet s s' \<and> cs_ledger s' = cs_ledger s"
  using quiet_sleep_unrecorded[of e opts w "if xo_recorder opts then s\<lparr>cs_recorded := cs_recorded s @ [w]\<rparr> else s" c s']
  by (auto simp: sleep_recorded_def quiet_def split: if_splits)

lemma quiet_admit_raw:
  assumes "admit e opts d k s = Some r"
  shows "quiet s (snd r) \<and> cs_ledger (snd r) = cs_ledger s"
proof (rule admit.raw_induct[of "\<lambda>e opts d k s r. quiet s (snd r) \<and> cs_ledger (snd r) = cs_ledger s", OF _ assms])
  fix rec :: "'a exec_env \<Rightarrow> exec_options \<Rightarrow> nat option \<Rightarrow> string \<Rightarrow> 'a chain_state \<Rightarrow> (admission \<times> 'a chain_state) option"
    and e opts d k s r
  assume IH: "\<And>e opts d k s r. rec e opts d k s = Some r \<Longrightarrow> quiet s (snd r) \<and> cs_ledger (snd r) = cs_ledger s"
    and body: "(case is_cancelled e opts s of (c, s) \<Rightarrow>
        if c then Some (Abandoned, s)
        else if en_enter e (cs_seen s) k then Some (Admitted, tick s)
        else (case remaining e d (tick s) of (left, s) \<Rightarrow>
          if left = Some 0 then Some (Refused, s)
          else (case sleep_unrecorded e opts (millis 50) s of (c, s) \<Rightarrow>
            if c then Some (Abandoned, s) else rec e opts d k s))) = Some r"
  obtain c1 s1 where c1: "is_cancelled e opts s = (c1, s1)" by fastforce
  obtain l2 s2 where l2: "remaining e d (tick s1) = (l2, s2)" by fastforce
  obtain c3 s3 where c3: "sleep_unrecorded e opts (millis 50) s2 = (c3, s3)" by fastforce
  have t: "quiet s1 (tick s1)" "cs_ledger (tick s1) = cs_ledger s1" by (simp_all add: quiet_def tick_def)
  have q: "quiet s s1 \<and> cs_ledger s1 = cs_ledger s" "quiet s (tick s1) \<and> cs_ledger (tick s1) = cs_ledger s"
    "quiet s s2 \<and> cs_ledger s2 = cs_ledger s" "quiet s s3 \<and> cs_ledger s3 = cs_ledger s"
    using quiet_is_cancelled[OF c1] t quiet_remaining[OF l2] quiet_sleep_unrecorded[OF c3]
    by (simp_all add: quiet_def)
  have "rec e opts d k s3 = Some r \<Longrightarrow> quiet s (snd r) \<and> cs_ledger (snd r) = cs_ledger s"
    using IH[of e opts d k s3 r] q(4) by (auto intro: quiet_trans)
  then show "quiet s (snd r) \<and> cs_ledger (snd r) = cs_ledger s"
    using body c1 l2 c3 q by (auto split: if_splits)
qed

lemma quiet_admit: "admit e opts d k s = Some (a, s') \<Longrightarrow> quiet s s' \<and> cs_ledger s' = cs_ledger s"
  using quiet_admit_raw by fastforce


section \<open>What one attempt does\<close>

definition sent :: "'v chain_state \<Rightarrow> attempt_record list" where
  "sent s = filter ar_dispatched (cr_history (cs_report s))"

definition requests :: "'v chain_state \<Rightarrow> nat" where "requests s = cr_requests (cs_report s)"
definition answer :: "'v chain_state \<Rightarrow> 'v option" where "answer s = cr_value (cs_report s)"

definition is_call :: "nat \<Rightarrow> nat \<Rightarrow> route \<Rightarrow> attempt_record \<Rightarrow> bool" where
  "is_call i n r a \<longleftrightarrow> ar_route_index a = i \<and> ar_attempt a = n \<and> ar_model a = ro_model r \<and> ar_dispatched a"

text \<open>Nothing was sent.\<close>

definition unsent :: "'v chain_state \<Rightarrow> 'v chain_state \<Rightarrow> bool" where
  "unsent s s' \<longleftrightarrow> sent s' = sent s \<and> requests s' = requests s \<and> answer s' = answer s \<and>
     cr_effective_route (cs_report s') = cr_effective_route (cs_report s) \<and>
     cs_extra_used s' = cs_extra_used s"

text \<open>One request was sent, and it was the last thing to be sent.\<close>

definition failed_call :: "exec_options \<Rightarrow> nat \<Rightarrow> nat \<Rightarrow> route \<Rightarrow> flow \<Rightarrow> 'v chain_state \<Rightarrow> 'v chain_state \<Rightarrow> bool" where
  "failed_call opts i n r f s s' \<longleftrightarrow>
     (\<exists>a. is_call i n r a \<and> ar_outcome a \<noteq> ''ok'' \<and> sent s' = sent s @ [a]) \<and>
     requests s' = Suc (requests s) \<and> answer s' = answer s \<and>
     cr_effective_route (cs_report s') = cr_effective_route (cs_report s) \<and>
     cs_extra_used s \<le> cs_extra_used s' \<and>
     (case xo_wire_budget opts of None \<Rightarrow> cs_extra_used s' = cs_extra_used s
      | Some b \<Rightarrow> cs_extra_used s' \<le> max (cs_extra_used s) (wb_shared_extra b) \<and>
          (case f of Again _ _ \<Rightarrow> cs_extra_used s' = Suc (cs_extra_used s) | _ \<Rightarrow> True))"

definition answered_call :: "nat \<Rightarrow> nat \<Rightarrow> route \<Rightarrow> flow \<Rightarrow> 'v chain_state \<Rightarrow> 'v chain_state \<Rightarrow> bool" where
  "answered_call i n r f s s' \<longleftrightarrow> f = Return \<and>
     (\<exists>a. is_call i n r a \<and> ar_outcome a = ''ok'' \<and> sent s' = sent s @ [a]) \<and>
     requests s' = Suc (requests s) \<and> answer s' \<noteq> None \<and>
     cr_effective_route (cs_report s') = Some i \<and> cs_extra_used s' = cs_extra_used s"

lemma edit_report_simps [simp]:
  "cs_report (edit_report g s) = g (cs_report s)" "cs_seen (edit_report g s) = cs_seen s"
  "cs_ledger (edit_report g s) = cs_ledger s" "cs_extra_used (edit_report g s) = cs_extra_used s"
  "cs_transient_used (edit_report g s) = cs_transient_used s" "cs_any_dispatchable (edit_report g s) = cs_any_dispatchable s"
  "cs_route_failure (edit_report g s) = cs_route_failure s" "cs_recorded (edit_report g s) = cs_recorded s"
  by (simp_all add: edit_report_def)

lemma record_attempt_simps [simp]:
  "cs_report (record_attempt e i n m d out why s) = (cs_report s)\<lparr>cr_history := cr_history (cs_report s) @
     [\<lparr>ar_at = en_stamp e (cs_seen s), ar_route_index = i, ar_attempt = n, ar_model = m, ar_dispatched = d,
       ar_outcome = out, ar_reason = why\<rparr>]\<rparr>"
  "cs_extra_used (record_attempt e i n m d out why s) = cs_extra_used s"
  "cs_transient_used (record_attempt e i n m d out why s) = cs_transient_used s"
  "cs_any_dispatchable (record_attempt e i n m d out why s) = cs_any_dispatchable s"
  "cs_route_failure (record_attempt e i n m d out why s) = cs_route_failure s"
  "cs_ledger (record_attempt e i n m d out why s) = cs_ledger s"
  "cs_seen (record_attempt e i n m d out why s) = Suc (cs_seen s)"
  by (simp_all add: record_attempt_def tick_def)

lemmas view_defs = sent_def requests_def answer_def

lemma quiet_unsent: "quiet s s' \<Longrightarrow> unsent s s'"
  by (simp add: quiet_def unsent_def view_defs)

lemma unsent_refl: "unsent s s"
  by (simp add: unsent_def)

lemma unsent_trans: "unsent s t \<Longrightarrow> unsent t u \<Longrightarrow> unsent s u"
  by (simp add: unsent_def)

lemma unsent_failed: "unsent s t \<Longrightarrow> failed_call opts i n r f t u \<Longrightarrow> failed_call opts i n r f s u"
  by (cases f; cases "xo_wire_budget opts") (simp_all add: unsent_def failed_call_def)

lemma unsent_answered: "unsent s t \<Longrightarrow> answered_call i n r f t u \<Longrightarrow> answered_call i n r f s u"
  by (simp add: unsent_def answered_call_def)

lemma unsent_mark_cancelled: "unsent s (mark_cancelled s)"
  by (simp add: unsent_def view_defs mark_cancelled_def)

lemma unsent_skip: "unsent s (record_attempt e i n m False out why s)"
  by (simp add: unsent_def view_defs)

lemma unsent_cap_failure: "unsent s (cap_failure e cap s)"
  by (simp add: unsent_def view_defs cap_failure_def Let_def)

lemma unsent_budget_failure: "unsent s (budget_failure e i r l s)"
  by (simp add: unsent_def view_defs budget_failure_def Let_def)

lemma unsent_reserve_request: "reserve_request e i r s = (g, s') \<Longrightarrow> unsent s s'"
  using quiet_unsent[OF quiet_see_ledger[of s e]] unsent_budget_failure[of "see_ledger e s" e i r]
  by (auto simp: reserve_request_def Let_def unsent_def view_defs split: option.splits prod.splits bool.splits)

lemma spend_extra_effect:
  assumes "spend_extra e opts i later err s = (g, s')"
  shows "sent s' = sent s" "requests s' = requests s" "answer s' = answer s" "cs_report s' = cs_report s"
    "case xo_wire_budget opts of None \<Rightarrow> cs_extra_used s' = cs_extra_used s
     | Some b \<Rightarrow> if g then cs_extra_used s' = Suc (cs_extra_used s) \<and> cs_extra_used s < wb_shared_extra b
                 else cs_extra_used s' = cs_extra_used s"
  using assms
  by (auto simp: spend_extra_def Let_def instant_now_def see_ledger_def tick_def view_defs grant_extra_def
      split: option.splits if_splits)

lemma back_off_effect:
  assumes "back_off e opts d i r n err s = (f, s')"
  shows "unsent s s'" "f \<noteq> Return"
proof -
  show "f \<noteq> Return"
    using assms by (auto simp: back_off_def Let_def split: option.splits prod.splits if_splits)
  show "unsent s s'"
  proof (cases "wait_before_retry i n")
    case None
    with assms show ?thesis by (simp add: back_off_def unsent_refl)
  next
    case (Some base)
    define w where "w = (case de_retry_after err of Some x \<Rightarrow> if x > base then x else base | None \<Rightarrow> base)"
    obtain l s1 where l: "remaining e d s = (l, s1)" by fastforce
    define s2 where "s2 = (case de_retry_after err of
       Some x \<Rightarrow> if xo_instant opts then s1 else s1\<lparr>cs_notes := cs_notes s1 @ [(slot_key opts r, x)]\<rparr> | None \<Rightarrow> s1)"
    obtain t1 s3 where t1: "instant_now e s2 = (t1, s3)" by fastforce
    obtain c s4 where c: "sleep_recorded e opts w s3 = (c, s4)" by fastforce
    obtain t2 s5 where t2: "instant_now e s4 = (t2, s5)" by fastforce
    have "quiet s1 s2" by (auto simp: s2_def quiet_def split: option.splits)
    then have q: "quiet s s1" "quiet s s5"
      using quiet_remaining[OF l] quiet_instant_now[OF t1] quiet_sleep_recorded[OF c] quiet_instant_now[OF t2]
      by (auto simp: quiet_def)
    then have "unsent s s1" "unsent s s5" by (simp_all add: quiet_unsent)
    with assms Some show ?thesis
      by (auto simp: back_off_def Let_def w_def[symmetric] l s2_def[symmetric] t1 c t2 unsent_def view_defs mark_cancelled_def
          split: if_splits)
  qed
qed

lemma after_success_effect:
  assumes "after_success e i r n v s = (f, s')" "n > 0"
  shows "f = Return" "\<exists>a. is_call i n r a \<and> ar_outcome a = ''ok'' \<and> sent s' = sent s @ [a]"
    "requests s' = requests s" "answer s' = Some v" "cr_effective_route (cs_report s') = Some i"
    "cs_extra_used s' = cs_extra_used s"
  using assms by (auto simp: after_success_def Let_def see_ledger_def tick_def view_defs is_call_def)


lemma after_failure_effect:
  assumes "after_failure e opts d i r later limit n err s = (f, s')"
  shows "\<exists>a. is_call i n r a \<and> ar_outcome a \<noteq> ''ok'' \<and> sent s' = sent s @ [a]"
    "requests s' = requests s" "answer s' = answer s"
    "cr_effective_route (cs_report s') = cr_effective_route (cs_report s)"
    "cs_extra_used s \<le> cs_extra_used s'"
    "case xo_wire_budget opts of None \<Rightarrow> cs_extra_used s' = cs_extra_used s
      | Some b \<Rightarrow> cs_extra_used s' \<le> max (cs_extra_used s) (wb_shared_extra b) \<and>
          (case f of Again _ _ \<Rightarrow> cs_extra_used s' = Suc (cs_extra_used s) | _ \<Rightarrow> True)"
    "case f of Again _ _ \<Rightarrow> n < limit | _ \<Rightarrow> True"
proof -
  define s1 where "s1 = record_attempt e i n (ro_model r) True (if de_cancelled err then ''cancel'' else ''fail'') (de_message err)
    (edit_report (\<lambda>rep. rep\<lparr>cr_terminal_failure := de_failure err\<rparr>) s\<lparr>cs_route_failure := de_failure err\<rparr>)"
  have s1: "\<exists>a. is_call i n r a \<and> ar_outcome a \<noteq> ''ok'' \<and> sent s1 = sent s @ [a]"
    "requests s1 = requests s" "answer s1 = answer s"
    "cr_effective_route (cs_report s1) = cr_effective_route (cs_report s)" "cs_extra_used s1 = cs_extra_used s"
    by (simp_all add: s1_def view_defs is_call_def)
  obtain l s2 where l: "remaining e d s1 = (l, s2)" by fastforce
  obtain g s3 where g: "spend_extra e opts i later err s2 = (g, s3)" by fastforce
  obtain h s4 where h: "back_off e opts d i r n err s3 = (h, s4)" by fastforce
  note u2 = quiet_unsent[OF conjunct1[OF quiet_remaining[OF l]]]
  note u3 = spend_extra_effect[OF g]
  note u4 = back_off_effect[OF h]
  have cap: "unsent s2 (cap_failure e (the (wall_clock opts)) s2)" by (rule unsent_cap_failure)
  have u1: "unsent s1 (edit_report (\<lambda>rep. rep\<lparr>cr_stopped := True, cr_cancelled := cr_cancelled rep \<or> de_cancelled err\<rparr>) s1)"
    by (simp add: unsent_def view_defs)
  have "(unsent s1 s' \<and> (\<forall>b w. f \<noteq> Again b w)) \<or> (n < limit \<and> g \<and> unsent s3 s') \<or> (s' = s3 \<and> \<not> g \<and> f = Leave)"
    using assms unfolding after_failure_def Let_def s1_def[symmetric] l g h prod.case
    using u1 u2 unsent_trans[OF u2 cap] u4 unsent_refl[of s1] unsent_refl[of s3] by (simp split: if_splits)
  then show "\<exists>a. is_call i n r a \<and> ar_outcome a \<noteq> ''ok'' \<and> sent s' = sent s @ [a]"
    "requests s' = requests s" "answer s' = answer s"
    "cr_effective_route (cs_report s') = cr_effective_route (cs_report s)"
    "cs_extra_used s \<le> cs_extra_used s'"
    "case xo_wire_budget opts of None \<Rightarrow> cs_extra_used s' = cs_extra_used s
      | Some b \<Rightarrow> cs_extra_used s' \<le> max (cs_extra_used s) (wb_shared_extra b) \<and>
          (case f of Again _ _ \<Rightarrow> cs_extra_used s' = Suc (cs_extra_used s) | _ \<Rightarrow> True)"
    "case f of Again _ _ \<Rightarrow> n < limit | _ \<Rightarrow> True"
    using s1 u2 u3 by (cases f; cases "xo_wire_budget opts"; auto simp: unsent_def)+
qed


lemma attempt_body_effect:
  assumes "attempt_body e opts d i r later limit n recovery backoff s = Some (f, s')"
  shows "(unsent s s' \<and> (\<forall>b w. f \<noteq> Again b w)) \<or>
    (failed_call opts i (Suc n) r f s s' \<and> (case f of Again _ _ \<Rightarrow> Suc n < limit | _ \<Rightarrow> True)) \<or>
    answered_call i (Suc n) r f s s'"
proof -
  obtain c s1 where c: "is_cancelled e opts s = (c, s1)" by fastforce
  obtain l s2 where l: "remaining e d s1 = (l, s2)" by fastforce
  obtain q s3 where q: "instant_now e (tick s2) = (q, s3)" by fastforce
  define out where "out = (if slot_key opts r = [] then Some (Admitted, s3) else admit e opts d (slot_key opts r) s3)"
  define late where "late \<longleftrightarrow> map_option as_millis l = Some 0"
  note u1 = quiet_unsent[OF conjunct1[OF quiet_is_cancelled[OF c]]]
  note u2 = unsent_trans[OF u1 quiet_unsent[OF conjunct1[OF quiet_remaining[OF l]]]]
  note u3 = unsent_trans[OF u2 unsent_trans[OF quiet_unsent[OF quiet_tick] quiet_unsent[OF conjunct1[OF quiet_instant_now[OF q]]]]]
  have cut: "unsent s2 (cap_failure e (the (wall_clock opts)) s2)" by (rule unsent_cap_failure)
  note E = assms[unfolded attempt_body_def Let_def c l prod.case q out_def[symmetric], folded late_def]
  show ?thesis
  proof (cases "c \<or> late")
    case True
    with E show ?thesis
      using unsent_trans[OF u1 unsent_mark_cancelled] unsent_trans[OF u2 cut] by (auto split: if_splits)
  next
    case False
    with E obtain a s4 where o: "out = Some (a, s4)" by (cases out) (auto split: if_splits)
    have u4: "unsent s s4"
      using o quiet_unsent[OF conjunct1[OF quiet_admit[of e opts d "slot_key opts r" s3 a s4]]] u3
      by (auto simp: out_def split: if_splits intro: unsent_trans)
    show ?thesis
    proof (cases a)
      case Admitted
      obtain g s5 where g: "reserve_request e i r s4 = (g, s5)" by fastforce
      note u5 = unsent_trans[OF u4 unsent_reserve_request[OF g]]
      show ?thesis
      proof (cases g)
        case False
        with E \<open>\<not> (c \<or> _)\<close> o Admitted g u5 show ?thesis by simp
      next
        case True
        from E \<open>\<not> (c \<or> _)\<close> o Admitted g True obtain res s6 where
          m: "dispatch_once e opts d i r (n + 1) recovery backoff (en_stamp e (cs_seen s2)) q s5 = Some (res, s6)"
          by (cases "dispatch_once e opts d i r (n + 1) recovery backoff (en_stamp e (cs_seen s2)) q s5") auto
        have s6: "sent s6 = sent s5" "requests s6 = Suc (requests s5)" "answer s6 = answer s5"
          "cr_effective_route (cs_report s6) = cr_effective_route (cs_report s5)" "cs_extra_used s6 = cs_extra_used s5"
          using m by (auto simp: dispatch_once_def Let_def instant_now_def remaining_def tick_def view_defs split: option.splits)
        show ?thesis
        proof (cases res)
          case (Inl err)
          with E \<open>\<not> (c \<or> _)\<close> o Admitted g True m
          have f: "after_failure e opts d i r later limit (n + 1) err s6 = (f, s')" by simp
          have "failed_call opts i (Suc n) r f s5 s'"
            using after_failure_effect[OF f] s6 by (cases f; cases "xo_wire_budget opts") (simp_all add: failed_call_def)
          from unsent_failed[OF u5 this] after_failure_effect(7)[OF f] show ?thesis by (cases f) simp_all
        next
          case (Inr v)
          with E \<open>\<not> (c \<or> _)\<close> o Admitted g True m
          have f: "after_success e i r (n + 1) v s6 = (f, s')" by simp
          have "answered_call i (Suc n) r f s5 s'"
            using after_success_effect[OF f] s6 by (simp add: answered_call_def)
          with unsent_answered[OF u5] show ?thesis by blast
        qed
      qed
    next
      case Refused
      with E \<open>\<not> (c \<or> _)\<close> o unsent_trans[OF u4 unsent_cap_failure] show ?thesis by auto
    next
      case Abandoned
      with E \<open>\<not> (c \<or> _)\<close> o unsent_trans[OF u4 unsent_mark_cancelled] show ?thesis by auto
    qed
  qed
qed

section \<open>What a route and a chain do\<close>

definition call_of :: "attempt_record \<Rightarrow> nat \<times> nat \<times> string" where
  "call_of a = (ar_route_index a, ar_attempt a, ar_model a)"

definition calls_to :: "nat \<Rightarrow> route \<Rightarrow> nat \<Rightarrow> nat \<Rightarrow> (nat \<times> nat \<times> string) list" where
  "calls_to i r a k = map (\<lambda>n. (i, n, ro_model r)) [Suc a..<Suc (a + k)]"

text \<open>
  The calls \<open>s'\<close> has sent beyond \<open>s\<close>: they failed, all but an answered last one, and each call beyond
  the \<open>free\<close> ones of the routes was paid for out of the wire budget.
\<close>

definition sends :: "exec_options \<Rightarrow> (nat \<times> nat \<times> string) list \<Rightarrow> nat \<Rightarrow> bool \<Rightarrow> 'v chain_state \<Rightarrow> 'v chain_state \<Rightarrow> bool" where
  "sends opts cs free answered s s' \<longleftrightarrow>
     (\<exists>new. sent s' = sent s @ new \<and> map call_of new = cs \<and> requests s' = requests s + length new \<and>
        (if answered
         then new \<noteq> [] \<and> ar_outcome (last new) = ''ok'' \<and> (\<forall>a\<in>set (butlast new). ar_outcome a \<noteq> ''ok'') \<and>
              answer s' \<noteq> None \<and> cr_effective_route (cs_report s') = Some (ar_route_index (last new))
         else (\<forall>a\<in>set new. ar_outcome a \<noteq> ''ok'') \<and> answer s' = answer s \<and>
              cr_effective_route (cs_report s') = cr_effective_route (cs_report s)) \<and>
        cs_extra_used s \<le> cs_extra_used s' \<and>
        (case xo_wire_budget opts of None \<Rightarrow> True
         | Some b \<Rightarrow> cs_extra_used s' \<le> max (cs_extra_used s) (wb_shared_extra b) \<and>
             length new + cs_extra_used s \<le> free + cs_extra_used s'))"

lemma sends_unsent: "unsent s s' \<Longrightarrow> sends opts [] free False s s'"
  by (auto simp: sends_def unsent_def split: option.splits)

lemma sends_trans:
  assumes "sends opts cs m False s t" "sends opts cs' n b t u"
  shows "sends opts (cs @ cs') (m + n) b s u"
proof -
  from assms(1) obtain x where x: "sent t = sent s @ x" "map call_of x = cs" "requests t = requests s + length x"
    "\<forall>a\<in>set x. ar_outcome a \<noteq> ''ok''" "answer t = answer s"
    "cr_effective_route (cs_report t) = cr_effective_route (cs_report s)" "cs_extra_used s \<le> cs_extra_used t"
    "case xo_wire_budget opts of None \<Rightarrow> True
      | Some b \<Rightarrow> cs_extra_used t \<le> max (cs_extra_used s) (wb_shared_extra b) \<and> length x + cs_extra_used s \<le> m + cs_extra_used t"
    by (auto simp: sends_def)
  from assms(2) obtain y where y: "sent u = sent t @ y" "map call_of y = cs'" "requests u = requests t + length y"
    "if b then y \<noteq> [] \<and> ar_outcome (last y) = ''ok'' \<and> (\<forall>a\<in>set (butlast y). ar_outcome a \<noteq> ''ok'') \<and>
              answer u \<noteq> None \<and> cr_effective_route (cs_report u) = Some (ar_route_index (last y))
     else (\<forall>a\<in>set y. ar_outcome a \<noteq> ''ok'') \<and> answer u = answer t \<and>
              cr_effective_route (cs_report u) = cr_effective_route (cs_report t)"
    "cs_extra_used t \<le> cs_extra_used u"
    "case xo_wire_budget opts of None \<Rightarrow> True
      | Some b \<Rightarrow> cs_extra_used u \<le> max (cs_extra_used t) (wb_shared_extra b) \<and> length y + cs_extra_used t \<le> n + cs_extra_used u"
    by (auto simp: sends_def)
  have "case xo_wire_budget opts of None \<Rightarrow> True
      | Some b \<Rightarrow> cs_extra_used u \<le> max (cs_extra_used s) (wb_shared_extra b) \<and>
          length (x @ y) + cs_extra_used s \<le> (m + n) + cs_extra_used u"
    using x(8) y(6) by (auto split: option.splits)
  with x(1-7) y(1-5) show ?thesis
    by (auto simp: sends_def butlast_append intro!: exI[of _ "x @ y"])
qed

lemma sends_more: "sends opts cs m b s t \<Longrightarrow> m \<le> n \<Longrightarrow> sends opts cs n b s t"
  unfolding sends_def by (elim exE, rule exI, cases "xo_wire_budget opts") auto

lemma sends_one:
  assumes "is_call i n r a" "sent t = sent s @ [a]" "requests t = Suc (requests s)"
    "if b then ar_outcome a = ''ok'' \<and> answer t \<noteq> None \<and> cr_effective_route (cs_report t) = Some i
     else ar_outcome a \<noteq> ''ok'' \<and> answer t = answer s \<and> cr_effective_route (cs_report t) = cr_effective_route (cs_report s)"
    "cs_extra_used s \<le> cs_extra_used t"
    "case xo_wire_budget opts of None \<Rightarrow> True
      | Some w \<Rightarrow> cs_extra_used t \<le> max (cs_extra_used s) (wb_shared_extra w) \<and> 1 + cs_extra_used s \<le> free + cs_extra_used t"
  shows "sends opts [(i, n, ro_model r)] free b s t"
  unfolding sends_def using assms
  by (intro exI[of _ "[a]"], cases b; cases "xo_wire_budget opts") (auto simp: is_call_def call_of_def)

lemma sends_failed_again: "failed_call opts i n r (Again x w) s t \<Longrightarrow> sends opts [(i, n, ro_model r)] 0 False s t"
  unfolding failed_call_def by (elim conjE exE, rule sends_one) (auto split: option.splits)

lemma sends_failed: "failed_call opts i n r f s t \<Longrightarrow> sends opts [(i, n, ro_model r)] 1 False s t"
  unfolding failed_call_def by (elim conjE exE, rule sends_one) (auto split: option.splits)

lemma sends_answered: "answered_call i n r f s t \<Longrightarrow> sends opts [(i, n, ro_model r)] 1 True s t"
  unfolding answered_call_def by (elim conjE exE, rule sends_one) (auto split: option.splits)

lemma calls_to_0 [simp]: "calls_to i r a 0 = []"
  by (simp add: calls_to_def)

lemma calls_to_Suc: "calls_to i r a (Suc k) = (i, Suc a, ro_model r) # calls_to i r (Suc a) k"
  unfolding calls_to_def by (subst upt_rec) simp

lemma attempts_sends:
  assumes "attempts e opts d i r later limit a recovery backoff s = Some (f, s')"
  shows "\<exists>k b. k \<le> limit - a \<and> sends opts (calls_to i r a k) 1 b s s' \<and> (b \<longrightarrow> f = Return) \<and> (\<forall>x w. f \<noteq> Again x w)"
  using assms
proof (induction e opts d i r later limit a recovery backoff s rule: attempts.induct)
  case (1 e opts d i r later limit a recovery backoff s)
  note step = attempts.simps[of e opts d i r later limit a]
  show ?case
  proof (cases "a < limit")
    case False
    with 1(2) have "f = Leave" "s' = s" by (simp_all add: step)
    then show ?thesis
      by (intro exI[of _ 0] exI[of _ False]) (simp add: sends_unsent unsent_refl)
  next
    case True
    with 1(2) obtain g t where body: "attempt_body e opts d i r later limit a recovery backoff s = Some (g, t)"
      by (cases "attempt_body e opts d i r later limit a recovery backoff s") (auto simp: step)
    note eff = attempt_body_effect[OF body]
    have last: ?thesis if "f = g" "s' = t" "\<forall>x w. g \<noteq> Again x w"
      using eff
    proof (elim disjE conjE)
      assume "unsent s t"
      then show ?thesis using that by (intro exI[of _ 0] exI[of _ False]) (simp add: sends_unsent)
    next
      assume "failed_call opts i (Suc a) r g s t"
      from sends_failed[OF this] show ?thesis
        using that True by (intro exI[of _ "1::nat"] exI[of _ False]) (simp add: calls_to_Suc)
    next
      assume *: "answered_call i (Suc a) r g s t"
      then have "g = Return" by (simp add: answered_call_def)
      with sends_answered[OF *, of opts] show ?thesis
        using that True by (intro exI[of _ "1::nat"] exI[of _ True]) (simp add: calls_to_Suc)
    qed
    show ?thesis
    proof (cases g)
      case (Again x w)
      with body True 1(2) have rest: "attempts e opts d i r later limit (a + 1) x w t = Some (f, s')"
        by (simp add: step)
      from 1(1)[OF True body refl Again rest] obtain k b where k: "k \<le> limit - (a + 1)"
        "sends opts (calls_to i r (a + 1) k) 1 b t s'" "b \<longrightarrow> f = Return" "\<forall>x w. f \<noteq> Again x w" by blast
      from eff Again have "failed_call opts i (Suc a) r (Again x w) s t" by (auto simp: answered_call_def)
      from sends_trans[OF sends_failed_again[OF this] k(2)] k(1,3,4) True show ?thesis
        by (intro exI[of _ "Suc k"] exI[of _ b]) (simp add: calls_to_Suc)
    next
      case Return
      with body True 1(2) have "f = g" "s' = t" by (simp_all add: step)
      with last Return show ?thesis by simp
    next
      case Leave
      with body True 1(2) have "f = g" "s' = t" by (simp_all add: step)
      with last Leave show ?thesis by simp
    qed
  qed
qed


lemma unsent_settle_route: "settle_route e r s = (f, s') \<Longrightarrow> unsent s s' \<and> f \<noteq> Return"
  by (auto simp: settle_route_def Let_def unsent_def view_defs see_ledger_def instant_now_def tick_def
      split: if_splits option.splits)

lemma work_route_sends:
  assumes "work_route e opts d i r later s = Some (f, s')"
  shows "\<exists>k b. k \<le> attempt_bound opts i \<and> sends opts (calls_to i r 0 k) 1 b s s' \<and> (b \<longrightarrow> f = Return)"
proof -
  let ?s = "s\<lparr>cs_route_failure := None\<rparr>"
  from assms obtain g t where a: "attempts e opts d i r later (attempt_bound opts i) 0 None 0 ?s = Some (g, t)"
    by (cases "attempts e opts d i r later (attempt_bound opts i) 0 None 0 ?s") (auto simp: work_route_def)
  from attempts_sends[OF a] obtain k b where k: "k \<le> attempt_bound opts i" "sends opts (calls_to i r 0 k) 1 b ?s t"
    "b \<longrightarrow> g = Return" by auto
  have "unsent s ?s" by (simp add: unsent_def view_defs)
  from sends_trans[OF sends_unsent[OF this] k(2), where m = 0] have *: "sends opts (calls_to i r 0 k) 1 b s t" by simp
  show ?thesis
  proof (cases "g = Return")
    case True
    with a assms have "f = Return" "s' = t" by (simp_all add: work_route_def)
    with * k show ?thesis by blast
  next
    case False
    with a assms have "settle_route e r t = (f, s')" by (cases g) (simp_all add: work_route_def)
    from unsent_settle_route[OF this] have "unsent t s'" by simp
    from sends_trans[OF _ sends_unsent[OF this, where free = 0], of opts "calls_to i r 0 k" 1 s] * k False show ?thesis
      by (intro exI[of _ k] exI[of _ False]) simp
  qed
qed

lemma try_route_sends:
  assumes "try_route e opts d i r later s = Some (f, s')"
  shows "\<exists>k b. k \<le> attempt_bound opts i \<and> (ro_skip_reason r \<noteq> None \<longrightarrow> k = 0) \<and>
    sends opts (calls_to i r 0 k) (if ro_skip_reason r = None then 1 else 0) b s s' \<and> (b \<longrightarrow> f = Return)"
proof -
  have quiet: ?thesis if "unsent s s'"
    using sends_unsent[OF that, of opts] by (intro exI[of _ 0] exI[of _ False]) simp
  have worked: ?thesis if "unsent s t" "work_route e opts d i r later t = Some (f, s')" "ro_skip_reason r = None" for t
  proof -
    from work_route_sends[OF that(2)] obtain k b where k: "k \<le> attempt_bound opts i"
      "sends opts (calls_to i r 0 k) 1 b t s'" "b \<longrightarrow> f = Return" by blast
    from sends_trans[OF sends_unsent[OF that(1), where free = 0] k(2)] k that(3) show ?thesis
      by (intro exI[of _ k] exI[of _ b]) simp
  qed
  obtain c s1 where c: "is_cancelled e opts s = (c, s1)" by fastforce
  note u1 = quiet_unsent[OF conjunct1[OF quiet_is_cancelled[OF c]]]
  note E = assms[unfolded try_route_def c Let_def prod.case]
  show ?thesis
  proof (cases "c \<or> ro_skip_reason r \<noteq> None")
    case True
    with E u1 show ?thesis
      by (intro quiet) (auto split: if_splits option.splits intro: unsent_trans[OF u1 unsent_mark_cancelled] unsent_trans[OF u1 unsent_skip])
  next
    case False
    define s2 where "s2 = see_ledger e (s1\<lparr>cs_any_dispatchable := True\<rparr>)"
    define s3 where "s3 = see_ledger e s2"
    obtain n4 s4 where s4: "instant_now e s3 = (n4, s4)" by fastforce
    define s5 where "s5 = see_ledger e s4"
    obtain n6 s6 where s6: "instant_now e s5 = (n6, s6)" by fastforce
    have u2: "unsent s s2"
      using unsent_trans[OF u1, of "s1\<lparr>cs_any_dispatchable := True\<rparr>"] quiet_unsent[OF quiet_see_ledger]
      unfolding s2_def by (rule unsent_trans) (simp add: unsent_def view_defs)
    have u4: "unsent s s4" unfolding s3_def
      using unsent_trans[OF unsent_trans[OF u2 quiet_unsent[OF quiet_see_ledger]]] quiet_instant_now[OF s4] quiet_unsent
      unfolding s3_def by blast
    have u6: "unsent s s6"
      using unsent_trans[OF unsent_trans[OF u4 quiet_unsent[OF quiet_see_ledger]]] quiet_instant_now[OF s6] quiet_unsent
      unfolding s5_def by blast
    show ?thesis
    proof (cases "Option.bind (cs_ledger s2) (\<lambda>l. dead_reason l r)")
      case (Some reason)
      with E False show ?thesis
        unfolding s2_def[symmetric] by (intro quiet unsent_trans[OF u2]) (auto simp: unsent_def view_defs)
    next
      case None
      note E = E[folded s2_def, unfolded None option.case, folded s3_def, unfolded s4 prod.case, folded s5_def, unfolded s6 prod.case]
      show ?thesis
      proof (cases "Option.bind (cs_ledger s4) (\<lambda>l. cooling n4 l r)")
        case None
        with E False u4 show ?thesis by (intro worked[of s4]) simp_all
      next
        case (Some left)
        with E False show ?thesis
          using worked[of s6] quiet unsent_trans[OF u6 unsent_skip] u6 by (auto split: if_splits)
      qed
    qed
  qed
qed

fun chain_calls :: "nat \<Rightarrow> route list \<Rightarrow> nat list \<Rightarrow> (nat \<times> nat \<times> string) list" where
  "chain_calls i (r # rs) (k # ks) = calls_to i r 0 k @ chain_calls (Suc i) rs ks"
| "chain_calls i _ _ = []"

definition usable :: "route list \<Rightarrow> nat" where
  "usable rs = length (filter (\<lambda>r. ro_skip_reason r = None) rs)"

lemma chain_calls_0: "chain_calls i rs (replicate (length rs) 0) = []"
  by (induction rs arbitrary: i) auto

lemma try_routes_sends:
  assumes "try_routes e opts d i rs s = Some (x, s')"
  shows "\<exists>ks b. length ks = length rs \<and>
    (\<forall>j<length rs. ks ! j \<le> attempt_bound opts (i + j) \<and> (ro_skip_reason (rs ! j) \<noteq> None \<longrightarrow> ks ! j = 0)) \<and>
    sends opts (chain_calls i rs ks) (usable rs) b s s'"
  using assms
proof (induction e opts d i rs s rule: try_routes.induct)
  case (1 e opts d i s)
  then show ?case by (intro exI[of _ "[]"] exI[of _ False]) (simp add: sends_unsent unsent_refl)
next
  case (2 e opts d i r later s)
  from 2(2) obtain f t where t: "try_route e opts d i r later s = Some (f, t)"
    by (cases "try_route e opts d i r later s") auto
  from try_route_sends[OF t] obtain k b where k: "k \<le> attempt_bound opts i" "ro_skip_reason r \<noteq> None \<longrightarrow> k = 0"
    "sends opts (calls_to i r 0 k) (if ro_skip_reason r = None then 1 else 0) b s t" "b \<longrightarrow> f = Return" by blast
  show ?case
  proof (cases "\<exists>x w. f = Again x w")
    case True
    then obtain y w where f: "f = Again y w" by blast
    with t 2(2) have rest: "try_routes e opts d (i + 1) later t = Some (x, s')" by simp
    from 2(1)[OF t refl f rest] obtain ks b' where ks: "length ks = length later"
      "\<forall>j<length later. ks ! j \<le> attempt_bound opts (i + 1 + j) \<and> (ro_skip_reason (later ! j) \<noteq> None \<longrightarrow> ks ! j = 0)"
      "sends opts (chain_calls (i + 1) later ks) (usable later) b' t s'" by blast
    from k(3,4) f have k3: "sends opts (calls_to i r 0 k) (if ro_skip_reason r = None then 1 else 0) False s t" by simp
    from sends_trans[OF k3 ks(3)]
    have "sends opts (chain_calls i (r # later) (k # ks)) (usable (r # later)) b' s s'"
      by (auto simp: usable_def split: if_splits)
    with ks k show ?thesis
      by (intro exI[of _ "k # ks"] exI[of _ b']) (auto simp: nth_Cons split: nat.splits)
  next
    case False
    with t 2(2) have "s' = t" by (cases f) auto
    moreover have "sends opts (calls_to i r 0 k) (usable (r # later)) b s t"
      by (rule sends_more[OF k(3)]) (simp add: usable_def)
    ultimately show ?thesis using k
      by (intro exI[of _ "k # replicate (length later) 0"] exI[of _ b]) (auto simp: nth_Cons chain_calls_0 split: nat.splits)
  qed
qed

lemma execute_sends:
  assumes "execute_with_context e opts l recorded rs = Some s"
  obtains ks b new where "length ks = length rs"
    "\<forall>j<length rs. ks ! j \<le> attempt_bound opts j \<and> (ro_skip_reason (rs ! j) \<noteq> None \<longrightarrow> ks ! j = 0)"
    "map call_of (sent s) = chain_calls 0 rs ks" "requests s = length (sent s)"
    "if b then sent s \<noteq> [] \<and> ar_outcome (last (sent s)) = ''ok'' \<and> (\<forall>a\<in>set (butlast (sent s)). ar_outcome a \<noteq> ''ok'') \<and>
              answer s \<noteq> None \<and> cr_effective_route (cs_report s) = Some (ar_route_index (last (sent s)))
     else (\<forall>a\<in>set (sent s). ar_outcome a \<noteq> ''ok'') \<and> answer s = None \<and> cr_effective_route (cs_report s) = None"
    "case xo_wire_budget opts of None \<Rightarrow> True | Some b \<Rightarrow> requests s \<le> usable rs + wb_shared_extra b"
proof -
  obtain n s0 where s0: "instant_now e (start_chain l recorded) = (n, s0)" by fastforce
  have u0: "sent s0 = []" "requests s0 = 0" "answer s0 = None" "cr_effective_route (cs_report s0) = None" "cs_extra_used s0 = 0"
    using s0 by (auto simp: instant_now_def tick_def start_chain_def view_defs empty_report_def)
  have "\<exists>ks b. length ks = length rs \<and>
    (\<forall>j<length rs. ks ! j \<le> attempt_bound opts j \<and> (ro_skip_reason (rs ! j) \<noteq> None \<longrightarrow> ks ! j = 0)) \<and>
    sends opts (chain_calls 0 rs ks) (usable rs) b s0 s"
  proof (cases "rs = []")
    case True
    with assms s0 show ?thesis
      by (intro exI[of _ "[]"] exI[of _ False])
        (auto simp: execute_with_context_def intro!: sends_unsent simp: unsent_def view_defs)
  next
    case False
    with assms s0 obtain x t where t: "try_routes e opts (map_option ((+) n) (wall_clock opts)) 0 rs s0 = Some (x, t)"
      and x: "s = (if x then t else finish_chain opts t)"
      by (auto simp: execute_with_context_def split: option.splits bool.splits)
    from try_routes_sends[OF t] obtain ks b where ks: "length ks = length rs"
      "\<forall>j<length rs. ks ! j \<le> attempt_bound opts j \<and> (ro_skip_reason (rs ! j) \<noteq> None \<longrightarrow> ks ! j = 0)"
      "sends opts (chain_calls 0 rs ks) (usable rs) b s0 t" by auto
    have "sent s = sent t" "requests s = requests t" "answer s = answer t" "cs_extra_used s = cs_extra_used t"
      "cr_effective_route (cs_report s) = cr_effective_route (cs_report t)"
      by (simp_all add: x finish_chain_def view_defs)
    then have "sends opts (chain_calls 0 rs ks) (usable rs) b s0 s"
      using ks(3) by (simp add: sends_def cong: if_cong option.case_cong)
    with ks show ?thesis by blast
  qed
  then obtain ks b where ks: "length ks = length rs"
    "\<forall>j<length rs. ks ! j \<le> attempt_bound opts j \<and> (ro_skip_reason (rs ! j) \<noteq> None \<longrightarrow> ks ! j = 0)"
    "sends opts (chain_calls 0 rs ks) (usable rs) b s0 s" by blast
  from ks(3) have paid: "case xo_wire_budget opts of None \<Rightarrow> True | Some b \<Rightarrow> requests s \<le> usable rs + wb_shared_extra b"
    by (auto simp: sends_def u0 split: option.splits)
  from ks(3) obtain new where "sent s = new" "map call_of new = chain_calls 0 rs ks" "requests s = length new"
    "if b then new \<noteq> [] \<and> ar_outcome (last new) = ''ok'' \<and> (\<forall>a\<in>set (butlast new). ar_outcome a \<noteq> ''ok'') \<and>
              answer s \<noteq> None \<and> cr_effective_route (cs_report s) = Some (ar_route_index (last new))
     else (\<forall>a\<in>set new. ar_outcome a \<noteq> ''ok'') \<and> answer s = None \<and> cr_effective_route (cs_report s) = None"
    unfolding sends_def u0 by auto
  with ks(1,2) paid show ?thesis by (intro that[of ks b]) simp_all
qed

section \<open>The stage's ledger\<close>

text \<open>What an operation of the stage may do to the shared ledger.\<close>

inductive ledger_step :: "(provider_failure \<Rightarrow> string) \<Rightarrow> stage_ledger \<Rightarrow> stage_ledger \<Rightarrow> bool" for summary where
  plans: "ledger_step summary l (plan_ledger n l)"
| reserves: "ledger_step summary l (snd (reserve l))"
| opens: "ledger_step summary l (open_route summary now r f l)"
| closes: "ledger_step summary l (close_route r l)"

definition ledger_grows :: "stage_ledger \<Rightarrow> nat \<Rightarrow> stage_ledger \<Rightarrow> bool" where
  "ledger_grows l n l' \<longleftrightarrow> sl_dispatched l + n \<le> sl_dispatched l' \<and> sl_cap l \<le> sl_cap l' \<and>
     (sl_dispatched l \<le> sl_cap l \<longrightarrow> sl_dispatched l' \<le> sl_cap l')"

lemma ledger_grows_refl: "ledger_grows l 0 l"
  by (simp add: ledger_grows_def)

lemma ledger_grows_trans: "ledger_grows l m l1 \<Longrightarrow> ledger_grows l1 n l2 \<Longrightarrow> ledger_grows l (m + n) l2"
  by (auto simp: ledger_grows_def)

lemma ledger_step_grows: "ledger_step summary l l' \<Longrightarrow> ledger_grows l 0 l'"
  by (cases rule: ledger_step.cases)
    (auto simp: ledger_grows_def plan_ledger_def reserve_def open_route_def close_route_def Let_def)

lemma ledger_steps_grow: "(ledger_step summary)\<^sup>*\<^sup>* l l' \<Longrightarrow> ledger_grows l 0 l'"
proof (induction rule: rtranclp_induct)
  case base
  show ?case by (rule ledger_grows_refl)
next
  case (step y z)
  from ledger_grows_trans[OF step.IH ledger_step_grows[OF step.hyps(2)]] show ?case by simp
qed

definition fair_stage :: "'v exec_env \<Rightarrow> bool" where
  "fair_stage e \<longleftrightarrow> (\<forall>n l. (ledger_step (en_summary e))\<^sup>*\<^sup>* l (en_others e n l))"

lemma others_grow: "fair_stage e \<Longrightarrow> ledger_grows l 0 (en_others e n l)"
  unfolding fair_stage_def by (blast intro: ledger_steps_grow)

text \<open>The ledger moved on, and every request sent since was reserved in it.\<close>

definition accounted :: "'v chain_state \<Rightarrow> 'v chain_state \<Rightarrow> bool" where
  "accounted s s' \<longleftrightarrow> requests s \<le> requests s' \<and>
     (case cs_ledger s of None \<Rightarrow> cs_ledger s' = None
      | Some l \<Rightarrow> (\<exists>l'. cs_ledger s' = Some l' \<and> ledger_grows l (requests s' - requests s) l'))"

lemma accounted_same: "requests s' = requests s \<Longrightarrow> cs_ledger s' = cs_ledger s \<Longrightarrow> accounted s s'"
  by (auto simp: accounted_def ledger_grows_refl split: option.splits)

lemma accounted_trans: "accounted s t \<Longrightarrow> accounted t u \<Longrightarrow> accounted s u"
  by (fastforce simp: accounted_def dest: ledger_grows_trans split: option.splits)

lemma accounted_quiet: "quiet s s' \<Longrightarrow> cs_ledger s' = cs_ledger s \<Longrightarrow> accounted s s'"
  by (rule accounted_same) (simp_all add: quiet_def requests_def)

lemma accounted_see: "fair_stage e \<Longrightarrow> accounted s (see_ledger e s)"
  by (auto simp: accounted_def see_ledger_def tick_def requests_def intro: others_grow split: option.splits)

lemma accounted_routes:
  "accounted s (s\<lparr>cs_ledger := map_option (open_route summary now r f) (cs_ledger s)\<rparr>)"
  "accounted s (s\<lparr>cs_ledger := map_option (close_route r) (cs_ledger s)\<rparr>)"
proof -
  have "ledger_grows l 0 (open_route summary now r f l)" "ledger_grows l 0 (close_route r l)" for l
    by (rule ledger_step_grows, rule opens, rule ledger_step_grows, rule closes)
  then show "accounted s (s\<lparr>cs_ledger := map_option (open_route summary now r f) (cs_ledger s)\<rparr>)"
    "accounted s (s\<lparr>cs_ledger := map_option (close_route r) (cs_ledger s)\<rparr>)"
    by (auto simp: accounted_def requests_def split: option.splits)
qed

text \<open>A reserved request may be sent: the count of requests still owes the ledger's one.\<close>

definition reserved_one :: "'v chain_state \<Rightarrow> 'v chain_state \<Rightarrow> bool" where
  "reserved_one s s' \<longleftrightarrow> requests s' = requests s \<and>
     (case cs_ledger s of None \<Rightarrow> cs_ledger s' = None
      | Some l \<Rightarrow> (\<exists>l'. cs_ledger s' = Some l' \<and> ledger_grows l 1 l'))"

lemma reserve_request_accounts:
  assumes "fair_stage e" "reserve_request e i r s = (g, s')"
  shows "if g then reserved_one s s' else accounted s s'"
proof (cases "cs_ledger (see_ledger e s)")
  case None
  with assms(2) show ?thesis
    by (auto simp: reserve_request_def Let_def reserved_one_def see_ledger_def tick_def requests_def)
next
  case (Some l)
  obtain l0 where l0: "cs_ledger s = Some l0" "ledger_grows l0 0 l"
    using Some others_grow[OF assms(1)] by (auto simp: see_ledger_def tick_def)
  have q: "requests (see_ledger e s) = requests s" by (simp add: see_ledger_def tick_def requests_def)
  show ?thesis
  proof (cases "sl_dispatched l < sl_cap l")
    case True
    with assms(2) Some l0 q show ?thesis
      by (auto simp: reserve_request_def Let_def reserve_def reserved_one_def requests_def ledger_grows_def)
  next
    case False
    with assms(2) Some l0 q show ?thesis
      by (auto simp: reserve_request_def Let_def reserve_def accounted_def requests_def budget_failure_def ledger_grows_def)
  qed
qed

lemma reserved_sent:
  assumes "accounted s t" "reserved_one t u" "requests v = Suc (requests u)" "cs_ledger v = cs_ledger u"
  shows "accounted s v"
proof (cases "cs_ledger s")
  case None
  with assms show ?thesis by (auto simp: accounted_def reserved_one_def)
next
  case (Some l)
  with assms obtain l1 l2 where "cs_ledger t = Some l1" "ledger_grows l (requests t - requests s) l1"
    "cs_ledger u = Some l2" "ledger_grows l1 1 l2" "requests s \<le> requests t" "requests u = requests t"
    by (auto simp: accounted_def reserved_one_def)
  with Some assms(3,4) ledger_grows_trans[of l "requests t - requests s" l1 1 l2] show ?thesis
    by (auto simp: accounted_def Suc_diff_le)
qed


lemma accounted_refl: "accounted s s"
  by (simp add: accounted_same)

lemma accounted_report [simp]:
  "accounted s (mark_cancelled s)" "accounted s (record_attempt e i n m b out why s)" "accounted s (cap_failure e cap s)"
  by (simp_all add: accounted_same requests_def mark_cancelled_def cap_failure_def Let_def)

lemma accounted_spend_extra: "fair_stage e \<Longrightarrow> spend_extra e opts i later err s = (g, s') \<Longrightarrow> accounted s s'"
proof -
  assume fair: "fair_stage e" and g: "spend_extra e opts i later err s = (g, s')"
  from accounted_see[OF fair, of s] have *: "accounted s t"
    if "cs_ledger t = cs_ledger (see_ledger e s)" "requests t = requests (see_ledger e s)" for t
    using accounted_trans[OF _ accounted_same] that by blast
  from g show ?thesis
    by (auto simp: spend_extra_def Let_def instant_now_def tick_def accounted_refl requests_def intro!: *
        split: option.splits if_splits)
qed

lemma accounted_back_off:
  assumes "back_off e opts d i r n err s = (f, s')"
  shows "accounted s s'"
proof (rule accounted_same)
  show "requests s' = requests s" using back_off_effect(1)[OF assms] by (simp add: unsent_def)
  show "cs_ledger s' = cs_ledger s"
  proof (cases "wait_before_retry i n")
    case None
    with assms show ?thesis by (simp add: back_off_def)
  next
    case (Some base)
    define w where "w = (case de_retry_after err of Some x \<Rightarrow> if x > base then x else base | None \<Rightarrow> base)"
    obtain l s1 where l: "remaining e d s = (l, s1)" by fastforce
    define s2 where "s2 = (case de_retry_after err of
       Some x \<Rightarrow> if xo_instant opts then s1 else s1\<lparr>cs_notes := cs_notes s1 @ [(slot_key opts r, x)]\<rparr> | None \<Rightarrow> s1)"
    obtain t1 s3 where t1: "instant_now e s2 = (t1, s3)" by fastforce
    obtain c s4 where c: "sleep_recorded e opts w s3 = (c, s4)" by fastforce
    obtain t2 s5 where t2: "instant_now e s4 = (t2, s5)" by fastforce
    have "cs_ledger s2 = cs_ledger s1" by (auto simp: s2_def split: option.splits)
    with assms Some quiet_remaining[OF l] quiet_instant_now[OF t1] quiet_sleep_recorded[OF c] quiet_instant_now[OF t2]
    show ?thesis
      by (auto simp: back_off_def Let_def w_def[symmetric] l s2_def[symmetric] t1 c t2 mark_cancelled_def split: if_splits)
  qed
qed

lemma accounted_after_failure:
  assumes "fair_stage e" "after_failure e opts d i r later limit n err s = (f, s')"
  shows "accounted s s'"
proof -
  define s1 where "s1 = record_attempt e i n (ro_model r) True (if de_cancelled err then ''cancel'' else ''fail'') (de_message err)
    (edit_report (\<lambda>rep. rep\<lparr>cr_terminal_failure := de_failure err\<rparr>) s\<lparr>cs_route_failure := de_failure err\<rparr>)"
  obtain l s2 where l: "remaining e d s1 = (l, s2)" by fastforce
  obtain g s3 where g: "spend_extra e opts i later err s2 = (g, s3)" by fastforce
  obtain h s4 where h: "back_off e opts d i r n err s3 = (h, s4)" by fastforce
  have u1: "accounted s s1" by (rule accounted_same) (simp_all add: s1_def requests_def)
  have u1': "accounted s (edit_report (\<lambda>rep. rep\<lparr>cr_stopped := True, cr_cancelled := cr_cancelled rep \<or> de_cancelled err\<rparr>) s1)"
    by (rule accounted_same) (simp_all add: s1_def requests_def)
  have u2: "accounted s s2"
    using quiet_remaining[OF l] by (intro accounted_trans[OF u1] accounted_quiet) simp_all
  have u3: "accounted s s3" by (rule accounted_trans[OF u2 accounted_spend_extra[OF assms(1) g]])
  have u4: "accounted s s4" by (rule accounted_trans[OF u3 accounted_back_off[OF h]])
  have u5: "accounted s (cap_failure e (the (wall_clock opts)) s2)" by (rule accounted_trans[OF u2]) simp
  show ?thesis
    using assms(2) unfolding after_failure_def Let_def s1_def[symmetric] l g h prod.case
    using u1 u1' u2 u3 u4 u5 by (simp split: if_splits)
qed

lemma accounted_after_success:
  assumes "fair_stage e" "after_success e i r n v s = (f, s')"
  shows "accounted s s'"
proof -
  define s1 where "s1 = record_attempt e i n (ro_model r) True ''ok'' []
    (edit_report (\<lambda>rep. rep\<lparr>cr_terminal_failure := None\<rparr>) s)"
  define s3 where "s3 = see_ledger e s1\<lparr>cs_ledger := map_option (close_route r) (cs_ledger (see_ledger e s1))\<rparr>"
  have "accounted s s1" by (rule accounted_same) (simp_all add: s1_def requests_def)
  then have u3: "accounted s s3" unfolding s3_def
    by (rule accounted_trans[OF accounted_trans[OF _ accounted_see[OF assms(1)]] accounted_routes(2)])
  have "s' = edit_report (\<lambda>rep. rep\<lparr>cr_value := Some v, cr_effective_route := Some i, cr_effective_model := ro_model r\<rparr>) s3"
    using assms(2) by (simp add: after_success_def Let_def s1_def s3_def)
  then show ?thesis by (intro accounted_trans[OF u3] accounted_same) (simp_all add: requests_def)
qed

lemma accounted_attempt_body:
  assumes "fair_stage e" "attempt_body e opts d i r later limit n recovery backoff s = Some (f, s')"
  shows "accounted s s'"
proof -
  obtain c s1 where c: "is_cancelled e opts s = (c, s1)" by fastforce
  obtain l s2 where l: "remaining e d s1 = (l, s2)" by fastforce
  obtain q s3 where q: "instant_now e (tick s2) = (q, s3)" by fastforce
  define out where "out = (if slot_key opts r = [] then Some (Admitted, s3) else admit e opts d (slot_key opts r) s3)"
  define late where "late \<longleftrightarrow> map_option as_millis l = Some 0"
  have u1: "accounted s s1" using quiet_is_cancelled[OF c] by (simp add: accounted_quiet)
  have u2: "accounted s s2" using quiet_remaining[OF l] by (intro accounted_trans[OF u1]) (simp add: accounted_quiet)
  have "accounted s2 (tick s2)" by (simp add: accounted_same tick_def requests_def)
  then have u3: "accounted s s3"
    using quiet_instant_now[OF q] accounted_quiet accounted_trans u2 by blast
  note E = assms(2)[unfolded attempt_body_def Let_def c l prod.case q out_def[symmetric], folded late_def]
  show ?thesis
  proof (cases "c \<or> late")
    case True
    with E show ?thesis
      using accounted_trans[OF u1 accounted_report(1)] accounted_trans[OF u2 accounted_report(3)] by (auto split: if_splits)
  next
    case False
    with E obtain a s4 where o: "out = Some (a, s4)" by (cases out) (auto split: if_splits)
    have u4: "accounted s s4"
      using o quiet_admit[of e opts d "slot_key opts r" s3 a s4] u3
      by (auto simp: out_def accounted_quiet split: if_splits intro: accounted_trans)
    show ?thesis
    proof (cases a)
      case Admitted
      obtain g s5 where g: "reserve_request e i r s4 = (g, s5)" by fastforce
      note u5 = reserve_request_accounts[OF assms(1) g]
      show ?thesis
      proof (cases g)
        case False
        with E \<open>\<not> (c \<or> _)\<close> o Admitted g accounted_trans[OF u4] u5 show ?thesis by simp
      next
        case True
        from E \<open>\<not> (c \<or> _)\<close> o Admitted g True obtain res s6 where
          m: "dispatch_once e opts d i r (n + 1) recovery backoff (en_stamp e (cs_seen s2)) q s5 = Some (res, s6)"
          by (cases "dispatch_once e opts d i r (n + 1) recovery backoff (en_stamp e (cs_seen s2)) q s5") auto
        have "requests s6 = Suc (requests s5)" "cs_ledger s6 = cs_ledger s5"
          using m by (auto simp: dispatch_once_def Let_def instant_now_def remaining_def tick_def view_defs split: option.splits)
        from reserved_sent[OF u4 _ this] u5 True have u6: "accounted s s6" by simp
        show ?thesis
        proof (cases res)
          case (Inl err)
          with E \<open>\<not> (c \<or> _)\<close> o Admitted g True m
          have "after_failure e opts d i r later limit (n + 1) err s6 = (f, s')" by simp
          from accounted_trans[OF u6 accounted_after_failure[OF assms(1) this]] show ?thesis .
        next
          case (Inr v)
          with E \<open>\<not> (c \<or> _)\<close> o Admitted g True m
          have "after_success e i r (n + 1) v s6 = (f, s')" by simp
          from accounted_trans[OF u6 accounted_after_success[OF assms(1) this]] show ?thesis .
        qed
      qed
    next
      case Refused
      with E \<open>\<not> (c \<or> _)\<close> o accounted_trans[OF u4 accounted_report(3)] show ?thesis by auto
    next
      case Abandoned
      with E \<open>\<not> (c \<or> _)\<close> o accounted_trans[OF u4 accounted_report(1)] show ?thesis by auto
    qed
  qed
qed

lemma accounted_attempts:
  "attempts e opts d i r later limit a recovery backoff s = Some (f, s') \<Longrightarrow> fair_stage e \<Longrightarrow> accounted s s'"
proof (induction e opts d i r later limit a recovery backoff s rule: attempts.induct)
  case (1 e opts d i r later limit a recovery backoff s)
  note step = attempts.simps[of e opts d i r later limit a]
  show ?case
  proof (cases "a < limit")
    case False
    with 1(2) show ?thesis by (simp add: step accounted_refl)
  next
    case True
    with 1(2) obtain g t where body: "attempt_body e opts d i r later limit a recovery backoff s = Some (g, t)"
      by (cases "attempt_body e opts d i r later limit a recovery backoff s") (auto simp: step)
    note acc = accounted_attempt_body[OF 1(3) body]
    show ?thesis
    proof (cases g)
      case (Again x w)
      with body True 1(2) have "attempts e opts d i r later limit (a + 1) x w t = Some (f, s')" by (simp add: step)
      from accounted_trans[OF acc 1(1)[OF True body refl Again this 1(3)]] show ?thesis .
    next
      case Return
      with body True 1(2) acc show ?thesis by (simp add: step)
    next
      case Leave
      with body True 1(2) acc show ?thesis by (simp add: step)
    qed
  qed
qed

lemma accounted_settle_route:
  assumes "fair_stage e" "settle_route e r s = (f, s')"
  shows "accounted s s'"
proof -
  obtain now t where t: "instant_now e (see_ledger e s) = (now, t)" by fastforce
  have u: "accounted s t"
    using accounted_trans[OF accounted_see[OF assms(1)] accounted_quiet] quiet_instant_now[OF t] by blast
  show ?thesis
    using assms(2) t accounted_refl[of s] accounted_trans[OF u accounted_routes(1)]
    by (auto simp: settle_route_def Let_def split: if_splits option.splits)
qed

lemma accounted_work_route:
  assumes "fair_stage e" "work_route e opts d i r later s = Some (f, s')"
  shows "accounted s s'"
proof -
  let ?s = "s\<lparr>cs_route_failure := None\<rparr>"
  from assms obtain g t where a: "attempts e opts d i r later (attempt_bound opts i) 0 None 0 ?s = Some (g, t)"
    by (cases "attempts e opts d i r later (attempt_bound opts i) 0 None 0 ?s") (auto simp: work_route_def)
  have "accounted s ?s" by (rule accounted_same) (simp_all add: requests_def)
  note u = accounted_trans[OF this accounted_attempts[OF a assms(1)]]
  with a assms(2) accounted_settle_route[OF assms(1), of r t] show ?thesis
    by (cases g) (auto simp: work_route_def intro: accounted_trans)
qed

lemma accounted_try_route:
  assumes fair: "fair_stage e" and "try_route e opts d i r later s = Some (f, s')"
  shows "accounted s s'"
proof -
  obtain c s1 where c: "is_cancelled e opts s = (c, s1)" by fastforce
  have u1: "accounted s s1" using quiet_is_cancelled[OF c] by (simp add: accounted_quiet)
  note E = assms(2)[unfolded try_route_def c Let_def prod.case]
  define s2 where "s2 = see_ledger e (s1\<lparr>cs_any_dispatchable := True\<rparr>)"
  define s3 where "s3 = see_ledger e s2"
  obtain n4 s4 where s4: "instant_now e s3 = (n4, s4)" by fastforce
  define s5 where "s5 = see_ledger e s4"
  obtain n6 s6 where s6: "instant_now e s5 = (n6, s6)" by fastforce
  have "accounted s1 (s1\<lparr>cs_any_dispatchable := True\<rparr>)" by (rule accounted_same) (simp_all add: requests_def)
  then have u2: "accounted s s2"
    unfolding s2_def using accounted_trans[OF accounted_trans[OF u1] accounted_see[OF fair]] by blast
  have u4: "accounted s s4"
    using accounted_trans[OF accounted_trans[OF u2 accounted_see[OF fair]] accounted_quiet] quiet_instant_now[OF s4]
    unfolding s3_def by blast
  have u6: "accounted s s6"
    using accounted_trans[OF accounted_trans[OF u4 accounted_see[OF fair]] accounted_quiet] quiet_instant_now[OF s6]
    unfolding s5_def by blast
  note W = accounted_work_route[OF fair, of opts d i r later]
  have dead: "accounted s2 (edit_report (\<lambda>rep. rep\<lparr>cr_terminal_failure := g rep\<rparr>) (record_attempt e i 0 m False o1 o2 s2))" for g m o1 o2
    by (rule accounted_same) (simp_all add: requests_def)
  show ?thesis
    using E[folded s2_def, folded s3_def, unfolded s4 prod.case, folded s5_def, unfolded s6 prod.case]
      accounted_trans[OF u1 accounted_report(1)] accounted_trans[OF u1 accounted_report(2)] accounted_trans[OF u2 dead]
      accounted_trans[OF u4 W] accounted_trans[OF u6 W] accounted_trans[OF u6 accounted_report(2)]
    by (auto split: if_splits option.splits)
qed

lemma accounted_try_routes:
  "try_routes e opts d i rs s = Some (x, s') \<Longrightarrow> fair_stage e \<Longrightarrow> accounted s s'"
proof (induction e opts d i rs s rule: try_routes.induct)
  case (1 e opts d i s)
  then show ?case by (simp add: accounted_refl)
next
  case (2 e opts d i r later s)
  from 2(2) obtain f t where t: "try_route e opts d i r later s = Some (f, t)"
    by (cases "try_route e opts d i r later s") auto
  note u = accounted_try_route[OF 2(3) t]
  show ?case
  proof (cases f)
    case (Again y w)
    with t 2(2) have "try_routes e opts d (i + 1) later t = Some (x, s')" by simp
    from accounted_trans[OF u 2(1)[OF t refl Again this 2(3)]] show ?thesis .
  qed (use t 2(2) u in auto)
qed

lemma execute_accounted:
  assumes "fair_stage e" "execute_with_context e opts l recorded rs = Some s"
  shows "accounted (start_chain l recorded) s"
proof -
  obtain n s0 where s0: "instant_now e (start_chain l recorded) = (n, s0)" by fastforce
  have u0: "accounted (start_chain l recorded) s0" using quiet_instant_now[OF s0] by (simp add: accounted_quiet)
  show ?thesis
  proof (cases "rs = []")
    case True
    with assms(2) s0 u0 show ?thesis
      by (auto simp: execute_with_context_def intro!: accounted_trans[OF u0] accounted_same simp: requests_def)
  next
    case False
    with assms(2) s0 obtain x t where t: "try_routes e opts (map_option ((+) n) (wall_clock opts)) 0 rs s0 = Some (x, t)"
      and x: "s = (if x then t else finish_chain opts t)"
      by (auto simp: execute_with_context_def split: option.splits bool.splits)
    have "accounted t s" using x by (intro accounted_same) (simp_all add: finish_chain_def requests_def)
    with accounted_trans[OF u0 accounted_try_routes[OF t assms(1)]] show ?thesis by (rule accounted_trans)
  qed
qed


section \<open>The chain returns\<close>

text \<open>A wait for a slot ends: the slot comes, the operation is cancelled, or its clock runs out.\<close>

definition slot_comes :: "'v exec_env \<Rightarrow> exec_options \<Rightarrow> string \<Rightarrow> bool" where
  "slot_comes e opts key \<longleftrightarrow>
     (\<exists>N. \<forall>n\<ge>N. en_enter e n key) \<or> (xo_cancel opts \<and> (\<exists>N. \<forall>n\<ge>N. en_flag e n)) \<or>
     (wall_clock opts \<noteq> None \<and> (\<forall>t. \<exists>N. \<forall>n\<ge>N. t \<le> en_now e n))"

text \<open>A request to a route ends: the caller's future resolves, or the operation is cancelled meanwhile.\<close>

definition dispatch_ends :: "'v exec_env \<Rightarrow> exec_options \<Rightarrow> route \<Rightarrow> bool" where
  "dispatch_ends e opts r \<longleftrightarrow>
     (\<forall>n ctx. en_dispatch e n ctx r \<noteq> None \<or> (xo_cancel opts \<and> en_interrupt e n))"

lemma dispatch_once_ends:
  "dispatch_ends e opts r \<Longrightarrow> dispatch_once e opts d i r n recovery backoff queued start s \<noteq> None"
  by (auto simp: dispatch_ends_def dispatch_once_def Let_def split: prod.splits)

lemma admit_ends:
  assumes "(\<forall>n\<ge>N. en_enter e n key) \<or> (xo_cancel opts \<and> (\<forall>n\<ge>N. en_flag e n)) \<or>
    (\<exists>t. d = Some t \<and> (\<forall>n\<ge>N. t \<le> en_now e n))"
  shows "admit e opts d key s \<noteq> None"
proof (induction "N - cs_seen s" arbitrary: s rule: less_induct)
  case less
  obtain c1 s1 where c1: "is_cancelled e opts s = (c1, s1)" by fastforce
  obtain l2 s2 where l2: "remaining e d (tick s1) = (l2, s2)" by fastforce
  obtain c3 s3 where c3: "sleep_unrecorded e opts (millis 50) s2 = (c3, s3)" by fastforce
  have grow: "cs_seen s < cs_seen s3"
    using quiet_is_cancelled[OF c1] quiet_remaining[OF l2] quiet_sleep_unrecorded[OF c3] by (simp add: tick_def)
  have "admit e opts d key s3 \<noteq> None \<or> c1 \<or> en_enter e (cs_seen s1) key \<or> l2 = Some 0"
  proof (cases "N - cs_seen s3 < N - cs_seen s")
    case True
    with less show ?thesis by simp
  next
    case False
    with grow have N: "N \<le> cs_seen s" by linarith
    have "cs_seen s1 = Suc (cs_seen s)" using quiet_is_cancelled[OF c1] by simp
    moreover have "c1 \<longleftrightarrow> xo_cancel opts \<and> en_flag e (cs_seen s)" using c1 by (auto simp: is_cancelled_def)
    moreover have "l2 = (case d of None \<Rightarrow> None | Some t \<Rightarrow> Some (t - en_now e (Suc (cs_seen s1))))"
      using l2 by (auto simp: remaining_def instant_now_def tick_def split: option.splits)
    ultimately show ?thesis using assms N by auto
  qed
  then show ?case
    by (subst admit.simps) (auto simp: c1 l2 c3)
qed


lemma wait_ends:
  assumes "slot_comes e opts key" "d = map_option ((+) t) (wall_clock opts)"
  shows "admit e opts d key s \<noteq> None"
proof -
  have "\<exists>N. (\<forall>n\<ge>N. en_enter e n key) \<or> (xo_cancel opts \<and> (\<forall>n\<ge>N. en_flag e n)) \<or>
    (\<exists>t. d = Some t \<and> (\<forall>n\<ge>N. t \<le> en_now e n))"
    using assms unfolding slot_comes_def by fastforce
  then show ?thesis using admit_ends by blast
qed

lemma attempt_body_ends:
  assumes "slot_comes e opts (slot_key opts r)" "dispatch_ends e opts r" "d = map_option ((+) t) (wall_clock opts)"
  shows "attempt_body e opts d i r later limit n recovery backoff s \<noteq> None"
proof -
  have A: "admit e opts d (slot_key opts r) s \<noteq> None" for s
    by (rule wait_ends[OF assms(1,3)])
  show ?thesis
    unfolding attempt_body_def Let_def using A dispatch_once_ends[OF assms(2)]
    by (auto split: prod.splits option.splits admission.splits sum.splits) (metis option.distinct(1))+
qed

lemma attempts_end:
  assumes "\<And>n recovery backoff s. attempt_body e opts d i r later limit n recovery backoff s \<noteq> None"
  shows "attempts e opts d i r later limit a recovery backoff s \<noteq> None"
proof (induction "limit - a" arbitrary: a recovery backoff s)
  case 0
  then show ?case by (simp add: attempts.simps)
next
  case (Suc m)
  obtain f t where b: "attempt_body e opts d i r later limit a recovery backoff s = Some (f, t)"
    using assms by fastforce
  have "m = limit - (a + 1)" using Suc(2) by simp
  from Suc(1)[OF this] b show ?case
    by (subst attempts.simps) (auto split: flow.splits)
qed

lemma try_routes_end:
  assumes "\<And>r. r \<in> set rs \<Longrightarrow> slot_comes e opts (slot_key opts r) \<and> dispatch_ends e opts r"
    "d = map_option ((+) t) (wall_clock opts)"
  shows "try_routes e opts d i rs s \<noteq> None"
  using assms(1)
proof (induction rs arbitrary: i s)
  case Nil
  then show ?case by simp
next
  case (Cons r later)
  have "attempts e opts d i r later limit a recovery backoff s \<noteq> None" for limit a recovery backoff s
    using Cons.prems assms(2) by (intro attempts_end attempt_body_ends) auto
  then have "work_route e opts d i r later s \<noteq> None" for s
    by (auto simp: work_route_def split: option.splits flow.splits prod.splits)
  then have "try_route e opts d i r later s \<noteq> None"
    by (auto simp: try_route_def Let_def split: option.splits prod.splits)
  with Cons show ?case by (auto split: option.splits flow.splits)
qed

lemma execute_ends:
  assumes "\<And>r. r \<in> set rs \<Longrightarrow> slot_comes e opts (slot_key opts r) \<and> dispatch_ends e opts r"
  shows "\<exists>s. execute_with_context e opts l recorded rs = Some s"
proof -
  obtain n s0 where s0: "instant_now e (start_chain l recorded) = (n, s0)" by fastforce
  show ?thesis
    using try_routes_end[OF assms, of rs "map_option ((+) n) (wall_clock opts)" n 0 s0] s0
    by (auto simp: execute_with_context_def split: option.splits bool.splits)
qed

section \<open>A chain that never answers\<close>

text \<open>Every request fails in a way that may pass, and nothing else ends the chain.\<close>

definition hopeless :: "'v exec_env \<Rightarrow> exec_options \<Rightarrow> bool" where
  "hopeless e opts \<longleftrightarrow> \<not> xo_cancel opts \<and> xo_attempt_limit opts = None \<and> xo_wire_budget opts = None \<and>
     (\<forall>n key. en_enter e n key) \<and>
     (\<forall>n ctx r. case en_dispatch e n ctx r of None \<Rightarrow> False | Some (Inr _) \<Rightarrow> False
       | Some (Inl err) \<Rightarrow> \<not> de_cancelled err \<and> de_disposition err = Retry_Route \<and> de_recovery err = None \<and> de_retry_after err = None)"

text \<open>\<open>k\<close> more requests and the waits between them, each as long as asked when timers are skipped.\<close>

definition spent :: "exec_options \<Rightarrow> nat \<Rightarrow> nat list \<Rightarrow> 'v chain_state \<Rightarrow> 'v chain_state \<Rightarrow> bool" where
  "spent opts k ws s s' \<longleftrightarrow> requests s' = requests s + k \<and> answer s' = answer s \<and> cs_ledger s = None \<and> cs_ledger s' = None \<and>
     cr_cancelled (cs_report s') = cr_cancelled (cs_report s) \<and> cr_blocked (cs_report s') = cr_blocked (cs_report s) \<and>
     cr_stopped (cs_report s') = cr_stopped (cs_report s) \<and>
     (\<exists>new. cr_waits (cs_report s') = cr_waits (cs_report s) @ new \<and> list_all2 (\<le>) new ws \<and> (xo_instant opts \<longrightarrow> new = ws))"

lemma spent_trans: "spent opts j v s t \<Longrightarrow> spent opts k w t u \<Longrightarrow> spent opts (j + k) (v @ w) s u"
  unfolding spent_def by (auto intro: list_all2_appendI)

lemma hopeless_admit:
  assumes "hopeless e opts"
  shows "\<exists>t. admit e opts d key s = Some (Admitted, t) \<and> quiet s t \<and> cs_ledger t = cs_ledger s"
proof -
  have "admit e opts d key s = Some (Admitted, tick (tick s))"
    using assms by (subst admit.simps) (simp add: is_cancelled_def hopeless_def)
  then show ?thesis by (simp add: quiet_def tick_def)
qed

lemma hopeless_not_cancelled: "hopeless e opts \<Longrightarrow> is_cancelled e opts s = (False, tick s)"
  by (simp add: is_cancelled_def hopeless_def)

lemma hopeless_sleep: "hopeless e opts \<Longrightarrow> sleep_recorded e opts w s = (c, t) \<Longrightarrow> \<not> c"
  by (auto simp: sleep_recorded_def sleep_unrecorded_def cancellable_sleep_def is_cancelled_def hopeless_def split: if_splits)


lemma hopeless_body:
  assumes hope: "hopeless e opts" and led: "cs_ledger s = None" and n: "n < route_attempt_limit i"
  shows "\<exists>f t. attempt_body e opts None i r later (route_attempt_limit i) n recovery backoff s = Some (f, t) \<and>
    (if n + 1 < route_attempt_limit i
     then (\<exists>w. f = Again None w) \<and> spent opts 1 [the (wait_before_retry i (n + 1))] s t
     else f = Leave \<and> spent opts 1 [] s t)"
proof -
  obtain q s3 where q: "instant_now e (tick (tick s)) = (q, s3)" by fastforce
  obtain s4 where s4: "(if slot_key opts r = [] then Some (Admitted, s3) else admit e opts None (slot_key opts r) s3) = Some (Admitted, s4)"
    "quiet s3 s4" "cs_ledger s4 = cs_ledger s3"
    using hopeless_admit[OF hope, of None "slot_key opts r" s3] quiet_refl[of s3] by (cases "slot_key opts r = []") auto
  have q4: "quiet s s4" "cs_ledger s4 = None"
    using quiet_instant_now[OF q] s4(2,3) led by (auto simp: quiet_def tick_def)
  define s5 where "s5 = see_ledger e s4"
  have q5: "quiet s s5" "cs_ledger s5 = None"
    using q4 by (auto simp: s5_def quiet_def see_ledger_def tick_def)
  have g: "reserve_request e i r s4 = (True, s5)"
    using q5(2) by (simp add: reserve_request_def s5_def[symmetric] Let_def)
  have hop: "\<not> xo_cancel opts" "xo_wire_budget opts = None" using hope by (simp_all add: hopeless_def)
  have "dispatch_ends e opts r"
    using hope by (fastforce simp: dispatch_ends_def hopeless_def split: option.splits)
  then obtain res s6 where m: "dispatch_once e opts None i r (n + 1) recovery backoff (en_stamp e (cs_seen (tick s))) q s5 = Some (res, s6)"
    using dispatch_once_ends by fastforce
  obtain err where err: "res = Inl err" "\<not> de_cancelled err" "de_disposition err = Retry_Route" "de_recovery err = None"
    "de_retry_after err = None"
  proof -
    have "\<exists>k ctx. en_dispatch e k ctx r = Some res"
      using m hop by (simp add: dispatch_once_def Let_def split: prod.splits) blast
    then obtain k ctx where "en_dispatch e k ctx r = Some res" by blast
    moreover have "case en_dispatch e k ctx r of None \<Rightarrow> False | Some (Inr _) \<Rightarrow> False
       | Some (Inl err) \<Rightarrow> \<not> de_cancelled err \<and> de_disposition err = Retry_Route \<and> de_recovery err = None \<and> de_retry_after err = None"
      using hope by (simp add: hopeless_def)
    ultimately show ?thesis using that by (auto split: option.splits sum.splits)
  qed
  have s6: "requests s6 = Suc (requests s)" "answer s6 = answer s" "cs_ledger s6 = None"
    "cr_waits (cs_report s6) = cr_waits (cs_report s)" "cr_cancelled (cs_report s6) = cr_cancelled (cs_report s)"
    "cr_blocked (cs_report s6) = cr_blocked (cs_report s)" "cr_stopped (cs_report s6) = cr_stopped (cs_report s)"
    using m q5 by (auto simp: dispatch_once_def Let_def instant_now_def remaining_def tick_def view_defs quiet_def split: option.splits)
  define s7 where "s7 = record_attempt e i (Suc n) (ro_model r) True ''fail'' (de_message err)
    (edit_report (\<lambda>rep. rep\<lparr>cr_terminal_failure := de_failure err\<rparr>) s6\<lparr>cs_route_failure := de_failure err\<rparr>)"
  have s7: "spent opts 1 [] s s7"
    using s6 led by (simp add: s7_def spent_def view_defs)
  have sp: "spend_extra e opts i later err s7 = (True, s7)" using hop by (simp add: spend_extra_def)
  have "attempt_body e opts None i r later (route_attempt_limit i) n recovery backoff s =
      Some (after_failure e opts None i r later (route_attempt_limit i) (n + 1) err s6)"
    using m q s4(1) g err(1) by (simp add: attempt_body_def hopeless_not_cancelled[OF hope] remaining_def Let_def)
  also have "after_failure e opts None i r later (route_attempt_limit i) (n + 1) err s6 =
      (if n + 1 < route_attempt_limit i then back_off e opts None i r (n + 1) err s7 else (Leave, s7))"
    using err hop by (simp add: after_failure_def Let_def s7_def[symmetric] remaining_def stalled_def sp)
  finally have body: "attempt_body e opts None i r later (route_attempt_limit i) n recovery backoff s =
    Some (if n + 1 < route_attempt_limit i then back_off e opts None i r (n + 1) err s7 else (Leave, s7))" .
  show ?thesis
  proof (cases "n + 1 < route_attempt_limit i")
    case False
    with body s7 show ?thesis by simp
  next
    case True
    then obtain base where base: "wait_before_retry i (n + 1) = Some base"
      by (auto simp: wait_before_retry_def list_get_def route_attempt_limit_def PRIMARY_WAITS_def FALLBACK_WAITS_def
          PRIMARY_ATTEMPTS_def FALLBACK_ATTEMPTS_def split: if_splits)
    obtain t1 u1 where u1: "instant_now e s7 = (t1, u1)" by fastforce
    obtain c u2 where u2: "sleep_recorded e opts base u1 = (c, u2)" by fastforce
    obtain t2 u3 where u3: "instant_now e u2 = (t2, u3)" by fastforce
    have "\<not> c" by (rule hopeless_sleep[OF hope u2])
    define actual where "actual = (if xo_instant opts then base else min (t2 - t1) base)"
    define u4 where "u4 = edit_report (\<lambda>rep. rep\<lparr>cr_waits := cr_waits rep @ [actual]\<rparr>) u3"
    have b: "back_off e opts None i r (n + 1) err s7 = (Again None actual, u4)"
      using base err(5) u1 u2 u3 \<open>\<not> c\<close> by (simp add: back_off_def remaining_def actual_def u4_def Let_def)
    have "quiet s7 u3" "cs_ledger u3 = cs_ledger s7"
      using quiet_instant_now[OF u1] quiet_sleep_recorded[OF u2] quiet_instant_now[OF u3] by (auto simp: quiet_def)
    then have "spent opts 0 [base] s7 u4"
      using s7 by (simp add: u4_def spent_def view_defs quiet_def actual_def)
    from spent_trans[OF s7 this] body True b base show ?thesis by simp
  qed
qed

text \<open>The waits of a route from its attempt \<open>a\<close> on.\<close>

definition waits_from :: "nat \<Rightarrow> nat \<Rightarrow> nat list" where
  "waits_from i a = drop a (if i = 0 then PRIMARY_WAITS else FALLBACK_WAITS)"

lemma hopeless_attempts:
  assumes "hopeless e opts" "cs_ledger s = None" "a < route_attempt_limit i"
  shows "\<exists>t. attempts e opts None i r later (route_attempt_limit i) a recovery backoff s = Some (Leave, t) \<and>
    spent opts (route_attempt_limit i - a) (waits_from i a) s t"
  using assms(2,3)
proof (induction "route_attempt_limit i - a" arbitrary: a recovery backoff s)
  case 0
  then show ?case by simp
next
  case (Suc m)
  from hopeless_body[OF assms(1) Suc(3,4), of r later recovery backoff] obtain f t where
    b: "attempt_body e opts None i r later (route_attempt_limit i) a recovery backoff s = Some (f, t)" and
    eff: "if a + 1 < route_attempt_limit i
     then (\<exists>w. f = Again None w) \<and> spent opts 1 [the (wait_before_retry i (a + 1))] s t
     else f = Leave \<and> spent opts 1 [] s t" by blast
  show ?case
  proof (cases "a + 1 < route_attempt_limit i")
    case True
    with eff obtain w where w: "f = Again None w" "spent opts 1 [the (wait_before_retry i (a + 1))] s t" by auto
    then have "cs_ledger t = None" by (simp add: spent_def)
    have "m = route_attempt_limit i - (a + 1)" using Suc(2) by simp
    from Suc(1)[OF this \<open>cs_ledger t = None\<close> True, of None w] obtain u where
      u: "attempts e opts None i r later (route_attempt_limit i) (a + 1) None w t = Some (Leave, u)"
      "spent opts (route_attempt_limit i - (a + 1)) (waits_from i (a + 1)) t u" by auto
    define L where "L = (if i = 0 then PRIMARY_WAITS else FALLBACK_WAITS)"
    have "Suc (length L) = route_attempt_limit i"
      by (simp add: L_def route_attempt_limit_def PRIMARY_WAITS_def FALLBACK_WAITS_def PRIMARY_ATTEMPTS_def FALLBACK_ATTEMPTS_def)
    then have "a < length L" using True by simp
    then have "waits_from i a = [the (wait_before_retry i (a + 1))] @ waits_from i (a + 1)"
      by (simp add: waits_from_def wait_before_retry_def list_get_def L_def[symmetric] Cons_nth_drop_Suc)
    moreover have "1 + (route_attempt_limit i - (a + 1)) = route_attempt_limit i - a" using Suc(4) by simp
    ultimately show ?thesis
      using spent_trans[OF w(2) u(2)] Suc(4) u(1) w(1) b
      by (subst attempts.simps) (simp del: append.simps)
  next
    case False
    then have "waits_from i a = []" "route_attempt_limit i - a = 1"
      using Suc(4) by (auto simp: waits_from_def route_attempt_limit_def
          PRIMARY_WAITS_def FALLBACK_WAITS_def PRIMARY_ATTEMPTS_def FALLBACK_ATTEMPTS_def split: if_splits)
    with False eff b Suc(4) show ?thesis by (subst attempts.simps) simp
  qed
qed


lemma spent_same:
  assumes "cr_requests (cs_report t) = cr_requests (cs_report s)" "cr_value (cs_report t) = cr_value (cs_report s)"
    "cs_ledger s = None" "cs_ledger t = None" "cr_cancelled (cs_report t) = cr_cancelled (cs_report s)"
    "cr_blocked (cs_report t) = cr_blocked (cs_report s)" "cr_stopped (cs_report t) = cr_stopped (cs_report s)"
    "cr_waits (cs_report t) = cr_waits (cs_report s)"
  shows "spent opts 0 [] s t"
  using assms by (simp add: spent_def view_defs)

lemma attempt_bound_hopeless: "hopeless e opts \<Longrightarrow> attempt_bound opts i = route_attempt_limit i"
  by (simp add: attempt_bound_def hopeless_def)

lemma hopeless_try_route:
  assumes hope: "hopeless e opts" and s: "cs_ledger s = None" "ro_skip_reason r = None" "\<not> cr_cancelled (cs_report s)"
  shows "\<exists>t. try_route e opts None i r later s = Some (Again None 0, t) \<and>
    spent opts (route_attempt_limit i) (waits_from i 0) s t \<and> \<not> cr_cancelled (cs_report t)"
proof -
  define s2 where "s2 = see_ledger e ((tick s)\<lparr>cs_any_dispatchable := True\<rparr>)"
  obtain n s4 where s4: "instant_now e (see_ledger e s2) = (n, s4)" by fastforce
  let ?s = "s4\<lparr>cs_route_failure := None\<rparr>"
  have u: "cs_ledger s2 = None" "cs_ledger s4 = None" "spent opts 0 [] s ?s" "\<not> cr_cancelled (cs_report ?s)"
    using s s4 by (auto simp: s2_def see_ledger_def tick_def instant_now_def intro: spent_same)
  have pos: "0 < route_attempt_limit i" by (simp add: route_attempt_limit_def PRIMARY_ATTEMPTS_def FALLBACK_ATTEMPTS_def)
  from hopeless_attempts[OF hope _ pos, of ?s r later None 0] u obtain t where
    t: "attempts e opts None i r later (route_attempt_limit i) 0 None 0 ?s = Some (Leave, t)"
    "spent opts (route_attempt_limit i) (waits_from i 0) ?s t" by auto
  from spent_trans[OF u(3) t(2)] have sp: "spent opts (route_attempt_limit i) (waits_from i 0) s t" by simp
  then have "settle_route e r t = (Again None 0, t)"
    using s(3) by (simp add: settle_route_def spent_def)
  then have "work_route e opts None i r later s4 = Some (Again None 0, t)"
    using t(1) by (simp add: work_route_def attempt_bound_hopeless[OF hope])
  moreover have "try_route e opts None i r later s = work_route e opts None i r later s4"
    using s(2) u(1,2) s4 by (simp add: try_route_def hopeless_not_cancelled[OF hope] Let_def s2_def[symmetric])
  ultimately show ?thesis using sp s(3) by (simp add: spent_def)
qed

fun chain_waits :: "nat \<Rightarrow> 'r list \<Rightarrow> nat list" where
  "chain_waits i [] = []"
| "chain_waits i (r # rs) = waits_from i 0 @ chain_waits (i + 1) rs"

fun chain_limit :: "nat \<Rightarrow> 'r list \<Rightarrow> nat" where
  "chain_limit i [] = 0"
| "chain_limit i (r # rs) = route_attempt_limit i + chain_limit (i + 1) rs"

lemma hopeless_try_routes:
  assumes "hopeless e opts" "cs_ledger s = None" "\<forall>r\<in>set rs. ro_skip_reason r = None" "\<not> cr_cancelled (cs_report s)"
  shows "\<exists>t. try_routes e opts None i rs s = Some (False, t) \<and> spent opts (chain_limit i rs) (chain_waits i rs) s t"
  using assms(2-4)
proof (induction rs arbitrary: i s)
  case Nil
  then show ?case by (simp add: spent_same)
next
  case (Cons r later)
  from hopeless_try_route[OF assms(1) Cons.prems(1) _ Cons.prems(3), of r i later] Cons.prems(2) obtain t where
    t: "try_route e opts None i r later s = Some (Again None 0, t)"
    "spent opts (route_attempt_limit i) (waits_from i 0) s t" "\<not> cr_cancelled (cs_report t)" by auto
  then have "cs_ledger t = None" by (simp add: spent_def)
  from Cons.IH[OF this _ t(3), of "i + 1"] Cons.prems(2) obtain u where
    u: "try_routes e opts None (i + 1) later t = Some (False, u)"
    "spent opts (chain_limit (i + 1) later) (chain_waits (i + 1) later) t u" by auto
  from spent_trans[OF t(2) u(2)] t(1) u(1) show ?case by simp
qed

lemma chain_limit_fallbacks: "i > 0 \<Longrightarrow> chain_limit i rs = FALLBACK_ATTEMPTS * length rs"
  by (induction rs arbitrary: i) (auto simp: route_attempt_limit_def)

lemma chain_waits_fallbacks: "i > 0 \<Longrightarrow> sum_list (chain_waits i rs) = secs 30 * length rs"
  by (induction rs arbitrary: i) (auto simp: waits_from_def FALLBACK_WAITS_def secs_def)

lemma chain_totals:
  assumes "rs \<noteq> []"
  shows "chain_limit 0 rs = max_requests (length rs - 1)" "sum_list (chain_waits 0 rs) = all_failure_base_wait (length rs - 1)"
  using assms
  by (cases rs; simp add: chain_limit_fallbacks chain_waits_fallbacks max_requests_def route_attempt_limit_def
      waits_from_def PRIMARY_WAITS_def all_failure_base_wait_def secs_def)+


section \<open>Properties\<close>

lemma chain_calls_length: "length ks = length rs \<Longrightarrow> length (chain_calls i rs ks) = sum_list ks"
  by (induction rs ks arbitrary: i rule: list_induct2') (auto simp: calls_to_def)

text \<open>C21: Whatever the providers, the clock, the cancel flag and the stage's other operations do, the
  requests of an operation go out route by route in the order of the chain and attempt by attempt
  from 1, never to a route with a skip reason and never beyond the route's bound; the count of
  requests is the number sent; and a value is returned exactly when the last request was answered,
  every earlier one having failed.\<close>

theorem dispatches_in_order:
  assumes "execute_with_context e opts l recorded rs = Some s"
  shows "\<exists>ks. length ks = length rs \<and>
    (\<forall>j<length rs. ks ! j \<le> attempt_bound opts j \<and> (ro_skip_reason (rs ! j) \<noteq> None \<longrightarrow> ks ! j = 0)) \<and>
    map call_of (sent s) = chain_calls 0 rs ks \<and> requests s = sum_list ks \<and>
    (if answer s = None then \<forall>a\<in>set (sent s). ar_outcome a \<noteq> ''ok''
     else sent s \<noteq> [] \<and> ar_outcome (last (sent s)) = ''ok'' \<and>
       (\<forall>a\<in>set (butlast (sent s)). ar_outcome a \<noteq> ''ok'') \<and>
       cr_effective_route (cs_report s) = Some (ar_route_index (last (sent s))))"
proof -
  from execute_sends[OF assms] obtain ks b where ks: "length ks = length rs"
    "\<forall>j<length rs. ks ! j \<le> attempt_bound opts j \<and> (ro_skip_reason (rs ! j) \<noteq> None \<longrightarrow> ks ! j = 0)"
    "map call_of (sent s) = chain_calls 0 rs ks" "requests s = length (sent s)"
    "if b then sent s \<noteq> [] \<and> ar_outcome (last (sent s)) = ''ok'' \<and> (\<forall>a\<in>set (butlast (sent s)). ar_outcome a \<noteq> ''ok'') \<and>
              answer s \<noteq> None \<and> cr_effective_route (cs_report s) = Some (ar_route_index (last (sent s)))
     else (\<forall>a\<in>set (sent s). ar_outcome a \<noteq> ''ok'') \<and> answer s = None \<and> cr_effective_route (cs_report s) = None"
    by metis
  have "requests s = sum_list ks"
    using ks(4) chain_calls_length[OF ks(1), of 0] arg_cong[OF ks(3), of length] by simp
  with ks show ?thesis by (intro exI[of _ ks]) (cases b; auto)
qed

text \<open>C22: Under a wire budget an operation sends at most one request for each usable route and the
  shared extra ones.\<close>

theorem wire_budget_bounds:
  assumes "execute_with_context e opts l recorded rs = Some s" "xo_wire_budget opts = Some b"
  shows "requests s \<le> max_dispatches b (usable rs)"
  using execute_sends[OF assms(1)] assms(2) by (fastforce simp: max_dispatches_def)

text \<open>Every request of an operation is reserved in the ledger of its stage, whatever the stage's
  other operations do to it in between: the ledger's count grows by at least the requests sent and
  never passes its ceiling, so the ceiling bounds the operations of a stage together.\<close>

lemma stage_budget_shared:
  assumes "fair_stage e" "execute_with_context e opts (Some l) recorded rs = Some s" "sl_dispatched l \<le> sl_cap l"
  shows "\<exists>l'. cs_ledger s = Some l' \<and> sl_dispatched l + requests s \<le> sl_dispatched l' \<and> sl_dispatched l' \<le> sl_cap l'"
  using execute_accounted[OF assms(1,2)] assms(3)
  by (auto simp: accounted_def start_chain_def ledger_grows_def requests_def empty_report_def)

text \<open>C23: An operation returns if each of its waits for a slot ends, because the slot comes, the
  operation is cancelled, or its wall clock runs out, and each of its requests ends, because the
  provider's future resolves or the operation is cancelled while it waits. The retries, the pauses
  between them and the routes need no condition; the wall clock does not end a request.\<close>

theorem chain_returns:
  assumes "\<forall>r\<in>set rs. slot_comes e opts (slot_key opts r)" and "\<forall>r\<in>set rs. dispatch_ends e opts r"
  shows "\<exists>s. execute_with_context e opts l recorded rs = Some s"
  using assms by (intro execute_ends) blast

text \<open>With the default policy, a chain whose every request fails for a reason that may pass makes
  exactly the documented number of requests and waits at most the documented base time, exactly it
  when timers are skipped, and returns no value.\<close>

lemma hopeless_chain_totals:
  assumes "hopeless e opts" "rs \<noteq> []" "\<forall>r\<in>set rs. ro_skip_reason r = None"
  shows "\<exists>s. execute_with_context e opts None recorded rs = Some s \<and> answer s = None \<and>
    requests s = max_requests (length rs - 1) \<and>
    sum_list (cr_waits (cs_report s)) \<le> all_failure_base_wait (length rs - 1) \<and>
    (xo_instant opts \<longrightarrow> sum_list (cr_waits (cs_report s)) = all_failure_base_wait (length rs - 1))"
proof -
  obtain n s0 where s0: "instant_now e (start_chain None recorded) = (n, s0)" by fastforce
  have u0: "cs_ledger s0 = None" "\<not> cr_cancelled (cs_report s0)" "requests s0 = 0" "answer s0 = None" "cr_waits (cs_report s0) = []"
    using s0 by (auto simp: instant_now_def tick_def start_chain_def empty_report_def view_defs)
  from hopeless_try_routes[OF assms(1) u0(1) assms(3) u0(2), of 0] obtain t where
    t: "try_routes e opts None 0 rs s0 = Some (False, t)" "spent opts (chain_limit 0 rs) (chain_waits 0 rs) s0 t" by blast
  then have w: "list_all2 (\<le>) (cr_waits (cs_report t)) (chain_waits 0 rs)"
    "xo_instant opts \<longrightarrow> cr_waits (cs_report t) = chain_waits 0 rs"
    using u0 by (auto simp: spent_def)
  have "chain_waits 0 rs \<noteq> []"
    using assms(2) by (cases rs) (auto simp: waits_from_def PRIMARY_WAITS_def)
  with w have ne: "cr_waits (cs_report t) \<noteq> []" by auto
  have le: "sum_list ys \<le> sum_list zs" if "list_all2 (\<le>) ys (zs :: nat list)" for ys zs
    using that by (induction rule: list_all2_induct) auto
  have "execute_with_context e opts None recorded rs = Some (finish_chain opts t)"
    using assms(1,2) s0 t(1) by (simp add: execute_with_context_def wall_clock_def hopeless_def)
  moreover have "cr_waits (cs_report (finish_chain opts t)) = cr_waits (cs_report t)"
    "requests (finish_chain opts t) = chain_limit 0 rs" "answer (finish_chain opts t) = None"
    using ne t(2) u0 by (simp_all add: finish_chain_def spent_def view_defs)
  ultimately show ?thesis
    using le[OF w(1)] w(2) chain_totals[OF assms(2)] by simp
qed

section \<open>Examples\<close>

definition demo_route :: "string \<Rightarrow> string option \<Rightarrow> route" where
  "demo_route m skip = \<lparr>ro_provider = ''p'', ro_account = ''a'', ro_model = m, ro_skip_reason = skip, ro_admission_key = None\<rparr>"

definition demo_error :: "category \<Rightarrow> dispatch_error" where
  "demo_error c = error_of pf_message \<lparr>pf_stage = Response_Stage, pf_category = c, pf_message = ''busy'', pf_retry_after_ms = None\<rparr>"

text \<open>The primary route is overloaded; the first usable fallback answers its second request.\<close>

definition demo_chain_env :: "nat exec_env" where
  "demo_chain_env = \<lparr>en_now = (\<lambda>n. n), en_stamp = (\<lambda>_. ''t''), en_flag = (\<lambda>_. False), en_enter = (\<lambda>_ _. True),
     en_interrupt = (\<lambda>_. False),
     en_dispatch = (\<lambda>_ ctx r. Some (if dc_route_index ctx = 2 \<and> dc_attempt ctx = 2 then Inr 42 else Inl (demo_error Server))),
     en_others = (\<lambda>_ l. l), en_summary = pf_message, en_sanitize = id\<rparr>"

definition demo_options :: exec_options where
  "demo_options = \<lparr>xo_instant = True, xo_cancel = True, xo_recorder = False, xo_admission_account = ''a'',
     xo_attempt_limit = None, xo_wire_budget = Some INTERACTIVE\<rparr>"

definition demo_routes :: "route list" where
  "demo_routes = [demo_route ''m0'' None, demo_route ''m1'' (Some ''no key''), demo_route ''m2'' None]"

definition demo_final :: "nat chain_state" where
  "demo_final = the (execute_with_context demo_chain_env demo_options (Some (new_ledger 24)) [] demo_routes)"

declare admit.simps [code]

lemma demo_executes:
  "execute_with_context demo_chain_env demo_options (Some (new_ledger 24)) [] demo_routes = Some demo_final"
proof -
  have "execute_with_context demo_chain_env demo_options (Some (new_ledger 24)) [] demo_routes \<noteq> None"
    by code_simp
  then show ?thesis by (simp add: demo_final_def)
qed


theorem dispatches_in_order_witness:
  "(\<exists>ks. length ks = 3 \<and> map call_of (sent demo_final) = chain_calls 0 demo_routes ks \<and> requests demo_final = sum_list ks) \<and>
   answer demo_final = Some 42 \<and> cr_effective_route (cs_report demo_final) = Some 2"
proof -
  have a: "answer demo_final = Some 42" by code_simp
  have "length demo_routes = 3" "cr_effective_route (cs_report demo_final) = Some 2" by code_simp+
  with dispatches_in_order[OF demo_executes] a show ?thesis by auto
qed

theorem wire_budget_bounds_witness:
  "requests demo_final \<le> max_dispatches INTERACTIVE (usable demo_routes) \<and>
   requests demo_final = 4 \<and> max_dispatches INTERACTIVE (usable demo_routes) = 4"
proof -
  have "xo_wire_budget demo_options = Some INTERACTIVE" by (simp add: demo_options_def)
  note wire_budget_bounds[OF demo_executes this]
  moreover have "requests demo_final = 4" "max_dispatches INTERACTIVE (usable demo_routes) = 4" by code_simp+
  ultimately show ?thesis by blast
qed

theorem stage_budget_shared_witness:
  "\<exists>l'. cs_ledger demo_final = Some l' \<and> 4 \<le> sl_dispatched l' \<and> sl_dispatched l' \<le> sl_cap l'"
proof -
  have "fair_stage demo_chain_env" by (simp add: fair_stage_def demo_chain_env_def)
  moreover have "sl_dispatched (new_ledger 24) \<le> sl_cap (new_ledger 24)" by (simp add: new_ledger_def)
  moreover have "requests demo_final = 4" by code_simp
  ultimately show ?thesis using stage_budget_shared[OF _ demo_executes] by (fastforce simp: new_ledger_def)
qed

theorem chain_returns_witness:
  "\<exists>s. execute_with_context demo_chain_env demo_options None [] demo_routes = Some s"
proof (rule chain_returns)
  show "\<forall>r\<in>set demo_routes. slot_comes demo_chain_env demo_options (slot_key demo_options r)"
    by (simp add: slot_comes_def demo_chain_env_def)
  show "\<forall>r\<in>set demo_routes. dispatch_ends demo_chain_env demo_options r"
    by (simp add: dispatch_ends_def demo_chain_env_def)
qed

text \<open>
  Both conditions are needed: a request that never resolves holds the operation for ever, although
  its wire budget gives it a wall clock.
\<close>

definition silent_env :: "nat exec_env" where
  "silent_env = demo_chain_env\<lparr>en_dispatch := (\<lambda>_ _ _. None)\<rparr>"

lemma silent_request_never_returns:
  "wall_clock demo_options \<noteq> None \<and> execute_with_context silent_env demo_options None [] demo_routes = None"
  by code_simp

definition failing_env :: "nat exec_env" where
  "failing_env = demo_chain_env\<lparr>en_dispatch := (\<lambda>_ _ _. Some (Inl (demo_error Server)))\<rparr>"

definition default_options :: exec_options where
  "default_options = \<lparr>xo_instant = True, xo_cancel = False, xo_recorder = False, xo_admission_account = [],
     xo_attempt_limit = None, xo_wire_budget = None\<rparr>"

theorem hopeless_chain_totals_witness:
  "\<exists>s. execute_with_context failing_env default_options None [] [demo_route ''m0'' None, demo_route ''m1'' None] = Some s \<and>
     answer s = None \<and> requests s = 7 \<and> sum_list (cr_waits (cs_report s)) = secs 90"
proof -
  have "hopeless failing_env default_options"
    by (simp add: hopeless_def failing_env_def default_options_def demo_chain_env_def demo_error_def error_of_def disposition_of_def)
  from hopeless_chain_totals[OF this, of "[demo_route ''m0'' None, demo_route ''m1'' None]" "[]"] show ?thesis
    by (auto simp: default_options_def demo_route_def max_requests_def PRIMARY_ATTEMPTS_def FALLBACK_ATTEMPTS_def
        all_failure_base_wait_def)
qed

section \<open>The retries of the last route\<close>

lemma set_chain_calls:
  "length ks = length rs \<Longrightarrow> (i', n, m) \<in> set (chain_calls i rs ks) \<Longrightarrow> \<exists>j<length rs. i' = i + j \<and> 0 < n \<and> n \<le> ks ! j"
proof (induction rs ks arbitrary: i rule: list_induct2')
  case (4 r rs k ks)
  from 4(3) consider "(i', n, m) \<in> set (calls_to i r 0 k)" | "(i', n, m) \<in> set (chain_calls (Suc i) rs ks)" by auto
  then show ?case
  proof cases
    case 1
    then show ?thesis by (intro exI[of _ 0]) (auto simp: calls_to_def)
  next
    case 2
    with 4(1)[of "Suc i"] 4(2) obtain j where "j < length rs" "i' = Suc i + j" "0 < n" "n \<le> ks ! j" by auto
    then show ?thesis by (intro exI[of _ "Suc j"]) simp
  qed
qed auto

text \<open>
  The budget of a brief allows two requests on a route, so the last live route gets one extra retry
  and never the \<open>LAST_ROUTE_RETRIES\<close> of its rule.
\<close>

lemma interactive_route_attempts:
  assumes "execute_with_context e opts l recorded rs = Some s" "xo_wire_budget opts = Some INTERACTIVE" "a \<in> set (sent s)"
  shows "ar_attempt a \<le> 2 \<and> 2 < 1 + LAST_ROUTE_RETRIES"
proof -
  from execute_sends[OF assms(1)] obtain ks where ks: "length ks = length rs" "\<forall>j<length rs. ks ! j \<le> attempt_bound opts j"
    "map call_of (sent s) = chain_calls 0 rs ks" by metis
  have "call_of a \<in> set (map call_of (sent s))" using assms(3) by simp
  then have "(ar_route_index a, ar_attempt a, ar_model a) \<in> set (chain_calls 0 rs ks)" by (simp add: ks(3) call_of_def)
  from set_chain_calls[OF ks(1) this] obtain j where "j < length rs" "ar_attempt a \<le> ks ! j" by auto
  with ks(2) assms(2) show ?thesis
    by (force simp: attempt_bound_def INTERACTIVE_def LAST_ROUTE_RETRIES_def)
qed

end
