(* ===== verification/Admission.thy ===== *)
theory Admission
  imports Prelude
begin

text \<open>
  What stands between a model request and its provider besides the request chain: the slots of an
  account with the cooldown its rate limits share (\<open>tasks.rs\<close>), the pacing of sends to one provider
  (\<open>provider_rate_limit.rs\<close>), and the rate limit of worker error events (\<open>scheduler.rs\<close>). Each is a
  value under a lock of the process, so a component is a step system: one step per locked section of
  any caller, between which time passes. Instants and durations are \<open>nat\<close> nanoseconds; a \<open>HashMap\<close> of
  counts is a function that is 0 where the map has no entry.
\<close>

section \<open>Slots of an account\<close>

definition seconds :: "nat \<Rightarrow> nat" where "seconds n = n * 1000000000"

definition DEFAULT_PROVIDER_CONCURRENCY :: nat where "DEFAULT_PROVIDER_CONCURRENCY = 2"

record admission_gate =
  g_active :: "string \<Rightarrow> nat"
  g_cooldown :: "string \<Rightarrow> nat option"
  g_waiting :: "string \<Rightarrow> nat"

definition default_gate :: admission_gate where
  "default_gate = \<lparr>g_active = (\<lambda>_. 0), g_cooldown = Map.empty, g_waiting = (\<lambda>_. 0)\<rparr>"

definition cooling_down :: "nat \<Rightarrow> string \<Rightarrow> admission_gate \<Rightarrow> bool" where
  "cooling_down now a g = (case g_cooldown g a of Some until \<Rightarrow> now < until | None \<Rightarrow> False)"

definition try_acquire :: "nat \<Rightarrow> string \<Rightarrow> nat \<Rightarrow> admission_gate \<Rightarrow> bool \<times> admission_gate" where
  "try_acquire now a limit g =
     (if cooling_down now a g then (False, g)
      else (let g = g\<lparr>g_cooldown := (g_cooldown g)(a := None)\<rparr>
            in if g_active g a \<ge> limit then (False, g)
               else (True, g\<lparr>g_active := (g_active g)(a := g_active g a + 1)\<rparr>)))"

definition try_acquire_class :: "nat \<Rightarrow> string \<Rightarrow> nat \<Rightarrow> bool \<Rightarrow> admission_gate \<Rightarrow> bool \<times> admission_gate" where
  "try_acquire_class now a limit interactive g =
     (if \<not> interactive \<and> g_waiting g a > 0 then (False, g) else try_acquire now a limit g)"

definition release :: "string \<Rightarrow> admission_gate \<Rightarrow> admission_gate" where
  "release a g = g\<lparr>g_active := (g_active g)(a := g_active g a - 1)\<rparr>"

definition note_rate_limit :: "nat \<Rightarrow> string \<Rightarrow> nat \<Rightarrow> admission_gate \<Rightarrow> admission_gate" where
  "note_rate_limit now a cooldown g =
     (let until = now + cooldown;
          slot = (case g_cooldown g a of Some u \<Rightarrow> u | None \<Rightarrow> until)
      in g\<lparr>g_cooldown := (g_cooldown g)(a \<mapsto> (if until > slot then until else slot))\<rparr>)"

definition register_wait :: "string \<Rightarrow> admission_gate \<Rightarrow> admission_gate" where
  "register_wait a g = g\<lparr>g_waiting := (g_waiting g)(a := g_waiting g a + 1)\<rparr>"

definition drop_wait :: "string \<Rightarrow> admission_gate \<Rightarrow> admission_gate" where
  "drop_wait a g = g\<lparr>g_waiting := (g_waiting g)(a := g_waiting g a - 1)\<rparr>"

definition try_enter_class :: "nat \<Rightarrow> string \<Rightarrow> bool \<Rightarrow> admission_gate \<Rightarrow> bool \<times> admission_gate" where
  "try_enter_class now a interactive g = try_acquire_class now a DEFAULT_PROVIDER_CONCURRENCY interactive g"

text \<open>The process: its clock, the gate, the guards that are alive and the interactive callers that wait.\<close>

record gate_process =
  gp_now :: nat
  gp_gate :: admission_gate
  gp_guards :: "string list"
  gp_waits :: "string list"

definition gate_start :: "gate_process \<Rightarrow> bool" where
  "gate_start s \<longleftrightarrow> gp_gate s = default_gate \<and> gp_guards s = [] \<and> gp_waits s = []"

inductive gate_step :: "gate_process \<Rightarrow> gate_process \<Rightarrow> bool" where
  passes: "gp_now s \<le> t \<Longrightarrow> gate_step s (s\<lparr>gp_now := t\<rparr>)"
| enters: "try_enter_class (gp_now s) a interactive (gp_gate s) = (True, g) \<Longrightarrow>
    gate_step s (s\<lparr>gp_gate := g, gp_guards := a # gp_guards s\<rparr>)"
| refused: "try_enter_class (gp_now s) a interactive (gp_gate s) = (False, g) \<Longrightarrow>
    gate_step s (s\<lparr>gp_gate := g\<rparr>)"
| leaves: "a \<in> set (gp_guards s) \<Longrightarrow>
    gate_step s (s\<lparr>gp_gate := release a (gp_gate s), gp_guards := remove1 a (gp_guards s)\<rparr>)"
| waits: "gate_step s (s\<lparr>gp_gate := register_wait a (gp_gate s), gp_waits := a # gp_waits s\<rparr>)"
| stops_waiting: "a \<in> set (gp_waits s) \<Longrightarrow>
    gate_step s (s\<lparr>gp_gate := drop_wait a (gp_gate s), gp_waits := remove1 a (gp_waits s)\<rparr>)"
| limited: "gate_step s (s\<lparr>gp_gate := note_rate_limit (gp_now s) a d (gp_gate s)\<rparr>)"

inductive_cases gate_stepE: "gate_step s t"

definition gate_inv :: "gate_process \<Rightarrow> bool" where
  "gate_inv s \<longleftrightarrow> (\<forall>a. g_active (gp_gate s) a = count_list (gp_guards s) a \<and>
     count_list (gp_guards s) a \<le> DEFAULT_PROVIDER_CONCURRENCY \<and> g_waiting (gp_gate s) a = count_list (gp_waits s) a)"

lemma count_list_remove1: "count_list (remove1 x xs) y = (if x = y then count_list xs y - 1 else count_list xs y)"
  by (induction xs) auto

lemma count_list_pos: "x \<in> set xs \<longleftrightarrow> 0 < count_list xs x"
  using count_list_0_iff[of xs x] by auto

lemmas gate_defs = try_enter_class_def try_acquire_class_def try_acquire_def release_def register_wait_def drop_wait_def
  note_rate_limit_def

interpretation gate: step_system gate_start gate_step gate_inv
proof
  show "gate_inv s" if "gate_start s" for s
    using that by (simp add: gate_inv_def gate_start_def default_gate_def)
  show "gate_inv t" if "gate_inv s" "gate_step s t" for s t
    using that(2,1)
    by (cases rule: gate_step.cases)
      (auto simp: gate_inv_def gate_defs Let_def count_list_remove1 intro: diff_le_self[THEN le_trans] split: if_splits)
qed

text \<open>C24: In every state the process reaches, an account has at most two requests in flight, one for
  each guard that is alive; and while an interactive caller waits for the account, no background
  caller gets a slot of it.\<close>

theorem admission_slots:
  assumes "gate_start s0" "run_of gate_step s0 s"
  shows "count_list (gp_guards s) a \<le> DEFAULT_PROVIDER_CONCURRENCY \<and>
    g_active (gp_gate s) a = count_list (gp_guards s) a \<and>
    (a \<in> set (gp_waits s) \<longrightarrow> \<not> fst (try_enter_class (gp_now s) a False (gp_gate s)))"
  using gate.inv_reachable[OF assms] unfolding gate_inv_def
  by (auto simp: gate_defs count_list_pos)

text \<open>A cooldown of the account up to \<open>t\<close> is in force until the clock reaches \<open>t\<close>.\<close>

definition cools_until :: "string \<Rightarrow> nat \<Rightarrow> gate_process \<Rightarrow> bool" where
  "cools_until a t s \<longleftrightarrow> t \<le> gp_now s \<or> (\<exists>u. g_cooldown (gp_gate s) a = Some u \<and> t \<le> u)"

lemma cools_step: "gate_step s s' \<Longrightarrow> cools_until a t s \<Longrightarrow> cools_until a t s'"
  by (cases rule: gate_step.cases)
    (auto simp: cools_until_def gate_defs cooling_down_def Let_def split: if_splits option.splits)

lemma cools_run: "run_of gate_step s s' \<Longrightarrow> cools_until a t s \<Longrightarrow> cools_until a t s'"
  by (induction rule: run_of.induct) (auto intro: cools_step)

text \<open>A rate limit holds for every caller: once a cooldown of the account is noted, no request
  of it is admitted before the cooldown has passed, whatever the callers do in between.\<close>

lemma rate_limit_holds:
  assumes "run_of gate_step (s\<lparr>gp_gate := note_rate_limit (gp_now s) a d (gp_gate s)\<rparr>) s'" "gp_now s' < gp_now s + d"
  shows "\<not> fst (try_enter_class (gp_now s') a interactive (gp_gate s'))"
proof -
  have "cools_until a (gp_now s + d) (s\<lparr>gp_gate := note_rate_limit (gp_now s) a d (gp_gate s)\<rparr>)"
    by (auto simp: cools_until_def note_rate_limit_def Let_def split: option.splits)
  from cools_run[OF assms(1) this] assms(2) show ?thesis
    by (auto simp: cools_until_def gate_defs cooling_down_def)
qed

section \<open>The pace of a provider\<close>

definition PROVIDER_RPM :: "(string \<times> nat) list" where
  "PROVIDER_RPM = [(''openrouter'', 20), (''google'', 10), (''nvidia'', 40)]"

record pacer =
  pc_not_before :: "nat option"
  pc_interval :: nat

definition new_pacer :: "nat \<Rightarrow> pacer" where
  "new_pacer rpm = \<lparr>pc_not_before = None, pc_interval = seconds 60 div rpm\<rparr>"

text \<open>One turn of the loop of \<open>wait\<close>: a deadline to sleep to, or the send's place in time.\<close>

definition pacer_check :: "nat \<Rightarrow> pacer \<Rightarrow> nat option \<times> pacer" where
  "pacer_check now p =
     (case pc_not_before p of
        Some at \<Rightarrow> if at > now then (Some at, p) else (None, p\<lparr>pc_not_before := Some (now + pc_interval p)\<rparr>)
      | None \<Rightarrow> (None, p\<lparr>pc_not_before := Some (now + pc_interval p)\<rparr>))"

definition pacer_defer :: "nat \<Rightarrow> nat \<Rightarrow> pacer \<Rightarrow> pacer" where
  "pacer_defer now delay p =
     (let until = now + delay
      in p\<lparr>pc_not_before := Some (case pc_not_before p of Some at \<Rightarrow> max at until | None \<Rightarrow> until)\<rparr>)"

text \<open>What an answer says about the next send; \<open>retry_after\<close> is the parsed header.\<close>

definition response_delay :: "nat \<Rightarrow> nat option \<Rightarrow> nat option" where
  "response_delay status retry_after =
     (if status < 400 then None
      else case retry_after of Some d \<Rightarrow> Some d
        | None \<Rightarrow> if status = 429 then Some (seconds 60) else if status = 503 then Some (seconds 10) else None)"

text \<open>The process: the clock, the pacer, whoever holds the queue (checking, or asleep until a deadline)
  and the sends so far, newest first.\<close>

datatype turn = Free | Checking | Asleep nat

record pacer_process =
  pp_now :: nat
  pp_pacer :: pacer
  pp_turn :: turn
  pp_sent :: "nat list"

inductive pacer_step :: "pacer_process \<Rightarrow> pacer_process \<Rightarrow> bool" where
  clock: "pp_now s \<le> t \<Longrightarrow> pacer_step s (s\<lparr>pp_now := t\<rparr>)"
| queued: "pp_turn s = Free \<Longrightarrow> pacer_step s (s\<lparr>pp_turn := Checking\<rparr>)"
| sleeps: "pp_turn s = Checking \<Longrightarrow> pacer_check (pp_now s) (pp_pacer s) = (Some at, p) \<Longrightarrow>
    pacer_step s (s\<lparr>pp_pacer := p, pp_turn := Asleep at\<rparr>)"
| wakes: "pp_turn s = Asleep at \<Longrightarrow> at \<le> pp_now s \<Longrightarrow> pacer_step s (s\<lparr>pp_turn := Checking\<rparr>)"
| sends: "pp_turn s = Checking \<Longrightarrow> pacer_check (pp_now s) (pp_pacer s) = (None, p) \<Longrightarrow>
    pacer_step s (s\<lparr>pp_pacer := p, pp_turn := Free, pp_sent := pp_now s # pp_sent s\<rparr>)"
| dropped: "pacer_step s (s\<lparr>pp_turn := Free\<rparr>)"
| deferred: "pacer_step s (s\<lparr>pp_pacer := pacer_defer (pp_now s) d (pp_pacer s)\<rparr>)"

inductive_cases pacer_stepE: "pacer_step s t"

definition pacer_start :: "nat \<Rightarrow> pacer_process \<Rightarrow> bool" where
  "pacer_start rpm s \<longleftrightarrow> pp_pacer s = new_pacer rpm \<and> pp_turn s = Free \<and> pp_sent s = []"

text \<open>Newest first, each send at least the interval after the one before.\<close>

definition spaced :: "nat \<Rightarrow> nat list \<Rightarrow> bool" where
  "spaced d xs \<longleftrightarrow> sorted_wrt (\<lambda>later earlier. earlier + d \<le> later) xs"

definition pacer_inv :: "nat \<Rightarrow> pacer_process \<Rightarrow> bool" where
  "pacer_inv rpm s \<longleftrightarrow> pc_interval (pp_pacer s) = seconds 60 div rpm \<and> spaced (seconds 60 div rpm) (pp_sent s) \<and>
     (\<forall>x\<in>set (pp_sent s). \<exists>at. pc_not_before (pp_pacer s) = Some at \<and> x + seconds 60 div rpm \<le> at)"

interpretation pace: step_system "pacer_start rpm" pacer_step "pacer_inv rpm"
proof
  show "pacer_inv rpm s" if "pacer_start rpm s" for s
    using that by (simp add: pacer_inv_def pacer_start_def new_pacer_def spaced_def)
  show "pacer_inv rpm t" if "pacer_inv rpm s" "pacer_step s t" for s t
    using that(2,1)
    by (cases rule: pacer_step.cases)
      (fastforce simp: pacer_inv_def pacer_check_def pacer_defer_def spaced_def Let_def split: option.splits if_splits)+
qed

lemma spaced_span: "spaced d (x # xs) \<Longrightarrow> y \<in> set xs \<Longrightarrow> d \<le> x - y"
  by (fastforce simp: spaced_def)

lemma spaced_filter: "spaced d xs \<Longrightarrow> spaced d (filter P xs)"
  unfolding spaced_def by (rule sorted_wrt_filter)

lemma spaced_length: "spaced d (x # xs) \<Longrightarrow> last (x # xs) + d * length xs \<le> x"
proof (induction xs arbitrary: x)
  case Nil
  then show ?case by simp
next
  case (Cons y ys)
  then have "spaced d (y # ys)" "y + d \<le> x" by (auto simp: spaced_def)
  with Cons.IH[of y] show ?case by (simp add: algebra_simps)
qed

lemma spaced_window:
  assumes "spaced d xs" "0 < d"
  shows "length (filter (\<lambda>x. t \<le> x \<and> x < t + d * k) xs) \<le> k"
proof (cases "filter (\<lambda>x. t \<le> x \<and> x < t + d * k) xs")
  case Nil
  then show ?thesis by simp
next
  case (Cons y ys)
  let ?f = "filter (\<lambda>x. t \<le> x \<and> x < t + d * k) xs"
  have "spaced d (y # ys)" using spaced_filter[OF assms(1)] Cons by metis
  from spaced_length[OF this] have le: "last (y # ys) + d * length ys \<le> y" .
  have "last (y # ys) \<in> set ?f" "y \<in> set ?f" using Cons by auto
  then have "t \<le> last (y # ys)" "y < t + d * k" by auto
  with le have "d * length ys < d * k" by linarith
  with Cons assms(2) show ?thesis by simp
qed

text \<open>C25: Every provider keeps its requests per minute: in any window of 60 seconds at most as many
  sends as its limit, for any callers that queue, sleep, give up and note cooldowns.\<close>

theorem pace_per_minute:
  assumes "(kind, rpm) \<in> set PROVIDER_RPM" "pacer_start rpm s0" "run_of pacer_step s0 s"
  shows "length (filter (\<lambda>x. t \<le> x \<and> x < t + seconds 60) (pp_sent s)) \<le> rpm"
proof -
  have "spaced (seconds 60 div rpm) (pp_sent s)"
    using pace.inv_reachable[OF assms(2,3)] by (simp add: pacer_inv_def)
  moreover have "0 < seconds 60 div rpm" "seconds 60 = seconds 60 div rpm * rpm"
    using assms(1) by (auto simp: PROVIDER_RPM_def seconds_def)
  ultimately show ?thesis using spaced_window[of "seconds 60 div rpm" "pp_sent s" t rpm] by metis
qed

definition held_back :: "nat \<Rightarrow> nat list \<Rightarrow> pacer_process \<Rightarrow> bool" where
  "held_back t old s \<longleftrightarrow> (\<exists>new. pp_sent s = new @ old \<and> (\<forall>x\<in>set new. t \<le> x)) \<and>
     (\<exists>at. pc_not_before (pp_pacer s) = Some at \<and> t \<le> at)"

lemma held_back_step: "pacer_step s s' \<Longrightarrow> held_back t old s \<Longrightarrow> held_back t old s'"
proof (induction rule: pacer_step.induct)
  case (sends s p)
  then obtain new at where "pp_sent s = new @ old" "\<forall>x\<in>set new. t \<le> x" "pc_not_before (pp_pacer s) = Some at" "t \<le> at"
    by (auto simp: held_back_def)
  with sends show ?case
    by (auto simp: held_back_def pacer_check_def split: if_splits intro!: exI[of _ "pp_now s # new"])
qed (auto simp: held_back_def pacer_check_def pacer_defer_def Let_def split: option.splits if_splits)

lemma held_back_run: "run_of pacer_step s s' \<Longrightarrow> held_back t old s \<Longrightarrow> held_back t old s'"
  by (induction rule: run_of.induct) (auto intro: held_back_step)

text \<open>An answer that asks for a pause is honoured by every caller: after a response with such a
  status no request goes to the provider before the pause has passed.\<close>

lemma pause_honoured:
  assumes "response_delay status header = Some d"
    "run_of pacer_step (s\<lparr>pp_pacer := pacer_defer (pp_now s) d (pp_pacer s)\<rparr>) s'"
  shows "\<exists>new. pp_sent s' = new @ pp_sent s \<and> (\<forall>x\<in>set new. pp_now s + d \<le> x)"
proof -
  have "held_back (pp_now s + d) (pp_sent s) (s\<lparr>pp_pacer := pacer_defer (pp_now s) d (pp_pacer s)\<rparr>)"
    by (auto simp: held_back_def pacer_defer_def Let_def split: option.splits)
  from held_back_run[OF assms(2) this] show ?thesis by (auto simp: held_back_def)
qed


section \<open>Errors of the background workers\<close>

text \<open>Which errors were surfaced when, in the iteration order of the map.\<close>

type_synonym seen = "((string \<times> string) \<times> nat) list"

definition DRAINER_ERROR_REPEAT :: nat where "DRAINER_ERROR_REPEAT = seconds 300"
definition DRAINER_ERROR_CAP :: nat where "DRAINER_ERROR_CAP = 128"

fun oldest :: "seen \<Rightarrow> ((string \<times> string) \<times> nat) option" where
  "oldest [] = None"
| "oldest (x # xs) = (case oldest xs of None \<Rightarrow> Some x | Some y \<Rightarrow> if snd x \<le> snd y then Some x else Some y)"

lemma oldest_SomeD: "oldest xs = Some x \<Longrightarrow> x \<in> set xs \<and> (\<forall>y\<in>set xs. snd x \<le> snd y)"
proof (induction xs arbitrary: x)
  case (Cons a xs)
  show ?case
  proof (cases "oldest xs")
    case None
    then have "xs = []" by (cases xs) (auto split: option.splits if_splits)
    with Cons.prems show ?thesis by simp
  next
    case (Some y)
    from Cons.IH[OF this] Cons.prems Some show ?thesis by (auto split: if_splits)
  qed
qed simp

lemma oldest_None [simp]: "oldest xs = None \<longleftrightarrow> xs = []"
  by (cases xs) (auto split: option.splits)

function make_room :: "seen \<Rightarrow> seen" where
  "make_room seen =
     (if DRAINER_ERROR_CAP \<le> length seen
      then (case oldest seen of None \<Rightarrow> seen | Some (key, _) \<Rightarrow> make_room (filter (\<lambda>e. fst e \<noteq> key) seen))
      else seen)"
  by pat_completeness auto
termination
  by (relation "measure length") (auto dest: oldest_SomeD intro!: length_filter_less)

declare make_room.simps [simp del]

definition should_surface :: "seen \<Rightarrow> string \<Rightarrow> string \<Rightarrow> nat \<Rightarrow> bool \<times> seen" where
  "should_surface seen name message at =
     (let seen = filter (\<lambda>(_, when). at - when < DRAINER_ERROR_REPEAT) seen
      in if (name, message) \<in> fst ` set seen then (False, seen)
         else (True, make_room seen @ [((name, message), at)]))"

lemma make_room_shape: "\<exists>P. make_room seen = filter P seen \<and> length (make_room seen) < DRAINER_ERROR_CAP"
proof (induction seen rule: make_room.induct)
  case (1 seen)
  show ?case
  proof (cases "DRAINER_ERROR_CAP \<le> length seen")
    case False
    then show ?thesis by (intro exI[of _ "\<lambda>_. True"]) (simp add: make_room.simps)
  next
    case True
    then obtain k w where o: "oldest seen = Some (k, w)"
      by (cases "oldest seen") (auto simp: DRAINER_ERROR_CAP_def)
    from 1[OF True o refl] obtain P where
      "make_room (filter (\<lambda>e. fst e \<noteq> k) seen) = filter P (filter (\<lambda>e. fst e \<noteq> k) seen)"
      "length (make_room (filter (\<lambda>e. fst e \<noteq> k) seen)) < DRAINER_ERROR_CAP" by blast
    moreover have "make_room seen = make_room (filter (\<lambda>e. fst e \<noteq> k) seen)"
      using True o by (simp add: make_room.simps[of seen])
    ultimately show ?thesis by (intro exI[of _ "\<lambda>e. P e \<and> fst e \<noteq> k"]) (simp add: conj_commute)
  qed
qed

lemma keyed_filter: "keyed xs \<Longrightarrow> keyed (filter P xs)"
  by (simp add: keyed_def distinct_map_filter)

text \<open>The memory of surfaced errors stays bounded and keyed, an error is surfaced exactly when it is
  not remembered from the last 300 seconds, and a surfaced error is remembered.\<close>

lemma surfacing_exact:
  assumes "keyed seen" "length seen \<le> DRAINER_ERROR_CAP"
  shows "case should_surface seen name message at of (fresh, seen') \<Rightarrow>
    keyed seen' \<and> length seen' \<le> DRAINER_ERROR_CAP \<and>
    (fresh \<longleftrightarrow> (\<forall>w. ((name, message), w) \<in> set seen \<longrightarrow> DRAINER_ERROR_REPEAT \<le> at - w)) \<and>
    (fresh \<longrightarrow> ((name, message), at) \<in> set seen') \<and> set seen' \<subseteq> insert ((name, message), at) (set seen)"
proof -
  define recent where "recent = filter (\<lambda>(_, when). at - when < DRAINER_ERROR_REPEAT) seen"
  have r: "keyed recent" "length recent \<le> DRAINER_ERROR_CAP" "set recent \<subseteq> set seen"
    using assms le_trans[OF length_filter_le] by (auto simp: recent_def keyed_filter)
  have in_recent: "(name, message) \<in> fst ` set recent \<longleftrightarrow> (\<exists>w. ((name, message), w) \<in> set seen \<and> at - w < DRAINER_ERROR_REPEAT)"
    by (force simp: recent_def)
  obtain P where P: "make_room recent = filter P recent" "length (make_room recent) < DRAINER_ERROR_CAP"
    using make_room_shape by blast
  show ?thesis
  proof (cases "(name, message) \<in> fst ` set recent")
    case True
    then have "should_surface seen name message at = (False, recent)"
      by (simp add: should_surface_def recent_def)
    with True r in_recent show ?thesis by (auto simp: not_le)
  next
    case False
    then have s: "should_surface seen name message at = (True, make_room recent @ [((name, message), at)])"
      by (simp add: should_surface_def recent_def)
    have "keyed (make_room recent @ [((name, message), at)])"
      using keyed_filter[OF r(1), of P] False P(1) by (auto simp: keyed_def)
    with s P r False in_recent show ?thesis by (auto simp: not_less)
  qed
qed

text \<open>
  With as many other errors as the memory holds, the oldest is forgotten and surfaced again inside its
  300 seconds.
\<close>

lemma evicted_error_repeats:
  assumes "keyed seen" "length seen = DRAINER_ERROR_CAP" "oldest seen = Some ((n, m), w)"
    "\<forall>e\<in>set seen. at - snd e < DRAINER_ERROR_REPEAT" "(n', m') \<notin> fst ` set seen"
  shows "fst (should_surface seen n' m' at) \<and> fst (should_surface (snd (should_surface seen n' m' at)) n m at')"
proof -
  have all: "filter (\<lambda>(_, when). at - when < DRAINER_ERROR_REPEAT) seen = seen"
    using assms(4) by (auto intro!: filter_True)
  have in_seen: "((n, m), w) \<in> set seen" using oldest_SomeD[OF assms(3)] by simp
  have "length (filter (\<lambda>e. fst e \<noteq> (n, m)) seen) < DRAINER_ERROR_CAP"
    using in_seen length_filter_less[of "((n, m), w)" seen "\<lambda>e. fst e \<noteq> (n, m)"] assms(2) by simp
  then have room: "make_room seen = filter (\<lambda>e. fst e \<noteq> (n, m)) seen"
    using assms(2,3) by (subst make_room.simps) (simp add: make_room.simps[of "filter _ _"])
  have first: "should_surface seen n' m' at = (True, filter (\<lambda>e. fst e \<noteq> (n, m)) seen @ [((n', m'), at)])"
    using assms(5) all room by (simp add: should_surface_def Let_def)
  have "(n', m') \<noteq> (n, m)" using in_seen assms(5) by force
  then have "fst (should_surface (filter (\<lambda>e. fst e \<noteq> (n, m)) seen @ [((n', m'), at)]) n m at')"
    by (auto simp: should_surface_def Let_def)
  with first show ?thesis by simp
qed

section \<open>Examples\<close>

definition demo_gate :: gate_process where
  "demo_gate = \<lparr>gp_now = 0, gp_gate = default_gate, gp_guards = [], gp_waits = []\<rparr>"

text \<open>Two requests of one account, a third caller that waits, and a background caller.\<close>

definition demo_gate_busy :: gate_process where
  "demo_gate_busy = \<lparr>gp_now = 0, gp_gate = \<lparr>g_active = (\<lambda>_. 0)(''a'' := Suc 1), g_cooldown = Map.empty(''a'' := None),
     g_waiting = (\<lambda>_. 0)(''a'' := 1)\<rparr>, gp_guards = [''a'', ''a''], gp_waits = [''a'']\<rparr>"

lemma demo_gate_run: "run_of gate_step demo_gate demo_gate_busy"
proof -
  let ?g1 = "\<lparr>g_active = (\<lambda>_. 0)(''a'' := 1), g_cooldown = Map.empty(''a'' := None), g_waiting = (\<lambda>_. 0)\<rparr>"
  let ?g2 = "\<lparr>g_active = (\<lambda>_. 0)(''a'' := Suc 1), g_cooldown = Map.empty(''a'' := None), g_waiting = (\<lambda>_. 0)\<rparr>"
  let ?s1 = "\<lparr>gp_now = 0, gp_gate = ?g1, gp_guards = [''a''], gp_waits = []\<rparr>"
  let ?s2 = "\<lparr>gp_now = 0, gp_gate = ?g2, gp_guards = [''a'', ''a''], gp_waits = []\<rparr>"
  have "gate_step demo_gate ?s1"
    using enters[of demo_gate "''a''" False ?g1]
    by (simp add: demo_gate_def default_gate_def gate_defs cooling_down_def DEFAULT_PROVIDER_CONCURRENCY_def)
  moreover have "gate_step ?s1 ?s2"
    using enters[of ?s1 "''a''" False ?g2]
    by (simp add: gate_defs cooling_down_def DEFAULT_PROVIDER_CONCURRENCY_def fun_upd_def cong: if_cong)
  moreover have "gate_step ?s2 demo_gate_busy"
    using waits[of ?s2 "''a''"] by (simp add: demo_gate_busy_def register_wait_def)
  ultimately show ?thesis by (meson run_refl run_step)
qed


theorem admission_slots_witness:
  "count_list (gp_guards demo_gate_busy) ''a'' = 2 \<and> 2 \<le> DEFAULT_PROVIDER_CONCURRENCY \<and>
   \<not> fst (try_enter_class (gp_now demo_gate_busy) ''a'' False (gp_gate demo_gate_busy))"
proof -
  have "gate_start demo_gate" by (simp add: gate_start_def demo_gate_def)
  from admission_slots[OF this demo_gate_run, of "''a''"] show ?thesis by (simp add: demo_gate_busy_def)
qed

theorem rate_limit_holds_witness:
  "\<not> fst (try_enter_class 4 ''a'' True (note_rate_limit 0 ''a'' 5 default_gate))"
proof -
  let ?s = "\<lparr>gp_now = 0, gp_gate = note_rate_limit 0 ''a'' 5 default_gate, gp_guards = [], gp_waits = []\<rparr>"
  have "run_of gate_step ?s (?s\<lparr>gp_now := 4\<rparr>)"
    by (rule run_step[OF run_refl], rule passes) simp
  from rate_limit_holds[of demo_gate "''a''" 5 "?s\<lparr>gp_now := 4\<rparr>" True] this show ?thesis
    by (simp add: demo_gate_def)
qed

definition demo_pacer :: pacer_process where
  "demo_pacer = \<lparr>pp_now = 0, pp_pacer = new_pacer 20, pp_turn = Free, pp_sent = []\<rparr>"

lemma demo_pacer_sends:
  "run_of pacer_step demo_pacer \<lparr>pp_now = 0, pp_pacer = \<lparr>pc_not_before = Some (seconds 3), pc_interval = seconds 3\<rparr>,
     pp_turn = Free, pp_sent = [0]\<rparr>"
proof -
  have "pacer_step demo_pacer (demo_pacer\<lparr>pp_turn := Checking\<rparr>)"
    by (rule queued) (simp add: demo_pacer_def)
  moreover have "pacer_step (demo_pacer\<lparr>pp_turn := Checking\<rparr>)
    \<lparr>pp_now = 0, pp_pacer = \<lparr>pc_not_before = Some (seconds 3), pc_interval = seconds 3\<rparr>, pp_turn = Free, pp_sent = [0]\<rparr>"
    using sends[of "demo_pacer\<lparr>pp_turn := Checking\<rparr>" "\<lparr>pc_not_before = Some (seconds 3), pc_interval = seconds 3\<rparr>"]
    by (simp add: demo_pacer_def pacer_check_def new_pacer_def seconds_def)
  ultimately show ?thesis by (meson run_refl run_step)
qed

theorem pace_per_minute_witness: "length (filter (\<lambda>x. 0 \<le> x \<and> x < 0 + seconds 60) [0::nat]) \<le> 20"
proof -
  have "(''openrouter'', 20) \<in> set PROVIDER_RPM" by (simp add: PROVIDER_RPM_def)
  moreover have "pacer_start 20 demo_pacer" by (simp add: pacer_start_def demo_pacer_def)
  ultimately show ?thesis using pace_per_minute[OF _ _ demo_pacer_sends] by fastforce
qed

theorem pause_honoured_witness:
  "\<exists>new. pp_sent demo_pacer = new @ [] \<and> list_all (\<lambda>x. seconds 60 \<le> x) new"
proof -
  have "response_delay 429 None = Some (seconds 60)" by (simp add: response_delay_def)
  from pause_honoured[OF this run_refl, of demo_pacer] show ?thesis
    by (simp add: demo_pacer_def list_all_iff)
qed

end
