(* ===== verification/Recon_Store.thy ===== *)
theory Recon_Store
  imports Tx "HOL-Library.List_Lexorder" "HOL-Library.Char_ord"
begin

text \<open>
  The store of Recon investigations: threads and their messages (\<open>storage/recon.rs\<close>,
  \<open>storage/recon_threads.rs\<close>), runs, tool calls, cited evidence and the tool cache
  (\<open>storage/recon_runs.rs\<close>). The writes of the run executor and the deletion of a thread are in
  \<open>Recon_Exec\<close>. Times are instants: the stored RFC 3339 texts sort as them. JSON columns are
  their text; of a stored tool result the fields the operations look at are separate. An operation
  that reads and writes in two queries takes what other clients commit in between as an argument.
\<close>

section \<open>Rows\<close>

record thread =
  th_title :: string
  th_created :: instant
  th_updated :: instant
  th_draft :: string
  th_scroll :: int
  th_deleted :: bool
  th_recall :: bool

record message =
  ms_thread :: string
  ms_sequence :: int
  ms_role :: string
  ms_content :: string
  ms_run :: "string option"
  ms_created :: instant

record run_row =
  rn_thread :: string
  rn_turn :: string
  rn_state :: string
  rn_stage :: string
  rn_recon_model :: string
  rn_synthesis_model :: string
  rn_tool_picker_model :: string
  rn_max_rounds :: int
  rn_max_calls :: int
  rn_turn_seconds :: int
  rn_plan :: "string option"
  rn_error :: "string option"
  rn_created :: instant
  rn_updated :: instant

record tool_result =
  tr_status :: string
  tr_retrieved_at :: string
  tr_rest :: string

record call_row =
  ca_tool :: string
  ca_run :: "string option"
  ca_thread :: "string option"
  ca_turn :: "string option"
  ca_origin :: string
  ca_inputs :: string
  ca_status :: string
  ca_attempts :: int
  ca_result :: "tool_result option"
  ca_started :: instant
  ca_completed :: "instant option"

record cache_entry =
  ce_result :: "tool_result option"
  ce_expires :: instant

record extraction =
  ex_run :: string
  ex_state :: string
  ex_error :: "string option"
  ex_updated :: instant

record model_op =
  op_run :: string
  op_task :: string
  op_role :: string
  op_generation :: int
  op_status :: string
  op_draft :: string
  op_final :: "string option"
  op_created :: instant
  op_updated :: instant

record strategy =
  st_thread :: string
  st_run :: string
  st_kind :: string
  st_rationale :: string
  st_previous :: "string option"
  st_reason :: "string option"
  st_created :: instant

record entity =
  en_kind :: string
  en_namespace :: string
  en_canonical :: string
  en_label :: string

text \<open>The tables of insights and text features the deletion of a thread also cleans.\<close>

record owner_state =
  ow_kind :: string
  ow_id :: string
  ow_desired :: int
  ow_lifecycle :: string
  ow_error :: string
  ow_snapshot :: string
  ow_updated :: instant

record insight_source =
  is_thread :: "string option"
  is_run :: "string option"
  is_answer :: string
  is_call :: string
  is_deleted_origin :: bool

record derivation_link =
  dl_snapshot :: string
  dl_status :: string

record derivation_evidence =
  dv_source :: string
  dv_json :: string

record nlp_ref =
  nr_kind :: string
  nr_owner :: string
  nr_prose :: string
  nr_raw :: "string option"

record recon_db =
  threads :: "thread tbl"
  messages :: "message tbl"
  message_memories :: "((string \<times> string) \<times> int) list"
  evidence :: "(string \<times> string) list"
  recon_runs :: "run_row tbl"
  calls :: "call_row tbl"
  cache :: "cache_entry tbl"
  thread_entities :: "(string \<times> string \<times> string) list"
  recon_entities :: "entity tbl"
  preferences :: "bool tbl"
  extractions :: "extraction tbl"
  operations :: "model_op tbl"
  strategies :: "strategy tbl"
  sequences :: "string \<Rightarrow> int option"
  last_thread_state :: "string option"
  memory_ids :: "string list"
  owner_states :: "owner_state list"
  insight_sources :: "insight_source list"
  derivation_links :: "derivation_link list"
  derivation_evidences :: "derivation_evidence list"
  actor_mentions :: "(string \<times> string) list"
  nlp_refs :: "nlp_ref list"
  nlp_features :: "string list"
  nlp_artifacts :: "string list"
  snapshot_inputs :: "string list"

section \<open>Threads\<close>

definition live :: "recon_db \<Rightarrow> string \<Rightarrow> bool" where
  "live d t = (case row (threads d) t of Some r \<Rightarrow> \<not> th_deleted r | None \<Rightarrow> False)"

definition PLACEHOLDER_TITLE :: string where "PLACEHOLDER_TITLE = ''New investigation''"

text \<open>\<open>trim\<close> of Unicode white space is an argument.\<close>

definition new_thread :: "(string \<Rightarrow> string) \<Rightarrow> instant \<Rightarrow> string \<Rightarrow> string \<Rightarrow> (recon_db, thread) body" where
  "new_thread trim now i title d =
     (let r = \<lparr>th_title = (if trim title = [] then PLACEHOLDER_TITLE else trim title), th_created = now, th_updated = now,
                th_draft = [], th_scroll = 0, th_deleted = False, th_recall = False\<rparr>
      in case row (threads d) i of Some _ \<Rightarrow> Inl already_exists
         | None \<Rightarrow> Inr (r, d\<lparr>threads := put i r (threads d)\<rparr>))"

definition put_thread :: "string \<Rightarrow> thread \<Rightarrow> (recon_db, unit) body" where
  "put_thread i r d = Inr ((), d\<lparr>threads := put i (r\<lparr>th_deleted := False\<rparr>) (threads d)\<rparr>)"

definition get_thread :: "string \<Rightarrow> recon_db \<Rightarrow> thread option" where
  "get_thread i d = (if live d i then row (threads d) i else None)"

definition update_live :: "string \<Rightarrow> (thread \<Rightarrow> thread) \<Rightarrow> recon_db \<Rightarrow> bool \<times> recon_db" where
  "update_live i f d = (live d i, d\<lparr>threads := update_where (\<lambda>k r. k = i \<and> \<not> th_deleted r) f (threads d)\<rparr>)"

definition set_recall_insights :: "string \<Rightarrow> bool \<Rightarrow> recon_db \<Rightarrow> bool \<times> recon_db" where
  "set_recall_insights i on = update_live i (th_recall_update (\<lambda>_. on))"

definition rename_thread :: "(string \<Rightarrow> string) \<Rightarrow> instant \<Rightarrow> string \<Rightarrow> string \<Rightarrow> (recon_db, bool) body" where
  "rename_thread trim now i title d =
     (if trim title = [] then Inl (refused ''title is empty'')
      else Inr (update_live i (\<lambda>r. r\<lparr>th_title := trim title, th_updated := now\<rparr>) d))"

definition save_draft :: "string \<Rightarrow> string \<Rightarrow> int \<Rightarrow> recon_db \<Rightarrow> recon_db" where
  "save_draft i draft scroll d = snd (update_live i (\<lambda>r. r\<lparr>th_draft := draft, th_scroll := scroll\<rparr>) d)"

definition select_thread :: "(recon_db \<Rightarrow> recon_db) \<Rightarrow> string \<Rightarrow> (recon_db, unit) body" where
  "select_thread between i d =
     (if get_thread i d = None then Inl (refused ''thread not found'')
      else Inr ((), (between d)\<lparr>last_thread_state := Some i\<rparr>))"

definition last_thread :: "recon_db \<Rightarrow> string option" where
  "last_thread d = (case last_thread_state d of None \<Rightarrow> None
     | Some i \<Rightarrow> map_option (\<lambda>_. i) (get_thread i d))"

definition LIST_LIMIT :: nat where "LIST_LIMIT = 200"

text \<open>Newest update first; \<open>lower\<close> is the engine's \<open>string::lowercase\<close>.\<close>

definition list_threads :: "(string \<Rightarrow> string) \<Rightarrow> (string \<Rightarrow> string) \<Rightarrow> string \<Rightarrow> recon_db \<Rightarrow> (string \<times> thread) list" where
  "list_threads trim lower search d =
     (let n = lower (trim search);
          hits = (if n = [] then [] else map fst (filter (\<lambda>(t, e, c).
            contains n (lower (case row (recon_entities d) e of Some r \<Rightarrow> en_canonical r | None \<Rightarrow> []))) (thread_entities d)))
      in take LIST_LIMIT (sort_key (\<lambda>(i, r). - th_updated r) (filter (\<lambda>(i, r). \<not> th_deleted r \<and>
           (n = [] \<or> contains n (lower (th_title r)) \<or> i \<in> set hits)) (threads d))))"

section \<open>Messages\<close>

definition thread_sequences :: "recon_db \<Rightarrow> string \<Rightarrow> int list" where
  "thread_sequences d t = map (ms_sequence \<circ> snd) (filter (\<lambda>(_, m). ms_thread m = t) (messages d))"

text \<open>\<open>array::max(\<dots>) ?? 0\<close> and the counter raised above it.\<close>

definition next_sequence :: "recon_db \<Rightarrow> string \<Rightarrow> int" where
  "next_sequence d t =
     (let top = (case thread_sequences d t of [] \<Rightarrow> 0 | s # ss \<Rightarrow> foldl max s ss)
      in max (case sequences d t of Some n \<Rightarrow> n | None \<Rightarrow> 0) top + 1)"

definition touch_thread :: "string \<Rightarrow> instant \<Rightarrow> recon_db \<Rightarrow> recon_db" where
  "touch_thread t now d = d\<lparr>threads := update_one t (th_updated_update (\<lambda>_. now)) (threads d)\<rparr>"

text \<open>\<open>CREATE\<close> of a message: the thread must exist, the id be new and the sequence free.\<close>

definition create_message :: "string \<Rightarrow> message \<Rightarrow> (recon_db, unit) body" where
  "create_message i m d =
     (if row (threads d) (ms_thread m) = None then Inl (refused ''thread_id'')
      else if row (messages d) i \<noteq> None then Inl already_exists
      else if ms_sequence m \<in> set (thread_sequences d (ms_thread m)) then Inl already_exists
      else Inr ((), d\<lparr>messages := put i m (messages d)\<rparr>))"

definition put_message :: "string \<Rightarrow> message \<Rightarrow> (recon_db, unit) body" where
  "put_message i m = create_message i m"

definition append_message :: "string \<Rightarrow> message \<Rightarrow> (recon_db, int) body" where
  "append_message i m d =
     (let n = next_sequence d (ms_thread m);
          d = d\<lparr>sequences := (sequences d)(ms_thread m \<mapsto> n)\<rparr>
      in case create_message i (m\<lparr>ms_sequence := n\<rparr>) d of Inl e \<Rightarrow> Inl e | Inr (_, d) \<Rightarrow> Inr (n, d))"

definition add_message :: "instant \<Rightarrow> string \<Rightarrow> string \<Rightarrow> string \<Rightarrow> string \<Rightarrow> string option \<Rightarrow> (recon_db, int) body" where
  "add_message now i t role content run d =
     (if \<not> live d t then Inl (refused ''thread not found'')
      else case append_message i \<lparr>ms_thread = t, ms_sequence = 0, ms_role = role, ms_content = content, ms_run = run,
                ms_created = now\<rparr> d of
        Inl e \<Rightarrow> Inl e | Inr (n, d) \<Rightarrow> Inr (n, touch_thread t now d))"

definition list_messages :: "string \<Rightarrow> recon_db \<Rightarrow> (string \<times> message) list" where
  "list_messages t d = sort_key (ms_sequence \<circ> snd) (filter (\<lambda>(_, m). ms_thread m = t) (messages d))"

text \<open>\<open>UPSERT [m, memory]\<close> with its place in the answer.\<close>

definition put_memory_link :: "string \<Rightarrow> string \<Rightarrow> int \<Rightarrow> recon_db \<Rightarrow> recon_db" where
  "put_memory_link m mem i d = d\<lparr>message_memories := AList.update (m, mem) i (message_memories d)\<rparr>"

fun create_memory_links :: "string \<Rightarrow> int \<Rightarrow> string list \<Rightarrow> (recon_db, unit) body" where
  "create_memory_links m i [] d = Inr ((), d)"
| "create_memory_links m i (x # xs) d =
     (if row (messages d) m = None then Inl (refused ''message_id'')
      else if (m, x) \<in> fst ` set (message_memories d) then Inl already_exists
      else create_memory_links m (i + 1) xs (put_memory_link m x i d))"

definition link_message_memories :: "string \<Rightarrow> string list \<Rightarrow> (recon_db, unit) body" where
  "link_message_memories m mems d =
     create_memory_links m 0 mems (d\<lparr>message_memories := filter (\<lambda>((k, _), _). k \<noteq> m) (message_memories d)\<rparr>)"

section \<open>Runs\<close>

definition create_run :: "string \<Rightarrow> run_row \<Rightarrow> (recon_db, run_row) body" where
  "create_run i r d =
     (if row (threads d) (rn_thread r) = None then Inl (refused ''thread_id'')
      else if row (recon_runs d) i \<noteq> None then Inl already_exists
      else Inr (r, d\<lparr>recon_runs := put i r (recon_runs d)\<rparr>))"

definition new_run :: "(recon_db \<Rightarrow> recon_db) \<Rightarrow> instant \<Rightarrow> string \<Rightarrow> string \<Rightarrow> string \<Rightarrow> string \<times> string \<times> string
    \<Rightarrow> int \<Rightarrow> int \<Rightarrow> int \<Rightarrow> (recon_db, run_row) body" where
  "new_run between now i t turn models max_rounds max_calls turn_seconds d =
     (if get_thread t d = None then Inl (refused ''thread not found'')
      else if \<not> (1 \<le> max_rounds \<and> max_rounds \<le> 8) then Inl (refused ''max_rounds must be 1..8'')
      else if \<not> (1 \<le> max_calls \<and> max_calls \<le> 24) then Inl (refused ''max_calls must be 1..24'')
      else if \<not> (300 \<le> turn_seconds \<and> turn_seconds \<le> 900) then Inl (refused ''turn_seconds must be 300..900'')
      else (let (recon_model, picker, synthesis) = models
            in create_run i \<lparr>rn_thread = t, rn_turn = turn, rn_state = ''running'', rn_stage = ''extracting entities'',
                 rn_recon_model = recon_model, rn_synthesis_model = synthesis, rn_tool_picker_model = picker,
                 rn_max_rounds = max_rounds, rn_max_calls = max_calls, rn_turn_seconds = turn_seconds,
                 rn_plan = None, rn_error = None, rn_created = now, rn_updated = now\<rparr> (between d)))"

text \<open>\<open>UPDATE $r SET \<dots> WHERE \<dots> RETURN VALUE meta::id(id)\<close>: whether a row changed.\<close>

definition update_run :: "string \<Rightarrow> (run_row \<Rightarrow> bool) \<Rightarrow> (run_row \<Rightarrow> run_row) \<Rightarrow> recon_db \<Rightarrow> bool \<times> recon_db" where
  "update_run i P f d =
     (case row (recon_runs d) i of Some r \<Rightarrow> P r | None \<Rightarrow> False,
      d\<lparr>recon_runs := update_where (\<lambda>k r. k = i \<and> P r) f (recon_runs d)\<rparr>)"

definition set_run :: "instant \<Rightarrow> string \<Rightarrow> string \<Rightarrow> string \<Rightarrow> string option \<Rightarrow> string option \<Rightarrow> recon_db \<Rightarrow> bool \<times> recon_db" where
  "set_run now i state stage plan err =
     update_run i (\<lambda>r. rn_state r \<notin> set [''cancelled'', ''deleted''])
       (\<lambda>r. r\<lparr>rn_state := state, rn_stage := stage, rn_plan := (case plan of Some p \<Rightarrow> Some p | None \<Rightarrow> rn_plan r),
               rn_error := err, rn_updated := now\<rparr>)"

definition transition :: "instant \<Rightarrow> string \<Rightarrow> string list \<Rightarrow> string \<Rightarrow> string \<Rightarrow> recon_db \<Rightarrow> bool \<times> recon_db" where
  "transition now i from_states to_state stage =
     update_run i (\<lambda>r. rn_state r \<in> set from_states)
       (\<lambda>r. r\<lparr>rn_state := to_state, rn_stage := stage, rn_updated := now\<rparr>)"

definition cancel_run :: "instant \<Rightarrow> string \<Rightarrow> recon_db \<Rightarrow> bool \<times> recon_db" where
  "cancel_run now i = transition now i [''running''] ''cancelled'' ''cancelled''"

definition restart_run :: "instant \<Rightarrow> string \<Rightarrow> recon_db \<Rightarrow> bool \<times> recon_db" where
  "restart_run now i = transition now i [''interrupted'', ''failed''] ''running'' ''resuming''"

text \<open>\<open>ORDER BY updated_at DESC LIMIT 1\<close>; ties keep the order of the scan.\<close>

definition latest_run :: "string \<Rightarrow> recon_db \<Rightarrow> (string \<times> run_row) option" where
  "latest_run t d =
     (case sort_key (\<lambda>(_, r). - rn_updated r) (filter (\<lambda>(_, r). rn_thread r = t) (recon_runs d)) of
        [] \<Rightarrow> None | x # _ \<Rightarrow> Some x)"

definition latest_run_state :: "string \<Rightarrow> recon_db \<Rightarrow> string option" where
  "latest_run_state t d = map_option (rn_state \<circ> snd) (latest_run t d)"

definition latest_run_states :: "string list \<Rightarrow> recon_db \<Rightarrow> (string \<times> string) list" where
  "latest_run_states ts d =
     List.map_filter (\<lambda>t. map_option (\<lambda>(_, r). (rn_thread r, rn_state r)) (latest_run t d)) ts"

definition latest_resumable_run :: "string \<Rightarrow> recon_db \<Rightarrow> (string \<times> run_row) option" where
  "latest_resumable_run t d =
     (case latest_run t d of Some (i, r) \<Rightarrow> if rn_state r = ''interrupted'' \<or> rn_state r = ''failed'' then Some (i, r) else None
      | None \<Rightarrow> None)"

definition runs_for_thread :: "string \<Rightarrow> recon_db \<Rightarrow> (string \<times> run_row) list" where
  "runs_for_thread t d = sort_key (\<lambda>(i, r). (rn_created r, i)) (filter (\<lambda>(_, r). rn_thread r = t) (recon_runs d))"

section \<open>Calls and evidence\<close>

definition open_call :: "call_row \<Rightarrow> bool" where
  "open_call c \<longleftrightarrow> ca_status c \<in> set [''queued'', ''running'']"

definition canonical_tool_id :: "string \<Rightarrow> string" where
  "canonical_tool_id i = (if i = ''hunter_tech_lookup'' then ''hunter_company_enrichment'' else i)"

text \<open>\<open>known\<close> is the tool registry.\<close>

definition queue_call :: "(string \<Rightarrow> bool) \<Rightarrow> instant \<Rightarrow> string \<Rightarrow> string \<Rightarrow> string \<Rightarrow> string \<Rightarrow> string option \<Rightarrow> string option
    \<Rightarrow> string option \<Rightarrow> (recon_db, string) body" where
  "queue_call known now i tool inputs origin run t turn d =
     (if \<not> known (canonical_tool_id tool) then Inl (refused ''unknown tool'')
      else if (case t of Some t \<Rightarrow> \<not> live d t | None \<Rightarrow> False) then Inl (refused ''thread was deleted'')
      else if (case run of None \<Rightarrow> False | Some r \<Rightarrow> (case row (recon_runs d) r of None \<Rightarrow> True
                 | Some x \<Rightarrow> rn_state x \<noteq> ''running'' \<or> Some (rn_thread x) \<noteq> t)) then Inl (refused ''run is no longer active'')
      else if row (calls d) i \<noteq> None then Inl already_exists
      else Inr (i, d\<lparr>calls := put i \<lparr>ca_tool = tool, ca_run = run, ca_thread = t, ca_turn = turn, ca_origin = origin,
             ca_inputs = inputs, ca_status = ''queued'', ca_attempts = 0, ca_result = None, ca_started = now,
             ca_completed = None\<rparr> (calls d)\<rparr>))"

definition update_call :: "string \<Rightarrow> (call_row \<Rightarrow> bool) \<Rightarrow> (call_row \<Rightarrow> call_row) \<Rightarrow> recon_db \<Rightarrow> bool \<times> recon_db" where
  "update_call i P f d =
     (case row (calls d) i of Some c \<Rightarrow> P c | None \<Rightarrow> False,
      d\<lparr>calls := update_where (\<lambda>k c. k = i \<and> P c) f (calls d)\<rparr>)"

definition finish_call :: "instant \<Rightarrow> string \<Rightarrow> tool_result \<Rightarrow> recon_db \<Rightarrow> bool \<times> recon_db" where
  "finish_call now i res d =
     update_call i (\<lambda>c. open_call c \<and> (case ca_thread c of None \<Rightarrow> True | Some t \<Rightarrow> live d t))
       (\<lambda>c. c\<lparr>ca_status := tr_status res, ca_attempts := ca_attempts c + 1, ca_result := Some res,
               ca_completed := Some now\<rparr>) d"

text \<open>\<open>attach_call\<close> reads the thread in a query of its own before it updates the call.\<close>

definition attach_update :: "string \<Rightarrow> string \<Rightarrow> recon_db \<Rightarrow> bool \<times> recon_db" where
  "attach_update i t =
     update_call i (\<lambda>c. ca_origin c = ''manual'' \<and> ca_status c \<in> set [''completed'', ''no_results''])
       (ca_thread_update (\<lambda>_. Some t))"

definition attach_call :: "(recon_db \<Rightarrow> recon_db) \<Rightarrow> string \<Rightarrow> string \<Rightarrow> (recon_db, bool) body" where
  "attach_call between i t d =
     (if get_thread t d = None then Inl (refused ''thread not found'') else Inr (attach_update i t (between d)))"

definition inflight_duplicate :: "string \<Rightarrow> string \<Rightarrow> recon_db \<Rightarrow> bool" where
  "inflight_duplicate tool inputs d =
     list_ex (\<lambda>(_, c). ca_tool c \<in> set [tool, canonical_tool_id tool] \<and> ca_inputs c = inputs \<and> open_call c) (calls d)"

datatype call_filter = Of_Run string | Thread_Completed string | Of_Thread string | Manual

fun call_matches :: "call_filter \<Rightarrow> call_row \<Rightarrow> bool" where
  "call_matches (Of_Run k) c = (ca_run c = Some k)"
| "call_matches (Thread_Completed k) c = (ca_thread c = Some k \<and> ca_status c = ''completed'')"
| "call_matches (Of_Thread k) c = (ca_thread c = Some k)"
| "call_matches Manual c = (ca_origin c = ''manual'')"

definition calls_of :: "call_filter \<Rightarrow> recon_db \<Rightarrow> (string \<times> call_row) list" where
  "calls_of f d = sort_key (\<lambda>(i, c). (ca_started c, i)) (filter (\<lambda>(_, c). call_matches f c) (calls d))"

definition put_evidence :: "string \<Rightarrow> string \<Rightarrow> recon_db \<Rightarrow> recon_db" where
  "put_evidence m c d = d\<lparr>evidence := (if (m, c) \<in> set (evidence d) then evidence d else evidence d @ [(m, c)])\<rparr>"

fun link_evidence_in :: "string \<Rightarrow> string list \<Rightarrow> (recon_db, unit) body" where
  "link_evidence_in m [] d = Inr ((), d)"
| "link_evidence_in m (c # cs) d =
     (if row (calls d) c = None then Inl (refused ''evidence call missing'')
      else if row (messages d) m = None then Inl (refused ''message_id'')
      else link_evidence_in m cs (put_evidence m c d))"

definition answer_evidence :: "string \<Rightarrow> recon_db \<Rightarrow> (string \<times> tool_result) list" where
  "answer_evidence m d =
     List.map_filter (\<lambda>(i, c). map_option (Pair i) (ca_result c))
       (sort_key (\<lambda>(_, c). ca_started c) (filter (\<lambda>(i, _). (m, i) \<in> set (evidence d)) (calls d)))"

definition settle_open_calls :: "instant \<Rightarrow> string \<Rightarrow> string \<Rightarrow> (recon_db, nat) body" where
  "settle_open_calls now run status d =
     (if status \<notin> set [''cancelled'', ''interrupted''] then Inl (refused ''unexpected call settlement'')
      else Inr (length (ids_where (\<lambda>_ c. ca_run c = Some run \<and> open_call c) (calls d)),
        d\<lparr>calls := update_where (\<lambda>_ c. ca_run c = Some run \<and> open_call c)
             (\<lambda>c. c\<lparr>ca_status := status, ca_completed := Some now\<rparr>) (calls d)\<rparr>))"

definition cache_put :: "instant \<Rightarrow> string \<Rightarrow> tool_result \<Rightarrow> int \<Rightarrow> recon_db \<Rightarrow> recon_db" where
  "cache_put now key res ttl d =
     d\<lparr>cache := put key \<lparr>ce_result = Some res, ce_expires = now + ttl * 1000000000\<rparr> (cache d)\<rparr>"

definition cache_get_fresh :: "instant \<Rightarrow> string \<Rightarrow> string option \<Rightarrow> recon_db \<Rightarrow> tool_result option" where
  "cache_get_fresh now key cutoff d =
     (case row (cache d) key of None \<Rightarrow> None
      | Some e \<Rightarrow> if \<not> ce_expires e > now then None
          else (case ce_result e of None \<Rightarrow> None
            | Some res \<Rightarrow> (case cutoff of None \<Rightarrow> Some res
              | Some c \<Rightarrow> if c \<noteq> [] \<and> tr_retrieved_at res \<noteq> [] \<and> tr_retrieved_at res < c then None else Some res)))"

section \<open>Entities and tool preferences\<close>

text \<open>\<open>INSERT OR IGNORE\<close>: nothing is created when the id or the name is taken.\<close>

definition ensure_recon_entity_in :: "string \<Rightarrow> entity \<Rightarrow> recon_db \<Rightarrow> bool \<times> recon_db" where
  "ensure_recon_entity_in i e d =
     (if row (recon_entities d) i \<noteq> None
         \<or> list_ex (\<lambda>(_, x). en_kind x = en_kind e \<and> en_namespace x = en_namespace e \<and> en_canonical x = en_canonical e)
             (recon_entities d) then (False, d)
      else (True, d\<lparr>recon_entities := put i e (recon_entities d)\<rparr>))"

definition link_entity :: "string \<Rightarrow> string \<Rightarrow> string \<Rightarrow> string option \<Rightarrow> (recon_db, unit) body" where
  "link_entity t kind canonical source d =
     (let i = kind @ '':'' @ canonical;
          link = (t, i, case source of None \<Rightarrow> [] | Some c \<Rightarrow> c);
          d = snd (ensure_recon_entity_in i \<lparr>en_kind = kind, en_namespace = [], en_canonical = canonical,
                en_label = canonical\<rparr> d)
      in if row (threads d) t = None then Inl (refused ''thread_id'')
         else Inr ((), d\<lparr>thread_entities := List.insert link (thread_entities d)\<rparr>))"

definition entities_of :: "string \<Rightarrow> recon_db \<Rightarrow> (string \<times> string) list" where
  "entities_of t d =
     (let linked = map (\<lambda>(_, e, _). e) (filter (\<lambda>(x, _, _). x = t) (thread_entities d))
      in sort (map (\<lambda>(_, e). (en_kind e, en_canonical e)) (filter (\<lambda>(i, _). i \<in> set linked) (recon_entities d))))"

definition default_enabled :: "string \<Rightarrow> bool" where
  "default_enabled i \<longleftrightarrow> canonical_tool_id i \<noteq> ''firecrawl_crawl''"

definition tool_enabled :: "string \<Rightarrow> recon_db \<Rightarrow> bool" where
  "tool_enabled i d = (case row (preferences d) i of Some v \<Rightarrow> v | None \<Rightarrow> default_enabled i)"

definition set_tool_enabled :: "(string \<Rightarrow> bool) \<Rightarrow> string \<Rightarrow> bool \<Rightarrow> (recon_db, unit) body" where
  "set_tool_enabled known i on d =
     (if \<not> known (canonical_tool_id i) then Inl (refused ''unknown tool'')
      else Inr ((), d\<lparr>preferences := put i on (preferences d)\<rparr>))"

end
