(* ===== verification/Recon_Exec.thy ===== *)
theory Recon_Exec
  imports Recon_Store Credits
begin

text \<open>
  The writes of the Recon run executor (\<open>storage/recon_exec.rs\<close>): the final answer, the
  operations it streams drafts into, strategies, extraction jobs and the recovery at startup; and
  the deletion of a thread with everything that belongs to it (\<open>delete_thread_in\<close> of
  \<open>storage/recon.rs\<close>, \<open>remove_nlp_owner_in\<close> of \<open>storage/insight.rs\<close>).
\<close>

section \<open>The final answer\<close>

text \<open>Existing memories only, each with its place in the list; \<open>UPSERT\<close> keeps the last place.\<close>

fun cite_memories :: "string \<Rightarrow> int \<Rightarrow> string list \<Rightarrow> recon_db \<Rightarrow> recon_db" where
  "cite_memories m k [] d = d"
| "cite_memories m k (x # xs) d =
     cite_memories m (k + 1) xs (if x \<in> set (memory_ids d) then put_memory_link m x k d else d)"

definition queue_extraction :: "instant \<Rightarrow> string \<Rightarrow> string \<Rightarrow> recon_db \<Rightarrow> recon_db" where
  "queue_extraction now m run d =
     d\<lparr>extractions := put m \<lparr>ex_run = run, ex_state = ''queued'', ex_error = None, ex_updated = now\<rparr> (extractions d)\<rparr>"

definition latest_operation :: "string \<Rightarrow> string \<Rightarrow> recon_db \<Rightarrow> string option" where
  "latest_operation run role d =
     (case sort_key (\<lambda>(_, p). - op_created p) (filter (\<lambda>(_, p). op_run p = run \<and> op_role p = role) (operations d)) of
        [] \<Rightarrow> None | (k, _) # _ \<Rightarrow> Some k)"

definition finalize_synthesis :: "instant \<Rightarrow> string \<Rightarrow> string \<Rightarrow> recon_db \<Rightarrow> recon_db" where
  "finalize_synthesis now m run d =
     (case latest_operation run ''synthesis'' d of None \<Rightarrow> d
      | Some k \<Rightarrow> d\<lparr>operations := update_one k (\<lambda>p. p\<lparr>op_status := ''final'', op_final := Some m, op_updated := now\<rparr>)
            (operations d)\<rparr>)"

definition complete_stage :: "instant \<Rightarrow> string \<Rightarrow> recon_db \<Rightarrow> recon_db" where
  "complete_stage now run d =
     d\<lparr>recon_runs := update_where (\<lambda>k r. k = run \<and> rn_state r = ''running'')
         (\<lambda>r. r\<lparr>rn_stage := ''complete'', rn_updated := now\<rparr>) (recon_runs d)\<rparr>"

definition run_active :: "string \<Rightarrow> string \<Rightarrow> recon_db \<Rightarrow> bool" where
  "run_active run t d \<longleftrightarrow> (case row (recon_runs d) run of None \<Rightarrow> False
      | Some r \<Rightarrow> rn_state r = ''running'' \<and> rn_thread r = t) \<and> live d t"

definition add_answer :: "instant \<Rightarrow> string \<Rightarrow> string \<Rightarrow> string \<Rightarrow> string \<Rightarrow> string list \<Rightarrow> string list
    \<Rightarrow> (recon_db, int) body" where
  "add_answer now m t run content cited mems d =
     (if \<not> run_active run t d then Inl (refused ''run no longer active'')
      else case append_message m \<lparr>ms_thread = t, ms_sequence = 0, ms_role = ''assistant'', ms_content = content,
                ms_run = Some run, ms_created = now\<rparr> d of
        Inl e \<Rightarrow> Inl e
      | Inr (n, d) \<Rightarrow> (case link_evidence_in m cited d of
          Inl e \<Rightarrow> Inl e
        | Inr (_, d) \<Rightarrow> Inr (n, complete_stage now run (touch_thread t now
            (finalize_synthesis now m run (queue_extraction now m run (cite_memories m 0 mems d)))))))"

definition has_final_answer_for_run :: "string \<Rightarrow> recon_db \<Rightarrow> bool" where
  "has_final_answer_for_run run d =
     list_ex (\<lambda>(_, p). op_run p = run \<and> op_role p = ''synthesis'' \<and> op_status p = ''final'') (operations d)"

section \<open>Recovery at startup\<close>

text \<open>Three statements of one query, each its own transaction, then the release of the credits.\<close>

definition interrupt_runs :: "instant \<Rightarrow> recon_db \<Rightarrow> nat \<times> recon_db" where
  "interrupt_runs now d =
     (length (ids_where (\<lambda>_ r. rn_state r = ''running'') (recon_runs d)),
      d\<lparr>recon_runs := update_where (\<lambda>_ r. rn_state r = ''running'')
          (\<lambda>r. r\<lparr>rn_state := ''interrupted'', rn_stage := ''interrupted'', rn_updated := now\<rparr>) (recon_runs d)\<rparr>)"

definition interrupt_calls :: "instant \<Rightarrow> recon_db \<Rightarrow> recon_db" where
  "interrupt_calls now d =
     d\<lparr>calls := update_where (\<lambda>_. open_call) (\<lambda>c. c\<lparr>ca_status := ''interrupted'', ca_completed := Some now\<rparr>) (calls d)\<rparr>"

definition requeue_extractions :: "instant \<Rightarrow> recon_db \<Rightarrow> recon_db" where
  "requeue_extractions now d =
     d\<lparr>extractions := update_where (\<lambda>_ j. ex_state j = ''running'')
         (\<lambda>j. j\<lparr>ex_state := ''queued'', ex_updated := now\<rparr>) (extractions d)\<rparr>"

definition recover_runs :: "string \<Rightarrow> instant \<Rightarrow> recon_db \<times> ledger \<Rightarrow> tx_error + (nat \<times> recon_db \<times> ledger)" where
  "recover_runs clock now s =
     (let (n, d) = interrupt_runs now (fst s);
          d = requeue_extractions now (interrupt_calls now d)
      in case release_held_credits clock (snd s) of Inl e \<Rightarrow> Inl e | Inr (_, l) \<Rightarrow> Inr (n, d, l))"

section \<open>Model operations, strategies and extraction jobs\<close>

definition begin_operation :: "instant \<Rightarrow> string \<Rightarrow> string option \<Rightarrow> string option \<Rightarrow> string \<Rightarrow> int \<Rightarrow> string
    \<Rightarrow> recon_db \<Rightarrow> recon_db" where
  "begin_operation now k run task role g draft d =
     (let old = row (operations d) k;
          p = \<lparr>op_run = (case run of None \<Rightarrow> [] | Some r \<Rightarrow> r), op_task = (case task of None \<Rightarrow> [] | Some t \<Rightarrow> t),
               op_role = role, op_generation = g, op_status = ''running'',
               op_draft = (if draft \<noteq> [] then draft else case old of None \<Rightarrow> [] | Some p \<Rightarrow> op_draft p),
               op_final = (case old of None \<Rightarrow> None | Some p \<Rightarrow> op_final p),
               op_created = (case old of None \<Rightarrow> now | Some p \<Rightarrow> op_created p), op_updated = now\<rparr>
      in d\<lparr>operations := put k p (operations d)\<rparr>)"

definition set_operation_draft :: "instant \<Rightarrow> string \<Rightarrow> string \<Rightarrow> recon_db \<Rightarrow> recon_db" where
  "set_operation_draft now k draft d =
     d\<lparr>operations := update_one k (\<lambda>p. p\<lparr>op_draft := draft, op_updated := now\<rparr>) (operations d)\<rparr>"

definition finish_operation :: "instant \<Rightarrow> string \<Rightarrow> string \<Rightarrow> string option \<Rightarrow> recon_db \<Rightarrow> recon_db" where
  "finish_operation now k status m d =
     d\<lparr>operations := update_one k (\<lambda>p. p\<lparr>op_status := status,
         op_final := (case m of Some m \<Rightarrow> Some m | None \<Rightarrow> op_final p), op_updated := now\<rparr>) (operations d)\<rparr>"

definition operations_of :: "string \<Rightarrow> string \<Rightarrow> recon_db \<Rightarrow> (string \<times> model_op) list" where
  "operations_of run role d =
     sort_key (\<lambda>(_, p). - op_generation p) (filter (\<lambda>(_, p). op_run p = run \<and> op_role p = role) (operations d))"

definition set_run_drafts :: "instant \<Rightarrow> string \<Rightarrow> string \<Rightarrow> string \<Rightarrow> recon_db \<Rightarrow> recon_db" where
  "set_run_drafts now run role draft d =
     d\<lparr>operations := update_where (\<lambda>_ p. op_run p = run \<and> op_role p = role)
         (\<lambda>p. p\<lparr>op_draft := draft, op_updated := now\<rparr>) (operations d)\<rparr>"

definition record_strategy :: "instant \<Rightarrow> string \<Rightarrow> string \<Rightarrow> string \<Rightarrow> string \<Rightarrow> string \<Rightarrow> string option \<Rightarrow> string option
    \<Rightarrow> (recon_db, unit) body" where
  "record_strategy now k t run kind why previous reason d =
     (if row (strategies d) k \<noteq> None then Inl already_exists
      else Inr ((), d\<lparr>strategies := put k \<lparr>st_thread = t, st_run = run, st_kind = kind, st_rationale = why,
             st_previous = previous, st_reason = reason, st_created = now\<rparr> (strategies d)\<rparr>))"

definition latest_strategy_kind :: "string \<Rightarrow> recon_db \<Rightarrow> string option" where
  "latest_strategy_kind t d =
     (case sort_key (\<lambda>(_, s). - st_created s) (filter (\<lambda>(_, s). st_thread s = t) (strategies d)) of
        [] \<Rightarrow> None | (_, s) # _ \<Rightarrow> Some (st_kind s))"

definition extraction_state :: "string \<Rightarrow> recon_db \<Rightarrow> string option" where
  "extraction_state m d = map_option ex_state (row (extractions d) m)"

definition set_extraction_state :: "instant \<Rightarrow> string \<Rightarrow> string \<Rightarrow> recon_db \<Rightarrow> recon_db" where
  "set_extraction_state now m state d =
     d\<lparr>extractions := update_one m (\<lambda>j. j\<lparr>ex_state := state, ex_updated := now\<rparr>) (extractions d)\<rparr>"

definition relink_sources :: "string \<Rightarrow> string \<Rightarrow> recon_db \<Rightarrow> recon_db" where
  "relink_sources run m d =
     (let active = map ow_snapshot (filter (\<lambda>w. ow_kind w = ''recon'' \<and> ow_id w = run) (owner_states d))
      in d\<lparr>insight_sources := map (\<lambda>s. if is_run s = Some run \<and> is_answer s \<in> set active then s\<lparr>is_answer := m\<rparr> else s)
             (insight_sources d)\<rparr>)"

section \<open>Deleting a thread\<close>

text \<open>
  \<open>DELETE recon_message WHERE \<dots>\<close> with its two events: the evidence and the memory links of each
  deleted message go with it.
\<close>

definition delete_messages :: "(message \<Rightarrow> bool) \<Rightarrow> recon_db \<Rightarrow> recon_db" where
  "delete_messages P d =
     (let gone = ids_where (\<lambda>_. P) (messages d)
      in d\<lparr>messages := delete_where (\<lambda>_. P) (messages d),
           evidence := filter (\<lambda>(m, _). m \<notin> set gone) (evidence d),
           message_memories := filter (\<lambda>((m, _), _). m \<notin> set gone) (message_memories d)\<rparr>)"

text \<open>\<open>DELETE $th\<close> with its three events: messages, runs and entity links.\<close>

definition delete_thread_row :: "string \<Rightarrow> recon_db \<Rightarrow> recon_db" where
  "delete_thread_row i d =
     (let d = delete_messages (\<lambda>m. ms_thread m = i) d
      in d\<lparr>threads := delete_where (\<lambda>k _. k = i) (threads d),
           recon_runs := delete_where (\<lambda>_ r. rn_thread r = i) (recon_runs d),
           thread_entities := filter (\<lambda>(t, _, _). t \<noteq> i) (thread_entities d)\<rparr>)"

definition orphan_owners :: "instant \<Rightarrow> string list \<Rightarrow> recon_db \<Rightarrow> recon_db" where
  "orphan_owners now runs d =
     (let ws = map (\<lambda>w. if ow_kind w = ''recon'' \<and> ow_id w \<in> set runs
               then w\<lparr>ow_desired := ow_desired w + 1, ow_lifecycle := ''previous'',
                      ow_error := ''origin investigation deleted'', ow_updated := now\<rparr> else w) (owner_states d);
          snaps = map ow_snapshot (filter (\<lambda>w. ow_kind w = ''recon'' \<and> ow_error w = ''origin investigation deleted''
               \<and> ow_snapshot w \<noteq> []) ws)
      in d\<lparr>owner_states := ws,
           derivation_links := map (\<lambda>l. if dl_snapshot l \<in> set snaps then l\<lparr>dl_status := ''origin_deleted''\<rparr> else l)
             (derivation_links d)\<rparr>)"

definition detach_sources :: "string \<Rightarrow> recon_db \<Rightarrow> recon_db" where
  "detach_sources i d =
     d\<lparr>insight_sources := map (\<lambda>s. if is_thread s = Some i
         then s\<lparr>is_deleted_origin := True, is_thread := None, is_run := None, is_answer := ''deleted-origin''\<rparr> else s)
         (insight_sources d)\<rparr>"

definition cancel_open_calls :: "string \<Rightarrow> recon_db \<Rightarrow> recon_db" where
  "cancel_open_calls i d =
     d\<lparr>calls := update_where (\<lambda>_ c. ca_thread c = Some i \<and> open_call c) (\<lambda>c. c\<lparr>ca_status := ''cancelled''\<rparr>) (calls d)\<rparr>"

definition detach_calls :: "string \<Rightarrow> recon_db \<Rightarrow> recon_db" where
  "detach_calls i d =
     d\<lparr>calls := update_where (\<lambda>_ c. ca_thread c = Some i)
         (\<lambda>c. c\<lparr>ca_thread := None, ca_turn := None, ca_run := None\<rparr>) (calls d)\<rparr>"

text \<open>A call an insight source names, or a derivation draws on (\<open>call:<id>\<close> or one of its pages).\<close>

definition call_cited :: "recon_db \<Rightarrow> string \<Rightarrow> bool" where
  "call_cited d c \<longleftrightarrow> c \<in> set (map is_call (insight_sources d))
     \<or> (let key = ''call:'' @ c
        in list_ex (\<lambda>s. s = key \<or> starts_with (key @ ''#page'') s)
             (filter (starts_with ''call:'') (map dv_source (derivation_evidences d))))"

definition drop_uncited_calls :: "recon_db \<Rightarrow> recon_db" where
  "drop_uncited_calls d =
     d\<lparr>calls := delete_where (\<lambda>k c. ca_origin c = ''recon'' \<and> ca_thread c = None \<and> ca_run c = None \<and> \<not> call_cited d k)
         (calls d)\<rparr>"

text \<open>\<open>remove_nlp_owner_in\<close>: the owner's references, then what nothing else refers to.\<close>

definition text_kept :: "recon_db \<Rightarrow> string \<Rightarrow> bool" where
  "text_kept d h \<longleftrightarrow> list_ex (\<lambda>r. nr_prose r = h \<or> nr_raw r = Some h) (nlp_refs d)
     \<or> list_ex (\<lambda>e. contains h (dv_json e)) (derivation_evidences d) \<or> list_ex (contains h) (snapshot_inputs d)"

definition remove_nlp_owner_in :: "string \<Rightarrow> string \<Rightarrow> recon_db \<Rightarrow> recon_db" where
  "remove_nlp_owner_in kind owner d =
     (let mine = filter (\<lambda>r. nr_kind r = kind \<and> nr_owner r = owner) (nlp_refs d);
          hashes = map nr_prose mine @ List.map_filter nr_raw mine;
          d = d\<lparr>nlp_refs := filter (\<lambda>r. \<not> (nr_kind r = kind \<and> nr_owner r = owner)) (nlp_refs d)\<rparr>
      in d\<lparr>nlp_features := filter (\<lambda>h. \<not> (h \<in> set hashes \<and> \<not> list_ex (\<lambda>r. nr_prose r = h) (nlp_refs d)))
             (nlp_features d),
           nlp_artifacts := filter (\<lambda>h. \<not> (h \<in> set hashes \<and> \<not> text_kept d h)) (nlp_artifacts d)\<rparr>)"

definition runs_of :: "recon_db \<Rightarrow> string \<Rightarrow> string list" where
  "runs_of d i = ids_where (\<lambda>_ r. rn_thread r = i) (recon_runs d)"

definition delete_investigation :: "string \<Rightarrow> recon_db \<Rightarrow> recon_db" where
  "delete_investigation i d =
     (let runs = runs_of d i
      in d\<lparr>extractions := delete_where (\<lambda>_ j. ex_run j \<in> set runs) (extractions d),
           operations := delete_where (\<lambda>_ p. op_run p \<in> set runs) (operations d),
           strategies := delete_where (\<lambda>_ s. st_thread s = i) (strategies d)\<rparr>)"

definition forget_thread :: "string \<Rightarrow> recon_db \<Rightarrow> recon_db" where
  "forget_thread i d =
     d\<lparr>sequences := (sequences d)(i := None),
       last_thread_state := (if last_thread_state d = Some i then None else last_thread_state d)\<rparr>"

definition delete_thread_in :: "instant \<Rightarrow> string \<Rightarrow> (recon_db, bool) body" where
  "delete_thread_in now i d =
     (if \<not> live d i then Inr (False, d)
      else (let runs = runs_of d i;
                d = orphan_owners now runs d;
                d = d\<lparr>actor_mentions := filter (\<lambda>(k, owner). \<not> (k = ''thread'' \<and> owner = i)) (actor_mentions d)\<rparr>;
                d = cancel_open_calls i (detach_sources i d);
                d = delete_investigation i d;
                d = delete_messages (\<lambda>m. ms_thread m = i) d;
                d = d\<lparr>recon_runs := delete_where (\<lambda>_ r. rn_thread r = i) (recon_runs d)\<rparr>;
                d = drop_uncited_calls (detach_calls i d);
                d = forget_thread i (delete_thread_row i d)
            in Inr (True, remove_nlp_owner_in ''thread'' i d)))"

end
