(* ===== verification/Recon_System.thy ===== *)
theory Recon_System
  imports Recon_Exec
begin

text \<open>
  The tables of Recon investigations as one transition system: a step is one committed query or
  transaction of \<open>Recon_Store\<close> and \<open>Recon_Exec\<close>. What each step writes, that it keeps the
  invariant of the tables, and what it keeps of each run, call and message.
\<close>


section \<open>The invariant\<close>

definition recon_ok :: "recon_db \<Rightarrow> bool" where
  "recon_ok d \<longleftrightarrow> keyed (threads d) \<and> keyed (messages d) \<and> keyed (recon_runs d) \<and> keyed (calls d) \<and> keyed (extractions d)
     \<and> (\<forall>(k, m) \<in> set (messages d). row (threads d) (ms_thread m) \<noteq> None)
     \<and> distinct (map (\<lambda>(k, m). (ms_thread m, ms_sequence m)) (messages d))
     \<and> (\<forall>(k, r) \<in> set (recon_runs d). row (threads d) (rn_thread r) \<noteq> None)
     \<and> (\<forall>(m, c) \<in> set (evidence d). row (messages d) m \<noteq> None)
     \<and> (\<forall>((m, x), n) \<in> set (message_memories d). row (messages d) m \<noteq> None)
     \<and> (\<forall>(t, e, c) \<in> set (thread_entities d). row (threads d) t \<noteq> None)
     \<and> (\<forall>(k, j) \<in> set (extractions d). \<exists>m r. row (messages d) k = Some m \<and> row (recon_runs d) (ex_run j) = Some r
          \<and> ms_run m = Some (ex_run j) \<and> rn_thread r = ms_thread m)"

definition shape where
  "shape d = (map fst (threads d), messages d, map (map_prod id rn_thread) (recon_runs d), evidence d, message_memories d,
     thread_entities d, map (map_prod id ex_run) (extractions d))"

lemma keys_row: "row t k \<noteq> None \<longleftrightarrow> k \<in> set (map fst t)"
  by (simp add: map_of_eq_None_iff)

lemma row_image: "row (map (map_prod id f) t) k = map_option f (row t k)"
  by (induction t) auto

lemma keyed_image: "keyed (map (map_prod id f) t) = keyed t"
  by (simp add: keyed_def comp_def)

definition shape_ok where
  "shape_ok s \<longleftrightarrow> (case s of (ths, ms, rs, ev, mm, te, ex) \<Rightarrow> distinct ths \<and> keyed ms \<and> keyed rs \<and> keyed ex
     \<and> (\<forall>(k, m) \<in> set ms. ms_thread m \<in> set ths)
     \<and> distinct (map (\<lambda>(k, m). (ms_thread m, ms_sequence m)) ms)
     \<and> (\<forall>(k, t) \<in> set rs. t \<in> set ths)
     \<and> (\<forall>(m, c) \<in> set ev. row ms m \<noteq> None)
     \<and> (\<forall>((m, x), n) \<in> set mm. row ms m \<noteq> None)
     \<and> (\<forall>(t, e, c) \<in> set te. t \<in> set ths)
     \<and> (\<forall>(k, j) \<in> set ex. \<exists>m. row ms k = Some m \<and> row rs j = Some (ms_thread m) \<and> ms_run m = Some j))"

lemma recon_ok_iff: "recon_ok d \<longleftrightarrow> shape_ok (shape d) \<and> keyed (calls d)"
  unfolding recon_ok_def shape_ok_def shape_def keys_row
  by (simp add: keyed_image row_image image_image case_prod_beta keyed_def[of "threads d"])
     (auto simp: keyed_def)

lemma recon_ok_same: "recon_ok d \<Longrightarrow> shape e = shape d \<Longrightarrow> keyed (calls e) \<Longrightarrow> recon_ok e"
  by (simp add: recon_ok_iff)

lemma image_update_where [simp]:
  "(\<And>k r. P k r \<Longrightarrow> f (g r) = f r) \<Longrightarrow> map (map_prod id f) (update_where P g t) = map (map_prod id f) t"
  by (induction t) (auto simp: update_where_def)


section \<open>Committed operations\<close>

text \<open>
  One step per committed query or transaction of this store; an operation of two queries is the step
  of its second one, from any state the others left. \<open>elsewhere\<close> are the writes of other
  stores to the tables this one only cleans.
\<close>

inductive recon_step :: "recon_db \<Rightarrow> recon_db \<Rightarrow> bool" where
  st_new_thread: "new_thread trim now i title d = Inr (x, e) \<Longrightarrow> recon_step d e"
| st_put_thread: "put_thread i r d = Inr (x, e) \<Longrightarrow> recon_step d e"
| st_set_recall: "set_recall_insights i on d = (x, e) \<Longrightarrow> recon_step d e"
| st_rename: "rename_thread trim now i title d = Inr (x, e) \<Longrightarrow> recon_step d e"
| st_save_draft: "recon_step d (save_draft i draft scroll d)"
| st_select: "recon_step d (d\<lparr>last_thread_state := Some i\<rparr>)"
| st_put_message: "put_message i m d = Inr (x, e) \<Longrightarrow> recon_step d e"
| st_add_message: "add_message now i t role content run d = Inr (x, e) \<Longrightarrow> recon_step d e"
| st_memories: "link_message_memories m mems d = Inr (x, e) \<Longrightarrow> recon_step d e"
| st_create_run: "create_run i r d = Inr (x, e) \<Longrightarrow> recon_step d e"
| st_set_run: "set_run now i state stage plan err d = (x, e) \<Longrightarrow> recon_step d e"
| st_cancel: "cancel_run now i d = (x, e) \<Longrightarrow> recon_step d e"
| st_restart: "restart_run now i d = (x, e) \<Longrightarrow> recon_step d e"
| st_queue_call: "queue_call known now i tool inputs origin run t turn d = Inr (x, e) \<Longrightarrow> recon_step d e"
| st_finish_call: "finish_call now i res d = (x, e) \<Longrightarrow> recon_step d e"
| st_attach: "attach_update i t d = (x, e) \<Longrightarrow> recon_step d e"
| st_evidence: "link_evidence_in m cited d = Inr (x, e) \<Longrightarrow> recon_step d e"
| st_settle: "settle_open_calls now run status d = Inr (x, e) \<Longrightarrow> recon_step d e"
| st_cache: "recon_step d (cache_put now key res ttl d)"
| st_entity: "ensure_recon_entity_in i en d = (x, e) \<Longrightarrow> recon_step d e"
| st_link_entity: "link_entity t kind canonical source d = Inr (x, e) \<Longrightarrow> recon_step d e"
| st_tool: "set_tool_enabled known i on d = Inr (x, e) \<Longrightarrow> recon_step d e"
| st_answer: "add_answer now m t run content cited mems d = Inr (x, e) \<Longrightarrow> recon_step d e"
| st_interrupt_runs: "interrupt_runs now d = (x, e) \<Longrightarrow> recon_step d e"
| st_interrupt_calls: "recon_step d (interrupt_calls now d)"
| st_requeue: "recon_step d (requeue_extractions now d)"
| st_begin_op: "recon_step d (begin_operation now k run' task role g draft d)"
| st_op_draft: "recon_step d (set_operation_draft now k draft d)"
| st_finish_op: "recon_step d (finish_operation now k status m' d)"
| st_run_drafts: "recon_step d (set_run_drafts now run role draft d)"
| st_strategy: "record_strategy now k t run kind why previous reason d = Inr (x, e) \<Longrightarrow> recon_step d e"
| st_extraction: "recon_step d (set_extraction_state now m state d)"
| st_relink: "recon_step d (relink_sources run m d)"
| st_delete: "delete_thread_in now i d = Inr (x, e) \<Longrightarrow> recon_step d e"
| st_elsewhere: "recon_step d (d\<lparr>memory_ids := mi, owner_states := ow, insight_sources := ins, derivation_links := dl,
    derivation_evidences := de, actor_mentions := am, nlp_refs := nr, nlp_features := nf, nlp_artifacts := na,
    snapshot_inputs := si\<rparr>)"

definition empty_recon :: "recon_db \<Rightarrow> bool" where
  "empty_recon d \<longleftrightarrow> threads d = [] \<and> messages d = [] \<and> recon_runs d = [] \<and> calls d = [] \<and> extractions d = []
     \<and> evidence d = [] \<and> message_memories d = [] \<and> thread_entities d = []"

section \<open>What one step changes\<close>

lemma put_memory_frame [simp]:
  "shape (put_memory_link m x k d) = (map fst (threads d), messages d, map (map_prod id rn_thread) (recon_runs d), evidence d,
     AList.update (m, x) k (message_memories d), thread_entities d, map (map_prod id ex_run) (extractions d))"
  by (simp add: put_memory_link_def shape_def)

text \<open>Linking only adds memory links, or evidence, of an existing message.\<close>

lemma linked_update: "fst ` fst ` set (AList.update (m, x) k l) = insert m (fst ` fst ` set l)"
proof -
  have "fst ` set (AList.update (m, x) k l) = insert (m, x) (fst ` set l)"
    by (simp add: dom_update)
  then show ?thesis by simp
qed

lemma create_memory_links_Inr:
  assumes "create_memory_links m k xs d = Inr ((), e)"
  shows "\<exists>mm. e = d\<lparr>message_memories := mm\<rparr> \<and> fst ` fst ` set mm \<subseteq> fst ` fst ` set (message_memories d) \<union> {m}
    \<and> (xs \<noteq> [] \<longrightarrow> row (messages d) m \<noteq> None)"
  using assms
proof (induction xs arbitrary: k d)
  case Nil
  then show ?case by (intro exI[of _ "message_memories d"]) auto
next
  case (Cons x xs)
  have ok: "row (messages d) m \<noteq> None" "create_memory_links m (k + 1) xs (put_memory_link m x k d) = Inr ((), e)"
    using Cons.prems unfolding create_memory_links.simps by (metis Inl_Inr_False)+
  from Cons.IH[OF ok(2)] obtain mm where mm: "e = put_memory_link m x k d\<lparr>message_memories := mm\<rparr>"
    "fst ` fst ` set mm \<subseteq> fst ` fst ` set (message_memories (put_memory_link m x k d)) \<union> {m}" by blast
  have "e = d\<lparr>message_memories := mm\<rparr>" unfolding mm(1) by (simp add: put_memory_link_def)
  moreover have "fst ` fst ` set mm \<subseteq> fst ` fst ` set (message_memories d) \<union> {m}"
    using mm(2) by (simp add: put_memory_link_def linked_update)
  ultimately show ?case using ok(1) by blast
qed

lemma cite_memories_eq:
  "\<exists>mm. cite_memories m k xs d = d\<lparr>message_memories := mm\<rparr>
      \<and> fst ` fst ` set mm \<subseteq> fst ` fst ` set (message_memories d) \<union> {m}"
proof (induction xs arbitrary: k d)
  case Nil
  show ?case by (intro exI[of _ "message_memories d"]) auto
next
  case (Cons x xs)
  let ?d = "if x \<in> set (memory_ids d) then put_memory_link m x k d else d"
  from Cons.IH obtain mm where mm: "cite_memories m (k + 1) xs ?d = ?d\<lparr>message_memories := mm\<rparr>"
    "fst ` fst ` set mm \<subseteq> fst ` fst ` set (message_memories ?d) \<union> {m}" by blast
  then have "cite_memories m k (x # xs) d = d\<lparr>message_memories := mm\<rparr>" by (simp add: put_memory_link_def)
  moreover have "fst ` fst ` set mm \<subseteq> fst ` fst ` set (message_memories d) \<union> {m}"
    using mm(2) by (cases "x \<in> set (memory_ids d)") (simp_all add: put_memory_link_def linked_update)
  ultimately show ?case by blast
qed

lemma link_evidence_Inr:
  "link_evidence_in m cs d = Inr ((), e) \<Longrightarrow>
     (\<exists>ev. e = d\<lparr>evidence := ev\<rparr> \<and> set ev = set (evidence d) \<union> Pair m ` set cs)
       \<and> (cs \<noteq> [] \<longrightarrow> row (messages d) m \<noteq> None) \<and> (\<forall>c \<in> set cs. row (calls d) c \<noteq> None)"
proof (induction cs arbitrary: d)
  case Nil
  then show ?case by (auto intro: exI[of _ "evidence d"])
next
  case (Cons c cs)
  then have ok: "row (calls d) c \<noteq> None" "row (messages d) m \<noteq> None"
    "link_evidence_in m cs (put_evidence m c d) = Inr ((), e)" by (auto split: if_splits)
  from Cons.IH[OF ok(3)] obtain ev where
    "e = put_evidence m c d\<lparr>evidence := ev\<rparr>" "set ev = set (evidence (put_evidence m c d)) \<union> Pair m ` set cs"
    "\<forall>c \<in> set cs. row (calls d) c \<noteq> None" by (auto simp: put_evidence_def)
  with ok show ?case
    by (intro conjI exI[of _ ev]) (auto simp: put_evidence_def)
qed

lemma create_message_Inr:
  "create_message i m d = Inr (x, e) \<longleftrightarrow> row (threads d) (ms_thread m) \<noteq> None \<and> row (messages d) i = None
     \<and> ms_sequence m \<notin> set (thread_sequences d (ms_thread m)) \<and> e = d\<lparr>messages := messages d @ [(i, m)]\<rparr>"
  by (auto simp: create_message_def put_new)

lemma append_message_Inr:
  assumes "append_message i m d = Inr (n, e)"
  shows "n = next_sequence d (ms_thread m)" "row (threads d) (ms_thread m) \<noteq> None" "row (messages d) i = None"
    "n \<notin> set (thread_sequences d (ms_thread m))"
    "e = d\<lparr>sequences := (sequences d)(ms_thread m \<mapsto> n), messages := messages d @ [(i, m\<lparr>ms_sequence := n\<rparr>)]\<rparr>"
  using assms by (simp_all add: append_message_def Let_def create_message_Inr thread_sequences_def split: sum.splits prod.splits)

lemma foldl_max: "foldl max (a :: int) ss = Max (set (a # ss))"
proof (induction ss arbitrary: a)
  case (Cons x ss)
  then show ?case by (cases "ss = []") (simp_all add: max.assoc)
qed simp

lemma next_sequence_greater:
  assumes "s \<in> set (thread_sequences d t)" shows "s < next_sequence d t"
proof -
  obtain a ss where t: "thread_sequences d t = a # ss" using assms by (cases "thread_sequences d t") auto
  then have "s \<le> foldl max a ss" using assms unfolding foldl_max by (intro Max_ge) auto
  then show ?thesis by (simp add: next_sequence_def t)
qed


section \<open>Every step keeps the invariant\<close>

lemma shape_fields:
  "shape (d\<lparr>last_thread_state := a\<rparr>) = shape d" "shape (d\<lparr>sequences := b\<rparr>) = shape d" "shape (d\<lparr>calls := c\<rparr>) = shape d"
  "shape (d\<lparr>cache := f\<rparr>) = shape d" "shape (d\<lparr>recon_entities := g\<rparr>) = shape d" "shape (d\<lparr>preferences := h\<rparr>) = shape d"
  "shape (d\<lparr>operations := i\<rparr>) = shape d" "shape (d\<lparr>strategies := j\<rparr>) = shape d"
  "shape (d\<lparr>owner_states := k\<rparr>) = shape d" "shape (d\<lparr>insight_sources := l\<rparr>) = shape d"
  "shape (d\<lparr>derivation_links := m\<rparr>) = shape d" "shape (d\<lparr>actor_mentions := n\<rparr>) = shape d"
  "shape (d\<lparr>nlp_refs := q\<rparr>) = shape d" "shape (d\<lparr>nlp_features := r\<rparr>) = shape d" "shape (d\<lparr>nlp_artifacts := t\<rparr>) = shape d"
  "shape (d\<lparr>memory_ids := u\<rparr>) = shape d" "shape (d\<lparr>derivation_evidences := v\<rparr>) = shape d"
  "shape (d\<lparr>snapshot_inputs := w\<rparr>) = shape d"
  by (simp_all add: shape_def)

lemma shape_updates:
  "shape (d\<lparr>threads := update_where P f (threads d)\<rparr>) = shape d"
  "(\<And>k r. rn_thread (f' r) = rn_thread r) \<Longrightarrow> shape (d\<lparr>recon_runs := update_where P' f' (recon_runs d)\<rparr>) = shape d"
  "(\<And>k j. ex_run (g j) = ex_run j) \<Longrightarrow> shape (d\<lparr>extractions := update_where Q g (extractions d)\<rparr>) = shape d"
  by (simp_all add: shape_def)

lemma keep_put_thread:
  assumes "recon_ok d"
  shows "recon_ok (d\<lparr>threads := put i r (threads d)\<rparr>)"
  using assms by (auto simp: recon_ok_def)

lemma keep_message:
  assumes ok: "recon_ok d" and m: "row (threads d) (ms_thread m) \<noteq> None" "row (messages d) i = None"
    "ms_sequence m \<notin> set (thread_sequences d (ms_thread m))"
  shows "recon_ok (d\<lparr>messages := messages d @ [(i, m)]\<rparr>)"
proof -
  have keyed: "keyed (messages d @ [(i, m)])" using ok m(2)
    by (auto simp: recon_ok_def keyed_def map_of_eq_None_iff)
  have old: "row (messages d @ [(i, m)]) k = (if k = i then Some m else row (messages d) k)" for k
    using m(2) by (auto simp: map_add_def split: option.splits)
  have "(ms_thread m, ms_sequence m) \<notin> (\<lambda>(k, m). (ms_thread m, ms_sequence m)) ` set (messages d)"
    using m(3) by (force simp: thread_sequences_def)
  with ok m keyed show ?thesis
    unfolding recon_ok_def by (auto simp: old)
qed

lemma keep_evidence:
  assumes "recon_ok d" and "\<And>m c. (m, c) \<in> set ev \<Longrightarrow> (m, c) \<in> set (evidence d) \<or> row (messages d) m \<noteq> None"
  shows "recon_ok (d\<lparr>evidence := ev\<rparr>)"
  using assms unfolding recon_ok_def by fastforce

lemma keep_memories:
  assumes "recon_ok d" and "fst ` fst ` set mm \<subseteq> fst ` fst ` set (message_memories d) \<union> M"
    and "\<And>m. m \<in> M \<Longrightarrow> row (messages d) m \<noteq> None"
  shows "recon_ok (d\<lparr>message_memories := mm\<rparr>)"
proof -
  have "row (messages d) m \<noteq> None" if "((m, x), n) \<in> set mm" for m x n
  proof -
    from that have "m \<in> fst ` fst ` set mm" by force
    with assms(2) have "m \<in> fst ` fst ` set (message_memories d) \<or> m \<in> M" by blast
    with assms(1,3) show ?thesis by (auto simp: recon_ok_def)
  qed
  with assms(1) show ?thesis by (auto simp: recon_ok_def)
qed

lemma keep_run:
  assumes "recon_ok d" and "row (recon_runs d) i = None" and "row (threads d) (rn_thread r) \<noteq> None"
  shows "recon_ok (d\<lparr>recon_runs := put i r (recon_runs d)\<rparr>)"
proof -
  have "keyed (recon_runs d @ [(i, r)])" using assms
    by (auto simp: recon_ok_def keyed_def map_of_eq_None_iff)
  moreover have "row (recon_runs d @ [(i, r)]) k = (if k = i then Some r else row (recon_runs d) k)" for k
    using assms(2) by (auto simp: map_add_def split: option.splits)
  ultimately show ?thesis using assms unfolding recon_ok_def put_new[OF assms(2)]
    by auto
qed

lemma keep_entities:
  assumes "recon_ok d" and "row (threads d) t \<noteq> None"
  shows "recon_ok (d\<lparr>thread_entities := List.insert (t, x) (thread_entities d)\<rparr>)"
  using assms by (cases x) (auto simp: recon_ok_def)

lemma set_put: "keyed t \<Longrightarrow> (k, r) \<in> set (put i x t) \<longleftrightarrow> (if k = i then r = x else (k, r) \<in> set t)"
  by (subst keyed_row_iff[symmetric]) (auto simp: keyed_row_iff)

lemma keep_extraction:
  assumes "recon_ok d" and "row (messages d) m = Some x" and "ms_run x = Some run"
    and "row (recon_runs d) run = Some r" and "rn_thread r = ms_thread x"
  shows "recon_ok (queue_extraction now m run d)"
  using assms by (auto simp: queue_extraction_def recon_ok_def set_put split: if_splits)


section \<open>The deletion of a thread\<close>

lemma delete_twice [simp]: "delete_where P (delete_where P t) = delete_where P t"
  by (simp add: delete_where_def filter_filter[symmetric] case_prod_beta del: filter_filter)

lemma ids_deleted [simp]: "ids_where P (delete_where P t) = []"
  by (simp add: ids_where_def delete_where_def case_prod_beta)

lemma drop_uncited_cong:
  "calls d = calls e \<Longrightarrow> insight_sources d = insight_sources e \<Longrightarrow> derivation_evidences d = derivation_evidences e
     \<Longrightarrow> calls (drop_uncited_calls d) = calls (drop_uncited_calls e)"
  by (simp add: drop_uncited_calls_def call_cited_def)

definition messages_of :: "recon_db \<Rightarrow> string \<Rightarrow> string list" where
  "messages_of d i = ids_where (\<lambda>_ m. ms_thread m = i) (messages d)"

lemma orphan_owners_frame [frame]:
  "threads (orphan_owners now rs d) = threads d" "messages (orphan_owners now rs d) = messages d"
  "recon_runs (orphan_owners now rs d) = recon_runs d" "evidence (orphan_owners now rs d) = evidence d"
  "message_memories (orphan_owners now rs d) = message_memories d"
  "thread_entities (orphan_owners now rs d) = thread_entities d"
  "extractions (orphan_owners now rs d) = extractions d" "operations (orphan_owners now rs d) = operations d"
  "strategies (orphan_owners now rs d) = strategies d" "sequences (orphan_owners now rs d) = sequences d"
  "last_thread_state (orphan_owners now rs d) = last_thread_state d"
  "actor_mentions (orphan_owners now rs d) = actor_mentions d"
  "insight_sources (orphan_owners now rs d) = insight_sources d"
  "derivation_evidences (orphan_owners now rs d) = derivation_evidences d" "calls (orphan_owners now rs d) = calls d"
  "recon_entities (orphan_owners now rs d) = recon_entities d" "cache (orphan_owners now rs d) = cache d"
  "preferences (orphan_owners now rs d) = preferences d"
  by (simp_all add: orphan_owners_def Let_def)

lemma detach_sources_frame [frame]:
  "threads (detach_sources i d) = threads d" "messages (detach_sources i d) = messages d"
  "recon_runs (detach_sources i d) = recon_runs d" "evidence (detach_sources i d) = evidence d"
  "message_memories (detach_sources i d) = message_memories d"
  "thread_entities (detach_sources i d) = thread_entities d" "extractions (detach_sources i d) = extractions d"
  "operations (detach_sources i d) = operations d" "strategies (detach_sources i d) = strategies d"
  "sequences (detach_sources i d) = sequences d" "last_thread_state (detach_sources i d) = last_thread_state d"
  "actor_mentions (detach_sources i d) = actor_mentions d"
  "derivation_evidences (detach_sources i d) = derivation_evidences d" "calls (detach_sources i d) = calls d"
  "recon_entities (detach_sources i d) = recon_entities d" "cache (detach_sources i d) = cache d"
  "preferences (detach_sources i d) = preferences d"
  by (simp_all add: detach_sources_def Let_def)

lemma cancel_open_calls_frame [frame]:
  "threads (cancel_open_calls i d) = threads d" "messages (cancel_open_calls i d) = messages d"
  "recon_runs (cancel_open_calls i d) = recon_runs d" "evidence (cancel_open_calls i d) = evidence d"
  "message_memories (cancel_open_calls i d) = message_memories d"
  "thread_entities (cancel_open_calls i d) = thread_entities d" "extractions (cancel_open_calls i d) = extractions d"
  "operations (cancel_open_calls i d) = operations d" "strategies (cancel_open_calls i d) = strategies d"
  "sequences (cancel_open_calls i d) = sequences d" "last_thread_state (cancel_open_calls i d) = last_thread_state d"
  "actor_mentions (cancel_open_calls i d) = actor_mentions d"
  "insight_sources (cancel_open_calls i d) = insight_sources d"
  "derivation_evidences (cancel_open_calls i d) = derivation_evidences d"
  "recon_entities (cancel_open_calls i d) = recon_entities d" "cache (cancel_open_calls i d) = cache d"
  "preferences (cancel_open_calls i d) = preferences d"
  by (simp_all add: cancel_open_calls_def Let_def)

lemma delete_investigation_frame [frame]:
  "threads (delete_investigation i d) = threads d" "messages (delete_investigation i d) = messages d"
  "recon_runs (delete_investigation i d) = recon_runs d" "evidence (delete_investigation i d) = evidence d"
  "message_memories (delete_investigation i d) = message_memories d"
  "thread_entities (delete_investigation i d) = thread_entities d"
  "sequences (delete_investigation i d) = sequences d"
  "last_thread_state (delete_investigation i d) = last_thread_state d"
  "actor_mentions (delete_investigation i d) = actor_mentions d"
  "insight_sources (delete_investigation i d) = insight_sources d"
  "derivation_evidences (delete_investigation i d) = derivation_evidences d"
  "calls (delete_investigation i d) = calls d" "recon_entities (delete_investigation i d) = recon_entities d"
  "cache (delete_investigation i d) = cache d" "preferences (delete_investigation i d) = preferences d"
  by (simp_all add: delete_investigation_def Let_def)

lemma delete_messages_frame [frame]:
  "threads (delete_messages P d) = threads d" "recon_runs (delete_messages P d) = recon_runs d"
  "thread_entities (delete_messages P d) = thread_entities d" "extractions (delete_messages P d) = extractions d"
  "operations (delete_messages P d) = operations d" "strategies (delete_messages P d) = strategies d"
  "sequences (delete_messages P d) = sequences d" "last_thread_state (delete_messages P d) = last_thread_state d"
  "actor_mentions (delete_messages P d) = actor_mentions d"
  "insight_sources (delete_messages P d) = insight_sources d"
  "derivation_evidences (delete_messages P d) = derivation_evidences d" "calls (delete_messages P d) = calls d"
  "recon_entities (delete_messages P d) = recon_entities d" "cache (delete_messages P d) = cache d"
  "preferences (delete_messages P d) = preferences d"
  by (simp_all add: delete_messages_def Let_def)

lemma detach_calls_frame [frame]:
  "threads (detach_calls i d) = threads d" "messages (detach_calls i d) = messages d"
  "recon_runs (detach_calls i d) = recon_runs d" "evidence (detach_calls i d) = evidence d"
  "message_memories (detach_calls i d) = message_memories d" "thread_entities (detach_calls i d) = thread_entities d"
  "extractions (detach_calls i d) = extractions d" "operations (detach_calls i d) = operations d"
  "strategies (detach_calls i d) = strategies d" "sequences (detach_calls i d) = sequences d"
  "last_thread_state (detach_calls i d) = last_thread_state d" "actor_mentions (detach_calls i d) = actor_mentions d"
  "insight_sources (detach_calls i d) = insight_sources d"
  "derivation_evidences (detach_calls i d) = derivation_evidences d"
  "recon_entities (detach_calls i d) = recon_entities d" "cache (detach_calls i d) = cache d"
  "preferences (detach_calls i d) = preferences d"
  by (simp_all add: detach_calls_def Let_def)

lemma drop_uncited_calls_frame [frame]:
  "threads (drop_uncited_calls d) = threads d" "messages (drop_uncited_calls d) = messages d"
  "recon_runs (drop_uncited_calls d) = recon_runs d" "evidence (drop_uncited_calls d) = evidence d"
  "message_memories (drop_uncited_calls d) = message_memories d"
  "thread_entities (drop_uncited_calls d) = thread_entities d" "extractions (drop_uncited_calls d) = extractions d"
  "operations (drop_uncited_calls d) = operations d" "strategies (drop_uncited_calls d) = strategies d"
  "sequences (drop_uncited_calls d) = sequences d" "last_thread_state (drop_uncited_calls d) = last_thread_state d"
  "actor_mentions (drop_uncited_calls d) = actor_mentions d"
  "insight_sources (drop_uncited_calls d) = insight_sources d"
  "derivation_evidences (drop_uncited_calls d) = derivation_evidences d"
  "recon_entities (drop_uncited_calls d) = recon_entities d" "cache (drop_uncited_calls d) = cache d"
  "preferences (drop_uncited_calls d) = preferences d"
  by (simp_all add: drop_uncited_calls_def Let_def)

lemma forget_thread_frame [frame]:
  "threads (forget_thread i d) = threads d" "messages (forget_thread i d) = messages d"
  "recon_runs (forget_thread i d) = recon_runs d" "evidence (forget_thread i d) = evidence d"
  "message_memories (forget_thread i d) = message_memories d"
  "thread_entities (forget_thread i d) = thread_entities d" "extractions (forget_thread i d) = extractions d"
  "operations (forget_thread i d) = operations d" "strategies (forget_thread i d) = strategies d"
  "actor_mentions (forget_thread i d) = actor_mentions d" "insight_sources (forget_thread i d) = insight_sources d"
  "derivation_evidences (forget_thread i d) = derivation_evidences d" "calls (forget_thread i d) = calls d"
  "recon_entities (forget_thread i d) = recon_entities d" "cache (forget_thread i d) = cache d"
  "preferences (forget_thread i d) = preferences d"
  by (simp_all add: forget_thread_def Let_def)

lemma delete_thread_row_frame [frame]:
  "extractions (delete_thread_row i d) = extractions d" "operations (delete_thread_row i d) = operations d"
  "strategies (delete_thread_row i d) = strategies d" "sequences (delete_thread_row i d) = sequences d"
  "last_thread_state (delete_thread_row i d) = last_thread_state d"
  "actor_mentions (delete_thread_row i d) = actor_mentions d"
  "insight_sources (delete_thread_row i d) = insight_sources d"
  "derivation_evidences (delete_thread_row i d) = derivation_evidences d" "calls (delete_thread_row i d) = calls d"
  "recon_entities (delete_thread_row i d) = recon_entities d" "cache (delete_thread_row i d) = cache d"
  "preferences (delete_thread_row i d) = preferences d"
  by (simp_all add: delete_thread_row_def Let_def delete_messages_def)

lemma remove_nlp_owner_in_frame [frame]:
  "threads (remove_nlp_owner_in kd i d) = threads d" "messages (remove_nlp_owner_in kd i d) = messages d"
  "recon_runs (remove_nlp_owner_in kd i d) = recon_runs d" "evidence (remove_nlp_owner_in kd i d) = evidence d"
  "message_memories (remove_nlp_owner_in kd i d) = message_memories d"
  "thread_entities (remove_nlp_owner_in kd i d) = thread_entities d"
  "extractions (remove_nlp_owner_in kd i d) = extractions d" "operations (remove_nlp_owner_in kd i d) = operations d"
  "strategies (remove_nlp_owner_in kd i d) = strategies d" "sequences (remove_nlp_owner_in kd i d) = sequences d"
  "last_thread_state (remove_nlp_owner_in kd i d) = last_thread_state d"
  "actor_mentions (remove_nlp_owner_in kd i d) = actor_mentions d"
  "insight_sources (remove_nlp_owner_in kd i d) = insight_sources d"
  "derivation_evidences (remove_nlp_owner_in kd i d) = derivation_evidences d"
  "calls (remove_nlp_owner_in kd i d) = calls d" "recon_entities (remove_nlp_owner_in kd i d) = recon_entities d"
  "cache (remove_nlp_owner_in kd i d) = cache d" "preferences (remove_nlp_owner_in kd i d) = preferences d"
  by (simp_all add: remove_nlp_owner_in_def Let_def)


text \<open>The rows that are left, table by table.\<close>

lemma delete_thread_tables:
  assumes "delete_thread_in now i d = Inr (True, e)"
  shows "live d i" "threads e = delete_where (\<lambda>k _. k = i) (threads d)"
    "messages e = delete_where (\<lambda>_ m. ms_thread m = i) (messages d)"
    "recon_runs e = delete_where (\<lambda>_ r. rn_thread r = i) (recon_runs d)"
    "evidence e = filter (\<lambda>(m, _). m \<notin> set (messages_of d i)) (evidence d)"
    "message_memories e = filter (\<lambda>((m, _), _). m \<notin> set (messages_of d i)) (message_memories d)"
    "thread_entities e = filter (\<lambda>(t, _, _). t \<noteq> i) (thread_entities d)"
    "extractions e = delete_where (\<lambda>_ j. ex_run j \<in> set (runs_of d i)) (extractions d)"
    "operations e = delete_where (\<lambda>_ p. op_run p \<in> set (runs_of d i)) (operations d)"
    "strategies e = delete_where (\<lambda>_ s. st_thread s = i) (strategies d)"
    "sequences e = (sequences d)(i := None)"
    "last_thread_state e = (if last_thread_state d = Some i then None else last_thread_state d)"
    "actor_mentions e = filter (\<lambda>(k, owner). \<not> (k = ''thread'' \<and> owner = i)) (actor_mentions d)"
    "insight_sources e = insight_sources (detach_sources i d)"
    "calls e = calls (drop_uncited_calls (detach_calls i (cancel_open_calls i (detach_sources i d))))"
    "recon_entities e = recon_entities d" "cache e = cache d" "preferences e = preferences d"
proof -
  show live: "live d i" using assms by (simp add: delete_thread_in_def split: if_splits)
  have e: "e = (let runs = runs_of d i;
                d = orphan_owners now runs d;
                d = d\<lparr>actor_mentions := filter (\<lambda>(k, owner). \<not> (k = ''thread'' \<and> owner = i)) (actor_mentions d)\<rparr>;
                d = cancel_open_calls i (detach_sources i d);
                d = delete_investigation i d;
                d = delete_messages (\<lambda>m. ms_thread m = i) d;
                d = d\<lparr>recon_runs := delete_where (\<lambda>_ r. rn_thread r = i) (recon_runs d)\<rparr>;
                d = drop_uncited_calls (detach_calls i d);
                d = forget_thread i (delete_thread_row i d)
            in remove_nlp_owner_in ''thread'' i d)"
    using assms live by (simp add: delete_thread_in_def Let_def)
  note s = e Let_def frame runs_of_def messages_of_def
  show "threads e = delete_where (\<lambda>k _. k = i) (threads d)"
    by (simp add: s delete_thread_row_def)
  show "messages e = delete_where (\<lambda>_ m. ms_thread m = i) (messages d)"
    "evidence e = filter (\<lambda>(m, _). m \<notin> set (messages_of d i)) (evidence d)"
    "message_memories e = filter (\<lambda>((m, _), _). m \<notin> set (messages_of d i)) (message_memories d)"
    by (simp_all add: s delete_thread_row_def delete_messages_def case_prod_unfold)
  show "recon_runs e = delete_where (\<lambda>_ r. rn_thread r = i) (recon_runs d)"
    "thread_entities e = filter (\<lambda>(t, _, _). t \<noteq> i) (thread_entities d)"
    by (simp_all add: s delete_thread_row_def)
  show "extractions e = delete_where (\<lambda>_ j. ex_run j \<in> set (runs_of d i)) (extractions d)"
    "operations e = delete_where (\<lambda>_ p. op_run p \<in> set (runs_of d i)) (operations d)"
    "strategies e = delete_where (\<lambda>_ s. st_thread s = i) (strategies d)"
    by (simp_all add: s delete_investigation_def)
  show "sequences e = (sequences d)(i := None)"
    "last_thread_state e = (if last_thread_state d = Some i then None else last_thread_state d)"
    by (simp_all add: s forget_thread_def)
  show "actor_mentions e = filter (\<lambda>(k, owner). \<not> (k = ''thread'' \<and> owner = i)) (actor_mentions d)"
    by (simp add: s)
  show "insight_sources e = insight_sources (detach_sources i d)"
    by (simp add: s detach_sources_def)
  show "calls e = calls (drop_uncited_calls (detach_calls i (cancel_open_calls i (detach_sources i d))))"
    by (simp only: s recon_db.simps) (rule drop_uncited_cong,
        simp_all add: frame detach_calls_def cancel_open_calls_def detach_sources_def)
  show "recon_entities e = recon_entities d" "cache e = cache d" "preferences e = preferences d"
    by (simp_all add: s)
qed


lemma keep_delete:
  assumes ok: "recon_ok d" and del: "delete_thread_in now i d = Inr (x, e)"
  shows "recon_ok e"
proof (cases x)
  case False
  with del ok show ?thesis by (auto simp: delete_thread_in_def Let_def split: if_splits)
next
  case True
  with del have t: "delete_thread_in now i d = Inr (True, e)" by simp
  note tables = delete_thread_tables[OF t]
  have k: "keyed (threads d)" "keyed (messages d)" "keyed (recon_runs d)" "keyed (calls d)" "keyed (extractions d)"
    using ok by (auto simp: recon_ok_def)
  have th: "row (threads e) x = (if x = i then None else row (threads d) x)" for x
    by (simp add: tables row_delete_where k split: option.split)
  have ms: "row (messages e) x = Some m \<longleftrightarrow> row (messages d) x = Some m \<and> ms_thread m \<noteq> i" for x m
    by (simp add: tables row_delete_where k split: option.split) blast
  have rs: "row (recon_runs e) x = Some r \<longleftrightarrow> row (recon_runs d) x = Some r \<and> rn_thread r \<noteq> i" for x r
    by (simp add: tables row_delete_where k split: option.split) blast
  have gone: "m \<in> set (messages_of d i) \<longleftrightarrow> (\<exists>x. row (messages d) m = Some x \<and> ms_thread x = i)" for m
    by (simp add: messages_of_def ids_where_iff k)
  have kept: "\<exists>y. row (messages e) m = Some y" if "row (messages d) m \<noteq> None" "m \<notin> set (messages_of d i)" for m
    using that by (auto simp: ms gone)
  show ?thesis unfolding recon_ok_def
  proof (intro conjI)
    show "keyed (threads e)" "keyed (messages e)" "keyed (recon_runs e)" "keyed (calls e)" "keyed (extractions e)"
      by (auto simp: tables k drop_uncited_calls_def detach_calls_def cancel_open_calls_def detach_sources_def)
    show "\<forall>(k, m) \<in> set (messages e). row (threads e) (ms_thread m) \<noteq> None"
      using ok by (auto simp: recon_ok_def th tables(3) delete_where_def)
    show "distinct (map (\<lambda>(k, m). (ms_thread m, ms_sequence m)) (messages e))"
      using ok by (simp add: recon_ok_def tables(3) delete_where_def distinct_map_filter)
    show "\<forall>(k, r) \<in> set (recon_runs e). row (threads e) (rn_thread r) \<noteq> None"
      using ok by (auto simp: recon_ok_def th tables(4) delete_where_def)
    show "\<forall>(m, c) \<in> set (evidence e). row (messages e) m \<noteq> None"
      using ok kept by (fastforce simp: recon_ok_def tables(5))
    show "\<forall>((m, x), n) \<in> set (message_memories e). row (messages e) m \<noteq> None"
      using ok kept by (fastforce simp: recon_ok_def tables(6))
    show "\<forall>(t, en, c) \<in> set (thread_entities e). row (threads e) t \<noteq> None"
      using ok by (auto simp: recon_ok_def th tables(7))
    show "\<forall>(k, j) \<in> set (extractions e). \<exists>m r. row (messages e) k = Some m \<and> row (recon_runs e) (ex_run j) = Some r
          \<and> ms_run m = Some (ex_run j) \<and> rn_thread r = ms_thread m"
    proof clarify
      fix k j assume "(k, j) \<in> set (extractions e)"
      then have j: "(k, j) \<in> set (extractions d)" "ex_run j \<notin> set (runs_of d i)" by (auto simp: tables(8) delete_where_def)
      with ok obtain m r where mr: "row (messages d) k = Some m" "row (recon_runs d) (ex_run j) = Some r"
        "ms_run m = Some (ex_run j)" "rn_thread r = ms_thread m" by (fastforce simp: recon_ok_def)
      with j(2) have "rn_thread r \<noteq> i" by (auto simp: runs_of_def ids_where_iff k)
      with mr show "\<exists>m r. row (messages e) k = Some m \<and> row (recon_runs e) (ex_run j) = Some r
          \<and> ms_run m = Some (ex_run j) \<and> rn_thread r = ms_thread m" by (auto simp: ms rs)
    qed
  qed
qed

section \<open>Answers and messages\<close>

lemma keep_append:
  assumes "recon_ok d" and a: "append_message i m d = Inr (n, e)"
  shows "recon_ok e"
proof -
  note m = append_message_Inr[OF a]
  have "recon_ok (d\<lparr>messages := messages d @ [(i, m\<lparr>ms_sequence := n\<rparr>)]\<rparr>)"
    by (rule keep_message) (use assms(1) m in auto)
  then show ?thesis
    by (rule recon_ok_same) (use assms(1) in \<open>simp_all add: m(5) shape_def recon_ok_def\<close>)
qed

lemma shape_touch [simp]: "shape (touch_thread t now d) = shape d"
  by (simp add: touch_thread_def shape_updates)

lemma touch_frame [simp]:
  "calls (touch_thread t now d) = calls d" "messages (touch_thread t now d) = messages d"
  "recon_runs (touch_thread t now d) = recon_runs d" "evidence (touch_thread t now d) = evidence d"
  by (simp_all add: touch_thread_def)

lemma keep_cite: "recon_ok d \<Longrightarrow> row (messages d) m \<noteq> None \<Longrightarrow> recon_ok (cite_memories m k xs d)"
  by (rule exE[OF cite_memories_eq[of m k xs d]]) (elim conjE, simp, rule keep_memories[where M = "{m}"], auto)

lemma keep_linked:
  assumes "recon_ok d" and "link_evidence_in m cs d = Inr ((), e)" shows "recon_ok e"
proof -
  from link_evidence_Inr[OF assms(2)] obtain ev where ev: "e = d\<lparr>evidence := ev\<rparr>"
    "set ev = set (evidence d) \<union> Pair m ` set cs" "cs \<noteq> [] \<longrightarrow> row (messages d) m \<noteq> None" by blast
  show ?thesis unfolding ev(1) by (rule keep_evidence[OF assms(1)]) (use ev in auto)
qed


lemma add_answer_parts:
  assumes "add_answer now m t run content cited mems d = Inr (n, e)"
  obtains d1 d2 where "run_active run t d"
    "append_message m \<lparr>ms_thread = t, ms_sequence = 0, ms_role = ''assistant'', ms_content = content, ms_run = Some run,
       ms_created = now\<rparr> d = Inr (n, d1)"
    "link_evidence_in m cited d1 = Inr ((), d2)"
    "e = complete_stage now run (touch_thread t now (finalize_synthesis now m run (queue_extraction now m run
       (cite_memories m 0 mems d2))))"
  using assms by (auto simp: add_answer_def split: if_splits sum.splits)

lemma finalize_frame [simp]:
  "shape (finalize_synthesis now m run d) = shape d" "calls (finalize_synthesis now m run d) = calls d"
  "messages (finalize_synthesis now m run d) = messages d" "evidence (finalize_synthesis now m run d) = evidence d"
  "recon_runs (finalize_synthesis now m run d) = recon_runs d"
  by (simp_all add: finalize_synthesis_def shape_fields split: option.split)

lemma complete_frame [simp]:
  "shape (complete_stage now run d) = shape d" "calls (complete_stage now run d) = calls d"
  "messages (complete_stage now run d) = messages d" "evidence (complete_stage now run d) = evidence d"
  by (simp_all add: complete_stage_def shape_updates)

lemma cite_frame [simp]:
  "calls (cite_memories m k xs d) = calls d" "messages (cite_memories m k xs d) = messages d"
  "evidence (cite_memories m k xs d) = evidence d" "recon_runs (cite_memories m k xs d) = recon_runs d"
  "threads (cite_memories m k xs d) = threads d"
  using cite_memories_eq[of m k xs d] by auto

lemma queue_frame [simp]:
  "calls (queue_extraction now m run d) = calls d" "messages (queue_extraction now m run d) = messages d"
  "evidence (queue_extraction now m run d) = evidence d" "recon_runs (queue_extraction now m run d) = recon_runs d"
  by (simp_all add: queue_extraction_def)

lemma keep_answer:
  assumes ok: "recon_ok d" and a: "add_answer now m t run content cited mems d = Inr (n, e)"
  shows "recon_ok e"
proof -
  obtain d1 d2 where act: "run_active run t d" and
    app: "append_message m \<lparr>ms_thread = t, ms_sequence = 0, ms_role = ''assistant'', ms_content = content,
       ms_run = Some run, ms_created = now\<rparr> d = Inr (n, d1)" and
    link: "link_evidence_in m cited d1 = Inr ((), d2)" and
    e: "e = complete_stage now run (touch_thread t now (finalize_synthesis now m run (queue_extraction now m run
       (cite_memories m 0 mems d2))))"
    by (rule add_answer_parts[OF a])
  from act obtain r where r: "row (recon_runs d) run = Some r" "rn_thread r = t"
    by (auto simp: run_active_def split: option.splits)
  have d1: "d1 = d\<lparr>sequences := (sequences d)(t \<mapsto> n), messages := messages d @ [(m, \<lparr>ms_thread = t, ms_sequence = n,
      ms_role = ''assistant'', ms_content = content, ms_run = Some run, ms_created = now\<rparr>)]\<rparr>"
    and new: "row (messages d) m = None"
    using append_message_Inr[OF app] by simp_all
  from link_evidence_Inr[OF link] obtain ev where d2: "d2 = d1\<lparr>evidence := ev\<rparr>" by blast
  have msg: "row (messages d2) m = Some \<lparr>ms_thread = t, ms_sequence = n, ms_role = ''assistant'', ms_content = content,
      ms_run = Some run, ms_created = now\<rparr>"
    using new by (simp add: d2 d1 map_add_def)
  have "recon_ok (cite_memories m 0 mems d2)"
    using msg by (intro keep_cite keep_linked[OF keep_append[OF ok app] link]) auto
  then have "recon_ok (queue_extraction now m run (cite_memories m 0 mems d2))"
    by (rule keep_extraction[where r = r and x = "\<lparr>ms_thread = t, ms_sequence = n, ms_role = ''assistant'',
          ms_content = content, ms_run = Some run, ms_created = now\<rparr>"]) (use msg r in \<open>simp_all add: d2 d1\<close>)
  then show ?thesis unfolding e by (rule recon_ok_same) (use ok in \<open>simp_all add: d2 d1 recon_ok_def\<close>)
qed

lemma keep_add_message:
  assumes ok: "recon_ok d" and a: "add_message now i t role content run d = Inr (n, e)"
  shows "recon_ok e"
proof -
  from a obtain d1 where app: "append_message i \<lparr>ms_thread = t, ms_sequence = 0, ms_role = role, ms_content = content,
      ms_run = run, ms_created = now\<rparr> d = Inr (n, d1)" and e: "e = touch_thread t now d1"
    by (auto simp: add_message_def split: if_splits sum.splits)
  from keep_append[OF ok app] show ?thesis unfolding e by (rule recon_ok_same) (use keep_append[OF ok app] in \<open>simp_all add: recon_ok_def\<close>)
qed

lemma keep_link_memories:
  assumes ok: "recon_ok d" and a: "link_message_memories m mems d = Inr ((), e)"
  shows "recon_ok e"
proof -
  let ?d = "d\<lparr>message_memories := filter (\<lambda>((k, _), _). k \<noteq> m) (message_memories d)\<rparr>"
  have kept: "recon_ok ?d" by (rule keep_memories[OF ok, where M = "{}"]) auto
  from create_memory_links_Inr[OF a[unfolded link_message_memories_def]] obtain mm where mm: "e = ?d\<lparr>message_memories := mm\<rparr>"
    "fst ` fst ` set mm \<subseteq> fst ` fst ` set (message_memories ?d) \<union> {m}" "mems \<noteq> [] \<longrightarrow> row (messages ?d) m \<noteq> None" by blast
  show ?thesis
  proof (cases "mems = []")
    case True
    with a kept show ?thesis by (simp add: link_message_memories_def)
  next
    case False
    show ?thesis unfolding mm(1) by (rule keep_memories[OF kept mm(2)]) (use mm(3) False in auto)
  qed
qed

lemma ensure_entity_eq: "\<exists>g. snd (ensure_recon_entity_in i en d) = d\<lparr>recon_entities := g\<rparr>"
  by (cases "fst (ensure_recon_entity_in i en d)")
     (auto simp: ensure_recon_entity_in_def intro: exI[of _ "recon_entities d"])

lemma keep_link_entity:
  assumes ok: "recon_ok d" and a: "link_entity t kind canonical source d = Inr ((), e)"
  shows "recon_ok e"
proof -
  let ?i = "kind @ '':'' @ canonical"
  define x where "x = (?i, case source of None \<Rightarrow> [] | Some c \<Rightarrow> c)"
  from ensure_entity_eq[of ?i "\<lparr>en_kind = kind, en_namespace = [], en_canonical = canonical, en_label = canonical\<rparr>" d]
  obtain g where "snd (ensure_recon_entity_in ?i \<lparr>en_kind = kind, en_namespace = [], en_canonical = canonical,
      en_label = canonical\<rparr> d) = d\<lparr>recon_entities := g\<rparr>" by blast
  with a have g: "row (threads d) t \<noteq> None"
    "e = d\<lparr>recon_entities := g, thread_entities := List.insert (t, x) (thread_entities d)\<rparr>"
    by (simp_all add: link_entity_def Let_def x_def split: if_splits)
  have "recon_ok (d\<lparr>thread_entities := List.insert (t, x) (thread_entities d)\<rparr>)"
    by (rule keep_entities[OF ok g(1)])
  then show ?thesis unfolding g(2) by (rule recon_ok_same) (use ok in \<open>simp_all add: shape_def recon_ok_def\<close>)
qed


lemma keep_same: "recon_ok d \<Longrightarrow> shape e = shape d \<Longrightarrow> (keyed (calls d) \<Longrightarrow> keyed (calls e)) \<Longrightarrow> recon_ok e"
  by (simp add: recon_ok_iff)

lemma recon_step_ok: "recon_step d e \<Longrightarrow> recon_ok d \<Longrightarrow> recon_ok e"
proof (induction rule: recon_step.induct)
  case (st_new_thread trim now i title d x e)
  then show ?case by (auto simp: new_thread_def Let_def intro: keep_put_thread split: option.splits)
next
  case (st_put_thread i r d x e)
  then show ?case by (auto simp: put_thread_def intro: keep_put_thread)
next
  case (st_put_message i m d x e)
  then show ?case by (auto simp: put_message_def create_message_Inr intro!: keep_message)
next
  case (st_add_message now i t role content run d x e)
  then show ?case by (blast intro: keep_add_message)
next
  case (st_memories m mems d x e)
  then show ?case using keep_link_memories by auto
next
  case (st_evidence m cited d x e)
  then show ?case using keep_linked by auto
next
  case (st_link_entity t kind canonical source d x e)
  then show ?case using keep_link_entity by auto
next
  case (st_create_run i r d x e)
  then show ?case by (auto simp: create_run_def intro!: keep_run split: if_splits)
next
  case (st_answer now m t run content cited mems d x e)
  then show ?case by (blast intro: keep_answer)
next
  case (st_delete now i d x e)
  then show ?case by (blast intro: keep_delete)
next
  case (st_set_recall i on d x e)
  then show ?case by - (erule keep_same[of d]; auto simp: shape_fields shape_updates set_recall_insights_def update_live_def split: if_splits)
next
  case (st_rename trim now i title d x e)
  then show ?case by - (erule keep_same[of d]; auto simp: shape_fields shape_updates rename_thread_def update_live_def split: if_splits)
next
  case (st_save_draft d i draft scroll)
  then show ?case by - (erule keep_same[of d]; auto simp: shape_fields shape_updates save_draft_def update_live_def split: if_splits)
next
  case (st_select d i)
  then show ?case by - (erule keep_same[of d]; auto simp: shape_fields)
next
  case (st_set_run now i state stage plan err d x e)
  then show ?case by - (erule keep_same[of d]; auto simp: shape_fields shape_updates set_run_def update_run_def split: if_splits)
next
  case (st_cancel now i d x e)
  then show ?case by - (erule keep_same[of d]; auto simp: shape_fields shape_updates cancel_run_def transition_def update_run_def split: if_splits)
next
  case (st_restart now i d x e)
  then show ?case by - (erule keep_same[of d]; auto simp: shape_fields shape_updates restart_run_def transition_def update_run_def split: if_splits)
next
  case (st_queue_call known now i tool inputs origin run t turn d x e)
  then show ?case by - (erule keep_same[of d]; auto simp: shape_fields shape_updates queue_call_def split: if_splits)
next
  case (st_finish_call now i res d x e)
  then show ?case by - (erule keep_same[of d]; auto simp: shape_fields shape_updates finish_call_def update_call_def split: if_splits)
next
  case (st_attach i t d x e)
  then show ?case by - (erule keep_same[of d]; auto simp: shape_fields shape_updates attach_update_def update_call_def split: if_splits)
next
  case (st_settle now run status d x e)
  then show ?case by - (erule keep_same[of d]; auto simp: shape_fields shape_updates settle_open_calls_def split: if_splits)
next
  case (st_cache d now key res ttl)
  then show ?case by - (erule keep_same[of d]; auto simp: shape_fields shape_updates cache_put_def split: if_splits)
next
  case (st_entity i en d x e)
  then show ?case by - (erule keep_same[of d]; auto simp: shape_fields shape_updates ensure_recon_entity_in_def split: if_splits)
next
  case (st_tool known i on d x e)
  then show ?case by - (erule keep_same[of d]; auto simp: shape_fields shape_updates set_tool_enabled_def split: if_splits)
next
  case (st_interrupt_runs now d x e)
  then show ?case by - (erule keep_same[of d]; auto simp: shape_fields shape_updates interrupt_runs_def split: if_splits)
next
  case (st_interrupt_calls d now)
  then show ?case by - (erule keep_same[of d]; auto simp: shape_fields shape_updates interrupt_calls_def split: if_splits)
next
  case (st_requeue d now)
  then show ?case by - (erule keep_same[of d]; auto simp: shape_fields shape_updates requeue_extractions_def split: if_splits)
next
  case (st_begin_op d now k run task role g draft)
  then show ?case by - (erule keep_same[of d]; auto simp: shape_fields shape_updates begin_operation_def Let_def split: if_splits)
next
  case (st_op_draft d now k draft)
  then show ?case by - (erule keep_same[of d]; auto simp: shape_fields shape_updates set_operation_draft_def split: if_splits)
next
  case (st_finish_op d now k status m)
  then show ?case by - (erule keep_same[of d]; auto simp: shape_fields shape_updates finish_operation_def split: if_splits)
next
  case (st_run_drafts d now run role draft)
  then show ?case by - (erule keep_same[of d]; auto simp: shape_fields shape_updates set_run_drafts_def split: if_splits)
next
  case (st_strategy now k t run kind why previous reason d x e)
  then show ?case by - (erule keep_same[of d]; auto simp: shape_fields shape_updates record_strategy_def split: if_splits)
next
  case (st_extraction d now m state)
  then show ?case by - (erule keep_same[of d]; auto simp: shape_fields shape_updates set_extraction_state_def split: if_splits)
next
  case (st_relink d run m)
  then show ?case by - (erule keep_same[of d]; auto simp: shape_fields shape_updates relink_sources_def Let_def split: if_splits)
next
  case (st_elsewhere d mi ow ins dl de am nr nf na si)
  then show ?case by - (erule keep_same[of d]; auto simp: shape_fields)
qed


lemma empty_recon_ok: "empty_recon d \<Longrightarrow> recon_ok d"
  by (simp add: empty_recon_def recon_ok_def)

interpretation rs: step_system empty_recon recon_step recon_ok
  by unfold_locales (auto intro: empty_recon_ok recon_step_ok)

section \<open>What a run, a call and a message keep\<close>

definition run_kept :: "run_row \<Rightarrow> run_row \<Rightarrow> bool" where
  "run_kept r r' \<longleftrightarrow> rn_thread r' = rn_thread r \<and> rn_turn r' = rn_turn r \<and> rn_created r' = rn_created r
     \<and> rn_max_rounds r' = rn_max_rounds r \<and> rn_max_calls r' = rn_max_calls r \<and> rn_turn_seconds r' = rn_turn_seconds r
     \<and> (rn_state r \<in> set [''cancelled'', ''deleted''] \<longrightarrow> r' = r)"

definition call_kept :: "call_row \<Rightarrow> call_row \<Rightarrow> bool" where
  "call_kept c c' \<longleftrightarrow> ca_tool c' = ca_tool c \<and> ca_inputs c' = ca_inputs c \<and> ca_origin c' = ca_origin c
     \<and> ca_started c' = ca_started c \<and> (\<not> open_call c \<longrightarrow> ca_status c' = ca_status c \<and> ca_attempts c' = ca_attempts c
        \<and> ca_result c' = ca_result c \<and> ca_completed c' = ca_completed c)"

lemma kept_simps [simp]: "run_kept r r" "call_kept c c"
  by (simp_all add: run_kept_def call_kept_def)

lemma run_kept_trans: "run_kept r s \<Longrightarrow> run_kept s u \<Longrightarrow> run_kept r u"
  by (auto simp: run_kept_def)

lemma call_kept_trans: "call_kept c d \<Longrightarrow> call_kept d e \<Longrightarrow> call_kept c e"
  by (auto simp: call_kept_def open_call_def)

lemma update_where_kept:
  assumes "row t i = Some r" and "row (update_where P f t) i = Some r'" and "P i r \<Longrightarrow> R r (f r)" and "R r r"
  shows "R r r'"
  using assms by (auto split: if_splits)

text \<open>The operations on messages and links leave the runs and calls alone.\<close>

lemma message_frame:
  "add_message now i t role content run d = Inr (n, e) \<Longrightarrow> recon_runs e = recon_runs d \<and> calls e = calls d"
  "link_message_memories m mems d = Inr (u, e) \<Longrightarrow> recon_runs e = recon_runs d \<and> calls e = calls d \<and> messages e = messages d"
  "link_evidence_in m cs d = Inr (u, e) \<Longrightarrow> recon_runs e = recon_runs d \<and> calls e = calls d \<and> messages e = messages d"
  "link_entity t kind canonical source d = Inr (u, e) \<Longrightarrow> recon_runs e = recon_runs d \<and> calls e = calls d \<and> messages e = messages d"
proof -
  show "add_message now i t role content run d = Inr (n, e) \<Longrightarrow> recon_runs e = recon_runs d \<and> calls e = calls d"
    by (auto simp: add_message_def dest!: append_message_Inr split: if_splits sum.splits)
  show "link_message_memories m mems d = Inr (u, e) \<Longrightarrow> recon_runs e = recon_runs d \<and> calls e = calls d \<and> messages e = messages d"
    by (auto simp: link_message_memories_def dest!: create_memory_links_Inr)
  show "link_evidence_in m cs d = Inr (u, e) \<Longrightarrow> recon_runs e = recon_runs d \<and> calls e = calls d \<and> messages e = messages d"
    by (auto dest!: link_evidence_Inr)
  show "link_entity t kind canonical source d = Inr (u, e) \<Longrightarrow> recon_runs e = recon_runs d \<and> calls e = calls d \<and> messages e = messages d"
    by (auto simp: link_entity_def Let_def ensure_recon_entity_in_def split: if_splits)
qed

lemma answer_frame:
  assumes "add_answer now m t run content cited mems d = Inr (n, e)"
  shows "calls e = calls d" "recon_runs e = recon_runs (complete_stage now run d)"
    "messages e = messages d @ [(m, \<lparr>ms_thread = t, ms_sequence = n, ms_role = ''assistant'', ms_content = content,
       ms_run = Some run, ms_created = now\<rparr>)]"
proof -
  obtain d1 d2 where app: "append_message m \<lparr>ms_thread = t, ms_sequence = 0, ms_role = ''assistant'', ms_content = content,
       ms_run = Some run, ms_created = now\<rparr> d = Inr (n, d1)" and
    link: "link_evidence_in m cited d1 = Inr ((), d2)" and
    e: "e = complete_stage now run (touch_thread t now (finalize_synthesis now m run (queue_extraction now m run
       (cite_memories m 0 mems d2))))"
    by (rule add_answer_parts[OF assms])
  note d1 = append_message_Inr(5)[OF app]
  note d2 = message_frame(3)[OF link]
  show "calls e = calls d" "messages e = messages d @ [(m, \<lparr>ms_thread = t, ms_sequence = n, ms_role = ''assistant'',
       ms_content = content, ms_run = Some run, ms_created = now\<rparr>)]"
    by (simp_all add: e d2 d1)
  show "recon_runs e = recon_runs (complete_stage now run d)"
    by (simp add: e d2 d1 complete_stage_def)
qed


section \<open>Every step keeps runs, calls and messages\<close>

lemmas recon_ops =
  attach_update_def begin_operation_def cache_put_def cancel_run_def create_run_def ensure_recon_entity_in_def
  finish_call_def finish_operation_def interrupt_calls_def interrupt_runs_def new_thread_def put_thread_def
  queue_call_def record_strategy_def relink_sources_def rename_thread_def requeue_extractions_def restart_run_def
  save_draft_def set_extraction_state_def set_operation_draft_def set_recall_insights_def set_run_def
  set_run_drafts_def set_tool_enabled_def settle_open_calls_def transition_def update_call_def update_live_def
  update_run_def

lemma step_runs:
  assumes "recon_step d e" and ok: "recon_ok d" and r: "row (recon_runs d) j = Some r" "row (recon_runs e) j = Some r'"
  shows "run_kept r r'"
  using assms(1) ok r
proof (induction rule: recon_step.induct)
  case (st_delete now i d x e)
  show ?case
  proof (cases x)
    case False
    with st_delete show ?thesis by (auto simp: delete_thread_in_def Let_def split: if_splits)
  next
    case True
    with st_delete have "row (delete_where (\<lambda>_ r. rn_thread r = i) (recon_runs d)) j = Some r'"
      by (simp add: delete_thread_tables(4))
    with st_delete show ?thesis by (auto simp: row_delete_where recon_ok_def split: if_splits)
  qed
next
  case (st_answer now m t run content cited mems d x e)
  then show ?case by (auto simp: answer_frame complete_stage_def run_kept_def split: if_splits)
next
  case (st_new_thread trim now i title d x e)
  then show ?case by (auto simp: new_thread_def Let_def split: option.splits)
next
  case (st_finish_call now i res d x e)
  then show ?case by (auto simp: finish_call_def update_call_def split: if_splits)
qed (auto simp: recon_ops put_message_def create_message_Inr Let_def run_kept_def dest: message_frame split: if_splits)

lemma step_calls:
  assumes "recon_step d e" and ok: "recon_ok d" and c: "row (calls d) j = Some c" "row (calls e) j = Some c'"
  shows "call_kept c c'"
  using assms(1) ok c
proof (induction rule: recon_step.induct)
  case (st_delete now i d x e)
  show ?case
  proof (cases x)
    case False
    with st_delete show ?thesis by (auto simp: delete_thread_in_def Let_def split: if_splits)
  next
    case True
    with st_delete have "row (calls (drop_uncited_calls (detach_calls i (cancel_open_calls i (detach_sources i d))))) j = Some c'"
      by (simp add: delete_thread_tables(15))
    with st_delete show ?thesis
      by (auto simp: drop_uncited_calls_def row_delete_where recon_ok_def detach_calls_def cancel_open_calls_def
          detach_sources_def call_kept_def split: if_splits)
  qed
next
  case (st_answer now m t run content cited mems d x e)
  then show ?case by (simp add: answer_frame)
next
  case (st_new_thread trim now i title d x e)
  then show ?case by (auto simp: new_thread_def Let_def split: option.splits)
next
  case (st_finish_call now i res d x e)
  then show ?case by (auto simp: finish_call_def update_call_def call_kept_def open_call_def split: if_splits)
qed (auto simp: recon_ops put_message_def create_message_Inr Let_def call_kept_def open_call_def dest: message_frame split: if_splits)

lemma step_messages:
  assumes "recon_step d e" and ok: "recon_ok d" and m: "(j, m) \<in> set (messages d)" "row (threads e) (ms_thread m) \<noteq> None"
  shows "(j, m) \<in> set (messages e)"
  using assms(1) ok m
proof (induction rule: recon_step.induct)
  case (st_delete now i d x e)
  show ?case
  proof (cases x)
    case False
    with st_delete show ?thesis by (auto simp: delete_thread_in_def Let_def split: if_splits)
  next
    case True
    with st_delete have t: "threads e = delete_where (\<lambda>k _. k = i) (threads d)"
      "messages e = delete_where (\<lambda>_ m. ms_thread m = i) (messages d)" by (simp_all add: delete_thread_tables)
    have "keyed (threads d)" using st_delete by (simp add: recon_ok_def)
    with st_delete t show ?thesis by (auto simp: row_delete_where delete_where_def[of _ "messages d"] split: option.splits)
  qed
next
  case (st_answer now m t run content cited mems d x e)
  then show ?case by (simp add: answer_frame)
next
  case (st_add_message now i t role content run d x e)
  then show ?case by (auto simp: add_message_def dest!: append_message_Inr split: if_splits sum.splits)
next
  case (st_new_thread trim now i title d x e)
  then show ?case by (auto simp: new_thread_def Let_def split: option.splits)
next
  case (st_finish_call now i res d x e)
  then show ?case by (auto simp: finish_call_def update_call_def split: if_splits)
qed (auto simp: recon_ops put_message_def create_message_Inr Let_def dest: message_frame split: if_splits)


section \<open>Conversations\<close>

lemma thread_messages_strict:
  assumes "recon_ok d"
  shows "sorted_wrt (<) (map (ms_sequence \<circ> snd) (list_messages t d))"
proof -
  have "distinct (map (\<lambda>(k, m). (ms_thread m, ms_sequence m)) (filter (\<lambda>(_, m). ms_thread m = t) (messages d)))"
    using assms by (simp add: recon_ok_def distinct_map_filter)
  then have "inj_on (\<lambda>(k, m). (ms_thread m, ms_sequence m)) (set (filter (\<lambda>(_, m). ms_thread m = t) (messages d)))"
    and dist: "distinct (filter (\<lambda>(_, m). ms_thread m = t) (messages d))" by (simp_all add: distinct_map)
  then have "inj_on (ms_sequence \<circ> snd) (set (filter (\<lambda>(_, m). ms_thread m = t) (messages d)))"
    by (auto simp: inj_on_def)
  with dist have "distinct (map (ms_sequence \<circ> snd) (list_messages t d))"
    by (simp add: list_messages_def distinct_map)
  then show ?thesis by (simp add: strict_sorted_iff list_messages_def)
qed

lemma set_list_messages [simp]: "set (list_messages t d) = {(k, m) \<in> set (messages d). ms_thread m = t}"
  by (auto simp: list_messages_def)

lemma insort_below: "f x < f y \<Longrightarrow> insort_key f x (zs @ [y]) = insort_key f x zs @ [y]" for f :: "'a \<Rightarrow> int"
  by (induction zs) auto

lemma append_last:
  "(\<And>x. x \<in> set xs \<Longrightarrow> f x < f y) \<Longrightarrow> sort_key f (xs @ [y]) = sort_key f xs @ [y]" for f :: "'a \<Rightarrow> int"
  by (induction xs) (auto simp: insort_below)

lemma messages_appended:
  assumes "\<And>s. s \<in> set (thread_sequences d (ms_thread m)) \<Longrightarrow> s < ms_sequence m" and "messages e = messages d @ [(i, m)]"
  shows "list_messages t e = list_messages t d @ (if ms_thread m = t then [(i, m)] else [])"
proof (cases "ms_thread m = t")
  case True
  have "(ms_sequence \<circ> snd) x < (ms_sequence \<circ> snd) (i, m)" if "x \<in> set (filter (\<lambda>(_, m). ms_thread m = t) (messages d))" for x
    using assms(1) that True by (force simp: thread_sequences_def)
  from append_last[of "filter (\<lambda>(_, m). ms_thread m = t) (messages d)" "ms_sequence \<circ> snd" "(i, m)", OF this] True show ?thesis
    by (simp add: list_messages_def assms(2))
qed (simp add: list_messages_def assms(2))

lemma cite_memories_set:
  "{x. (m, x) \<in> fst ` set (message_memories (cite_memories m k xs d))}
     = {x. (m, x) \<in> fst ` set (message_memories d)} \<union> set xs \<inter> set (memory_ids d)"
proof (induction xs arbitrary: k d)
  case (Cons x xs)
  have "memory_ids (put_memory_link m x k d) = memory_ids d" by (simp add: put_memory_link_def)
  then show ?case using Cons.IH by (auto simp: put_memory_link_def dom_update)
qed simp

end
