(* ===== verification/Recon_Properties.thy ===== *)
theory Recon_Properties
  imports Recon_System
begin

text \<open>
  What the store of Recon investigations guarantees: its tables in every reachable state, what a
  conversation, a run and a tool call keep however the operations interleave, what the final answer
  writes, what the deletion of a thread leaves, and what its separate queries allow.
\<close>

section \<open>Every reachable state\<close>

text \<open>C26: what the tables of Recon investigations guarantee: in every state the operations of the store can reach,
  the ids of threads, messages, runs, calls and extraction jobs are unique; every message, run and entity
  link belongs to an existing thread; no two messages of a thread share a sequence number; every row of
  cited evidence and of linked memories belongs to an existing message; and every extraction job belongs to
  an answer of its run, in the thread of that run. These are all the references that never dangle: a call
  may outlive its thread (\<open>attached_to_deleted_thread\<close>), cited evidence its call
  (\<open>evidence_of_deleted_call\<close>), and operations, strategies and the source of an entity link are never
  checked (\<open>unchecked_references\<close>).\<close>

theorem recon_tables:
  assumes "empty_recon s" and "run_of recon_step s d"
  shows "recon_ok d"
  using assms by (rule rs.inv_reachable)

text \<open>C27: a conversation only grows: while a thread exists every message stays in it unchanged,
  whatever the other operations do, and its messages are always in strictly increasing order.\<close>

theorem transcript_kept:
  assumes "empty_recon s" and "run_of recon_step s d"
    and "run_of (\<lambda>a b. recon_step a b \<and> row (threads b) k \<noteq> None) d e"
  shows "set (list_messages k d) \<subseteq> set (list_messages k e)
    \<and> sorted_wrt (<) (map (ms_sequence \<circ> snd) (list_messages k e))"
proof (intro conjI)
  have ok: "recon_ok d" using assms(1,2) by (rule rs.inv_reachable)
  have "run_of recon_step d e" using assms(3) by (rule run_of_mono[rotated]) simp
  then have "recon_ok e" using ok by (rule rs.inv_run)
  then show "sorted_wrt (<) (map (ms_sequence \<circ> snd) (list_messages k e))" by (rule thread_messages_strict)
  show "set (list_messages k d) \<subseteq> set (list_messages k e)" using assms(3) ok
  proof (induction rule: run_of.induct)
    case (run_step s t u)
    have "run_of recon_step s t" using run_step.hyps(1) by (rule run_of_mono[rotated]) simp
    then have "recon_ok t" using run_step.prems by (rule rs.inv_run)
    with run_step.hyps(2) have "set (list_messages k t) \<subseteq> set (list_messages k u)" by (auto dest: step_messages)
    with run_step.IH[OF run_step.prems] show ?case by blast
  qed simp
qed

text \<open>C28: a cancelled run is final and a tool call is settled once: while its row exists, a cancelled
  (or deleted) run is never changed again, and a call that is no longer queued or running keeps its
  status, its result, its attempts and its completion time; tool and inputs of a call, thread, turn and
  limits of a run never change.\<close>

theorem settled_rows_stay:
  assumes "empty_recon s" and "run_of recon_step s d"
    and "run_of (\<lambda>a b. recon_step a b \<and> row (recon_runs b) i \<noteq> None) d e" and "row (recon_runs d) i = Some r"
    and "run_of (\<lambda>a b. recon_step a b \<and> row (calls b) j \<noteq> None) d f" and "row (calls d) j = Some c"
  shows "(\<exists>r'. row (recon_runs e) i = Some r' \<and> run_kept r r')
    \<and> (\<exists>c'. row (calls f) j = Some c' \<and> call_kept c c')"
proof (intro conjI)
  have ok: "recon_ok d" using assms(1,2) by (rule rs.inv_reachable)
  show "\<exists>r'. row (recon_runs e) i = Some r' \<and> run_kept r r'"
    using rs.kept_along[where f = "\<lambda>d. row (recon_runs d) i" and R = run_kept, OF _ _ _ assms(3) ok assms(4)]
    by (blast intro: step_runs run_kept_trans kept_simps)
  show "\<exists>c'. row (calls f) j = Some c' \<and> call_kept c c'"
    using rs.kept_along[where f = "\<lambda>d. row (calls d) j" and R = call_kept, OF _ _ _ assms(5) ok assms(6)]
    by (blast intro: step_calls call_kept_trans kept_simps)
qed

section \<open>The final answer\<close>

lemma row_complete: "row (recon_runs (complete_stage now run d)) k =
    map_option (\<lambda>r. if k = run \<and> rn_state r = ''running'' then r\<lparr>rn_stage := ''complete'', rn_updated := now\<rparr> else r)
      (row (recon_runs d) k)"
  by (simp add: complete_stage_def)

lemma append_grows:
  assumes "append_message i m d = Inr (n, d1)" and "messages e = messages d1"
  shows "list_messages t e = list_messages t d @ (if ms_thread m = t then [(i, m\<lparr>ms_sequence := n\<rparr>)] else [])"
proof -
  have "messages e = messages d @ [(i, m\<lparr>ms_sequence := n\<rparr>)]" using append_message_Inr(5)[OF assms(1)] assms(2) by simp
  from messages_appended[OF _ this] show ?thesis
    using append_message_Inr(1)[OF assms(1)] next_sequence_greater by simp
qed

lemma extraction_queued: "row (extractions (queue_extraction now m run d)) m =
    Some \<lparr>ex_run = run, ex_state = ''queued'', ex_error = None, ex_updated = now\<rparr>"
  by (simp add: queue_extraction_def)

lemma tail_frame:
  "extractions (complete_stage now run d) = extractions d" "extractions (touch_thread t now d) = extractions d"
  "extractions (finalize_synthesis now m run d) = extractions d"
  "message_memories (complete_stage now run d) = message_memories d"
  "message_memories (touch_thread t now d) = message_memories d"
  "message_memories (finalize_synthesis now m run d) = message_memories d"
  "message_memories (queue_extraction now m run d) = message_memories d"
  "operations (complete_stage now run d) = operations d" "operations (touch_thread t now d) = operations d"
  "operations (queue_extraction now m run d) = operations d" "operations (cite_memories m k xs d) = operations d"
  "memory_ids (cite_memories m k xs d) = memory_ids d"
  using cite_memories_eq[of m k xs d]
  by (auto simp: complete_stage_def touch_thread_def finalize_synthesis_def queue_extraction_def split: option.split)

lemma latest_operation_SomeD:
  assumes "latest_operation run role d = Some k"
  shows "\<exists>p. (k, p) \<in> set (operations d) \<and> op_run p = run \<and> op_role p = role"
proof -
  let ?l = "sort_key (\<lambda>(_, p). - op_created p) (filter (\<lambda>(_, p). op_run p = run \<and> op_role p = role) (operations d))"
  from assms obtain p ps where "?l = (k, p) # ps"
    by (auto simp: latest_operation_def split: list.splits)
  then have "(k, p) \<in> set ?l" by simp
  then show ?thesis by auto
qed

lemma finalize_final:
  assumes "latest_operation run ''synthesis'' d \<noteq> None"
  shows "has_final_answer_for_run run (finalize_synthesis now m run d)"
proof -
  obtain k where k: "latest_operation run ''synthesis'' d = Some k" using assms by blast
  from latest_operation_SomeD[OF k] obtain p where p: "(k, p) \<in> set (operations d)" "op_run p = run" "op_role p = ''synthesis''"
    by blast
  have q: "(k, p\<lparr>op_status := ''final'', op_final := Some m, op_updated := now\<rparr>) \<in> set (operations (finalize_synthesis now m run d))"
    using p(1) by (simp add: finalize_synthesis_def k set_update_where) (rule image_eqI[of _ _ "(k, p)"], simp_all)
  show ?thesis unfolding has_final_answer_for_run_def list_ex_iff by (rule bexI[OF _ q]) (simp add: p)
qed

text \<open>C29: \<open>add_answer\<close> commits only for a running run of that live thread, and then the answer is the
  last message of the thread and of no other; it cites exactly the given calls, which all exist, and the
  given memories that are still stored; its extraction job is queued, the run's stage is complete, and a
  run that streamed a synthesis now has a final answer.\<close>

theorem answer_appended:
  assumes "empty_recon s" and "run_of recon_step s d" and a: "add_answer now m t run content cited mems d = Inr (n, e)"
  shows "run_active run t d
    \<and> list_messages t e = list_messages t d @ [(m, \<lparr>ms_thread = t, ms_sequence = n, ms_role = ''assistant'',
         ms_content = content, ms_run = Some run, ms_created = now\<rparr>)]
    \<and> (\<forall>u. u \<noteq> t \<longrightarrow> list_messages u e = list_messages u d)
    \<and> {c. (m, c) \<in> set (evidence e)} = set cited \<and> set cited \<subseteq> fst ` set (calls e)
    \<and> {x. (m, x) \<in> fst ` set (message_memories e)} = set mems \<inter> set (memory_ids d)
    \<and> extraction_state m e = Some ''queued'' \<and> map_option rn_stage (row (recon_runs e) run) = Some ''complete''
    \<and> (latest_operation run ''synthesis'' d \<noteq> None \<longrightarrow> has_final_answer_for_run run e)"
proof -
  have ok: "recon_ok d" using assms(1,2) by (rule rs.inv_reachable)
  let ?m = "\<lparr>ms_thread = t, ms_sequence = 0, ms_role = ''assistant'', ms_content = content, ms_run = Some run, ms_created = now\<rparr>"
  obtain d1 d2 where act: "run_active run t d" and app: "append_message m ?m d = Inr (n, d1)" and
    link: "link_evidence_in m cited d1 = Inr ((), d2)" and
    e: "e = complete_stage now run (touch_thread t now (finalize_synthesis now m run (queue_extraction now m run
       (cite_memories m 0 mems d2))))"
    by (rule add_answer_parts[OF a])
  note new = append_message_Inr[OF app]
  from link_evidence_Inr[OF link] obtain ev where d2: "d2 = d1\<lparr>evidence := ev\<rparr>"
    and ev: "set ev = set (evidence d1) \<union> Pair m ` set cited" and exist: "\<forall>c \<in> set cited. row (calls d1) c \<noteq> None" by blast
  have msgs: "messages e = messages d1" by (simp add: e d2)
  note grow = append_grows[OF app msgs]
  have fresh: "(m, c) \<notin> set (evidence d)" "((m, c), q) \<notin> set (message_memories d)" for c q
    using ok new(3) by (auto simp: recon_ok_def)
  have cited: "{c. (m, c) \<in> set (evidence e)} = set cited" using fresh ev by (auto simp: e d2 new(5))
  have "set cited \<subseteq> fst ` set (calls e)" using exist by (auto simp: e d2 new(5) map_of_eq_None_iff)
  moreover have "{x. (m, x) \<in> fst ` set (message_memories e)} = set mems \<inter> set (memory_ids d)"
    using fresh(2) by (auto simp: e tail_frame cite_memories_set d2 new(5))
  moreover have "extraction_state m e = Some ''queued''"
    by (simp add: e tail_frame extraction_state_def extraction_queued)
  moreover have "map_option rn_stage (row (recon_runs e) run) = Some ''complete''"
    using act by (auto simp: e row_complete d2 new(5) run_active_def split: option.splits)
  moreover have "has_final_answer_for_run run e" if "latest_operation run ''synthesis'' d \<noteq> None"
    using finalize_final[of run "queue_extraction now m run (cite_memories m 0 mems d2)" now m] that
    by (simp add: e has_final_answer_for_run_def tail_frame latest_operation_def d2 new(5))
  ultimately show ?thesis using act cited grow by simp
qed

section \<open>Deletion\<close>

lemma detach_call_row:
  assumes "keyed (calls d)"
  shows "row (calls (drop_uncited_calls (detach_calls i (cancel_open_calls i (detach_sources i d))))) j = Some c \<Longrightarrow> ca_thread c \<noteq> Some i"
    and "row (calls d) j = Some c \<Longrightarrow> ca_thread c = Some u \<Longrightarrow> u \<noteq> i \<Longrightarrow>
      row (calls (drop_uncited_calls (detach_calls i (cancel_open_calls i (detach_sources i d))))) j = Some c"
  using assms
  by (auto simp: drop_uncited_calls_def row_delete_where detach_calls_def cancel_open_calls_def detach_sources_def
      split: if_splits option.splits)

lemma thread_rows_left:
  assumes "u \<noteq> i"
  shows "filter (\<lambda>(_, m). ms_thread m = u) (delete_where (\<lambda>_ m. ms_thread m = i) ms) = filter (\<lambda>(_, m). ms_thread m = u) ms"
    and "filter (\<lambda>(_, r). rn_thread r = u) (delete_where (\<lambda>_ r. rn_thread r = i) rs) = filter (\<lambda>(_, r). rn_thread r = u) rs"
  using assms by (induction ms) (auto simp: delete_where_def, induction rs, auto simp: delete_where_def)

lemma thread_rows_gone:
  "filter (\<lambda>(_, m). ms_thread m = i) (delete_where (\<lambda>_ m. ms_thread m = i) ms) = []"
  "filter (\<lambda>(_, r). rn_thread r = i) (delete_where (\<lambda>_ r. rn_thread r = i) rs) = []"
  by (auto simp: delete_where_def filter_empty_conv)

definition thread_forgotten :: "string \<Rightarrow> string list \<Rightarrow> recon_db \<Rightarrow> bool" where
  "thread_forgotten i runs e \<longleftrightarrow> row (threads e) i = None \<and> list_messages i e = [] \<and> runs_for_thread i e = []
    \<and> (\<forall>(m, c) \<in> set (evidence e). row (messages e) m \<noteq> None)
    \<and> (\<forall>((m, x), n) \<in> set (message_memories e). row (messages e) m \<noteq> None)
    \<and> (\<forall>(t, x) \<in> set (thread_entities e). t \<noteq> i) \<and> (\<forall>(k, x) \<in> set (strategies e). st_thread x \<noteq> i)
    \<and> (\<forall>(k, j) \<in> set (extractions e). ex_run j \<notin> set runs) \<and> (\<forall>(k, p) \<in> set (operations e). op_run p \<notin> set runs)
    \<and> (\<forall>(k, c) \<in> set (calls e). ca_thread c \<noteq> Some i) \<and> (\<forall>x \<in> set (insight_sources e). is_thread x \<noteq> Some i)
    \<and> sequences e i = None \<and> last_thread_state e \<noteq> Some i"

definition thread_untouched :: "string \<Rightarrow> recon_db \<Rightarrow> recon_db \<Rightarrow> bool" where
  "thread_untouched u d e \<longleftrightarrow> row (threads e) u = row (threads d) u \<and> list_messages u e = list_messages u d
    \<and> runs_for_thread u e = runs_for_thread u d \<and> sequences e u = sequences d u
    \<and> (\<forall>(m, x) \<in> set (list_messages u d). (\<forall>c. (m, c) \<in> set (evidence e) \<longleftrightarrow> (m, c) \<in> set (evidence d))
         \<and> (\<forall>y p. ((m, y), p) \<in> set (message_memories e) \<longleftrightarrow> ((m, y), p) \<in> set (message_memories d)))
    \<and> (\<forall>(k, c) \<in> set (calls d). ca_thread c = Some u \<longrightarrow> (k, c) \<in> set (calls e))"

text \<open>deleting a thread leaves no trace of it: no row of the thread, of its messages, runs, entity links,
  extraction jobs, operations or strategies, no evidence or memory link of its messages, no call, insight
  source, sequence counter or last-opened pointer that names it; and it leaves every other thread alone: the
  row, the conversation, the evidence and memories of each message, the runs and the calls.\<close>

lemma thread_deleted:
  assumes "empty_recon s" and "run_of recon_step s d" and del: "delete_thread_in now i d = Inr (True, e)"
  shows "thread_forgotten i (runs_of d i) e \<and> (\<forall>u. u \<noteq> i \<longrightarrow> thread_untouched u d e)"
proof -
  have ok: "recon_ok d" using assms(1,2) by (rule rs.inv_reachable)
  then have ok': "recon_ok e" using del by (rule keep_delete)
  have k: "keyed (threads d)" "keyed (calls d)" "keyed (messages d)" using ok by (auto simp: recon_ok_def)
  have ke: "keyed (calls e)" using ok' by (simp add: recon_ok_def)
  note t = delete_thread_tables[OF del]
  have th: "row (threads e) u = (if u = i then None else row (threads d) u)" for u
    by (simp add: t row_delete_where k split: option.split)
  have none: "list_messages i e = []" "runs_for_thread i e = []"
    by (simp_all only: list_messages_def runs_for_thread_def t(3,4) thread_rows_gone) simp_all
  have calls_i: "\<forall>(k, c) \<in> set (calls e). ca_thread c \<noteq> Some i"
  proof clarify
    fix j c assume "(j, c) \<in> set (calls e)" and "ca_thread c = Some i"
    with keyed_memD[OF ke] detach_call_row(1)[OF k(2), of i j c] show False by (simp add: t(15))
  qed
  have links: "\<forall>(m, c) \<in> set (evidence e). row (messages e) m \<noteq> None"
    "\<forall>((m, x), n) \<in> set (message_memories e). row (messages e) m \<noteq> None" using ok' by (auto simp: recon_ok_def)
  have rows: "\<forall>(t, x) \<in> set (thread_entities e). t \<noteq> i" "\<forall>(k, x) \<in> set (strategies e). st_thread x \<noteq> i"
    "\<forall>(k, j) \<in> set (extractions e). ex_run j \<notin> set (runs_of d i)" "\<forall>(k, p) \<in> set (operations e). op_run p \<notin> set (runs_of d i)"
    "\<forall>x \<in> set (insight_sources e). is_thread x \<noteq> Some i"
    by (auto simp: t delete_where_def detach_sources_def)
  have "thread_forgotten i (runs_of d i) e"
    unfolding thread_forgotten_def using th none calls_i links rows by (simp add: t(11,12))
  moreover have "thread_untouched u d e" if u: "u \<noteq> i" for u
  proof -
    have "m \<notin> set (messages_of d i)" if "(m, x) \<in> set (messages d)" "ms_thread x = u" for m x
      using that u k(3) by (auto simp: messages_of_def ids_where_iff dest: keyed_memD)
    then have l: "\<forall>(m, x) \<in> set (list_messages u d). (\<forall>c. (m, c) \<in> set (evidence e) \<longleftrightarrow> (m, c) \<in> set (evidence d))
         \<and> (\<forall>y p. ((m, y), p) \<in> set (message_memories e) \<longleftrightarrow> ((m, y), p) \<in> set (message_memories d))"
      by (auto simp: t(5,6))
    have c: "\<forall>(k, c) \<in> set (calls d). ca_thread c = Some u \<longrightarrow> (k, c) \<in> set (calls e)"
    proof clarify
      fix j c assume "(j, c) \<in> set (calls d)" and "ca_thread c = Some u"
      with detach_call_row(2)[OF k(2) _ _ u] keyed_memD[OF k(2)] have "row (calls e) j = Some c" by (simp add: t(15))
      then show "(j, c) \<in> set (calls e)" by (rule map_of_SomeD)
    qed
    show ?thesis unfolding thread_untouched_def using th u l c
      by (simp add: list_messages_def runs_for_thread_def t(3,4,11) thread_rows_left)
  qed
  ultimately show ?thesis by blast
qed

section \<open>Findings\<close>

text \<open>The states of many threads read at once are those read one by one.\<close>

lemma latest_states_agree:
  "map_of (latest_run_states ts d) t = (if t \<in> set ts then latest_run_state t d else None)"
proof -
  have own: "rn_thread r = u" if "latest_run u d = Some (i, r)" for u i r
  proof -
    let ?l = "sort_key (\<lambda>(_, r). - rn_updated r) (filter (\<lambda>(_, r). rn_thread r = u) (recon_runs d))"
    from that obtain xs where "?l = (i, r) # xs" by (auto simp: latest_run_def split: list.splits)
    then have "(i, r) \<in> set ?l" by simp
    then show ?thesis by simp
  qed
  show ?thesis
  proof (induction ts)
    case (Cons u ts)
    show ?case
    proof (cases "latest_run u d")
      case None
      with Cons show ?thesis by (auto simp: latest_run_states_def latest_run_state_def map_filter_simps)
    next
      case (Some x)
      obtain i r where x: "x = (i, r)" by (cases x)
      with Some own have "rn_thread r = u" by simp
      with Some x Cons show ?thesis by (simp add: latest_run_states_def latest_run_state_def map_filter_simps)
    qed
  qed (simp add: latest_run_states_def map_filter_simps)
qed

text \<open>
  \<open>attach_call\<close> checks the thread in one query and writes in another: a deletion in between leaves
  the call filed under a thread that does not exist.
\<close>

lemma attached_to_deleted_thread:
  assumes ok: "recon_ok d" and t: "live d t" and c: "row (calls d) j = Some c" "ca_origin c = ''manual''"
    "ca_status c \<in> set [''completed'', ''no_results'']"
    and del: "delete_thread_in now t d = Inr (True, d')"
  shows "\<exists>e c'. attach_call (\<lambda>_. d') j t d = Inr (True, e) \<and> row (calls e) j = Some c' \<and> ca_thread c' = Some t
    \<and> row (threads e) t = None"
proof -
  have k: "keyed (calls d)" "keyed (threads d)" using ok by (auto simp: recon_ok_def)
  have "get_thread t d \<noteq> None" using t by (auto simp: get_thread_def live_def split: option.splits)
  moreover have "\<exists>c'. row (calls d') j = Some c' \<and> ca_origin c' = ''manual'' \<and> ca_status c' \<in> set [''completed'', ''no_results'']"
    using c k by (auto simp: delete_thread_tables(15)[OF del] drop_uncited_calls_def row_delete_where detach_calls_def
        cancel_open_calls_def detach_sources_def open_call_def split: option.splits)
  moreover have "row (threads d') t = None"
    by (simp add: delete_thread_tables(2)[OF del] row_delete_where k split: option.split)
  ultimately show ?thesis by (auto simp: attach_call_def attach_update_def update_call_def)
qed

section \<open>A concrete investigation\<close>

definition recon_empty :: recon_db where
  "recon_empty = \<lparr>threads = [], messages = [], message_memories = [], evidence = [], recon_runs = [], calls = [], cache = [],
     thread_entities = [], recon_entities = [], preferences = [], extractions = [], operations = [], strategies = [],
     sequences = (\<lambda>_. None), last_thread_state = None, memory_ids = [''mem''], owner_states = [], insight_sources = [],
     derivation_links = [], derivation_evidences = [], actor_mentions = [], nlp_refs = [], nlp_features = [],
     nlp_artifacts = [], snapshot_inputs = []\<rparr>"

definition done_of :: "'e + 'a \<times> recon_db \<Rightarrow> recon_db" where
  "done_of v = (case v of Inl _ \<Rightarrow> recon_empty | Inr (_, d) \<Rightarrow> d)"

definition demo_asked :: recon_db where
  "demo_asked = done_of (add_message 2 ''m1'' ''t'' ''user'' ''who'' None
     (done_of (new_thread (\<lambda>s. s) 1 ''t'' ''title'' recon_empty)))"

definition demo_running :: recon_db where
  "demo_running = done_of (create_run ''r'' \<lparr>rn_thread = ''t'', rn_turn = ''u'', rn_state = ''running'', rn_stage = ''planning'',
     rn_recon_model = [], rn_synthesis_model = [], rn_tool_picker_model = [], rn_max_rounds = 1, rn_max_calls = 1,
     rn_turn_seconds = 300, rn_plan = None, rn_error = None, rn_created = 3, rn_updated = 3\<rparr> demo_asked)"

definition demo_queued :: recon_db where
  "demo_queued = done_of (queue_call (\<lambda>_. True) 4 ''c'' ''tool'' ''{}'' ''recon'' (Some ''r'') (Some ''t'') None demo_running)"

definition demo_called :: recon_db where
  "demo_called = snd (finish_call 5 ''c'' \<lparr>tr_status = ''completed'', tr_retrieved_at = [], tr_rest = []\<rparr> demo_queued)"

abbreviation "demo_answer \<equiv> add_answer 6 ''m2'' ''t'' ''r'' ''answer'' [''c''] [''mem'', ''gone''] demo_called"

definition demo_answered :: recon_db where "demo_answered = done_of demo_answer"

definition demo_cancelled :: recon_db where "demo_cancelled = snd (cancel_run 7 ''r'' demo_answered)"

lemma done_ofI: "\<not> isl v \<Longrightarrow> v = Inr (fst (projr v), done_of v)"
  by (cases v) (auto simp: done_of_def)

lemma demo_empty: "empty_recon recon_empty"
  by (simp add: empty_recon_def recon_empty_def)

lemma demo_asked_run: "run_of recon_step recon_empty demo_asked"
proof -
  have "\<not> isl (new_thread (\<lambda>s. s) 1 ''t'' ''title'' recon_empty)" by code_simp
  from st_new_thread[OF done_ofI[OF this]]
  have "run_of recon_step recon_empty (done_of (new_thread (\<lambda>s. s) 1 ''t'' ''title'' recon_empty))" by blast
  moreover have "\<not> isl (add_message 2 ''m1'' ''t'' ''user'' ''who'' None
     (done_of (new_thread (\<lambda>s. s) 1 ''t'' ''title'' recon_empty)))" by code_simp
  ultimately show ?thesis unfolding demo_asked_def by (blast intro: st_add_message[OF done_ofI])
qed

lemma demo_called_run: "run_of recon_step recon_empty demo_called"
proof -
  have "recon_step demo_asked demo_running" unfolding demo_running_def
    by (rule st_create_run[OF done_ofI]) code_simp
  moreover have "recon_step demo_running demo_queued" unfolding demo_queued_def
    by (rule st_queue_call[OF done_ofI]) code_simp
  moreover have "recon_step demo_queued demo_called" unfolding demo_called_def
    by (rule st_finish_call[OF prod.collapse[symmetric]])
  ultimately show ?thesis using demo_asked_run by blast
qed

lemma demo_answer_done: "demo_answer = Inr (2, demo_answered)"
proof -
  have "\<not> isl demo_answer" "fst (projr demo_answer) = 2" by code_simp+
  with done_ofI[OF this(1)] show ?thesis by (simp add: demo_answered_def)
qed

lemma demo_cancelled_step: "recon_step demo_answered demo_cancelled"
  unfolding demo_cancelled_def by (rule st_cancel[OF prod.collapse[symmetric]])

lemma demo_later:
  assumes "P demo_answered" and "P demo_cancelled"
  shows "run_of (\<lambda>a b. recon_step a b \<and> P b) demo_called demo_cancelled"
  using assms st_answer[OF demo_answer_done] demo_cancelled_step
  by (intro run_step[OF run_step[OF run_refl]]) simp_all

lemma demo_cancelled_run: "run_of recon_step recon_empty demo_cancelled"
proof -
  have "run_of (\<lambda>a b. recon_step a b \<and> True) demo_called demo_cancelled" by (rule demo_later) simp_all
  then show ?thesis using demo_called_run by (auto intro: run_trans)
qed

theorem recon_tables_witness: "recon_ok demo_cancelled"
  by (rule recon_tables[OF demo_empty demo_cancelled_run])

theorem transcript_kept_witness:
  "list_messages ''t'' demo_called \<noteq> []
     \<and> set (list_messages ''t'' demo_called) \<subseteq> set (list_messages ''t'' demo_cancelled)"
proof -
  have "run_of (\<lambda>a b. recon_step a b \<and> row (threads b) ''t'' \<noteq> None) demo_called demo_cancelled"
    by (rule demo_later; code_simp)
  moreover have "list_messages ''t'' demo_called \<noteq> []" by code_simp
  ultimately show ?thesis using transcript_kept[OF demo_empty demo_called_run, of "''t''" demo_cancelled] by simp
qed

theorem settled_rows_stay_witness:
  "map_option rn_state (row (recon_runs demo_cancelled) ''r'') = Some ''cancelled''
     \<and> row (recon_runs (interrupt_calls 8 demo_cancelled)) ''r'' = row (recon_runs demo_cancelled) ''r''
     \<and> map_option ca_status (row (calls (interrupt_calls 8 demo_cancelled)) ''c'') = Some ''completed''"
proof -
  let ?d = demo_cancelled and ?e = "interrupt_calls 8 demo_cancelled"
  have s: "map_option rn_state (row (recon_runs ?d) ''r'') = Some ''cancelled''"
    "map_option ca_status (row (calls ?d) ''c'') = Some ''completed''" by code_simp+
  then obtain r c where r: "row (recon_runs ?d) ''r'' = Some r" "rn_state r = ''cancelled''"
    and c: "row (calls ?d) ''c'' = Some c" "ca_status c = ''completed''" by auto
  have "row (recon_runs ?e) ''r'' \<noteq> None" "row (calls ?e) ''c'' \<noteq> None" by code_simp+
  then have "run_of (\<lambda>a b. recon_step a b \<and> row (recon_runs b) ''r'' \<noteq> None) ?d ?e"
    "run_of (\<lambda>a b. recon_step a b \<and> row (calls b) ''c'' \<noteq> None) ?d ?e"
    by (simp_all add: run_step[OF run_refl] st_interrupt_calls)
  from settled_rows_stay[OF demo_empty demo_cancelled_run this(1) r(1) this(2) c(1)] r c s show ?thesis
    by (auto simp: run_kept_def call_kept_def open_call_def)
qed

theorem answer_appended_witness:
  "map (ms_content \<circ> snd) (list_messages ''t'' demo_answered) = [''who'', ''answer'']
     \<and> {c. (''m2'', c) \<in> set (evidence demo_answered)} = {''c''}
     \<and> {x. (''m2'', x) \<in> fst ` set (message_memories demo_answered)} = {''mem''}
     \<and> extraction_state ''m2'' demo_answered = Some ''queued''"
proof -
  have "map (ms_content \<circ> snd) (list_messages ''t'' demo_called) = [''who'']" by code_simp
  moreover have "memory_ids demo_called = [''mem'']" by code_simp
  ultimately show ?thesis using answer_appended[OF demo_empty demo_called_run demo_answer_done] by simp
qed

theorem thread_deleted_witness:
  "thread_forgotten ''t'' [''r''] (done_of (delete_thread_in 9 ''t'' demo_cancelled))
     \<and> messages demo_cancelled \<noteq> [] \<and> messages (done_of (delete_thread_in 9 ''t'' demo_cancelled)) = []"
proof -
  have "\<not> isl (delete_thread_in 9 ''t'' demo_cancelled)" "fst (projr (delete_thread_in 9 ''t'' demo_cancelled)) = True"
    by code_simp+
  with done_ofI[OF this(1)] have d: "delete_thread_in 9 ''t'' demo_cancelled
      = Inr (True, done_of (delete_thread_in 9 ''t'' demo_cancelled))" by simp
  have "runs_of demo_cancelled ''t'' = [''r'']" "messages demo_cancelled \<noteq> []"
    "messages (done_of (delete_thread_in 9 ''t'' demo_cancelled)) = []" by code_simp+
  with thread_deleted[OF demo_empty demo_cancelled_run d] show ?thesis by simp
qed

section \<open>References the tables do not keep\<close>

text \<open>
  A message of another thread cites the call: deleting the thread of the call drops it, and the cited
  evidence stays.
\<close>

definition demo_other :: recon_db where
  "demo_other = done_of (new_thread (\<lambda>s. s) 8 ''t2'' ''other'' demo_answered)"

definition demo_citing :: recon_db where
  "demo_citing = done_of (link_evidence_in ''m3'' [''c''] (done_of (add_message 8 ''m3'' ''t2'' ''user'' ''see'' None demo_other)))"

definition demo_dropped :: recon_db where
  "demo_dropped = done_of (delete_thread_in 9 ''t'' demo_citing)"

abbreviation "demo_seen \<equiv> add_message 8 ''m3'' ''t2'' ''user'' ''see'' None demo_other"

lemma demo_dropped_steps:
  "recon_step demo_answered demo_other" "recon_step demo_other (done_of demo_seen)" "recon_step (done_of demo_seen) demo_citing"
  "recon_step demo_citing demo_dropped"
proof -
  show "recon_step demo_answered demo_other" unfolding demo_other_def by (rule st_new_thread[OF done_ofI]) code_simp
  show "recon_step demo_other (done_of demo_seen)" by (rule st_add_message[OF done_ofI]) code_simp
  show "recon_step (done_of demo_seen) demo_citing" unfolding demo_citing_def by (rule st_evidence[OF done_ofI]) code_simp
  have "live d i \<Longrightarrow> \<not> isl (delete_thread_in now i d)" for now i d by (simp add: delete_thread_in_def Let_def)
  moreover have "live demo_citing ''t''" by code_simp
  ultimately show "recon_step demo_citing demo_dropped" unfolding demo_dropped_def by (blast intro: st_delete[OF done_ofI])
qed

lemma demo_dropped_run: "run_of recon_step recon_empty demo_dropped"
proof -
  note go = run_step[where step = recon_step]
  have 1: "run_of recon_step recon_empty demo_answered" by (rule go[OF demo_called_run]) (rule st_answer[OF demo_answer_done])
  have 2: "run_of recon_step recon_empty demo_other" by (rule go[OF 1 demo_dropped_steps(1)])
  have 3: "run_of recon_step recon_empty (done_of demo_seen)" by (rule go[OF 2 demo_dropped_steps(2)])
  have 4: "run_of recon_step recon_empty demo_citing" by (rule go[OF 3 demo_dropped_steps(3)])
  show ?thesis by (rule go[OF 4 demo_dropped_steps(4)])
qed

lemma evidence_of_deleted_call:
  "(''m3'', ''c'') \<in> set (evidence demo_dropped) \<and> row (messages demo_dropped) ''m3'' \<noteq> None \<and> row (calls demo_dropped) ''c'' = None"
  by code_simp

text \<open>
  A model operation and a strategy are recorded for any run and thread, an entity link for any source, whether
  it exists or not.
\<close>

lemma unchecked_references:
  "map_option op_run (row (operations (begin_operation 1 ''o'' (Some ''gone'') None [] 0 [] recon_empty)) ''o'') = Some ''gone''
   \<and> map_option st_run (row (strategies (done_of (record_strategy 1 ''s'' ''none'' ''gone'' [] [] None None recon_empty))) ''s'') = Some ''gone''
   \<and> thread_entities (done_of (link_entity ''t'' ''host'' ''h'' (Some ''gone'') demo_asked)) = [(''t'', ''host:h'', ''gone'')]
   \<and> row (recon_runs recon_empty) ''gone'' = None \<and> row (calls demo_asked) ''gone'' = None"
  by code_simp

end
