(* ===== verification/Publisher.thy ===== *)
theory Publisher
  imports Outbox
begin

text \<open>
  The group commit of memory writes (\<open>storage/publisher.rs\<close>): one transaction per batch that applies
  the waiting writes in order, queues their index changes and raises \<open>memories_changed\<close> once; the split
  of a batch one write made fail; and the task that answers the waiters. A write is any function of the
  store it runs in; it may fail or panic. The channel keeps the order of submission.
\<close>

section \<open>Writes and what they queue\<close>

record pub_change =
  pc_kind :: string
  pc_id :: string
  pc_revision :: string
  pc_operation :: string
  pc_gen :: string
  pc_content_hash :: string
  pc_op_key :: string

record wrote =
  wr_changes :: "pub_change list"
  wr_changed :: bool

text \<open>The store as a write sees it: the tables it works on and the outbox.\<close>

record 'd pub_db =
  pd_data :: 'd
  pd_box :: outbox

datatype 'd write_end = Did wrote "'d pub_db" | Fails tx_error | Panics string

type_synonym 'd memory_write = "'d pub_db \<Rightarrow> 'd write_end"

record published =
  pb_enqueued :: "enqueued list"
  pb_changed_seq :: "int option"
  pb_batch_size :: nat

type_synonym result = "tx_error + published committed"

definition CHANGED_COUNTER :: string where "CHANGED_COUNTER = ''memories_changed''"
definition BATCH_CAP :: nat where "BATCH_CAP = 32"
definition QUEUE_CAP :: nat where "QUEUE_CAP = BATCH_CAP * 8"

section \<open>One transaction\<close>

text \<open>The writes in order: all their changes, how many each made, and whether any changed memories.\<close>

fun apply_writes :: "'d memory_write list \<Rightarrow> 'd pub_db \<Rightarrow> tx_error + (pub_change list \<times> nat list \<times> bool \<times> 'd pub_db)" where
  "apply_writes [] d = Inr ([], [], False, d)"
| "apply_writes (w # ws) d =
     (case w d of
        Panics why \<Rightarrow> Inl (Abort (''write panicked: '' @ why))
      | Fails e \<Rightarrow> Inl e
      | Did r d1 \<Rightarrow> (case apply_writes ws d1 of
            Inl e \<Rightarrow> Inl e
          | Inr (all, counts, changed, d2) \<Rightarrow>
              Inr (wr_changes r @ all, length (wr_changes r) # counts, wr_changed r \<or> changed, d2)))"

definition new_of :: "pub_change \<Rightarrow> new_change \<times> string" where
  "new_of c = (\<lparr>nc_kind = pc_kind c, nc_id = pc_id c, nc_revision = pc_revision c, nc_operation = pc_operation c,
     nc_gen = pc_gen c, nc_content_hash = pc_content_hash c, nc_task = [], nc_job = []\<rparr>, pc_op_key c)"

text \<open>\<open>counts.iter().map(|&n| rest.by_ref().take(n).collect())\<close>\<close>

fun take_counts :: "nat list \<Rightarrow> 'a list \<Rightarrow> 'a list list" where
  "take_counts [] xs = []"
| "take_counts (n # ns) xs = take n xs # take_counts ns (drop n xs)"

definition commit_body :: "instant \<Rightarrow> 'd memory_write list \<Rightarrow> ('d pub_db, enqueued list list \<times> int option) body" where
  "commit_body now ws d =
     (case apply_writes ws d of
        Inl e \<Rightarrow> Inl e
      | Inr (all, counts, changed, d1) \<Rightarrow>
          (case enqueue_many_in (map new_of all) (if changed then Some CHANGED_COUNTER else None) now (pd_box d1) of
             Inl e \<Rightarrow> Inl e
           | Inr ((enq, bumped), box) \<Rightarrow>
               if changed \<and> bumped = None then Inl (Abort ''memories_changed returned no value'')
               else Inr ((take_counts counts enq, bumped), d1\<lparr>pd_box := box\<rparr>)))"

definition commit :: "(nat \<Rightarrow> 'd pub_db attempt_env) \<Rightarrow> (nat \<Rightarrow> instant) \<Rightarrow> 'd memory_write list \<Rightarrow> 'd pub_db
    \<Rightarrow> (tx_error + published committed list) \<times> 'd pub_db" where
  "commit net clock ws d =
     (case run_tx net HOT_RECORD_POLICY (\<lambda>attempt. commit_body (clock attempt) ws) d of
        (Inl e, t) \<Rightarrow> (Inl e, t)
      | (Inr c, t) \<Rightarrow> (let (per_write, changed_seq) = outcome_value c
          in (Inr (map (\<lambda>enq. \<lparr>outcome_value = \<lparr>pb_enqueued = enq, pb_changed_seq = changed_seq,
                pb_batch_size = length per_write\<rparr>, retries = retries c\<rparr>) per_write), t)))"

section \<open>A batch\<close>

fun splittable :: "tx_error \<Rightarrow> bool" where
  "splittable (Abort _) = True"
| "splittable (Db e) = (err_kind e \<in> {Validation_Kind, Already_Exists_Kind, Not_Found_Kind, Not_Allowed_Kind, Serialization_Kind}
     \<or> err_kind e = Query_Kind \<and> query_details e = None)"
| "splittable _ = False"

text \<open>Each write in a transaction of its own; \<open>net k\<close> and \<open>clock k\<close> are those of the k-th commit.\<close>

fun publish_each :: "(nat \<Rightarrow> nat \<Rightarrow> 'd pub_db attempt_env) \<Rightarrow> (nat \<Rightarrow> nat \<Rightarrow> instant) \<Rightarrow> nat \<Rightarrow> 'd memory_write list
    \<Rightarrow> 'd pub_db \<Rightarrow> result list \<times> 'd pub_db" where
  "publish_each net clock k [] d = ([], d)"
| "publish_each net clock k (w # ws) d =
     (let (r, d1) = commit (net k) (clock k) [w] d;
          (rs, d2) = publish_each net clock (Suc k) ws d1
      in (map_sum id hd r # rs, d2))"

definition publish_batch :: "(nat \<Rightarrow> nat \<Rightarrow> 'd pub_db attempt_env) \<Rightarrow> (nat \<Rightarrow> nat \<Rightarrow> instant) \<Rightarrow> 'd memory_write list
    \<Rightarrow> 'd pub_db \<Rightarrow> result list \<times> 'd pub_db" where
  "publish_batch net clock ws d =
     (case commit (net 0) (clock 0) ws d of
        (Inr done', t) \<Rightarrow> (map Inr done', t)
      | (Inl e, t) \<Rightarrow> if 1 < length ws \<and> splittable e then publish_each net clock 1 ws t
          else (replicate (length ws) (Inl e), t))"

section \<open>A batch is its writes one by one\<close>

text \<open>A write that works on its own tables only.\<close>

datatype 'd data_end = Changed wrote 'd | Refused_With tx_error | Crashed string

definition data_write :: "('d \<Rightarrow> 'd data_end) \<Rightarrow> 'd memory_write" where
  "data_write f d = (case f (pd_data d) of Changed r x \<Rightarrow> Did r (d\<lparr>pd_data := x\<rparr>)
     | Refused_With e \<Rightarrow> Fails e | Crashed why \<Rightarrow> Panics why)"

text \<open>Two outboxes that differ in the other counters only.\<close>

definition same_rows :: "outbox \<Rightarrow> outbox \<Rightarrow> bool" where
  "same_rows a b \<longleftrightarrow> changes a = changes b \<and> work a = work b \<and> current (ctr a) SEQ_COUNTER = current (ctr b) SEQ_COUNTER"

lemma same_rows_refl [simp]: "same_rows a a" by (simp add: same_rows_def)

lemma same_rows_ok: "same_rows a b \<Longrightarrow> outbox_ok a \<Longrightarrow> outbox_ok b"
  by (simp add: same_rows_def outbox_ok_def)

lemma same_rows_bump: "same_rows a b \<Longrightarrow> n \<noteq> SEQ_COUNTER \<Longrightarrow> same_rows (a\<lparr>ctr := snd (next_in n (ctr a))\<rparr>) b"
  by (simp add: same_rows_def next_in_def current_def Let_def)

lemma added_same_rows: "same_rows a b \<Longrightarrow> same_rows (added c k now a) (added c k now b)"
  by (simp add: same_rows_def added_def next_in_def current_def Let_def)

lemma enqueue_in_same:
  assumes "same_rows a b" and "outbox_ok a"
  shows "rel_sum (=) (rel_prod (=) same_rows) (enqueue_in c k now a) (enqueue_in c k now b)"
proof -
  have h: "active_holder a w = active_holder b w" for w using assms(1)
    by (simp add: same_rows_def active_holder_def cong: option.case_cong)
  have r: "row (changes a) k = row (changes b) k" "current (ctr a) SEQ_COUNTER = current (ctr b) SEQ_COUNTER"
    using assms(1) by (simp_all add: same_rows_def)
  show ?thesis
    using added_same_rows[OF assms(1)] assms(1)
    by (simp add: enqueue_in_cases[OF assms(2)] enqueue_in_cases[OF same_rows_ok[OF assms]] h r split: option.split)
qed

lemma enqueue_each_same:
  "same_rows a b \<Longrightarrow> outbox_ok a \<Longrightarrow>
     rel_sum (=) (rel_prod (=) same_rows) (enqueue_each cs now a) (enqueue_each cs now b)"
proof (induction cs arbitrary: a b)
  case (Cons x cs)
  obtain c k where x: "x = (c, k)" by (cases x)
  from enqueue_in_same[OF Cons.prems, of c k now] show ?case
  proof (cases rule: rel_sum.cases)
    case (1 e e')
    then show ?thesis by (simp add: x)
  next
    case (2 p q)
    then obtain v a1 b1 where "p = (v, a1)" "q = (v, b1)" "same_rows a1 b1" by (cases p; cases q) auto
    with 2 have e: "enqueue_in c k now a = Inr (v, a1)" "enqueue_in c k now b = Inr (v, b1)" "same_rows a1 b1" by auto
    from Cons.IH[OF e(3) enqueue_in_ok[OF Cons.prems(2) e(1)]] show ?thesis
      by (cases rule: rel_sum.cases) (auto simp: x e)
  qed
qed simp

lemma enqueue_each_append:
  "enqueue_each (xs @ ys) now d = (case enqueue_each xs now d of Inl e \<Rightarrow> Inl e
     | Inr (qs, d1) \<Rightarrow> (case enqueue_each ys now d1 of Inl e \<Rightarrow> Inl e | Inr (rs, d2) \<Rightarrow> Inr (qs @ rs, d2)))"
  by (induction xs arbitrary: d) (auto split: sum.splits prod.splits)

lemma enqueue_each_ok: "enqueue_each cs now d = Inr (qs, d') \<Longrightarrow> outbox_ok d \<Longrightarrow> outbox_ok d' \<and> length qs = length cs"
  by (induction cs arbitrary: d qs) (force split: sum.splits prod.splits dest: enqueue_in_ok)+

text \<open>What a list of such writes does to the tables.\<close>

fun data_run :: "('d \<Rightarrow> 'd data_end) list \<Rightarrow> 'd \<Rightarrow> tx_error + (wrote list \<times> 'd)" where
  "data_run [] x = Inr ([], x)"
| "data_run (f # fs) x = (case f x of Crashed why \<Rightarrow> Inl (Abort (''write panicked: '' @ why)) | Refused_With e \<Rightarrow> Inl e
     | Changed r y \<Rightarrow> (case data_run fs y of Inl e \<Rightarrow> Inl e | Inr (rs, z) \<Rightarrow> Inr (r # rs, z)))"

lemma apply_data_writes:
  "apply_writes (map data_write fs) d = (case data_run fs (pd_data d) of Inl e \<Rightarrow> Inl e
     | Inr (rs, x) \<Rightarrow> Inr (concat (map wr_changes rs), map (length \<circ> wr_changes) rs, list_ex wr_changed rs, d\<lparr>pd_data := x\<rparr>))"
  by (induction fs arbitrary: d)
     (auto simp: data_write_def split: data_end.split sum.splits prod.splits)

definition bump_changed :: "bool \<Rightarrow> outbox \<Rightarrow> outbox" where
  "bump_changed changed b = (if changed then b\<lparr>ctr := snd (next_in CHANGED_COUNTER (ctr b))\<rparr> else b)"

definition rows_of :: "wrote list \<Rightarrow> (new_change \<times> string) list" where
  "rows_of rs = map new_of (concat (map wr_changes rs))"

lemma commit_data:
  assumes "outbox_ok (pd_box d)"
  shows "commit_body now (map data_write fs) d = (case data_run fs (pd_data d) of Inl e \<Rightarrow> Inl e
     | Inr (rs, x) \<Rightarrow> (case enqueue_each (rows_of rs) now (pd_box d) of Inl e \<Rightarrow> Inl e
        | Inr (qs, b) \<Rightarrow> Inr ((take_counts (map (length \<circ> wr_changes) rs) qs,
             if list_ex wr_changed rs then Some (current (ctr b) CHANGED_COUNTER + 1) else None),
             \<lparr>pd_data = x, pd_box = bump_changed (list_ex wr_changed rs) b\<rparr>)))"
proof -
  have d: "d\<lparr>pd_data := x, pd_box := b\<rparr> = \<lparr>pd_data = x, pd_box = b\<rparr>" for x b by (cases d) simp
  show ?thesis
    by (simp add: commit_body_def apply_data_writes enqueue_many_equiv[OF assms] rows_of_def bump_changed_def d
        split: sum.split prod.split)
qed

lemma bump_ok: "outbox_ok b \<Longrightarrow> outbox_ok (bump_changed c b)"
  by (rule same_rows_ok[of b]) (simp_all add: bump_changed_def same_rows_def next_in_def current_def Let_def CHANGED_COUNTER_def SEQ_COUNTER_def)

lemma bump_same: "same_rows a b \<Longrightarrow> same_rows (bump_changed c a) (bump_changed c' b)"
  by (simp add: bump_changed_def same_rows_def next_in_def current_def Let_def CHANGED_COUNTER_def SEQ_COUNTER_def)

text \<open>Failures that belong to one write, and are no conflict.\<close>

definition benign :: "('d \<Rightarrow> 'd data_end) \<Rightarrow> bool" where
  "benign f \<longleftrightarrow> (\<forall>x e. f x = Refused_With e \<longrightarrow> splittable e \<and> \<not> is_conflict e)"

lemma data_run_error: "data_run fs x = Inl e \<Longrightarrow> \<forall>f \<in> set fs. benign f \<Longrightarrow> splittable e \<and> \<not> is_conflict e"
  by (induction fs arbitrary: x)
     (auto simp: benign_def is_conflict_def split: data_end.splits sum.splits prod.splits)

lemma enqueue_in_error: "outbox_ok d \<Longrightarrow> enqueue_in c k now d = Inl e \<Longrightarrow> splittable e \<and> \<not> is_conflict e"
  by (auto simp: enqueue_in_cases reused_def is_conflict_def split: option.splits if_splits)

lemma enqueue_each_error: "enqueue_each cs now d = Inl e \<Longrightarrow> outbox_ok d \<Longrightarrow> splittable e \<and> \<not> is_conflict e"
proof (induction cs arbitrary: d)
  case (Cons x cs)
  obtain c k where x: "x = (c, k)" by (cases x)
  show ?case
  proof (cases "enqueue_in c k now d")
    case (Inl e')
    with Cons.prems x enqueue_in_error[OF Cons.prems(2)] show ?thesis by auto
  next
    case (Inr p)
    obtain q d1 where "p = (q, d1)" by (cases p)
    with Inr have q: "enqueue_in c k now d = Inr (q, d1)" by simp
    with Cons.prems(1) x have "enqueue_each cs now d1 = Inl e" by (auto split: sum.splits prod.splits)
    then show ?thesis using Cons.IH enqueue_in_ok[OF Cons.prems(2) q] by blast
  qed
qed simp

definition answers :: "nat \<Rightarrow> enqueued list list \<times> int option \<Rightarrow> published committed list" where
  "answers n v = map (\<lambda>enq. \<lparr>outcome_value = \<lparr>pb_enqueued = enq, pb_changed_seq = snd v,
     pb_batch_size = length (fst v)\<rparr>, retries = n\<rparr>) (fst v)"

lemma commit_quiet:
  assumes q: "\<And>a. undisturbed (net a)" and ok: "outbox_ok (pd_box d)" and b: "\<forall>f \<in> set fs. benign f"
  shows "commit net clock (map data_write fs) d = (case commit_body (clock 0) (map data_write fs) d of
     Inl e \<Rightarrow> (Inl e, d) | Inr (v, t) \<Rightarrow> (Inr (answers 0 v), t))"
    and "commit_body now (map data_write fs) d = Inl e \<Longrightarrow> splittable e \<and> \<not> is_conflict e"
proof -
  show err: "splittable e \<and> \<not> is_conflict e" if "commit_body now (map data_write fs) d = Inl e" for now e
    using that data_run_error[OF _ b] enqueue_each_error[OF _ ok]
    by (auto simp: commit_data[OF ok] split: sum.splits prod.splits)
  show "commit net clock (map data_write fs) d = (case commit_body (clock 0) (map data_write fs) d of
     Inl e \<Rightarrow> (Inl e, d) | Inr (v, t) \<Rightarrow> (Inr (answers 0 v), t))"
  proof (cases "commit_body (clock 0) (map data_write fs) d")
    case (Inl e)
    with run_tx_quiet(2)[OF q, where body = "\<lambda>a. commit_body (clock a) (map data_write fs)"] err[OF Inl] show ?thesis
      by (simp add: commit_def)
  next
    case (Inr p)
    obtain v t where "p = (v, t)" by (cases p)
    with Inr run_tx_quiet(1)[OF q, where body = "\<lambda>a. commit_body (clock a) (map data_write fs)"] show ?thesis
      by (simp add: commit_def answers_def split: prod.split)
  qed
qed

definition answer :: "result \<Rightarrow> tx_error + enqueued list" where
  "answer = map_sum id (\<lambda>c. pb_enqueued (outcome_value c))"

lemma take_counts_append [simp]: "length q = n \<Longrightarrow> take_counts (n # ns) (q @ r) = q # take_counts ns r"
  by simp

lemma each_of_success:
  assumes q: "\<And>k a. undisturbed (net k a)" and now: "\<And>k a. clock k a = now" and b: "\<forall>f \<in> set fs. benign f"
    and run: "data_run fs x = Inr (rs, y)" and enq: "enqueue_each (rows_of rs) now b1 = Inr (qs, b2)"
    and same: "same_rows b1 b1'" and ok: "outbox_ok b1"
  shows "\<exists>rs' t'. publish_each net clock k (map data_write fs) \<lparr>pd_data = x, pd_box = b1'\<rparr> = (rs', t')
    \<and> map answer rs' = map Inr (take_counts (map (length \<circ> wr_changes) rs) qs) \<and> pd_data t' = y \<and> same_rows b2 (pd_box t')"
  using b run enq same ok
proof (induction fs arbitrary: x rs b1 b1' qs k)
  case Nil
  then show ?case by (simp add: rows_of_def)
next
  case (Cons f fs)
  from Cons.prems(2) obtain r x1 rs1 where f: "f x = Changed r x1" "data_run fs x1 = Inr (rs1, y)" "rs = r # rs1"
    by (auto split: data_end.splits sum.splits prod.splits)
  have rows: "rows_of rs = rows_of [r] @ rows_of rs1" by (simp add: f(3) rows_of_def)
  from Cons.prems(3) obtain q1 c1 q2 where e: "enqueue_each (rows_of [r]) now b1 = Inr (q1, c1)"
    "enqueue_each (rows_of rs1) now c1 = Inr (q2, b2)" "qs = q1 @ q2"
    by (auto simp: rows enqueue_each_append split: sum.splits prod.splits)
  from enqueue_each_ok[OF e(1) Cons.prems(5)] have c1: "outbox_ok c1" and len: "length q1 = length (wr_changes r)"
    by (simp_all add: rows_of_def)
  have ok': "outbox_ok b1'" using same_rows_ok Cons.prems(4,5) by blast
  from enqueue_each_same[OF Cons.prems(4,5), of "rows_of [r]" now] e(1) obtain c1' where
    e': "enqueue_each (rows_of [r]) now b1' = Inr (q1, c1')" "same_rows c1 c1'"
    by (auto simp: rel_sum.simps rel_prod_conv)
  have same: "same_rows c1 (bump_changed (wr_changed r) c1')" using bump_same[OF e'(2), of False] by (simp add: bump_changed_def)
  have "commit_body now (map data_write [f]) \<lparr>pd_data = x, pd_box = b1'\<rparr> =
      Inr (([q1], if wr_changed r then Some (current (ctr c1') CHANGED_COUNTER + 1) else None),
        \<lparr>pd_data = x1, pd_box = bump_changed (wr_changed r) c1'\<rparr>)"
    using ok' by (subst commit_data) (simp_all add: f e' len)
  with commit_quiet(1)[OF q, where d = "\<lparr>pd_data = x, pd_box = b1'\<rparr>" and fs = "[f]" and clock = "clock k"] ok' Cons.prems(1) now
  have one: "\<exists>v. commit (net k) (clock k) [data_write f] \<lparr>pd_data = x, pd_box = b1'\<rparr>
      = (Inr [\<lparr>outcome_value = \<lparr>pb_enqueued = q1, pb_changed_seq = v, pb_batch_size = 1\<rparr>, retries = 0\<rparr>],
         \<lparr>pd_data = x1, pd_box = bump_changed (wr_changed r) c1'\<rparr>)"
    by (simp add: answers_def)
  from Cons.IH[OF _ f(2) e(2) same c1, of "Suc k"] Cons.prems(1) obtain rs' t' where
    IH: "publish_each net clock (Suc k) (map data_write fs) \<lparr>pd_data = x1, pd_box = bump_changed (wr_changed r) c1'\<rparr> = (rs', t')"
    "map answer rs' = map Inr (take_counts (map (length \<circ> wr_changes) rs1) q2)" "pd_data t' = y" "same_rows b2 (pd_box t')"
    by (metis list.set_intros(2))
  from one IH show ?case by (auto simp: answer_def f(3) e(3) len comp_def)
qed

section \<open>How often \<open>memories_changed\<close> is raised\<close>

text \<open>
  The writes of a list of answers that were committed, whether each of them changed memories, and the
  values of \<open>memories_changed\<close> when every changing write raises it by one.
\<close>

fun committed_only :: "result list \<Rightarrow> published list" where
  "committed_only [] = []"
| "committed_only (Inl e # rs) = committed_only rs"
| "committed_only (Inr c # rs) = outcome_value c # committed_only rs"

fun changing :: "('d \<Rightarrow> 'd data_end) list \<Rightarrow> result list \<Rightarrow> 'd \<Rightarrow> bool list" where
  "changing (f # fs) (Inr c # rs) x = (case f x of Changed w y \<Rightarrow> wr_changed w # changing fs rs y | _ \<Rightarrow> [])"
| "changing (f # fs) (Inl e # rs) x = changing fs rs x"
| "changing _ _ x = []"

fun raised :: "int \<Rightarrow> bool list \<Rightarrow> int option list" where
  "raised c [] = []"
| "raised c (b # bs) = (if b then Some (c + 1) # raised (c + 1) bs else None # raised c bs)"

definition changed_count :: "'d pub_db \<Rightarrow> int" where
  "changed_count d = current (ctr (pd_box d)) CHANGED_COUNTER"

lemma enqueue_in_counter: "enqueue_in c k now d = Inr (q, d') \<Longrightarrow> outbox_ok d \<Longrightarrow>
    current (ctr d') CHANGED_COUNTER = current (ctr d) CHANGED_COUNTER"
  by (auto simp: enqueue_in_cases added_def next_in_def current_def Let_def CHANGED_COUNTER_def SEQ_COUNTER_def
      split: option.splits if_splits)

lemma enqueue_each_counter: "enqueue_each cs now d = Inr (qs, d') \<Longrightarrow> outbox_ok d \<Longrightarrow>
    current (ctr d') CHANGED_COUNTER = current (ctr d) CHANGED_COUNTER"
proof (induction cs arbitrary: d qs)
  case (Cons x cs)
  then obtain c k q d1 qs' where x: "x = (c, k)" "enqueue_in c k now d = Inr (q, d1)" "enqueue_each cs now d1 = Inr (qs', d')"
    by (cases x) (auto split: sum.splits prod.splits)
  with Cons.IH[OF x(3)] enqueue_in_ok[OF Cons.prems(2) x(2)] enqueue_in_counter[OF x(2) Cons.prems(2)] show ?case by simp
qed simp

lemma bumped_count: "current (ctr (bump_changed c b)) CHANGED_COUNTER = current (ctr b) CHANGED_COUNTER + (if c then 1 else 0)"
  by (simp add: bump_changed_def next_in_def current_def Let_def)

text \<open>One write in a transaction of its own.\<close>

lemma commit_one:
  assumes q: "\<And>a. undisturbed (net a)" and now: "\<And>a. clock a = now" and b: "benign f" and ok: "outbox_ok (pd_box d)"
  obtains e where "commit net clock [data_write f] d = (Inl e, d)"
  | w y qs c where "f (pd_data d) = Changed w y" "enqueue_each (rows_of [w]) now (pd_box d) = Inr (qs, c)"
      "commit net clock [data_write f] d = (Inr [\<lparr>outcome_value = \<lparr>pb_enqueued = qs,
         pb_changed_seq = (if wr_changed w then Some (changed_count d + 1) else None), pb_batch_size = 1\<rparr>, retries = 0\<rparr>],
         \<lparr>pd_data = y, pd_box = bump_changed (wr_changed w) c\<rparr>)"
proof (cases "commit_body now [data_write f] d")
  case (Inl e)
  with commit_quiet(1)[OF q ok, where fs = "[f]" and clock = clock] b now
  have "commit net clock [data_write f] d = (Inl e, d)" by simp
  then show ?thesis by (rule that(1))
next
  case (Inr p)
  then obtain w y qs c where f: "f (pd_data d) = Changed w y" and e: "enqueue_each (rows_of [w]) now (pd_box d) = Inr (qs, c)"
    using commit_data[OF ok, of now "[f]"] by (auto split: sum.splits prod.splits data_end.splits)
  have len: "length qs = length (wr_changes w)" using enqueue_each_ok[OF e ok] by (simp add: rows_of_def)
  have "commit net clock [data_write f] d = (Inr [\<lparr>outcome_value = \<lparr>pb_enqueued = qs,
         pb_changed_seq = (if wr_changed w then Some (changed_count d + 1) else None), pb_batch_size = 1\<rparr>, retries = 0\<rparr>],
         \<lparr>pd_data = y, pd_box = bump_changed (wr_changed w) c\<rparr>)"
    using commit_quiet(1)[OF q ok, where fs = "[f]" and clock = clock] b now commit_data[OF ok, of now "[f]"]
      enqueue_each_counter[OF e ok]
    by (simp add: f e len answers_def changed_count_def)
  with f e show ?thesis by (rule that(2))
qed

lemma each_counts:
  assumes q: "\<And>k a. undisturbed (net k a)" and now: "\<And>k a. clock k a = now"
    and "\<forall>f \<in> set fs. benign f" and "outbox_ok (pd_box d)"
    and "publish_each net clock k (map data_write fs) d = (rs, t)"
  shows "length rs = length fs \<and> map pb_changed_seq (committed_only rs) = raised (changed_count d) (changing fs rs (pd_data d))
    \<and> changed_count t = changed_count d + int (length (filter id (changing fs rs (pd_data d))))
    \<and> (\<forall>p \<in> set (committed_only rs). pb_batch_size p = 1)"
  using assms(3-5)
proof (induction fs arbitrary: d k rs)
  case (Cons f fs)
  have f: "benign f" and fs: "\<forall>f \<in> set fs. benign f" using Cons.prems(1) by simp_all
  consider (1) e where "commit (net k) (clock k) [data_write f] d = (Inl e, d)"
    | (2) w y qs c where "f (pd_data d) = Changed w y" "enqueue_each (rows_of [w]) now (pd_box d) = Inr (qs, c)"
      "commit (net k) (clock k) [data_write f] d = (Inr [\<lparr>outcome_value = \<lparr>pb_enqueued = qs,
         pb_changed_seq = (if wr_changed w then Some (changed_count d + 1) else None), pb_batch_size = 1\<rparr>, retries = 0\<rparr>],
         \<lparr>pd_data = y, pd_box = bump_changed (wr_changed w) c\<rparr>)"
    by (rule commit_one[OF q now f Cons.prems(2)])
  then show ?case
  proof cases
    case 1
    obtain rs1 where rs1: "publish_each net clock (Suc k) (map data_write fs) d = (rs1, t)" "rs = Inl e # rs1"
      using Cons.prems(3) 1 by (auto simp: Let_def split: prod.splits)
    from Cons.IH[OF fs Cons.prems(2) rs1(1)] show ?thesis by (simp add: rs1(2))
  next
    case 2
    let ?d = "\<lparr>pd_data = y, pd_box = bump_changed (wr_changed w) c\<rparr>"
    obtain rs1 where rs1: "publish_each net clock (Suc k) (map data_write fs) ?d = (rs1, t)"
      "rs = Inr \<lparr>outcome_value = \<lparr>pb_enqueued = qs,
         pb_changed_seq = (if wr_changed w then Some (changed_count d + 1) else None), pb_batch_size = 1\<rparr>, retries = 0\<rparr> # rs1"
      using Cons.prems(3) 2 by (auto simp: Let_def split: prod.splits)
    have "outbox_ok (pd_box ?d)" using bump_ok enqueue_each_ok[OF 2(2) Cons.prems(2)] by simp
    from Cons.IH[OF fs this rs1(1)] enqueue_each_counter[OF 2(2) Cons.prems(2)] show ?thesis
      by (simp add: rs1(2) 2(1) changed_count_def bumped_count)
  qed
qed simp

lemma data_run_length: "data_run fs x = Inr (ws, y) \<Longrightarrow> length ws = length fs"
  by (induction fs arbitrary: x ws) (auto split: data_end.splits sum.splits)

lemma all_committed: "map answer rs = map Inr vs \<Longrightarrow> length (committed_only rs) = length rs"
proof (induction rs arbitrary: vs)
  case (Cons r rs)
  then show ?case by (cases r; cases vs) (auto simp: answer_def)
qed simp

text \<open>If every write succeeds alone, the batch succeeds.\<close>

lemma each_all_batch:
  assumes q: "\<And>k a. undisturbed (net k a)" and now: "\<And>k a. clock k a = now"
    and "\<forall>f \<in> set fs. benign f" and "outbox_ok (pd_box d)" and "same_rows b (pd_box d)"
    and "publish_each net clock k (map data_write fs) d = (rs, t)" and "length (committed_only rs) = length fs"
  shows "\<exists>ws x qs c. data_run fs (pd_data d) = Inr (ws, x) \<and> enqueue_each (rows_of ws) now b = Inr (qs, c)
    \<and> map wr_changed ws = changing fs rs (pd_data d)"
  using assms(3-7)
proof (induction fs arbitrary: d k rs b)
  case Nil
  then show ?case by (simp add: rows_of_def)
next
  case (Cons f fs)
  have f: "benign f" and fs: "\<forall>f \<in> set fs. benign f" using Cons.prems(1) by simp_all
  have le: "length (committed_only rs') \<le> length rs'" for rs' by (induction rs' rule: committed_only.induct) auto
  consider (1) e where "commit (net k) (clock k) [data_write f] d = (Inl e, d)"
    | (2) w y qs c where "f (pd_data d) = Changed w y" "enqueue_each (rows_of [w]) now (pd_box d) = Inr (qs, c)"
      "commit (net k) (clock k) [data_write f] d = (Inr [\<lparr>outcome_value = \<lparr>pb_enqueued = qs,
         pb_changed_seq = (if wr_changed w then Some (changed_count d + 1) else None), pb_batch_size = 1\<rparr>, retries = 0\<rparr>],
         \<lparr>pd_data = y, pd_box = bump_changed (wr_changed w) c\<rparr>)"
    by (rule commit_one[OF q now f Cons.prems(2)])
  then show ?case
  proof cases
    case 1
    obtain rs1 where rs1: "publish_each net clock (Suc k) (map data_write fs) d = (rs1, t)" "rs = Inl e # rs1"
      using Cons.prems(4) 1 by (auto simp: Let_def split: prod.splits)
    with each_counts[OF q now fs Cons.prems(2) rs1(1)] le[of rs1] Cons.prems(5) show ?thesis by simp
  next
    case 2
    let ?d = "\<lparr>pd_data = y, pd_box = bump_changed (wr_changed w) c\<rparr>"
    obtain rs1 r where rs1: "publish_each net clock (Suc k) (map data_write fs) ?d = (rs1, t)" "rs = Inr r # rs1"
      using Cons.prems(4) 2 by (auto simp: Let_def split: prod.splits)
    have okb: "outbox_ok b" using Cons.prems(2,3) by (simp add: same_rows_def outbox_ok_def)
    from enqueue_each_same[OF Cons.prems(3) okb, of "rows_of [w]" now] 2(2) obtain c1 where
      c1: "enqueue_each (rows_of [w]) now b = Inr (qs, c1)" "same_rows c1 c"
      by (auto simp: rel_sum.simps rel_prod_conv)
    have "outbox_ok (pd_box ?d)" using bump_ok enqueue_each_ok[OF 2(2) Cons.prems(2)] by simp
    moreover have "same_rows c1 (pd_box ?d)" using bump_same[OF c1(2), of False] by (simp add: bump_changed_def)
    moreover have "length (committed_only rs1) = length fs" using Cons.prems(5) by (simp add: rs1(2))
    ultimately have "\<exists>ws x qs' c'. data_run fs (pd_data ?d) = Inr (ws, x) \<and> enqueue_each (rows_of ws) now c1 = Inr (qs', c')
        \<and> map wr_changed ws = changing fs rs1 (pd_data ?d)"
      by (intro Cons.IH[OF fs _ _ rs1(1)])
    then obtain ws x qs' c' where ws: "data_run fs y = Inr (ws, x)" "enqueue_each (rows_of ws) now c1 = Inr (qs', c')"
      "map wr_changed ws = changing fs rs1 y"
      by auto
    have "rows_of (w # ws) = rows_of [w] @ rows_of ws" by (simp add: rows_of_def)
    then have "enqueue_each (rows_of (w # ws)) now b = Inr (qs @ qs', c')"
      by (simp add: enqueue_each_append c1(1) ws(2))
    with ws(1,3) 2(1) rs1(2) show ?thesis
      by (intro exI[of _ "w # ws"] exI[of _ x]) simp
  qed
qed

text \<open>C30: a group commit is its writes one by one, but for \<open>memories_changed\<close>, which a batch raises once.
  When nobody else writes and a write touches only its own tables, committing a batch in one transaction
  (or, when one write fails, each alone) gives every write the same outcome with the same outbox rows,
  and leaves the same tables and the same outbox rows, in the same order with the same sequence numbers,
  as committing the writes one after the other. One after the other, every committed write that changed
  memories raises the counter by one, is told its value, and has a batch of its own. If no write fails,
  the batch raises it by one when some write changed memories and not at all otherwise, and tells every
  write that same value and the size of the batch; if one fails, answers and state are exactly those of
  the writes one by one.\<close>

theorem group_commit_equiv:
  assumes "outbox_ok (pd_box d)" and "\<And>k a. undisturbed (net k a)" and "\<And>k a. clock k a = now"
    and "\<forall>f \<in> set fs. benign f"
  shows "case (publish_batch net clock (map data_write fs) d, publish_each net clock 1 (map data_write fs) d) of
     ((rs, t), (rs', t')) \<Rightarrow> map answer rs = map answer rs' \<and> pd_data t = pd_data t' \<and> same_rows (pd_box t) (pd_box t')
       \<and> (let bs = changing fs rs' (pd_data d); n = changed_count d in
           map pb_changed_seq (committed_only rs') = raised n bs
         \<and> changed_count t' = n + int (length (filter id bs))
         \<and> (\<forall>p \<in> set (committed_only rs'). pb_batch_size p = 1)
         \<and> (if length (committed_only rs') = length fs
            then changed_count t = n + (if True \<in> set bs then 1 else 0)
              \<and> (\<forall>p \<in> set (committed_only rs). pb_changed_seq p = (if True \<in> set bs then Some (n + 1) else None)
                   \<and> pb_batch_size p = length fs)
            else rs = rs' \<and> t = t'))"
proof -
  obtain rs' t' where each: "publish_each net clock 1 (map data_write fs) d = (rs', t')" by fastforce
  note counts = each_counts[OF assms(2,3,4,1) each]
  show ?thesis
  proof (cases "commit_body now (map data_write fs) d")
    case (Inl e)
    note q = commit_quiet[OF assms(2,1,4)]
    have c: "commit (net k) (clock k) (map data_write fs) d = (Inl e, d)" for k by (simp add: q(1) assms(3) Inl)
    have "splittable e" using q(2)[OF Inl] by simp
    moreover have "publish_each net clock 1 (map data_write [f]) d = (replicate (length [f]) (Inl e), d)" if "fs = [f]" for f
      using c[of 1] that by simp
    moreover have "fs \<noteq> []" using Inl commit_data[OF assms(1), of now fs] by (auto simp: rows_of_def)
    ultimately have "publish_batch net clock (map data_write fs) d = (rs', t')"
      using c[of 0] each by (cases fs; cases "tl fs") (auto simp: publish_batch_def)
    moreover have "length (committed_only rs') \<noteq> length fs"
      using each_all_batch[OF assms(2,3,4,1) same_rows_refl each] Inl commit_data[OF assms(1), of now fs] by auto
    ultimately show ?thesis using each counts by (simp add: Let_def)
  next
    case (Inr p)
    then obtain rs x qs b where run: "data_run fs (pd_data d) = Inr (rs, x)"
      "enqueue_each (rows_of rs) now (pd_box d) = Inr (qs, b)"
      and p: "p = ((take_counts (map (length \<circ> wr_changes) rs) qs,
               if list_ex wr_changed rs then Some (current (ctr b) CHANGED_COUNTER + 1) else None),
               \<lparr>pd_data = x, pd_box = bump_changed (list_ex wr_changed rs) b\<rparr>)"
      by (auto simp: commit_data[OF assms(1)] split: sum.splits prod.splits)
    have c: "commit (net 0) (clock 0) (map data_write fs) d = (Inr (answers 0 (fst p)), snd p)"
      by (simp add: commit_quiet(1)[OF assms(2,1,4)] assms(3) Inr split: prod.split)
    have d: "\<lparr>pd_data = pd_data d, pd_box = pd_box d\<rparr> = d" by simp
    from each_of_success[where net = net and clock = clock and k = 1, OF assms(2,3,4) run same_rows_refl assms(1)] each
    have t: "map answer rs' = map Inr (take_counts (map (length \<circ> wr_changes) rs) qs)" "pd_data t' = x" "same_rows b (pd_box t')"
      unfolding d by auto
    have same: "same_rows (bump_changed (list_ex wr_changed rs) b) (pd_box t')"
      using bump_same[OF t(3), of "list_ex wr_changed rs" False] by (simp add: bump_changed_def)
    have n: "length rs = length fs" using data_run_length[OF run(1)] .
    have tc: "length (take_counts ns xs) = length ns" for ns and xs :: "enqueued list" by (induction ns arbitrary: xs) auto
    have "length (committed_only rs') = length fs"
      using all_committed[OF t(1)] counts by simp
    note all = this
    from each_all_batch[OF assms(2,3,4,1) same_rows_refl each all] run(1)
    have bs: "changing fs rs' (pd_data d) = map wr_changed rs" by auto
    have ex: "True \<in> set (changing fs rs' (pd_data d)) \<longleftrightarrow> list_ex wr_changed rs"
      unfolding bs list_ex_iff by force
    have only: "committed_only (map Inr xs) = map outcome_value xs" for xs by (induction xs) auto
    have batch: "publish_batch net clock (map data_write fs) d = (map Inr (answers 0 (fst p)), snd p)"
      unfolding publish_batch_def c by simp
    have ans: "map answer (map Inr (answers 0 (fst p))) = map answer rs'"
      unfolding t(1) by (simp add: p answers_def answer_def comp_def)
    have size: "\<forall>q \<in> set (committed_only (map Inr (answers 0 (fst p)))).
        pb_changed_seq q = (if list_ex wr_changed rs then Some (changed_count d + 1) else None) \<and> pb_batch_size q = length fs"
      unfolding only using enqueue_each_counter[OF run(2) assms(1)]
      by (simp add: p answers_def tc n changed_count_def)
    have count: "changed_count (snd p) = changed_count d + (if list_ex wr_changed rs then 1 else 0)"
      using enqueue_each_counter[OF run(2) assms(1)] by (simp add: p changed_count_def bumped_count)
    have "pd_data (snd p) = pd_data t'" and "same_rows (pd_box (snd p)) (pd_box t')"
      using t(2) same by (simp_all add: p)
    then show ?thesis
      unfolding each batch prod.case Let_def ex if_P[OF all]
      by (intro conjI ans size count conjunct1[OF conjunct2[OF counts]] conjunct1[OF conjunct2[OF conjunct2[OF counts]]]
          conjunct2[OF conjunct2[OF conjunct2[OF counts]]])
  qed
qed

section \<open>The publisher task\<close>

text \<open>
  The channel between the writers and the task, and what was sent back. A waiter is a number;
  \<open>pb_sent\<close> lists the waiters whose write the channel took, in order.
\<close>

record 'd publisher =
  pb_queue :: "(nat \<times> 'd memory_write) list"
  pb_sent :: "nat list"
  pb_closed :: bool
  pb_done :: bool
  pb_replies :: "(nat \<times> result) list"
  pb_store :: "'d pub_db"

definition spawn :: "'d pub_db \<Rightarrow> 'd publisher" where
  "spawn d = \<lparr>pb_queue = [], pb_sent = [], pb_closed = False, pb_done = False, pb_replies = [], pb_store = d\<rparr>"

definition submit :: "nat \<Rightarrow> 'd memory_write \<Rightarrow> 'd publisher \<Rightarrow> 'd publisher" where
  "submit i w s = s\<lparr>pb_queue := pb_queue s @ [(i, w)], pb_sent := pb_sent s @ [i]\<rparr>"

text \<open>One round of the loop: up to \<open>BATCH_CAP\<close> waiting writes, their results sent back in order.\<close>

definition reply_batch :: "result list \<Rightarrow> 'd pub_db \<Rightarrow> 'd publisher \<Rightarrow> 'd publisher" where
  "reply_batch rs d s = s\<lparr>pb_queue := drop BATCH_CAP (pb_queue s),
     pb_replies := pb_replies s @ zip (map fst (take BATCH_CAP (pb_queue s))) rs, pb_store := d\<rparr>"

definition run_batch :: "(nat \<Rightarrow> nat \<Rightarrow> 'd pub_db attempt_env) \<Rightarrow> (nat \<Rightarrow> nat \<Rightarrow> instant) \<Rightarrow> 'd publisher \<Rightarrow> 'd publisher" where
  "run_batch net clock s =
     (let (rs, d) = publish_batch net clock (map snd (take BATCH_CAP (pb_queue s))) (pb_store s) in reply_batch rs d s)"

text \<open>
  The backstop: the batch path panics with some of it committed or not, and every waiter gets the error.
\<close>

definition panicked_batch :: "string \<Rightarrow> 'd pub_db \<Rightarrow> 'd publisher \<Rightarrow> 'd publisher" where
  "panicked_batch why d s =
     reply_batch (map (\<lambda>_. Inl (Abort (''publish batch panicked: '' @ why))) (take BATCH_CAP (pb_queue s))) d s"

inductive pub_step :: "'d publisher \<Rightarrow> 'd publisher \<Rightarrow> bool" where
  ps_submit: "\<not> pb_closed s \<Longrightarrow> length (pb_queue s) < QUEUE_CAP \<Longrightarrow> pub_step s (submit i w s)"
| ps_stop: "pub_step s (s\<lparr>pb_closed := True\<rparr>)"
| ps_batch: "pb_queue s \<noteq> [] \<Longrightarrow> pub_step s (run_batch net clock s)"
| ps_panic: "pb_queue s \<noteq> [] \<Longrightarrow> pub_step s (panicked_batch why d s)"
| ps_finish: "pb_closed s \<Longrightarrow> pb_queue s = [] \<Longrightarrow> pub_step s (s\<lparr>pb_done := True\<rparr>)"
| ps_others: "pub_step s (s\<lparr>pb_store := f (pb_store s)\<rparr>)"

text \<open>\<open>shutdown\<close>: the loop with the channel closed, until it is empty; \<open>net b\<close> is the b-th batch's.\<close>

function drain_queue :: "(nat \<Rightarrow> nat \<Rightarrow> nat \<Rightarrow> 'd pub_db attempt_env) \<Rightarrow> (nat \<Rightarrow> nat \<Rightarrow> nat \<Rightarrow> instant) \<Rightarrow> nat
    \<Rightarrow> 'd publisher \<Rightarrow> 'd publisher" where
  "drain_queue net clock b s =
     (if pb_queue s = [] then s\<lparr>pb_done := True\<rparr> else drain_queue net clock (Suc b) (run_batch (net b) (clock b) s))"
  by pat_completeness auto
termination
  by (relation "measure (\<lambda>(net, clock, b, s). length (pb_queue s))")
     (auto simp: run_batch_def reply_batch_def BATCH_CAP_def split: prod.split)

declare drain_queue.simps [simp del]

definition shutdown :: "(nat \<Rightarrow> nat \<Rightarrow> nat \<Rightarrow> 'd pub_db attempt_env) \<Rightarrow> (nat \<Rightarrow> nat \<Rightarrow> nat \<Rightarrow> instant) \<Rightarrow> 'd publisher \<Rightarrow> 'd publisher" where
  "shutdown net clock s = drain_queue net clock 0 (s\<lparr>pb_closed := True\<rparr>)"

section \<open>Every waiter gets its answer\<close>

lemma apply_writes_counts: "apply_writes ws d = Inr (all, counts, ch, d') \<Longrightarrow> length counts = length ws"
  by (induction ws arbitrary: d all counts ch) (auto split: write_end.splits sum.splits prod.splits)

lemma length_take_counts [simp]: "length (take_counts ns xs) = length ns"
  by (induction ns arbitrary: xs) auto

lemma length_commit_body: "commit_body now ws s = Inr (v, t) \<Longrightarrow> length (fst v) = length ws"
  by (auto simp: commit_body_def split: sum.splits prod.splits if_splits dest: apply_writes_counts)

lemma length_commit: "commit net clock ws d = (Inr v, t) \<Longrightarrow> length v = length ws"
proof -
  assume "commit net clock ws d = (Inr v, t)"
  then obtain c where c: "run_tx net HOT_RECORD_POLICY (\<lambda>a. commit_body (clock a) ws) d = (Inr c, t)"
    and v: "length v = length (fst (outcome_value c))"
    by (auto simp: commit_def Let_def split: prod.splits sum.splits)
  from run_attempts_value[OF c[unfolded run_tx_def Let_def]] obtain a s t' where
    "commit_body (clock a) ws s = Inr (outcome_value c, t')" by blast
  then show ?thesis using v length_commit_body by metis
qed

lemma length_publish_each [simp]: "length (fst (publish_each net clock k ws d)) = length ws"
  by (induction ws arbitrary: k d) (simp_all add: case_prod_unfold Let_def)

lemma length_publish_batch: "length (fst (publish_batch net clock ws d)) = length ws"
  using length_commit[of "net 0" "clock 0" ws d]
  by (auto simp: publish_batch_def split: prod.split sum.split)

definition pub_ok :: "'d publisher \<Rightarrow> bool" where
  "pub_ok s \<longleftrightarrow> map fst (pb_replies s) @ map fst (pb_queue s) = pb_sent s \<and> length (pb_queue s) \<le> QUEUE_CAP
     \<and> (pb_done s \<longrightarrow> pb_closed s \<and> pb_queue s = [])"

lemma reply_batch_ok:
  assumes "pub_ok s" and "length rs = length (take BATCH_CAP (pb_queue s))"
  shows "pub_ok (reply_batch rs d s)"
proof -
  have "map fst (zip (map fst (take BATCH_CAP (pb_queue s))) rs) = map fst (take BATCH_CAP (pb_queue s))"
    using assms(2) by (simp add: map_fst_zip)
  moreover have "map fst (take BATCH_CAP (pb_queue s)) @ map fst (drop BATCH_CAP (pb_queue s)) = map fst (pb_queue s)"
    by (simp flip: map_append)
  ultimately show ?thesis using assms(1)
    unfolding pub_ok_def reply_batch_def by (auto simp del: map_fst_zip simp: take_map drop_map)
qed

lemma run_batch_ok: "pub_ok s \<Longrightarrow> pub_ok (run_batch net clock s)"
  using length_publish_batch[of net clock "map snd (take BATCH_CAP (pb_queue s))" "pb_store s"]
  by (auto simp: run_batch_def split: prod.split intro!: reply_batch_ok)

lemma pub_step_ok: "pub_step s t \<Longrightarrow> pub_ok s \<Longrightarrow> pub_ok t"
proof (induction rule: pub_step.induct)
  case (ps_batch s net clock)
  then show ?case by (simp add: run_batch_ok)
next
  case (ps_panic s why d)
  then show ?case by (auto simp: panicked_batch_def intro: reply_batch_ok)
qed (auto simp: pub_ok_def submit_def)

interpretation publisher: step_system "\<lambda>s. \<exists>d. s = spawn d" pub_step pub_ok
proof unfold_locales
  show "\<exists>d. s = spawn d \<Longrightarrow> pub_ok s" for s :: "'a publisher" by (auto simp: pub_ok_def spawn_def)
  show "pub_ok s \<Longrightarrow> pub_step s t \<Longrightarrow> pub_ok t" for s t :: "'a publisher" by (rule pub_step_ok)
qed

lemma drain_queue_done:
  assumes "pub_ok s" and "pb_closed s"
  shows "pb_done (drain_queue net clock b s) \<and> pb_queue (drain_queue net clock b s) = []
    \<and> map fst (pb_replies (drain_queue net clock b s)) = pb_sent s \<and> run_of pub_step s (drain_queue net clock b s)"
  using assms
proof (induction net clock b s rule: drain_queue.induct)
  case (1 net clock b s)
  show ?case
  proof (cases "pb_queue s = []")
    case True
    with 1 have "run_of pub_step s (s\<lparr>pb_done := True\<rparr>)" by (blast intro: ps_finish)
    with True 1 show ?thesis by (simp add: drain_queue.simps[of net clock b s] pub_ok_def)
  next
    case False
    let ?s = "run_batch (net b) (clock b) s"
    have sent: "pb_sent ?s = pb_sent s" "pb_closed ?s = pb_closed s"
      by (simp_all add: run_batch_def reply_batch_def split: prod.split)
    have "run_of pub_step s ?s" using False by (blast intro: ps_batch)
    with 1(1)[OF False run_batch_ok] 1 sent False show ?thesis
      by (auto simp: drain_queue.simps[of net clock b s] intro: run_trans)
  qed
qed

text \<open>C31: every write the channel takes gets exactly one answer, in the order of submission: in every state
  of the task the answered waiters followed by the waiting ones are those accepted, never more than the
  channel holds; and a shutdown ends, leaves nothing waiting and has answered every one of them.\<close>

theorem publisher_answers:
  assumes "run_of pub_step (spawn d) s"
  shows "map fst (pb_replies s) @ map fst (pb_queue s) = pb_sent s \<and> length (pb_queue s) \<le> QUEUE_CAP
    \<and> (let t = shutdown net clock s in pb_done t \<and> pb_queue t = [] \<and> map fst (pb_replies t) = pb_sent s
         \<and> run_of pub_step (s\<lparr>pb_closed := True\<rparr>) t)"
proof -
  have ok: "pub_ok s" by (rule publisher.inv_reachable[OF _ assms]) blast
  then have "pub_ok (s\<lparr>pb_closed := True\<rparr>)" by (simp add: pub_ok_def)
  from drain_queue_done[OF this, of net clock 0] ok show ?thesis
    by (simp add: shutdown_def pub_ok_def Let_def)
qed

section \<open>Two writes in one batch\<close>

definition demo_change :: "string \<Rightarrow> pub_change" where
  "demo_change i = \<lparr>pc_kind = ''memory'', pc_id = i, pc_revision = ''r'', pc_operation = ''upsert'', pc_gen = ''1'',
     pc_content_hash = [], pc_op_key = i\<rparr>"

definition demo_write :: "string \<Rightarrow> string list \<Rightarrow> string list data_end" where
  "demo_write i x = (if i \<in> set x then Refused_With (Abort ''twice'')
     else Changed \<lparr>wr_changes = [demo_change i], wr_changed = True\<rparr> (x @ [i]))"

definition demo_store :: "string list pub_db" where
  "demo_store = \<lparr>pd_data = [], pd_box = \<lparr>changes = [], work = [], ctr = \<lparr>counter_rows = (\<lambda>_. None), alloc_receipts = []\<rparr>\<rparr>\<rparr>"

definition demo_net :: "nat \<Rightarrow> nat \<Rightarrow> 's attempt_env" where
  "demo_net k a = \<lparr>begin_error = None, others = (\<lambda>s. s), commit_reply = Committed_Ok\<rparr>"

definition demo_once :: "string list pub_db" where
  "demo_once = snd (projr (commit_body 5 [data_write (demo_write ''a'')] demo_store))"

lemma demo_undisturbed: "undisturbed (demo_net k a)"
  by (simp add: demo_net_def undisturbed_def)

lemma demo_each: "\<exists>r. publish_each demo_net (\<lambda>_ _. 5) 1 [data_write (demo_write ''a''), data_write (demo_write ''a'')] demo_store
    = ([Inr r, Inl (Abort ''twice'')], demo_once) \<and> map eq_key (pb_enqueued (outcome_value r)) = [''a'']"
proof -
  let ?w = "data_write (demo_write ''a'')"
  have "\<not> isl (commit_body 5 [?w] demo_store)" by code_simp
  then obtain v where v: "commit_body 5 [?w] demo_store = Inr (v, demo_once)"
    by (cases "commit_body 5 [?w] demo_store") (auto simp: demo_once_def)
  have keys: "map (map eq_key) (fst (fst (projr (commit_body 5 [?w] demo_store)))) = [[''a'']]" by code_simp
  have "isl (commit_body 5 [?w] demo_once)" "projl (commit_body 5 [?w] demo_once) = Abort ''twice''" by code_simp+
  then have e: "commit_body 5 [?w] demo_once = Inl (Abort ''twice'')"
    by (cases "commit_body 5 [?w] demo_once") auto
  from run_tx_quiet(1)[OF demo_undisturbed, where body = "\<lambda>_. commit_body 5 [?w]", OF v]
    run_tx_quiet(2)[OF demo_undisturbed, where body = "\<lambda>_. commit_body 5 [?w]", OF e] keys
  show ?thesis by (auto simp: commit_def v is_conflict_def split: prod.split)
qed

theorem group_commit_equiv_witness:
  "map (isl \<circ> answer) (fst (publish_batch demo_net (\<lambda>_ _. 5) [data_write (demo_write ''a''), data_write (demo_write ''a'')] demo_store))
     = [False, True]
   \<and> pd_data (snd (publish_batch demo_net (\<lambda>_ _. 5) [data_write (demo_write ''a''), data_write (demo_write ''a'')] demo_store)) = [''a'']"
proof -
  have ok: "outbox_ok (pd_box demo_store)" by (simp add: demo_store_def outbox_ok_def)
  have b: "\<forall>f \<in> set [demo_write ''a'', demo_write ''a'']. benign f"
    by (auto simp: benign_def demo_write_def is_conflict_def split: if_splits)
  obtain rs t where p: "publish_batch demo_net (\<lambda>_ _. 5) [data_write (demo_write ''a''), data_write (demo_write ''a'')] demo_store = (rs, t)"
    by (metis prod.exhaust)
  have "pd_data demo_once = [''a'']" by code_simp
  from group_commit_equiv[where net = demo_net and clock = "\<lambda>_ _. 5", OF ok demo_undisturbed refl b] demo_each p obtain r where
    "map answer rs = map answer [Inr r, Inl (Abort ''twice'')]" "pd_data t = pd_data demo_once" by auto
  moreover have "map (isl \<circ> answer) rs = map isl (map answer rs)" by simp
  ultimately show ?thesis using \<open>pd_data demo_once = [''a'']\<close> by (simp add: p answer_def)
qed

theorem publisher_answers_witness:
  "map fst (pb_replies (shutdown (\<lambda>_. demo_net) (\<lambda>_ _ _. 5)
      (submit 1 (data_write (demo_write ''a'')) (submit 0 (data_write (demo_write ''a'')) (spawn demo_store))))) = [0, 1]"
proof -
  have "run_of pub_step (spawn demo_store) (submit 0 (data_write (demo_write ''a'')) (spawn demo_store))"
    by (intro run_step[OF run_refl] ps_submit) (simp_all add: spawn_def QUEUE_CAP_def BATCH_CAP_def)
  then have "run_of pub_step (spawn demo_store)
      (submit 1 (data_write (demo_write ''a'')) (submit 0 (data_write (demo_write ''a'')) (spawn demo_store)))"
    by (rule run_step, intro ps_submit) (simp_all add: spawn_def submit_def QUEUE_CAP_def BATCH_CAP_def)
  from publisher_answers[OF this, of "\<lambda>_. demo_net" "\<lambda>_ _ _. 5"] show ?thesis
    by (simp add: Let_def submit_def spawn_def)
qed

end
