(* ===== verification/Vector_Index.thy ===== *)
theory Vector_Index
  imports Outbox
begin

text \<open>
  The vectors of the Brain memories: the embedder (\<open>storage/vectors.rs\<close>), the chunked write
  (\<open>storage/embeddings.rs\<close>), the recorded index states (\<open>storage/memory.rs\<close>), the rebuild that switches
  the served generation, and the pass over the index changes of the outbox (\<open>storage/index_drain.rs\<close>).
  The embedding function and the hash of a text are arguments; a vector is a list of whatever it returns.
  The texts of errors leave out the numbers they print.
\<close>

section \<open>State\<close>

record mem_row =
  me_text :: string
  me_kind :: string
  me_lifecycle :: string

record 'v vec_row =
  ve_kind :: string
  ve_gen :: int
  ve_revision :: string
  ve_model :: string
  ve_embedding :: "'v list"

record ix_state =
  xs_revision :: string
  xs_fingerprint :: string
  xs_gen :: string

record 'v index_db =
  memories :: "mem_row tbl"
  vectors :: "'v vec_row tbl"
  serving :: "(int \<times> string) option"
  ix_states :: "ix_state tbl"
  ix_box :: outbox

record 'v embedder =
  em_model :: string
  em_embed :: "string list \<Rightarrow> string + 'v list list"

definition DIMENSION :: nat where "DIMENSION = 384"
definition BATCH :: nat where "BATCH = 32"
definition CHUNK :: nat where "CHUNK = 32"

text \<open>An error of the embedder, or of the store.\<close>

datatype ix_error = Embedding string | Store tx_error

text \<open>
  An operation that runs several transactions, the k-th under \<open>net k\<close>; reads see the state in between.
  It returns how far it counted.
\<close>

type_synonym ('v, 'a) ix_op = "nat \<Rightarrow> 'v index_db \<Rightarrow> (ix_error + 'a) \<times> nat \<times> 'v index_db"

type_synonym 'v nets = "nat \<Rightarrow> nat \<Rightarrow> 'v index_db attempt_env"

definition in_tx :: "'v nets \<Rightarrow> ('v index_db, unit) body \<Rightarrow> ('v, unit) ix_op" where
  "in_tx net body k d = (case run_tx (net k) default_policy (\<lambda>_. body) d of
     (Inl e, t) \<Rightarrow> (Inl (Store e), Suc k, t) | (Inr c, t) \<Rightarrow> (Inr (), Suc k, t))"

section \<open>Embedding and writing vectors\<close>

definition embed_run :: "'v embedder \<Rightarrow> string list \<Rightarrow> ix_error + 'v list list" where
  "embed_run e texts = (case em_embed e texts of Inl why \<Rightarrow> Inl (Embedding why)
     | Inr out \<Rightarrow> if length out \<noteq> length texts then Inl (Embedding ''embedder returned another number of vectors'') else Inr out)"

fun put_vectors :: "(string \<times> 'v vec_row) list \<Rightarrow> 'v vec_row tbl \<Rightarrow> 'v vec_row tbl" where
  "put_vectors [] t = t"
| "put_vectors ((i, v) # rs) t = put_vectors rs (put i v t)"

definition put_multi :: "'v nets \<Rightarrow> (string \<times> 'v vec_row) list \<Rightarrow> ('v, unit) ix_op" where
  "put_multi net rows k d =
     (if rows = [] then (Inr (), k, d)
      else case filter (\<lambda>(_, v). length (ve_embedding v) \<noteq> DIMENSION) rows of
        (i, _) # _ \<Rightarrow> (Inl (Store (Abort (''embedding '' @ i @ '': wrong dimension''))), k, d)
      | [] \<Rightarrow> in_tx net (\<lambda>d. Inr ((), d\<lparr>vectors := put_vectors rows (vectors d)\<rparr>)) k d)"

fun chunks :: "nat \<Rightarrow> 'a list \<Rightarrow> 'a list list" where
  "chunks n xs = (if xs = [] \<or> n = 0 then [] else take n xs # chunks n (drop n xs))"

declare chunks.simps [simp del]

text \<open>\<open>memory_revision\<close>, the hash of a text, is an argument.\<close>

definition vector_rows :: "(string \<Rightarrow> string) \<Rightarrow> 'v embedder \<Rightarrow> int \<Rightarrow> (string \<times> mem_row) list \<Rightarrow> 'v list list
    \<Rightarrow> (string \<times> 'v vec_row) list" where
  "vector_rows hash e g rows vs = map (\<lambda>((i, m), v). (i, \<lparr>ve_kind = me_kind m, ve_gen = g, ve_revision = hash (me_text m),
     ve_model = em_model e, ve_embedding = v\<rparr>)) (zip rows vs)"

fun put_chunks :: "(string \<Rightarrow> string) \<Rightarrow> 'v nets \<Rightarrow> 'v embedder \<Rightarrow> int \<Rightarrow> (string \<times> mem_row) list list \<Rightarrow> ('v, unit) ix_op" where
  "put_chunks hash net e g [] k d = (Inr (), k, d)"
| "put_chunks hash net e g (c # cs) k d =
     (case embed_run e (map (me_text \<circ> snd) c) of
        Inl err \<Rightarrow> (Inl err, k, d)
      | Inr vs \<Rightarrow> (case put_multi net (vector_rows hash e g c vs) k d of
            (Inl err, k, d) \<Rightarrow> (Inl err, k, d)
          | (Inr _, k, d) \<Rightarrow> put_chunks hash net e g cs k d))"

fun put_states :: "(string \<Rightarrow> string) \<Rightarrow> string \<Rightarrow> string \<Rightarrow> (string \<times> mem_row) list \<Rightarrow> ix_state tbl \<Rightarrow> ix_state tbl" where
  "put_states hash fp g [] t = t"
| "put_states hash fp g ((i, m) # rs) t =
     put_states hash fp g rs (put i \<lparr>xs_revision = hash (me_text m), xs_fingerprint = fp, xs_gen = g\<rparr> t)"

text \<open>\<open>g.to_string()\<close> of a generation is an argument.\<close>

definition put_all :: "(string \<Rightarrow> string) \<Rightarrow> (int \<Rightarrow> string) \<Rightarrow> 'v nets \<Rightarrow> 'v embedder \<Rightarrow> (string \<times> mem_row) list \<Rightarrow> int
    \<Rightarrow> ('v, unit) ix_op" where
  "put_all hash dec net e rows g k d =
     (case put_chunks hash net e g (chunks BATCH rows) k d of
        (Inl err, k, d) \<Rightarrow> (Inl err, k, d)
      | (Inr _, k, d) \<Rightarrow> in_tx net (\<lambda>d. Inr ((), d\<lparr>ix_states := put_states hash (em_model e) (dec g) rows (ix_states d)\<rparr>)) k d)"

definition active_memory :: "mem_row \<Rightarrow> bool" where
  "active_memory m \<longleftrightarrow> me_lifecycle m = ''active''"

section \<open>Reindexing\<close>

record reindex_report =
  rx_memories :: nat
  rx_generation :: int
  rx_fingerprint :: string

definition next_generation :: "'v index_db \<Rightarrow> int" where
  "next_generation d = (case serving d of Some (g, _) \<Rightarrow> g + 1 | None \<Rightarrow> 1)"

definition switch_generation :: "int \<Rightarrow> string \<Rightarrow> 'v index_db \<Rightarrow> 'v index_db" where
  "switch_generation g model d = d\<lparr>serving := Some (g, model), vectors := delete_where (\<lambda>_ v. ve_gen v \<noteq> g) (vectors d)\<rparr>"

definition reindex :: "(string \<Rightarrow> string) \<Rightarrow> (int \<Rightarrow> string) \<Rightarrow> 'v nets \<Rightarrow> 'v embedder \<Rightarrow> ('v, reindex_report) ix_op" where
  "reindex hash dec net e k d =
     (let g = next_generation d; rows = filter (\<lambda>(_, m). active_memory m) (memories d)
      in case put_all hash dec net e rows g k d of
        (Inl err, k, d) \<Rightarrow> (Inl err, k, d)
      | (Inr _, k, d) \<Rightarrow> (case in_tx net (\<lambda>d. Inr ((), switch_generation g (em_model e) d)) k d of
            (Inl err, k, d) \<Rightarrow> (Inl err, k, d)
          | (Inr _, k, d) \<Rightarrow> (Inr \<lparr>rx_memories = length rows, rx_generation = g, rx_fingerprint = em_model e\<rparr>, k, d)))"

text \<open>\<open>SELECT \<dots> FROM $ids WHERE lifecycle = 'active'\<close>: the given records, in that order.\<close>

definition index_new_batch :: "(string \<Rightarrow> string) \<Rightarrow> (int \<Rightarrow> string) \<Rightarrow> 'v nets \<Rightarrow> 'v embedder \<Rightarrow> string list
    \<Rightarrow> ('v, bool list) ix_op" where
  "index_new_batch hash dec net e is k d =
     (if is = [] then (Inr [], k, d)
      else case serving d of
        None \<Rightarrow> (Inr (replicate (length is) False), k, d)
      | Some (g, model) \<Rightarrow>
          if model \<noteq> em_model e then (Inr (replicate (length is) False), k, d)
          else (let rows = List.map_filter (\<lambda>i. case row (memories d) i of
                     Some m \<Rightarrow> if active_memory m then Some (i, m) else None | None \<Rightarrow> None) is
                in case put_all hash dec net e rows g k d of
                     (Inl err, k, d) \<Rightarrow> (Inl err, k, d)
                   | (Inr _, k, d) \<Rightarrow> (Inr (map (\<lambda>i. i \<in> fst ` set rows) is), k, d)))"

definition index_new :: "(string \<Rightarrow> string) \<Rightarrow> (int \<Rightarrow> string) \<Rightarrow> 'v nets \<Rightarrow> 'v embedder \<Rightarrow> string list \<Rightarrow> ('v, nat) ix_op" where
  "index_new hash dec net e is k d = (let (r, k, d) = index_new_batch hash dec net e is k d
     in (map_sum (\<lambda>e. e) (\<lambda>applied. length (filter (\<lambda>b. b) applied)) r, k, d))"

text \<open>The vector of a query; an embedder answers one text with one vector, or \<open>embed_run\<close> failed.\<close>

definition query_vector :: "'v embedder \<Rightarrow> string \<Rightarrow> 'v index_db \<Rightarrow> ix_error + ((int \<times> string) \<times> 'v list) option" where
  "query_vector e text d = (case serving d of None \<Rightarrow> Inr None
     | Some (g, model) \<Rightarrow> if model \<noteq> em_model e then Inr None
         else (case embed_run e [text] of Inl err \<Rightarrow> Inl err
           | Inr vs \<Rightarrow> if vs = [] then Inl (Embedding ''no query vector'') else Inr (Some ((g, model), List.last vs))))"

section \<open>Draining the outbox\<close>

record drained =
  dn_completed :: nat
  dn_failed :: nat

definition work_key_of :: "change \<Rightarrow> string" where
  "work_key_of c = (if ic_work_key c = [] then work_key (ic_kind c) (ic_id c) (ic_revision c) (ic_operation c) else ic_work_key c)"

definition item_of :: "string \<times> change \<Rightarrow> string \<Rightarrow> string \<Rightarrow> ack_item" where
  "item_of kc state outcome = (let (key, c) = kc in \<lparr>ai_op_key = key, ai_revision = ic_revision c, ai_gen = ic_gen c,
     ai_state = state, ai_outcome = outcome, ai_work_key = work_key_of c\<rparr>)"

text \<open>\<open>format!("{err:#}")\<close> of an error is an argument.\<close>

definition ack_all :: "'v nets \<Rightarrow> (nat \<Rightarrow> instant) \<Rightarrow> ack_item list \<Rightarrow> drained \<Rightarrow> ('v, drained) ix_op" where
  "ack_all net clock items out k d =
     (if items = [] then (Inr out, k, d)
      else (let completed = length (filter (\<lambda>i. ai_state i = ''completed'') items)
            in case in_tx net (\<lambda>d. case ack_many items (clock k) (ix_box d) of Inl e \<Rightarrow> Inl e | Inr (_, b) \<Rightarrow> Inr ((), d\<lparr>ix_box := b\<rparr>)) k d of
                 (Inl err, k, d) \<Rightarrow> (Inl err, k, d)
               | (Inr _, k, d) \<Rightarrow> (Inr \<lparr>dn_completed = dn_completed out + completed,
                    dn_failed = dn_failed out + (length items - completed)\<rparr>, k, d)))"

definition indexed_item :: "string \<times> change \<Rightarrow> bool \<Rightarrow> ack_item" where
  "indexed_item kc applied = item_of kc ''completed'' (if applied then ''indexed'' else ''skipped'')"

fun flush_rows :: "(ix_error \<Rightarrow> string) \<Rightarrow> (string \<Rightarrow> string) \<Rightarrow> (int \<Rightarrow> string) \<Rightarrow> 'v nets \<Rightarrow> 'v embedder \<Rightarrow> (string \<times> change) list
    \<Rightarrow> nat \<Rightarrow> 'v index_db \<Rightarrow> ack_item list \<times> nat \<times> 'v index_db" where
  "flush_rows why hash dec net e [] k d = ([], k, d)"
| "flush_rows why hash dec net e (c # cs) k d =
     (let (r, k, d) = index_new_batch hash dec net e [ic_id (snd c)] k d;
          item = (case r of Inr (b # _) \<Rightarrow> indexed_item c b | Inr [] \<Rightarrow> indexed_item c False
                  | Inl err \<Rightarrow> item_of c ''failed'' (why err));
          (items, k, d) = flush_rows why hash dec net e cs k d
      in (item # items, k, d))"

definition flush :: "(ix_error \<Rightarrow> string) \<Rightarrow> (string \<Rightarrow> string) \<Rightarrow> (int \<Rightarrow> string) \<Rightarrow> 'v nets \<Rightarrow> (nat \<Rightarrow> instant) \<Rightarrow> 'v embedder
    \<Rightarrow> (string \<times> change) list \<Rightarrow> drained \<Rightarrow> ('v, drained) ix_op" where
  "flush why hash dec net clock e grp out k d =
     (if grp = [] then (Inr out, k, d)
      else case index_new_batch hash dec net e (map (ic_id \<circ> snd) grp) k d of
        (Inr applied, k, d) \<Rightarrow> ack_all net clock (map (\<lambda>(c, b). indexed_item c b) (zip grp applied)) out k d
      | (Inl _, k, d) \<Rightarrow> (let (items, k, d) = flush_rows why hash dec net e grp k d in ack_all net clock items out k d))"

definition apply_remove :: "string \<Rightarrow> 'v index_db \<Rightarrow> 'v index_db" where
  "apply_remove i d = d\<lparr>vectors := delete_where (\<lambda>k _. k = i) (vectors d)\<rparr>"

text \<open>A query outside the runner: one attempt, whatever the error.\<close>

definition in_query :: "'v nets \<Rightarrow> ('v index_db \<Rightarrow> 'v index_db) \<Rightarrow> ('v, unit) ix_op" where
  "in_query net f k d = (case run_tx (net k) \<lparr>max_attempts = 1, base = 0, cap = 0\<rparr> (\<lambda>_ d. Inr ((), f d)) d of
     (Inl e, t) \<Rightarrow> (Inl (Store e), Suc k, t) | (Inr c, t) \<Rightarrow> (Inr (), Suc k, t))"

fun drain_changes :: "(ix_error \<Rightarrow> string) \<Rightarrow> (string \<Rightarrow> string) \<Rightarrow> (int \<Rightarrow> string) \<Rightarrow> 'v nets \<Rightarrow> (nat \<Rightarrow> instant) \<Rightarrow> 'v embedder
    \<Rightarrow> (string \<times> change) list \<Rightarrow> (string \<times> change) list \<Rightarrow> drained \<Rightarrow> ('v, drained) ix_op" where
  "drain_changes why hash dec net clock e [] grp out k d = flush why hash dec net clock e grp out k d"
| "drain_changes why hash dec net clock e (c # cs) grp out k d =
     (if normalized_operation (ic_operation (snd c)) = ''index_remove''
      then (case flush why hash dec net clock e grp out k d of
          (Inl err, k, d) \<Rightarrow> (Inl err, k, d)
        | (Inr out, k, d) \<Rightarrow>
            (let (r, k, d) = in_query net (apply_remove (ic_id (snd c))) k d;
                 item = (case r of Inr _ \<Rightarrow> item_of c ''completed'' ''removed'' | Inl err \<Rightarrow> item_of c ''failed'' (why err))
             in case ack_all net clock [item] out k d of
                  (Inl err, k, d) \<Rightarrow> (Inl err, k, d)
                | (Inr out, k, d) \<Rightarrow> drain_changes why hash dec net clock e cs [] out k d))
      else if CHUNK \<le> length grp
      then (case flush why hash dec net clock e grp out k d of
          (Inl err, k, d) \<Rightarrow> (Inl err, k, d)
        | (Inr out, k, d) \<Rightarrow> drain_changes why hash dec net clock e cs [c] out k d)
      else drain_changes why hash dec net clock e cs (grp @ [c]) out k d)"

definition drain_index :: "(ix_error \<Rightarrow> string) \<Rightarrow> (string \<Rightarrow> string) \<Rightarrow> (int \<Rightarrow> string) \<Rightarrow> 'v nets \<Rightarrow> (nat \<Rightarrow> instant) \<Rightarrow> 'v embedder
    \<Rightarrow> nat \<Rightarrow> ('v, drained) ix_op" where
  "drain_index why hash dec net clock e limit k d =
     drain_changes why hash dec net clock e (pending_of_kind ''memory'' 0 (max limit 1) (ix_box d)) []
       \<lparr>dn_completed = 0, dn_failed = 0\<rparr> k d"

section \<open>What a pass over the outbox does\<close>

text \<open>
  An embedder that works text by text: a text has a vector or makes every call with it fail.
\<close>

definition pointwise :: "'v embedder \<Rightarrow> (string \<Rightarrow> 'v list option) \<Rightarrow> string \<Rightarrow> bool" where
  "pointwise e good fault \<longleftrightarrow>
     (\<forall>ts. em_embed e ts = (if \<forall>t \<in> set ts. good t \<noteq> None then Inr (map (the \<circ> good) ts) else Inl fault))
     \<and> (\<forall>t v. good t = Some v \<longrightarrow> length v = DIMENSION)"

text \<open>The memory a change would embed: active, while a generation of this model is served.\<close>

definition target :: "'v embedder \<Rightarrow> 'v index_db \<Rightarrow> string \<Rightarrow> (int \<times> mem_row) option" where
  "target e d i = (case serving d of None \<Rightarrow> None | Some (g, model) \<Rightarrow>
     if model \<noteq> em_model e then None
     else (case row (memories d) i of None \<Rightarrow> None | Some m \<Rightarrow> if active_memory m then Some (g, m) else None))"

definition is_removal :: "string \<times> change \<Rightarrow> bool" where
  "is_removal c \<longleftrightarrow> normalized_operation (ic_operation (snd c)) = ''index_remove''"

text \<open>One change on its own: the vectors after it, and what it is acknowledged with.\<close>

definition embed_one :: "(string \<Rightarrow> string) \<Rightarrow> 'v embedder \<Rightarrow> (string \<Rightarrow> 'v list option) \<Rightarrow> 'v index_db
    \<Rightarrow> 'v vec_row tbl \<Rightarrow> string \<Rightarrow> 'v vec_row tbl" where
  "embed_one hash e good d t i = (case target e d i of None \<Rightarrow> t | Some (g, m) \<Rightarrow>
     (case good (me_text m) of None \<Rightarrow> t | Some v \<Rightarrow> put i \<lparr>ve_kind = me_kind m, ve_gen = g, ve_revision = hash (me_text m),
        ve_model = em_model e, ve_embedding = v\<rparr> t))"

definition apply_change :: "(string \<Rightarrow> string) \<Rightarrow> 'v embedder \<Rightarrow> (string \<Rightarrow> 'v list option) \<Rightarrow> 'v index_db
    \<Rightarrow> 'v vec_row tbl \<Rightarrow> string \<times> change \<Rightarrow> 'v vec_row tbl" where
  "apply_change hash e good d t c = (if is_removal c then delete_where (\<lambda>k _. k = ic_id (snd c)) t
     else embed_one hash e good d t (ic_id (snd c)))"

definition verdict :: "'v embedder \<Rightarrow> (string \<Rightarrow> 'v list option) \<Rightarrow> string \<Rightarrow> 'v index_db \<Rightarrow> string \<times> change \<Rightarrow> ack_item" where
  "verdict e good fault d c = (if is_removal c then item_of c ''completed'' ''removed''
     else case target e d (ic_id (snd c)) of None \<Rightarrow> indexed_item c False
       | Some (g, m) \<Rightarrow> if good (me_text m) \<noteq> None then indexed_item c True else item_of c ''failed'' fault)"

lemma target_cong: "memories d = memories d' \<Longrightarrow> serving d = serving d' \<Longrightarrow> target e d = target e d'"
  by (simp add: target_def fun_eq_iff split: option.split)

lemma spec_cong:
  assumes "memories d = memories d'" "serving d = serving d'"
  shows "embed_one hash e good d = embed_one hash e good d'" "apply_change hash e good d = apply_change hash e good d'"
    "verdict e good fault d = verdict e good fault d'"
  using target_cong[OF assms] by (simp_all add: embed_one_def apply_change_def verdict_def fun_eq_iff)

lemma in_tx_quiet:
  assumes "\<And>k a. undisturbed (net k a)" and "body d = Inr ((), t)"
  shows "in_tx net body k d = (Inr (), Suc k, t)"
  using run_tx_quiet(1)[of "net k" "\<lambda>_. body", OF assms] by (simp add: in_tx_def)

lemma in_query_quiet:
  assumes "\<And>k a. undisturbed (net k a)"
  shows "in_query net f k d = (Inr (), Suc k, f d)"
  using run_tx_quiet(1)[of "net k" "\<lambda>_ d. Inr ((), f d)", OF assms] by (simp add: in_query_def)

lemma put_multi_quiet:
  assumes "\<And>k a. undisturbed (net k a)" and "\<forall>(i, v) \<in> set rows. length (ve_embedding v) = DIMENSION"
  shows "\<exists>k'. put_multi net rows k d = (Inr (), k', d\<lparr>vectors := put_vectors rows (vectors d)\<rparr>)"
proof (cases "rows = []")
  case True
  then show ?thesis by (auto simp: put_multi_def)
next
  case False
  have "filter (\<lambda>(_, v). length (ve_embedding v) \<noteq> DIMENSION) rows = []"
    using assms(2) by (auto simp: filter_empty_conv)
  with False show ?thesis by (simp add: put_multi_def in_tx_quiet[OF assms(1)])
qed

lemma chunks_one: "xs \<noteq> [] \<Longrightarrow> length xs \<le> n \<Longrightarrow> chunks n xs = [xs]"
  by (cases xs; subst chunks.simps) (auto simp: chunks.simps[of n "[]"])

lemma chunks_Nil [simp]: "chunks n [] = []"
  by (simp add: chunks.simps)

abbreviation "gtext good rows \<equiv> \<forall>t \<in> set (map (me_text \<circ> snd) rows). good t \<noteq> None"

lemma put_all_quiet:
  assumes q: "\<And>k a. undisturbed (net k a)" and e: "pointwise e good fault" and len: "length rows \<le> BATCH"
  shows "gtext good rows \<Longrightarrow> \<exists>k' st. put_all hash dec net e rows g k d = (Inr (), k',
      d\<lparr>vectors := put_vectors (vector_rows hash e g rows (map (the \<circ> good \<circ> me_text \<circ> snd) rows)) (vectors d), ix_states := st\<rparr>)"
    and "\<not> gtext good rows \<Longrightarrow> put_all hash dec net e rows g k d = (Inl (Embedding fault), k, d)"
proof -
  show "\<exists>k' st. put_all hash dec net e rows g k d = (Inr (), k',
      d\<lparr>vectors := put_vectors (vector_rows hash e g rows (map (the \<circ> good \<circ> me_text \<circ> snd) rows)) (vectors d), ix_states := st\<rparr>)"
    if good: "gtext good rows"
  proof (cases "rows = []")
    case True
    then show ?thesis
      by (simp add: put_all_def in_tx_quiet[OF q] vector_rows_def) (rule exI[of _ "ix_states d"], simp)
  next
    case False
    let ?vs = "map (the \<circ> good \<circ> me_text \<circ> snd) rows"
    have run: "embed_run e (map (me_text \<circ> snd) rows) = Inr ?vs"
      using e good by (simp add: embed_run_def pointwise_def comp_assoc)
    have "\<forall>(i, v) \<in> set (vector_rows hash e g rows ?vs). length (ve_embedding v) = DIMENSION"
      using e good by (force simp: vector_rows_def pointwise_def set_zip)
    from put_multi_quiet[where net = net, OF q this, where k = k and d = d] obtain k' where
      "put_multi net (vector_rows hash e g rows ?vs) k d = (Inr (), k', d\<lparr>vectors := put_vectors (vector_rows hash e g rows ?vs) (vectors d)\<rparr>)" by blast
    then show ?thesis
      by (simp add: put_all_def chunks_one[OF False len] run in_tx_quiet[OF q]) blast
  qed
  show "put_all hash dec net e rows g k d = (Inl (Embedding fault), k, d)" if "\<not> gtext good rows"
  proof -
    from that have ne: "rows \<noteq> []" by auto
    have "embed_run e (map (me_text \<circ> snd) rows) = Inl (Embedding fault)"
      using e that by (simp add: embed_run_def pointwise_def)
    then show ?thesis by (simp add: put_all_def chunks_one[OF ne len])
  qed
qed

text \<open>The rows of a group, and the vectors they leave.\<close>

abbreviation target_rows :: "'v index_db \<Rightarrow> string list \<Rightarrow> (string \<times> mem_row) list" where
  "target_rows d is \<equiv> List.map_filter (\<lambda>i. case row (memories d) i of
     Some m \<Rightarrow> if active_memory m then Some (i, m) else None | None \<Rightarrow> None) is"

lemma target_rows_simps [simp]:
  "target_rows d [] = []"
  "target_rows d (i # is) = (case row (memories d) i of Some m \<Rightarrow> if active_memory m then (i, m) # target_rows d is
     else target_rows d is | None \<Rightarrow> target_rows d is)"
  by (simp_all add: map_filter_simps split: option.split)

lemma target_rows_length: "length (target_rows d is) \<le> length is"
  by (induction "is") (auto split: option.split)

lemma mem_target_rows:
  "serving d = Some (g, em_model e) \<Longrightarrow> i \<in> fst ` set (target_rows d is) \<longleftrightarrow> i \<in> set is \<and> target e d i \<noteq> None"
  by (induction "is") (auto simp: target_def split: option.splits if_splits)

lemma put_target_rows:
  assumes "serving d = Some (g, em_model e)" and "gtext good (target_rows d is)"
  shows "put_vectors (vector_rows hash e g (target_rows d is) (map (the \<circ> good \<circ> me_text \<circ> snd) (target_rows d is))) t
    = foldl (embed_one hash e good d) t is"
  using assms(2)
proof (induction "is" arbitrary: t)
  case Nil
  then show ?case by (simp add: vector_rows_def)
next
  case (Cons i "is")
  have t: "target e d i = (case row (memories d) i of None \<Rightarrow> None | Some m \<Rightarrow> if active_memory m then Some (g, m) else None)"
    using assms(1) by (simp add: target_def)
  show ?case
  proof (cases "\<exists>m. row (memories d) i = Some m \<and> active_memory m")
    case True
    then obtain m where m: "row (memories d) i = Some m" "active_memory m" by blast
    with Cons.prems obtain v where v: "good (me_text m) = Some v" by auto
    from Cons.IH Cons.prems m show ?thesis by (simp add: vector_rows_def embed_one_def t v)
  next
    case False
    then have "target_rows d (i # is) = target_rows d is" "target e d i = None"
      by (auto simp: t split: option.split)
    with Cons show ?thesis by (simp add: embed_one_def)
  qed
qed

lemma embed_one_none: "\<forall>i \<in> set is. target e d i = None \<Longrightarrow> foldl (embed_one hash e good d) t is = t"
  by (induction "is" arbitrary: t) (simp_all add: embed_one_def)

definition embeds :: "(string \<Rightarrow> 'v list option) \<Rightarrow> 'v embedder \<Rightarrow> 'v index_db \<Rightarrow> string \<Rightarrow> bool" where
  "embeds good e d i \<longleftrightarrow> (case target e d i of None \<Rightarrow> True | Some (g, m) \<Rightarrow> good (me_text m) \<noteq> None)"

lemma gtext_embeds:
  "serving d = Some (g, em_model e) \<Longrightarrow> gtext good (target_rows d is) \<longleftrightarrow> (\<forall>i \<in> set is. embeds good e d i)"
  by (induction "is") (auto simp: embeds_def target_def split: option.splits if_splits)

lemma index_new_batch_quiet:
  assumes q: "\<And>k a. undisturbed (net k a)" and e: "pointwise e good fault" and len: "length is \<le> CHUNK"
  shows "\<forall>i \<in> set is. embeds good e d i \<Longrightarrow> \<exists>k' st. index_new_batch hash dec net e is k d
      = (Inr (map (\<lambda>i. target e d i \<noteq> None) is), k', d\<lparr>vectors := foldl (embed_one hash e good d) (vectors d) is, ix_states := st\<rparr>)"
    and "\<not> (\<forall>i \<in> set is. embeds good e d i) \<Longrightarrow> index_new_batch hash dec net e is k d = (Inl (Embedding fault), k, d)"
proof -
  have same: "d = d\<lparr>vectors := vectors d, ix_states := ix_states d\<rparr>" by simp
  show "\<exists>k' st. index_new_batch hash dec net e is k d
      = (Inr (map (\<lambda>i. target e d i \<noteq> None) is), k', d\<lparr>vectors := foldl (embed_one hash e good d) (vectors d) is, ix_states := st\<rparr>)"
    if emb: "\<forall>i \<in> set is. embeds good e d i"
  proof (cases "\<exists>g. serving d = Some (g, em_model e)")
    case False
    then have none: "target e d i = None" for i by (auto simp: target_def split: option.split)
    have "index_new_batch hash dec net e is k d = (Inr (replicate (length is) False), k, d)"
      using False by (auto simp: index_new_batch_def split: option.split)
    then show ?thesis
      by (intro exI[of _ k] exI[of _ "ix_states d"]) (simp add: none embed_one_none map_replicate_const)
  next
    case True
    then obtain g where g: "serving d = Some (g, em_model e)" by blast
    show ?thesis
    proof (cases "is = []")
      case True
      then show ?thesis by (intro exI[of _ k] exI[of _ "ix_states d"]) (simp add: index_new_batch_def)
    next
      case False
      have len': "length (target_rows d is) \<le> BATCH"
        using target_rows_length[of d "is"] len by (simp add: CHUNK_def BATCH_def)
      have gt: "gtext good (target_rows d is)" using emb by (simp only: gtext_embeds[OF g])
      from put_all_quiet(1)[where net = net, OF q e len' gt, where k = k and d = d and g = g and hash = hash and dec = dec]
      obtain k' st where p: "put_all hash dec net e (target_rows d is) g k d = (Inr (), k',
          d\<lparr>vectors := foldl (embed_one hash e good d) (vectors d) is, ix_states := st\<rparr>)"
        unfolding put_target_rows[OF g gt] by blast
      have "map (\<lambda>i. i \<in> fst ` set (target_rows d is)) is = map (\<lambda>i. target e d i \<noteq> None) is"
        using mem_target_rows[OF g] by (intro map_cong refl) auto
      with False p show ?thesis by (simp add: index_new_batch_def g Let_def) blast
    qed
  qed
  show "index_new_batch hash dec net e is k d = (Inl (Embedding fault), k, d)" if bad: "\<not> (\<forall>i \<in> set is. embeds good e d i)"
  proof -
    from bad obtain i where i: "i \<in> set is" "\<not> embeds good e d i" by blast
    then obtain g where g: "serving d = Some (g, em_model e)"
      by (auto simp: embeds_def target_def split: option.splits if_splits)
    have len': "length (target_rows d is) \<le> BATCH"
      using target_rows_length[of d "is"] len by (simp add: CHUNK_def BATCH_def)
    have "\<not> gtext good (target_rows d is)" using bad by (simp only: gtext_embeds[OF g] not_False_eq_True)
    then have "put_all hash dec net e (target_rows d is) g k d = (Inl (Embedding fault), k, d)"
      by (rule put_all_quiet(2)[where net = net, OF q e len'])
    with i show ?thesis by (auto simp: index_new_batch_def g Let_def)
  qed
qed

definition tally :: "drained \<Rightarrow> ack_item list \<Rightarrow> drained" where
  "tally out items = (let n = length (filter (\<lambda>i. ai_state i = ''completed'') items)
     in \<lparr>dn_completed = dn_completed out + n, dn_failed = dn_failed out + (length items - n)\<rparr>)"

definition acked :: "instant \<Rightarrow> ack_item list \<Rightarrow> outbox \<Rightarrow> outbox" where
  "acked now items b = foldl (\<lambda>b i. ack_block i now b) b items"

lemma acked_simps [simp]: "acked now [] b = b" "acked now (i # is) b = acked now is (ack_block i now b)"
  "acked now (xs @ ys) b = acked now ys (acked now xs b)"
  by (simp_all add: acked_def)

lemma tally_Nil [simp]: "tally out [] = out" by (simp add: tally_def)

lemma tally_append [simp]: "tally (tally out xs) ys = tally out (xs @ ys)"
  by (simp add: tally_def Let_def)
    (insert length_filter_le[of "\<lambda>i. ai_state i = ''completed''" xs] length_filter_le[of "\<lambda>i. ai_state i = ''completed''" ys], linarith)

lemma ack_all_quiet:
  assumes q: "\<And>k a. undisturbed (net k a)" and now: "\<And>k. clock k = now" and f: "\<forall>i \<in> set items. final_state (ai_state i)"
  shows "\<exists>k'. ack_all net clock items out k d = (Inr (tally out items), k', d\<lparr>ix_box := acked now items (ix_box d)\<rparr>)"
proof (cases "items = []")
  case True
  then show ?thesis by (simp add: ack_all_def)
next
  case False
  have "ack_many items now (ix_box d) = Inr ((), acked now items (ix_box d))"
    using f False by (simp add: ack_many_def acked_def filter_empty_conv split: list.split)
  with False show ?thesis by (simp add: ack_all_def in_tx_quiet[OF q] now tally_def Let_def)
qed

lemma verdict_final: "final_state (ai_state (verdict e good fault d c))"
  by (auto simp: verdict_def indexed_item_def item_of_def final_state_def split: option.split prod.split)

lemma item_upsert:
  "\<not> is_removal c \<Longrightarrow> embeds good e d (ic_id (snd c)) \<Longrightarrow> indexed_item c (target e d (ic_id (snd c)) \<noteq> None) = verdict e good fault d c"
  by (auto simp: verdict_def embeds_def split: option.split)

lemma flush_rows_quiet:
  assumes q: "\<And>k a. undisturbed (net k a)" and e: "pointwise e good fault"
    and u: "\<forall>c \<in> set grp. \<not> is_removal c"
  shows "\<exists>k' st. flush_rows (\<lambda>err. case err of Embedding w \<Rightarrow> w | Store _ \<Rightarrow> other) hash dec net e grp k d
    = (map (verdict e good fault d) grp, k', d\<lparr>vectors := foldl (embed_one hash e good d) (vectors d) (map (ic_id \<circ> snd) grp), ix_states := st\<rparr>)"
  using u
proof (induction grp arbitrary: k d)
  case Nil
  then show ?case by (auto intro: exI[of _ "ix_states d"])
next
  case (Cons c grp)
  let ?i = "ic_id (snd c)" and ?why = "\<lambda>err. case err of Embedding w \<Rightarrow> w | Store _ \<Rightarrow> other"
  have len: "length [?i] \<le> CHUNK" by (simp add: CHUNK_def)
  have "\<exists>r k1 st1. index_new_batch hash dec net e [?i] k d = (r, k1, d\<lparr>vectors := embed_one hash e good d (vectors d) ?i, ix_states := st1\<rparr>)
    \<and> (case r of Inr (b # _) \<Rightarrow> indexed_item c b | Inr [] \<Rightarrow> indexed_item c False | Inl err \<Rightarrow> item_of c ''failed'' (?why err)) = verdict e good fault d c"
  proof (cases "embeds good e d ?i")
    case True
    with index_new_batch_quiet(1)[where net = net, OF q e len, where d = d and k = k and hash = hash and dec = dec] obtain k1 st1 where
      "index_new_batch hash dec net e [?i] k d = (Inr [target e d ?i \<noteq> None], k1, d\<lparr>vectors := embed_one hash e good d (vectors d) ?i, ix_states := st1\<rparr>)"
      by auto
    with item_upsert[OF _ True] Cons.prems show ?thesis by (intro exI conjI) auto
  next
    case False
    then have v: "verdict e good fault d c = item_of c ''failed'' fault" "embed_one hash e good d (vectors d) ?i = vectors d"
      using Cons.prems by (auto simp: verdict_def embeds_def embed_one_def split: option.splits)
    from False have "index_new_batch hash dec net e [?i] k d = (Inl (Embedding fault), k, d)"
      by (intro index_new_batch_quiet(2)[OF q e len]) simp
    then show ?thesis by (intro exI[of _ "Inl (Embedding fault)"] exI[of _ k] exI[of _ "ix_states d"]) (simp add: v)
  qed
  then obtain r k1 st1 where r: "index_new_batch hash dec net e [?i] k d = (r, k1, d\<lparr>vectors := embed_one hash e good d (vectors d) ?i, ix_states := st1\<rparr>)"
    "(case r of Inr (b # _) \<Rightarrow> indexed_item c b | Inr [] \<Rightarrow> indexed_item c False | Inl err \<Rightarrow> item_of c ''failed'' (?why err)) = verdict e good fault d c"
    by blast
  let ?d = "d\<lparr>vectors := embed_one hash e good d (vectors d) ?i, ix_states := st1\<rparr>"
  have cong: "embed_one hash e good ?d = embed_one hash e good d" "verdict e good fault ?d = verdict e good fault d"
    by (rule spec_cong; simp)+
  have u': "\<forall>c \<in> set grp. \<not> is_removal c" using Cons.prems by simp
  from Cons.IH[OF u', of k1 ?d] obtain k2 st2 where
    "flush_rows ?why hash dec net e grp k1 ?d = (map (verdict e good fault d) grp, k2,
      ?d\<lparr>vectors := foldl (embed_one hash e good d) (vectors ?d) (map (ic_id \<circ> snd) grp), ix_states := st2\<rparr>)"
    unfolding cong by blast
  with r show ?case by (intro exI[of _ k2] exI[of _ st2]) (simp add: Let_def comp_def)
qed

abbreviation "why_of other \<equiv> \<lambda>err. case err of Embedding w \<Rightarrow> w | Store _ \<Rightarrow> other"

text \<open>What a pass leaves: the sources unchanged, the vectors and the acknowledgments of the changes one by one.\<close>

definition pass :: "(string \<Rightarrow> string) \<Rightarrow> 'v embedder \<Rightarrow> (string \<Rightarrow> 'v list option) \<Rightarrow> string \<Rightarrow> instant \<Rightarrow> (string \<times> change) list
    \<Rightarrow> 'v index_db \<Rightarrow> 'v index_db \<Rightarrow> bool" where
  "pass hash e good fault now cs d t \<longleftrightarrow> memories t = memories d \<and> serving t = serving d
     \<and> vectors t = foldl (apply_change hash e good d) (vectors d) cs
     \<and> ix_box t = acked now (map (verdict e good fault d) cs) (ix_box d)"

lemma pass_trans:
  assumes "pass hash e good fault now as d t" and "pass hash e good fault now bs t u"
  shows "pass hash e good fault now (as @ bs) d u"
proof -
  have m: "memories t = memories d" "serving t = serving d" using assms(1) by (simp_all add: pass_def)
  show ?thesis using assms by (simp add: pass_def spec_cong[OF m])
qed

lemma apply_upserts:
  "\<forall>c \<in> set grp. \<not> is_removal c \<Longrightarrow>
     foldl (embed_one hash e good d) t (map (ic_id \<circ> snd) grp) = foldl (apply_change hash e good d) t grp"
  by (induction grp arbitrary: t) (simp_all add: apply_change_def)

lemma flush_quiet:
  assumes q: "\<And>k a. undisturbed (net k a)" and e: "pointwise e good fault" and now: "\<And>k. clock k = now"
    and u: "\<forall>c \<in> set grp. \<not> is_removal c" and len: "length grp \<le> CHUNK"
  shows "\<exists>k' t. flush (why_of other) hash dec net clock e grp out k d = (Inr (tally out (map (verdict e good fault d) grp)), k', t)
    \<and> pass hash e good fault now grp d t"
proof (cases "grp = []")
  case True
  then show ?thesis by (simp add: flush_def pass_def)
next
  case ne: False
  let ?is = "map (ic_id \<circ> snd) grp" and ?items = "map (verdict e good fault d) grp"
  have len': "length ?is \<le> CHUNK" using len by simp
  have f: "\<forall>i \<in> set ?items. final_state (ai_state i)" by (simp add: verdict_final)
  have ack: "\<exists>k' t. ack_all net clock ?items out k1 (d\<lparr>vectors := foldl (embed_one hash e good d) (vectors d) ?is, ix_states := st\<rparr>)
      = (Inr (tally out ?items), k', t) \<and> pass hash e good fault now grp d t" for k1 st
  proof -
    let ?d = "d\<lparr>vectors := foldl (embed_one hash e good d) (vectors d) ?is, ix_states := st\<rparr>"
    from ack_all_quiet[where net = net and clock = clock, OF q now f, of out k1 ?d] obtain k' where
      "ack_all net clock ?items out k1 ?d = (Inr (tally out ?items), k', ?d\<lparr>ix_box := acked now ?items (ix_box ?d)\<rparr>)" by blast
    moreover have "pass hash e good fault now grp d (?d\<lparr>ix_box := acked now ?items (ix_box ?d)\<rparr>)"
      by (simp add: pass_def apply_upserts[OF u])
    ultimately show ?thesis by blast
  qed
  show ?thesis
  proof (cases "\<forall>i \<in> set ?is. embeds good e d i")
    case True
    from index_new_batch_quiet(1)[where net = net, OF q e len' True, where k = k and hash = hash and dec = dec] obtain k1 st where
      r: "index_new_batch hash dec net e ?is k d = (Inr (map (\<lambda>i. target e d i \<noteq> None) ?is), k1,
        d\<lparr>vectors := foldl (embed_one hash e good d) (vectors d) ?is, ix_states := st\<rparr>)" by blast
    have "map (\<lambda>(c, b). indexed_item c b) (zip grp (map (\<lambda>i. target e d i \<noteq> None) ?is)) = ?items"
    proof -
      have "indexed_item c (target e d (ic_id (snd c)) \<noteq> None) = verdict e good fault d c" if "c \<in> set grp" for c
        using that u True by (intro item_upsert) auto
      then show ?thesis by (simp add: zip_map2 comp_def map_zip_map2 zip_same_conv_map)
    qed
    with r ne ack[of k1 st] show ?thesis by (simp add: flush_def)
  next
    case False
    from flush_rows_quiet[where net = net, OF q e u, where k = k and d = d and hash = hash and dec = dec and other = other]
    obtain k1 st where r: "flush_rows (why_of other) hash dec net e grp k d = (?items, k1,
        d\<lparr>vectors := foldl (embed_one hash e good d) (vectors d) ?is, ix_states := st\<rparr>)" by blast
    have "index_new_batch hash dec net e ?is k d = (Inl (Embedding fault), k, d)"
      using False by (rule index_new_batch_quiet(2)[where net = net, OF q e len'])
    with r ne ack[of k1 st] show ?thesis by (simp add: flush_def Let_def)
  qed
qed

lemma drain_changes_quiet:
  assumes q: "\<And>k a. undisturbed (net k a)" and e: "pointwise e good fault" and now: "\<And>k. clock k = now"
    and u: "\<forall>c \<in> set grp. \<not> is_removal c" and len: "length grp \<le> CHUNK"
  shows "\<exists>k' t. drain_changes (why_of other) hash dec net clock e cs grp out k d
      = (Inr (tally out (map (verdict e good fault d) (grp @ cs))), k', t) \<and> pass hash e good fault now (grp @ cs) d t"
  using u len
proof (induction cs arbitrary: grp out k d)
  case Nil
  then show ?case using flush_quiet[where net = net, OF q e now] by simp
next
  case (Cons c cs)
  note flush = flush_quiet[where net = net and clock = clock, OF q e now, where k = k and d = d and hash = hash and dec = dec and other = other and out = out, OF Cons.prems]
  show ?case
  proof (cases "is_removal c")
    case True
    from flush obtain k1 t1 where f: "flush (why_of other) hash dec net clock e grp out k d = (Inr (tally out (map (verdict e good fault d) grp)), k1, t1)"
      "pass hash e good fault now grp d t1" by blast
    let ?t2 = "apply_remove (ic_id (snd c)) t1"
    have v: "item_of c ''completed'' ''removed'' = verdict e good fault d c" using True by (simp add: verdict_def)
    from ack_all_quiet[where net = net and clock = clock, OF q now, of "[verdict e good fault d c]" "tally out (map (verdict e good fault d) grp)" "Suc k1" ?t2]
    obtain k3 where a: "ack_all net clock [verdict e good fault d c] (tally out (map (verdict e good fault d) grp)) (Suc k1) ?t2 =
      (Inr (tally out (map (verdict e good fault d) (grp @ [c]))), k3, ?t2\<lparr>ix_box := acked now [verdict e good fault d c] (ix_box ?t2)\<rparr>)"
      by (auto simp: verdict_final)
    let ?t3 = "?t2\<lparr>ix_box := acked now [verdict e good fault d c] (ix_box ?t2)\<rparr>"
    have m: "memories t1 = memories d" "serving t1 = serving d" using f(2) by (simp_all add: pass_def)
    have p: "pass hash e good fault now (grp @ [c]) d ?t3"
      using f(2) by (rule pass_trans) (simp add: pass_def apply_change_def True apply_remove_def spec_cong[OF m])
    have m3: "memories ?t3 = memories d" "serving ?t3 = serving d" using p by (simp_all only: pass_def)
    from Cons.IH[of "[]" "tally out (map (verdict e good fault d) (grp @ [c]))" k3 ?t3] obtain k' t where
      "drain_changes (why_of other) hash dec net clock e cs [] (tally out (map (verdict e good fault d) (grp @ [c]))) k3 ?t3
        = (Inr (tally out (map (verdict e good fault d) ((grp @ [c]) @ cs))), k', t)" "pass hash e good fault now cs ?t3 t"
      unfolding spec_cong(3)[OF m3] tally_append map_append[symmetric] by auto
    with pass_trans[OF p] show ?thesis
      using True f(1) a v by (simp add: is_removal_def in_query_quiet[OF q] Let_def)
  next
    case up: False
    show ?thesis
    proof (cases "CHUNK \<le> length grp")
      case True
      from flush obtain k1 t1 where f: "flush (why_of other) hash dec net clock e grp out k d = (Inr (tally out (map (verdict e good fault d) grp)), k1, t1)"
        "pass hash e good fault now grp d t1" by blast
      have m: "memories t1 = memories d" "serving t1 = serving d" using f(2) by (simp_all add: pass_def)
      from Cons.IH[of "[c]" "tally out (map (verdict e good fault d) grp)" k1 t1] up obtain k' t where
        "drain_changes (why_of other) hash dec net clock e cs [c] (tally out (map (verdict e good fault d) grp)) k1 t1
          = (Inr (tally out (map (verdict e good fault d) (grp @ [c] @ cs))), k', t)" "pass hash e good fault now ([c] @ cs) t1 t"
        unfolding spec_cong(3)[OF m] tally_append map_append[symmetric] by (auto simp: CHUNK_def)
      with pass_trans[OF f(2)] show ?thesis using True up f(1) by (simp add: is_removal_def)
    next
      case False
      with Cons.IH[of "grp @ [c]" out k d] Cons.prems up show ?thesis by (simp add: is_removal_def)
    qed
  qed
qed

lemma ack_block_other: "key \<noteq> ai_op_key i \<Longrightarrow> row (changes (ack_block i now b)) key = row (changes b) key"
  by (auto simp: ack_block_def finish_change_def option.map_ident split: option.split)

lemma acked_other: "key \<notin> ai_op_key ` set items \<Longrightarrow> row (changes (acked now items b)) key = row (changes b) key"
  by (induction items arbitrary: b) (simp_all add: ack_block_other)

lemma verdict_fields: "ai_op_key (verdict e good fault d (key, c)) = key" "ai_revision (verdict e good fault d (key, c)) = ic_revision c"
  "ai_gen (verdict e good fault d (key, c)) = ic_gen c"
  by (auto simp: verdict_def indexed_item_def item_of_def split: option.split)

lemma acked_states:
  assumes "distinct (map fst cs)" and "\<forall>(key, c) \<in> set cs. row (changes b) key = Some c \<and> is_active c" and "(key, c) \<in> set cs"
  shows "\<exists>r. row (changes (acked now (map (verdict e good fault d) cs) b)) key = Some r
    \<and> ic_state r = ai_state (verdict e good fault d (key, c)) \<and> ic_outcome r = ai_outcome (verdict e good fault d (key, c))"
  using assms
proof (induction cs arbitrary: b)
  case (Cons x cs)
  obtain k1 c1 where x: "x = (k1, c1)" by (cases x)
  let ?v = "verdict e good fault d (k1, c1)"
  have here: "row (changes (ack_block ?v now b)) k1 = Some (c1\<lparr>ic_state := ai_state ?v, ic_outcome := ai_outcome ?v, ic_updated_at := now\<rparr>)"
    using Cons.prems(2) by (simp add: x ack_block_def verdict_fields finish_change_def is_active_def)
  have rest: "\<forall>(key, c) \<in> set cs. row (changes (ack_block ?v now b)) key = Some c \<and> is_active c"
  proof clarify
    fix key c assume kc: "(key, c) \<in> set cs"
    with Cons.prems(1) have "key \<noteq> k1" by (force simp: x)
    with kc Cons.prems(2) show "row (changes (ack_block ?v now b)) key = Some c \<and> is_active c"
      by (auto simp: x ack_block_other verdict_fields)
  qed
  show ?case
  proof (cases "key = k1")
    case True
    with Cons.prems x have c: "c = c1" by (force simp: image_iff)
    have "k1 \<notin> ai_op_key ` set (map (verdict e good fault d) cs)"
      using Cons.prems(1) by (force simp: x verdict_fields)
    from acked_other[OF this] here show ?thesis by (simp add: x True c)
  next
    case False
    with Cons.prems(3) x have "(key, c) \<in> set cs" by simp
    from Cons.IH[OF _ rest this] Cons.prems(1) show ?thesis by (simp add: x)
  qed
qed simp

lemma pending_rows:
  assumes "outbox_ok b"
  shows "distinct (map fst (pending_of_kind kind n m b))"
    and "\<forall>(key, c) \<in> set (pending_of_kind kind n m b). row (changes b) key = Some c \<and> is_active c"
proof -
  let ?l = "sort_key (\<lambda>(k, r). ic_seq r) (filter (\<lambda>(k, r). ic_kind r = kind \<and> ic_state r = ''pending'' \<and> n < ic_seq r) (changes b))"
  have p: "pending_of_kind kind n m b = take m ?l" by (simp add: pending_of_kind_def pending_filtered_def)
  have "distinct (map fst (changes b))" using outbox_ok_keyed(1)[OF assms] by (simp add: keyed_def)
  then have "inj_on fst (set ?l)" "distinct ?l" by (auto simp: distinct_map inj_on_def)
  then have "distinct (map fst ?l)" by (simp add: distinct_map)
  then show "distinct (map fst (pending_of_kind kind n m b))" unfolding p take_map[symmetric] by (rule distinct_take)
  have "set (take m ?l) \<subseteq> set ?l" by (rule set_take_subset)
  then show "\<forall>(key, c) \<in> set (pending_of_kind kind n m b). row (changes b) key = Some c \<and> is_active c"
    unfolding p using outbox_ok_keyed(1)[OF assms] by (auto simp: is_active_def ACTIVE_STATES_def dest!: keyed_memD)
qed

text \<open>C32: a pass over the outbox, with its buffering, chunked writes and retries row by row, is the pending memory
  changes applied one by one in sequence order: each one it read is acknowledged with its own outcome, a text
  the embedder rejects fails only the changes of that text, a change is skipped exactly when its memory is
  gone, inactive or not served, and the vectors are those of the changes in order.\<close>

theorem drain_exact:
  assumes "outbox_ok (ix_box d)" and "\<And>k a. undisturbed (net k a)" and "\<And>k. clock k = now" and "pointwise e good fault"
  shows "\<exists>out k' t. drain_index (why_of other) hash dec net clock e limit k d = (Inr out, k', t)
    \<and> (let cs = pending_of_kind ''memory'' 0 (max limit 1) (ix_box d)
       in vectors t = foldl (apply_change hash e good d) (vectors d) cs \<and> memories t = memories d
          \<and> dn_completed out + dn_failed out = length cs
          \<and> dn_failed out = length (filter (\<lambda>c. ai_state (verdict e good fault d c) = ''failed'') cs)
          \<and> (\<forall>(key, c) \<in> set cs. \<exists>r. row (changes (ix_box t)) key = Some r
               \<and> ic_state r = ai_state (verdict e good fault d (key, c)) \<and> ic_outcome r = ai_outcome (verdict e good fault d (key, c))))"
proof -
  let ?cs = "pending_of_kind ''memory'' 0 (max limit 1) (ix_box d)"
  from drain_changes_quiet[where net = net and clock = clock and grp = "[]" and cs = ?cs and k = k and d = d
      and out = "\<lparr>dn_completed = 0, dn_failed = 0\<rparr>" and hash = hash and dec = dec and other = other, OF assms(2,4,3)]
  obtain k' t where t: "drain_index (why_of other) hash dec net clock e limit k d
      = (Inr (tally \<lparr>dn_completed = 0, dn_failed = 0\<rparr> (map (verdict e good fault d) ?cs)), k', t)"
    "pass hash e good fault now ?cs d t"
    by (auto simp: drain_index_def)
  have two: "ai_state (verdict e good fault d c) \<noteq> ''completed'' \<longleftrightarrow> ai_state (verdict e good fault d c) = ''failed''" for c
    using verdict_final[of e good fault d c] by (auto simp: final_state_def)
  have "length (filter P ?cs) + length (filter (\<lambda>c. \<not> P c) ?cs) = length ?cs" for P
    by (rule sum_length_filter_compl)
  from this[of "\<lambda>c. ai_state (verdict e good fault d c) = ''completed''"] have
    n: "length (filter (\<lambda>c. ai_state (verdict e good fault d c) = ''completed'') ?cs)
      + length (filter (\<lambda>c. ai_state (verdict e good fault d c) = ''failed'') ?cs) = length ?cs" unfolding two .
  have states: "\<forall>(key, c) \<in> set ?cs. \<exists>r. row (changes (ix_box t)) key = Some r
      \<and> ic_state r = ai_state (verdict e good fault d (key, c)) \<and> ic_outcome r = ai_outcome (verdict e good fault d (key, c))"
    using acked_states[OF pending_rows[OF assms(1)]] t(2) by (auto simp: pass_def)
  show ?thesis
    by (intro exI conjI, rule t(1)) (use t(2) n states in \<open>auto simp: Let_def pass_def tally_def filter_map comp_def\<close>)
qed

section \<open>Reindexing\<close>

lemma put_vectors_row:
  "distinct (map fst rs) \<Longrightarrow> row (put_vectors rs t) i = (case map_of rs i of Some v \<Rightarrow> Some v | None \<Rightarrow> row t i)"
proof (induction rs arbitrary: t)
  case (Cons x rs)
  obtain j v where x: "x = (j, v)" by (cases x)
  from Cons.prems x have "map_of rs j = None" by (simp add: map_of_eq_None_iff)
  with Cons x show ?case by (auto split: option.split)
qed simp

lemma put_vectors_append: "put_vectors (xs @ ys) t = put_vectors ys (put_vectors xs t)"
  by (induction xs arbitrary: t) auto

lemma vector_rows_append:
  "length rows = length vs \<Longrightarrow> vector_rows hash e g (rows @ rows') (vs @ vs') = vector_rows hash e g rows vs @ vector_rows hash e g rows' vs'"
  by (simp add: vector_rows_def)

definition new_rows :: "(string \<Rightarrow> string) \<Rightarrow> 'v embedder \<Rightarrow> (string \<Rightarrow> 'v list option) \<Rightarrow> int \<Rightarrow> (string \<times> mem_row) list \<Rightarrow> (string \<times> 'v vec_row) list" where
  "new_rows hash e good g rows = vector_rows hash e g rows (map (the \<circ> good \<circ> me_text \<circ> snd) rows)"

lemma new_rows_append: "new_rows hash e good g (xs @ ys) = new_rows hash e good g xs @ new_rows hash e good g ys"
  by (simp add: new_rows_def vector_rows_append)

lemma new_rows_map_of: "map_of (new_rows hash e good g rows) i = map_option (\<lambda>m. \<lparr>ve_kind = me_kind m, ve_gen = g,
    ve_revision = hash (me_text m), ve_model = em_model e, ve_embedding = the (good (me_text m))\<rparr>) (map_of rows i)"
  by (induction rows) (auto simp: new_rows_def vector_rows_def)

lemma new_rows_keys: "map fst (new_rows hash e good g rows) = map fst rows"
  by (induction rows) (auto simp: new_rows_def vector_rows_def)

lemma concat_chunks: "0 < n \<Longrightarrow> concat (chunks n xs) = xs"
proof (induction n xs rule: chunks.induct)
  case (1 n xs)
  then show ?case by (subst chunks.simps) auto
qed

lemma put_chunks_quiet:
  assumes q: "\<And>k a. undisturbed (net k a)" and e: "pointwise e good fault"
    and good: "\<forall>c \<in> set cs. gtext good c"
  shows "\<exists>k'. put_chunks hash net e g cs k d = (Inr (), k', d\<lparr>vectors := put_vectors (new_rows hash e good g (concat cs)) (vectors d)\<rparr>)"
  using good
proof (induction cs arbitrary: k d)
  case Nil
  then show ?case by (simp add: new_rows_def vector_rows_def)
next
  case (Cons c cs)
  let ?vs = "map (the \<circ> good \<circ> me_text \<circ> snd) c"
  have run: "embed_run e (map (me_text \<circ> snd) c) = Inr ?vs"
    using e Cons.prems by (simp add: embed_run_def pointwise_def comp_assoc)
  have "\<forall>(i, v) \<in> set (vector_rows hash e g c ?vs). length (ve_embedding v) = DIMENSION"
    using e Cons.prems by (force simp: vector_rows_def pointwise_def set_zip)
  from put_multi_quiet[where net = net, OF q this, where k = k and d = d] obtain k1 where
    p: "put_multi net (vector_rows hash e g c ?vs) k d = (Inr (), k1, d\<lparr>vectors := put_vectors (vector_rows hash e g c ?vs) (vectors d)\<rparr>)" by blast
  from Cons.IH[of k1 "d\<lparr>vectors := put_vectors (vector_rows hash e g c ?vs) (vectors d)\<rparr>"] Cons.prems p run show ?case
    by (simp add: new_rows_append put_vectors_append) (simp add: new_rows_def)
qed

lemma gtext_chunks: "gtext good rows \<Longrightarrow> 0 < n \<Longrightarrow> \<forall>c \<in> set (chunks n rows). gtext good c"
proof -
  assume g: "gtext good rows" and n: "0 < n"
  have "set c \<subseteq> set rows" if "c \<in> set (chunks n rows)" for c
    using that arg_cong[OF concat_chunks[OF n, of rows], of set] by auto
  with g show ?thesis by auto
qed

text \<open>C33: an undisturbed reindex with a working embedder serves the next generation, and its vectors are exactly the
  active memories, each with the revision of its text, under the model that was asked for.\<close>

theorem reindex_exact:
  assumes "\<And>k a. undisturbed (net k a)" and "pointwise e good fault" and "keyed (memories d)" and "keyed (vectors d)"
    and "\<And>i v. row (vectors d) i = Some v \<Longrightarrow> ve_gen v < next_generation d"
    and "\<And>i m. row (memories d) i = Some m \<Longrightarrow> active_memory m \<Longrightarrow> good (me_text m) \<noteq> None"
  shows "\<exists>r k' t. reindex hash dec net e k d = (Inr r, k', t) \<and> serving t = Some (next_generation d, em_model e)
    \<and> rx_memories r = length (filter (\<lambda>(_, m). active_memory m) (memories d)) \<and> memories t = memories d
    \<and> (\<forall>i. row (vectors t) i = (case row (memories d) i of None \<Rightarrow> None
        | Some m \<Rightarrow> if active_memory m then Some \<lparr>ve_kind = me_kind m, ve_gen = next_generation d, ve_revision = hash (me_text m),
            ve_model = em_model e, ve_embedding = the (good (me_text m))\<rparr> else None))"
proof -
  let ?rows = "filter (\<lambda>(_, m). active_memory m) (memories d)" and ?g = "next_generation d"
  have keys: "distinct (map fst ?rows)" using assms(3) by (simp add: keyed_def distinct_map_filter)
  have rows: "map_of ?rows i = (case row (memories d) i of None \<Rightarrow> None | Some m \<Rightarrow> if active_memory m then Some m else None)" for i
    using row_delete_where[OF assms(3), of "\<lambda>_ m. \<not> active_memory m" i] by (simp add: delete_where_def split: option.splits)
  have good: "gtext good ?rows" using assms(6) keyed_memD[OF assms(3)] by fastforce
  let ?vs = "put_vectors (new_rows hash e good ?g ?rows) (vectors d)"
  from put_chunks_quiet[where net = net, OF assms(1,2) gtext_chunks[OF good], of BATCH hash ?g k d] obtain k1 where
    c: "put_chunks hash net e ?g (chunks BATCH ?rows) k d = (Inr (), k1, d\<lparr>vectors := ?vs\<rparr>)"
    by (auto simp: BATCH_def concat_chunks)
  have kv: "keyed ?vs"
  proof -
    have "keyed t \<Longrightarrow> keyed (put_vectors rs t)" for rs and t :: "'a vec_row tbl" by (induction rs arbitrary: t) auto
    then show ?thesis using assms(4) .
  qed
  have "row (delete_where (\<lambda>_ v. ve_gen v \<noteq> ?g) ?vs) i = (case row (memories d) i of None \<Rightarrow> None
        | Some m \<Rightarrow> if active_memory m then Some \<lparr>ve_kind = me_kind m, ve_gen = ?g, ve_revision = hash (me_text m),
            ve_model = em_model e, ve_embedding = the (good (me_text m))\<rparr> else None)" for i
    using assms(5)[of i] keys
    by (simp add: row_delete_where[OF kv] put_vectors_row new_rows_keys new_rows_map_of rows split: option.split) auto
  then show ?thesis
    by (simp add: reindex_def Let_def put_all_def c in_tx_quiet[OF assms(1)] switch_generation_def)
qed

text \<open>
  The record of a vector is the memory, not the memory and the generation: the first chunk of a rebuild
  replaces the served vectors, and when a later chunk fails, the served generation has lost them.
\<close>

lemma failed_reindex_loses:
  assumes q: "\<And>k a. undisturbed (net k a)" and e: "pointwise e good fault"
    and c: "chunks BATCH (filter (\<lambda>(_, m). active_memory m) (memories d)) = c # c' # cs"
    and g: "gtext good c" "\<not> gtext good c'" and keys: "distinct (map fst c)" and i: "i \<in> fst ` set c" and s: "serving d = Some (n, model)"
  shows "\<exists>k' t v. reindex hash dec net e k d = (Inl (Embedding fault), k', t) \<and> serving t = Some (n, model)
    \<and> row (vectors t) i = Some v \<and> ve_gen v = n + 1"
proof -
  let ?vs = "map (the \<circ> good \<circ> me_text \<circ> snd) c" and ?g = "n + 1"
  have run: "embed_run e (map (me_text \<circ> snd) c) = Inr ?vs" "embed_run e (map (me_text \<circ> snd) c') = Inl (Embedding fault)"
    using e g by (simp_all add: embed_run_def pointwise_def comp_assoc)
  have "\<forall>(i, v) \<in> set (vector_rows hash e ?g c ?vs). length (ve_embedding v) = DIMENSION"
    using e g(1) by (force simp: vector_rows_def pointwise_def set_zip)
  from put_multi_quiet[where net = net, OF q this, where k = k and d = d] obtain k1 where
    p: "put_multi net (vector_rows hash e ?g c ?vs) k d = (Inr (), k1, d\<lparr>vectors := put_vectors (vector_rows hash e ?g c ?vs) (vectors d)\<rparr>)" by blast
  obtain m where "map_of c i = Some m" using i by (metis map_of_eq_None_iff option.exhaust)
  then have "row (put_vectors (new_rows hash e good ?g c) (vectors d)) i = Some \<lparr>ve_kind = me_kind m, ve_gen = ?g,
      ve_revision = hash (me_text m), ve_model = em_model e, ve_embedding = the (good (me_text m))\<rparr>"
    using keys by (simp add: put_vectors_row new_rows_keys new_rows_map_of)
  then show ?thesis using s p run
    by (simp add: reindex_def Let_def put_all_def c next_generation_def new_rows_def)
qed

text \<open>
  A memory that is written and indexed into the served generation while a rebuild runs: the switch deletes its
  vector, the rebuild reports success, and its change is already acknowledged.
\<close>

lemma reindex_drops_new_memory:
  assumes q: "undisturbed (net k 0)" and s: "serving d = Some (n, em_model e)" and none: "memories d = []"
    and net: "net (Suc k) 0 = \<lparr>begin_error = None,
      others = (\<lambda>d. d\<lparr>memories := put i m (memories d), vectors := put i v (vectors d)\<rparr>), commit_reply = Committed_Ok\<rparr>"
    and m: "active_memory m" "ve_gen v = n" and keys: "keyed (vectors d)"
  shows "\<exists>r k' t. reindex hash dec net e k d = (Inr r, k', t) \<and> row (memories t) i = Some m \<and> row (vectors t) i = None"
proof -
  have p: "max (max_attempts default_policy) 1 = Suc 5" by (simp add: default_policy_def)
  have one: "run_tx (net k) default_policy (\<lambda>_ d. Inr ((), d\<lparr>ix_states := st (ix_states d)\<rparr>)) d
      = (Inr \<lparr>outcome_value = (), retries = 0\<rparr>, d\<lparr>ix_states := st (ix_states d)\<rparr>)" for st
    using q unfolding run_tx_def Let_def p undisturbed_def run_attempts.simps by simp
  have one: "in_tx net (\<lambda>d. Inr ((), d\<lparr>ix_states := st (ix_states d)\<rparr>)) k d = (Inr (), Suc k, d\<lparr>ix_states := st (ix_states d)\<rparr>)" for st
    by (simp add: in_tx_def one)
  have two: "run_tx (net (Suc k)) default_policy (\<lambda>_ d. Inr ((), f d)) d'
      = (Inr \<lparr>outcome_value = (), retries = 0\<rparr>, f (d'\<lparr>memories := put i m (memories d'), vectors := put i v (vectors d')\<rparr>))" for f d'
    unfolding run_tx_def Let_def p run_attempts.simps by (simp add: net)
  have two: "in_tx net (\<lambda>d. Inr ((), f d)) (Suc k) d'
      = (Inr (), Suc (Suc k), f (d'\<lparr>memories := put i m (memories d'), vectors := put i v (vectors d')\<rparr>))" for f d'
    by (simp add: in_tx_def two)
  have "row (delete_where (\<lambda>_ x. ve_gen x \<noteq> n + 1) (put i v (vectors d))) i = None"
    using m(2) keys by (simp add: row_delete_where)
  then show ?thesis
    by (simp add: reindex_def Let_def put_all_def none s next_generation_def one[of "\<lambda>t. t", simplified] two switch_generation_def)
qed

section \<open>Two memories\<close>

definition demo_good :: "string \<Rightarrow> nat list option" where
  "demo_good t = (if t = ''bad'' then None else Some (replicate DIMENSION 0))"

definition demo_embedder :: "nat embedder" where
  "demo_embedder = \<lparr>em_model = ''m'', em_embed = (\<lambda>ts. if list_all (\<lambda>t. t \<noteq> ''bad'') ts
     then Inr (map (the \<circ> demo_good) ts) else Inl ''fault'')\<rparr>"

definition demo_upsert :: "string \<Rightarrow> new_change" where
  "demo_upsert i = \<lparr>nc_kind = ''memory'', nc_id = i, nc_revision = ''r'', nc_operation = ''upsert'', nc_gen = ''1'',
     nc_content_hash = [], nc_task = [], nc_job = []\<rparr>"

definition demo_box :: outbox where
  "demo_box = snd (projr (enqueue_in (demo_upsert ''b'') ''k2'' 1 (snd (projr (enqueue_in (demo_upsert ''a'') ''k1'' 1
     \<lparr>changes = [], work = [], ctr = \<lparr>counter_rows = (\<lambda>_. None), alloc_receipts = []\<rparr>\<rparr>)))))"

definition demo_index :: "nat index_db" where
  "demo_index = \<lparr>memories = [(''a'', \<lparr>me_text = ''fine'', me_kind = ''fact'', me_lifecycle = ''active''\<rparr>),
       (''b'', \<lparr>me_text = ''bad'', me_kind = ''fact'', me_lifecycle = ''active''\<rparr>)],
     vectors = [], serving = Some (1, ''m''), ix_states = [], ix_box = demo_box\<rparr>"

lemma demo_pointwise: "pointwise demo_embedder demo_good ''fault''"
  by (auto simp: pointwise_def demo_embedder_def demo_good_def list_all_iff)

lemma demo_box_ok: "outbox_ok demo_box"
proof -
  let ?e = "\<lparr>changes = [], work = [], ctr = \<lparr>counter_rows = (\<lambda>_. None), alloc_receipts = []\<rparr>\<rparr> :: outbox"
  let ?one = "enqueue_in (demo_upsert ''a'') ''k1'' 1 ?e"
  let ?two = "enqueue_in (demo_upsert ''b'') ''k2'' 1 (snd (projr ?one))"
  have "outbox_ok ?e" by (simp add: outbox_ok_def)
  moreover have one: "\<not> isl ?one" by code_simp
  moreover have "\<not> isl ?two" by code_simp
  with one have "?one = Inr (fst (projr ?one), snd (projr ?one))" "?two = Inr (fst (projr ?two), snd (projr ?two))"
    by (auto simp: isl_def split: sum.splits)
  ultimately show ?thesis unfolding demo_box_def by (metis enqueue_in_ok)
qed

theorem drain_exact_witness:
  "\<exists>out k' t. drain_index (why_of []) (\<lambda>t. t) (\<lambda>_. ''1'') (\<lambda>_ _. \<lparr>begin_error = None, others = (\<lambda>s. s), commit_reply = Committed_Ok\<rparr>)
      (\<lambda>_. 7) demo_embedder 10 0 demo_index = (Inr out, k', t) \<and> dn_completed out = 1 \<and> dn_failed out = 1"
proof -
  have q: "undisturbed (\<lparr>begin_error = None, others = (\<lambda>s. s), commit_reply = Committed_Ok\<rparr> :: nat index_db attempt_env)"
    by (simp add: undisturbed_def)
  have "outbox_ok (ix_box demo_index)" using demo_box_ok by (simp add: demo_index_def)
  moreover have "length (pending_of_kind ''memory'' 0 (max 10 1) (ix_box demo_index)) = 2"
    "length (filter (\<lambda>c. ai_state (verdict demo_embedder demo_good ''fault'' demo_index c) = ''failed'')
       (pending_of_kind ''memory'' 0 (max 10 1) (ix_box demo_index))) = 1" by code_simp+
  ultimately show ?thesis
    using drain_exact[where net = "\<lambda>_ _. \<lparr>begin_error = None, others = (\<lambda>s. s), commit_reply = Committed_Ok\<rparr>" and clock = "\<lambda>_. 7"
        and e = demo_embedder and good = demo_good and fault = "''fault''" and d = demo_index and limit = 10 and k = 0
        and hash = "\<lambda>t. t" and dec = "\<lambda>_. ''1''" and other = "[]" and now = 7, OF _ q refl demo_pointwise]
    by (auto simp: Let_def)
qed

theorem reindex_exact_witness:
  "\<exists>r k' t. reindex (\<lambda>t. t) (\<lambda>_. ''2'') (\<lambda>_ _. \<lparr>begin_error = None, others = (\<lambda>s. s), commit_reply = Committed_Ok\<rparr>) demo_embedder 0
      (demo_index\<lparr>memories := [(''a'', \<lparr>me_text = ''fine'', me_kind = ''fact'', me_lifecycle = ''active''\<rparr>)]\<rparr>) = (Inr r, k', t)
    \<and> serving t = Some (2, ''m'') \<and> map_option ve_gen (row (vectors t) ''a'') = Some 2"
proof -
  let ?d = "demo_index\<lparr>memories := [(''a'', \<lparr>me_text = ''fine'', me_kind = ''fact'', me_lifecycle = ''active''\<rparr>)]\<rparr>"
  have q: "undisturbed (\<lparr>begin_error = None, others = (\<lambda>s. s), commit_reply = Committed_Ok\<rparr> :: nat index_db attempt_env)"
    by (simp add: undisturbed_def)
  have g: "next_generation ?d = 2" "em_model demo_embedder = ''m''" by (simp_all add: next_generation_def demo_index_def demo_embedder_def)
  have keys: "keyed (memories ?d)" "keyed (vectors ?d)" by (simp_all add: demo_index_def keyed_def)
  have gens: "ve_gen v < next_generation ?d" if "row (vectors ?d) i = Some v" for i v using that by (simp add: demo_index_def)
  have texts: "demo_good (me_text m) \<noteq> None" if "row (memories ?d) i = Some m" "active_memory m" for i m
    using that by (auto simp: demo_index_def demo_good_def split: if_splits)
  have "\<exists>r k' t. reindex (\<lambda>t. t) (\<lambda>_. ''2'') (\<lambda>_ _. \<lparr>begin_error = None, others = (\<lambda>s. s), commit_reply = Committed_Ok\<rparr>)
      demo_embedder 0 ?d = (Inr r, k', t) \<and> serving t = Some (next_generation ?d, em_model demo_embedder)
    \<and> rx_memories r = length (filter (\<lambda>(_, m). active_memory m) (memories ?d)) \<and> memories t = memories ?d
    \<and> (\<forall>i. row (vectors t) i = (case row (memories ?d) i of None \<Rightarrow> None
        | Some m \<Rightarrow> if active_memory m then Some \<lparr>ve_kind = me_kind m, ve_gen = next_generation ?d, ve_revision = me_text m,
            ve_model = em_model demo_embedder, ve_embedding = the (demo_good (me_text m))\<rparr> else None))"
    by (rule reindex_exact[OF q demo_pointwise keys gens texts]) assumption+
  then obtain r k' t where
    "reindex (\<lambda>t. t) (\<lambda>_. ''2'') (\<lambda>_ _. \<lparr>begin_error = None, others = (\<lambda>s. s), commit_reply = Committed_Ok\<rparr>) demo_embedder 0 ?d = (Inr r, k', t)"
    "serving t = Some (2, ''m'')" and rows: "row (vectors t) ''a'' = (case row (memories ?d) ''a'' of None \<Rightarrow> None
        | Some m \<Rightarrow> if active_memory m then Some \<lparr>ve_kind = me_kind m, ve_gen = 2, ve_revision = me_text m,
            ve_model = ''m'', ve_embedding = the (demo_good (me_text m))\<rparr> else None)"
    unfolding g by blast
  moreover have "map_option ve_gen (row (vectors t) ''a'') = Some 2"
    unfolding rows by (simp add: demo_index_def active_memory_def)
  ultimately show ?thesis by blast
qed

end
