(* ===== verification/Recon_Plan.thy ===== *)
theory Recon_Plan
  imports Prelude
begin

text \<open>
  The check of a tool plan before any of its calls runs (\<open>validate_plan\<close> of \<open>recon.rs\<close>): the tests per
  call, and the depth-first search for a cycle among the dependencies, with fuel for its depth. The
  arguments of a call are the text of their JSON; the fields of a call that only the planner and the
  report read are left out.
\<close>

section \<open>Plans\<close>

record plan_call =
  pl_step :: string
  pl_tool :: string
  pl_args :: string
  pl_deps :: "string list"

definition signature :: "plan_call \<Rightarrow> string" where
  "signature c = pl_tool c @ '':'' @ pl_args c"

definition MAX_PLAN_CALLS :: nat where "MAX_PLAN_CALLS = 24"

text \<open>The tool registry, \<open>Value::is_object\<close> and \<open>osint::validate\<close>.\<close>

record registry =
  rg_known :: "string \<Rightarrow> bool"
  rg_object :: "string \<Rightarrow> bool"
  rg_validate :: "string \<Rightarrow> string \<Rightarrow> string option"

fun check_calls :: "registry \<Rightarrow> plan_call list \<Rightarrow> string list \<Rightarrow> string list \<Rightarrow> string + string list" where
  "check_calls R [] ids sigs = Inr ids"
| "check_calls R (c # cs) ids sigs =
     (if pl_step c = [] \<or> pl_step c \<in> set ids then Inl ''duplicate or empty step ID''
      else if \<not> rg_known R (pl_tool c) then Inl (''unknown tool '' @ pl_tool c)
      else if \<not> rg_object R (pl_args c) then Inl ''arguments must be an object''
      else case rg_validate R (pl_tool c) (pl_args c) of Some e \<Rightarrow> Inl e
        | None \<Rightarrow> if signature c \<in> set sigs then Inl ''duplicate call''
            else check_calls R cs (pl_step c # ids) (signature c # sigs))"

definition deps_known :: "string list \<Rightarrow> plan_call \<Rightarrow> bool" where
  "deps_known ids c = list_all (\<lambda>d. d \<in> set ids \<and> d \<noteq> pl_step c) (pl_deps c)"

section \<open>The search for a cycle\<close>

datatype visit_end = Visited "string list" | Cycle | Too_Deep

fun visit_each :: "(string \<Rightarrow> string list \<Rightarrow> visit_end) \<Rightarrow> string list \<Rightarrow> string list \<Rightarrow> visit_end" where
  "visit_each f [] seen = Visited seen"
| "visit_each f (d # ds) seen = (case f d seen of Visited s \<Rightarrow> visit_each f ds s | r \<Rightarrow> r)"

fun visit :: "nat \<Rightarrow> (string \<Rightarrow> string list) \<Rightarrow> string list \<Rightarrow> string \<Rightarrow> string list \<Rightarrow> visit_end" where
  "visit 0 deps active i seen = Too_Deep"
| "visit (Suc n) deps active i seen =
     (if i \<in> set active then Cycle
      else if i \<in> set seen then Visited seen
      else visit_each (visit n deps (i # active)) (deps i) (i # seen))"

text \<open>\<open>map[id].depends_on\<close>\<close>

definition deps_of :: "plan_call list \<Rightarrow> string \<Rightarrow> string list" where
  "deps_of p i = (case map_of (map (\<lambda>c. (pl_step c, pl_deps c)) p) i of Some ds \<Rightarrow> ds | None \<Rightarrow> [])"

definition validate_plan :: "registry \<Rightarrow> plan_call list \<Rightarrow> string + unit" where
  "validate_plan R p =
     (if MAX_PLAN_CALLS < length p then Inl ''plan exceeds 24 calls''
      else case check_calls R p [] [] of Inl e \<Rightarrow> Inl e
      | Inr ids \<Rightarrow>
          if \<not> list_all (deps_known ids) p then Inl ''invalid dependency''
          else (case visit_each (visit (Suc (length p)) (deps_of p) []) (map pl_step p) [] of
              Visited _ \<Rightarrow> Inr ()
            | _ \<Rightarrow> Inl ''dependency cycle''))"

section \<open>What an accepted plan is\<close>

lemma check_calls_iff:
  "check_calls R p ids sigs = Inr r \<longleftrightarrow> r = rev (map pl_step p) @ ids
     \<and> distinct (map pl_step p) \<and> set (map pl_step p) \<inter> set ids = {}
     \<and> distinct (map signature p) \<and> set (map signature p) \<inter> set sigs = {}
     \<and> (\<forall>c \<in> set p. pl_step c \<noteq> [] \<and> rg_known R (pl_tool c) \<and> rg_object R (pl_args c) \<and> rg_validate R (pl_tool c) (pl_args c) = None)"
  by (induction p arbitrary: ids sigs) (auto split: option.split)

definition needs :: "(string \<Rightarrow> string list) \<Rightarrow> (string \<times> string) set" where
  "needs deps = {(d, i). d \<in> set (deps i)}"

text \<open>A node outside the active path is finished once all it needs is.\<close>

lemma visit_each_acc:
  assumes f: "\<And>d s s'. d \<in> set ds \<Longrightarrow> f d s = Visited s' \<Longrightarrow> P s \<Longrightarrow> P s' \<and> set s \<subseteq> set s' \<and> Q d s'"
    and mono: "\<And>d s s'. Q d s \<Longrightarrow> set s \<subseteq> set s' \<Longrightarrow> P s' \<Longrightarrow> Q d s'"
    and run: "visit_each f ds s = Visited s'" and P: "P s"
  shows "P s' \<and> set s \<subseteq> set s' \<and> (\<forall>d \<in> set ds. Q d s')"
  using f run P
proof (induction ds arbitrary: s)
  case (Cons d ds)
  from Cons.prems(2) obtain s1 where s1: "f d s = Visited s1" "visit_each f ds s1 = Visited s'"
    by (auto split: visit_end.splits)
  from Cons.prems(1)[OF _ s1(1) Cons.prems(3)] have d: "P s1" "set s \<subseteq> set s1" "Q d s1" by auto
  from Cons.IH[OF Cons.prems(1) s1(2) d(1)] have r: "P s'" "set s1 \<subseteq> set s'" "\<forall>d \<in> set ds. Q d s'" by auto
  with mono[OF d(3) r(2,1)] d(2) show ?case by auto
qed simp

definition finished_ok :: "(string \<Rightarrow> string list) \<Rightarrow> string set \<Rightarrow> string list \<Rightarrow> bool" where
  "finished_ok deps A seen \<longleftrightarrow> (\<forall>x \<in> set seen - A. x \<in> Wellfounded.acc (needs deps))"

lemma visit_sound:
  "visit n deps active i seen = Visited s \<Longrightarrow> finished_ok deps (set active) seen
     \<Longrightarrow> finished_ok deps (set active) s \<and> set seen \<subseteq> set s \<and> i \<in> set s - set active"
proof (induction n arbitrary: active i seen s)
  case (Suc n)
  show ?case
  proof (cases "i \<in> set seen")
    case True
    with Suc.prems show ?thesis by (auto split: if_splits)
  next
    case False
    with Suc.prems(1) have i: "i \<notin> set active" and e: "visit_each (visit n deps (i # active)) (deps i) (i # seen) = Visited s"
      by (auto split: if_splits)
    let ?P = "finished_ok deps (set (i # active))" and ?Q = "\<lambda>d s. d \<in> set s - set (i # active)"
    have p: "?P (i # seen)" using Suc.prems(2) by (auto simp: finished_ok_def)
    have "?P s \<and> set (i # seen) \<subseteq> set s \<and> (\<forall>d \<in> set (deps i). ?Q d s)"
      by (rule visit_each_acc[where P = "?P" and Q = "?Q", OF _ _ e p]) (use Suc.IH in blast)+
    then have s: "?P s" "set (i # seen) \<subseteq> set s" "\<forall>d \<in> set (deps i). ?Q d s" by blast+
    have "y \<in> Wellfounded.acc (needs deps)" if "(y, i) \<in> needs deps" for y
      using that s(1,3) by (auto simp: needs_def finished_ok_def)
    then have "i \<in> Wellfounded.acc (needs deps)" by (rule Wellfounded.acc.accI)
    with s i show ?thesis by (auto simp: finished_ok_def)
  qed
qed simp

lemma visit_no_cycle:
  assumes ac: "acyclic (needs deps)"
  shows "\<forall>a \<in> set active. (i, a) \<in> (needs deps)\<^sup>+ \<Longrightarrow> visit n deps active i seen \<noteq> Cycle"
proof (induction n arbitrary: active i seen)
  case (Suc n)
  have "i \<notin> set active" using Suc.prems ac by (auto simp: acyclic_def)
  moreover have "visit_each (visit n deps (i # active)) ds s \<noteq> Cycle" if "set ds \<subseteq> set (deps i)" for ds s
    using that
  proof (induction ds arbitrary: s)
    case (Cons d ds)
    have "(d, i) \<in> needs deps" using Cons.prems by (simp add: needs_def)
    then have "\<forall>a \<in> set (i # active). (d, a) \<in> (needs deps)\<^sup>+" using Suc.prems by (auto intro: trancl_into_trancl2)
    from Suc.IH[OF this] Cons show ?case by (auto split: visit_end.split)
  qed simp
  ultimately show ?case by (auto split: if_splits)
qed simp

lemma visit_deep_enough:
  assumes closed: "\<And>i. i \<in> N \<Longrightarrow> set (deps i) \<subseteq> N" and fin: "finite N"
  shows "i \<in> N \<Longrightarrow> set active \<subseteq> N \<Longrightarrow> distinct active \<Longrightarrow> card N < n + length active \<Longrightarrow> visit n deps active i seen \<noteq> Too_Deep"
proof (induction n arbitrary: active i seen)
  case 0
  have "length active \<le> card N" using 0(2,3) card_mono[OF fin, of "set active"] by (simp add: distinct_card)
  with 0 show ?case by simp
next
  case (Suc n)
  have "visit_each (visit n deps (i # active)) ds s \<noteq> Too_Deep" if "set ds \<subseteq> N" "i \<notin> set active" for ds s
    using that
  proof (induction ds arbitrary: s)
    case (Cons d ds)
    have "visit n deps (i # active) d s \<noteq> Too_Deep" for s using Suc.prems Cons.prems by (intro Suc.IH) auto
    with Cons show ?case by (auto split: visit_end.split)
  qed simp
  with closed[OF Suc.prems(1)] show ?case by auto
qed

lemma visit_all_iff:
  assumes closed: "\<And>i. i \<in> set ids \<Longrightarrow> set (deps i) \<subseteq> set ids" and out: "\<And>i. i \<notin> set ids \<Longrightarrow> deps i = []" and n: "length ids < n"
  shows "(\<exists>s. visit_each (visit n deps []) ids [] = Visited s) \<longleftrightarrow> acyclic (needs deps)"
proof
  assume "\<exists>s. visit_each (visit n deps []) ids [] = Visited s"
  then obtain s where s: "visit_each (visit n deps []) ids [] = Visited s" by blast
  have p: "finished_ok deps {} []" by (simp add: finished_ok_def)
  have "finished_ok deps {} s \<and> set [] \<subseteq> set s \<and> (\<forall>d \<in> set ids. d \<in> set s)"
    by (rule visit_each_acc[where P = "finished_ok deps {}" and Q = "\<lambda>d s. d \<in> set s", OF _ _ s p])
       (use visit_sound[where active = "[]"] in fastforce)+
  then have "x \<in> Wellfounded.acc (needs deps)" for x
    by (cases "x \<in> set ids") (auto simp: finished_ok_def needs_def out intro: Wellfounded.acc.accI)
  then have "wf (needs deps)" by (simp add: wf_iff_acc)
  then show "acyclic (needs deps)" by (rule wf_acyclic)
next
  assume ac: "acyclic (needs deps)"
  have le: "card (set ids) < n + length ([]::string list)" using n card_length[of ids] by simp
  have v: "visit n deps [] i s \<noteq> Too_Deep \<and> visit n deps [] i s \<noteq> Cycle" if "i \<in> set ids" for i s
    using visit_deep_enough[where N = "set ids" and active = "[]", OF closed finite_set that _ _ le] visit_no_cycle[OF ac, of "[]"] by simp
  have "set is \<subseteq> set ids \<Longrightarrow> \<exists>s'. visit_each (visit n deps []) is s = Visited s'" for "is" s
  proof (induction "is" arbitrary: s)
    case (Cons i "is")
    with v[of i s] show ?case by (cases "visit n deps [] i s") auto
  qed simp
  then show "\<exists>s. visit_each (visit n deps []) ids [] = Visited s" by blast
qed

lemma validate_plan_accepts:
  "validate_plan R p = Inr () \<longleftrightarrow> length p \<le> 24
     \<and> (\<forall>c \<in> set p. pl_step c \<noteq> [] \<and> rg_known R (pl_tool c) \<and> rg_object R (pl_args c) \<and> rg_validate R (pl_tool c) (pl_args c) = None)
     \<and> distinct (map pl_step p) \<and> distinct (map signature p)
     \<and> (\<forall>c \<in> set p. \<forall>d \<in> set (pl_deps c). d \<in> pl_step ` set p \<and> d \<noteq> pl_step c)
     \<and> acyclic {(d, i). \<exists>c \<in> set p. pl_step c = i \<and> d \<in> set (pl_deps c)}"
proof (cases "\<exists>ids. check_calls R p [] [] = Inr ids \<and> list_all (deps_known ids) p")
  case True
  then obtain ids where ids: "check_calls R p [] [] = Inr ids" and known: "list_all (deps_known ids) p" by blast
  then have ck: "ids = rev (map pl_step p)" "distinct (map pl_step p)" unfolding check_calls_iff by simp_all
  have deps: "deps_of p (pl_step c) = pl_deps c" if "c \<in> set p" for c
  proof -
    have "map_of (map (\<lambda>c. (pl_step c, pl_deps c)) p) (pl_step c) = Some (pl_deps c)"
      using ck(2) that by (intro map_of_is_SomeI) (auto simp: comp_def)
    then show ?thesis by (simp add: deps_of_def)
  qed
  have none: "deps_of p i = []" if "i \<notin> pl_step ` set p" for i
  proof -
    have "map_of (map (\<lambda>c. (pl_step c, pl_deps c)) p) i = None" using that by (auto simp: map_of_eq_None_iff)
    then show ?thesis by (simp add: deps_of_def)
  qed
  have "needs (deps_of p) = {(d, i). \<exists>c \<in> set p. pl_step c = i \<and> d \<in> set (pl_deps c)}"
  proof -
    have "d \<in> set (deps_of p i) \<longleftrightarrow> (\<exists>c \<in> set p. pl_step c = i \<and> d \<in> set (pl_deps c))" for d i
      using deps none[of i] by (cases "i \<in> pl_step ` set p") (auto, metis)
    then show ?thesis by (simp add: needs_def)
  qed
  moreover have "(\<exists>s. visit_each (visit (Suc (length p)) (deps_of p) []) (map pl_step p) [] = Visited s) \<longleftrightarrow> acyclic (needs (deps_of p))"
    using known ck deps none by (intro visit_all_iff) (auto simp: list_all_iff deps_known_def)
  ultimately show ?thesis using ids known ck
    unfolding check_calls_iff by (auto simp: validate_plan_def ids MAX_PLAN_CALLS_def list_all_iff deps_known_def split: visit_end.splits)
next
  case False
  then have "validate_plan R p \<noteq> Inr ()" by (auto simp: validate_plan_def split: sum.split)
  moreover have "\<not> ((\<forall>c \<in> set p. pl_step c \<noteq> [] \<and> rg_known R (pl_tool c) \<and> rg_object R (pl_args c) \<and> rg_validate R (pl_tool c) (pl_args c) = None)
     \<and> distinct (map pl_step p) \<and> distinct (map signature p)
     \<and> (\<forall>c \<in> set p. \<forall>d \<in> set (pl_deps c). d \<in> pl_step ` set p \<and> d \<noteq> pl_step c))"
    using False unfolding check_calls_iff by (auto simp: list_all_iff deps_known_def)
  ultimately show ?thesis by blast
qed

text \<open>C34: a plan is accepted exactly when it has at most 24 calls of known tools with valid arguments, no two of
  which have the same step or the same tool and arguments, every dependency names another step of the
  plan, and the dependencies have no cycle.\<close>

theorem validate_plan_iff:
  "validate_plan R p = Inr () \<longleftrightarrow> length p \<le> 24
     \<and> (\<forall>c \<in> set p. pl_step c \<noteq> [] \<and> rg_known R (pl_tool c) \<and> rg_object R (pl_args c) \<and> rg_validate R (pl_tool c) (pl_args c) = None)
     \<and> distinct (map pl_step p) \<and> distinct (map signature p)
     \<and> (\<forall>c \<in> set p. \<forall>d \<in> set (pl_deps c). d \<in> pl_step ` set p \<and> d \<noteq> pl_step c)
     \<and> acyclic {(d, i). \<exists>c \<in> set p. pl_step c = i \<and> d \<in> set (pl_deps c)}"
  by (rule validate_plan_accepts)

section \<open>A plan that waits for itself\<close>

definition demo_registry :: registry where
  "demo_registry = \<lparr>rg_known = (\<lambda>_. True), rg_object = (\<lambda>_. True), rg_validate = (\<lambda>_ _. None)\<rparr>"

definition demo_call :: "string \<Rightarrow> string list \<Rightarrow> plan_call" where
  "demo_call i ds = \<lparr>pl_step = i, pl_tool = ''t'', pl_args = i, pl_deps = ds\<rparr>"

theorem validate_plan_iff_witness:
  "validate_plan demo_registry [demo_call ''a'' [], demo_call ''b'' [''a'']] = Inr ()
   \<and> validate_plan demo_registry [demo_call ''a'' [''b''], demo_call ''b'' [''a'']] \<noteq> Inr ()"
proof
  show "validate_plan demo_registry [demo_call ''a'' [], demo_call ''b'' [''a'']] = Inr ()"
    by code_simp
  let ?r = "{(d, i). \<exists>c \<in> set [demo_call ''a'' [''b''], demo_call ''b'' [''a'']]. pl_step c = i \<and> d \<in> set (pl_deps c)}"
  have "(''a'', ''b'') \<in> ?r" "(''b'', ''a'') \<in> ?r" by (auto simp: demo_call_def)
  then have "\<not> acyclic ?r" unfolding acyclic_def by (meson trancl.r_into_trancl trancl_trans)
  then show "validate_plan demo_registry [demo_call ''a'' [''b''], demo_call ''b'' [''a'']] \<noteq> Inr ()"
    unfolding validate_plan_iff by blast
qed

end
