(* ===== verification/Plan_Exec.thy ===== *)
theory Plan_Exec
  imports Recon_Exec Credits Recon_Plan "HOL-Library.Word" "HOL-Library.Multiset"
begin

text \<open>
  How a tool plan runs under the credit ledger (\<open>execute_budgeted\<close> and \<open>settle_holds\<close> of
  \<open>recon/orchestrate.rs\<close>, \<open>execute_plan\<close> of \<open>recon.rs\<close>, the prices of \<open>osint.rs\<close> and \<open>provider.rs\<close>): programs over
  the tables of Recon_Store and the ledger of Credits. Every store operation is a transaction of its own;
  others commit before it, and the store may refuse it without effect. How a tool answers is an argument.
\<close>

section \<open>What a call costs\<close>

definition BATCH_SCRAPE_DEFAULT_URLS :: "32 word" where "BATCH_SCRAPE_DEFAULT_URLS = 5"
definition CRAWL_MAX_PAGES :: "32 word" where "CRAWL_MAX_PAGES = 10"
definition EXTRACT_CREDITS :: "32 word" where "EXTRACT_CREDITS = 5"

text \<open>The parsers of the arguments and the tables of news providers.\<close>

record catalogue =
  cg_known :: "string \<Rightarrow> bool"
  cg_news :: "string \<Rightarrow> string option"
  cg_urls :: "string \<Rightarrow> 32 word option"
  cg_limit :: "string \<Rightarrow> 32 word option"
  cg_identity :: "string \<Rightarrow> string \<Rightarrow> string"
  cg_named :: "string \<Rightarrow> (string \<times> string) list"
  cg_explicit :: "string \<Rightarrow> (string \<times> string) list"

definition endpoint_cost :: "catalogue \<Rightarrow> string \<Rightarrow> (string \<times> 32 word) option" where
  "endpoint_cost G i = (let i = canonical_tool_id i in
     if i = ''firecrawl_search'' then Some (''firecrawl'', 2)
     else if i \<in> set [''firecrawl_scrape'', ''firecrawl_map'', ''firecrawl_google_search'', ''firecrawl_yandex_search'',
       ''firecrawl_mojeek_search''] then Some (''firecrawl'', 1)
     else if i = ''firecrawl_batch_scrape'' then Some (''firecrawl'', BATCH_SCRAPE_DEFAULT_URLS)
     else if i = ''firecrawl_crawl'' then Some (''firecrawl'', CRAWL_MAX_PAGES)
     else if i = ''firecrawl_extract'' then Some (''firecrawl'', EXTRACT_CREDITS)
     else if i \<in> set [''hunter_domain_finder'', ''hunter_email_count'', ''hunter_email_insight''] then Some (''hunter'', 0)
     else if i \<in> set [''hunter_domain_search'', ''hunter_email_finder'', ''hunter_email_verifier'',
       ''hunter_company_enrichment'', ''hunter_person_enrichment'', ''hunter_combined_enrichment''] then Some (''hunter'', 1)
     else if starts_with ''sociavault_'' i \<and> cg_known G i then Some (''sociavault'', 1)
     else case cg_news G i of Some p \<Rightarrow> Some (p, 0)
       | None \<Rightarrow> if i = ''whoxy_whois_history'' then Some (''whoxy'', 1) else None)"

definition estimated_cost :: "catalogue \<Rightarrow> string \<Rightarrow> string \<Rightarrow> (string \<times> 32 word) option" where
  "estimated_cost G i args = (case endpoint_cost G i of None \<Rightarrow> None
     | Some (p, credits) \<Rightarrow> (let c = canonical_tool_id i in
         if c = ''firecrawl_batch_scrape'' then Some (p, max (case cg_urls G args of Some n \<Rightarrow> n | None \<Rightarrow> credits) 1)
         else if c = ''firecrawl_crawl'' then Some (p, max (case cg_limit G args of Some n \<Rightarrow> n | None \<Rightarrow> credits) 1)
         else Some (p, credits)))"

record prices =
  pz_search :: "32 word"
  pz_scrape :: "32 word"
  pz_hunter :: "32 word"
  pz_sociavault :: "32 word"
  pz_whoxy :: "32 word"

text \<open>The product wraps, as an unchecked build of the program lets it.\<close>

definition configured_cost_for :: "catalogue \<Rightarrow> prices \<Rightarrow> string \<Rightarrow> string \<Rightarrow> (string \<times> 32 word) option" where
  "configured_cost_for G z i args = (case estimated_cost G i args of None \<Rightarrow> None
     | Some (p, credits) \<Rightarrow> (let c = canonical_tool_id i in Some (p,
         if c = ''firecrawl_search'' then pz_search z
         else if c \<in> set [''firecrawl_scrape'', ''firecrawl_map''] then pz_scrape z
         else if c \<in> set [''firecrawl_batch_scrape'', ''firecrawl_crawl''] then credits * pz_scrape z
         else if c = ''firecrawl_extract'' then credits
         else if p = ''hunter'' \<and> credits = 0 then 0
         else if p = ''hunter'' then pz_hunter z
         else if p = ''sociavault'' then pz_sociavault z
         else if p = ''whoxy'' then pz_whoxy z
         else credits)))"

section \<open>Programs over the store\<close>

record tool_db =
  td_recon :: recon_db
  td_ledger :: ledger

record run_result =
  rr_tool :: string
  rr_inputs :: string
  rr_row :: tool_result
  rr_cached :: bool
  rr_reported :: "nat option"
  rr_hosts :: "string list"

datatype exec_end = Ran run_result | Refused string | Stopped

datatype plan_error = Plan_Cancelled | Run_Inactive | Store_Failed tx_error | No_Fuel

datatype op_kind = Recon_Op | Ledger_Op

text \<open>
  What surrounds a plan, by the number of the operation: what others commit before it, whether the store
  refuses it, the cancellation flag, the clock and the fresh ids; and how the execution of a call ends.
\<close>

record plan_env =
  pe_others :: "nat \<Rightarrow> tool_db \<Rightarrow> tool_db"
  pe_fault :: "op_kind \<Rightarrow> nat \<Rightarrow> tx_error option"
  pe_cancel :: "nat \<Rightarrow> bool"
  pe_now :: "nat \<Rightarrow> instant"
  pe_stamp :: "nat \<Rightarrow> string"
  pe_id :: "nat \<Rightarrow> string"
  pe_run :: "nat \<Rightarrow> string \<Rightarrow> plan_call \<Rightarrow> exec_end"

type_synonym 'a act = "plan_env \<Rightarrow> nat \<Rightarrow> tool_db \<Rightarrow> (plan_error + 'a) \<times> nat \<times> tool_db"

definition ret :: "'a \<Rightarrow> 'a act" where "ret x E k d = (Inr x, k, d)"
definition fail :: "plan_error \<Rightarrow> 'a act" where "fail e E k d = (Inl e, k, d)"

definition andThen :: "'a act \<Rightarrow> ('a \<Rightarrow> 'b act) \<Rightarrow> 'b act" where
  "andThen p q E k d = (case p E k d of (Inl e, k, d) \<Rightarrow> (Inl e, k, d) | (Inr x, k, d) \<Rightarrow> q x E k d)"

lemma andThen_Inr: "andThen p q E k d = (Inr y, k', d') \<longleftrightarrow> (\<exists>x k1 d1. p E k d = (Inr x, k1, d1) \<and> q x E k1 d1 = (Inr y, k', d'))"
  by (auto simp: andThen_def split: prod.splits sum.splits)

definition store_op :: "op_kind \<Rightarrow> (plan_env \<Rightarrow> nat \<Rightarrow> (tool_db, 'a) body) \<Rightarrow> 'a act" where
  "store_op kind f E k d = (let d = pe_others E k d in
     case pe_fault E kind k of Some e \<Rightarrow> (Inl (Store_Failed e), Suc k, d)
     | None \<Rightarrow> (case f E k d of Inl e \<Rightarrow> (Inl (Store_Failed e), Suc k, d) | Inr (x, d) \<Rightarrow> (Inr x, Suc k, d)))"

definition recon_op :: "(plan_env \<Rightarrow> nat \<Rightarrow> (recon_db, 'a) body) \<Rightarrow> 'a act" where
  "recon_op f = store_op Recon_Op (\<lambda>E k d. case f E k (td_recon d) of Inl e \<Rightarrow> Inl e | Inr (x, r) \<Rightarrow> Inr (x, d\<lparr>td_recon := r\<rparr>))"

definition ledger_op :: "(plan_env \<Rightarrow> nat \<Rightarrow> (ledger, 'a) body) \<Rightarrow> 'a act" where
  "ledger_op f = store_op Ledger_Op (\<lambda>E k d. case f E k (td_ledger d) of Inl e \<Rightarrow> Inl e | Inr (x, l) \<Rightarrow> Inr (x, d\<lparr>td_ledger := l\<rparr>))"

definition reading :: "(plan_env \<Rightarrow> nat \<Rightarrow> recon_db \<Rightarrow> 'a) \<Rightarrow> 'a act" where
  "reading f = recon_op (\<lambda>E k r. Inr (f E k r, r))"

definition check_cancel :: "unit act" where
  "check_cancel E k d = (if pe_cancel E k then (Inl Plan_Cancelled, Suc k, d) else (Inr (), Suc k, d))"

fun each_act :: "('x \<Rightarrow> unit act) \<Rightarrow> 'x list \<Rightarrow> unit act" where
  "each_act f [] = ret ()"
| "each_act f (x # xs) = andThen (f x) (\<lambda>_. each_act f xs)"

section \<open>Running a plan\<close>

record plan_run =
  pr_run :: string
  pr_thread :: string
  pr_turn :: string

definition run_running :: "plan_run \<Rightarrow> recon_db \<Rightarrow> bool" where
  "run_running P r = (case row (recon_runs r) (pr_run P) of Some x \<Rightarrow> rn_state x = ''running'' | None \<Rightarrow> False)"

definition link_found :: "plan_run \<Rightarrow> string option \<Rightarrow> string \<times> string \<Rightarrow> unit act" where
  "link_found P source kc = recon_op (\<lambda>E k. link_entity (pr_thread P) (fst kc) (snd kc) source)"

definition call_ready :: "string list \<Rightarrow> string list \<Rightarrow> plan_call \<Rightarrow> bool" where
  "call_ready batch fin c \<longleftrightarrow> pl_step c \<notin> set fin \<and> list_all (\<lambda>d. d \<in> set fin \<or> d \<notin> set batch) (pl_deps c)"

text \<open>One scan of the plan: the calls that may run are queued; a disabled tool counts as finished.\<close>

fun queue_ready :: "catalogue \<Rightarrow> plan_run \<Rightarrow> string list \<Rightarrow> plan_call list \<Rightarrow> string list
    \<Rightarrow> ((plan_call \<times> string) list \<times> string list) act" where
  "queue_ready G P batch [] fin = ret ([], fin)"
| "queue_ready G P batch (c # cs) fin =
     (if \<not> call_ready batch fin c then queue_ready G P batch cs fin
      else andThen (reading (\<lambda>E k r. run_running P r)) (\<lambda>running.
        andThen (if running then reading (\<lambda>E k r. get_thread (pr_thread P) r \<noteq> None) else ret False) (\<lambda>active.
        if \<not> active then fail Run_Inactive
        else andThen (reading (\<lambda>E k r. tool_enabled (pl_tool c) r)) (\<lambda>on.
          if \<not> on then queue_ready G P batch cs (pl_step c # fin)
          else andThen (each_act (link_found P None) (cg_named G (pl_args c))) (\<lambda>_.
            andThen (recon_op (\<lambda>E k. queue_call (cg_known G) (pe_now E k) (pe_id E k) (pl_tool c) (pl_args c) ''recon''
              (Some (pr_run P)) (Some (pr_thread P)) (Some (pr_turn P)))) (\<lambda>i.
            andThen (queue_ready G P batch cs fin) (\<lambda>(ready, fin). ret ((c, i) # ready, fin))))))))"

definition end_result :: "plan_env \<Rightarrow> nat \<Rightarrow> plan_call \<times> string \<Rightarrow> run_result" where
  "end_result E k ci = (let (c, i) = ci; r = \<lambda>status rest. \<lparr>rr_tool = pl_tool c, rr_inputs = pl_args c,
       rr_row = \<lparr>tr_status = status, tr_retrieved_at = pe_stamp E k, tr_rest = rest\<rparr>, rr_cached = False, rr_reported = None, rr_hosts = []\<rparr>
     in case pe_run E k i c of Ran res \<Rightarrow> res | Refused e \<Rightarrow> r ''failed'' e | Stopped \<Rightarrow> r ''cancelled'' [])"

text \<open>\<open>join_all\<close>: the calls run at the same time, the results keep their order.\<close>

definition join_wave :: "(plan_call \<times> string) list \<Rightarrow> (plan_call \<times> string \<times> run_result) list act" where
  "join_wave ready E k d = (Inr (map (\<lambda>(c, i). (c, i, end_result E k (c, i))) ready), Suc k, d)"

definition HOSTS_LINKED :: nat where "HOSTS_LINKED = 100"

definition finish_one :: "catalogue \<Rightarrow> plan_run \<Rightarrow> plan_call \<times> string \<times> run_result \<Rightarrow> unit act" where
  "finish_one G P x = (let (c, i, res) = x in
     andThen (recon_op (\<lambda>E k r. Inr ((), snd (finish_call (pe_now E k) i (rr_row res) r))))
       (\<lambda>_. each_act (link_found P (Some i)) (concat (map (cg_explicit G) (take HOSTS_LINKED (rr_hosts res))))))"

fun plan_loop :: "nat \<Rightarrow> catalogue \<Rightarrow> plan_run \<Rightarrow> plan_call list \<Rightarrow> string list \<Rightarrow> (string \<times> run_result) list
    \<Rightarrow> (string \<times> run_result) list act" where
  "plan_loop 0 G P cs fin out = fail No_Fuel"
| "plan_loop (Suc n) G P cs fin out =
     (if length cs \<le> length (remdups fin) then ret out
      else andThen check_cancel (\<lambda>_.
        andThen (queue_ready G P (map pl_step cs) cs fin) (\<lambda>(ready, fin).
        if ready = [] then ret out
        else andThen (join_wave ready) (\<lambda>ex.
          andThen (each_act (finish_one G P) ex) (\<lambda>_.
            plan_loop n G P cs (map (pl_step \<circ> fst) ready @ fin) (out @ map snd ex))))))"

definition execute_plan :: "catalogue \<Rightarrow> plan_run \<Rightarrow> plan_call list \<Rightarrow> (string \<times> run_result) list act" where
  "execute_plan G P cs = plan_loop (Suc (length cs)) G P cs [] []"

section \<open>Under the credit ledger\<close>

datatype skip = Tool_Disabled string | Duplicate_Call string | No_Credit string string nat nat

text \<open>The calls that may run, those that are skipped and why, and the holds, as they come in.\<close>

type_synonym admitted = "plan_call list \<times> skip list \<times> (string \<times> credit_hold) list"

fun admit_calls :: "catalogue \<Rightarrow> limits \<Rightarrow> prices \<Rightarrow> plan_call list \<Rightarrow> admitted \<Rightarrow> admitted act" where
  "admit_calls G l z [] acc = ret acc"
| "admit_calls G l z (c # cs) acc = (let (ok, skipped, holds) = acc; kept = ok @ [c\<lparr>pl_deps := []\<rparr>] in
     andThen check_cancel (\<lambda>_.
     andThen (reading (\<lambda>E k r. tool_enabled (pl_tool c) r)) (\<lambda>on.
     if \<not> on then admit_calls G l z cs (ok, skipped @ [Tool_Disabled (pl_tool c)], holds)
     else andThen (reading (\<lambda>E k r. inflight_duplicate (pl_tool c) (pl_args c) r)) (\<lambda>dup.
     if dup then admit_calls G l z cs (ok, skipped @ [Duplicate_Call (pl_tool c)], holds)
     else andThen (reading (\<lambda>E k r. cache_get_fresh (pe_now E k) (cg_identity G (pl_tool c) (pl_args c)) None r \<noteq> None)) (\<lambda>cached.
     case configured_cost_for G z (pl_tool c) (pl_args c) of
       None \<Rightarrow> admit_calls G l z cs (kept, skipped, holds)
     | Some (p, cost) \<Rightarrow>
         if cached \<or> cost = 0 then admit_calls G l z cs (kept, skipped, holds)
         else andThen (ledger_op (\<lambda>E k. reserve_credits l (pe_stamp E k) (pe_id E k) p (unat cost))) (\<lambda>h.
           case h of Some h \<Rightarrow> admit_calls G l z cs (kept, skipped, holds @ [(signature c, h)])
           | None \<Rightarrow> andThen (ledger_op (\<lambda>E k. credits_available l p (pe_stamp E k))) (\<lambda>left.
               admit_calls G l z cs (ok, skipped @ [No_Credit (pl_tool c) p left (unat cost)], holds))))))))"

text \<open>\<open>Vec::swap_remove\<close>, and the position of the first hold with a signature.\<close>

definition swap_remove :: "nat \<Rightarrow> 'a list \<Rightarrow> 'a list" where
  "swap_remove i xs = (if Suc i = length xs then butlast xs else (butlast xs)[i := List.last xs])"

fun position :: "string \<Rightarrow> (string \<times> 'a) list \<Rightarrow> nat option" where
  "position s [] = None"
| "position s (x # xs) = (if fst x = s then Some 0 else map_option Suc (position s xs))"

definition spent :: "run_result \<Rightarrow> bool" where
  "spent res \<longleftrightarrow> tr_status (rr_row res) \<in> set [''completed'', ''no_results''] \<and> \<not> rr_cached res"

definition settle_one :: "run_result \<Rightarrow> credit_hold \<Rightarrow> unit act" where
  "settle_one res h = ledger_op (\<lambda>E k. if spent res
     then reconcile_credits (pe_stamp E k) h (case rr_reported res of Some n \<Rightarrow> n | None \<Rightarrow> h_trial h + h_allowance h)
     else release_credits (pe_stamp E k) h)"

fun settle_results :: "(string \<times> run_result) list \<Rightarrow> (string \<times> credit_hold) list \<Rightarrow> (string \<times> credit_hold) list act" where
  "settle_results [] holds = ret holds"
| "settle_results ((i, res) # rs) holds =
     (case position (rr_tool res @ '':'' @ rr_inputs res) holds of
        None \<Rightarrow> settle_results rs holds
      | Some n \<Rightarrow> andThen (settle_one res (snd (holds ! n))) (\<lambda>_. settle_results rs (swap_remove n holds)))"

definition release_holds :: "(string \<times> credit_hold) list \<Rightarrow> unit act" where
  "release_holds = each_act (\<lambda>(s, h). ledger_op (\<lambda>E k. release_credits (pe_stamp E k) h))"

definition settle_holds :: "(string \<times> run_result) list \<Rightarrow> (string \<times> credit_hold) list \<Rightarrow> unit act" where
  "settle_holds rs holds = andThen (settle_results rs holds) release_holds"

definition run_admitted :: "catalogue \<Rightarrow> plan_run \<Rightarrow> plan_call list \<Rightarrow> (string \<times> credit_hold) list \<Rightarrow> (string \<times> run_result) list act" where
  "run_admitted G P ok holds E k d = (case execute_plan G P ok E k d of
     (Inr rs, k, d) \<Rightarrow> andThen (settle_holds rs holds) (\<lambda>_. ret rs) E k d
   | (Inl e, k, d) \<Rightarrow> andThen (release_holds holds) (\<lambda>_. fail e) E k d)"

definition execute_budgeted :: "catalogue \<Rightarrow> limits \<Rightarrow> prices \<Rightarrow> plan_run \<Rightarrow> plan_call list
    \<Rightarrow> ((string \<times> run_result) list \<times> skip list) act" where
  "execute_budgeted G l z P cs =
     (if cs = [] then ret ([], [])
      else andThen (admit_calls G l z cs ([], [], [])) (\<lambda>(ok, skipped, holds).
        if ok = [] then ret ([], skipped)
        else andThen (run_admitted G P ok holds) (\<lambda>rs. ret (rs, skipped))))"

end
