(* ===== verification/Plan_Cases.thy ===== *)
theory Plan_Cases
  imports Plan_Exec
begin

text \<open>
  Concrete plans: a store with one running investigation and an empty ledger, and a tool that answers. They
  show where a plan loses a hold, refunds what was spent, or ends before all its calls ran.
\<close>

section \<open>Concrete plans\<close>

definition plan_catalogue :: catalogue where
  "plan_catalogue = \<lparr>cg_known = (\<lambda>_. True), cg_news = (\<lambda>_. None), cg_urls = (\<lambda>_. None), cg_limit = (\<lambda>_. None),
     cg_identity = (\<lambda>t a. t @ a), cg_named = (\<lambda>_. []), cg_explicit = (\<lambda>h. [(''host'', h)])\<rparr>"

definition plan_prices :: prices where
  "plan_prices = \<lparr>pz_search = 2, pz_scrape = 1, pz_hunter = 1, pz_sociavault = 1, pz_whoxy = 1\<rparr>"

definition plan_limits :: limits where
  "plan_limits = \<lparr>credit_reset = ''monthly'', firecrawl_credits = 100, hunter_credits = 50,
     sociavault_credits = 0, whoxy_credits = 10, firecrawl_trial_credits = 0, hunter_trial_credits = 0,
     sociavault_trial_credits = 0\<rparr>"

definition step :: "string \<Rightarrow> string \<Rightarrow> string list \<Rightarrow> plan_call" where
  "step i tool ds = \<lparr>pl_step = i, pl_tool = tool, pl_args = i, pl_deps = ds\<rparr>"

definition the_run :: plan_run where
  "the_run = \<lparr>pr_run = ''r'', pr_thread = ''t'', pr_turn = ''m''\<rparr>"

definition plan_db :: "(string \<times> bool) list \<Rightarrow> tool_db" where
  "plan_db prefs = \<lparr>td_recon = \<lparr>threads = [(''t'', \<lparr>th_title = ''T'', th_created = 0, th_updated = 0, th_draft = [], th_scroll = 0,
       th_deleted = False, th_recall = True\<rparr>)], messages = [], message_memories = [], evidence = [],
     recon_runs = [(''r'', \<lparr>rn_thread = ''t'', rn_turn = ''m'', rn_state = ''running'', rn_stage = [], rn_recon_model = [], rn_synthesis_model = [],
       rn_tool_picker_model = [], rn_max_rounds = 1, rn_max_calls = 1, rn_turn_seconds = 300, rn_plan = None, rn_error = None, rn_created = 0, rn_updated = 0\<rparr>)],
     calls = [], cache = [], thread_entities = [], recon_entities = [], preferences = prefs, extractions = [], operations = [], strategies = [],
     sequences = (\<lambda>_. None), last_thread_state = None, memory_ids = [], owner_states = [], insight_sources = [], derivation_links = [],
     derivation_evidences = [], actor_mentions = [], nlp_refs = [], nlp_features = [], nlp_artifacts = [], snapshot_inputs = []\<rparr>,
     td_ledger = \<lparr>quotas = [], reservations = []\<rparr>\<rparr>"

text \<open>Every call answers with the given tool name and one host; the flag is set and the store refuses from given operations on.\<close>

definition plan_world :: "(nat \<Rightarrow> bool) \<Rightarrow> (nat \<Rightarrow> bool) \<Rightarrow> string \<Rightarrow> string list \<Rightarrow> plan_env" where
  "plan_world cancel refuse tool hosts = \<lparr>pe_others = (\<lambda>_ d. d), pe_fault = (\<lambda>kind k. if kind = Recon_Op \<and> refuse k then Some (Contention 1) else None),
     pe_cancel = cancel, pe_now = (\<lambda>k. int k), pe_stamp = (\<lambda>_. ''2026-07-02''), pe_id = (\<lambda>k. replicate (Suc k) (CHR ''i'')),
     pe_run = (\<lambda>k i c. Ran \<lparr>rr_tool = tool, rr_inputs = pl_args c, rr_row = \<lparr>tr_status = ''completed'', tr_retrieved_at = [], tr_rest = []\<rparr>,
       rr_cached = False, rr_reported = None, rr_hosts = hosts\<rparr>)\<rparr>"

definition budgeted :: "plan_env \<Rightarrow> plan_call list \<Rightarrow> (plan_error + (string \<times> run_result) list \<times> skip list) \<times> nat \<times> tool_db" where
  "budgeted E cs = execute_budgeted plan_catalogue plan_limits plan_prices the_run cs E 0 (plan_db [])"

definition held_states :: "ledger \<Rightarrow> string list" where
  "held_states L = map (rv_state \<circ> snd) (reservations L)"

text \<open>A cancellation while the second call is admitted leaves the hold of the first one open.\<close>




definition one_hold :: "string \<Rightarrow> string \<Rightarrow> string \<Rightarrow> ledger" where
  "one_hold i p state = (let held = (if state = ''held'' then 1 else 0) in \<lparr>quotas = [(p, \<lparr>q_allowance = int (allowance plan_limits p), q_trial_remaining = 0, q_trial_seed = 0, q_reserved = held,
     q_spent = (if state = ''spent'' then 1 else 0),
     q_reset_policy = (if p = ''whoxy'' then ''never'' else ''monthly''), q_period_start = ''2026-07-02'', q_updated_at = ''2026-07-02''\<rparr>)],
     reservations = [(i, \<lparr>rv_provider = p, rv_trial = 0, rv_allowance = 1, rv_state = state, rv_created_at = ''2026-07-02''\<rparr>)]\<rparr>)"

abbreviation one :: "string \<Rightarrow> string \<Rightarrow> credit_hold" where
  "one i p \<equiv> \<lparr>h_id = i, h_provider = p, h_trial = 0, h_allowance = Suc 0\<rparr>"

lemma allow_first [simp]: "allowance plan_limits ''whoxy'' = 10" "allowance plan_limits ''hunter'' = 50"
  by (simp_all add: allowance_def plan_limits_def)

lemma touch_first: "p = ''whoxy'' \<or> p = ''hunter'' \<Longrightarrow> touch_quota plan_limits p ''2026-07-02'' None = \<lparr>q_allowance = int (allowance plan_limits p), q_trial_remaining = 0, q_trial_seed = 0,
     q_reserved = 0, q_spent = 0, q_reset_policy = (if p = ''whoxy'' then ''never'' else ''monthly''), q_period_start = ''2026-07-02'', q_updated_at = ''2026-07-02''\<rparr>"
  by (elim disjE) (simp_all add: touch_quota_def Let_def plan_limits_def trial_grant_def same_budget_month_def)

lemma left_first: "n \<le> 100 \<Longrightarrow> 0 \<le> n \<Longrightarrow> allowance_left \<lparr>q_allowance = n, q_trial_remaining = 0, q_trial_seed = 0, q_reserved = 0, q_spent = 0, q_reset_policy = x,
     q_period_start = y, q_updated_at = z\<rparr> = n"
  by (simp add: allowance_left_def sat_sub_def i64_max_def)

lemma reserve_first: "reserve_credits plan_limits ''2026-07-02'' i ''whoxy'' (Suc 0) \<lparr>quotas = [], reservations = []\<rparr> = Inr (Some (one i ''whoxy''), one_hold i ''whoxy'' ''held'')"
  "reserve_credits plan_limits ''2026-07-02'' i ''hunter'' (Suc 0) \<lparr>quotas = [], reservations = []\<rparr> = Inr (Some (one i ''hunter''), one_hold i ''hunter'' ''held'')"
  by (simp_all add: reserve_credits_def touch_in_def Let_def touch_first left_first to_u32_def sat_add_u32_def u32_max_def update_where_def take_hold_def
      one_hold_def put_def)

lemma release_first: "i \<noteq> [] \<Longrightarrow> release_credits ''2026-07-02'' (one i p) (one_hold i p ''held'') = Inr ((), one_hold i p ''released'')"
  by (simp add: release_credits_def unhold_in_def is_held_def one_hold_def update_where_def give_back_def)

lemma reconcile_first: "i \<noteq> [] \<Longrightarrow> reconcile_credits ''2026-07-02'' (one i p) (Suc 0) (one_hold i p ''held'') = Inr ((), one_hold i p ''spent'')"
  by (simp add: reconcile_credits_def unhold_in_def is_held_def one_hold_def update_where_def give_back_def charge_def to_u32_def)

lemma held_one: "held_states (one_hold i p s) = [s]"
  by (simp add: held_states_def one_hold_def)

lemma plan_cat: "cg_known plan_catalogue x" "cg_named plan_catalogue a = []" "cg_explicit plan_catalogue h = [(''host'', h)]"
  "cg_identity plan_catalogue t a = t @ a"
  by (simp_all add: plan_catalogue_def)

lemma cost_first: "configured_cost_for plan_catalogue plan_prices ''whoxy_whois_history'' a = Some (''whoxy'', 1)"
  "configured_cost_for plan_catalogue plan_prices ''hunter_tech_lookup'' a = Some (''hunter'', 1)"
  by (simp_all add: configured_cost_for_def estimated_cost_def endpoint_cost_def canonical_tool_id_def plan_catalogue_def plan_prices_def)

lemmas plan_steps = Let_def andThen_def ret_def fail_def check_cancel_def store_op_def recon_op_def ledger_op_def reading_def


lemmas plan_reads = tool_enabled_def default_enabled_def canonical_tool_id_def inflight_duplicate_def cache_get_fresh_def run_running_def get_thread_def live_def

definition whoxy :: "string \<Rightarrow> plan_call" where "whoxy i = step i ''whoxy_whois_history'' []"

text \<open>A cancellation while the second call is admitted leaves the hold of the first one open.\<close>

lemma cancelled_admission_leaks:
  "let (r, k, t) = budgeted (plan_world (\<lambda>k. 5 \<le> k) (\<lambda>_. False) ''whoxy_whois_history'' []) [whoxy ''a'', whoxy ''b'']
   in r = Inl Plan_Cancelled \<and> held_states (td_ledger t) = [''held'']"
  by (simp add: budgeted_def execute_budgeted_def plan_steps plan_world_def step_def whoxy_def cost_first reserve_first held_one plan_db_def plan_reads)


lemmas plan_exec = budgeted_def execute_budgeted_def plan_steps plan_world_def step_def whoxy_def plan_db_def plan_reads
    run_admitted_def execute_plan_def call_ready_def the_run_def join_wave_def end_result_def finish_one_def settle_holds_def settle_one_def
    spent_def swap_remove_def release_holds_def signature_def queue_call_def finish_call_def update_call_def update_where_def open_call_def put_def HOSTS_LINKED_def link_found_def
lemmas plan_money = plan_cat cost_first reserve_first reconcile_first release_first held_one

lemma call_paid:
  "let (r, k, t) = budgeted (plan_world (\<lambda>_. False) (\<lambda>_. False) ''whoxy_whois_history'' []) [whoxy ''a'']
   in map (ca_status \<circ> snd) (calls (td_recon t)) = [''completed''] \<and> held_states (td_ledger t) = [''spent'']"
  by (simp add: plan_exec plan_money)

text \<open>The store refuses the link of a found host: the call answered and is recorded, its credit goes back to the ledger.\<close>

lemma refused_link_refunds:
  "let (r, k, t) = budgeted (plan_world (\<lambda>_. False) (\<lambda>k. k = 12) ''whoxy_whois_history'' [''h'']) [whoxy ''a'']
   in r = Inl (Store_Failed (Contention 1)) \<and> map (ca_status \<circ> snd) (calls (td_recon t)) = [''completed''] \<and> held_states (td_ledger t) = [''released'']"
  by (simp add: plan_exec plan_money)

text \<open>A call that another waits for has its tool disabled: the plan ends and the call that waits never runs.\<close>

lemma disabled_ends_plan:
  "let a = step ''a'' ''whoxy_whois_history'' [''b'']; b = step ''b'' ''hunter_email_finder'' [];
       (r, k, t) = execute_plan plan_catalogue the_run [a, b] (plan_world (\<lambda>_. False) (\<lambda>_. False) ''whoxy_whois_history'' []) 0
         (plan_db [(''hunter_email_finder'', False)])
   in r = Inr [] \<and> calls (td_recon t) = [] \<and> tool_enabled (pl_tool a) (td_recon t)"
  by (simp add: plan_exec plan_money)

text \<open>The tool answers under its canonical name: the call is recorded, the hold of its old name is released.\<close>

lemma alias_refunds:
  "let c = step ''a'' ''hunter_tech_lookup'' [];
       (r, k, t) = budgeted (plan_world (\<lambda>_. False) (\<lambda>_. False) (canonical_tool_id (pl_tool c)) []) [c]
   in map (ca_status \<circ> snd) (calls (td_recon t)) = [''completed''] \<and> held_states (td_ledger t) = [''released'']"
  by (simp add: plan_exec plan_money)

text \<open>A hold that the recovery of another process released is not charged when its own call ends.\<close>

lemma recovered_hold_uncharged:
  assumes "ledger_ok d" and "release_held_credits c1 d = Inr (m, d1)"
  shows "reconcile_credits c2 h n d1 = Inr ((), d1)"
proof -
  from release_held_clears[OF assms(1), of c1] assms(2) have "\<not> is_held d1 (h_id h)" by auto
  then show ?thesis by (simp add: reconcile_credits_def unhold_in_def)
qed

end
