(* ===== verification/Plan_Run.thy ===== *)
theory Plan_Run
  imports Plan_Cases
begin

text \<open>
  An accepted plan that nobody disturbs runs every call once, after the calls it depends on; and under any
  disturbance the rounds of a plan end.
\<close>

section \<open>A plan nobody disturbs\<close>

definition quiet :: "plan_env \<Rightarrow> bool" where
  "quiet E \<longleftrightarrow> inj (pe_id E) \<and> (\<forall>k d. pe_others E k d = d) \<and> (\<forall>kind k. pe_fault E kind k = None) \<and> (\<forall>k. \<not> pe_cancel E k)"

definition alive :: "plan_run \<Rightarrow> plan_call list \<Rightarrow> recon_db \<Rightarrow> bool" where
  "alive P cs r \<longleftrightarrow> (\<exists>x. row (recon_runs r) (pr_run P) = Some x \<and> rn_state x = ''running'' \<and> rn_thread x = pr_thread P)
     \<and> live r (pr_thread P) \<and> (\<forall>c \<in> set cs. tool_enabled (pl_tool c) r)"

definition same_run :: "recon_db \<Rightarrow> recon_db \<Rightarrow> bool" where
  "same_run r r' \<longleftrightarrow> threads r' = threads r \<and> recon_runs r' = recon_runs r \<and> preferences r' = preferences r"

lemma same_run_refl [simp]: "same_run r r" by (simp add: same_run_def)
lemma same_run_trans: "same_run a b \<Longrightarrow> same_run b c \<Longrightarrow> same_run a c" by (simp add: same_run_def)

lemma alive_same: "same_run r r' \<Longrightarrow> alive P cs r \<Longrightarrow> alive P cs r'"
  by (simp add: same_run_def alive_def live_def tool_enabled_def)

lemma recon_op_quiet:
  assumes "quiet E" "f E k (td_recon d) = Inr (x, r)"
  shows "recon_op f E k d = (Inr x, Suc k, d\<lparr>td_recon := r\<rparr>)"
  using assms by (simp add: quiet_def recon_op_def store_op_def Let_def)

lemma reading_quiet: "quiet E \<Longrightarrow> reading f E k d = (Inr (f E k (td_recon d)), Suc k, d)"
  unfolding reading_def by (cases d) (subst recon_op_quiet, simp_all)

lemma check_quiet: "quiet E \<Longrightarrow> check_cancel E k d = (Inr (), Suc k, d)"
  by (simp add: quiet_def check_cancel_def)

lemma andThen_step: "p E k d = (Inr x, k1, d1) \<Longrightarrow> andThen p q E k d = q x E k1 d1"
  by (simp add: andThen_def)

lemma link_quiet:
  assumes "quiet E" "live (td_recon d) (pr_thread P)"
  shows "\<exists>d'. link_found P src kc E k d = (Inr (), Suc k, d') \<and> same_run (td_recon d) (td_recon d') \<and> calls (td_recon d') = calls (td_recon d)"
proof -
  let ?r = "td_recon d"
  have "row (threads ?r) (pr_thread P) \<noteq> None" using assms(2) by (auto simp: live_def split: option.splits)
  then have "\<exists>r. link_entity (pr_thread P) (fst kc) (snd kc) src ?r = Inr ((), r) \<and> same_run ?r r \<and> calls r = calls ?r"
    by (auto simp: link_entity_def ensure_recon_entity_in_def Let_def same_run_def)
  then obtain r where "link_entity (pr_thread P) (fst kc) (snd kc) src ?r = Inr ((), r)" "same_run ?r r" "calls r = calls ?r" by blast
  then show ?thesis unfolding link_found_def by (subst recon_op_quiet[OF assms(1)]) auto
qed

lemma links_quiet:
  assumes "quiet E" "live (td_recon d) (pr_thread P)"
  shows "\<exists>k' d'. each_act (link_found P src) xs E k d = (Inr (), k', d') \<and> k \<le> k' \<and> same_run (td_recon d) (td_recon d')
    \<and> calls (td_recon d') = calls (td_recon d)"
  using assms(2)
proof (induction xs arbitrary: k d)
  case Nil
  then show ?case by (simp add: ret_def)
next
  case (Cons x xs)
  from link_quiet[OF assms(1) Cons.prems] obtain d1 where 1: "link_found P src x E k d = (Inr (), Suc k, d1)"
    "same_run (td_recon d) (td_recon d1)" "calls (td_recon d1) = calls (td_recon d)" by blast
  then have "live (td_recon d1) (pr_thread P)" using Cons.prems by (simp add: same_run_def live_def)
  from Cons.IH[OF this, of "Suc k"] obtain k' d' where "each_act (link_found P src) xs E (Suc k) d1 = (Inr (), k', d')" "Suc k \<le> k'"
    "same_run (td_recon d1) (td_recon d')" "calls (td_recon d') = calls (td_recon d1)" by blast
  with 1 show ?case by (auto simp: andThen_def intro: same_run_trans)
qed

definition queued_row :: "plan_run \<Rightarrow> plan_call \<Rightarrow> call_row \<Rightarrow> bool" where
  "queued_row P c x \<longleftrightarrow> ca_tool x = pl_tool c \<and> ca_inputs x = pl_args c \<and> open_call x \<and> ca_thread x = Some (pr_thread P)"

definition fresh :: "plan_env \<Rightarrow> nat \<Rightarrow> recon_db \<Rightarrow> bool" where
  "fresh E k r \<longleftrightarrow> (\<forall>j \<ge> k. row (calls r) (pe_id E j) = None)"

lemma queue_call_quiet:
  assumes "alive P cs r" "c \<in> set cs" "cg_known G (canonical_tool_id (pl_tool c))" "fresh E k r"
  shows "\<exists>x r'. queue_call (cg_known G) (pe_now E k) (pe_id E k) (pl_tool c) (pl_args c) ''recon'' (Some (pr_run P)) (Some (pr_thread P)) (Some (pr_turn P)) r
     = Inr (pe_id E k, r') \<and> same_run r r' \<and> calls r' = put (pe_id E k) x (calls r) \<and> queued_row P c x"
  using assms by (auto simp: queue_call_def alive_def fresh_def same_run_def queued_row_def open_call_def)

lemma queue_ready_quiet:
  assumes q: "quiet E" and known: "\<forall>c \<in> set cs. cg_known G (canonical_tool_id (pl_tool c))"
  shows "set cs' \<subseteq> set cs \<Longrightarrow> alive P cs (td_recon d) \<Longrightarrow> fresh E k (td_recon d) \<Longrightarrow>
    \<exists>ready k' d'. queue_ready G P batch cs' fin E k d = (Inr (ready, fin), k', d') \<and> k \<le> k' \<and> same_run (td_recon d) (td_recon d')
      \<and> fresh E k' (td_recon d') \<and> map fst ready = filter (call_ready batch fin) cs'
      \<and> distinct (map snd ready) \<and> (\<forall>(c, i) \<in> set ready. \<exists>j x. k \<le> j \<and> i = pe_id E j \<and> row (calls (td_recon d')) i = Some x \<and> queued_row P c x)
      \<and> (\<forall>i. i \<notin> snd ` set ready \<longrightarrow> row (calls (td_recon d')) i = row (calls (td_recon d)) i)"
proof (induction cs' arbitrary: k d)
  case Nil
  then show ?case by (simp add: ret_def)
next
  case (Cons c cs')
  have sub: "set cs' \<subseteq> set cs" "c \<in> set cs" using Cons.prems(1) by simp_all
  have inj: "pe_id E i = pe_id E j \<longleftrightarrow> i = j" for i j using q by (simp add: quiet_def inj_eq)
  show ?case
  proof (cases "call_ready batch fin c")
    case False
    with Cons.IH[OF sub(1) Cons.prems(2,3)] show ?thesis by simp
  next
    case True
    note alive = Cons.prems(2)
    have run: "run_running P (td_recon d)" "get_thread (pr_thread P) (td_recon d) \<noteq> None" "tool_enabled (pl_tool c) (td_recon d)"
      "live (td_recon d) (pr_thread P)"
      using alive sub(2) by (auto simp: alive_def run_running_def get_thread_def live_def split: option.splits)
    from links_quiet[OF q run(4), of None "cg_named G (pl_args c)" "Suc (Suc (Suc k))"] obtain k1 d1 where
      l: "each_act (link_found P None) (cg_named G (pl_args c)) E (Suc (Suc (Suc k))) d = (Inr (), k1, d1)" "Suc (Suc (Suc k)) \<le> k1"
      "same_run (td_recon d) (td_recon d1)" "calls (td_recon d1) = calls (td_recon d)" by blast
    have f1: "fresh E k1 (td_recon d1)" using Cons.prems(3) l(2,4) by (simp add: fresh_def)
    from queue_call_quiet[OF alive_same[OF l(3) alive] sub(2) known[rule_format, OF sub(2)] f1] obtain x r' where
      r': "queue_call (cg_known G) (pe_now E k1) (pe_id E k1) (pl_tool c) (pl_args c) ''recon'' (Some (pr_run P)) (Some (pr_thread P)) (Some (pr_turn P)) (td_recon d1)
     = Inr (pe_id E k1, r')" "same_run (td_recon d1) r'" "calls r' = put (pe_id E k1) x (calls (td_recon d1))" "queued_row P c x" by blast
    let ?d2 = "d1\<lparr>td_recon := r'\<rparr>"
    have s2: "same_run (td_recon d) r'" using l(3) r'(2) by (rule same_run_trans)
    have f2: "fresh E (Suc k1) r'" using f1 r'(3) inj by (simp add: fresh_def)
    have p2: "alive P cs (td_recon ?d2)" "fresh E (Suc k1) (td_recon ?d2)" using alive_same[OF s2 alive] f2 by simp_all
    have rd: "td_recon ?d2 = r'" by simp
    from Cons.IH[OF sub(1) p2, unfolded rd] obtain ready k' d' where
      IH: "queue_ready G P batch cs' fin E (Suc k1) ?d2 = (Inr (ready, fin), k', d')" "Suc k1 \<le> k'" "same_run r' (td_recon d')"
        "fresh E k' (td_recon d')" "map fst ready = filter (call_ready batch fin) cs'" "distinct (map snd ready)"
      and rows: "\<forall>(c, i) \<in> set ready. \<exists>j x. Suc k1 \<le> j \<and> i = pe_id E j \<and> row (calls (td_recon d')) i = Some x \<and> queued_row P c x"
      and oth: "\<forall>i. i \<notin> snd ` set ready \<longrightarrow> row (calls (td_recon d')) i = row (calls r') i" by blast
    have new: "pe_id E k1 \<notin> snd ` set ready"
    proof
      assume "pe_id E k1 \<in> snd ` set ready"
      with rows obtain j where "Suc k1 \<le> j" "pe_id E k1 = pe_id E j" by force
      with inj show False by simp
    qed
    have here: "row (calls (td_recon d')) (pe_id E k1) = Some x" using oth new r'(3) by simp
    have other: "row (calls (td_recon d')) i = row (calls (td_recon d)) i" if "i \<notin> snd ` set ((c, pe_id E k1) # ready)" for i
      using that oth r'(3) l(4) by simp
    have le: "k \<le> k1" using l(2) by simp
    let ?ready = "(c, pe_id E k1) # ready"
    have queued: "recon_op (\<lambda>E k. queue_call (cg_known G) (pe_now E k) (pe_id E k) (pl_tool c) (pl_args c) ''recon''
        (Some (pr_run P)) (Some (pr_thread P)) (Some (pr_turn P))) E k1 d1 = (Inr (pe_id E k1), Suc k1, ?d2)"
      using r'(1) q by (simp add: recon_op_def store_op_def Let_def quiet_def)
    have g1: "queue_ready G P batch (c # cs') fin E k d = (Inr (?ready, fin), k', d')"
      using True run IH(1) by (simp add: andThen_step reading_quiet[OF q] l(1) queued ret_def)
    have g2: "k \<le> k'" using le IH(2) by simp
    have g5: "map fst ?ready = filter (call_ready batch fin) (c # cs')" using True IH(5) by simp
    have g6: "distinct (map snd ?ready)" using IH(6) new by simp
    have g7: "\<forall>(b, i) \<in> set ?ready. \<exists>j x. k \<le> j \<and> i = pe_id E j \<and> row (calls (td_recon d')) i = Some x \<and> queued_row P b x"
    proof clarify
      fix b i assume bi: "(b, i) \<in> set ?ready"
      show "\<exists>j x. k \<le> j \<and> i = pe_id E j \<and> row (calls (td_recon d')) i = Some x \<and> queued_row P b x"
      proof (cases "(b, i) \<in> set ready")
        case True
        from bspec[OF rows this] obtain j x where "Suc k1 \<le> j" "i = pe_id E j" "row (calls (td_recon d')) i = Some x" "queued_row P b x" by auto
        with le show ?thesis by (intro exI[of _ j] exI[of _ x]) simp
      next
        case False
        with bi have "b = c" "i = pe_id E k1" by auto
        with le here r'(4) show ?thesis by (intro exI[of _ k1] exI[of _ x]) simp
      qed
    qed
    have g8: "\<forall>i. i \<notin> snd ` set ?ready \<longrightarrow> row (calls (td_recon d')) i = row (calls (td_recon d)) i" using other by blast
    from g1 g2 same_run_trans[OF s2 IH(3)] IH(4) g5 g6 g7 g8 show ?thesis
      by (intro exI[of _ ?ready] exI[of _ k'] exI[of _ d'] conjI)
  qed
qed

definition done_row :: "recon_db \<Rightarrow> plan_call \<Rightarrow> string \<times> run_result \<Rightarrow> bool" where
  "done_row r c x \<longleftrightarrow> (\<exists>y. row (calls r) (fst x) = Some y \<and> ca_tool y = pl_tool c \<and> ca_inputs y = pl_args c
     \<and> ca_status y = tr_status (rr_row (snd x)) \<and> ca_result y = Some (rr_row (snd x)))"

lemma finish_one_quiet:
  assumes q: "quiet E" and alive: "alive P cs (td_recon d)" and row: "row (calls (td_recon d)) i = Some x" "queued_row P c x"
  shows "\<exists>k' d'. finish_one G P (c, i, res) E k d = (Inr (), k', d') \<and> k \<le> k' \<and> same_run (td_recon d) (td_recon d')
    \<and> done_row (td_recon d') c (i, res) \<and> (\<forall>j. j \<noteq> i \<longrightarrow> row (calls (td_recon d')) j = row (calls (td_recon d)) j)"
proof -
  let ?r = "snd (finish_call (pe_now E k) i (rr_row res) (td_recon d))" and ?d1 = "d\<lparr>td_recon := snd (finish_call (pe_now E k) i (rr_row res) (td_recon d))\<rparr>"
  have lv: "live (td_recon d) (pr_thread P)" using alive by (simp add: alive_def)
  have s: "same_run (td_recon d) ?r" by (simp add: finish_call_def update_call_def same_run_def)
  have rows: "row (calls ?r) j = (if j = i then Some (x\<lparr>ca_status := tr_status (rr_row res), ca_attempts := ca_attempts x + 1,
      ca_result := Some (rr_row res), ca_completed := Some (pe_now E k)\<rparr>) else row (calls (td_recon d)) j)" for j
    using row lv by (auto simp: finish_call_def update_call_def queued_row_def option.map_ident split: option.split)
  have "live (td_recon ?d1) (pr_thread P)" using s lv by (simp add: same_run_def live_def)
  from links_quiet[OF q this, of "Some i" "concat (map (cg_explicit G) (take HOSTS_LINKED (rr_hosts res)))" "Suc k"] obtain k' d' where
    l: "each_act (link_found P (Some i)) (concat (map (cg_explicit G) (take HOSTS_LINKED (rr_hosts res)))) E (Suc k) ?d1 = (Inr (), k', d')"
    "Suc k \<le> k'" "same_run ?r (td_recon d')" "calls (td_recon d') = calls ?r" by auto
  have "recon_op (\<lambda>E k r. Inr ((), snd (finish_call (pe_now E k) i (rr_row res) r))) E k d = (Inr (), Suc k, ?d1)"
    using q by (simp add: recon_op_def store_op_def Let_def quiet_def)
  then have "finish_one G P (c, i, res) E k d = (Inr (), k', d')"
    using l(1) by (simp add: finish_one_def andThen_step)
  moreover have "done_row (td_recon d') c (i, res)" using row(2) by (simp add: done_row_def l(4) rows queued_row_def)
  moreover have "\<forall>j. j \<noteq> i \<longrightarrow> row (calls (td_recon d')) j = row (calls (td_recon d)) j" by (simp add: l(4) rows)
  ultimately show ?thesis using l(2) same_run_trans[OF s l(3)] by auto
qed

lemma finish_each_quiet:
  assumes q: "quiet E"
  shows "alive P cs (td_recon d) \<Longrightarrow> distinct (map (fst \<circ> snd) ex) \<Longrightarrow>
      \<forall>(c, i, res) \<in> set ex. \<exists>x. row (calls (td_recon d)) i = Some x \<and> queued_row P c x \<Longrightarrow>
    \<exists>k' d'. each_act (finish_one G P) ex E k d = (Inr (), k', d') \<and> k \<le> k' \<and> same_run (td_recon d) (td_recon d')
      \<and> (\<forall>(c, x) \<in> set ex. done_row (td_recon d') c x) \<and> (\<forall>j. j \<notin> (fst \<circ> snd) ` set ex \<longrightarrow> row (calls (td_recon d')) j = row (calls (td_recon d)) j)"
proof (induction ex arbitrary: k d)
  case Nil
  then show ?case by (simp add: ret_def)
next
  case (Cons e ex)
  obtain c i res where e: "e = (c, i, res)" by (metis prod.exhaust)
  from Cons.prems(3) e obtain x where "row (calls (td_recon d)) i = Some x" "queued_row P c x" by auto
  from finish_one_quiet[OF q Cons.prems(1) this, of G res k] obtain k1 d1 where
    1: "finish_one G P (c, i, res) E k d = (Inr (), k1, d1)" "k \<le> k1" "same_run (td_recon d) (td_recon d1)"
    "done_row (td_recon d1) c (i, res)" "\<forall>j. j \<noteq> i \<longrightarrow> row (calls (td_recon d1)) j = row (calls (td_recon d)) j" by blast
  have i: "i \<notin> (fst \<circ> snd) ` set ex" using Cons.prems(2) e by simp
  have "\<forall>(c, i, res) \<in> set ex. \<exists>x. row (calls (td_recon d1)) i = Some x \<and> queued_row P c x"
  proof clarify
    fix c' i' res' assume m: "(c', i', res') \<in> set ex"
    then have "i' \<noteq> i" using i by force
    with 1(5) Cons.prems(3) m show "\<exists>x. row (calls (td_recon d1)) i' = Some x \<and> queued_row P c' x" by fastforce
  qed
  from Cons.IH[OF alive_same[OF 1(3) Cons.prems(1)] _ this, of k1] Cons.prems(2) obtain k' d' where
    2: "each_act (finish_one G P) ex E k1 d1 = (Inr (), k', d')" "k1 \<le> k'" "same_run (td_recon d1) (td_recon d')"
    "\<forall>(c, x) \<in> set ex. done_row (td_recon d') c x" "\<forall>j. j \<notin> (fst \<circ> snd) ` set ex \<longrightarrow> row (calls (td_recon d')) j = row (calls (td_recon d1)) j"
    by auto
  have "done_row (td_recon d') c (i, res)" using 1(4) 2(5) i by (simp add: done_row_def)
  with 1 2 e show ?case by (auto simp: andThen_step intro: same_run_trans)
qed

section \<open>Every accepted plan runs to its end\<close>

text \<open>Each call comes after the calls of the batch it depends on.\<close>

fun follows :: "string set \<Rightarrow> string set \<Rightarrow> plan_call list \<Rightarrow> bool" where
  "follows S B [] = True"
| "follows S B (c # cs) = (set (pl_deps c) \<inter> B \<subseteq> S \<and> follows (insert (pl_step c) S) B cs)"

lemma follows_append: "follows S B (xs @ ys) \<longleftrightarrow> follows S B xs \<and> follows (S \<union> pl_step ` set xs) B ys"
  by (induction xs arbitrary: S) (auto simp: insert_commute)

lemma follows_deps: "follows S B xs \<Longrightarrow> c \<in> set xs \<Longrightarrow> set (pl_deps c) \<inter> B \<subseteq> S \<union> pl_step ` set xs"
  by (induction xs arbitrary: S) fastforce+

lemma follows_wave: "\<forall>c \<in> set xs. set (pl_deps c) \<inter> B \<subseteq> S \<Longrightarrow> follows S B xs"
  by (induction xs arbitrary: S) (simp_all add: subset_insertI2)

definition waits :: "plan_call list \<Rightarrow> (string \<times> string) set" where
  "waits cs = {(d, i). \<exists>c \<in> set cs. pl_step c = i \<and> d \<in> set (pl_deps c)}"

lemma wf_waits: "acyclic (waits cs) \<Longrightarrow> wf (waits cs)"
proof -
  have "waits cs = (\<Union>c \<in> set cs. (\<lambda>d. (d, pl_step c)) ` set (pl_deps c))" by (auto simp: waits_def)
  then show "acyclic (waits cs) \<Longrightarrow> wf (waits cs)" by (simp add: finite_acyclic_wf)
qed

lemma some_ready:
  assumes "wf (waits cs)" and "\<exists>c \<in> set cs. pl_step c \<notin> set fin"
  shows "\<exists>c \<in> set cs. call_ready (map pl_step cs) fin c"
proof -
  let ?U = "{pl_step c | c. c \<in> set cs \<and> pl_step c \<notin> set fin}"
  from assms(2) obtain x where "x \<in> ?U" by blast
  from wfE_min[OF assms(1) this] obtain i where i: "i \<in> ?U" "\<And>y. (y, i) \<in> waits cs \<Longrightarrow> y \<notin> ?U" by blast
  then obtain c where c: "c \<in> set cs" "pl_step c = i" "i \<notin> set fin" by blast
  have "d \<in> set fin \<or> d \<notin> set (map pl_step cs)" if "d \<in> set (pl_deps c)" for d
  proof -
    have "(d, i) \<in> waits cs" using that c by (auto simp: waits_def)
    from i(2)[OF this] show ?thesis by auto
  qed
  with c show ?thesis by (auto simp: call_ready_def list_all_iff)
qed

text \<open>
  What the executor answered for a call that ran at instant \<open>j\<close> under the id of its row: its own result, the
  failure it reports, or the cancellation.
\<close>

definition answered :: "plan_env \<Rightarrow> nat \<Rightarrow> plan_call \<Rightarrow> string \<times> run_result \<Rightarrow> bool" where
  "answered E j c x \<longleftrightarrow> (case pe_run E j (fst x) c of Ran res \<Rightarrow> snd x = res
     | Refused e \<Rightarrow> rr_tool (snd x) = pl_tool c \<and> rr_inputs (snd x) = pl_args c \<and> tr_status (rr_row (snd x)) = ''failed''
         \<and> tr_rest (rr_row (snd x)) = e \<and> rr_hosts (snd x) = []
     | Stopped \<Rightarrow> rr_tool (snd x) = pl_tool c \<and> rr_inputs (snd x) = pl_args c \<and> tr_status (rr_row (snd x)) = ''cancelled''
         \<and> tr_rest (rr_row (snd x)) = [] \<and> rr_hosts (snd x) = [])"

lemma end_answered: "answered E k c (i, end_result E k (c, i))"
  by (simp add: answered_def end_result_def Let_def split: exec_end.split)

text \<open>The calls that ran and when: each was recorded with its own answer, and its dependencies ran before it.\<close>

definition ran_as :: "plan_env \<Rightarrow> recon_db \<Rightarrow> (plan_call \<times> nat) list \<Rightarrow> (string \<times> run_result) list \<Rightarrow> bool" where
  "ran_as E r hist rs \<longleftrightarrow> list_all2 (\<lambda>(c, j) x. done_row r c x \<and> answered E j c x) hist rs \<and> distinct (map fst rs)
     \<and> (\<forall>(c, j) \<in> set hist. \<forall>(b, i) \<in> set hist. pl_step c \<in> set (pl_deps b) \<longrightarrow> j < i)"

lemma plan_loop_quiet:
  assumes q: "quiet E" and known: "\<forall>c \<in> set cs. cg_known G (canonical_tool_id (pl_tool c))"
    and dist: "distinct (map pl_step cs)" and wf: "wf (waits cs)"
  shows "alive P cs (td_recon d) \<Longrightarrow> fresh E k (td_recon d) \<Longrightarrow> distinct (map fst hist) \<Longrightarrow> set (map fst hist) \<subseteq> set cs
    \<Longrightarrow> set fin = pl_step ` set (map fst hist)
    \<Longrightarrow> follows {} (pl_step ` set cs) (map fst hist) \<Longrightarrow> ran_as E (td_recon d) hist out
    \<Longrightarrow> (\<forall>x \<in> set out. \<exists>j < k. fst x = pe_id E j) \<and> (\<forall>x \<in> set hist. snd x < k)
    \<Longrightarrow> length cs < n + length hist \<Longrightarrow>
    \<exists>hist' rs k' t. plan_loop n G P cs fin out E k d = (Inr rs, k', t) \<and> mset (map fst hist') = mset cs
      \<and> follows {} (pl_step ` set cs) (map fst hist') \<and> ran_as E (td_recon t) hist' rs"
proof (induction n arbitrary: k d hist fin out)
  case 0
  have "distinct cs" using dist by (simp add: distinct_map)
  then have "length (map fst hist) \<le> length cs" using 0(3,4) by (metis List.finite_set card_mono distinct_card list.set_map)
  with 0 show ?case by simp
next
  case (Suc n)
  define order where order_def: "order = map fst hist"
  have old: "set order \<subseteq> set cs" "set fin = pl_step ` set order" "distinct order" "follows {} (pl_step ` set cs) order"
    "length hist = length order"
    using Suc.prems(3-6) by (simp_all add: order_def)
  have dcs: "distinct cs" using dist by (simp add: distinct_map)
  have inj: "inj_on pl_step (set cs)" using dist by (simp add: distinct_map)
  have inj_id: "pe_id E i = pe_id E j \<longleftrightarrow> i = j" for i j using q by (simp add: quiet_def inj_eq)
  have len: "length (remdups fin) = length order"
    unfolding length_remdups_card_conv old(2) card_image[OF inj_on_subset[OF inj old(1)]] distinct_card[OF old(3)] ..
  show ?case
  proof (cases "length cs \<le> length order")
    case True
    have "card (set cs) \<le> card (set order)" using True by (simp add: distinct_card[OF dcs] distinct_card[OF old(3)])
    then have "set order = set cs" by (intro card_seteq[OF _ old(1)]) simp_all
    then have "mset order = mset cs" using old(3) dcs by (simp add: set_eq_iff_mset_eq_distinct)
    with Suc.prems True len show ?thesis
      by (intro exI[of _ hist] exI[of _ out] exI[of _ k] exI[of _ d]) (simp add: ret_def order_def)
  next
    case False
    have "fresh E (Suc k) (td_recon d)" using Suc.prems(2) by (simp add: fresh_def)
    from queue_ready_quiet[OF q known subset_refl Suc.prems(1) this, of "map pl_step cs" fin] obtain ready k1 d1 where
      r: "queue_ready G P (map pl_step cs) cs fin E (Suc k) d = (Inr (ready, fin), k1, d1)" "Suc k \<le> k1" "same_run (td_recon d) (td_recon d1)"
        "fresh E k1 (td_recon d1)" "map fst ready = filter (call_ready (map pl_step cs) fin) cs" "distinct (map snd ready)"
      and rows: "\<forall>(c, i) \<in> set ready. \<exists>j x. Suc k \<le> j \<and> i = pe_id E j \<and> row (calls (td_recon d1)) i = Some x \<and> queued_row P c x"
      and oth: "\<forall>i. i \<notin> snd ` set ready \<longrightarrow> row (calls (td_recon d1)) i = row (calls (td_recon d)) i"
      by (elim exE conjE) (rule that; assumption)
    let ?ex = "map (\<lambda>(c, i). (c, i, end_result E k1 (c, i))) ready"
    have ids: "map (fst \<circ> snd) ?ex = map snd ready" by (simp add: comp_def case_prod_unfold)
    have image_ids: "(fst \<circ> snd) ` set ?ex = snd ` set ready" using arg_cong[OF ids, of set] by (simp only: set_map)
    have exrows: "\<forall>(c, i, res) \<in> set ?ex. \<exists>x. row (calls (td_recon d1)) i = Some x \<and> queued_row P c x"
      using rows by fastforce
    have a1: "alive P cs (td_recon d1)" by (rule alive_same[OF r(3) Suc.prems(1)])
    have "distinct (map (fst \<circ> snd) ?ex)" unfolding ids by (rule r(6))
    from finish_each_quiet[OF q a1 this exrows, of G "Suc k1"] obtain k2 d2 where
      f: "each_act (finish_one G P) ?ex E (Suc k1) d1 = (Inr (), k2, d2)" "Suc k1 \<le> k2" "same_run (td_recon d1) (td_recon d2)"
      "\<forall>(c, x) \<in> set ?ex. done_row (td_recon d2) c x"
      "\<forall>j. j \<notin> snd ` set ready \<longrightarrow> row (calls (td_recon d2)) j = row (calls (td_recon d1)) j"
      unfolding image_ids by (elim exE conjE) (rule that; assumption)
    have ne: "ready \<noteq> []"
    proof -
      have "\<exists>c \<in> set cs. pl_step c \<notin> set fin"
      proof (rule ccontr)
        assume "\<not> ?thesis"
        then have "pl_step ` set cs \<subseteq> pl_step ` set order" using old(2) by auto
        have "set cs \<subseteq> set order"
        proof
          fix c assume c: "c \<in> set cs"
          with \<open>pl_step ` set cs \<subseteq> pl_step ` set order\<close> have "pl_step c \<in> pl_step ` set order" by auto
          then obtain c' where "c' \<in> set order" "pl_step c = pl_step c'" by auto
          with c old(1) inj_onD[OF inj, of c c'] show "c \<in> set order" by auto
        qed
        then have "length cs \<le> length order" using dcs old(3) by (metis List.finite_set card_mono distinct_card)
        with False show False by simp
      qed
      from some_ready[OF wf this] have "filter (call_ready (map pl_step cs) fin) cs \<noteq> []" by (auto simp: filter_empty_conv)
      with r(5) show ?thesis by (metis list.map_disc_iff)
    qed
    let ?hist = "hist @ map (\<lambda>(c, i). (c, k1)) ready" and ?order = "order @ map fst ready" and ?fin = "map (pl_step \<circ> fst) ready @ fin" and ?out = "out @ map snd ?ex"
    have loop: "plan_loop (Suc n) G P cs fin out E k d = plan_loop n G P cs ?fin ?out E k2 d2"
    proof -
      have j: "join_wave ready E k1 d1 = (Inr ?ex, Suc k1, d1)" by (simp add: join_wave_def)
      show ?thesis using False len ne by (simp add: andThen_def check_quiet[OF q] r(1) j f(1) del: set_map map_map)
    qed
    have new: "pl_step (fst x) \<notin> set fin \<and> fst x \<in> set cs \<and> set (pl_deps (fst x)) \<inter> pl_step ` set cs \<subseteq> set fin" if "x \<in> set ready" for x
    proof -
      have "fst x \<in> set (map fst ready)" using that by simp
      then show ?thesis unfolding r(5) by (auto simp: call_ready_def list_all_iff)
    qed
    have order: "map fst ?hist = ?order" by (simp add: order_def comp_def case_prod_unfold)
    have g3: "distinct ?order"
    proof -
      have "distinct (map fst ready)" unfolding r(5) using dcs by simp
      moreover have "set order \<inter> set (map fst ready) = {}" using new old(2) by fastforce
      ultimately show ?thesis using old(3) by simp
    qed
    have g4: "set ?order \<subseteq> set cs" using old(1) new by auto
    have g5: "set ?fin = pl_step ` set ?order" using old(2) by (auto simp: image_comp)
    have g6: "follows {} (pl_step ` set cs) ?order"
    proof -
      have "\<forall>c \<in> set (map fst ready). set (pl_deps c) \<inter> pl_step ` set cs \<subseteq> {} \<union> pl_step ` set order"
        using new old(2) by simp
      from follows_wave[OF this] old(4) show ?thesis by (simp only: follows_append)
    qed
    have keep: "done_row (td_recon d2) c x" if "done_row (td_recon d) c x" "x \<in> set out" for c x
    proof -
      from Suc.prems(8) that(2) obtain j where j: "j < k" "fst x = pe_id E j" by blast
      have "fst x \<notin> snd ` set ready" using rows j inj_id by fastforce
      with that(1) oth f(5) show ?thesis by (simp add: done_row_def)
    qed
    have dep: "set (pl_deps b) \<inter> pl_step ` set cs \<subseteq> set fin" if "b \<in> set ?order" for b
    proof -
      from that consider "b \<in> set order" | x where "x \<in> set ready" "b = fst x" by auto
      then show ?thesis using follows_deps[OF old(4), of b] new old(2) by cases auto
    qed
    have g7: "ran_as E (td_recon d2) ?hist ?out"
      unfolding ran_as_def
    proof (intro conjI)
      have "list_all2 (\<lambda>(c, j) x. done_row (td_recon d2) c x \<and> answered E j c x) hist out"
        using Suc.prems(7) keep by (auto simp: ran_as_def list_all2_conv_all_nth case_prod_unfold)
      moreover have "list_all2 (\<lambda>(c, j) x. done_row (td_recon d2) c x \<and> answered E j c x) (map (\<lambda>(c, i). (c, k1)) ready) (map snd ?ex)"
        using f(4) end_answered by (auto simp: list.rel_map list_all2_same split_beta)
      ultimately show "list_all2 (\<lambda>(c, j) x. done_row (td_recon d2) c x \<and> answered E j c x) ?hist ?out" by (rule list_all2_appendI)
      have "map fst ?out = map fst out @ map snd ready" by (simp add: comp_def case_prod_unfold)
      moreover have "set (map fst out) \<inter> set (map snd ready) = {}" using rows Suc.prems(8) inj_id by fastforce
      moreover have "distinct (map fst out)" using Suc.prems(7) by (simp add: ran_as_def)
      ultimately show "distinct (map fst ?out)" using r(6) by (simp only: distinct_append)
      show "\<forall>(c, j) \<in> set ?hist. \<forall>(b, i) \<in> set ?hist. pl_step c \<in> set (pl_deps b) \<longrightarrow> j < i"
      proof clarify
        fix c j b i assume c: "(c, j) \<in> set ?hist" and b: "(b, i) \<in> set ?hist" and d: "pl_step c \<in> set (pl_deps b)"
        have "fst (c, j) \<in> set (map fst ?hist)" "fst (b, i) \<in> set (map fst ?hist)"
          unfolding set_map by (rule imageI[OF c], rule imageI[OF b])
        then have "c \<in> set ?order" "b \<in> set ?order" by (simp_all only: order fst_conv)
        then have "pl_step c \<in> set fin" using dep[of b] d g4 by blast
        moreover have "pl_step c \<notin> set fin" if "(c, i') \<in> set ready" for i' using new[OF that] by simp
        ultimately have cj: "(c, j) \<in> set hist" using c by auto
        have jk: "j < k1" using bspec[OF conjunct2[OF Suc.prems(8)] cj] r(2) by simp
        have before: "\<forall>(c, j) \<in> set hist. \<forall>(b, i) \<in> set hist. pl_step c \<in> set (pl_deps b) \<longrightarrow> j < i"
          using Suc.prems(7) unfolding ran_as_def by (elim conjE)
        from b consider "(b, i) \<in> set hist" | "i = k1" by auto
        then show "j < i"
        proof cases
          case 1
          from before[rule_format, OF cj, unfolded prod.case, rule_format, OF 1] d show ?thesis by simp
        qed (simp add: jk)
      qed
    qed
    have g8: "(\<forall>x \<in> set ?out. \<exists>j < k2. fst x = pe_id E j) \<and> (\<forall>x \<in> set ?hist. snd x < k2)"
    proof (intro conjI ballI)
      fix x assume "x \<in> set ?hist"
      then show "snd x < k2" using Suc.prems(8) r(2) f(2) by force
    next
      fix x assume "x \<in> set ?out"
      then consider "x \<in> set out" | c i where "(c, i) \<in> set ready" "fst x = i" by auto
      then show "\<exists>j < k2. fst x = pe_id E j"
      proof cases
        case 1
        with Suc.prems(8) r(2) f(2) show ?thesis by (meson Suc_leD less_le_trans)
      next
        case 2
        with rows obtain j y where j: "i = pe_id E j" "row (calls (td_recon d1)) i = Some y" by fastforce
        have "j < k1" using r(4) j by (auto simp: fresh_def not_less[symmetric])
        with j 2 f(2) show ?thesis by (intro exI[of _ j]) simp
      qed
    qed
    have fr: "fresh E k2 (td_recon d2)"
    proof -
      have "row (calls (td_recon d2)) (pe_id E j) = None" if "k2 \<le> j" for j
      proof -
        have n: "row (calls (td_recon d1)) (pe_id E j) = None" using r(4) f(2) that by (simp add: fresh_def)
        then have "pe_id E j \<notin> snd ` set ready" using rows by fastforce
        with n f(5) show ?thesis by simp
      qed
      then show ?thesis by (simp add: fresh_def)
    qed
    have "length cs < n + length ?hist" using Suc.prems(9) old(5) ne by (cases ready) auto
    from Suc.IH[OF alive_same[OF f(3) a1] fr, where hist = ?hist, unfolded order, OF g3 g4 g5 g6 g7 g8 this] show ?thesis unfolding loop .
  qed
qed

text \<open>C35: an accepted plan whose tools are enabled runs to its end when nobody disturbs it (no cancellation,
  no refused store operation, no other writer). Every call is executed exactly once, under an id of its own,
  and after the calls it depends on; what is recorded in its row and returned is its tool, its arguments and
  what the executor answered for that call: the result of the tool, the failure it reported, or that it
  was stopped.\<close>

theorem plan_runs_all:
  assumes "quiet E" and "validate_plan R cs = Inr ()" and "\<forall>c \<in> set cs. cg_known G (canonical_tool_id (pl_tool c))"
    and "alive P cs (td_recon d)" and "\<forall>j \<ge> k. row (calls (td_recon d)) (pe_id E j) = None"
  shows "\<exists>hist rs k' t. execute_plan G P cs E k d = (Inr rs, k', t) \<and> mset (map fst hist) = mset cs
    \<and> follows {} (pl_step ` set cs) (map fst hist) \<and> ran_as E (td_recon t) hist rs"
proof -
  have v: "distinct (map pl_step cs)" "wf (waits cs)"
    using assms(2) unfolding validate_plan_accepts waits_def[symmetric] by (simp_all add: wf_waits)
  show ?thesis unfolding execute_plan_def
    by (rule plan_loop_quiet[OF assms(1,3) v assms(4), where hist = "[]"]) (use assms(5) in \<open>simp_all add: fresh_def ran_as_def\<close>)
qed

theorem plan_runs_all_witness:
  "\<exists>hist rs k t. execute_plan plan_catalogue the_run [step ''a'' ''hunter_email_finder'' [''b''], whoxy ''b'']
      (plan_world (\<lambda>_. False) (\<lambda>_. False) ''whoxy_whois_history'' [''h'']) 0 (plan_db []) = (Inr rs, k, t)
    \<and> mset (map fst hist) = {# step ''a'' ''hunter_email_finder'' [''b''], whoxy ''b'' #}
    \<and> ran_as (plan_world (\<lambda>_. False) (\<lambda>_. False) ''whoxy_whois_history'' [''h'']) (td_recon t) hist rs"
proof -
  let ?E = "plan_world (\<lambda>_. False) (\<lambda>_. False) ''whoxy_whois_history'' [''h'']" and ?cs = "[step ''a'' ''hunter_email_finder'' [''b''], whoxy ''b'']"
  have E: "quiet ?E" by (auto simp: quiet_def plan_world_def inj_def)
  have v: "validate_plan demo_registry ?cs = Inr ()" by code_simp
  have k: "\<forall>c \<in> set ?cs. cg_known plan_catalogue (canonical_tool_id (pl_tool c))" by (simp add: plan_cat)
  have a: "alive the_run ?cs (td_recon (plan_db []))"
    by (simp add: alive_def the_run_def plan_db_def live_def step_def whoxy_def tool_enabled_def default_enabled_def canonical_tool_id_def)
  have "\<forall>j \<ge> 0. row (calls (td_recon (plan_db []))) (pe_id ?E j) = None" by (simp add: plan_db_def)
  from plan_runs_all[OF E v k a this] show ?thesis by auto
qed

section \<open>The fuel is enough\<close>

text \<open>Whatever happens, the loop never runs out of fuel: each round that runs a call finishes a new step.\<close>

definition fuelled :: "'a act \<Rightarrow> bool" where
  "fuelled p \<longleftrightarrow> (\<forall>E k d. fst (p E k d) \<noteq> Inl No_Fuel)"

lemma fuelled_andThen: "fuelled p \<Longrightarrow> (\<And>x E k d k' d'. p E k d = (Inr x, k', d') \<Longrightarrow> fuelled (q x)) \<Longrightarrow> fuelled (andThen p q)"
  unfolding fuelled_def andThen_def by (auto split: prod.split sum.split) (metis fst_conv)+

lemma fuelled_basic [simp, intro]: "fuelled (ret x)" "fuelled (recon_op f)" "fuelled (reading g)" "fuelled check_cancel" "fuelled (fail Run_Inactive)"
  "fuelled (join_wave r)"
  by (auto simp: fuelled_def ret_def recon_op_def store_op_def reading_def check_cancel_def fail_def join_wave_def Let_def split: option.split sum.split prod.split)

lemma fuelled_each: "(\<And>x. fuelled (f x)) \<Longrightarrow> fuelled (each_act f xs)"
  by (induction xs) (auto intro!: fuelled_andThen)

lemma fuelled_queue [simp, intro]: "fuelled (queue_ready G P batch cs fin)"
  by (induction cs arbitrary: fin) (auto intro!: fuelled_andThen fuelled_each simp: link_found_def split: prod.split)

lemma fuelled_finish [simp, intro]: "fuelled (finish_one G P x)"
  by (cases x) (auto intro!: fuelled_andThen fuelled_each simp: finish_one_def link_found_def)

lemma queue_ready_steps:
  "queue_ready G P batch cs fin E k d = (Inr (ready, fin'), k', d') \<Longrightarrow>
     set fin \<subseteq> set fin' \<and> set fin' \<subseteq> set fin \<union> pl_step ` set cs \<and> (\<forall>x \<in> set ready. fst x \<in> set cs \<and> pl_step (fst x) \<notin> set fin)"
proof (induction cs arbitrary: fin k d ready fin' k' d')
  case Nil
  then show ?case by (simp add: ret_def)
next
  case (Cons c cs)
  show ?case
  proof (cases "call_ready batch fin c")
    case False
    with Cons.prems have "queue_ready G P batch cs fin E k d = (Inr (ready, fin'), k', d')" by simp
    from Cons.IH[OF this] show ?thesis by auto
  next
    case True
    then have c: "pl_step c \<notin> set fin" by (simp add: call_ready_def)
    with Cons.prems obtain b k1 d1 where "(if \<not> b then fail Run_Inactive else andThen (reading (\<lambda>E k r. tool_enabled (pl_tool c) r)) (\<lambda>on.
          if \<not> on then queue_ready G P batch cs (pl_step c # fin)
          else andThen (each_act (link_found P None) (cg_named G (pl_args c))) (\<lambda>_.
            andThen (recon_op (\<lambda>E k. queue_call (cg_known G) (pe_now E k) (pe_id E k) (pl_tool c) (pl_args c) ''recon''
              (Some (pr_run P)) (Some (pr_thread P)) (Some (pr_turn P)))) (\<lambda>i.
            andThen (queue_ready G P batch cs fin) (\<lambda>(ready, fin). ret ((c, i) # ready, fin)))))) E k1 d1 = (Inr (ready, fin'), k', d')"
      unfolding queue_ready.simps by (simp only: True not_True_eq_False if_False andThen_Inr) blast
    then obtain on k2 d2 where 1: "(if \<not> on then queue_ready G P batch cs (pl_step c # fin)
          else andThen (each_act (link_found P None) (cg_named G (pl_args c))) (\<lambda>_.
            andThen (recon_op (\<lambda>E k. queue_call (cg_known G) (pe_now E k) (pe_id E k) (pl_tool c) (pl_args c) ''recon''
              (Some (pr_run P)) (Some (pr_thread P)) (Some (pr_turn P)))) (\<lambda>i.
            andThen (queue_ready G P batch cs fin) (\<lambda>(ready, fin). ret ((c, i) # ready, fin))))) E k2 d2 = (Inr (ready, fin'), k', d')"
      by (cases b) (auto simp: andThen_Inr fail_def)
    show ?thesis
    proof (cases on)
      case False
      with 1 have "queue_ready G P batch cs (pl_step c # fin) E k2 d2 = (Inr (ready, fin'), k', d')" by simp
      from Cons.IH[OF this] show ?thesis by auto
    next
      case True
      with 1 obtain i k3 d3 ready2 fin2 where q: "queue_ready G P batch cs fin E k3 d3 = (Inr (ready2, fin2), k', d')" "ready = (c, i) # ready2" "fin2 = fin'"
        by (auto simp: andThen_Inr ret_def)
      from Cons.IH[OF q(1)] q(2,3) c show ?thesis by auto
    qed
  qed
qed

lemma plan_never_stuck: "fuelled (execute_plan G P cs)"
proof -
  have "set fin \<subseteq> pl_step ` set cs \<Longrightarrow> length cs < n + length (remdups fin) \<Longrightarrow> fuelled (plan_loop n G P cs fin out)" for n fin out
  proof (induction n arbitrary: fin out)
    case 0
    have "card (set fin) \<le> length cs" using card_mono[OF _ 0(1)] card_image_le[of "set cs" pl_step] card_length[of cs] by (meson List.finite_set finite_imageI le_trans)
    with 0 show ?case by (simp add: length_remdups_card_conv)
  next
    case (Suc n)
    have "fuelled (if ready = [] then ret out else andThen (join_wave ready) (\<lambda>ex. andThen (each_act (finish_one G P) ex) (\<lambda>_.
            plan_loop n G P cs (map (pl_step \<circ> fst) ready @ fin') (out @ map snd ex))))"
      if r: "queue_ready G P (map pl_step cs) cs fin E k d = (Inr (ready, fin'), k', d')" for E k d ready fin' k' d'
    proof (cases ready)
      case (Cons x xs)
      let ?fin = "map (pl_step \<circ> fst) ready @ fin'"
      note st = queue_ready_steps[OF r]
      have sub: "set ?fin \<subseteq> pl_step ` set cs" using st Suc.prems(1) by auto
      have "insert (pl_step (fst x)) (set fin) \<subseteq> set ?fin" using st Cons by auto
      then have "card (insert (pl_step (fst x)) (set fin)) \<le> card (set ?fin)" by (intro card_mono) simp_all
      moreover have "card (insert (pl_step (fst x)) (set fin)) = Suc (card (set fin))" using st Cons by simp
      ultimately have "card (set fin) < card (set ?fin)" by linarith
      then have "length (remdups fin) < length (remdups ?fin)" by (simp only: length_remdups_card_conv)
      with Suc.prems(2) have "length cs < n + length (remdups ?fin)" by simp
      from Suc.IH[OF sub this] show ?thesis by (auto intro!: fuelled_andThen fuelled_each)
    qed simp
    then show ?case by (auto intro!: fuelled_andThen)
  qed
  from this[of "[]" "Suc (length cs)" "[]"] show ?thesis by (simp only: execute_plan_def) simp
qed

end
