(* ===== verification/Plan_Ledger.thy ===== *)
theory Plan_Ledger
  imports Plan_Cases
begin

text \<open>
  What holds of a plan under the credit ledger: every operation on the investigations leaves the holds of
  the batch open, every end of the batch settles them unless the ledger refuses to, and what a refusal
  leaves behind.
\<close>

section \<open>What every operation of a plan keeps\<close>

definition keeps :: "(nat \<Rightarrow> tool_db \<Rightarrow> bool) \<Rightarrow> plan_env \<Rightarrow> 'a act \<Rightarrow> bool" where
  "keeps J E p \<longleftrightarrow> (\<forall>k d. J k d \<longrightarrow> (case p E k d of (r, k', d') \<Rightarrow> J k' d'))"

lemma keeps_ret [simp, intro]: "keeps J E (ret x)" by (simp add: keeps_def ret_def)
lemma keeps_fail [simp, intro]: "keeps J E (fail e)" by (simp add: keeps_def fail_def)

lemma keeps_andThen [intro]: "keeps J E p \<Longrightarrow> (\<And>x. keeps J E (q x)) \<Longrightarrow> keeps J E (andThen p q)"
proof -
  assume p: "keeps J E p" and q: "\<And>x. keeps J E (q x)"
  have "J k' d'" if "J k d" "andThen p q E k d = (r, k', d')" for k d r k' d'
  proof -
    obtain r1 k1 d1 where 1: "p E k d = (r1, k1, d1)" by (metis prod.exhaust)
    with p that(1) have j: "J k1 d1" unfolding keeps_def by fastforce
    show ?thesis
    proof (cases r1)
      case (Inl e)
      with that(2) 1 j show ?thesis by (simp add: andThen_def)
    next
      case (Inr x)
      with that(2) 1 have "q x E k1 d1 = (r, k', d')" by (simp add: andThen_def)
      with q[of x] j show ?thesis unfolding keeps_def by fastforce
    qed
  qed
  then show ?thesis unfolding keeps_def by (simp add: split_beta) (metis prod.collapse)
qed

lemma keeps_each [intro]: "(\<And>x. keeps J E (f x)) \<Longrightarrow> keeps J E (each_act f xs)"
  by (induction xs) auto

lemma keepsD: "keeps J E p \<Longrightarrow> p E k d = (r, k', d') \<Longrightarrow> J k d \<Longrightarrow> J k' d'"
  by (fastforce simp: keeps_def)

text \<open>
  A property of the number of operations and the store that what others do and the operations on the
  investigation tables do not break.
\<close>

locale plan_frame =
  fixes E :: plan_env and J :: "nat \<Rightarrow> tool_db \<Rightarrow> bool"
  assumes J_others: "J k d \<Longrightarrow> J k (pe_others E k d)"
    and J_next: "J k d \<Longrightarrow> J (Suc k) d"
    and J_recon: "J k d \<Longrightarrow> J k (d\<lparr>td_recon := r\<rparr>)"
begin

lemma keeps_recon_op [simp, intro]: "keeps J E (recon_op f)"
  unfolding keeps_def recon_op_def store_op_def Let_def
  by (auto split: prod.splits sum.splits option.splits intro!: J_next J_recon J_others)

lemma keeps_reading [simp, intro]: "keeps J E (reading f)"
  by (simp add: reading_def)

lemma keeps_check [simp, intro]: "keeps J E check_cancel"
  by (simp add: keeps_def check_cancel_def J_next)

lemma keeps_link [simp, intro]: "keeps J E (link_found P src kc)"
  by (simp add: link_found_def)

lemma keeps_queue_ready [simp, intro]: "keeps J E (queue_ready G P batch cs fin)"
  by (induction cs arbitrary: fin) (auto intro!: keeps_andThen keeps_each split: prod.split)

lemma keeps_finish [simp, intro]: "keeps J E (finish_one G P x)"
  by (cases x) (auto simp: finish_one_def)

lemma keeps_join [simp, intro]: "keeps J E (join_wave ready)"
  by (simp add: keeps_def join_wave_def J_next)

lemma keeps_loop [simp, intro]: "keeps J E (plan_loop n G P cs fin out)"
  by (induction n arbitrary: fin out) (auto intro!: keeps_andThen keeps_each split: prod.split)

lemma keeps_plan [simp, intro]: "keeps J E (execute_plan G P cs)"
  unfolding execute_plan_def by (rule keeps_loop)

end

section \<open>The holds of a batch\<close>

text \<open>
  What others may do: commit anything to the investigations, and to the ledger what keeps it consistent
  and leaves the reservations of this batch alone. The store may refuse any operation of the batch.
\<close>

definition rely :: "plan_env \<Rightarrow> bool" where
  "rely E \<longleftrightarrow> inj (pe_id E) \<and> (\<forall>k. pe_id E k \<noteq> [])
     \<and> (\<forall>k d. ledger_ok (td_ledger d) \<longrightarrow> ledger_ok (td_ledger (pe_others E k d)))
     \<and> (\<forall>k d j. row (reservations (td_ledger (pe_others E k d))) (pe_id E j) = row (reservations (td_ledger d)) (pe_id E j))"

abbreviation "hold_ids hs \<equiv> map (h_id \<circ> snd) (hs :: (string \<times> credit_hold) list)"

definition open_holds :: "plan_env \<Rightarrow> (string \<times> credit_hold) list \<Rightarrow> nat \<Rightarrow> ledger \<Rightarrow> bool" where
  "open_holds E hs k L \<longleftrightarrow> ledger_ok L \<and> distinct (hold_ids hs)
     \<and> (\<forall>h \<in> snd ` set hs. hold_matches L h \<and> is_held L (h_id h) \<and> (\<exists>j < k. h_id h = pe_id E j))
     \<and> (\<forall>j. is_held L (pe_id E j) \<longrightarrow> pe_id E j \<in> set (hold_ids hs))
     \<and> (\<forall>j \<ge> k. row (reservations L) (pe_id E j) = None)"

lemma open_holds_cong:
  assumes "open_holds E hs k L" and "ledger_ok L'" and "\<And>j. row (reservations L') (pe_id E j) = row (reservations L) (pe_id E j)"
  shows "open_holds E hs k L'"
proof -
  have same: "is_held L' (pe_id E j) = is_held L (pe_id E j)" for j by (simp add: is_held_def assms(3))
  have "hold_matches L' h \<and> is_held L' (h_id h) \<and> (\<exists>j < k. h_id h = pe_id E j)" if "h \<in> snd ` set hs" for h
  proof -
    from that assms(1) obtain j where "j < k" "h_id h = pe_id E j" "hold_matches L h" "is_held L (h_id h)"
      by (auto simp: open_holds_def)
    then show ?thesis by (auto simp: hold_matches_def assms(3) same)
  qed
  with assms same show ?thesis by (simp add: open_holds_def)
qed

interpretation batch: plan_frame E "\<lambda>k d. rely E \<and> open_holds E hs k (td_ledger d)" for E hs
proof unfold_locales
  show "rely E \<and> open_holds E hs k (td_ledger (pe_others E k d))" if "rely E \<and> open_holds E hs k (td_ledger d)" for k d
  proof -
    from that have r: "rely E" and o: "open_holds E hs k (td_ledger d)" by simp_all
    have "ledger_ok (td_ledger d)" using o by (simp add: open_holds_def)
    with r have "ledger_ok (td_ledger (pe_others E k d))" by (simp add: rely_def)
    from open_holds_cong[OF o this] r show ?thesis by (simp add: rely_def)
  qed
  show "rely E \<and> open_holds E hs (Suc k) (td_ledger d)" if "rely E \<and> open_holds E hs k (td_ledger d)" for k d
  proof -
    from that have r: "rely E" and o: "open_holds E hs k (td_ledger d)" by simp_all
    have "\<exists>j < Suc k. h_id h = pe_id E j" if "h \<in> snd ` set hs" for h
      using that o unfolding open_holds_def by (meson less_SucI)
    with r o show ?thesis unfolding open_holds_def by simp
  qed
qed simp_all

text \<open>Settling one hold closes it and leaves the others open.\<close>

lemma settled_open:
  assumes o: "open_holds E hs k L" and "(s, h) \<in> set hs" and L': "ledger_ok L'" "\<not> is_held L' (h_id h)"
    "\<forall>i. i \<noteq> h_id h \<longrightarrow> row (reservations L') i = row (reservations L) i"
    and hs': "mset hs = add_mset (s, h) (mset hs')"
  shows "open_holds E hs' (Suc k) L'"
proof -
  have set: "set hs = insert (s, h) (set hs')" using arg_cong[OF hs', of set_mset] by simp
  have "mset (hold_ids hs) = add_mset (h_id h) (mset (hold_ids hs'))" by (simp only: mset_map hs') simp
  then have "distinct (h_id h # hold_ids hs')" using o mset_eq_imp_distinct_iff[of "h_id h # hold_ids hs'" "hold_ids hs"]
    by (simp add: open_holds_def)
  then have d: "distinct (hold_ids hs')" "h_id h \<notin> set (hold_ids hs')" by simp_all
  have same: "is_held L' i = is_held L i" if "i \<noteq> h_id h" for i using that L'(3) by (simp add: is_held_def)
  have "hold_matches L' g \<and> is_held L' (h_id g) \<and> (\<exists>j < Suc k. h_id g = pe_id E j)" if g: "g \<in> snd ` set hs'" for g
  proof -
    have ne: "h_id g \<noteq> h_id h" using g d(2) by force
    have "hold_matches L g \<and> is_held L (h_id g) \<and> (\<exists>j < k. h_id g = pe_id E j)" using o g set by (auto simp: open_holds_def)
    with ne L'(3) same show ?thesis by (auto simp: hold_matches_def less_Suc_eq)
  qed
  moreover have "pe_id E j \<in> set (hold_ids hs')" if "is_held L' (pe_id E j)" for j
  proof -
    have ne: "pe_id E j \<noteq> h_id h" using that L'(2) by auto
    with that same o have "pe_id E j \<in> set (hold_ids hs)" by (auto simp: open_holds_def)
    with ne set show ?thesis by auto
  qed
  moreover have "row (reservations L') (pe_id E j) = None" if "Suc k \<le> j" for j
  proof -
    have none: "row (reservations L) (pe_id E j) = None" using that o by (simp add: open_holds_def)
    have "is_held L (h_id h)" using o assms(2) by (force simp: open_holds_def)
    then have "pe_id E j \<noteq> h_id h" using none by (auto simp: is_held_def)
    with none L'(3) show ?thesis by simp
  qed
  ultimately show ?thesis using L'(1) d(1) by (simp add: open_holds_def)
qed

text \<open>The operation ended with the error of a ledger operation, its last, that the store refused.\<close>

definition ledger_refused :: "plan_env \<Rightarrow> plan_error + 'a \<Rightarrow> nat \<Rightarrow> bool" where
  "ledger_refused E r k \<longleftrightarrow> (\<exists>e k1. k = Suc k1 \<and> pe_fault E Ledger_Op k1 = Some e \<and> r = Inl (Store_Failed e))"

text \<open>An operation ended well with the given holds open, or in such a refusal; the ledger is consistent.\<close>

definition settles :: "plan_env \<Rightarrow> ('a \<Rightarrow> (string \<times> credit_hold) list) \<Rightarrow> (plan_error + 'a) \<times> nat \<times> tool_db \<Rightarrow> bool" where
  "settles E left x = (case x of (r, k, d) \<Rightarrow> ledger_ok (td_ledger d)
     \<and> (case r of Inr v \<Rightarrow> open_holds E (left v) k (td_ledger d) | Inl _ \<Rightarrow> ledger_refused E r k))"

lemma settles_andThen:
  assumes "settles E left (p E k d)"
    and "\<And>v k1 d1. p E k d = (Inr v, k1, d1) \<Longrightarrow> open_holds E (left v) k1 (td_ledger d1) \<Longrightarrow> settles E left' (q v E k1 d1)"
  shows "settles E left' (andThen p q E k d)"
  using assms by (auto simp: settles_def andThen_def ledger_refused_def split: prod.splits sum.splits)

lemma ledger_op_settles:
  assumes J: "rely E" "open_holds E hs k (td_ledger d)" and mem: "(s, h) \<in> set hs" and hs': "mset hs = add_mset (s, h) (mset hs')"
    and f: "\<And>k. f E k = release_credits (pe_stamp E k) h \<or> (\<exists>n. f E k = reconcile_credits (pe_stamp E k) h n)"
  shows "settles E (\<lambda>_ :: unit. hs') (ledger_op f E k d)"
proof -
  let ?d = "pe_others E k d"
  have o: "open_holds E hs k (td_ledger ?d)" using batch.J_others J by blast
  then have h: "ledger_ok (td_ledger ?d)" "hold_matches (td_ledger ?d) h" "is_held (td_ledger ?d) (h_id h)"
    using mem by (force simp: open_holds_def)+
  obtain L' where L': "f E k (td_ledger ?d) = Inr ((), L')" "ledger_ok L'" "\<not> is_held L' (h_id h)"
    "\<forall>i. i \<noteq> h_id h \<longrightarrow> row (reservations L') i = row (reservations (td_ledger ?d)) i"
    using close_hold_frame[OF h] f[of k] by metis
  show ?thesis
  proof (cases "pe_fault E Ledger_Op k")
    case None
    with L' settled_open[OF o mem L'(2-4) hs'] show ?thesis by (simp add: settles_def ledger_op_def store_op_def Let_def)
  next
    case (Some e)
    with h show ?thesis by (simp add: settles_def ledger_refused_def ledger_op_def store_op_def Let_def)
  qed
qed

lemma mset_swap_remove: "n < length xs \<Longrightarrow> mset xs = add_mset (xs ! n) (mset (swap_remove n xs))"
proof -
  assume n: "n < length xs"
  show ?thesis
  proof (cases "Suc n = length xs")
    case True
    then have "n = length xs - 1" "xs \<noteq> []" by auto
    then have "xs \<noteq> []" "xs ! n = List.last xs" by (simp_all add: last_conv_nth)
    then have "mset xs = mset (butlast xs @ [xs ! n])" by simp
    with True show ?thesis by (simp add: swap_remove_def del: append_butlast_last_id)
  next
    case False
    with n have ne: "xs \<noteq> []" "n < length (butlast xs)" by auto
    have "mset xs = mset (butlast xs @ [List.last xs])" using ne(1) by simp
    also have "\<dots> = add_mset (List.last xs) (mset (butlast xs))" by simp
    also have "\<dots> = add_mset (List.last xs) (add_mset (butlast xs ! n) (mset (butlast xs) - {#butlast xs ! n#}))"
      using ne(2) by (subst insert_DiffM) simp_all
    also have "\<dots> = add_mset (xs ! n) (mset ((butlast xs)[n := List.last xs]))"
      using ne(2) by (simp add: mset_update nth_butlast)
    finally show ?thesis using False by (simp add: swap_remove_def)
  qed
qed

lemma position_Some: "position s xs = Some n \<Longrightarrow> n < length xs \<and> fst (xs ! n) = s"
  by (induction xs arbitrary: n) (auto split: if_splits)

lemma settle_results_open:
  assumes "rely E" "open_holds E hs k (td_ledger d)"
  shows "settles E (\<lambda>hs. hs) (settle_results rs hs E k d)"
  using assms(2)
proof (induction rs arbitrary: hs k d)
  case Nil
  then show ?case by (simp add: ret_def settles_def open_holds_def)
next
  case (Cons x rs)
  obtain i res where x: "x = (i, res)" by (cases x)
  show ?case
  proof (cases "position (rr_tool res @ '':'' @ rr_inputs res) hs")
    case None
    with Cons x show ?thesis by simp
  next
    case (Some n)
    from position_Some[OF this] have n: "n < length hs" by simp
    have mem: "(fst (hs ! n), snd (hs ! n)) \<in> set hs" using n by simp
    have ms: "mset hs = add_mset (fst (hs ! n), snd (hs ! n)) (mset (swap_remove n hs))" using mset_swap_remove[OF n] by simp
    note set = ledger_op_settles[OF assms(1) Cons.prems mem ms]
    have "settles E (\<lambda>_. swap_remove n hs) (settle_one res (snd (hs ! n)) E k d)"
      unfolding settle_one_def by (rule set) auto
    from settles_andThen[where p = "settle_one res (snd (hs ! n))" and E = E and k = k and d = d, OF this, of "\<lambda>hs. hs"
        "\<lambda>_. settle_results rs (swap_remove n hs)"] Cons.IH Some x show ?thesis by simp
  qed
qed

lemma release_holds_open:
  assumes "rely E" "open_holds E hs k (td_ledger d)"
  shows "settles E (\<lambda>_. []) (release_holds hs E k d)"
  using assms(2)
proof (induction hs arbitrary: k d)
  case Nil
  then show ?case by (simp add: release_holds_def ret_def settles_def open_holds_def)
next
  case (Cons x hs)
  obtain s h where x: "x = (s, h)" by (cases x)
  have "(s, h) \<in> set (x # hs)" "mset (x # hs) = add_mset (s, h) (mset hs)" using x by simp_all
  from ledger_op_settles[OF assms(1) Cons.prems this, of "\<lambda>E k. release_credits (pe_stamp E k) h"]
  have "settles E (\<lambda>_. hs) (ledger_op (\<lambda>E k. release_credits (pe_stamp E k) h) E k d)" by simp
  from settles_andThen[where E = E and k = k and d = d and p = "ledger_op (\<lambda>E k. release_credits (pe_stamp E k) h)",
      OF this, of "\<lambda>_. []" "\<lambda>_. release_holds hs"] Cons.IH show ?case
    by (simp add: release_holds_def x)
qed

text \<open>
  However the plan of the admitted calls ends, its holds are settled, or the batch ends with the error of
  the ledger operation that was refused.
\<close>

lemma run_admitted_open:
  assumes "rely E" "open_holds E hs k (td_ledger d)"
  shows "case run_admitted G P ok hs E k d of (r, k', d') \<Rightarrow> ledger_ok (td_ledger d')
    \<and> (open_holds E [] k' (td_ledger d') \<or> ledger_refused E r k')"
proof -
  obtain r k1 d1 where p: "execute_plan G P ok E k d = (r, k1, d1)" by (metis prod.exhaust)
  with assms keepsD[OF batch.keeps_plan] have o: "open_holds E hs k1 (td_ledger d1)" by blast
  show ?thesis
  proof (cases r)
    case (Inl e)
    from release_holds_open[OF assms(1) o] p Inl show ?thesis
      by (auto simp: run_admitted_def andThen_def fail_def settles_def ledger_refused_def split: prod.splits sum.splits)
  next
    case (Inr rs)
    have "settles E (\<lambda>_. []) (settle_holds rs hs E k1 d1)"
      unfolding settle_holds_def
      by (rule settles_andThen[where p = "settle_results rs hs" and E = E and k = k1 and d = d1,
          OF settle_results_open[OF assms(1) o]]) (rule release_holds_open[OF assms(1)])
    with p Inr show ?thesis
      by (auto simp: run_admitted_def andThen_def ret_def settles_def ledger_refused_def split: prod.splits sum.splits)
  qed
qed

lemma reserve_opens:
  assumes J: "rely E" "open_holds E hs k (td_ledger d)" and cost: "cost \<noteq> 0" and ok: "pe_fault E Ledger_Op k = None"
  shows "\<exists>h d'. ledger_op (\<lambda>E k. reserve_credits l (pe_stamp E k) (pe_id E k) p (unat (cost :: 32 word))) E k d = (Inr h, Suc k, d')
    \<and> (case h of None \<Rightarrow> open_holds E hs (Suc k) (td_ledger d')
       | Some h \<Rightarrow> open_holds E (hs @ [(s, h)]) (Suc k) (td_ledger d'))"
proof -
  let ?d = "pe_others E k d" and ?i = "pe_id E k" and ?clock = "pe_stamp E k"
  have o: "open_holds E hs k (td_ledger ?d)" using batch.J_others J by blast
  have new: "row (reservations (td_ledger ?d)) ?i = None" "?i \<noteq> []" using o J(1) by (simp_all add: open_holds_def rely_def)
  have c: "0 < unat cost" "unat cost \<le> u32_max" using cost unsigned_less[of cost, where ?'a = nat] by (auto simp: u32_max_def unat_gt_0)
  have ok: "ledger_ok (td_ledger ?d)" using o by (simp add: open_holds_def)
  from reserve_contract[OF ok c new, of l ?clock p] obtain h L' where
    r: "reserve_credits l ?clock ?i p (unat cost) (td_ledger ?d) = Inr (h, L')" and ok': "ledger_ok L'"
    and some: "\<And>g. h = Some g \<Longrightarrow> hold_matches L' g \<and> is_held L' ?i" by blast
  have op: "ledger_op (\<lambda>E k. reserve_credits l (pe_stamp E k) (pe_id E k) p (unat cost)) E k d = (Inr h, Suc k, ?d\<lparr>td_ledger := L'\<rparr>)"
    using assms(4) r by (simp add: ledger_op_def store_op_def Let_def)
  have inj: "pe_id E i = pe_id E j \<longleftrightarrow> i = j" for i j using J(1) by (simp add: rely_def inj_eq)
  show ?thesis
  proof (cases h)
    case None
    have "open_holds E hs k L'"
      by (rule open_holds_cong[OF o ok']) (use reserve_frame[OF r] None in blast)
    then have "open_holds E hs (Suc k) L'" using batch.J_next[of E hs k "?d\<lparr>td_ledger := L'\<rparr>"] J(1) by simp
    with op None show ?thesis by simp
  next
    case (Some g)
    have gid: "h_id g = ?i" using reserve_id r Some c(1) by fastforce
    have frame: "row (reservations L') i = row (reservations (td_ledger ?d)) i" if "i \<noteq> ?i" for i
      using reserve_frame[OF r] that by blast
    have old: "h_id f \<noteq> ?i \<and> hold_matches L' f \<and> is_held L' (h_id f) \<and> (\<exists>j < Suc k. h_id f = pe_id E j)" if f: "f \<in> snd ` set hs" for f
    proof -
      from o f have fo: "hold_matches (td_ledger ?d) f" "is_held (td_ledger ?d) (h_id f)" "\<exists>j < k. h_id f = pe_id E j"
        by (auto simp: open_holds_def)
      then have ne: "h_id f \<noteq> ?i" using inj by auto
      with fo frame show ?thesis by (auto simp: hold_matches_def is_held_def less_Suc_eq)
    qed
    have fresh: "?i \<notin> set (hold_ids hs)" using old by force
    have "open_holds E (hs @ [(s, g)]) (Suc k) L'"
      unfolding open_holds_def
    proof (intro conjI allI impI ballI)
      show "ledger_ok L'" by (rule ok')
      show "distinct (hold_ids (hs @ [(s, g)]))" using o fresh gid by (simp add: open_holds_def)
    next
      fix f assume "f \<in> snd ` set (hs @ [(s, g)])"
      then show "hold_matches L' f" "is_held L' (h_id f)" "\<exists>j < Suc k. h_id f = pe_id E j"
        using old some[OF Some] gid by auto
    next
      fix j assume h: "is_held L' (pe_id E j)"
      show "pe_id E j \<in> set (hold_ids (hs @ [(s, g)]))"
      proof (cases "j = k")
        case False
        with h frame inj have "is_held (td_ledger ?d) (pe_id E j)" by (simp add: is_held_def)
        with o show ?thesis by (auto simp: open_holds_def)
      qed (simp add: gid)
    next
      fix j assume "Suc k \<le> j"
      with o frame inj show "row (reservations L') (pe_id E j) = None" by (simp add: open_holds_def)
    qed
    with op Some show ?thesis by simp
  qed
qed

lemma available_keeps: "rely E \<Longrightarrow> keeps (\<lambda>k d. rely E \<and> open_holds E hs k (td_ledger d)) E (ledger_op (\<lambda>E k. credits_available l p (pe_stamp E k)))"
proof -
  assume r: "rely E"
  have "open_holds E hs (Suc k) (snd (touch_in l p (pe_stamp E k) (td_ledger (pe_others E k d))))"
    if "open_holds E hs k (td_ledger d)" for k d
  proof -
    have o: "open_holds E hs k (td_ledger (pe_others E k d))" using batch.J_others r that by blast
    obtain q L' where t: "touch_in l p (pe_stamp E k) (td_ledger (pe_others E k d)) = (q, L')" by (metis prod.exhaust)
    from o have "ledger_ok (td_ledger (pe_others E k d))" by (simp add: open_holds_def)
    from touch_in_ok[OF this t] have "ledger_ok L'" "reservations L' = reservations (td_ledger (pe_others E k d))" by simp_all
    then have "open_holds E hs k L'" using open_holds_cong[OF o] by simp
    then show ?thesis using batch.J_next[of E hs k "d\<lparr>td_ledger := L'\<rparr>"] r t by simp
  qed
  with r show ?thesis
    by (auto simp: keeps_def ledger_op_def store_op_def credits_available_def Let_def split: prod.splits option.splits)
      (metis snd_conv, metis batch.J_next batch.J_others)
qed

text \<open>The holds an admission returns are the open ones.\<close>

lemma admit_open:
  assumes "rely E" and "admit_calls G l z cs (ok, sk, hs) E k d = (Inr (ok', sk', hs'), k', d')" and "open_holds E hs k (td_ledger d)"
    and "length hs \<le> length ok"
  shows "open_holds E hs' k' (td_ledger d') \<and> length hs' \<le> length ok'"
  using assms(2-)
proof (induction cs arbitrary: ok sk hs k d)
  case Nil
  then show ?case by (simp add: ret_def)
next
  case (Cons c cs)
  let ?I = "\<lambda>k d. rely E \<and> open_holds E hs k (td_ledger d)"
  note run = Cons.prems(1)[unfolded admit_calls.simps Let_def prod.case]
  note keep = keepsD[where J = ?I, OF batch.keeps_reading]
  from run obtain k1 d1 on k2 d2 where 1: "check_cancel E k d = (Inr (), k1, d1)"
    and 2: "reading (\<lambda>E k r. tool_enabled (pl_tool c) r) E k1 d1 = (Inr on, k2, d2)"
    by (auto simp: andThen_Inr)
  have o1: "?I k1 d1" using keepsD[where J = ?I, OF batch.keeps_check 1] assms(1) Cons.prems(2) by blast
  have o2: "?I k2 d2" using keep[OF 2 o1] .
  show ?case
  proof (cases on)
    case False
    with run 1 2 have "admit_calls G l z cs (ok, sk @ [Tool_Disabled (pl_tool c)], hs) E k2 d2 = (Inr (ok', sk', hs'), k', d')"
      by (simp add: andThen_def)
    from Cons.IH[OF this] o2 Cons.prems(3) show ?thesis by simp
  next
    case True
    with run 1 2 obtain dup k3 d3 where 3: "reading (\<lambda>E k r. inflight_duplicate (pl_tool c) (pl_args c) r) E k2 d2 = (Inr dup, k3, d3)"
      by (auto simp: andThen_Inr)
    have o3: "?I k3 d3" using keep[OF 3 o2] .
    show ?thesis
    proof (cases dup)
      case dup: True
      with run 1 2 3 True have "admit_calls G l z cs (ok, sk @ [Duplicate_Call (pl_tool c)], hs) E k3 d3 = (Inr (ok', sk', hs'), k', d')"
        by (simp add: andThen_def)
      from Cons.IH[OF this] o3 Cons.prems(3) show ?thesis by simp
    next
      case dup: False
      with run 1 2 3 True obtain cached k4 d4 where
        4: "reading (\<lambda>E k r. cache_get_fresh (pe_now E k) (cg_identity G (pl_tool c) (pl_args c)) None r \<noteq> None) E k3 d3 = (Inr cached, k4, d4)"
        by (auto simp: andThen_Inr)
      have o4: "?I k4 d4" using keep[OF 4 o3] .
      let ?kept = "ok @ [c\<lparr>pl_deps := []\<rparr>]"
      show ?thesis
      proof (cases "\<exists>p cost. configured_cost_for G z (pl_tool c) (pl_args c) = Some (p, cost) \<and> \<not> cached \<and> cost \<noteq> 0")
        case False
        with run 1 2 3 4 True dup have "admit_calls G l z cs (?kept, sk, hs) E k4 d4 = (Inr (ok', sk', hs'), k', d')"
          by (auto simp: andThen_def split: option.splits prod.splits)
        from Cons.IH[OF this] o4 Cons.prems(3) show ?thesis by simp
      next
        case pay: True
        then obtain p cost where cost: "configured_cost_for G z (pl_tool c) (pl_args c) = Some (p, cost)" "\<not> cached" "cost \<noteq> 0" by blast
        from o4 have "open_holds E hs k4 (td_ledger d4)" by blast
        note open4 = this
        have "pe_fault E Ledger_Op k4 = None"
        proof (rule ccontr)
          assume "pe_fault E Ledger_Op k4 \<noteq> None"
          then obtain e where "pe_fault E Ledger_Op k4 = Some e" by blast
          then have "ledger_op (\<lambda>E k. reserve_credits l (pe_stamp E k) (pe_id E k) p (unat cost)) E k4 d4
            = (Inl (Store_Failed e), Suc k4, pe_others E k4 d4)" by (simp add: ledger_op_def store_op_def Let_def)
          with run 1 2 3 4 True dup cost show False by (simp add: andThen_def)
        qed
        from reserve_opens[OF assms(1) open4 cost(3) this, where l = l and p = p and s = "signature c"] obtain h d5 where
          5: "ledger_op (\<lambda>E k. reserve_credits l (pe_stamp E k) (pe_id E k) p (unat cost)) E k4 d4 = (Inr h, Suc k4, d5)"
          "case h of None \<Rightarrow> open_holds E hs (Suc k4) (td_ledger d5)
           | Some h \<Rightarrow> open_holds E (hs @ [(signature c, h)]) (Suc k4) (td_ledger d5)" by blast
        show ?thesis
        proof (cases h)
          case (Some g)
          with run 1 2 3 4 5 True dup cost have
            "admit_calls G l z cs (?kept, sk, hs @ [(signature c, g)]) E (Suc k4) d5 = (Inr (ok', sk', hs'), k', d')"
            by (simp add: andThen_def)
          from Cons.IH[OF this] 5(2) Some Cons.prems(3) show ?thesis by simp
        next
          case None
          with run 1 2 3 4 5 True dup cost obtain left k6 d6 where
            6: "ledger_op (\<lambda>E k. credits_available l p (pe_stamp E k)) E (Suc k4) d5 = (Inr left, k6, d6)"
            and rest: "admit_calls G l z cs (ok, sk @ [No_Credit (pl_tool c) p left (unat cost)], hs) E k6 d6 = (Inr (ok', sk', hs'), k', d')"
            by (auto simp: andThen_def split: prod.splits sum.splits)
          have "?I k6 d6" using keepsD[OF available_keeps[OF assms(1)] 6] 5(2) None assms(1) by simp
          with Cons.IH[OF rest] Cons.prems(3) show ?thesis by blast
        qed
      qed
    qed
  qed
qed

text \<open>C36: once the calls of a batch are admitted, then however the batch ends (every call answered, cancelled, the
  run or its thread gone, the store refusing an operation on the investigations), each credit hold it took
  is settled, whatever others do to the investigations and to their own holds meanwhile. The one exception:
  the ledger itself refuses to settle a hold. Then that was the last operation, the batch ends with its
  error, and the ledger stays consistent, but this hold and those not yet settled stay open
  (\<open>refused_settlement_leaks\<close>, \<open>refused_release_leaks\<close>).\<close>

theorem holds_settled:
  assumes "rely E" and "ledger_ok (td_ledger d)" and "\<And>j. row (reservations (td_ledger d)) (pe_id E j) = None"
    and "execute_budgeted G l z P cs E k d = (r, k', t)"
    and "\<not> isl (fst (admit_calls G l z cs ([], [], []) E k d))"
  shows "ledger_ok (td_ledger t) \<and> ((\<forall>j. \<not> is_held (td_ledger t) (pe_id E j)) \<or> ledger_refused E r k')"
proof -
  have "ledger_ok (td_ledger t) \<and> ((\<exists>k'. open_holds E [] k' (td_ledger t)) \<or> ledger_refused E r k')"
  proof (cases "cs = []")
    case True
    with assms(2-4) have "open_holds E [] k (td_ledger t)" by (simp add: execute_budgeted_def ret_def open_holds_def is_held_def)
    then show ?thesis by (auto simp: open_holds_def)
  next
    case False
    obtain ok sk hs k1 d1 where a: "admit_calls G l z cs ([], [], []) E k d = (Inr (ok, sk, hs), k1, d1)"
    proof -
      obtain x k1 d1 where x: "admit_calls G l z cs ([], [], []) E k d = (x, k1, d1)" by (metis prod.exhaust)
      with assms(5) obtain a where "x = Inr a" by (cases x) auto
      with x that show ?thesis by (cases a) auto
    qed
    have "open_holds E [] k (td_ledger d)" using assms(2,3) by (simp add: open_holds_def is_held_def)
    from admit_open[OF assms(1) a this] have o: "open_holds E hs k1 (td_ledger d1)" "length hs \<le> length ok" by simp_all
    show ?thesis
    proof (cases "ok = []")
      case True
      with o False assms(4) a have "open_holds E [] k1 (td_ledger t)" by (auto simp: execute_budgeted_def andThen_def ret_def)
      then show ?thesis by (auto simp: open_holds_def)
    next
      case ok: False
      obtain x k2 d2 where b: "run_admitted G P ok hs E k1 d1 = (x, k2, d2)" by (metis prod.exhaust)
      from run_admitted_open[OF assms(1) o(1), of G P ok] b
      have "ledger_ok (td_ledger d2) \<and> (open_holds E [] k2 (td_ledger d2) \<or> ledger_refused E x k2)" by simp
      moreover have "t = d2" "k' = k2" "ledger_refused E x k2 \<Longrightarrow> ledger_refused E r k'"
        using assms(4) a b False ok by (auto simp: execute_budgeted_def andThen_def ret_def ledger_refused_def split: sum.splits)
      ultimately show ?thesis by blast
    qed
  qed
  then show ?thesis by (auto simp: open_holds_def)
qed

theorem holds_settled_witness:
  "\<not> is_held (td_ledger (snd (snd (budgeted (plan_world (\<lambda>_. False) (\<lambda>k. k = 12) ''whoxy_whois_history'' [''h'']) [whoxy ''a''])))) ''iiiii''"
proof -
  let ?E = "plan_world (\<lambda>_. False) (\<lambda>k. k = 12) ''whoxy_whois_history'' [''h'']"
  have E: "rely ?E" by (auto simp: rely_def plan_world_def inj_def)
  have f: "\<not> ledger_refused ?E r k" for r :: "plan_error + (string \<times> run_result) list \<times> skip list" and k
    by (simp add: ledger_refused_def plan_world_def)
  have l: "ledger_ok (td_ledger (plan_db []))" "row (reservations (td_ledger (plan_db []))) i = None" for i
    by (simp_all add: plan_db_def ledger_ok_def keyed_def)
  have a: "\<not> isl (fst (admit_calls plan_catalogue plan_limits plan_prices [whoxy ''a''] ([], [], []) ?E 0 (plan_db [])))"
    by (simp add: plan_exec plan_money)
  obtain r k t where b: "budgeted ?E [whoxy ''a''] = (r, k, t)" by (metis prod.exhaust)
  from holds_settled[OF E l b[unfolded budgeted_def] a] f have "\<not> is_held (td_ledger t) (pe_id ?E 4)" by blast
  then show ?thesis by (simp add: b) (simp add: plan_world_def numeral_eq_Suc)
qed

section \<open>What a refusal of the ledger leaves\<close>

text \<open>
  The store refuses the operation that charges the hold of the one call: the call answered and is recorded,
  its hold stays open, and the result is lost with the error.
\<close>

definition ledger_down :: "nat \<Rightarrow> (nat \<Rightarrow> bool) \<Rightarrow> plan_env" where
  "ledger_down n cancel = (plan_world cancel (\<lambda>_. False) ''whoxy_whois_history'' [])\<lparr>pe_fault :=
     (\<lambda>kind k. if kind = Ledger_Op \<and> k = n then Some (Contention 1) else None)\<rparr>"

lemma refused_settlement_leaks:
  "let (r, k, t) = budgeted (ledger_down 12 (\<lambda>_. False)) [whoxy ''a'']
   in r = Inl (Store_Failed (Contention 1)) \<and> map (ca_status \<circ> snd) (calls (td_recon t)) = [''completed'']
     \<and> held_states (td_ledger t) = [''held'']"
  by (simp add: ledger_down_def plan_exec plan_money)

text \<open>The run is cancelled before the call is queued, and the store refuses to release its hold.\<close>

lemma refused_release_leaks:
  "let (r, k, t) = budgeted (ledger_down 6 (\<lambda>k. 5 \<le> k)) [whoxy ''a'']
   in r = Inl (Store_Failed (Contention 1)) \<and> calls (td_recon t) = [] \<and> held_states (td_ledger t) = [''held'']"
  by (simp add: ledger_down_def plan_exec plan_money)

end
