(* ===== verification/Tool_Runner.thy ===== *)
theory Tool_Runner
  imports Plan_Exec Codec
begin

text \<open>
  The shared runner of tools (\<open>recon/tool_runner.rs\<close>): calls run at the same time, one step per lock,
  store operation or wait of \<open>execute_tool_inner\<close>, over the map of calls in flight, the channels of their
  leaders, the permits, the cache, the credit ledger and the daily quota. A call may be cancelled or its
  future dropped at any wait. The executor, the tool registry and the readers of a result are arguments.
\<close>

section \<open>Outcomes and the lifetime of a cached result\<close>

definition ascii_lower :: "string \<Rightarrow> string" where
  "ascii_lower = map (\<lambda>c. let n = of_char c :: nat in if 65 \<le> n \<and> n \<le> 90 then char_of (n + 32) else c)"

datatype tool_outcome = CompletedNonEmpty | CompletedVerifiedZero | CompletedPartial | OutcomeFailed | OutcomeBlocked
  | ParserMismatch | OutcomeCancelled

definition reached_source :: "tool_outcome \<Rightarrow> bool" where
  "reached_source t \<longleftrightarrow> t \<in> set [CompletedNonEmpty, CompletedVerifiedZero, CompletedPartial]"

record tool_def =
  df_id :: string
  df_timeout :: nat
  df_cache :: nat

text \<open>A tool's result with the fields the runner reads from its observations.\<close>

record answer = run_result +
  an_error :: "string option"
  an_rows :: nat
  an_truncated :: bool

definition REQUEST_TIMEOUT :: nat where "REQUEST_TIMEOUT = 30"
definition SERP_VALID_CACHE_SECONDS :: nat where "SERP_VALID_CACHE_SECONDS = 15 * 60"
definition SERP_ZERO_CACHE_SECONDS :: nat where "SERP_ZERO_CACHE_SECONDS = 2 * 60"

definition NAMED_SERP_TOOLS :: "string list" where
  "NAMED_SERP_TOOLS = [''firecrawl_google_search'', ''firecrawl_yandex_search'', ''firecrawl_mojeek_search'']"

datatype serp_class = Serp_Valid | Serp_VerifiedZero | Serp_Failure

fun from_outcome :: "tool_outcome \<Rightarrow> serp_class" where
  "from_outcome CompletedNonEmpty = Serp_Valid"
| "from_outcome CompletedPartial = Serp_Valid"
| "from_outcome CompletedVerifiedZero = Serp_VerifiedZero"
| "from_outcome OutcomeFailed = Serp_Failure"
| "from_outcome OutcomeBlocked = Serp_Failure"
| "from_outcome ParserMismatch = Serp_Failure"
| "from_outcome OutcomeCancelled = Serp_Failure"

fun cache_seconds :: "serp_class \<Rightarrow> nat option" where
  "cache_seconds Serp_Valid = Some SERP_VALID_CACHE_SECONDS"
| "cache_seconds Serp_VerifiedZero = Some SERP_ZERO_CACHE_SECONDS"
| "cache_seconds Serp_Failure = None"

definition is_named_serp :: "string \<Rightarrow> bool" where
  "is_named_serp i \<longleftrightarrow> i \<in> set NAMED_SERP_TOOLS"

definition tool_timeout :: "tool_def \<Rightarrow> nat" where
  "tool_timeout df = (if df_timeout df = 0 then REQUEST_TIMEOUT else df_timeout df)"

definition cache_ttl_for :: "tool_def \<Rightarrow> tool_outcome \<Rightarrow> nat option" where
  "cache_ttl_for df out = (if is_named_serp (df_id df) then cache_seconds (from_outcome out) else Some (df_cache df))"

definition failure_outcome :: "string \<Rightarrow> tool_outcome" where
  "failure_outcome err = (let lower = ascii_lower err in
     if contains ''captcha'' lower \<or> contains ''challenge'' lower \<or> contains ''consent'' lower
       \<or> contains ''unusual traffic'' lower \<or> contains ''blocked'' lower then OutcomeBlocked
     else if contains ''parser mismatch'' lower \<or> contains ''could not classify'' lower then ParserMismatch
     else OutcomeFailed)"

definition tool_outcome_of :: "answer \<Rightarrow> bool \<Rightarrow> tool_outcome" where
  "tool_outcome_of r timed_out = (let status = tr_status (rr_row r) in
     if timed_out then OutcomeFailed
     else if status = ''cancelled'' then OutcomeCancelled
     else if status = ''no_results'' then CompletedVerifiedZero
     else if status = ''completed'' then
       (if an_rows r = 0 then CompletedVerifiedZero else if an_truncated r then CompletedPartial else CompletedNonEmpty)
     else failure_outcome (case an_error r of None \<Rightarrow> [] | Some e \<Rightarrow> e))"

definition osint_cacheable :: "answer \<Rightarrow> bool" where
  "osint_cacheable r \<longleftrightarrow> tr_status (rr_row r) \<in> set [''completed'', ''no_results'']
     \<and> (case an_error r of None \<Rightarrow> True | Some e \<Rightarrow> e = [])"

definition whoxy_tool :: string where "whoxy_tool = ''whoxy_whois_history''"

text \<open>A failed registry lookup whose request may still have been served is charged.\<close>

definition uncertain_whoxy :: "string \<Rightarrow> answer \<Rightarrow> bool" where
  "uncertain_whoxy tool r \<longleftrightarrow> tool = whoxy_tool \<and> tr_status (rr_row r) = ''failed''
     \<and> (case an_error r of None \<Rightarrow> False | Some e \<Rightarrow> (let lower = ascii_lower e in
          contains ''timeout'' lower \<or> contains ''timed out'' lower \<or> contains ''connection'' lower \<or> contains ''error sending'' lower))"

section \<open>Calls and their state\<close>

datatype chan = Open | Sent answer | Closed

datatype ending = Answered answer | Failed_Call string | Dropped

datatype phase = Starting | Looking | Joining | Following nat | Checking | Reserving | Refusing | Queued | Sending | Running
  | Settling answer bool | Caching answer bool | Counting answer | Telling answer
  | Releasing string | Leaving ending | Unlisting ending | Closing ending | Ended ending

text \<open>The arguments and local variables of one call; the channel is the one it made as a leader.\<close>

record call_state =
  tk_tool :: string
  tk_inputs :: string
  tk_refresh :: bool
  tk_reserve :: bool
  tk_cancelled :: bool
  tk_phase :: phase
  tk_tx :: "chan option"
  tk_hold :: "credit_hold option"
  tk_permit :: bool

record runner =
  rn_calls :: "call_state list"
  rn_inflight :: "string \<Rightarrow> nat option"
  rn_permits :: nat
  rn_db :: tool_db
  rn_quota :: "string \<Rightarrow> nat option"

definition MAX_CONCURRENCY :: nat where "MAX_CONCURRENCY = 4"

record runner_env =
  re_def :: "string \<Rightarrow> tool_def option"
  re_catalogue :: catalogue
  re_limits :: limits
  re_prices :: prices
  re_error :: "tool_result \<Rightarrow> string option"
  re_rows :: "tool_result \<Rightarrow> nat"
  re_truncated :: "tool_result \<Rightarrow> bool"
  re_hosts :: "tool_result \<Rightarrow> string list"
  re_whoxy :: "string \<Rightarrow> tool_result \<Rightarrow> tool_result"

definition canonical :: "call_state \<Rightarrow> string" where "canonical c = canonical_tool_id (tk_tool c)"

definition call_key :: "runner_env \<Rightarrow> call_state \<Rightarrow> string" where
  "call_key C c = cg_identity (re_catalogue C) (canonical c) (tk_inputs c)"

definition call_cost :: "runner_env \<Rightarrow> call_state \<Rightarrow> (string \<times> 32 word) option" where
  "call_cost C c = configured_cost_for (re_catalogue C) (re_prices C) (canonical c) (tk_inputs c)"

text \<open>What the cache holds is a result whose other fields are read from it.\<close>

definition stored_answer :: "runner_env \<Rightarrow> tool_result \<Rightarrow> answer" where
  "stored_answer C tr = \<lparr>rr_tool = [], rr_inputs = [], rr_row = tr, rr_cached = False, rr_reported = None, rr_hosts = re_hosts C tr,
     an_error = re_error C tr, an_rows = re_rows C tr, an_truncated = re_truncated C tr\<rparr>"

definition project_cached_result :: "runner_env \<Rightarrow> call_state \<Rightarrow> answer \<Rightarrow> answer" where
  "project_cached_result C c r =
     (let r = r\<lparr>rr_tool := canonical c, rr_inputs := tk_inputs c, rr_cached := True, rr_reported := None\<rparr> in
      if canonical c = whoxy_tool
      then (let row = re_whoxy C (tk_inputs c) (rr_row r) in r\<lparr>rr_row := row, rr_hosts := re_hosts C row, an_rows := re_rows C row\<rparr>)
      else r)"

text \<open>The result of a call whose tool did not answer in time.\<close>

definition timeout_result :: "runner_env \<Rightarrow> call_state \<Rightarrow> string \<Rightarrow> nat \<Rightarrow> answer" where
  "timeout_result C c stamp secs =
     \<lparr>rr_tool = canonical c, rr_inputs = tk_inputs c, rr_row = \<lparr>tr_status = ''failed'', tr_retrieved_at = stamp, tr_rest = []\<rparr>,
      rr_cached = False, rr_reported = None, rr_hosts = [],
      an_error = Some (''tool execution timed out after '' @ nat_str secs @ ''s''), an_rows = 0, an_truncated = False\<rparr>"

definition charged :: "call_state \<Rightarrow> answer \<Rightarrow> bool" where
  "charged c r \<longleftrightarrow> (tr_status (rr_row r) \<in> set [''completed'', ''no_results''] \<and> \<not> rr_cached r) \<or> uncertain_whoxy (canonical c) r"

definition settle_hold :: "call_state \<Rightarrow> answer \<Rightarrow> string \<Rightarrow> credit_hold \<Rightarrow> (ledger, unit) body" where
  "settle_hold c r clock h = (if charged c r
     then reconcile_credits clock h (case rr_reported r of Some n \<Rightarrow> n | None \<Rightarrow> h_trial h + h_allowance h)
     else release_credits clock h)"

definition cached_for :: "runner_env \<Rightarrow> call_state \<Rightarrow> answer \<Rightarrow> bool \<Rightarrow> nat option" where
  "cached_for C c r timed_out = (if \<not> osint_cacheable r then None
     else case re_def C (canonical c) of None \<Rightarrow> None | Some df \<Rightarrow> cache_ttl_for df (tool_outcome_of r timed_out))"

text \<open>A named search engine: rows live for 15 minutes, a verified zero for 2, a failure is never kept.\<close>

lemma cached_for_named:
  assumes "re_def C (canonical c) = Some df" and "is_named_serp (df_id df)"
  shows "cached_for C c r late = (if late \<or> \<not> osint_cacheable r then None
     else if tr_status (rr_row r) = ''completed'' \<and> 0 < an_rows r then Some 900 else Some 120)"
  using assms by (auto simp: cached_for_def cache_ttl_for_def tool_outcome_of_def osint_cacheable_def Let_def
      SERP_VALID_CACHE_SECONDS_def SERP_ZERO_CACHE_SECONDS_def)

definition quota_bump :: "string \<Rightarrow> string \<Rightarrow> (string \<Rightarrow> nat option) \<Rightarrow> (string \<Rightarrow> nat option)" where
  "quota_bump bucket day q = (let k = encode [bucket, day] in q(k \<mapsto> (case q k of None \<Rightarrow> 0 | Some n \<Rightarrow> n) + 1))"


section \<open>The steps of a call\<close>

definition edit :: "nat \<Rightarrow> (call_state \<Rightarrow> call_state) \<Rightarrow> runner \<Rightarrow> runner" where
  "edit t f s = s\<lparr>rn_calls := (rn_calls s)[t := f (rn_calls s ! t)]\<rparr>"

definition goes :: "phase \<Rightarrow> call_state \<Rightarrow> call_state" where "goes ph c = c\<lparr>tk_phase := ph\<rparr>"

definition at :: "runner \<Rightarrow> nat \<Rightarrow> phase \<Rightarrow> bool" where
  "at s t ph \<longleftrightarrow> t < length (rn_calls s) \<and> tk_phase (rn_calls s ! t) = ph"

abbreviation call :: "runner \<Rightarrow> nat \<Rightarrow> call_state" where "call s t \<equiv> rn_calls s ! t"
abbreviation recon :: "runner \<Rightarrow> recon_db" where "recon s \<equiv> td_recon (rn_db s)"
abbreviation credit :: "runner \<Rightarrow> ledger" where "credit s \<equiv> td_ledger (rn_db s)"

definition with_ledger :: "ledger \<Rightarrow> runner \<Rightarrow> runner" where
  "with_ledger l s = s\<lparr>rn_db := (rn_db s)\<lparr>td_ledger := l\<rparr>\<rparr>"

definition with_recon :: "recon_db \<Rightarrow> runner \<Rightarrow> runner" where
  "with_recon r s = s\<lparr>rn_db := (rn_db s)\<lparr>td_recon := r\<rparr>\<rparr>"

text \<open>
  What a call does on its own: the clock, fresh ids and the executor's answer are any, and a read or write of
  the store may be refused. Where the code ignores a refusal the call goes on.
\<close>

inductive act :: "runner_env \<Rightarrow> runner \<Rightarrow> nat \<Rightarrow> runner \<Rightarrow> bool" for C s t where
  start_cancelled: "at s t Starting \<Longrightarrow> tk_cancelled (call s t) \<Longrightarrow> act C s t (edit t (goes (Ended (Failed_Call ''cancelled''))) s)"
| start_unknown: "at s t Starting \<Longrightarrow> \<not> tk_cancelled (call s t) \<Longrightarrow> re_def C (canonical (call s t)) = None
    \<Longrightarrow> act C s t (edit t (goes (Ended (Failed_Call ''unknown tool''))) s)"
| starts: "at s t Starting \<Longrightarrow> \<not> tk_cancelled (call s t) \<Longrightarrow> re_def C (canonical (call s t)) \<noteq> None
    \<Longrightarrow> act C s t (edit t (goes (if tk_refresh (call s t) then Joining else Looking)) s)"
| cache_hit: "at s t Looking \<Longrightarrow> cache_get_fresh now (call_key C (call s t)) None (recon s) = Some tr
    \<Longrightarrow> act C s t (edit t (goes (Ended (Answered (project_cached_result C (call s t) (stored_answer C tr))))) s)"
| cache_miss: "at s t Looking \<Longrightarrow> store_down \<or> cache_get_fresh now (call_key C (call s t)) None (recon s) = None
    \<Longrightarrow> act C s t (edit t (goes Joining) s)"
| leads: "at s t Joining \<Longrightarrow> rn_inflight s (call_key C (call s t)) = None
    \<Longrightarrow> act C s t (edit t (\<lambda>c. goes Checking (c\<lparr>tk_tx := Some Open\<rparr>)) (s\<lparr>rn_inflight := (rn_inflight s)(call_key C (call s t) \<mapsto> t)\<rparr>))"
| follows: "at s t Joining \<Longrightarrow> rn_inflight s (call_key C (call s t)) = Some l \<Longrightarrow> act C s t (edit t (goes (Following l)) s)"
| follow_cancelled: "at s t (Following l) \<Longrightarrow> tk_cancelled (call s t) \<Longrightarrow> act C s t (edit t (goes (Ended (Failed_Call ''cancelled''))) s)"
| follow_answered: "at s t (Following l) \<Longrightarrow> tk_tx (call s l) = Some (Sent r)
    \<Longrightarrow> act C s t (edit t (goes (Ended (Answered (project_cached_result C (call s t) r)))) s)"
| falls_back: "at s t (Following l) \<Longrightarrow> tk_tx (call s l) = Some Closed \<Longrightarrow> act C s t (edit t (goes Checking) s)"
| check_refused: "at s t Checking \<Longrightarrow> act C s t (edit t (goes (Unlisting (Failed_Call why))) s)"
| disabled: "at s t Checking \<Longrightarrow> \<not> tool_enabled (canonical (call s t)) (recon s)
    \<Longrightarrow> act C s t (edit t (goes (Unlisting (Failed_Call ''tool disabled in catalog''))) s)"
| enabled: "at s t Checking \<Longrightarrow> tool_enabled (canonical (call s t)) (recon s) \<Longrightarrow> act C s t (edit t (goes Reserving) s)"
| free_call: "at s t Reserving \<Longrightarrow> \<not> tk_reserve (call s t) \<or> call_cost C (call s t) = None \<or> call_cost C (call s t) = Some (p, 0)
    \<Longrightarrow> act C s t (edit t (goes Queued) s)"
| reserve_refused: "at s t Reserving \<Longrightarrow> tk_reserve (call s t) \<Longrightarrow> call_cost C (call s t) \<noteq> None
    \<Longrightarrow> act C s t (edit t (goes (Unlisting (Failed_Call why))) s)"
| reserves: "at s t Reserving \<Longrightarrow> tk_reserve (call s t) \<Longrightarrow> call_cost C (call s t) = Some (p, cost) \<Longrightarrow> 0 < cost \<Longrightarrow> i \<noteq> []
    \<Longrightarrow> reserve_credits (re_limits C) clock i p (unat cost) (credit s) = Inr (Some h, l)
    \<Longrightarrow> act C s t (edit t (\<lambda>c. goes Queued (c\<lparr>tk_hold := Some h\<rparr>)) (with_ledger l s))"
| exhausted: "at s t Reserving \<Longrightarrow> tk_reserve (call s t) \<Longrightarrow> call_cost C (call s t) = Some (p, cost) \<Longrightarrow> 0 < cost \<Longrightarrow> i \<noteq> []
    \<Longrightarrow> reserve_credits (re_limits C) clock i p (unat cost) (credit s) = Inr (None, l)
    \<Longrightarrow> act C s t (edit t (goes Refusing) (with_ledger l s))"
| refuses: "at s t Refusing \<Longrightarrow> call_cost C (call s t) = Some (p, cost) \<Longrightarrow> credits_available (re_limits C) p clock (credit s) = Inr (n, l)
    \<Longrightarrow> act C s t (edit t (goes (Unlisting (Failed_Call ''credit allowance is exhausted''))) (with_ledger l s))"
| refuse_refused: "at s t Refusing \<Longrightarrow> act C s t (edit t (goes (Unlisting (Failed_Call why))) s)"
| permitted: "at s t Queued \<Longrightarrow> 0 < rn_permits s
    \<Longrightarrow> act C s t (edit t (\<lambda>c. goes Sending (c\<lparr>tk_permit := True\<rparr>)) (s\<lparr>rn_permits := rn_permits s - 1\<rparr>))"
| queued_cancelled: "at s t Queued \<Longrightarrow> tk_cancelled (call s t) \<Longrightarrow> act C s t (edit t (goes (Releasing ''cancelled'')) s)"
| sends: "at s t Sending \<Longrightarrow> act C s t (edit t (goes Running) s)"
| answers: "at s t Running \<Longrightarrow> act C s t (edit t (\<lambda>c. goes (Settling r False) (c\<lparr>tk_permit := False\<rparr>)) (s\<lparr>rn_permits := Suc (rn_permits s)\<rparr>))"
| times_out: "at s t Running \<Longrightarrow> re_def C (canonical (call s t)) = Some df
    \<Longrightarrow> act C s t (edit t (\<lambda>c. goes (Settling (timeout_result C c stamp (tool_timeout df)) True) (c\<lparr>tk_permit := False\<rparr>))
          (s\<lparr>rn_permits := Suc (rn_permits s)\<rparr>))"
| running_cancelled: "at s t Running \<Longrightarrow> tk_cancelled (call s t) \<Longrightarrow> act C s t (edit t (goes (Releasing ''cancelled'')) s)"
| fails: "at s t Running \<Longrightarrow> act C s t (edit t (\<lambda>c. goes (Releasing why) (c\<lparr>tk_permit := False\<rparr>)) (s\<lparr>rn_permits := Suc (rn_permits s)\<rparr>))"
| releases: "at s t (Releasing why) \<Longrightarrow> tk_hold (call s t) = Some h \<Longrightarrow> release_credits clock h (credit s) = Inr ((), l)
    \<Longrightarrow> act C s t (edit t (goes (Leaving (Failed_Call why))) (with_ledger l s))"
| releases_nothing: "at s t (Releasing why) \<Longrightarrow> tk_hold (call s t) = None \<Longrightarrow> act C s t (edit t (goes (Leaving (Failed_Call why))) s)"
| settles: "at s t (Settling r late) \<Longrightarrow> tk_hold (call s t) = Some h \<Longrightarrow> settle_hold (call s t) r clock h (credit s) = Inr ((), l)
    \<Longrightarrow> act C s t (edit t (goes (Caching r late)) (with_ledger l s))"
| settles_nothing: "at s t (Settling r late) \<Longrightarrow> tk_hold (call s t) = None \<Longrightarrow> act C s t (edit t (goes (Caching r late)) s)"
| caches: "at s t (Caching r late) \<Longrightarrow> cached_for C (call s t) r late = Some ttl
    \<Longrightarrow> act C s t (edit t (goes (Counting r)) (with_recon (cache_put now (call_key C (call s t)) (rr_row r) (int ttl) (recon s)) s))"
| caches_nothing: "at s t (Caching r late) \<Longrightarrow> store_down \<or> cached_for C (call s t) r late = None \<Longrightarrow> act C s t (edit t (goes (Counting r)) s)"
| counts: "at s t (Counting r) \<Longrightarrow> \<not> rr_cached r \<Longrightarrow> starts_with ''newsapi_'' (canonical (call s t)) \<Longrightarrow> bucket \<in> set [''newsapi'', ''newsapi:fallback'']
    \<Longrightarrow> act C s t (edit t (goes (Telling r)) (s\<lparr>rn_quota := quota_bump bucket day (rn_quota s)\<rparr>))"
| counts_nothing: "at s t (Counting r) \<Longrightarrow> store_down \<or> rr_cached r \<or> \<not> starts_with ''newsapi_'' (canonical (call s t))
    \<Longrightarrow> act C s t (edit t (goes (Telling r)) s)"
| tells: "at s t (Telling r)
    \<Longrightarrow> act C s t (edit t (\<lambda>c. goes (Unlisting (Answered r)) (c\<lparr>tk_tx := map_option (\<lambda>_. Sent r) (tk_tx c)\<rparr>)) s)"
| leaves: "at s t (Leaving e) \<Longrightarrow> act C s t (edit t (\<lambda>c. goes (Unlisting e) (c\<lparr>tk_permit := False\<rparr>))
      (s\<lparr>rn_permits := rn_permits s + (if tk_permit (call s t) then 1 else 0)\<rparr>))"
| unlists: "at s t (Unlisting e)
    \<Longrightarrow> act C s t (edit t (goes (Closing e)) (s\<lparr>rn_inflight := (rn_inflight s)(call_key C (call s t) := None)\<rparr>))"
| closes: "at s t (Closing e)
    \<Longrightarrow> act C s t (edit t (\<lambda>c. goes (Ended e) (c\<lparr>tk_tx := (if tk_tx c = Some Open then Some Closed else tk_tx c)\<rparr>)) s)"

text \<open>
  What loses a hold: the store refuses its settlement, which the code ignores; the executor cannot be built;
  the future of the call is dropped at a wait.
\<close>

definition waits_at :: "phase \<Rightarrow> bool" where
  "waits_at ph \<longleftrightarrow> (case ph of Checking \<Rightarrow> True | Reserving \<Rightarrow> True | Refusing \<Rightarrow> True | Queued \<Rightarrow> True | Running \<Rightarrow> True
     | Settling _ _ \<Rightarrow> True | Caching _ _ \<Rightarrow> True | Counting _ \<Rightarrow> True | Releasing _ \<Rightarrow> True | _ \<Rightarrow> False)"

inductive mishap :: "runner_env \<Rightarrow> runner \<Rightarrow> nat \<Rightarrow> runner \<Rightarrow> bool" for C s t where
  release_lost: "at s t (Releasing why) \<Longrightarrow> mishap C s t (edit t (goes (Leaving (Failed_Call why))) s)"
| settle_lost: "at s t (Settling r late) \<Longrightarrow> mishap C s t (edit t (goes (Caching r late)) s)"
| no_executor: "at s t Sending \<Longrightarrow> mishap C s t (edit t (goes (Leaving (Failed_Call why))) s)"
| dropped_early: "at s t ph \<Longrightarrow> ph = Starting \<or> ph = Looking \<or> ph = Following l \<Longrightarrow> mishap C s t (edit t (goes (Ended Dropped)) s)"
| dropped: "at s t ph \<Longrightarrow> waits_at ph \<Longrightarrow> mishap C s t (edit t (goes (Leaving Dropped)) s)"

text \<open>
  What happens around the calls: a new one, a cancellation, and whatever others commit to the store without
  breaking the ledger or touching a hold of these calls.
\<close>

definition new_call :: "string \<Rightarrow> string \<Rightarrow> bool \<Rightarrow> bool \<Rightarrow> bool \<Rightarrow> call_state" where
  "new_call tool inputs refresh reserve cancelled = \<lparr>tk_tool = tool, tk_inputs = inputs, tk_refresh = refresh, tk_reserve = reserve,
     tk_cancelled = cancelled, tk_phase = Starting, tk_tx = None, tk_hold = None, tk_permit = False\<rparr>"

definition leaves_holds :: "runner \<Rightarrow> tool_db \<Rightarrow> bool" where
  "leaves_holds s d \<longleftrightarrow> (ledger_ok (credit s) \<longrightarrow> ledger_ok (td_ledger d))
     \<and> (\<forall>c \<in> set (rn_calls s). case tk_hold c of None \<Rightarrow> True
          | Some h \<Rightarrow> row (reservations (td_ledger d)) (h_id h) = row (reservations (credit s)) (h_id h))"

inductive around :: "runner \<Rightarrow> runner \<Rightarrow> bool" for s where
  calls: "around s (s\<lparr>rn_calls := rn_calls s @ [new_call tool inputs refresh reserve cancelled]\<rparr>)"
| cancels: "t < length (rn_calls s) \<Longrightarrow> around s (edit t (tk_cancelled_update (\<lambda>_. True)) s)"
| others: "leaves_holds s d \<Longrightarrow> around s (s\<lparr>rn_db := d, rn_quota := q\<rparr>)"

definition calm_step :: "runner_env \<Rightarrow> runner \<Rightarrow> runner \<Rightarrow> bool" where
  "calm_step C s s' \<longleftrightarrow> (\<exists>t. act C s t s') \<or> around s s'"

definition runner_step :: "runner_env \<Rightarrow> runner \<Rightarrow> runner \<Rightarrow> bool" where
  "runner_step C s s' \<longleftrightarrow> (\<exists>t. act C s t s' \<or> mishap C s t s') \<or> around s s'"

definition runner_start :: "runner \<Rightarrow> bool" where
  "runner_start s \<longleftrightarrow> rn_calls s = [] \<and> rn_inflight s = (\<lambda>_. None) \<and> rn_permits s = MAX_CONCURRENCY \<and> ledger_ok (credit s)"

end
