(* ===== verification/Runner_Cases.thy ===== *)
theory Runner_Cases
  imports Tool_Runner Plan_Cases
begin

text \<open>
  Concrete runs of the tool runner, state by state: a call that is paid, and two calls that run the same
  request after their leader was dropped.
\<close>

section \<open>Concrete calls\<close>

definition demo_runner :: runner_env where
  "demo_runner = \<lparr>re_def = (\<lambda>i. Some \<lparr>df_id = i, df_timeout = 0, df_cache = 60\<rparr>), re_catalogue = plan_catalogue, re_limits = plan_limits,
     re_prices = plan_prices, re_error = (\<lambda>_. None), re_rows = (\<lambda>_. 0), re_truncated = (\<lambda>_. False), re_hosts = (\<lambda>_. []), re_whoxy = (\<lambda>_ r. r)\<rparr>"

text \<open>A call of the registry tool, and the state with some such calls and the names in flight.\<close>

definition lookup :: "bool \<Rightarrow> phase \<Rightarrow> chan option \<Rightarrow> credit_hold option \<Rightarrow> bool \<Rightarrow> call_state" where
  "lookup reserve ph tx hold permit = \<lparr>tk_tool = ''whoxy_whois_history'', tk_inputs = ''a'', tk_refresh = True, tk_reserve = reserve,
     tk_cancelled = False, tk_phase = ph, tk_tx = tx, tk_hold = hold, tk_permit = permit\<rparr>"

definition listed :: "nat option \<Rightarrow> string \<Rightarrow> nat option" where
  "listed l = (case l of None \<Rightarrow> (\<lambda>_. None) | Some n \<Rightarrow> [''whoxy_whois_historya'' \<mapsto> n])"

definition runs :: "call_state list \<Rightarrow> nat option \<Rightarrow> nat \<Rightarrow> ledger \<Rightarrow> runner" where
  "runs cs l n led = \<lparr>rn_calls = cs, rn_inflight = listed l, rn_permits = n, rn_db = (plan_db [])\<lparr>td_ledger := led\<rparr>, rn_quota = (\<lambda>_. None)\<rparr>"

abbreviation no_ledger :: ledger where "no_ledger \<equiv> \<lparr>quotas = [], reservations = []\<rparr>"

lemma runs_start: "runner_start (runs [] None 4 no_ledger)"
  by (simp add: runner_start_def runs_def listed_def MAX_CONCURRENCY_def ledger_ok_def keyed_def)

lemma lookup_key [simp]: "canonical (lookup a b c d e) = ''whoxy_whois_history''" "call_key demo_runner (lookup a b c d e) = ''whoxy_whois_historya''"
  "call_cost demo_runner (lookup a b c d e) = Some (''whoxy'', 1)"
  by (simp_all add: call_key_def call_cost_def canonical_def lookup_def canonical_tool_id_def demo_runner_def plan_cat cost_first)

lemma lookup_sel [simp]: "tk_phase (lookup a b c d e) = b" "tk_tx (lookup a b c d e) = c" "tk_hold (lookup a b c d e) = d" "tk_permit (lookup a b c d e) = e"
  "tk_reserve (lookup a b c d e) = a" "tk_refresh (lookup a b c d e)" "\<not> tk_cancelled (lookup a b c d e)"
  by (simp_all add: lookup_def)

lemma lookup_upd [simp]: "goes ph (lookup a b c d e) = lookup a ph c d e" "(lookup a b c d e)\<lparr>tk_tx := tx\<rparr> = lookup a b tx d e"
  "(lookup a b c d e)\<lparr>tk_hold := h\<rparr> = lookup a b c h e" "(lookup a b c d e)\<lparr>tk_permit := p\<rparr> = lookup a b c d p"
  by (simp_all add: lookup_def goes_def)

lemma new_lookup: "new_call ''whoxy_whois_history'' ''a'' True a False = lookup a Starting None None False"
  by (simp add: new_call_def lookup_def)

lemma demo_sel [simp]: "re_def demo_runner i = Some \<lparr>df_id = i, df_timeout = 0, df_cache = 60\<rparr>" "re_limits demo_runner = plan_limits"
  by (simp_all add: demo_runner_def)

lemmas demo_step = runs_def at_def edit_def listed_def with_ledger_def plan_db_def

definition demo_answer :: answer where
  "demo_answer = \<lparr>rr_tool = ''whoxy_whois_history'', rr_inputs = ''a'', rr_row = \<lparr>tr_status = ''completed'', tr_retrieved_at = [], tr_rest = []\<rparr>,
     rr_cached = False, rr_reported = None, rr_hosts = [], an_error = None, an_rows = 1, an_truncated = False\<rparr>"

text \<open>One call with a reservation, from its start to its end.\<close>

lemma lookup_paid: "run_of (calm_step demo_runner) (runs [] None 4 no_ledger) (runs [lookup True (Ended (Answered demo_answer)) (Some (Sent demo_answer)) (Some (one ''i'' ''whoxy'')) False] None 4 (one_hold ''i'' ''whoxy'' ''spent''))"
proof -
  have "around (runs [] None 4 no_ledger) (runs [lookup True Starting None None False] None 4 no_ledger)"
    using around.calls[of "runs [] None 4 no_ledger" "''whoxy_whois_history''" "''a''" True True False] by (simp add: new_lookup runs_def)
  then have st: "calm_step demo_runner (runs [] None 4 no_ledger) (runs [lookup True Starting None None False] None 4 no_ledger)" unfolding calm_step_def by blast
  note r = run_step[where step = "calm_step demo_runner", OF run_refl[where step = "calm_step demo_runner"] st]
  have "act demo_runner (runs [lookup True Starting None None False] None 4 no_ledger) 0 (runs [lookup True Joining None None False] None 4 no_ledger)"
    using act.starts[where s = "runs [lookup True Starting None None False] None 4 no_ledger" and t = 0 and C = demo_runner] by (simp add: demo_step )
  then have st: "calm_step demo_runner (runs [lookup True Starting None None False] None 4 no_ledger) (runs [lookup True Joining None None False] None 4 no_ledger)" unfolding calm_step_def by blast
  note r = run_step[where step = "calm_step demo_runner", OF r st]
  have "act demo_runner (runs [lookup True Joining None None False] None 4 no_ledger) 0 (runs [lookup True Checking (Some Open) None False] (Some 0) 4 no_ledger)"
    using act.leads[where s = "runs [lookup True Joining None None False] None 4 no_ledger" and t = 0 and C = demo_runner] by (simp add: demo_step )
  then have st: "calm_step demo_runner (runs [lookup True Joining None None False] None 4 no_ledger) (runs [lookup True Checking (Some Open) None False] (Some 0) 4 no_ledger)" unfolding calm_step_def by blast
  note r = run_step[where step = "calm_step demo_runner", OF r st]
  have "act demo_runner (runs [lookup True Checking (Some Open) None False] (Some 0) 4 no_ledger) 0 (runs [lookup True Reserving (Some Open) None False] (Some 0) 4 no_ledger)"
    using act.enabled[where s = "runs [lookup True Checking (Some Open) None False] (Some 0) 4 no_ledger" and t = 0 and C = demo_runner] by (simp add: demo_step tool_enabled_def default_enabled_def canonical_tool_id_def)
  then have st: "calm_step demo_runner (runs [lookup True Checking (Some Open) None False] (Some 0) 4 no_ledger) (runs [lookup True Reserving (Some Open) None False] (Some 0) 4 no_ledger)" unfolding calm_step_def by blast
  note r = run_step[where step = "calm_step demo_runner", OF r st]
  have "act demo_runner (runs [lookup True Reserving (Some Open) None False] (Some 0) 4 no_ledger) 0 (runs [lookup True Queued (Some Open) (Some (one ''i'' ''whoxy'')) False] (Some 0) 4 (one_hold ''i'' ''whoxy'' ''held''))"
    using act.reserves[where s = "runs [lookup True Reserving (Some Open) None False] (Some 0) 4 no_ledger" and t = 0 and C = demo_runner and p = "''whoxy''" and cost = 1 and i = "''i''" and clock = "''2026-07-02''" and h = "one ''i'' ''whoxy''" and l = "one_hold ''i'' ''whoxy'' ''held''" ] by (simp add: demo_step reserve_first)
  then have st: "calm_step demo_runner (runs [lookup True Reserving (Some Open) None False] (Some 0) 4 no_ledger) (runs [lookup True Queued (Some Open) (Some (one ''i'' ''whoxy'')) False] (Some 0) 4 (one_hold ''i'' ''whoxy'' ''held''))" unfolding calm_step_def by blast
  note r = run_step[where step = "calm_step demo_runner", OF r st]
  have "act demo_runner (runs [lookup True Queued (Some Open) (Some (one ''i'' ''whoxy'')) False] (Some 0) 4 (one_hold ''i'' ''whoxy'' ''held'')) 0 (runs [lookup True Sending (Some Open) (Some (one ''i'' ''whoxy'')) True] (Some 0) 3 (one_hold ''i'' ''whoxy'' ''held''))"
    using act.permitted[where s = "runs [lookup True Queued (Some Open) (Some (one ''i'' ''whoxy'')) False] (Some 0) 4 (one_hold ''i'' ''whoxy'' ''held'')" and t = 0 and C = demo_runner] by (simp add: demo_step )
  then have st: "calm_step demo_runner (runs [lookup True Queued (Some Open) (Some (one ''i'' ''whoxy'')) False] (Some 0) 4 (one_hold ''i'' ''whoxy'' ''held'')) (runs [lookup True Sending (Some Open) (Some (one ''i'' ''whoxy'')) True] (Some 0) 3 (one_hold ''i'' ''whoxy'' ''held''))" unfolding calm_step_def by blast
  note r = run_step[where step = "calm_step demo_runner", OF r st]
  have "act demo_runner (runs [lookup True Sending (Some Open) (Some (one ''i'' ''whoxy'')) True] (Some 0) 3 (one_hold ''i'' ''whoxy'' ''held'')) 0 (runs [lookup True Running (Some Open) (Some (one ''i'' ''whoxy'')) True] (Some 0) 3 (one_hold ''i'' ''whoxy'' ''held''))"
    using act.sends[where s = "runs [lookup True Sending (Some Open) (Some (one ''i'' ''whoxy'')) True] (Some 0) 3 (one_hold ''i'' ''whoxy'' ''held'')" and t = 0 and C = demo_runner] by (simp add: demo_step )
  then have st: "calm_step demo_runner (runs [lookup True Sending (Some Open) (Some (one ''i'' ''whoxy'')) True] (Some 0) 3 (one_hold ''i'' ''whoxy'' ''held'')) (runs [lookup True Running (Some Open) (Some (one ''i'' ''whoxy'')) True] (Some 0) 3 (one_hold ''i'' ''whoxy'' ''held''))" unfolding calm_step_def by blast
  note r = run_step[where step = "calm_step demo_runner", OF r st]
  have "act demo_runner (runs [lookup True Running (Some Open) (Some (one ''i'' ''whoxy'')) True] (Some 0) 3 (one_hold ''i'' ''whoxy'' ''held'')) 0 (runs [lookup True (Settling demo_answer False) (Some Open) (Some (one ''i'' ''whoxy'')) False] (Some 0) 4 (one_hold ''i'' ''whoxy'' ''held''))"
    using act.answers[where s = "runs [lookup True Running (Some Open) (Some (one ''i'' ''whoxy'')) True] (Some 0) 3 (one_hold ''i'' ''whoxy'' ''held'')" and t = 0 and C = demo_runner and r = demo_answer] by (simp add: demo_step )
  then have st: "calm_step demo_runner (runs [lookup True Running (Some Open) (Some (one ''i'' ''whoxy'')) True] (Some 0) 3 (one_hold ''i'' ''whoxy'' ''held'')) (runs [lookup True (Settling demo_answer False) (Some Open) (Some (one ''i'' ''whoxy'')) False] (Some 0) 4 (one_hold ''i'' ''whoxy'' ''held''))" unfolding calm_step_def by blast
  note r = run_step[where step = "calm_step demo_runner", OF r st]
  have "act demo_runner (runs [lookup True (Settling demo_answer False) (Some Open) (Some (one ''i'' ''whoxy'')) False] (Some 0) 4 (one_hold ''i'' ''whoxy'' ''held'')) 0 (runs [lookup True (Caching demo_answer False) (Some Open) (Some (one ''i'' ''whoxy'')) False] (Some 0) 4 (one_hold ''i'' ''whoxy'' ''spent''))"
    using act.settles[where s = "runs [lookup True (Settling demo_answer False) (Some Open) (Some (one ''i'' ''whoxy'')) False] (Some 0) 4 (one_hold ''i'' ''whoxy'' ''held'')" and t = 0 and C = demo_runner and r = demo_answer and late = False and clock = "''2026-07-02''" and h = "one ''i'' ''whoxy''" and l = "one_hold ''i'' ''whoxy'' ''spent''" ] by (simp add: demo_step settle_hold_def charged_def demo_answer_def reconcile_first)
  then have st: "calm_step demo_runner (runs [lookup True (Settling demo_answer False) (Some Open) (Some (one ''i'' ''whoxy'')) False] (Some 0) 4 (one_hold ''i'' ''whoxy'' ''held'')) (runs [lookup True (Caching demo_answer False) (Some Open) (Some (one ''i'' ''whoxy'')) False] (Some 0) 4 (one_hold ''i'' ''whoxy'' ''spent''))" unfolding calm_step_def by blast
  note r = run_step[where step = "calm_step demo_runner", OF r st]
  have "act demo_runner (runs [lookup True (Caching demo_answer False) (Some Open) (Some (one ''i'' ''whoxy'')) False] (Some 0) 4 (one_hold ''i'' ''whoxy'' ''spent'')) 0 (runs [lookup True (Counting demo_answer) (Some Open) (Some (one ''i'' ''whoxy'')) False] (Some 0) 4 (one_hold ''i'' ''whoxy'' ''spent''))"
    using act.caches_nothing[where s = "runs [lookup True (Caching demo_answer False) (Some Open) (Some (one ''i'' ''whoxy'')) False] (Some 0) 4 (one_hold ''i'' ''whoxy'' ''spent'')" and t = 0 and C = demo_runner and r = demo_answer and late = False and store_down = True] by (simp add: demo_step )
  then have st: "calm_step demo_runner (runs [lookup True (Caching demo_answer False) (Some Open) (Some (one ''i'' ''whoxy'')) False] (Some 0) 4 (one_hold ''i'' ''whoxy'' ''spent'')) (runs [lookup True (Counting demo_answer) (Some Open) (Some (one ''i'' ''whoxy'')) False] (Some 0) 4 (one_hold ''i'' ''whoxy'' ''spent''))" unfolding calm_step_def by blast
  note r = run_step[where step = "calm_step demo_runner", OF r st]
  have "act demo_runner (runs [lookup True (Counting demo_answer) (Some Open) (Some (one ''i'' ''whoxy'')) False] (Some 0) 4 (one_hold ''i'' ''whoxy'' ''spent'')) 0 (runs [lookup True (Telling demo_answer) (Some Open) (Some (one ''i'' ''whoxy'')) False] (Some 0) 4 (one_hold ''i'' ''whoxy'' ''spent''))"
    using act.counts_nothing[where s = "runs [lookup True (Counting demo_answer) (Some Open) (Some (one ''i'' ''whoxy'')) False] (Some 0) 4 (one_hold ''i'' ''whoxy'' ''spent'')" and t = 0 and C = demo_runner and r = demo_answer and store_down = True] by (simp add: demo_step )
  then have st: "calm_step demo_runner (runs [lookup True (Counting demo_answer) (Some Open) (Some (one ''i'' ''whoxy'')) False] (Some 0) 4 (one_hold ''i'' ''whoxy'' ''spent'')) (runs [lookup True (Telling demo_answer) (Some Open) (Some (one ''i'' ''whoxy'')) False] (Some 0) 4 (one_hold ''i'' ''whoxy'' ''spent''))" unfolding calm_step_def by blast
  note r = run_step[where step = "calm_step demo_runner", OF r st]
  have "act demo_runner (runs [lookup True (Telling demo_answer) (Some Open) (Some (one ''i'' ''whoxy'')) False] (Some 0) 4 (one_hold ''i'' ''whoxy'' ''spent'')) 0 (runs [lookup True (Unlisting (Answered demo_answer)) (Some (Sent demo_answer)) (Some (one ''i'' ''whoxy'')) False] (Some 0) 4 (one_hold ''i'' ''whoxy'' ''spent''))"
    using act.tells[where s = "runs [lookup True (Telling demo_answer) (Some Open) (Some (one ''i'' ''whoxy'')) False] (Some 0) 4 (one_hold ''i'' ''whoxy'' ''spent'')" and t = 0 and C = demo_runner and r = demo_answer] by (simp add: demo_step )
  then have st: "calm_step demo_runner (runs [lookup True (Telling demo_answer) (Some Open) (Some (one ''i'' ''whoxy'')) False] (Some 0) 4 (one_hold ''i'' ''whoxy'' ''spent'')) (runs [lookup True (Unlisting (Answered demo_answer)) (Some (Sent demo_answer)) (Some (one ''i'' ''whoxy'')) False] (Some 0) 4 (one_hold ''i'' ''whoxy'' ''spent''))" unfolding calm_step_def by blast
  note r = run_step[where step = "calm_step demo_runner", OF r st]
  have "act demo_runner (runs [lookup True (Unlisting (Answered demo_answer)) (Some (Sent demo_answer)) (Some (one ''i'' ''whoxy'')) False] (Some 0) 4 (one_hold ''i'' ''whoxy'' ''spent'')) 0 (runs [lookup True (Closing (Answered demo_answer)) (Some (Sent demo_answer)) (Some (one ''i'' ''whoxy'')) False] None 4 (one_hold ''i'' ''whoxy'' ''spent''))"
    using act.unlists[where s = "runs [lookup True (Unlisting (Answered demo_answer)) (Some (Sent demo_answer)) (Some (one ''i'' ''whoxy'')) False] (Some 0) 4 (one_hold ''i'' ''whoxy'' ''spent'')" and t = 0 and C = demo_runner and e = "Answered demo_answer"] by (simp add: demo_step )
  then have st: "calm_step demo_runner (runs [lookup True (Unlisting (Answered demo_answer)) (Some (Sent demo_answer)) (Some (one ''i'' ''whoxy'')) False] (Some 0) 4 (one_hold ''i'' ''whoxy'' ''spent'')) (runs [lookup True (Closing (Answered demo_answer)) (Some (Sent demo_answer)) (Some (one ''i'' ''whoxy'')) False] None 4 (one_hold ''i'' ''whoxy'' ''spent''))" unfolding calm_step_def by blast
  note r = run_step[where step = "calm_step demo_runner", OF r st]
  have "act demo_runner (runs [lookup True (Closing (Answered demo_answer)) (Some (Sent demo_answer)) (Some (one ''i'' ''whoxy'')) False] None 4 (one_hold ''i'' ''whoxy'' ''spent'')) 0 (runs [lookup True (Ended (Answered demo_answer)) (Some (Sent demo_answer)) (Some (one ''i'' ''whoxy'')) False] None 4 (one_hold ''i'' ''whoxy'' ''spent''))"
    using act.closes[where s = "runs [lookup True (Closing (Answered demo_answer)) (Some (Sent demo_answer)) (Some (one ''i'' ''whoxy'')) False] None 4 (one_hold ''i'' ''whoxy'' ''spent'')" and t = 0 and C = demo_runner and e = "Answered demo_answer"] by (simp add: demo_step )
  then have st: "calm_step demo_runner (runs [lookup True (Closing (Answered demo_answer)) (Some (Sent demo_answer)) (Some (one ''i'' ''whoxy'')) False] None 4 (one_hold ''i'' ''whoxy'' ''spent'')) (runs [lookup True (Ended (Answered demo_answer)) (Some (Sent demo_answer)) (Some (one ''i'' ''whoxy'')) False] None 4 (one_hold ''i'' ''whoxy'' ''spent''))" unfolding calm_step_def by blast
  note r = run_step[where step = "calm_step demo_runner", OF r st]
  show ?thesis by (rule r)
qed

lemma lookup_leads: "run_of (runner_step demo_runner) (runs [] None 4 no_ledger) (runs [lookup False Checking (Some Open) None False] (Some 0) 4 no_ledger)"
proof -
  have "around (runs [] None 4 no_ledger) (runs [lookup False Starting None None False] None 4 no_ledger)"
    using around.calls[of "runs [] None 4 no_ledger" "''whoxy_whois_history''" "''a''" True False False] by (simp add: new_lookup runs_def)
  then have st: "runner_step demo_runner (runs [] None 4 no_ledger) (runs [lookup False Starting None None False] None 4 no_ledger)" unfolding runner_step_def by blast
  note r = run_step[where step = "runner_step demo_runner", OF run_refl[where step = "runner_step demo_runner"] st]
  have "act demo_runner (runs [lookup False Starting None None False] None 4 no_ledger) 0 (runs [lookup False Joining None None False] None 4 no_ledger)"
    using act.starts[where s = "runs [lookup False Starting None None False] None 4 no_ledger" and t = 0 and C = demo_runner] by (simp add: demo_step )
  then have st: "runner_step demo_runner (runs [lookup False Starting None None False] None 4 no_ledger) (runs [lookup False Joining None None False] None 4 no_ledger)" unfolding runner_step_def by blast
  note r = run_step[where step = "runner_step demo_runner", OF r st]
  have "act demo_runner (runs [lookup False Joining None None False] None 4 no_ledger) 0 (runs [lookup False Checking (Some Open) None False] (Some 0) 4 no_ledger)"
    using act.leads[where s = "runs [lookup False Joining None None False] None 4 no_ledger" and t = 0 and C = demo_runner] by (simp add: demo_step )
  then have st: "runner_step demo_runner (runs [lookup False Joining None None False] None 4 no_ledger) (runs [lookup False Checking (Some Open) None False] (Some 0) 4 no_ledger)" unfolding runner_step_def by blast
  note r = run_step[where step = "runner_step demo_runner", OF r st]
  show ?thesis by (rule r)
qed

text \<open>The leader of a call is dropped: both calls that waited for it run the same call at the same time.\<close>

lemma lookup_twice: "run_of (runner_step demo_runner) (runs [] None 4 no_ledger) (runs [lookup False (Ended Dropped) (Some Closed) None False, lookup False Running None None True, lookup False Running None None True] None 2 no_ledger)"
proof -
  have "around (runs [] None 4 no_ledger) (runs [lookup False Starting None None False] None 4 no_ledger)"
    using around.calls[of "runs [] None 4 no_ledger" "''whoxy_whois_history''" "''a''" True False False] by (simp add: new_lookup runs_def)
  then have st: "runner_step demo_runner (runs [] None 4 no_ledger) (runs [lookup False Starting None None False] None 4 no_ledger)" unfolding runner_step_def by blast
  note r = run_step[where step = "runner_step demo_runner", OF run_refl[where step = "runner_step demo_runner"] st]
  have "around (runs [lookup False Starting None None False] None 4 no_ledger) (runs [lookup False Starting None None False, lookup False Starting None None False] None 4 no_ledger)"
    using around.calls[of "runs [lookup False Starting None None False] None 4 no_ledger" "''whoxy_whois_history''" "''a''" True False False] by (simp add: new_lookup runs_def)
  then have st: "runner_step demo_runner (runs [lookup False Starting None None False] None 4 no_ledger) (runs [lookup False Starting None None False, lookup False Starting None None False] None 4 no_ledger)" unfolding runner_step_def by blast
  note r = run_step[where step = "runner_step demo_runner", OF r st]
  have "around (runs [lookup False Starting None None False, lookup False Starting None None False] None 4 no_ledger) (runs [lookup False Starting None None False, lookup False Starting None None False, lookup False Starting None None False] None 4 no_ledger)"
    using around.calls[of "runs [lookup False Starting None None False, lookup False Starting None None False] None 4 no_ledger" "''whoxy_whois_history''" "''a''" True False False] by (simp add: new_lookup runs_def)
  then have st: "runner_step demo_runner (runs [lookup False Starting None None False, lookup False Starting None None False] None 4 no_ledger) (runs [lookup False Starting None None False, lookup False Starting None None False, lookup False Starting None None False] None 4 no_ledger)" unfolding runner_step_def by blast
  note r = run_step[where step = "runner_step demo_runner", OF r st]
  have "act demo_runner (runs [lookup False Starting None None False, lookup False Starting None None False, lookup False Starting None None False] None 4 no_ledger) 0 (runs [lookup False Joining None None False, lookup False Starting None None False, lookup False Starting None None False] None 4 no_ledger)"
    using act.starts[where s = "runs [lookup False Starting None None False, lookup False Starting None None False, lookup False Starting None None False] None 4 no_ledger" and t = 0 and C = demo_runner] by (simp add: demo_step )
  then have st: "runner_step demo_runner (runs [lookup False Starting None None False, lookup False Starting None None False, lookup False Starting None None False] None 4 no_ledger) (runs [lookup False Joining None None False, lookup False Starting None None False, lookup False Starting None None False] None 4 no_ledger)" unfolding runner_step_def by blast
  note r = run_step[where step = "runner_step demo_runner", OF r st]
  have "act demo_runner (runs [lookup False Joining None None False, lookup False Starting None None False, lookup False Starting None None False] None 4 no_ledger) 1 (runs [lookup False Joining None None False, lookup False Joining None None False, lookup False Starting None None False] None 4 no_ledger)"
    using act.starts[where s = "runs [lookup False Joining None None False, lookup False Starting None None False, lookup False Starting None None False] None 4 no_ledger" and t = 1 and C = demo_runner] by (simp add: demo_step )
  then have st: "runner_step demo_runner (runs [lookup False Joining None None False, lookup False Starting None None False, lookup False Starting None None False] None 4 no_ledger) (runs [lookup False Joining None None False, lookup False Joining None None False, lookup False Starting None None False] None 4 no_ledger)" unfolding runner_step_def by blast
  note r = run_step[where step = "runner_step demo_runner", OF r st]
  have "act demo_runner (runs [lookup False Joining None None False, lookup False Joining None None False, lookup False Starting None None False] None 4 no_ledger) 2 (runs [lookup False Joining None None False, lookup False Joining None None False, lookup False Joining None None False] None 4 no_ledger)"
    using act.starts[where s = "runs [lookup False Joining None None False, lookup False Joining None None False, lookup False Starting None None False] None 4 no_ledger" and t = 2 and C = demo_runner] by (simp add: demo_step )
  then have st: "runner_step demo_runner (runs [lookup False Joining None None False, lookup False Joining None None False, lookup False Starting None None False] None 4 no_ledger) (runs [lookup False Joining None None False, lookup False Joining None None False, lookup False Joining None None False] None 4 no_ledger)" unfolding runner_step_def by blast
  note r = run_step[where step = "runner_step demo_runner", OF r st]
  have "act demo_runner (runs [lookup False Joining None None False, lookup False Joining None None False, lookup False Joining None None False] None 4 no_ledger) 0 (runs [lookup False Checking (Some Open) None False, lookup False Joining None None False, lookup False Joining None None False] (Some 0) 4 no_ledger)"
    using act.leads[where s = "runs [lookup False Joining None None False, lookup False Joining None None False, lookup False Joining None None False] None 4 no_ledger" and t = 0 and C = demo_runner] by (simp add: demo_step )
  then have st: "runner_step demo_runner (runs [lookup False Joining None None False, lookup False Joining None None False, lookup False Joining None None False] None 4 no_ledger) (runs [lookup False Checking (Some Open) None False, lookup False Joining None None False, lookup False Joining None None False] (Some 0) 4 no_ledger)" unfolding runner_step_def by blast
  note r = run_step[where step = "runner_step demo_runner", OF r st]
  have "act demo_runner (runs [lookup False Checking (Some Open) None False, lookup False Joining None None False, lookup False Joining None None False] (Some 0) 4 no_ledger) 1 (runs [lookup False Checking (Some Open) None False, lookup False (Following 0) None None False, lookup False Joining None None False] (Some 0) 4 no_ledger)"
    using act.follows[where s = "runs [lookup False Checking (Some Open) None False, lookup False Joining None None False, lookup False Joining None None False] (Some 0) 4 no_ledger" and t = 1 and C = demo_runner and l = 0] by (simp add: demo_step )
  then have st: "runner_step demo_runner (runs [lookup False Checking (Some Open) None False, lookup False Joining None None False, lookup False Joining None None False] (Some 0) 4 no_ledger) (runs [lookup False Checking (Some Open) None False, lookup False (Following 0) None None False, lookup False Joining None None False] (Some 0) 4 no_ledger)" unfolding runner_step_def by blast
  note r = run_step[where step = "runner_step demo_runner", OF r st]
  have "act demo_runner (runs [lookup False Checking (Some Open) None False, lookup False (Following 0) None None False, lookup False Joining None None False] (Some 0) 4 no_ledger) 2 (runs [lookup False Checking (Some Open) None False, lookup False (Following 0) None None False, lookup False (Following 0) None None False] (Some 0) 4 no_ledger)"
    using act.follows[where s = "runs [lookup False Checking (Some Open) None False, lookup False (Following 0) None None False, lookup False Joining None None False] (Some 0) 4 no_ledger" and t = 2 and C = demo_runner and l = 0] by (simp add: demo_step )
  then have st: "runner_step demo_runner (runs [lookup False Checking (Some Open) None False, lookup False (Following 0) None None False, lookup False Joining None None False] (Some 0) 4 no_ledger) (runs [lookup False Checking (Some Open) None False, lookup False (Following 0) None None False, lookup False (Following 0) None None False] (Some 0) 4 no_ledger)" unfolding runner_step_def by blast
  note r = run_step[where step = "runner_step demo_runner", OF r st]
  have "mishap demo_runner (runs [lookup False Checking (Some Open) None False, lookup False (Following 0) None None False, lookup False (Following 0) None None False] (Some 0) 4 no_ledger) 0 (runs [lookup False (Leaving Dropped) (Some Open) None False, lookup False (Following 0) None None False, lookup False (Following 0) None None False] (Some 0) 4 no_ledger)"
    using mishap.dropped[where s = "runs [lookup False Checking (Some Open) None False, lookup False (Following 0) None None False, lookup False (Following 0) None None False] (Some 0) 4 no_ledger" and t = 0 and C = demo_runner and ph = Checking] by (simp add: demo_step waits_at_def)
  then have st: "runner_step demo_runner (runs [lookup False Checking (Some Open) None False, lookup False (Following 0) None None False, lookup False (Following 0) None None False] (Some 0) 4 no_ledger) (runs [lookup False (Leaving Dropped) (Some Open) None False, lookup False (Following 0) None None False, lookup False (Following 0) None None False] (Some 0) 4 no_ledger)" unfolding runner_step_def by blast
  note r = run_step[where step = "runner_step demo_runner", OF r st]
  have "act demo_runner (runs [lookup False (Leaving Dropped) (Some Open) None False, lookup False (Following 0) None None False, lookup False (Following 0) None None False] (Some 0) 4 no_ledger) 0 (runs [lookup False (Unlisting Dropped) (Some Open) None False, lookup False (Following 0) None None False, lookup False (Following 0) None None False] (Some 0) 4 no_ledger)"
    using act.leaves[where s = "runs [lookup False (Leaving Dropped) (Some Open) None False, lookup False (Following 0) None None False, lookup False (Following 0) None None False] (Some 0) 4 no_ledger" and t = 0 and C = demo_runner and e = Dropped] by (simp add: demo_step )
  then have st: "runner_step demo_runner (runs [lookup False (Leaving Dropped) (Some Open) None False, lookup False (Following 0) None None False, lookup False (Following 0) None None False] (Some 0) 4 no_ledger) (runs [lookup False (Unlisting Dropped) (Some Open) None False, lookup False (Following 0) None None False, lookup False (Following 0) None None False] (Some 0) 4 no_ledger)" unfolding runner_step_def by blast
  note r = run_step[where step = "runner_step demo_runner", OF r st]
  have "act demo_runner (runs [lookup False (Unlisting Dropped) (Some Open) None False, lookup False (Following 0) None None False, lookup False (Following 0) None None False] (Some 0) 4 no_ledger) 0 (runs [lookup False (Closing Dropped) (Some Open) None False, lookup False (Following 0) None None False, lookup False (Following 0) None None False] None 4 no_ledger)"
    using act.unlists[where s = "runs [lookup False (Unlisting Dropped) (Some Open) None False, lookup False (Following 0) None None False, lookup False (Following 0) None None False] (Some 0) 4 no_ledger" and t = 0 and C = demo_runner and e = Dropped] by (simp add: demo_step )
  then have st: "runner_step demo_runner (runs [lookup False (Unlisting Dropped) (Some Open) None False, lookup False (Following 0) None None False, lookup False (Following 0) None None False] (Some 0) 4 no_ledger) (runs [lookup False (Closing Dropped) (Some Open) None False, lookup False (Following 0) None None False, lookup False (Following 0) None None False] None 4 no_ledger)" unfolding runner_step_def by blast
  note r = run_step[where step = "runner_step demo_runner", OF r st]
  have "act demo_runner (runs [lookup False (Closing Dropped) (Some Open) None False, lookup False (Following 0) None None False, lookup False (Following 0) None None False] None 4 no_ledger) 0 (runs [lookup False (Ended Dropped) (Some Closed) None False, lookup False (Following 0) None None False, lookup False (Following 0) None None False] None 4 no_ledger)"
    using act.closes[where s = "runs [lookup False (Closing Dropped) (Some Open) None False, lookup False (Following 0) None None False, lookup False (Following 0) None None False] None 4 no_ledger" and t = 0 and C = demo_runner and e = Dropped] by (simp add: demo_step )
  then have st: "runner_step demo_runner (runs [lookup False (Closing Dropped) (Some Open) None False, lookup False (Following 0) None None False, lookup False (Following 0) None None False] None 4 no_ledger) (runs [lookup False (Ended Dropped) (Some Closed) None False, lookup False (Following 0) None None False, lookup False (Following 0) None None False] None 4 no_ledger)" unfolding runner_step_def by blast
  note r = run_step[where step = "runner_step demo_runner", OF r st]
  have "act demo_runner (runs [lookup False (Ended Dropped) (Some Closed) None False, lookup False (Following 0) None None False, lookup False (Following 0) None None False] None 4 no_ledger) 1 (runs [lookup False (Ended Dropped) (Some Closed) None False, lookup False Checking None None False, lookup False (Following 0) None None False] None 4 no_ledger)"
    using act.falls_back[where s = "runs [lookup False (Ended Dropped) (Some Closed) None False, lookup False (Following 0) None None False, lookup False (Following 0) None None False] None 4 no_ledger" and t = 1 and C = demo_runner and l = 0] by (simp add: demo_step )
  then have st: "runner_step demo_runner (runs [lookup False (Ended Dropped) (Some Closed) None False, lookup False (Following 0) None None False, lookup False (Following 0) None None False] None 4 no_ledger) (runs [lookup False (Ended Dropped) (Some Closed) None False, lookup False Checking None None False, lookup False (Following 0) None None False] None 4 no_ledger)" unfolding runner_step_def by blast
  note r = run_step[where step = "runner_step demo_runner", OF r st]
  have "act demo_runner (runs [lookup False (Ended Dropped) (Some Closed) None False, lookup False Checking None None False, lookup False (Following 0) None None False] None 4 no_ledger) 1 (runs [lookup False (Ended Dropped) (Some Closed) None False, lookup False Reserving None None False, lookup False (Following 0) None None False] None 4 no_ledger)"
    using act.enabled[where s = "runs [lookup False (Ended Dropped) (Some Closed) None False, lookup False Checking None None False, lookup False (Following 0) None None False] None 4 no_ledger" and t = 1 and C = demo_runner] by (simp add: demo_step tool_enabled_def default_enabled_def canonical_tool_id_def)
  then have st: "runner_step demo_runner (runs [lookup False (Ended Dropped) (Some Closed) None False, lookup False Checking None None False, lookup False (Following 0) None None False] None 4 no_ledger) (runs [lookup False (Ended Dropped) (Some Closed) None False, lookup False Reserving None None False, lookup False (Following 0) None None False] None 4 no_ledger)" unfolding runner_step_def by blast
  note r = run_step[where step = "runner_step demo_runner", OF r st]
  have "act demo_runner (runs [lookup False (Ended Dropped) (Some Closed) None False, lookup False Reserving None None False, lookup False (Following 0) None None False] None 4 no_ledger) 1 (runs [lookup False (Ended Dropped) (Some Closed) None False, lookup False Queued None None False, lookup False (Following 0) None None False] None 4 no_ledger)"
    using act.free_call[where s = "runs [lookup False (Ended Dropped) (Some Closed) None False, lookup False Reserving None None False, lookup False (Following 0) None None False] None 4 no_ledger" and t = 1 and C = demo_runner and p = p] by (simp add: demo_step )
  then have st: "runner_step demo_runner (runs [lookup False (Ended Dropped) (Some Closed) None False, lookup False Reserving None None False, lookup False (Following 0) None None False] None 4 no_ledger) (runs [lookup False (Ended Dropped) (Some Closed) None False, lookup False Queued None None False, lookup False (Following 0) None None False] None 4 no_ledger)" unfolding runner_step_def by blast
  note r = run_step[where step = "runner_step demo_runner", OF r st]
  have "act demo_runner (runs [lookup False (Ended Dropped) (Some Closed) None False, lookup False Queued None None False, lookup False (Following 0) None None False] None 4 no_ledger) 1 (runs [lookup False (Ended Dropped) (Some Closed) None False, lookup False Sending None None True, lookup False (Following 0) None None False] None 3 no_ledger)"
    using act.permitted[where s = "runs [lookup False (Ended Dropped) (Some Closed) None False, lookup False Queued None None False, lookup False (Following 0) None None False] None 4 no_ledger" and t = 1 and C = demo_runner] by (simp add: demo_step )
  then have st: "runner_step demo_runner (runs [lookup False (Ended Dropped) (Some Closed) None False, lookup False Queued None None False, lookup False (Following 0) None None False] None 4 no_ledger) (runs [lookup False (Ended Dropped) (Some Closed) None False, lookup False Sending None None True, lookup False (Following 0) None None False] None 3 no_ledger)" unfolding runner_step_def by blast
  note r = run_step[where step = "runner_step demo_runner", OF r st]
  have "act demo_runner (runs [lookup False (Ended Dropped) (Some Closed) None False, lookup False Sending None None True, lookup False (Following 0) None None False] None 3 no_ledger) 1 (runs [lookup False (Ended Dropped) (Some Closed) None False, lookup False Running None None True, lookup False (Following 0) None None False] None 3 no_ledger)"
    using act.sends[where s = "runs [lookup False (Ended Dropped) (Some Closed) None False, lookup False Sending None None True, lookup False (Following 0) None None False] None 3 no_ledger" and t = 1 and C = demo_runner] by (simp add: demo_step )
  then have st: "runner_step demo_runner (runs [lookup False (Ended Dropped) (Some Closed) None False, lookup False Sending None None True, lookup False (Following 0) None None False] None 3 no_ledger) (runs [lookup False (Ended Dropped) (Some Closed) None False, lookup False Running None None True, lookup False (Following 0) None None False] None 3 no_ledger)" unfolding runner_step_def by blast
  note r = run_step[where step = "runner_step demo_runner", OF r st]
  have "act demo_runner (runs [lookup False (Ended Dropped) (Some Closed) None False, lookup False Running None None True, lookup False (Following 0) None None False] None 3 no_ledger) 2 (runs [lookup False (Ended Dropped) (Some Closed) None False, lookup False Running None None True, lookup False Checking None None False] None 3 no_ledger)"
    using act.falls_back[where s = "runs [lookup False (Ended Dropped) (Some Closed) None False, lookup False Running None None True, lookup False (Following 0) None None False] None 3 no_ledger" and t = 2 and C = demo_runner and l = 0] by (simp add: demo_step )
  then have st: "runner_step demo_runner (runs [lookup False (Ended Dropped) (Some Closed) None False, lookup False Running None None True, lookup False (Following 0) None None False] None 3 no_ledger) (runs [lookup False (Ended Dropped) (Some Closed) None False, lookup False Running None None True, lookup False Checking None None False] None 3 no_ledger)" unfolding runner_step_def by blast
  note r = run_step[where step = "runner_step demo_runner", OF r st]
  have "act demo_runner (runs [lookup False (Ended Dropped) (Some Closed) None False, lookup False Running None None True, lookup False Checking None None False] None 3 no_ledger) 2 (runs [lookup False (Ended Dropped) (Some Closed) None False, lookup False Running None None True, lookup False Reserving None None False] None 3 no_ledger)"
    using act.enabled[where s = "runs [lookup False (Ended Dropped) (Some Closed) None False, lookup False Running None None True, lookup False Checking None None False] None 3 no_ledger" and t = 2 and C = demo_runner] by (simp add: demo_step tool_enabled_def default_enabled_def canonical_tool_id_def)
  then have st: "runner_step demo_runner (runs [lookup False (Ended Dropped) (Some Closed) None False, lookup False Running None None True, lookup False Checking None None False] None 3 no_ledger) (runs [lookup False (Ended Dropped) (Some Closed) None False, lookup False Running None None True, lookup False Reserving None None False] None 3 no_ledger)" unfolding runner_step_def by blast
  note r = run_step[where step = "runner_step demo_runner", OF r st]
  have "act demo_runner (runs [lookup False (Ended Dropped) (Some Closed) None False, lookup False Running None None True, lookup False Reserving None None False] None 3 no_ledger) 2 (runs [lookup False (Ended Dropped) (Some Closed) None False, lookup False Running None None True, lookup False Queued None None False] None 3 no_ledger)"
    using act.free_call[where s = "runs [lookup False (Ended Dropped) (Some Closed) None False, lookup False Running None None True, lookup False Reserving None None False] None 3 no_ledger" and t = 2 and C = demo_runner and p = p] by (simp add: demo_step )
  then have st: "runner_step demo_runner (runs [lookup False (Ended Dropped) (Some Closed) None False, lookup False Running None None True, lookup False Reserving None None False] None 3 no_ledger) (runs [lookup False (Ended Dropped) (Some Closed) None False, lookup False Running None None True, lookup False Queued None None False] None 3 no_ledger)" unfolding runner_step_def by blast
  note r = run_step[where step = "runner_step demo_runner", OF r st]
  have "act demo_runner (runs [lookup False (Ended Dropped) (Some Closed) None False, lookup False Running None None True, lookup False Queued None None False] None 3 no_ledger) 2 (runs [lookup False (Ended Dropped) (Some Closed) None False, lookup False Running None None True, lookup False Sending None None True] None 2 no_ledger)"
    using act.permitted[where s = "runs [lookup False (Ended Dropped) (Some Closed) None False, lookup False Running None None True, lookup False Queued None None False] None 3 no_ledger" and t = 2 and C = demo_runner] by (simp add: demo_step )
  then have st: "runner_step demo_runner (runs [lookup False (Ended Dropped) (Some Closed) None False, lookup False Running None None True, lookup False Queued None None False] None 3 no_ledger) (runs [lookup False (Ended Dropped) (Some Closed) None False, lookup False Running None None True, lookup False Sending None None True] None 2 no_ledger)" unfolding runner_step_def by blast
  note r = run_step[where step = "runner_step demo_runner", OF r st]
  have "act demo_runner (runs [lookup False (Ended Dropped) (Some Closed) None False, lookup False Running None None True, lookup False Sending None None True] None 2 no_ledger) 2 (runs [lookup False (Ended Dropped) (Some Closed) None False, lookup False Running None None True, lookup False Running None None True] None 2 no_ledger)"
    using act.sends[where s = "runs [lookup False (Ended Dropped) (Some Closed) None False, lookup False Running None None True, lookup False Sending None None True] None 2 no_ledger" and t = 2 and C = demo_runner] by (simp add: demo_step )
  then have st: "runner_step demo_runner (runs [lookup False (Ended Dropped) (Some Closed) None False, lookup False Running None None True, lookup False Sending None None True] None 2 no_ledger) (runs [lookup False (Ended Dropped) (Some Closed) None False, lookup False Running None None True, lookup False Running None None True] None 2 no_ledger)" unfolding runner_step_def by blast
  note r = run_step[where step = "runner_step demo_runner", OF r st]
  show ?thesis by (rule r)
qed

end
