(* ===== verification/Runner_Slots.thy ===== *)
theory Runner_Slots
  imports Runner_Cases
begin

text \<open>
  What holds of the tool runner in every state it reaches, whatever is cancelled, dropped or refused: its
  permits, its list of calls in flight, and that no call is left waiting.
\<close>

section \<open>What one step of a call may do\<close>

fun guards :: "phase \<Rightarrow> bool" where
  "guards Starting = False" | "guards Looking = False" | "guards Joining = False" | "guards (Following l) = False"
| "guards (Closing e) = False" | "guards (Ended e) = False" | "guards ph = True"

text \<open>What the local variables of a call are in each phase.\<close>

fun phase_ok :: "phase \<Rightarrow> chan option \<Rightarrow> bool \<Rightarrow> bool \<Rightarrow> bool" where
  "phase_ok Starting tx permit hold = (tx = None \<and> \<not> permit \<and> \<not> hold)"
| "phase_ok Looking tx permit hold = (tx = None \<and> \<not> permit \<and> \<not> hold)"
| "phase_ok Joining tx permit hold = (tx = None \<and> \<not> permit \<and> \<not> hold)"
| "phase_ok (Following l) tx permit hold = (tx = None \<and> \<not> permit \<and> \<not> hold)"
| "phase_ok Checking tx permit hold = (tx \<in> {None, Some Open} \<and> \<not> permit \<and> \<not> hold)"
| "phase_ok Reserving tx permit hold = (tx \<in> {None, Some Open} \<and> \<not> permit \<and> \<not> hold)"
| "phase_ok Refusing tx permit hold = (tx \<in> {None, Some Open} \<and> \<not> permit \<and> \<not> hold)"
| "phase_ok Queued tx permit hold = (tx \<in> {None, Some Open} \<and> \<not> permit)"
| "phase_ok Sending tx permit hold = (tx \<in> {None, Some Open} \<and> permit)"
| "phase_ok Running tx permit hold = (tx \<in> {None, Some Open} \<and> permit)"
| "phase_ok (Releasing e) tx permit hold = (tx \<in> {None, Some Open})"
| "phase_ok (Leaving e) tx permit hold = (tx \<in> {None, Some Open})"
| "phase_ok (Unlisting e) tx permit hold = (tx \<noteq> Some Closed \<and> \<not> permit)"
| "phase_ok (Closing e) tx permit hold = (tx \<noteq> Some Closed \<and> \<not> permit)"
| "phase_ok (Ended e) tx permit hold = (tx \<noteq> Some Open \<and> \<not> permit)"
| "phase_ok _ tx permit hold = (tx \<in> {None, Some Open} \<and> \<not> permit)"

definition call_ok :: "call_state \<Rightarrow> bool" where
  "call_ok c \<longleftrightarrow> phase_ok (tk_phase c) (tk_tx c) (tk_permit c) (tk_hold c \<noteq> None)"

definition same_args :: "call_state \<Rightarrow> call_state \<Rightarrow> bool" where
  "same_args c c' \<longleftrightarrow> tk_tool c' = tk_tool c \<and> tk_inputs c' = tk_inputs c \<and> tk_refresh c' = tk_refresh c \<and> tk_reserve c' = tk_reserve c
     \<and> tk_cancelled c' = tk_cancelled c"

datatype move = Same | Lead | Fall_Back | Unlist

text \<open>The kind of a step, by what it does to the guards and the map of calls in flight.\<close>

definition moved :: "runner_env \<Rightarrow> runner \<Rightarrow> nat \<Rightarrow> runner \<Rightarrow> move \<Rightarrow> bool" where
  "moved C s t s' m \<longleftrightarrow> (let c = call s t; c' = call s' t; k = call_key C c in case m of
     Same \<Rightarrow> rn_inflight s' = rn_inflight s \<and> guards (tk_phase c') = guards (tk_phase c)
        \<and> (tk_tx c' = None \<longleftrightarrow> tk_tx c = None) \<and> (tk_tx c = Some Closed \<longrightarrow> tk_tx c' = Some Closed)
        \<and> (\<forall>l. tk_phase c' = Following l \<longrightarrow> rn_inflight s k = Some l \<or> tk_phase c = Following l)
   | Lead \<Rightarrow> rn_inflight s k = None \<and> rn_inflight s' = (rn_inflight s)(k \<mapsto> t) \<and> tk_tx c' = Some Open \<and> tk_tx c = None \<and> tk_phase c' = Checking
   | Fall_Back \<Rightarrow> rn_inflight s' = rn_inflight s \<and> tk_tx c' = tk_tx c \<and> tk_phase c' = Checking
        \<and> (\<exists>l. tk_phase c = Following l \<and> tk_tx (call s l) = Some Closed)
   | Unlist \<Rightarrow> rn_inflight s' = (rn_inflight s)(k := None) \<and> tk_tx c' = tk_tx c \<and> guards (tk_phase c) \<and> (\<exists>e. tk_phase c' = Closing e))"

definition stepped :: "runner_env \<Rightarrow> runner \<Rightarrow> nat \<Rightarrow> runner \<Rightarrow> bool" where
  "stepped C s t s' \<longleftrightarrow> t < length (rn_calls s) \<and> rn_calls s' = (rn_calls s)[t := call s' t] \<and> same_args (call s t) (call s' t)
     \<and> (call_ok (call s t) \<longrightarrow> call_ok (call s' t) \<and> rn_permits s' + (if tk_permit (call s' t) then 1 else 0) = rn_permits s + (if tk_permit (call s t) then 1 else 0)
          \<and> (\<exists>m. moved C s t s' m))"

lemmas step_defs = at_def edit_def goes_def call_ok_def same_args_def moved_def Let_def with_ledger_def with_recon_def stepped_def

lemma act_stepped:
  assumes "act C s t s'"
  shows "stepped C s t s'"
  using assms
proof cases
  case leads
  then show ?thesis by (auto simp: step_defs intro!: exI[of _ Lead])
next
  case falls_back
  then show ?thesis by (auto simp: step_defs intro!: exI[of _ Fall_Back])
next
  case unlists
  then show ?thesis by (auto simp: step_defs intro!: exI[of _ Unlist])
qed (auto simp: step_defs intro!: exI[of _ Same])

lemma waits_guards: "waits_at ph \<Longrightarrow> guards ph \<and> (phase_ok ph tx permit hold \<longrightarrow> tx = None \<or> tx = Some Open)"
  by (cases ph) (auto simp: waits_at_def)

lemma mishap_stepped:
  assumes "mishap C s t s'"
  shows "stepped C s t s'"
  using assms
proof cases
  case (dropped ph)
  with waits_guards[of ph] show ?thesis by (auto simp: step_defs intro!: exI[of _ Same])
qed (auto simp: step_defs intro!: exI[of _ Same])

section \<open>The invariant of the runner\<close>

definition follow_ok :: "runner_env \<Rightarrow> runner \<Rightarrow> bool" where
  "follow_ok C s \<longleftrightarrow> (\<forall>t l. at s t (Following l) \<longrightarrow> l < length (rn_calls s) \<and> tk_tx (call s l) \<noteq> None \<and> call_key C (call s l) = call_key C (call s t))"

definition listed_ok :: "runner_env \<Rightarrow> runner \<Rightarrow> bool" where
  "listed_ok C s \<longleftrightarrow> (\<forall>k l. rn_inflight s k = Some l \<longrightarrow> l < length (rn_calls s) \<and> call_key C (call s l) = k \<and> guards (tk_phase (call s l))
     \<and> tk_tx (call s l) \<noteq> None)"

text \<open>No leader of the key ended without an answer.\<close>

definition unbroken :: "runner_env \<Rightarrow> runner \<Rightarrow> string \<Rightarrow> bool" where
  "unbroken C s k \<longleftrightarrow> (\<forall>c \<in> set (rn_calls s). call_key C c = k \<longrightarrow> tk_tx c \<noteq> Some Closed)"

definition alone_ok :: "runner_env \<Rightarrow> runner \<Rightarrow> bool" where
  "alone_ok C s \<longleftrightarrow> (\<forall>t < length (rn_calls s). guards (tk_phase (call s t)) \<longrightarrow> unbroken C s (call_key C (call s t))
     \<longrightarrow> rn_inflight s (call_key C (call s t)) = Some t)"

definition runner_inv :: "runner_env \<Rightarrow> runner \<Rightarrow> bool" where
  "runner_inv C s \<longleftrightarrow> rn_permits s + length (filter tk_permit (rn_calls s)) = MAX_CONCURRENCY \<and> (\<forall>c \<in> set (rn_calls s). call_ok c)
     \<and> follow_ok C s \<and> listed_ok C s \<and> alone_ok C s"

lemma length_filter_update:
  "t < length xs \<Longrightarrow> length (filter P (xs[t := x])) + (if P (xs ! t) then 1 else 0) = length (filter P xs) + (if P x then 1 else 0)"
proof (induction xs arbitrary: t)
  case (Cons y xs)
  then show ?case by (cases t) auto
qed simp

lemma key_same: "same_args c c' \<Longrightarrow> call_key C c' = call_key C c"
  by (simp add: same_args_def call_key_def canonical_def)

lemma stepped_inv:
  assumes inv: "runner_inv C s" and st: "stepped C s t s'"
  shows "runner_inv C s'"
proof -
  let ?c = "call s t" and ?c' = "call s' t" and ?n = "length (rn_calls s)"
  from st have t: "t < ?n" and upd: "rn_calls s' = (rn_calls s)[t := ?c']" and args: "same_args ?c ?c'" by (auto simp: stepped_def)
  from inv t have "call_ok ?c" by (simp add: runner_inv_def)
  with st obtain m where ok: "call_ok ?c'" and
    per: "rn_permits s' + (if tk_permit ?c' then 1 else 0) = rn_permits s + (if tk_permit ?c then 1 else 0)" and m: "moved C s t s' m"
    by (auto simp: stepped_def)
  have len: "length (rn_calls s') = ?n" by (subst upd) simp
  have oth: "call s' j = call s j" if "j \<noteq> t" for j using upd that by (metis nth_list_update_neq)
  have key: "call_key C (call s' j) = call_key C (call s j)" for j using oth key_same[OF args] by (cases "j = t") auto
  have 1: "rn_permits s' + length (filter tk_permit (rn_calls s')) = MAX_CONCURRENCY"
    using length_filter_update[OF t, of tk_permit ?c'] per inv by (subst upd) (simp add: runner_inv_def)
  have 2: "\<forall>c \<in> set (rn_calls s'). call_ok c"
    using inv ok by (subst upd) (auto simp: runner_inv_def dest!: set_update_subset_insert[THEN subsetD])
  have fo: "follow_ok C s" and li: "listed_ok C s" and al: "alone_ok C s" using inv by (simp_all add: runner_inv_def)
  have broken: "\<not> unbroken C s' k" if "l < ?n" "call_key C (call s l) = k" "tk_tx (call s' l) = Some Closed" for k l
    using that key len unfolding unbroken_def by (metis nth_mem)
  have keeps: "tk_tx (call s' l) \<noteq> None" if "tk_tx (call s l) \<noteq> None" for l
    using m that oth[of l] by (cases "l = t") (auto simp: moved_def Let_def split: move.splits)
  have unb: "unbroken C s k" if "unbroken C s' k" for k
  proof (rule ccontr)
    assume "\<not> unbroken C s k"
    then obtain l where l: "l < ?n" "call_key C (call s l) = k" "tk_tx (call s l) = Some Closed" by (auto simp: unbroken_def in_set_conv_nth)
    then have "tk_tx (call s' l) = Some Closed" using m oth[of l] by (cases "l = t") (auto simp: moved_def Let_def split: move.splits)
    with broken l that show False by blast
  qed
  have 3: "follow_ok C s'"
  proof -
    have "l < ?n \<and> tk_tx (call s l) \<noteq> None \<and> call_key C (call s l) = call_key C (call s j)" if j: "at s' j (Following l)" for j l
    proof (cases "j = t")
      case False
      with j oth len have "at s j (Following l)" by (simp add: at_def)
      with fo show ?thesis by (simp add: follow_ok_def)
    next
      case True
      with j m consider "rn_inflight s (call_key C ?c) = Some l" | "tk_phase ?c = Following l"
        by (auto simp: moved_def Let_def at_def split: move.splits)
      then show ?thesis
      proof cases
        case 1
        with li True show ?thesis by (simp add: listed_ok_def)
      next
        case 2
        with fo True t show ?thesis by (simp add: follow_ok_def at_def)
      qed
    qed
    then show ?thesis by (simp add: follow_ok_def key len keeps)
  qed
  have 4: "listed_ok C s'"
  proof -
    have "l < ?n \<and> call_key C (call s l) = k \<and> guards (tk_phase (call s' l)) \<and> tk_tx (call s' l) \<noteq> None"
      if k: "rn_inflight s' k = Some l" for k l
    proof (cases "rn_inflight s k = Some l")
      case True
      with li have l: "l < ?n" "call_key C (call s l) = k" "guards (tk_phase (call s l))" "tk_tx (call s l) \<noteq> None" by (simp_all add: listed_ok_def)
      have "guards (tk_phase (call s' l))"
      proof (cases "l = t")
        case True
        with m l k show ?thesis by (auto simp: moved_def Let_def split: move.splits if_splits)
      qed (use oth l in simp)
      with l keeps show ?thesis by simp
    next
      case False
      with k m have "m = Lead" "l = t" "k = call_key C ?c" "tk_tx ?c' = Some Open" "tk_phase ?c' = Checking"
        by (auto simp: moved_def Let_def split: move.splits if_splits)
      with t show ?thesis by simp
    qed
    then show ?thesis by (simp add: listed_ok_def key len)
  qed
  have 5: "alone_ok C s'"
  proof -
    have "rn_inflight s' (call_key C (call s j)) = Some j"
      if j: "j < ?n" "guards (tk_phase (call s' j))" "unbroken C s' (call_key C (call s j))" for j
    proof (cases "guards (tk_phase (call s j))")
      case True
      have old: "rn_inflight s (call_key C (call s j)) = Some j" using al j(1) True unb[OF j(3)] by (simp add: alone_ok_def)
      show ?thesis
      proof (cases m)
        case Unlist
        with m j(2) have "j \<noteq> t" "guards (tk_phase ?c)" by (auto simp: moved_def Let_def)
        then have "call_key C (call s j) \<noteq> call_key C ?c" using old al t unb[OF j(3)] by (auto simp: alone_ok_def)
        with Unlist m old show ?thesis by (simp add: moved_def Let_def)
      qed (use m old in \<open>auto simp: moved_def Let_def\<close>)
    next
      case False
      with j(2) oth have "j = t" by metis
      with m j(2) False consider "m = Lead" | l where "tk_phase ?c = Following l" "tk_tx (call s l) = Some Closed" "tk_phase ?c' = Checking" "tk_tx ?c' = tk_tx ?c"
        by (auto simp: moved_def Let_def split: move.splits)
      then show ?thesis
      proof cases
        case 1
        with m \<open>j = t\<close> show ?thesis by (simp add: moved_def Let_def)
      next
        case 2
        with fo t have l: "l < ?n" "call_key C (call s l) = call_key C ?c" by (auto simp: follow_ok_def at_def)
        have "tk_tx (call s' l) = Some Closed" using 2 oth[of l] by (cases "l = t") auto
        with broken l j(3) \<open>j = t\<close> show ?thesis by blast
      qed
    qed
    then show ?thesis by (simp add: alone_ok_def key len)
  qed
  from 1 2 3 4 5 show ?thesis by (simp add: runner_inv_def)
qed


lemma at_append: "at (s\<lparr>rn_calls := rn_calls s @ [new_call a b c d e]\<rparr>) t ph \<longleftrightarrow> at s t ph \<or> t = length (rn_calls s) \<and> ph = Starting"
  by (auto simp: at_def nth_append new_call_def)

lemma around_inv:
  assumes "runner_inv C s" "around s s'"
  shows "runner_inv C s'"
  using assms(2)
proof cases
  case (calls tool inputs refresh reserve cancelled)
  have nth: "call s' l = call s l" if "l < length (rn_calls s)" for l using that calls by (simp add: nth_append)
  have new: "call_ok (new_call tool inputs refresh reserve cancelled)" "\<not> guards (tk_phase (new_call tool inputs refresh reserve cancelled))"
    "tk_tx (new_call tool inputs refresh reserve cancelled) = None" "\<not> tk_permit (new_call tool inputs refresh reserve cancelled)"
    by (simp_all add: new_call_def call_ok_def)
  have "follow_ok C s'" using assms(1) unfolding runner_inv_def follow_ok_def calls at_append
    by (auto simp: nth_append at_def less_Suc_eq)
  moreover have "listed_ok C s'" using assms(1) nth calls by (fastforce simp: runner_inv_def listed_ok_def)
  moreover have "alone_ok C s'"
    using assms(1) new calls by (auto simp: runner_inv_def alone_ok_def nth_append unbroken_def less_Suc_eq)
  ultimately show ?thesis using assms(1) new calls by (auto simp: runner_inv_def)
next
  case (cancels t)
  let ?f = "tk_cancelled_update (\<lambda>_. True)"
  have len: "length (rn_calls s') = length (rn_calls s)" using cancels by (simp add: edit_def)
  have nth: "call s' l = (if l = t then ?f (call s l) else call s l)" if "l < length (rn_calls s)" for l using that cancels by (simp add: edit_def)
  have field: "tk_phase (call s' l) = tk_phase (call s l)" "tk_tx (call s' l) = tk_tx (call s l)" "call_key C (call s' l) = call_key C (call s l)"
    "call_ok (call s' l) = call_ok (call s l)" if "l < length (rn_calls s)" for l
    using nth[OF that] by (auto simp: call_key_def canonical_def call_ok_def)
  have "rn_permits s' + length (filter tk_permit (rn_calls s')) = rn_permits s + length (filter tk_permit (rn_calls s))"
    using length_filter_update[OF cancels(2), of tk_permit "?f (call s t)"] cancels(1) by (simp add: edit_def)
  moreover have "(\<forall>c \<in> set (rn_calls s'). call_ok c) \<longleftrightarrow> (\<forall>c \<in> set (rn_calls s). call_ok c)"
    using field(4) len by (auto simp: all_set_conv_all_nth)
  moreover have "unbroken C s' k \<longleftrightarrow> unbroken C s k" for k
    using field len by (auto simp: unbroken_def all_set_conv_all_nth)
  moreover have "rn_inflight s' = rn_inflight s" using cancels by (simp add: edit_def)
  moreover have "at s' j ph \<longleftrightarrow> at s j ph" for j ph using field len by (auto simp: at_def)
  moreover have "follow_ok C s'" unfolding follow_ok_def
  proof (intro allI impI)
    fix j l assume "at s' j (Following l)"
    then have a: "at s j (Following l)" using field len by (auto simp: at_def)
    with assms(1) have "l < length (rn_calls s)" "tk_tx (call s l) \<noteq> None" "call_key C (call s l) = call_key C (call s j)" "j < length (rn_calls s)"
      by (auto simp: runner_inv_def follow_ok_def at_def)
    then show "l < length (rn_calls s') \<and> tk_tx (call s' l) \<noteq> None \<and> call_key C (call s' l) = call_key C (call s' j)" using field len by simp
  qed
  moreover have "listed_ok C s'" using assms(1) field len cancels by (simp add: runner_inv_def listed_ok_def edit_def)
  moreover have "alone_ok C s'" using assms(1) calculation field len by (simp add: runner_inv_def alone_ok_def)
  ultimately show ?thesis using assms(1) by (simp add: runner_inv_def)
next
  case (others d q)
  then show ?thesis using assms(1)
    by (simp add: runner_inv_def follow_ok_def listed_ok_def alone_ok_def unbroken_def at_def)
qed

interpretation runner: step_system runner_start "runner_step C" "runner_inv C" for C
proof unfold_locales
  show "runner_start s \<Longrightarrow> runner_inv C s" for s
    by (simp add: runner_start_def runner_inv_def follow_ok_def listed_ok_def alone_ok_def at_def)
  show "runner_inv C s \<Longrightarrow> runner_step C s t \<Longrightarrow> runner_inv C t" for s t
    by (auto simp: runner_step_def intro: stepped_inv act_stepped mishap_stepped around_inv)
qed

section \<open>Permits and the same call at the same time\<close>

text \<open>C39: at most four calls run at the same time, and when every call has ended, all four permits are back
  and no call is listed as in flight, whatever was cancelled, dropped or refused on the way.\<close>

theorem runner_permits:
  assumes "runner_start s0" and "run_of (runner_step C) s0 s"
  shows "length (filter (\<lambda>c. tk_phase c = Running) (rn_calls s)) \<le> MAX_CONCURRENCY \<and>
    ((\<forall>c \<in> set (rn_calls s). \<exists>e. tk_phase c = Ended e) \<longrightarrow> rn_permits s = MAX_CONCURRENCY \<and> rn_inflight s = (\<lambda>_. None))"
proof -
  note inv = runner.inv_reachable[OF assms]
  have "length (filter (\<lambda>c. tk_phase c = Running) xs) \<le> length (filter tk_permit xs)" if "\<forall>c \<in> set xs. call_ok c" for xs
    using that by (induction xs) (auto simp: call_ok_def)
  then have "length (filter (\<lambda>c. tk_phase c = Running) (rn_calls s)) \<le> length (filter tk_permit (rn_calls s))"
    using inv by (simp add: runner_inv_def)
  moreover have "rn_permits s = MAX_CONCURRENCY \<and> rn_inflight s = (\<lambda>_. None)" if ended: "\<forall>c \<in> set (rn_calls s). \<exists>e. tk_phase c = Ended e"
  proof -
    have "filter tk_permit (rn_calls s) = []" using ended inv by (fastforce simp: filter_empty_conv runner_inv_def call_ok_def)
    moreover have "rn_inflight s k = None" for k
    proof (cases "rn_inflight s k")
      case (Some l)
      with inv have "l < length (rn_calls s)" "guards (tk_phase (call s l))" by (simp_all add: runner_inv_def listed_ok_def)
      with ended show ?thesis by (metis guards.simps(6) nth_mem)
    qed
    ultimately show ?thesis using inv by (auto simp: runner_inv_def)
  qed
  ultimately show ?thesis using inv by (simp add: runner_inv_def)
qed

text \<open>C37: the same call never runs twice at the same time, in whatever order calls arrive, wait and end,
  unless an earlier leader of that call ended without an answer.\<close>

theorem same_call_once:
  assumes "runner_start s0" and "run_of (runner_step C) s0 s" and "unbroken C s k"
    and "t < length (rn_calls s)" "guards (tk_phase (call s t))" "call_key C (call s t) = k"
    and "u < length (rn_calls s)" "guards (tk_phase (call s u))" "call_key C (call s u) = k"
  shows "t = u"
proof -
  from runner.inv_reachable[OF assms(1,2)] have "alone_ok C s" by (simp add: runner_inv_def)
  with assms(3-) have "rn_inflight s k = Some t" "rn_inflight s k = Some u" by (auto simp: alone_ok_def)
  then show ?thesis by simp
qed

lemma calm_is_step: "run_of (calm_step C) s t \<Longrightarrow> run_of (runner_step C) s t"
  by (erule run_of_mono[rotated]) (auto simp: calm_step_def runner_step_def)

theorem runner_permits_witness:
  "length (filter (\<lambda>c. tk_phase c = Running) (rn_calls (runs [lookup True (Ended (Answered demo_answer)) (Some (Sent demo_answer)) (Some (one ''i'' ''whoxy'')) False] None 4 (one_hold ''i'' ''whoxy'' ''spent'')))) \<le> MAX_CONCURRENCY"
  using runner_permits[OF runs_start calm_is_step[OF lookup_paid]] by simp

theorem same_call_once_witness:
  "call_key demo_runner (call (runs [lookup False Checking (Some Open) None False] (Some 0) 4 no_ledger) 0) = ''whoxy_whois_historya'' \<and> (0::nat) = 0"
proof -
  let ?s = "runs [lookup False Checking (Some Open) None False] (Some 0) 4 no_ledger"
  have r: "run_of (runner_step demo_runner) (runs [] None 4 no_ledger) ?s" by (rule lookup_leads)
  have u: "unbroken demo_runner ?s ''whoxy_whois_historya''" by (simp add: unbroken_def runs_def)
  have "(0::nat) = 0" by (rule same_call_once[OF runs_start r u]) (simp_all add: runs_def)
  then show ?thesis by (simp add: runs_def)
qed

section \<open>Every call ends\<close>

fun rank :: "phase \<Rightarrow> nat" where
  "rank Starting = 18" | "rank Looking = 17" | "rank Joining = 16" | "rank (Following l) = 15" | "rank Checking = 14"
| "rank Reserving = 13" | "rank Refusing = 12" | "rank Queued = 11" | "rank Sending = 10" | "rank Running = 9"
| "rank (Settling r late) = 8" | "rank (Caching r late) = 7" | "rank (Counting r) = 6" | "rank (Telling r) = 5"
| "rank (Releasing why) = 4" | "rank (Leaving e) = 3" | "rank (Unlisting e) = 2" | "rank (Closing e) = 1" | "rank (Ended e) = 0"

definition steps_left :: "runner \<Rightarrow> nat" where
  "steps_left s = sum_list (map (rank \<circ> tk_phase) (rn_calls s))"

definition all_ended :: "runner \<Rightarrow> bool" where
  "all_ended s \<longleftrightarrow> (\<forall>c \<in> set (rn_calls s). \<exists>e. tk_phase c = Ended e)"

lemma act_rank:
  assumes "act C s t s'"
  shows "rank (tk_phase (call s' t)) < rank (tk_phase (call s t))"
  using assms by cases (auto simp: at_def edit_def goes_def with_ledger_def with_recon_def)

lemma waits_rank: "waits_at ph \<Longrightarrow> 3 < rank ph"
  by (cases ph) (auto simp: waits_at_def)

lemma mishap_rank:
  assumes "mishap C s t s'"
  shows "rank (tk_phase (call s' t)) < rank (tk_phase (call s t))"
  using assms
proof cases
  case (dropped ph)
  with waits_rank[of ph] show ?thesis by (auto simp: at_def edit_def goes_def)
qed (auto simp: at_def edit_def goes_def)

lemma sum_list_update_less: "t < length xs \<Longrightarrow> f x < f (xs ! t) \<Longrightarrow> sum_list (map f (xs[t := x])) < (sum_list (map f xs) :: nat)"
proof (induction xs arbitrary: t)
  case (Cons y xs)
  then show ?case by (cases t) auto
qed simp

lemma step_left:
  assumes "act C s t s' \<or> mishap C s t s'"
  shows "steps_left s' < steps_left s"
proof -
  have "stepped C s t s'" "rank (tk_phase (call s' t)) < rank (tk_phase (call s t))"
    using assms act_stepped mishap_stepped act_rank mishap_rank by blast+
  then show ?thesis using sum_list_update_less[of t "rn_calls s" "rank \<circ> tk_phase" "call s' t"] by (simp add: stepped_def steps_left_def)
qed

lemma settle_total: "\<exists>l. settle_hold c r clock h L = Inr ((), l)"
  by (simp add: settle_hold_def release_credits_def reconcile_credits_def Let_def split: prod.split)

lemma release_total: "\<exists>l. release_credits clock h L = Inr ((), l)"
  by (simp add: release_credits_def)

lemma can_step:
  assumes t: "t < length (rn_calls s)" and "\<forall>e. tk_phase (call s t) \<noteq> Ended e"
    and "\<forall>l. tk_phase (call s t) = Following l \<longrightarrow> tk_tx (call s l) \<noteq> None \<and> tk_tx (call s l) \<noteq> Some Open"
    and "tk_phase (call s t) = Queued \<longrightarrow> 0 < rn_permits s"
  shows "\<exists>s'. act C s t s'"
proof -
  have at: "tk_phase (call s t) = ph \<Longrightarrow> at s t ph" for ph using t by (simp add: at_def)
  show ?thesis
  proof (cases "tk_phase (call s t)")
    case Starting
    from act.starts[OF at[OF Starting]] act.start_cancelled[OF at[OF Starting]] act.start_unknown[OF at[OF Starting]] show ?thesis by blast
  next
    case Looking
    from act.cache_miss[OF at[OF Looking]] show ?thesis by blast
  next
    case Joining
    from act.leads[OF at[OF Joining]] act.follows[OF at[OF Joining]] show ?thesis by (cases "rn_inflight s (call_key C (call s t))") blast+
  next
    case (Following l)
    with assms(3) have "tk_tx (call s l) = Some Closed \<or> (\<exists>r. tk_tx (call s l) = Some (Sent r))"
      by (cases "tk_tx (call s l)") (auto, metis chan.exhaust)
    with act.follow_answered[OF at[OF Following]] act.falls_back[OF at[OF Following]] show ?thesis by blast
  next
    case Checking
    from act.check_refused[OF at[OF Checking]] show ?thesis by blast
  next
    case Reserving
    from act.free_call[OF at[OF Reserving]] act.reserve_refused[OF at[OF Reserving]] show ?thesis by blast
  next
    case Refusing
    from act.refuse_refused[OF at[OF Refusing]] show ?thesis by blast
  next
    case Queued
    with act.permitted[OF at[OF Queued]] assms(4) show ?thesis by blast
  next
    case Sending
    from act.sends[OF at[OF Sending]] show ?thesis by blast
  next
    case Running
    from act.fails[OF at[OF Running]] show ?thesis by blast
  next
    case (Settling r late)
    from act.settles[OF at[OF Settling]] act.settles_nothing[OF at[OF Settling]] settle_total show ?thesis
      by (cases "tk_hold (call s t)") blast+
  next
    case (Caching r late)
    from act.caches_nothing[OF at[OF Caching]] show ?thesis by blast
  next
    case (Counting r)
    from act.counts_nothing[OF at[OF Counting]] show ?thesis by blast
  next
    case (Telling r)
    from act.tells[OF at[OF Telling]] show ?thesis by blast
  next
    case (Releasing why)
    from act.releases[OF at[OF Releasing]] act.releases_nothing[OF at[OF Releasing]] release_total show ?thesis
      by (cases "tk_hold (call s t)") blast+
  next
    case (Leaving e)
    from act.leaves[OF at[OF Leaving]] show ?thesis by blast
  next
    case (Unlisting e)
    from act.unlists[OF at[OF Unlisting]] show ?thesis by blast
  next
    case (Closing e)
    from act.closes[OF at[OF Closing]] show ?thesis by blast
  next
    case (Ended e)
    with assms(2) show ?thesis by simp
  qed
qed

lemma never_stuck:
  assumes inv: "runner_inv C s" and "\<not> all_ended s"
  shows "\<exists>t s'. act C s t s'"
proof -
  have ok: "call_ok (call s t)" if "t < length (rn_calls s)" for t using inv that by (simp add: runner_inv_def)
  have queued: "\<exists>t s'. act C s t s'" if t: "t < length (rn_calls s)" "tk_phase (call s t) = Queued" for t
  proof (cases "rn_permits s")
    case 0
    with inv have "filter tk_permit (rn_calls s) \<noteq> []" by (auto simp: runner_inv_def MAX_CONCURRENCY_def)
    then obtain u where u: "u < length (rn_calls s)" "tk_permit (call s u)" by (auto simp: filter_empty_conv in_set_conv_nth)
    with ok[OF u(1)] have "(\<forall>e. tk_phase (call s u) \<noteq> Ended e) \<and> (\<forall>l. tk_phase (call s u) \<noteq> Following l) \<and> tk_phase (call s u) \<noteq> Queued"
      by (auto simp: call_ok_def)
    with can_step[OF u(1)] show ?thesis by blast
  next
    case (Suc n)
    with can_step[OF t(1)] t(2) show ?thesis by fastforce
  qed
  have open_leader: "\<exists>t s'. act C s t s'" if l: "l < length (rn_calls s)" "tk_tx (call s l) = Some Open" for l
  proof (cases "tk_phase (call s l) = Queued")
    case False
    from l ok[OF l(1)] have "(\<forall>e. tk_phase (call s l) \<noteq> Ended e) \<and> (\<forall>j. tk_phase (call s l) \<noteq> Following j)" by (auto simp: call_ok_def)
    with can_step[OF l(1)] False show ?thesis by blast
  qed (use queued l in blast)
  from assms(2) obtain t where t: "t < length (rn_calls s)" "\<forall>e. tk_phase (call s t) \<noteq> Ended e"
    by (auto simp: all_ended_def in_set_conv_nth)
  show ?thesis
  proof (cases "\<exists>l. tk_phase (call s t) = Following l \<and> tk_tx (call s l) = Some Open")
    case True
    then obtain l where l: "tk_phase (call s t) = Following l" "tk_tx (call s l) = Some Open" by blast
    with inv t have "l < length (rn_calls s)" by (auto simp: runner_inv_def follow_ok_def at_def)
    with open_leader l show ?thesis by blast
  next
    case False
    have "\<forall>l. tk_phase (call s t) = Following l \<longrightarrow> tk_tx (call s l) \<noteq> None" using inv t(1) by (auto simp: runner_inv_def follow_ok_def at_def)
    with False can_step[OF t] queued t(1) show ?thesis by blast
  qed
qed

lemma rank_le: "rank ph \<le> 18" by (cases ph) auto

lemma all_end:
  assumes "runner_inv C s"
  shows "\<exists>s'. run_of (\<lambda>s s'. \<exists>t. act C s t s') s s' \<and> all_ended s' \<and> length (rn_calls s') = length (rn_calls s)"
  using assms
proof (induction "steps_left s" arbitrary: s rule: less_induct)
  case less
  show ?case
  proof (cases "all_ended s")
    case False
    from never_stuck[OF less.prems this] obtain t s1 where a: "act C s t s1" by blast
    note st = act_stepped[OF a]
    have "length (rn_calls s1) = length (rn_calls s)" using st unfolding stepped_def by (metis length_list_update)
    with less.hyps[OF _ stepped_inv[OF less.prems st]] step_left a obtain s' where
      "run_of (\<lambda>s s'. \<exists>t. act C s t s') s1 s'" "all_ended s'" "length (rn_calls s') = length (rn_calls s)" by metis
    moreover have "run_of (\<lambda>s s'. \<exists>t. act C s t s') s s1" using a by blast
    ultimately show ?thesis using run_trans by metis
  qed blast
qed

text \<open>C38: no call is left waiting: in every state the runner reaches some call can go on as long as one has
  not ended, each step of a call is one of at most eighteen, and the calls can all end.\<close>

theorem every_call_ends:
  assumes "runner_start s0" and "run_of (runner_step C) s0 s"
  shows "(all_ended s \<or> (\<exists>t s'. act C s t s')) \<and> steps_left s \<le> 18 * length (rn_calls s)
    \<and> (\<forall>t s'. act C s t s' \<or> mishap C s t s' \<longrightarrow> steps_left s' < steps_left s)
    \<and> (\<exists>s'. run_of (\<lambda>s s'. \<exists>t. act C s t s') s s' \<and> all_ended s' \<and> length (rn_calls s') = length (rn_calls s))"
proof -
  note inv = runner.inv_reachable[OF assms]
  have "sum_list (map (rank \<circ> tk_phase) xs) \<le> 18 * length xs" for xs
  proof (induction xs)
    case (Cons x xs)
    with rank_le[of "tk_phase x"] show ?case by simp
  qed simp
  with never_stuck[OF inv] all_end[OF inv] step_left show ?thesis unfolding steps_left_def by blast
qed

theorem every_call_ends_witness:
  "\<exists>s'. run_of (\<lambda>s s'. \<exists>t. act demo_runner s t s') (runs [lookup False Checking (Some Open) None False] (Some 0) 4 no_ledger) s' \<and> all_ended s'"
  using every_call_ends[OF runs_start lookup_leads] by blast

end
