(* ===== verification/Runner_Ledger.thy ===== *)
theory Runner_Ledger
  imports Runner_Slots
begin

text \<open>
  The credit holds of the calls of the tool runner: while a call runs its hold is open, and once it has ended
  the hold is closed the way its result asks for.
\<close>

section \<open>The holds of the calls\<close>

fun holding :: "phase \<Rightarrow> bool" where
  "holding Queued = True" | "holding Sending = True" | "holding Running = True" | "holding (Settling r late) = True"
| "holding (Releasing why) = True" | "holding _ = False"

text \<open>
  How the hold of a call is closed by its result, and in each phase after that. A call that was dropped after
  its hold was settled leaves no result to tell which.
\<close>

definition closed_by :: "call_state \<Rightarrow> ending \<Rightarrow> string list" where
  "closed_by c e = (case e of Answered r \<Rightarrow> [if charged c r then ''spent'' else ''released'']
     | Failed_Call _ \<Rightarrow> [''released''] | Dropped \<Rightarrow> [''spent'', ''released''])"

fun closed_as :: "call_state \<Rightarrow> phase \<Rightarrow> string list" where
  "closed_as c (Caching r late) = closed_by c (Answered r)"
| "closed_as c (Counting r) = closed_by c (Answered r)"
| "closed_as c (Telling r) = closed_by c (Answered r)"
| "closed_as c (Leaving e) = closed_by c e"
| "closed_as c (Unlisting e) = closed_by c e"
| "closed_as c (Closing e) = closed_by c e"
| "closed_as c (Ended e) = closed_by c e"
| "closed_as c _ = []"

text \<open>
  The calls that lost their hold: a mishap hit them after the hold was taken and before it was settled. The
  steps of the runner with the set of these calls.
\<close>

definition loses :: "runner \<Rightarrow> nat \<Rightarrow> bool" where
  "loses s t \<longleftrightarrow> tk_hold (call s t) \<noteq> None \<and> holding (tk_phase (call s t))"

inductive traced :: "runner_env \<Rightarrow> runner \<times> nat set \<Rightarrow> runner \<times> nat set \<Rightarrow> bool" for C where
  goes_well: "calm_step C s s' \<Longrightarrow> traced C (s, lost) (s', lost)"
| goes_wrong: "mishap C s t s' \<Longrightarrow> traced C (s, lost) (s', if loses s t then insert t lost else lost)"

lemma runs_traced: "run_of (runner_step C) s0 s \<Longrightarrow> \<exists>lost. run_of (traced C) (s0, {}) (s, lost)"
proof (induction rule: run_of.induct)
  case (run_step s t u)
  then obtain lost where r: "run_of (traced C) (s, {}) (t, lost)" by blast
  from run_step.hyps(2) consider "calm_step C t u" | i where "mishap C t i u" by (auto simp: runner_step_def calm_step_def)
  then show ?case
  proof cases
    case 1
    from run_of.run_step[OF r goes_well[OF this]] show ?thesis by blast
  next
    case 2
    from run_of.run_step[OF r goes_wrong[OF this]] show ?thesis by blast
  qed
qed blast

definition hold_kept :: "ledger \<Rightarrow> bool \<Rightarrow> call_state \<Rightarrow> bool" where
  "hold_kept L lost c \<longleftrightarrow> (case tk_hold c of None \<Rightarrow> \<not> lost | Some h \<Rightarrow> h_id h \<noteq> [] \<and>
     (if holding (tk_phase c) then \<not> lost \<and> hold_matches L h \<and> is_held L (h_id h)
      else \<exists>r. row (reservations L) (h_id h) = Some r \<and> rv_state r \<in> set (if lost then [''held''] else closed_as c (tk_phase c))))"

definition book_ok :: "runner \<times> nat set \<Rightarrow> bool" where
  "book_ok x \<longleftrightarrow> (case x of (s, lost) \<Rightarrow> ledger_ok (credit s) \<and> (\<forall>t \<in> lost. t < length (rn_calls s))
     \<and> (\<forall>t < length (rn_calls s). hold_kept (credit s) (t \<in> lost) (call s t))
     \<and> (\<forall>t < length (rn_calls s). \<forall>u < length (rn_calls s). \<forall>h g. t \<noteq> u \<longrightarrow> tk_hold (call s t) = Some h \<longrightarrow> tk_hold (call s u) = Some g
          \<longrightarrow> h_id h \<noteq> h_id g))"

lemma hold_kept_cong:
  assumes "hold_kept L lost c" and "\<And>h. tk_hold c = Some h \<Longrightarrow> row (reservations L') (h_id h) = row (reservations L) (h_id h)"
  shows "hold_kept L' lost c"
proof (cases "tk_hold c")
  case (Some h)
  with assms show ?thesis by (cases "holding (tk_phase c)") (simp_all add: hold_kept_def hold_matches_def is_held_def)
qed (use assms(1) in \<open>simp add: hold_kept_def\<close>)

lemma hold_kept_row: "hold_kept L lost c \<Longrightarrow> tk_hold c = Some h \<Longrightarrow> row (reservations L) (h_id h) \<noteq> None"
  by (auto simp: hold_kept_def hold_matches_def split: if_splits)

text \<open>One call changes, and of the reservations only its own.\<close>

lemma book_update:
  assumes b: "book_ok (s, lost)" and t: "t < length (rn_calls s)" and upd: "rn_calls s' = (rn_calls s)[t := c']"
    and L: "ledger_ok (credit s')" and lost: "lost' = lost \<or> lost' = insert t lost" and kept: "hold_kept (credit s') (t \<in> lost') c'"
    and own: "tk_hold c' = tk_hold (call s t) \<or> (\<exists>h. tk_hold c' = Some h \<and> row (reservations (credit s)) (h_id h) = None)"
    and frame: "\<And>i. row (reservations (credit s)) i \<noteq> None \<Longrightarrow> \<forall>h. tk_hold c' = Some h \<longrightarrow> i \<noteq> h_id h
      \<Longrightarrow> row (reservations (credit s')) i = row (reservations (credit s)) i"
  shows "book_ok (s', lost')"
proof -
  have len: "length (rn_calls s') = length (rn_calls s)" and at_t: "call s' t = c'" and oth: "\<And>j. j \<noteq> t \<Longrightarrow> call s' j = call s j"
    using t upd by simp_all
  have k: "hold_kept (credit s) (j \<in> lost) (call s j)" if "j < length (rn_calls s)" for j using b that by (simp add: book_ok_def)
  have ne: "h_id g \<noteq> h_id h" if "j < length (rn_calls s)" "j \<noteq> t" "tk_hold (call s j) = Some g" "tk_hold c' = Some h" for j g h
  proof -
    have "tk_hold (call s t) = Some h \<or> row (reservations (credit s)) (h_id h) = None" using own that(4) by auto
    then show ?thesis
    proof
      assume "tk_hold (call s t) = Some h"
      with b that t show ?thesis by (auto simp: book_ok_def)
    next
      assume "row (reservations (credit s)) (h_id h) = None"
      with hold_kept_row[OF k[OF that(1)] that(3)] show ?thesis by auto
    qed
  qed
  have kept_all: "hold_kept (credit s') (j \<in> lost') (call s' j)" if j: "j < length (rn_calls s)" for j
  proof (cases "j = t")
    case False
    have "hold_kept (credit s') (j \<in> lost) (call s j)"
    proof (rule hold_kept_cong[OF k[OF j]])
      fix g assume g: "tk_hold (call s j) = Some g"
      have "\<forall>h. tk_hold c' = Some h \<longrightarrow> h_id g \<noteq> h_id h" using ne[OF j False g] by blast
      from frame[OF hold_kept_row[OF k[OF j] g] this] show "row (reservations (credit s')) (h_id g) = row (reservations (credit s)) (h_id g)" .
    qed
    moreover have "j \<in> lost' \<longleftrightarrow> j \<in> lost" using lost False by auto
    ultimately show ?thesis by (simp only: oth[OF False])
  qed (simp only: kept at_t)
  have apart: "h_id h \<noteq> h_id g" if ij: "i < length (rn_calls s)" "j < length (rn_calls s)" "i \<noteq> j"
    and h: "tk_hold (call s' i) = Some h" and g: "tk_hold (call s' j) = Some g" for i j h g
  proof (cases "i = t")
    case True
    with ij(3) oth[of j] at_t h g ne[of j g h] ij(2) show ?thesis by metis
  next
    case False
    show ?thesis
    proof (cases "j = t")
      case True
      with False oth[of i] at_t h g ne[of i h g] ij(1) show ?thesis by metis
    next
      case j: False
      with False oth h g have "tk_hold (call s i) = Some h" "tk_hold (call s j) = Some g" by simp_all
      with b ij show ?thesis unfolding book_ok_def by blast
    qed
  qed
  have "\<forall>i \<in> lost'. i < length (rn_calls s')" using b lost t len by (auto simp: book_ok_def)
  with L kept_all apart len show ?thesis unfolding book_ok_def by (simp only: prod.case) blast
qed

text \<open>A step that leaves the ledger and the holds alone.\<close>

lemma closed_as_same: "same_args c c' \<Longrightarrow> closed_as c' ph = closed_as c ph"
  by (cases ph) (simp_all add: same_args_def closed_by_def charged_def canonical_def split: ending.split)

lemma book_quiet:
  assumes b: "book_ok (s, lost)" and st: "stepped C s t s'" and same: "credit s' = credit s" "tk_hold (call s' t) = tk_hold (call s t)"
    and ph: "tk_hold (call s t) = None \<or> holding (tk_phase (call s' t)) = holding (tk_phase (call s t))
      \<and> (holding (tk_phase (call s t)) \<or> set (closed_as (call s t) (tk_phase (call s t))) \<subseteq> set (closed_as (call s t) (tk_phase (call s' t))))"
  shows "book_ok (s', lost)"
proof (rule book_update[OF b])
  show "t < length (rn_calls s)" "rn_calls s' = (rn_calls s)[t := call s' t]" using st by (simp_all add: stepped_def)
  then have "hold_kept (credit s) (t \<in> lost) (call s t)" using b by (simp add: book_ok_def)
  moreover have "same_args (call s t) (call s' t)" using st by (simp add: stepped_def)
  ultimately show "hold_kept (credit s') (t \<in> lost) (call s' t)"
    using same ph closed_as_same unfolding hold_kept_def by (fastforce split: option.splits if_splits)
qed (use b same in \<open>auto simp: book_ok_def\<close>)

text \<open>A mishap that hits an open hold: the hold stays as it is, and the call goes on without it.\<close>

lemma book_lost:
  assumes b: "book_ok (s, lost)" and st: "stepped C s t s'" and same: "credit s' = credit s" "tk_hold (call s' t) = tk_hold (call s t)"
    and ph: "loses s t" "\<not> holding (tk_phase (call s' t))"
  shows "book_ok (s', insert t lost)"
proof (rule book_update[OF b])
  show "t < length (rn_calls s)" "rn_calls s' = (rn_calls s)[t := call s' t]" using st by (simp_all add: stepped_def)
  then have "hold_kept (credit s) (t \<in> lost) (call s t)" using b by (simp add: book_ok_def)
  with same ph show "hold_kept (credit s') (t \<in> insert t lost) (call s' t)"
    by (auto simp: hold_kept_def loses_def is_held_def split: option.splits)
qed (use b same in \<open>auto simp: book_ok_def\<close>)

lemma call_goes: "t < length (rn_calls s) \<Longrightarrow> call (edit t f s) t = f (call s t)"
  by (simp add: edit_def)

lemma reserve_none: "reserve_credits l clock i p cost d = Inr (None, d') \<Longrightarrow> d' = snd (touch_in l p clock d)"
  by (auto simp: reserve_credits_def Let_def split: if_splits option.splits prod.splits)

lemma reserve_some_new: "reserve_credits l clock i p cost d = Inr (Some h, d') \<Longrightarrow> cost \<noteq> 0 \<Longrightarrow> row (reservations d) i = None"
  by (auto simp: reserve_credits_def touch_in_def Let_def split: if_splits option.splits prod.splits)

lemma reserve_granted:
  assumes ok: "ledger_ok d" and cost: "0 < cost" "cost \<le> u32_max" and i: "i \<noteq> []" and r: "reserve_credits l clock i p cost d = Inr (Some h, d')"
  shows "ledger_ok d' \<and> hold_matches d' h \<and> is_held d' i \<and> h_id h = i \<and> row (reservations d) i = None
    \<and> (\<forall>j. j \<noteq> i \<longrightarrow> row (reservations d') j = row (reservations d) j)"
proof -
  have new: "row (reservations d) i = None" using reserve_some_new[OF r] cost by simp
  obtain r' d'' where x: "reserve_credits l clock i p cost d = Inr (r', d'')" "ledger_ok d''" "\<forall>h. r' = Some h \<longrightarrow> hold_matches d'' h \<and> is_held d'' i"
    using reserve_contract[OF ok cost new i, of l clock p] by blast
  from x(1) r have "r' = Some h" "d'' = d'" by simp_all
  with x new reserve_id[OF r] reserve_frame[OF r] cost show ?thesis by simp
qed

lemma touch_book: "ledger_ok d \<Longrightarrow> d' = snd (touch_in l p clock d) \<Longrightarrow> ledger_ok d' \<and> reservations d' = reservations d"
  using touch_in_ok[of d l p clock] by (metis prod.collapse)

lemma act_book:
  assumes a: "act C s t s'" and b: "book_ok (s, lost)" and ok: "\<forall>c \<in> set (rn_calls s). call_ok c"
  shows "book_ok (s', lost)"
proof -
  note quiet = book_quiet[OF b act_stepped[OF a]]
  have no_hold: "tk_hold (call s t) = None" "t \<notin> lost" if "t < length (rn_calls s)" "tk_phase (call s t) = ph"
    "ph = Looking \<or> ph = Reserving \<or> ph = Refusing \<or> ph = Checking \<or> (\<exists>l. ph = Following l)" for ph
  proof -
    have "call_ok (call s t)" using ok that(1) by simp
    with that(2,3) show none: "tk_hold (call s t) = None" by (auto simp: call_ok_def)
    with b that(1) show "t \<notin> lost" by (auto simp: book_ok_def hold_kept_def)
  qed
  show ?thesis using a
proof cases
  case (reserves p cost i clock h l)
  have c: "0 < unat cost" "unat cost \<le> u32_max" using reserves(5) unsigned_less[of cost, where ?'a = nat] by (auto simp: u32_max_def unat_gt_0)
  have L: "ledger_ok (credit s)" using b by (simp add: book_ok_def)
  note g = reserve_granted[OF L c reserves(6,7)]
  show ?thesis
    by (rule book_update[OF b]) (use reserves g no_hold in \<open>auto simp: at_def edit_def goes_def with_ledger_def hold_kept_def\<close>)
next
  case (exhausted p cost i clock l)
  have L: "ledger_ok (credit s)" using b by (simp add: book_ok_def)
  note l = touch_book[OF L reserve_none[OF exhausted(7)]]
  show ?thesis
    by (rule book_update[OF b]) (use exhausted l no_hold in \<open>auto simp: at_def edit_def goes_def with_ledger_def hold_kept_def\<close>)
next
  case (refuses p cost clock n l)
  have L: "ledger_ok (credit s)" using b by (simp add: book_ok_def)
  have "l = snd (touch_in (re_limits C) p clock (credit s))" using refuses(4) by (auto simp: credits_available_def Let_def split: prod.splits)
  note l = touch_book[OF L this]
  show ?thesis
    by (rule book_update[OF b]) (use refuses l no_hold in \<open>auto simp: at_def edit_def goes_def with_ledger_def hold_kept_def\<close>)
next
  case (releases why h clock l)
  have L: "ledger_ok (credit s)" "hold_kept (credit s) (t \<in> lost) (call s t)" using b releases by (auto simp: book_ok_def at_def)
  with releases have h: "t \<notin> lost" "h_id h \<noteq> []" "hold_matches (credit s) h" "is_held (credit s) (h_id h)" by (auto simp: hold_kept_def at_def)
  from close_hold_frame(1)[OF L(1) h(3,4), of clock] closed_state(1)[OF h(4,2) releases(4)] releases(4) show ?thesis
    by (intro book_update[OF b]) (use releases h in \<open>auto simp: at_def edit_def goes_def with_ledger_def hold_kept_def closed_by_def\<close>)
next
  case (settles r late h clock l)
  have L: "ledger_ok (credit s)" "hold_kept (credit s) (t \<in> lost) (call s t)" using b settles by (auto simp: book_ok_def at_def)
  with settles have h: "t \<notin> lost" "h_id h \<noteq> []" "hold_matches (credit s) h" "is_held (credit s) (h_id h)" by (auto simp: hold_kept_def at_def)
  have l: "ledger_ok l" "\<forall>i. i \<noteq> h_id h \<longrightarrow> row (reservations l) i = row (reservations (credit s)) i"
    "\<exists>x. row (reservations l) (h_id h) = Some x \<and> rv_state x = (if charged (call s t) r then ''spent'' else ''released'')"
    using settles(4) close_hold_frame[OF L(1) h(3,4), of clock] closed_state[OF h(4,2), of clock]
    by (cases "charged (call s t) r"; simp add: settle_hold_def; metis Inr_inject prod.inject)+
  show ?thesis
    by (intro book_update[OF b]) (use settles l h in \<open>auto simp: at_def edit_def goes_def with_ledger_def hold_kept_def closed_by_def charged_def canonical_def\<close>)
next
  case free_call
  then show ?thesis by (intro quiet) (simp_all add: no_hold at_def edit_def goes_def)
next
  case cache_hit
  then show ?thesis by (intro quiet) (simp_all add: no_hold at_def edit_def goes_def)
next
  case follow_answered
  then show ?thesis by (intro quiet) (simp_all add: no_hold at_def edit_def goes_def)
qed (rule quiet; simp add: at_def edit_def goes_def with_recon_def closed_by_def)+
qed

lemma mishap_book:
  assumes m: "mishap C s t s'" and b: "book_ok (s, lost)" and ok: "\<forall>c \<in> set (rn_calls s). call_ok c"
  shows "book_ok (s', if loses s t then insert t lost else lost)"
proof -
  note st = mishap_stepped[OF m]
  have same: "credit s' = credit s" "tk_hold (call s' t) = tk_hold (call s t)" "\<not> holding (tk_phase (call s' t))"
    using m by (auto elim!: mishap.cases simp: at_def edit_def goes_def)
  show ?thesis
  proof (cases "loses s t")
    case True
    with book_lost[OF b st same(1,2) _ same(3)] show ?thesis by simp
  next
    case False
    then have "tk_hold (call s t) = None \<or> \<not> holding (tk_phase (call s t))
        \<and> set (closed_as (call s t) (tk_phase (call s t))) \<subseteq> set (closed_as (call s t) (tk_phase (call s' t)))"
      using m by (auto elim!: mishap.cases simp: loses_def at_def edit_def goes_def waits_at_def closed_by_def split: phase.splits)
    with book_quiet[OF b st same(1,2)] same(3) False show ?thesis by auto
  qed
qed

lemma around_book:
  assumes b: "book_ok (s, lost)" and "around s s'"
  shows "book_ok (s', lost)"
  using assms(2)
proof cases
  case (calls tool inputs refresh reserve cancelled)
  let ?new = "new_call tool inputs refresh reserve cancelled" and ?n = "length (rn_calls s)"
  have new: "tk_hold ?new = None" "?n \<notin> lost" using b by (auto simp: new_call_def book_ok_def)
  then have "\<forall>t < length (rn_calls s'). hold_kept (credit s') (t \<in> lost) (call s' t)"
    using b calls by (auto simp: book_ok_def nth_append hold_kept_def less_Suc_eq)
  moreover have "h_id h \<noteq> h_id g" if tu: "t < length (rn_calls s')" "u < length (rn_calls s')" "t \<noteq> u"
    and h: "tk_hold (call s' t) = Some h" and g: "tk_hold (call s' u) = Some g" for t u h g
  proof -
    have "t \<noteq> ?n" "u \<noteq> ?n" using h g new calls by auto
    with tu(1,2) calls have "t < ?n" "u < ?n" by simp_all
    moreover from this h g calls have "tk_hold (call s t) = Some h" "tk_hold (call s u) = Some g" by (simp_all add: nth_append)
    ultimately show ?thesis using b tu(3) unfolding book_ok_def by blast
  qed
  moreover have "\<forall>t \<in> lost. t < length (rn_calls s')" using b calls by (auto simp: book_ok_def)
  moreover have "ledger_ok (credit s')" using b calls by (simp add: book_ok_def)
  ultimately show ?thesis unfolding book_ok_def by (simp only: prod.case) blast
next
  case (cancels t)
  let ?c = "tk_cancelled_update (\<lambda>_. True) (call s t)"
  have "closed_as ?c ph = closed_as (call s t) ph" for ph
    by (cases ph) (simp_all add: closed_by_def charged_def canonical_def split: ending.split)
  moreover have "hold_kept (credit s) (t \<in> lost) (call s t)" using b cancels by (simp add: book_ok_def)
  ultimately have "hold_kept (credit s) (t \<in> lost) ?c"
    by (auto simp: hold_kept_def split: option.splits if_splits)
  then show ?thesis
    by (intro book_update[OF b cancels(2), where c' = ?c]) (use cancels b in \<open>auto simp: edit_def book_ok_def\<close>)
next
  case (others d q)
  have "hold_kept (td_ledger d) (t \<in> lost) (call s t)" if t: "t < length (rn_calls s)" for t
  proof (rule hold_kept_cong)
    show "hold_kept (credit s) (t \<in> lost) (call s t)" using b t by (simp add: book_ok_def)
    show "row (reservations (td_ledger d)) (h_id h) = row (reservations (credit s)) (h_id h)" if "tk_hold (call s t) = Some h" for h
      using others(2) nth_mem[OF t] that by (force simp: leaves_holds_def)
  qed
  with others b show ?thesis by (simp add: book_ok_def leaves_holds_def)
qed

interpretation book: step_system "\<lambda>x. runner_start (fst x) \<and> snd x = {}" "traced C" "\<lambda>x. runner_inv C (fst x) \<and> book_ok x" for C
proof unfold_locales
  show "runner_inv C (fst x) \<and> book_ok x" if "runner_start (fst x) \<and> snd x = {}" for x
    using runner.inv_start[of "fst x" C] that by (cases x) (auto simp: runner_start_def book_ok_def)
  show "runner_inv C (fst y) \<and> book_ok y" if inv: "runner_inv C (fst x) \<and> book_ok x" and "traced C x y" for x y
    using that(2)
  proof cases
    case (goes_well s s' lost)
    with inv have i: "runner_inv C s" "book_ok (s, lost)" by simp_all
    then have ok: "\<forall>c \<in> set (rn_calls s). call_ok c" by (simp add: runner_inv_def)
    from goes_well(3) consider t where "act C s t s'" | "around s s'" by (auto simp: calm_step_def)
    then have "runner_inv C s' \<and> book_ok (s', lost)"
    proof cases
      case 1
      from stepped_inv[OF i(1) act_stepped[OF 1]] act_book[OF 1 i(2) ok] show ?thesis ..
    next
      case 2
      from around_inv[OF i(1) 2] around_book[OF i(2) 2] show ?thesis ..
    qed
    with goes_well show ?thesis by simp
  next
    case (goes_wrong s t s' lost)
    with inv have i: "runner_inv C s" "book_ok (s, lost)" by simp_all
    then have ok: "\<forall>c \<in> set (rn_calls s). call_ok c" by (simp add: runner_inv_def)
    from stepped_inv[OF i(1) mishap_stepped[OF goes_wrong(3)]] mishap_book[OF goes_wrong(3) i(2) ok] goes_wrong(1,2) show ?thesis by simp
  qed
qed

text \<open>C40: what becomes of the hold of a tool call that has ended, whatever runs at the same time and whatever
  goes wrong. If no mishap hit the call between taking the hold and settling it, the hold is closed: charged
  when the call spent credits, given back otherwise (a call whose future was dropped after its settlement
  has it closed either way). If one did (the store refused the settlement, which the code ignores; the
  executor could not be built; the future of the call was dropped), the hold stays open: no later step of
  the runner closes it. Others may commit what they like but leave the reservations of these calls alone.\<close>

theorem ended_hold_closed:
  assumes "runner_start s0" and "run_of (traced C) (s0, {}) (s, lost)" and "t < length (rn_calls s)"
    and "tk_phase (call s t) = Ended e" and "tk_hold (call s t) = Some h"
  shows "ledger_ok (credit s) \<and> (\<exists>r. row (reservations (credit s)) (h_id h) = Some r
    \<and> (if t \<in> lost then rv_state r = ''held''
       else case e of Answered a \<Rightarrow> rv_state r = (if charged (call s t) a then ''spent'' else ''released'')
         | Failed_Call _ \<Rightarrow> rv_state r = ''released'' | Dropped \<Rightarrow> rv_state r \<in> set [''spent'', ''released'']))"
proof -
  from book.inv_reachable[OF _ assms(2)] assms(1,3) have "ledger_ok (credit s)" "hold_kept (credit s) (t \<in> lost) (call s t)"
    by (simp_all add: book_ok_def)
  with assms(4,5) show ?thesis by (auto simp: hold_kept_def closed_by_def split: ending.splits)
qed

lemma calm_traced: "run_of (calm_step C) s0 s \<Longrightarrow> run_of (traced C) (s0, {}) (s, {})"
  by (induction rule: run_of.induct) (blast intro: goes_well)+

theorem ended_hold_closed_witness:
  "\<exists>r. row (reservations (credit (runs [lookup True (Ended (Answered demo_answer)) (Some (Sent demo_answer)) (Some (one ''i'' ''whoxy'')) False] None 4
      (one_hold ''i'' ''whoxy'' ''spent'')))) ''i'' = Some r \<and> rv_state r = ''spent''"
proof -
  let ?c = "lookup True (Ended (Answered demo_answer)) (Some (Sent demo_answer)) (Some (one ''i'' ''whoxy'')) False"
  have "charged ?c demo_answer" by (simp add: charged_def demo_answer_def)
  with ended_hold_closed[OF runs_start calm_traced[OF lookup_paid], of 0 "Answered demo_answer" "one ''i'' ''whoxy''"] show ?thesis
    by (simp add: runs_def)
qed

text \<open>A call that may send its request but cannot build the executor ends with the ledger untouched: its hold is lost.\<close>

lemma leaving_ends:
  assumes "at s t (Leaving e)"
  obtains s' where "run_of (runner_step C) s s'" "at s' t (Ended e)" "credit s' = credit s"
    "tk_hold (call s' t) = tk_hold (call s t)"
proof -
  note leave = act.leaves[where C = C, OF assms]
  have "\<exists>s1. act C s t s1 \<and> at s1 t (Unlisting e) \<and> credit s1 = credit s \<and> tk_hold (call s1 t) = tk_hold (call s t)"
    by (rule exI, rule conjI, rule leave) (use assms in \<open>simp add: at_def edit_def goes_def\<close>)
  then obtain s1 where 1: "act C s t s1" "at s1 t (Unlisting e)" "credit s1 = credit s" "tk_hold (call s1 t) = tk_hold (call s t)" by blast
  have "\<exists>s2. act C s1 t s2 \<and> at s2 t (Closing e) \<and> credit s2 = credit s1 \<and> tk_hold (call s2 t) = tk_hold (call s1 t)"
    by (rule exI, rule conjI, rule act.unlists[OF 1(2)]) (use 1(2) in \<open>simp add: at_def edit_def goes_def\<close>)
  then obtain s2 where 2: "act C s1 t s2" "at s2 t (Closing e)" "credit s2 = credit s1" "tk_hold (call s2 t) = tk_hold (call s1 t)" by blast
  have "\<exists>s3. act C s2 t s3 \<and> at s3 t (Ended e) \<and> credit s3 = credit s2 \<and> tk_hold (call s3 t) = tk_hold (call s2 t)"
    by (rule exI, rule conjI, rule act.closes[OF 2(2)]) (use 2(2) in \<open>simp add: at_def edit_def goes_def\<close>)
  then obtain s3 where 3: "act C s2 t s3" "at s3 t (Ended e)" "credit s3 = credit s2" "tk_hold (call s3 t) = tk_hold (call s2 t)" by blast
  have step: "act C a t b \<Longrightarrow> runner_step C a b" for a b by (auto simp: runner_step_def)
  have "run_of (runner_step C) s s3"
    using 1(1) 2(1) 3(1) step by (meson run_of.run_refl run_of.run_step)
  from that[OF this 3(2)] 1 2 3 show ?thesis by simp
qed

lemma unbuilt_executor_leaks:
  assumes "at s t Sending"
  obtains s' where "run_of (runner_step C) s s'" "at s' t (Ended (Failed_Call why))" "credit s' = credit s"
    "tk_hold (call s' t) = tk_hold (call s t)"
proof -
  let ?s = "edit t (goes (Leaving (Failed_Call why))) s"
  have m: "runner_step C s ?s" using mishap.no_executor[OF assms] by (auto simp: runner_step_def)
  have at: "at ?s t (Leaving (Failed_Call why))" and same: "credit ?s = credit s" "tk_hold (call ?s t) = tk_hold (call s t)"
    using assms by (simp_all add: at_def edit_def goes_def)
  from at obtain s' where s': "run_of (runner_step C) ?s s'" "at s' t (Ended (Failed_Call why))" "credit s' = credit ?s"
    "tk_hold (call s' t) = tk_hold (call ?s t)" by (rule leaving_ends)
  have "run_of (runner_step C) s ?s" using m by (meson run_of.run_refl run_of.run_step)
  from run_trans[OF s'(1) this] s'(2-4) same that show ?thesis by simp
qed

end
