(* ===== verification/Spec2Isabelle.thy ===== *)
theory Spec2Isabelle
  imports Codec Tx Job_System Outbox Credits Job_Reopen Turn_Budget Report_Tasks Config_Commit Config_Lock Provider_Chain Admission Recon_Properties Publisher Vector_Index
    Recon_Plan Plan_Run Plan_Ledger Runner_Ledger
begin

text \<open>
  Verification of the durable execution core of Argos OSINT (crate \<open>argos-osint-core\<close>, below
  \<open>crates/argos-osint-core/src/\<close>).

  The program. Argos collects news and public records, and every long operation of it (an Intel
  brief, an Atlas collection, an index update, a Recon turn) is durable work: a job with stages
  in an embedded SurrealDB store, claimed by workers of several processes under leases, resumed
  after a crash, and shown and steered from a dashboard. The models, providers and the terminal
  interface around that core change; what must not go wrong is the core: no stage published twice
  or by a worker that lost it, no work lost, no credit spent twice, no turn without a deadline.

  The theories, each after the source files it models.

    \<^item> Prelude: tables (association lists with row updates), step systems and their reachable
      states, and the locale of records fenced by epochs, which every lease here instantiates.
    \<^item> Codec (\<open>storage/codec.rs\<close>): compound record keys, on bytes and 64-bit lengths.
    \<^item> Tx (\<open>storage/tx.rs\<close>, \<open>storage/error.rs\<close>): the transaction runner. A body is a function from the
      snapshot to an error or a value and the new state; others commit between attempts, and a
      commit may fail after it was applied. Every operation below that the code runs with
      \<open>run_tx\<close> is such a body.
    \<^item> Job_Store, Job_Claim, Job_Commit, Job_Admin, Job_Chain (\<open>storage/jobs.rs\<close>,
      \<open>storage/schema/jobs.surql\<close>, and the writers of the same tables in \<open>processes.rs\<close>,
      \<open>brief_stages.rs\<close>, \<open>summary_flush.rs\<close>, \<open>refresh_exec.rs\<close>, \<open>brain_scope.rs\<close>,
      \<open>job_registry.rs\<close>): rows and creation; shards, eligibility and the claim; the fence, stage
      commits and settling; recovery, stopping, retention and chains of runs.
    \<^item> Job_System: the job tables as one transition system, one step per committed transaction of
      any worker, and what holds in every reachable state and along every run.
    \<^item> Counters (\<open>storage/counters.rs\<close>) and Outbox (\<open>storage/outbox.rs\<close>): numbers handed out once per
      operation key, and the queue of index changes built on them.
    \<^item> Credits (\<open>storage/credits.rs\<close>): quotas of paid providers, held before a call and settled after.
    \<^item> Job_View and Job_Retry (\<open>storage/jobs_view.rs\<close>, \<open>jobs_view.rs\<close>): the dashboard's list, its
      grouped page queries against the per-row ones, and the explicit retry over jobs and outbox.
    \<^item> Job_Reopen (\<open>storage/recon_jobs.rs\<close>, \<open>storage/jobs_store.rs\<close>, \<open>job_registry.rs\<close>,
      \<open>storage/neighborhood_brief.rs\<close>, \<open>storage/insight_retry.rs\<close>, \<open>storage/refresh.rs\<close>,
      \<open>storage/brief_stages.rs\<close>): the other writers of job rows, the explicit retries among them, the
      system of all writers together, and what none of them takes back.
    \<^item> Turn_Budget (\<open>recon/budget.rs\<close>, \<open>recon/clocks.rs\<close>): the deadline of a Recon turn.
    \<^item> Report_Tasks (\<open>storage/recon_jobs.rs\<close>): Intel report jobs and the leases of their tasks, where
      each query is its own transaction and others write between the queries of one claim.

    \<^item> File_Ops, Config_Commit, Config_Lock (\<open>config_commit.rs\<close>): programs over files whose operations
      may fail or be the last one of the process; the configuration commit with its journal,
      rollback and recovery; and the lock file its writers share.
    \<^item> Provider_Chain (\<open>provider_chain.rs\<close>, \<open>provider_diag.rs\<close>): one model request over a chain of
      routes with retries, back-off and the shared ledger of a stage.
    \<^item> Admission (\<open>tasks.rs\<close>, \<open>provider_rate_limit.rs\<close>, \<open>scheduler.rs\<close>): the slots and the shared
      cooldown of an account, the pace of a provider, and which worker errors are shown.
    \<^item> Recon_Store, Recon_Exec, Recon_System, Recon_Properties (\<open>storage/recon.rs\<close>,
      \<open>storage/recon_threads.rs\<close>, \<open>storage/recon_runs.rs\<close>, \<open>storage/recon_exec.rs\<close>, and the parts of
      \<open>storage/entities.rs\<close>, \<open>storage/insight.rs\<close>, \<open>storage/pipeline_inputs.rs\<close> the deletion uses):
      threads, messages, runs, tool calls, evidence, the result cache and the answers of
      investigations, as one transition system of queries and transactions.
    \<^item> Recon_Plan, Plan_Exec, Plan_Cases, Plan_Run, Plan_Ledger (\<open>validate_plan\<close> and \<open>execute_plan\<close> of
      \<open>recon.rs\<close>, \<open>execute_budgeted\<close> and \<open>settle_holds\<close> of \<open>recon/orchestrate.rs\<close>, the prices of
      \<open>osint.rs\<close> and \<open>provider.rs\<close>): a tool plan, its check, its run wave by wave over Recon_Store,
      and the credits held for it in Credits; what holds when nobody disturbs it, and under any
      disturbance; concrete plans.
    \<^item> Tool_Runner, Runner_Cases, Runner_Slots, Runner_Ledger (\<open>recon/tool_runner.rs\<close>): the calls of
      all plans and of the manual tools, running at the same time over one list of calls in flight,
      one set of permits, the cache of Recon_Store and the ledger of Credits; it is what answers
      the calls of Plan_Exec, whose \<open>pe_run\<close> is any answer.
    \<^item> Publisher (\<open>storage/publisher.rs\<close>): the group commit of memory writes over Tx and Outbox.
    \<^item> Vector_Index (\<open>storage/vectors.rs\<close>, \<open>storage/embeddings.rs\<close>, \<open>storage/index_drain.rs\<close>): the
      vectors of memories, their rebuild, and the pass that applies the changes of Outbox to them.

  How the state corresponds. A table of the store is an association list from record id to row, in
  scan order, and a row is a record with the columns as fields; a table whose rows the code never
  addresses by id is a list. \<open>i64\<close> columns are \<open>int\<close>, \<open>u32\<close> amounts are \<open>nat\<close> with the saturating or
  checked operation written out, hashes are 64-bit words, instants are \<open>int\<close> nanoseconds. A refused
  statement (a record that exists, a violated unique index) is an \<open>Inl\<close> error and aborts the
  transaction. Text constants are the ones of the source.

  What the lemmas show. Per component: the functional behaviour of each operation on every branch
  (\<open>_contract\<close>, \<open>_exact\<close>), the invariant of its tables (\<open>reachable_tables\<close>, \<open>outbox_reachable\<close>,
  \<open>recon_tables\<close>, \<open>turn_clock_wellformed\<close>, \<open>admission_slots\<close>, \<open>runner_permits\<close>), and safety under
  interleaving: a claim writes exactly one stage that may run (\<open>claim_in_sound\<close>), claims of one stage
  never overlap, a worker that lost its claim never publishes or renews, publication happens once per
  claim and its replay is answered the same, a transcript only grows, a settled run or call stays
  settled, the same tool call never runs twice while its leader lives (\<open>same_call_once\<close>), what a stop
  and a cancelled job keep under every writer (\<open>cancelled_and_stopped_stay\<close>), and a leased report task
  is not leased again before its time (\<open>report_lease_excludes\<close>). A batch leaves no credit hold open
  unless the ledger refused to settle one (\<open>holds_settled\<close>), and a call that ended leaves its hold
  open exactly when a step that loses it happened: a settlement the ledger refused, an executor that
  could not be built, a dropped future (\<open>ended_hold_closed\<close>).
  Termination and progress: stopping a job tree ends, a request chain returns if its waits and its
  requests end, an accepted plan runs every call once, after its dependencies, and records the answer
  of the executor (\<open>plan_runs_all\<close>), every write and every tool call
  is answered (\<open>publisher_answers\<close>, \<open>every_call_ends\<close>). Equivalence: the batched enqueue is the loop of
  single ones, the group commit is one commit per write
  but for the counter of changed memories, the index pass is its changes one by one,
  the grouped page queries are the per-row subqueries, the depth-first check of a plan is acyclicity.
  Composition: bodies compose with \<open>run_tx\<close> through \<open>run_tx_atomic\<close>; the dashboard's retry is proved
  over the job tables and the outbox together, a plan over the investigation tables and the ledger.
  Where the code does not do what it says, a lemma shows it on a concrete state
  (\<open>retried_stage_unclaimable\<close>, \<open>race_two_holders\<close>, \<open>refused_link_refunds\<close>, \<open>lookup_twice\<close> and others).

  Locales. \<open>step_system\<close> (Prelude) is a transition system with an invariant; each system above is an
  interpretation of it, and its reachability lemmas are used from there. \<open>epoch_fence\<close> (Prelude) is a
  record taken over under rising epochs; job stages, under \<open>job_step\<close> and under all writers, and
  report tasks are interpretations.
  \<open>plan_frame\<close> (Plan_Ledger) is a property that others and the investigation tables do not break; the
  open holds of a batch are its interpretation, and every operation of a plan keeps them.

  Bounds and fuel. \<open>stop_loop\<close> and \<open>clear_loop\<close> take fuel because each round is a transaction of its
  own; their theorems give a fuel that is enough. \<open>visit\<close> (Recon_Plan) and \<open>plan_loop\<close> (Plan_Exec) take
  one more than the number of calls, which is enough (\<open>visit_deep_enough\<close>, \<open>plan_never_stuck\<close>).
  \<open>admit\<close> (Provider_Chain) waits as long as the environment makes it wait: it is a partial function into
  \<open>option\<close>, and \<open>chain_returns\<close> says when it returns. A claim reads one page of 64 candidates, the lease
  sweep 64 rows, orphan recovery and retention their batch sizes, a publisher batch its cap, all as
  in the source.

  Parameters, for code that is not in the repository's own logic or that only reads documents: the
  text redaction of events, the conversion of durations for display, string trimming and
  lower-casing of Unicode, the JSON readers of dependency lists, tool arguments and tool results,
  the catalogue of tools with their timeouts and argument checks, the summary of a failure text, the
  environment of a request (slots, answers, clocks), the embedding model and the hash of a text, how
  a tool answers, what other clients commit in between, and the insight retry a dashboard retry calls.

  Not modelled, and why. The steps of \<open>job_step\<close> (Job_System) are the workers', schedulers' and users'
  transactions of \<open>storage/jobs.rs\<close> and their callers; explicit retries, registry rows and the
  insight refreshes are added in \<open>writer_step\<close> (Job_Reopen), where the invariant of the tables and the
  fence of lost claims (\<open>lost_claim_stays_lost\<close>) are proved again over all writers. Of the
  further writers the effects on the insight and brief tables are left out. Of the investigations store: the deletion of a thread
  together with its insights, and the texts of answer memories. Of the tool runner: its telemetry
  rows, and \<open>execute_budgeted_calls\<close>, which nothing calls. Of the ledger under concurrent processes:
  the release of every hold at recovery, which \<open>recovered_hold_uncharged\<close> shows to break the
  assumption that others leave the holds of a batch alone. The step loop of a Recon turn, its
  prompts and bindings, the Intel stages, Atlas, the Brain graph and its views, actor profiles and
  the text pipeline are rules over free text and model answers with few invariants of their own.
  Terminal and web interfaces, network clients of providers, language models, parsers of remote
  documents, configuration screens and telemetry do input and output and keep no state of the core.
\<close>

end
